(* ===== verification/Cosy_Prelude.thy ===== *)
theory Cosy_Prelude
  imports Main "HOL-Library.Word" "HOL-Library.Char_ord"
begin

text \<open>
  Shared material of the development: the result type in which every fallible operation of
  the program is modelled, checked access to containers, the machine integer types, and the
  generic lemmas on lists and words that several components use.

  The collection \<open>run_simps\<close> gathers the equations that evaluate the result type; the
  collection \<open>wf_intros\<close> gathers the preservation lemmas of the components' invariants.
\<close>

unbundle bit_operations_syntax

named_theorems run_simps
named_theorems wf_intros

section \<open>Machine integers\<close>

text \<open>
  The program is compiled for LP64 targets: \<open>int\<close> and \<open>unsigned int\<close> have 32 bits,
  \<open>int64\<close>, \<open>uint64\<close> and \<open>size_t\<close> have 64. Signed values are kept as words and read
  with \<open>sint\<close>; comparisons of signed values are \<open>\<le>s\<close> and \<open><s\<close>.
\<close>

type_synonym int32 = "32 word"
type_synonym int64 = "64 word"

section \<open>Results\<close>

text \<open>
  \<open>Check_failed\<close>: a \<open>CHECK\<close> or \<open>DCHECK\<close> of \<open>Logging.h\<close> (an \<open>assert\<close>) does not hold.
  \<open>Out_of_range\<close>: \<open>at\<close> of a standard map throws. \<open>Bad_index\<close>: a vector is read or
  written outside its bounds, or \<open>back\<close> is called on an empty one, which the language
  leaves undefined. \<open>Null_pointer\<close>: a null pointer is followed.
  \<open>Out_of_memory\<close>: the allocator of the solvers throws.
\<close>

datatype error = Check_failed | Out_of_range | Bad_index | Null_pointer | Out_of_memory

type_synonym 'a result = "error + 'a"

primrec andThen :: "'a result \<Rightarrow> ('a \<Rightarrow> 'b result) \<Rightarrow> 'b result" where
  "andThen (Inl e) f = Inl e"
| "andThen (Inr x) f = f x"

definition check :: "bool \<Rightarrow> 'a result \<Rightarrow> 'a result" where
  "check c k = (if c then k else Inl Check_failed)"

definition vec_at :: "'a list \<Rightarrow> nat \<Rightarrow> 'a result" where
  "vec_at xs i = (if i < length xs then Inr (xs ! i) else Inl Bad_index)"

definition vec_put :: "'a list \<Rightarrow> nat \<Rightarrow> 'a \<Rightarrow> 'a list result" where
  "vec_put xs i x = (if i < length xs then Inr (xs[i := x]) else Inl Bad_index)"

definition vec_resize :: "'a list \<Rightarrow> nat \<Rightarrow> 'a \<Rightarrow> 'a list" where
  "vec_resize xs n d = take n xs @ replicate (n - length xs) d"

definition map_at :: "('k \<rightharpoonup> 'v) \<Rightarrow> 'k \<Rightarrow> 'v result" where
  "map_at m k = (case m k of None \<Rightarrow> Inl Out_of_range | Some v \<Rightarrow> Inr v)"

text \<open>A loop over a range, threading a state that each iteration may fail to produce.\<close>

fun foldR :: "('a \<Rightarrow> 's \<Rightarrow> 's result) \<Rightarrow> 'a list \<Rightarrow> 's \<Rightarrow> 's result" where
  "foldR f [] s = Inr s"
| "foldR f (x # xs) s = andThen (f x s) (foldR f xs)"

text \<open>A search loop that returns \<open>true\<close> at the first element that satisfies the test.\<close>

fun anyR :: "('a \<Rightarrow> bool result) \<Rightarrow> 'a list \<Rightarrow> bool result" where
  "anyR f [] = Inr False"
| "anyR f (x # xs) = andThen (f x) (\<lambda>b. if b then Inr True else anyR f xs)"

text \<open>
  \<open>insert\<close> of an \<open>unordered_set\<close>, kept as the list of its elements in insertion order.
\<close>

definition uset_insert :: "'a \<Rightarrow> 'a list \<Rightarrow> 'a list" where
  "uset_insert x xs = (if x \<in> set xs then xs else xs @ [x])"

text \<open>\<open>std::to_string\<close> of an \<open>int\<close>.\<close>

fun decimal :: "nat \<Rightarrow> string" where
  "decimal n = (if n < 10 then [char_of (48 + n)] else decimal (n div 10) @ [char_of (48 + n mod 10)])"

declare decimal.simps [simp del]

definition to_string :: "int32 \<Rightarrow> string" where
  "to_string w =
     (if w <s 0 then ''-'' @ decimal (nat (- sint w)) else decimal (nat (sint w)))"

lemma anyR_Inr:
  "(\<And>x. x \<in> set xs \<Longrightarrow> f x = Inr (P x)) \<Longrightarrow> anyR f xs = Inr (\<exists>x \<in> set xs. P x)"
  by (induction xs) auto

lemma set_uset_insert [simp]: "set (uset_insert x xs) = insert x (set xs)"
  by (auto simp: uset_insert_def)

lemma distinct_uset_insert [simp]: "distinct (uset_insert x xs) \<longleftrightarrow> distinct xs"
  by (simp add: uset_insert_def)

lemma andThen_Inr_iff [run_simps]:
  "andThen m f = Inr y \<longleftrightarrow> (\<exists>x. m = Inr x \<and> f x = Inr y)"
  by (cases m) auto

lemma andThen_Inl_iff: "andThen m f = Inl e \<longleftrightarrow> m = Inl e \<or> (\<exists>x. m = Inr x \<and> f x = Inl e)"
  by (cases m) auto

lemma andThen_assoc: "andThen (andThen m f) g = andThen m (\<lambda>x. andThen (f x) g)"
  by (cases m) auto

lemma check_Inr_iff [run_simps]: "check c k = Inr y \<longleftrightarrow> c \<and> k = Inr y"
  by (simp add: check_def)

lemma check_True [simp]: "c \<Longrightarrow> check c k = k"
  by (simp add: check_def)

lemma check_False [simp]: "\<not> c \<Longrightarrow> check c k = Inl Check_failed"
  by (simp add: check_def)

lemma vec_at_Inr [simp]: "i < length xs \<Longrightarrow> vec_at xs i = Inr (xs ! i)"
  by (simp add: vec_at_def)

lemma vec_at_Inr_iff [run_simps]: "vec_at xs i = Inr x \<longleftrightarrow> i < length xs \<and> xs ! i = x"
  by (simp add: vec_at_def)

lemma vec_put_Inr [simp]: "i < length xs \<Longrightarrow> vec_put xs i x = Inr (xs[i := x])"
  by (simp add: vec_put_def)

lemma vec_put_Inr_iff [run_simps]:
  "vec_put xs i x = Inr ys \<longleftrightarrow> i < length xs \<and> ys = xs[i := x]"
  by (auto simp: vec_put_def)

lemma length_vec_resize [simp]: "length (vec_resize xs n d) = n"
  by (simp add: vec_resize_def)

lemma nth_vec_resize:
  "i < n \<Longrightarrow> vec_resize xs n d ! i = (if i < length xs then xs ! i else d)"
  by (simp add: vec_resize_def nth_append)

lemma map_at_Some [simp]: "m k = Some v \<Longrightarrow> map_at m k = Inr v"
  by (simp add: map_at_def)

lemma map_at_None [simp]: "m k = None \<Longrightarrow> map_at m k = Inl Out_of_range"
  by (simp add: map_at_def)

lemma map_at_Inr_iff [run_simps]: "map_at m k = Inr v \<longleftrightarrow> m k = Some v"
  by (simp add: map_at_def split: option.splits)

lemma foldR_map: "foldR f (map g xs) = foldR (\<lambda>x. f (g x)) xs"
  by (induction xs) auto

lemma foldR_append: "foldR f (xs @ ys) s = andThen (foldR f xs s) (foldR f ys)"
proof (induction xs arbitrary: s)
  case Nil
  show ?case by simp
next
  case (Cons x xs)
  have "foldR f (xs @ ys) = (\<lambda>s. andThen (foldR f xs s) (foldR f ys))"
    by (rule ext) (rule Cons.IH)
  then show ?case by (simp add: andThen_assoc)
qed

text \<open>The rule for loops: an invariant over the part of the range already visited.\<close>

lemma foldR_total:
  assumes "P [] s"
    and "\<And>pre x post s. xs = pre @ x # post \<Longrightarrow> P pre s \<Longrightarrow> \<exists>s'. f x s = Inr s' \<and> P (pre @ [x]) s'"
  shows "\<exists>s'. foldR f xs s = Inr s' \<and> P xs s'"
proof -
  have "\<exists>s'. foldR f ys s = Inr s' \<and> P ys s'" if "xs = ys @ zs" for ys zs
    using that
  proof (induction ys arbitrary: zs rule: rev_induct)
    case Nil
    then show ?case using assms(1) by simp
  next
    case (snoc y ys)
    then obtain s1 where "foldR f ys s = Inr s1" "P ys s1"
      by (metis append.assoc append_Cons append_Nil)
    moreover from this snoc.prems obtain s2 where "f y s1 = Inr s2" "P (ys @ [y]) s2"
      using assms(2) [of ys y zs s1] by auto
    ultimately show ?case by (simp add: foldR_append)
  qed
  from this [of xs "[]"] show ?thesis by simp
qed

lemma foldR_invariant:
  assumes "foldR f xs s = Inr s'" "P [] s"
    and "\<And>pre x post s s'. xs = pre @ x # post \<Longrightarrow> P pre s \<Longrightarrow> f x s = Inr s' \<Longrightarrow> P (pre @ [x]) s'"
  shows "P xs s'"
proof -
  have "P ys s1" if "xs = ys @ zs" "foldR f ys s = Inr s1" for ys zs s1
    using that
  proof (induction ys arbitrary: zs s1 rule: rev_induct)
    case Nil
    then show ?case using assms(2) by simp
  next
    case (snoc y ys)
    from snoc.prems(2) obtain s2 where s2: "foldR f ys s = Inr s2" "f y s2 = Inr s1"
      by (auto simp: foldR_append run_simps)
    from snoc.prems(1) have xs: "xs = ys @ y # zs" by simp
    from snoc.IH [OF xs s2(1)] have "P ys s2" .
    then show ?case using assms(3) [OF xs] s2(2) by blast
  qed
  from this [of xs "[]"] assms(1) show ?thesis by simp
qed

section \<open>Generic lemmas\<close>

lemma sint_small:
  fixes w :: "'a::len word"
  assumes "unat w < 2 ^ (LENGTH('a) - 1)"
  shows "sint w = int (unat w)"
proof -
  have "int (unat w) < int (2 ^ (LENGTH('a) - 1))"
    using assms by (simp only: of_nat_less_iff)
  then have "uint w < 2 ^ (LENGTH('a) - Suc 0)"
    by simp
  moreover have "- (2 ^ (LENGTH('a) - Suc 0)) \<le> uint w"
    by (rule order_trans [of _ 0]) simp_all
  ultimately have "signed_take_bit (LENGTH('a) - Suc 0) (uint w) = uint w"
    by (simp only: signed_take_bit_int_eq_self)
  then show ?thesis by (simp only: sint_uint uint_nat)
qed

lemma sint_nonneg_small:
  fixes w :: "'a::len word"
  assumes "0 \<le> sint w"
  shows "unat w < 2 ^ (LENGTH('a) - 1)"
proof -
  have lt: "sint w < 2 ^ (LENGTH('a) - 1)" by (rule sint_lt)
  also have "(2 :: int) ^ (LENGTH('a) - 1) \<le> 2 ^ LENGTH('a)" by simp
  finally have "sint w mod 2 ^ LENGTH('a) = sint w" using assms by simp
  then have "uint w = sint w"
    using uint_word_of_int [where ?'a = 'a, of "sint w"] by simp
  then have "int (unat w) < int (2 ^ (LENGTH('a) - 1))"
    using lt by simp
  then show ?thesis by (simp only: of_nat_less_iff)
qed

lemma sint_nonneg_iff:
  fixes w :: "'a::len word"
  shows "0 \<le> sint w \<longleftrightarrow> unat w < 2 ^ (LENGTH('a) - 1)"
  by (auto dest: sint_nonneg_small simp: sint_small)

lemma unat_push_bit_small:
  "unat w * 2 ^ n < 2 ^ LENGTH('a) \<Longrightarrow> unat (push_bit n (w :: 'a::len word)) = unat w * 2 ^ n"
  by (simp only: unsigned_push_bit_eq) (simp add: push_bit_eq_mult take_bit_nat_eq_self)

lemma sint_eq_iff: "sint (a :: 'a::len word) = sint b \<longleftrightarrow> a = b"
proof
  assume "sint a = sint b"
  then have "(word_of_int (sint a) :: 'a word) = word_of_int (sint b)" by (rule arg_cong)
  then show "a = b" by simp
qed simp

lemma sint_uminus:
  assumes "- (2 ^ 31) < sint (w :: int32)"
  shows "sint (- w) = - sint w"
proof -
  have "sint w < 2 ^ 31" using sint_lt [of w] by simp
  then have "signed_take_bit 31 (- sint w) = - sint w"
    using assms by (intro signed_take_bit_int_eq_self) simp_all
  then show ?thesis by (simp add: sint_word_ariths)
qed

lemma unat_word32_eq_iff: "(v = (w :: int32)) \<longleftrightarrow> unat v = unat w"
  by (simp add: word_unat_eq_iff)

lemma unat_scast_small:
  assumes "unat (i :: int32) < 2 ^ 31"
  shows "unat (scast i :: int64) = unat i"
proof -
  have s: "sint i = int (unat i)" by (rule sint_small) (use assms in simp)
  have "uint (scast i :: int64) = sint i mod 2 ^ 64"
    by (simp only: scast_eq uint_word_of_int) simp
  also have "\<dots> = int (unat i) mod 2 ^ 64" by (simp only: s)
  also have "\<dots> = int (unat i mod 2 ^ 64)" by (simp only: zmod_int of_nat_power of_nat_numeral)
  also have "\<dots> = int (unat i)" using assms by simp
  finally have "int (unat (scast i :: int64)) = int (unat i)" by (simp only: uint_nat)
  then show ?thesis by (simp only: of_nat_eq_iff)
qed

lemma nth_append_snoc [simp]: "(xs @ [x]) ! length xs = x"
  by simp

lemma Suc_double_neq [simp]: "Suc (2 * k) \<noteq> 2 * m" "2 * m \<noteq> Suc (2 * k)"
  by presburger+

lemma ex_Some_bool [simp]: "(\<exists>z. x = Some z \<and> z) \<longleftrightarrow> x = Some True"
    "(\<exists>z. x = Some z \<and> \<not> z) \<longleftrightarrow> x = Some False"
  by (auto intro: exI [of _ True] exI [of _ False])

lemma bex_upt_nth: "(\<exists>i \<in> set [0..<length xs]. P (xs ! i)) \<longleftrightarrow> (\<exists>x \<in> set xs. P x)"
proof
  assume "\<exists>x \<in> set xs. P x"
  then obtain i where "i < length xs" "P (xs ! i)" by (auto simp: in_set_conv_nth)
  then show "\<exists>i \<in> set [0..<length xs]. P (xs ! i)" by auto
qed auto

lemma Union_upt_nth: "(\<Union>i \<in> set [0..<length xs]. f (xs ! i)) = (\<Union>x \<in> set xs. f x)"
proof (rule set_eqI)
  fix y
  show "y \<in> (\<Union>i \<in> set [0..<length xs]. f (xs ! i)) \<longleftrightarrow> y \<in> (\<Union>x \<in> set xs. f x)"
    using bex_upt_nth [of xs "\<lambda>c. y \<in> f c"] by simp
qed

lemma distinct_snoc: "distinct (xs @ [x]) \<longleftrightarrow> x \<notin> set xs \<and> distinct xs"
  by auto

section \<open>Loops that may not end\<close>

text \<open>Sequencing inside the partial functions: an error ends the loop, and
  \<open>None\<close> is a loop that does not end.\<close>

definition bindP :: "'a result option \<Rightarrow> ('a \<Rightarrow> 'b result option) \<Rightarrow> 'b result option" where
  "bindP m k = Option.bind m (case_sum (\<lambda>e. Some (Inl e)) k)"

lemma bindP_mono [partial_function_mono]:
  assumes "mono_option f" "\<And>x. mono_option (\<lambda>h. g x h)"
  shows "mono_option (\<lambda>h. bindP (f h) (\<lambda>x. g x h))"
  unfolding bindP_def
proof (rule bind_mono [OF assms(1)])
  fix r
  show "mono_option (\<lambda>h. case r of Inl e \<Rightarrow> Some (Inl e) | Inr x \<Rightarrow> g x h)"
    using assms(2) by (cases r) (auto intro: option.const_mono)
qed

lemma bindP_simps [simp]:
  "bindP (Some (Inl e)) k = Some (Inl e)" "bindP (Some (Inr x)) k = k x" "bindP None k = None"
  by (simp_all add: bindP_def)

fun foldP :: "('a \<Rightarrow> 's \<Rightarrow> 's result option) \<Rightarrow> 'a list \<Rightarrow> 's \<Rightarrow> 's result option" where
  "foldP f [] s = Some (Inr s)"
| "foldP f (x # xs) s = bindP (f x s) (foldP f xs)"

lemma foldP_total:
  assumes "P [] s"
    and "\<And>pre x post s. xs = pre @ x # post \<Longrightarrow> P pre s \<Longrightarrow>
      \<exists>s'. f x s = Some (Inr s') \<and> P (pre @ [x]) s'"
  shows "\<exists>s'. foldP f xs s = Some (Inr s') \<and> P xs s'"
proof -
  have "\<exists>s'. foldP f post s = Some (Inr s') \<and> P xs s'" if "xs = pre @ post" "P pre s" for pre post s
    using that
  proof (induction post arbitrary: pre s)
    case Nil
    then show ?case by simp
  next
    case (Cons x post)
    with assms(2) obtain s' where "f x s = Some (Inr s')" "P (pre @ [x]) s'" by blast
    with Cons show ?case by simp
  qed
  from this [of "[]" xs] assms(1) show ?thesis by simp
qed

end
