(* ===== verification/Literals.thy ===== *)
theory Literals
  imports Cosy_Prelude
begin

text \<open>
  The class \<open>Literal\<close> of \<open>include/cosy/Literal.h\<close>, with \<open>BooleanVariable\<close> and
  \<open>LiteralIndex\<close> (both \<open>IntType\<close> wrappers of \<open>int\<close>, whose operators are those of the
  wrapped integer) as 32-bit words. A literal is its index: twice the variable, plus one when
  negative. Overflowing signed arithmetic wraps, as the compiled code does.
\<close>

unbundle bit_operations_syntax

section \<open>The class\<close>

type_synonym variable = int32

datatype literal = Lit (index: int32)

definition kNoBooleanVariable :: variable where
  "kNoBooleanVariable = -1"

definition kNoLiteralIndex :: int32 where
  "kNoLiteralIndex = -1"

definition kTrueLiteralIndex :: int32 where
  "kTrueLiteralIndex = -2"

definition kFalseLiteralIndex :: int32 where
  "kFalseLiteralIndex = -3"

definition signed_index :: "int32 \<Rightarrow> int32" where
  "signed_index sv =
     (if 0 <s sv then push_bit 1 (sv - 1) else push_bit 1 (- sv - 1) XOR 1)"

definition Literal_signed :: "int32 \<Rightarrow> literal result" where
  "Literal_signed sv = check (sv \<noteq> 0) (Inr (Lit (signed_index sv)))"

definition Literal_var :: "variable \<Rightarrow> bool \<Rightarrow> literal" where
  "Literal_var v is_positive =
     Lit (if is_positive then push_bit 1 v else push_bit 1 v XOR 1)"

definition variable :: "literal \<Rightarrow> variable" where
  "variable l = signed_drop_bit 1 (index l)"

definition isPositive :: "literal \<Rightarrow> bool" where
  "isPositive l \<longleftrightarrow> \<not> (index l AND 1 \<noteq> 0)"

definition isNegative :: "literal \<Rightarrow> bool" where
  "isNegative l \<longleftrightarrow> index l AND 1 \<noteq> 0"

definition negatedIndex :: "literal \<Rightarrow> int32" where
  "negatedIndex l = index l XOR 1"

definition negated :: "literal \<Rightarrow> literal" where
  "negated l = Lit (negatedIndex l)"

definition signedValue :: "literal \<Rightarrow> int32" where
  "signedValue l =
     (if index l AND 1 \<noteq> 0 then - (signed_drop_bit 1 (index l) + 1)
      else signed_drop_bit 1 (index l) + 1)"

text \<open>\<open>operator<\<close> compares the indexes as signed integers.\<close>

instantiation literal :: linorder
begin

definition less_eq_literal :: "literal \<Rightarrow> literal \<Rightarrow> bool" where
  "less_eq_literal l m \<longleftrightarrow> index l \<le>s index m"

definition less_literal :: "literal \<Rightarrow> literal \<Rightarrow> bool" where
  "less_literal l m \<longleftrightarrow> index l <s index m"

instance
proof
  fix x y z :: literal
  show "(x < y) = (x \<le> y \<and> \<not> y \<le> x)"
    by (auto simp: less_eq_literal_def less_literal_def word_sle_eq word_sless_alt)
  show "x \<le> x" by (simp add: less_eq_literal_def word_sle_eq)
  show "x \<le> y \<Longrightarrow> y \<le> z \<Longrightarrow> x \<le> z" by (simp add: less_eq_literal_def word_sle_eq)
  show "x \<le> y \<Longrightarrow> y \<le> x \<Longrightarrow> x = y"
    by (rule literal.expand) (simp add: less_eq_literal_def word_sle_eq sint_eq_iff [symmetric])
  show "x \<le> y \<or> y \<le> x" by (auto simp: less_eq_literal_def word_sle_eq)
qed

end

section \<open>Bits of the index\<close>

lemma isPositive_bit: "isPositive l \<longleftrightarrow> \<not> bit (index l) 0"
  by (simp add: isPositive_def bit_0 and_one_eq odd_iff_mod_2_eq_one)

lemma isNegative_iff [simp]: "isNegative l \<longleftrightarrow> \<not> isPositive l"
  by (simp add: isNegative_def isPositive_def)

lemma bit_xor_one: "bit (i XOR (1 :: int32)) n \<longleftrightarrow> bit i n \<noteq> (n = 0)"
  by (auto simp: bit_xor_iff bit_1_iff)

lemma bit_variable:
  "bit (variable l) n \<longleftrightarrow> bit (index l) (if n = 31 then 31 else Suc n)"
  unfolding variable_def bit_signed_drop_bit_iff by auto

lemma negated_negated [simp]: "negated (negated l) = l"
  by (cases l) (simp add: negated_def negatedIndex_def xor.assoc)

lemma isPositive_negated [simp]: "isPositive (negated l) \<longleftrightarrow> \<not> isPositive l"
  by (simp add: isPositive_bit negated_def negatedIndex_def bit_xor_one)

lemma variable_negated [simp]: "variable (negated l) = variable l"
  by (rule bit_word_eqI) (simp add: bit_variable negated_def negatedIndex_def bit_xor_one)

lemma negated_neq [simp]: "negated l \<noteq> l" "l \<noteq> negated l"
  by (metis isPositive_negated)+

lemma negated_inject [simp]: "negated l = negated m \<longleftrightarrow> l = m"
  by (metis negated_negated)

lemma bit_push_1: "bit (push_bit 1 (v :: int32)) n \<longleftrightarrow> n < 32 \<and> 0 < n \<and> bit v (n - 1)"
  by (simp only: bit_push_bit_iff possible_bit_word) auto

lemma bit_index_Literal_var:
  "bit (index (Literal_var v p)) n \<longleftrightarrow> n < 32 \<and> (if n = 0 then \<not> p else bit v (n - 1))"
  by (auto simp only: Literal_var_def bit_xor_one bit_push_1 literal.sel split: if_splits)

lemma isPositive_Literal_var [simp]: "isPositive (Literal_var v p) \<longleftrightarrow> p"
  by (simp add: isPositive_bit bit_index_Literal_var)

lemma negated_Literal_var [simp]: "negated (Literal_var v p) = Literal_var v (\<not> p)"
  by (cases p) (simp_all add: negated_def negatedIndex_def Literal_var_def xor.assoc)

lemma Literal_var_variable [simp]: "Literal_var (variable l) (isPositive l) = l"
proof (rule literal.expand, rule bit_word_eqI)
  fix n assume "n < LENGTH(32)"
  then show "bit (index (Literal_var (variable l) (isPositive l))) n = bit (index l) n"
    by (auto simp: bit_index_Literal_var bit_variable isPositive_bit)
qed

lemma literal_eq_iff: "l = m \<longleftrightarrow> variable l = variable m \<and> isPositive l = isPositive m"
proof
  assume "variable l = variable m \<and> isPositive l = isPositive m"
  then have "Literal_var (variable l) (isPositive l) = Literal_var (variable m) (isPositive m)"
    by (simp only:)
  then show "l = m" by (simp only: Literal_var_variable)
qed simp

lemma same_variable: "variable l = variable m \<longleftrightarrow> l = m \<or> l = negated m"
  by (cases "isPositive l = isPositive m") (auto simp: literal_eq_iff)

section \<open>Variables in range\<close>

text \<open>
  The index of a variable fits an \<open>int\<close> when the variable is below \<open>2 ^ 30\<close>; all components
  work with such variables.
\<close>

definition small_var :: "variable \<Rightarrow> bool" where
  "small_var v \<longleftrightarrow> unat v < 2 ^ 30"

lemma small_var_bits:
  assumes "small_var v" "30 \<le> n"
  shows "\<not> bit v n"
proof -
  have "unat v = take_bit 30 (unat v)"
    using assms(1) by (simp add: small_var_def take_bit_nat_eq_self)
  then have "v = take_bit 30 v"
    by (metis unsigned_take_bit_eq word_unat_eq_iff)
  then show ?thesis using assms(2) by (metis bit_take_bit_iff linorder_not_less)
qed

lemma variable_Literal_var [simp]: "small_var v \<Longrightarrow> variable (Literal_var v p) = v"
  by (rule bit_word_eqI) (auto simp: bit_variable bit_index_Literal_var small_var_bits)

lemma unat_index_Literal_var:
  assumes "small_var v"
  shows "unat (index (Literal_var v p)) = 2 * unat v + (if p then 0 else 1)"
proof -
  have push: "unat (push_bit 1 v) = 2 * unat v"
    using assms unat_push_bit_small [of v 1] by (simp add: small_var_def mult.commute)
  have "push_bit 1 v XOR 1 = push_bit 1 v OR 1"
    by (rule bit_word_eqI) (auto simp only: bit_xor_iff bit_or_iff bit_1_iff bit_push_1)
  also have "\<dots> = push_bit 1 v + 1"
    by (rule disjunctive_add [symmetric]) (auto simp only: bit_1_iff bit_push_1)
  finally have x: "push_bit 1 v XOR 1 = push_bit 1 v + 1" .
  have "2 * unat v + 1 < 2 ^ LENGTH(32)"
    using assms by (simp add: small_var_def)
  then have "unat (push_bit 1 v + 1) = 2 * unat v + 1"
    using push by (simp add: unat_word_ariths)
  with push x show ?thesis by (simp add: Literal_var_def)
qed

lemma unat_index:
  "small_var (variable l) \<Longrightarrow>
    unat (index l) = 2 * unat (variable l) + (if isPositive l then 0 else 1)"
  using unat_index_Literal_var [of "variable l" "isPositive l"] by simp

lemma unat_index_div_2: "small_var (variable l) \<Longrightarrow> unat (index l) div 2 = unat (variable l)"
  by (simp add: unat_index)

section \<open>The signed representation\<close>

lemma signedValue_variable:
  "signedValue l = (if isPositive l then variable l + 1 else - (variable l + 1))"
  by (simp add: signedValue_def isPositive_def variable_def)

lemma signed_index_var:
  "signed_index sv = index (if 0 <s sv then Literal_var (sv - 1) True else Literal_var (- sv - 1) False)"
  by (simp add: signed_index_def Literal_var_def)

lemma small_var_signed:
  assumes "sv \<noteq> 0" "\<bar>sint sv\<bar> \<le> 2 ^ 30"
  shows "0 <s sv \<Longrightarrow> small_var (sv - 1)" and "\<not> 0 <s sv \<Longrightarrow> small_var (- sv - 1)"
proof -
  have *: "small_var (w - 1)" if "w \<noteq> 0" "sint w = \<bar>sint sv\<bar>" for w :: int32
  proof -
    have "0 \<le> sint w" using that by simp
    then have "sint w = int (unat w)"
      using sint_nonneg_small [of w] by (simp add: sint_small)
    then have "int (unat w) \<le> int (2 ^ 30)" using that assms(2) by simp
    then have "unat w \<le> 2 ^ 30" by (simp only: of_nat_le_iff)
    moreover have "unat (w - 1) = unat w - 1" using that(1) by (simp add: unat_minus_one)
    moreover have "0 < unat w" using that(1) by (simp add: unat_gt_0)
    ultimately show ?thesis by (simp add: small_var_def)
  qed
  show "small_var (sv - 1)" if "0 <s sv"
    using that assms(1) by (intro *) (simp_all add: word_sless_alt)
  show "small_var (- sv - 1)" if "\<not> 0 <s sv"
  proof (rule *)
    have "sint sv \<le> 0" "- (2 ^ 30) \<le> sint sv" using that assms by (simp_all add: word_sless_alt)
    moreover from this have "sint (- sv) = - sint sv"
      by (simp add: sint_word_ariths signed_take_bit_int_eq_self)
    ultimately show "sint (- sv) = \<bar>sint sv\<bar>" by simp
  qed (use assms(1) in simp)
qed

text \<open>
  A nonzero signed value of magnitude at most 2^30 becomes a literal whose sign and variable
  are those of the DIMACS encoding, and \<open>signedValue\<close> gives the value back.
\<close>

lemma signed_round_trip:
  assumes "sv \<noteq> 0" "\<bar>sint sv\<bar> \<le> 2 ^ 30"
  shows "\<exists>l. Literal_signed sv = Inr l \<and> signedValue l = sv
    \<and> isPositive l = (0 <s sv) \<and> variable l = (if 0 <s sv then sv - 1 else - sv - 1)
    \<and> small_var (variable l)"
  using assms small_var_signed [OF assms]
  by (auto simp: Literal_signed_def signed_index_var signedValue_variable)

lemma signed_round_trip_witness:
  "\<exists>l. Literal_signed (-5) = Inr l \<and> signedValue l = -5 \<and> \<not> isPositive l \<and> variable l = 4"
  using signed_round_trip [of "-5"] by (auto simp: word_sless_alt)

text \<open>
  Negation of a literal is an involution that keeps the variable and flips the sign, and it
  is the sign change of the signed value; no literal is its own negation.
\<close>

lemma negation_laws:
  "negated (negated l) = l \<and> negated l \<noteq> l \<and> variable (negated l) = variable l
   \<and> isPositive (negated l) = (\<not> isPositive l) \<and> signedValue (negated l) = - signedValue l"
  by (simp add: signedValue_variable)

text \<open>The other direction: a literal over a variable in range is read back from its signed value.\<close>

lemma Literal_signed_signedValue:
  assumes "small_var (variable l)"
  shows "Literal_signed (signedValue l) = Inr l"
proof -
  let ?w = "variable l + 1"
  have u: "unat ?w = Suc (unat (variable l))"
    using assms by (simp add: small_var_def unat_word_ariths)
  then have s: "sint ?w = int (Suc (unat (variable l)))"
    using assms by (subst sint_small) (simp_all add: small_var_def)
  have pos': "0 < sint ?w" unfolding s by (simp only: of_nat_0_less_iff zero_less_Suc)
  then have pos: "0 <s ?w" by (simp add: word_sless_alt)
  have "sint (- ?w) = - sint ?w" by (rule sint_uminus) (use pos' in simp)
  then have neg: "\<not> 0 <s - ?w" using pos' by (simp only: word_sless_alt) simp
  have nz: "?w \<noteq> 0" using u by (metis nat.distinct(1) unat_0)
  then have nz': "- ?w \<noteq> 0" by (simp only: neg_equal_0_iff_equal not_False_eq_True)
  have l: "Lit (index (Literal_var (variable l) (isPositive l))) = l"
    using Literal_var_variable [of l] by simp
  show ?thesis
  proof (cases "isPositive l")
    case True
    then have "Lit (index (Literal_var (variable l) True)) = l" using l by simp
    then show ?thesis
      using True pos nz by (simp add: Literal_signed_def signed_index_var signedValue_variable)
  next
    case False
    then have "Lit (index (Literal_var (variable l) False)) = l" using l by simp
    then show ?thesis
      using False neg nz' by (simp add: Literal_signed_def signed_index_var signedValue_variable)
  qed
qed

end
