(* ===== verification/Permutations.thy ===== *)
theory Permutations
  imports Literals
begin

text \<open>
  The class \<open>Permutation\<close> of \<open>include/cosy/Permutation.h\<close> and \<open>src/Permutation.cc\<close>: a product
  of cycles of literals built one literal at a time, with the image and inverse tables that the
  lookups use. The relation \<open>perm_repr\<close> says which cycles a state stands for; every operation
  is characterised through it.
\<close>

section \<open>State and operations\<close>

record permutation =
  p_size :: int32
  p_cycles :: "literal list"
  p_cycles_lim :: "nat list"
  p_image :: "literal \<rightharpoonup> literal"
  p_inverse :: "literal \<rightharpoonup> literal"

definition Permutation_new :: "int32 \<Rightarrow> permutation" where
  "Permutation_new sz =
     \<lparr>p_size = sz, p_cycles = [], p_cycles_lim = [], p_image = Map.empty, p_inverse = Map.empty\<rparr>"

definition numberOfCycles :: "permutation \<Rightarrow> nat" where
  "numberOfCycles p = length (p_cycles_lim p)"

definition isIdentity :: "permutation \<Rightarrow> bool" where
  "isIdentity p \<longleftrightarrow> p_cycles p = []"

definition support :: "permutation \<Rightarrow> literal list" where
  "support p = p_cycles p"

definition lim_back :: "permutation \<Rightarrow> nat" where
  "lim_back p = (if p_cycles_lim p = [] then 0 else last (p_cycles_lim p))"

definition map_link :: "literal \<Rightarrow> literal \<Rightarrow> permutation \<Rightarrow> permutation" where
  "map_link e i p = p\<lparr>p_image := (p_image p)(e \<mapsto> i), p_inverse := (p_inverse p)(i \<mapsto> e)\<rparr>"

definition addToCurrentCycle :: "permutation \<Rightarrow> literal \<Rightarrow> permutation result" where
  "addToCurrentCycle p x =
     (let cs = length (p_cycles p);
          back = lim_back p;
          p1 = p\<lparr>p_cycles := p_cycles p @ [x]\<rparr>
      in if length (p_cycles p1) > 0 \<and> cs \<noteq> back then
           (if cs = 0 then Inl Bad_index
            else andThen (vec_at (p_cycles p1) (cs - 1)) (\<lambda>e.
                 andThen (vec_at (p_cycles p1) cs) (\<lambda>i. Inr (map_link e i p1))))
         else Inr p1)"

text \<open>A cycle is the range of literals between two limits, as the iterator pair of the code.\<close>

definition cycle :: "permutation \<Rightarrow> nat \<Rightarrow> literal list result" where
  "cycle p i = check (i < numberOfCycles p)
     (andThen (if i = 0 then Inr 0 else vec_at (p_cycles_lim p) (i - 1)) (\<lambda>lo.
      andThen (vec_at (p_cycles_lim p) i) (\<lambda>hi.
        if lo \<le> hi \<and> hi \<le> length (p_cycles p)
        then Inr (take (hi - lo) (drop lo (p_cycles p))) else Inl Bad_index)))"

definition lastElementInCycle :: "permutation \<Rightarrow> nat \<Rightarrow> literal result" where
  "lastElementInCycle p i = check (i < numberOfCycles p)
     (andThen (vec_at (p_cycles_lim p) i) (\<lambda>hi.
        if hi = 0 then Inl Bad_index else vec_at (p_cycles p) (hi - 1)))"

definition closeCurrentCycle :: "permutation \<Rightarrow> permutation result" where
  "closeCurrentCycle p =
     (let sz = length (p_cycles p); back = lim_back p
      in if back = sz then Inr p
         else check (back + 2 \<le> sz)
           (let p1 = p\<lparr>p_cycles_lim := p_cycles_lim p @ [sz]\<rparr>;
                num_cycle = length (p_cycles_lim p1) - 1
            in andThen (lastElementInCycle p1 num_cycle) (\<lambda>e.
               andThen (cycle p1 num_cycle) (\<lambda>c.
               andThen (vec_at c 0) (\<lambda>i. Inr (map_link e i p1))))))"

definition imageOf :: "permutation \<Rightarrow> literal \<Rightarrow> literal result" where
  "imageOf p l = map_at (p_image p) l"

definition inverseOf :: "permutation \<Rightarrow> literal \<Rightarrow> literal result" where
  "inverseOf p l = map_at (p_inverse p) l"

definition isTrivialImage :: "permutation \<Rightarrow> literal \<Rightarrow> bool" where
  "isTrivialImage p l \<longleftrightarrow> p_image p l = None"

definition isTrivialInverse :: "permutation \<Rightarrow> literal \<Rightarrow> bool" where
  "isTrivialInverse p l \<longleftrightarrow> p_inverse p l = None"

text \<open>\<open>debugPrint\<close>: the text it writes to the standard output.\<close>

definition print_cycle :: "permutation \<Rightarrow> nat \<Rightarrow> string \<Rightarrow> string result" where
  "print_cycle p c out =
     andThen (cycle p c) (\<lambda>cs.
     andThen (lastElementInCycle p c) (\<lambda>l.
       Inr (out @ ''('' @ concat (map (\<lambda>e. if e = l then to_string (signedValue e)
                                          else to_string (signedValue e) @ '' '') cs) @ '')'')))"

definition Permutation_debugPrint :: "permutation \<Rightarrow> string result" where
  "Permutation_debugPrint p = check (numberOfCycles p \<noteq> 0)
     (andThen (foldR (print_cycle p) [0..<numberOfCycles p] []) (\<lambda>out. Inr (out @ [CHR 0x0A])))"

section \<open>The cycles a state stands for\<close>

definition next_in :: "'a list \<Rightarrow> 'a \<Rightarrow> 'a \<Rightarrow> bool" where
  "next_in c l m \<longleftrightarrow> (\<exists>j. Suc j < length c \<and> l = c ! j \<and> m = c ! Suc j)"

definition cyc_next :: "'a list \<Rightarrow> 'a \<Rightarrow> 'a \<Rightarrow> bool" where
  "cyc_next c l m \<longleftrightarrow> next_in c l m \<or> (c \<noteq> [] \<and> l = last c \<and> m = hd c)"

definition lims :: "'a list list \<Rightarrow> nat list" where
  "lims css = map (\<lambda>k. length (concat (take (Suc k) css))) [0..<length css]"

definition step_of :: "literal list list \<Rightarrow> literal list \<Rightarrow> literal \<Rightarrow> literal \<Rightarrow> bool" where
  "step_of css op l m \<longleftrightarrow> (\<exists>c \<in> set css. cyc_next c l m) \<or> next_in op l m"

definition perm_repr :: "literal list list \<Rightarrow> literal list \<Rightarrow> permutation \<Rightarrow> bool" where
  "perm_repr css op p \<longleftrightarrow>
     p_cycles p = concat css @ op \<and> p_cycles_lim p = lims css
     \<and> (\<forall>c \<in> set css. 2 \<le> length c) \<and> distinct (concat css @ op)
     \<and> (\<forall>l m. p_image p l = Some m \<longleftrightarrow> step_of css op l m)
     \<and> (\<forall>l m. p_inverse p m = Some l \<longleftrightarrow> step_of css op l m)"

lemma next_in_snoc: "next_in (c @ [x]) l m \<longleftrightarrow> next_in c l m \<or> (c \<noteq> [] \<and> l = last c \<and> m = x)"
proof
  assume "next_in (c @ [x]) l m"
  then obtain j where j: "j < length c" "l = (c @ [x]) ! j" "m = (c @ [x]) ! Suc j"
    by (auto simp: next_in_def)
  show "next_in c l m \<or> (c \<noteq> [] \<and> l = last c \<and> m = x)"
  proof (cases "Suc j = length c")
    case True
    then have "c \<noteq> []" "j = length c - 1" by auto
    with j have "l = last c" "m = x"
      by (simp_all add: nth_append last_conv_nth)
    with \<open>c \<noteq> []\<close> show ?thesis by simp
  next
    case False
    with j have "Suc j < length c \<and> l = c ! j \<and> m = c ! Suc j"
      by (simp add: nth_append)
    then show ?thesis unfolding next_in_def by blast
  qed
next
  assume "next_in c l m \<or> (c \<noteq> [] \<and> l = last c \<and> m = x)"
  then show "next_in (c @ [x]) l m"
  proof
    assume "next_in c l m"
    then obtain j where "Suc j < length c" "l = c ! j" "m = c ! Suc j"
      by (auto simp: next_in_def)
    then show ?thesis
      unfolding next_in_def by (intro exI [of _ j]) (simp add: nth_append)
  next
    assume a: "c \<noteq> [] \<and> l = last c \<and> m = x"
    then show ?thesis
      unfolding next_in_def
      by (intro exI [of _ "length c - 1"]) (auto simp: nth_append last_conv_nth)
  qed
qed

lemma next_in_Nil [simp]: "\<not> next_in [] l m"
  by (simp add: next_in_def)

lemma next_in_set: "next_in c l m \<Longrightarrow> l \<in> set c \<and> m \<in> set c"
  by (auto simp: next_in_def)

lemma next_in_not_last:
  assumes "distinct c"
  shows "\<not> next_in c (last c) m"
proof
  assume "next_in c (last c) m"
  then obtain j where j: "Suc j < length c" "last c = c ! j" by (auto simp: next_in_def)
  then have "c \<noteq> []" by auto
  with j have "c ! (length c - 1) = c ! j" by (simp add: last_conv_nth)
  with assms j \<open>c \<noteq> []\<close> have "length c - 1 = j" by (simp add: nth_eq_iff_index_eq)
  with j show False by simp
qed

lemma next_in_not_hd: "distinct c \<Longrightarrow> \<not> next_in c l (hd c)"
  by (cases c) (auto simp: next_in_def)

lemma cyc_next_set: "cyc_next c l m \<Longrightarrow> l \<in> set c \<and> m \<in> set c"
  by (auto simp: cyc_next_def dest: next_in_set)

lemma lims_snoc: "lims (css @ [c]) = lims css @ [length (concat (css @ [c]))]"
  by (auto simp: lims_def)

lemma lims_Nil [simp]: "lims [] = []"
  by (simp add: lims_def)

lemma length_lims [simp]: "length (lims css) = length css"
  by (simp add: lims_def)

lemma lim_back_repr: "perm_repr css op p \<Longrightarrow> lim_back p = length (concat css)"
  by (cases css rule: rev_cases) (auto simp: perm_repr_def lim_back_def lims_snoc)

lemma perm_repr_new: "perm_repr [] [] (Permutation_new n)"
  by (simp add: perm_repr_def Permutation_new_def step_of_def)

section \<open>The operations on the cycles\<close>

lemma step_of_set: "step_of css op l m \<Longrightarrow> l \<in> set (concat css @ op) \<and> m \<in> set (concat css @ op)"
  by (auto simp: step_of_def dest: next_in_set cyc_next_set)

lemma step_of_open:
  assumes "distinct (concat css @ op)" "op \<noteq> []"
  shows "\<not> step_of css op (last op) m" and "\<not> step_of css op l (hd op)"
proof -
  have d: "distinct op" using assms by simp
  have "last op \<notin> set c" "hd op \<notin> set c" if "c \<in> set css" for c
    using assms that by (auto simp: hd_in_set)
  then have "\<not> cyc_next c (last op) m" "\<not> cyc_next c l (hd op)" if "c \<in> set css" for c
    using that by (auto dest!: cyc_next_set)
  then show "\<not> step_of css op (last op) m" "\<not> step_of css op l (hd op)"
    using next_in_not_last [OF d] next_in_not_hd [OF d] by (auto simp: step_of_def)
qed

text \<open>Adding a link to both tables, when neither end is bound, adds one step.\<close>

lemma map_link_step:
  assumes "\<forall>l m. p_image p l = Some m \<longleftrightarrow> R l m" "\<forall>l m. p_inverse p m = Some l \<longleftrightarrow> R l m"
    and "\<forall>m. \<not> R e m" "\<forall>l. \<not> R l i"
  shows "p_image (map_link e i p) l = Some m \<longleftrightarrow> R l m \<or> (l = e \<and> m = i)"
    and "p_inverse (map_link e i p) m = Some l \<longleftrightarrow> R l m \<or> (l = e \<and> m = i)"
  using assms by (auto simp: map_link_def)

lemma map_link_simps [simp]:
  "p_cycles (map_link e i p) = p_cycles p" "p_cycles_lim (map_link e i p) = p_cycles_lim p"
  "p_size (map_link e i p) = p_size p"
  by (simp_all add: map_link_def)

lemma addToCurrentCycle_ok:
  assumes r: "perm_repr css op p" and x: "x \<notin> set (concat css @ op)"
  shows "\<exists>p'. addToCurrentCycle p x = Inr p' \<and> perm_repr css (op @ [x]) p' \<and> p_size p' = p_size p"
proof (cases "op = []")
  case True
  have "addToCurrentCycle p x = Inr (p\<lparr>p_cycles := p_cycles p @ [x]\<rparr>)"
    using r True by (simp add: addToCurrentCycle_def lim_back_repr [OF r] perm_repr_def)
  moreover have "step_of css [x] l m \<longleftrightarrow> step_of css [] l m" for l m
    by (simp add: step_of_def next_in_def)
  ultimately show ?thesis
    using r x True by (auto simp: perm_repr_def)
next
  case False
  let ?p = "p\<lparr>p_cycles := p_cycles p @ [x]\<rparr>"
  have c: "p_cycles p = concat css @ op" using r by (simp add: perm_repr_def)
  have e: "(concat css @ op @ [x]) ! (length (concat css) + length op - 1) = last op"
    using False by (cases op rule: rev_cases) (simp_all add: nth_append)
  have "addToCurrentCycle p x = Inr (map_link (last op) x ?p)"
    using False e by (simp add: addToCurrentCycle_def lim_back_repr [OF r] c Let_def nth_append)
  moreover have "step_of css (op @ [x]) l m \<longleftrightarrow> step_of css op l m \<or> (l = last op \<and> m = x)" for l m
    using False by (auto simp: step_of_def next_in_snoc)
  moreover have "\<not> step_of css op (last op) m" for m
    using r False by (intro step_of_open) (auto simp: perm_repr_def)
  moreover have "\<not> step_of css op l x" for l
    using x step_of_set by blast
  ultimately show ?thesis
    using r x map_link_step [of ?p "step_of css op" "last op" x]
    by (auto simp: perm_repr_def)
qed

lemma cycle_open:
  assumes "p_cycles p = xs @ op" "p_cycles_lim p = lims css @ [length (xs @ op)]"
    "length xs = length (concat css)"
  shows "cycle p (length css) = Inr op" "op \<noteq> [] \<Longrightarrow> lastElementInCycle p (length css) = Inr (last op)"
proof -
  have "lims css ! (length css - 1) = length xs" if "css \<noteq> []"
    using that assms(3) by (cases css rule: rev_cases) (simp_all add: lims_snoc nth_append)
  then show "cycle p (length css) = Inr op"
    using assms by (auto simp: cycle_def numberOfCycles_def nth_append)
  show "lastElementInCycle p (length css) = Inr (last op)" if "op \<noteq> []"
    using assms that
    by (cases op rule: rev_cases)
      (auto simp: lastElementInCycle_def numberOfCycles_def nth_append)
qed

lemma closeCurrentCycle_ok:
  assumes r: "perm_repr css op p" and two: "2 \<le> length op"
  shows "\<exists>p'. closeCurrentCycle p = Inr p' \<and> perm_repr (css @ [op]) [] p' \<and> p_size p' = p_size p"
proof -
  let ?p = "p\<lparr>p_cycles_lim := p_cycles_lim p @ [length (p_cycles p)]\<rparr>"
  have ne: "op \<noteq> []" using two by auto
  have c: "p_cycles p = concat css @ op" "p_cycles_lim p = lims css"
    using r by (simp_all add: perm_repr_def)
  have o: "cycle ?p (length css) = Inr op" "lastElementInCycle ?p (length css) = Inr (last op)"
    using cycle_open [of ?p "concat css" op css] ne by (simp_all add: c)
  have "closeCurrentCycle p = Inr (map_link (last op) (hd op) ?p)"
    using two ne o by (simp add: closeCurrentCycle_def lim_back_repr [OF r] c Let_def hd_conv_nth)
  moreover have "step_of (css @ [op]) [] l m \<longleftrightarrow>
      step_of css op l m \<or> (l = last op \<and> m = hd op)" for l m
    using ne by (auto simp: step_of_def cyc_next_def)
  moreover have "\<not> step_of css op (last op) m" "\<not> step_of css op l (hd op)" for l m
    using r ne by (simp_all add: step_of_open perm_repr_def)
  ultimately show ?thesis
    using r two map_link_step [of ?p "step_of css op" "last op" "hd op"]
    by (auto simp: perm_repr_def lims_snoc)
qed

lemma closeCurrentCycle_empty: "perm_repr css [] p \<Longrightarrow> closeCurrentCycle p = Inr p"
  using lim_back_repr [of css "[]" p] by (simp add: closeCurrentCycle_def perm_repr_def)

lemma closeCurrentCycle_single:
  "perm_repr css [x] p \<Longrightarrow> closeCurrentCycle p = Inl Check_failed"
  using lim_back_repr [of css "[x]" p] by (simp add: closeCurrentCycle_def perm_repr_def)

section \<open>Reading a finished permutation\<close>

lemma lims_nth: "i < length css \<Longrightarrow> lims css ! i = length (concat (take (Suc i) css))"
  by (simp add: lims_def)

lemma take_Suc_concat:
  "i < length css \<Longrightarrow> concat (take (Suc i) css) = concat (take i css) @ css ! i"
  by (simp add: take_Suc_conv_app_nth)

lemma concat_split:
  "i < length css \<Longrightarrow> concat css = concat (take i css) @ css ! i @ concat (drop (Suc i) css)"
  by (metis append.assoc append_take_drop_id concat_append take_Suc_concat)

lemma cycle_repr:
  assumes r: "perm_repr css op p" and i: "i < length css"
  shows "cycle p i = Inr (css ! i)"
proof -
  let ?lo = "length (concat (take i css))"
  have lo: "(if i = 0 then Inr 0 else vec_at (p_cycles_lim p) (i - 1)) = Inr ?lo"
    using r i by (cases i) (auto simp: perm_repr_def lims_nth)
  have hi: "vec_at (p_cycles_lim p) i = Inr (?lo + length (css ! i))"
    using r i by (simp add: perm_repr_def lims_nth take_Suc_concat)
  have "p_cycles p = concat (take i css) @ css ! i @ concat (drop (Suc i) css) @ op"
    using r concat_split [OF i] by (simp add: perm_repr_def)
  then show ?thesis
    using r i lo hi by (simp add: cycle_def numberOfCycles_def perm_repr_def)
qed

lemma lastElementInCycle_repr:
  assumes r: "perm_repr css op p" and i: "i < length css"
  shows "lastElementInCycle p i = Inr (last (css ! i))"
proof -
  let ?lo = "length (concat (take i css))"
  have ne: "css ! i \<noteq> []" using r i by (auto simp: perm_repr_def dest!: nth_mem)
  have hi: "vec_at (p_cycles_lim p) i = Inr (?lo + length (css ! i))"
    using r i by (simp add: perm_repr_def lims_nth take_Suc_concat)
  have c: "p_cycles p = concat (take i css) @ css ! i @ concat (drop (Suc i) css) @ op"
    using r concat_split [OF i] by (simp add: perm_repr_def)
  have "vec_at (p_cycles p) (?lo + length (css ! i) - 1) = Inr (last (css ! i))"
    unfolding c using ne by (cases "css ! i" rule: rev_cases) (simp_all add: nth_append)
  then show ?thesis
    using r i hi ne by (simp add: lastElementInCycle_def numberOfCycles_def perm_repr_def)
qed

lemma numberOfCycles_repr: "perm_repr css op p \<Longrightarrow> numberOfCycles p = length css"
  by (simp add: numberOfCycles_def perm_repr_def)

definition perm_wf :: "permutation \<Rightarrow> bool" where
  "perm_wf p \<longleftrightarrow> (\<exists>css. perm_repr css [] p)"

lemma cyc_next_nth: "j < length c \<Longrightarrow> cyc_next c (c ! j) (c ! (Suc j mod length c))"
proof (cases "Suc j = length c")
  case True
  then have "c \<noteq> []" by auto
  moreover from True have "c ! j = last c" "c ! (Suc j mod length c) = hd c"
    using \<open>c \<noteq> []\<close> by (simp_all add: last_conv_nth hd_conv_nth flip: True)
  ultimately show ?thesis by (simp add: cyc_next_def)
next
  case False
  moreover assume "j < length c"
  ultimately have "Suc j < length c" "Suc j mod length c = Suc j" by simp_all
  then have "next_in c (c ! j) (c ! (Suc j mod length c))"
    unfolding next_in_def by auto
  then show ?thesis by (simp add: cyc_next_def)
qed

lemma cyc_next_ex: "l \<in> set c \<Longrightarrow> \<exists>m. cyc_next c l m"
  by (auto simp: in_set_conv_nth intro: cyc_next_nth)

lemma cyc_prev_ex: "m \<in> set c \<Longrightarrow> \<exists>l. cyc_next c l m"
proof -
  assume "m \<in> set c"
  then obtain j where j: "j < length c" "m = c ! j" by (auto simp: in_set_conv_nth)
  show ?thesis
  proof (cases j)
    case 0
    with j have "cyc_next c (last c) m" by (auto simp: cyc_next_def hd_conv_nth)
    then show ?thesis ..
  next
    case (Suc i)
    with j cyc_next_nth [of i c] show ?thesis by auto
  qed
qed

lemma image_repr_nth:
  assumes "perm_repr css op p" "c \<in> set css" "j < length c"
  shows "p_image p (c ! j) = Some (c ! (Suc j mod length c))"
    and "p_inverse p (c ! (Suc j mod length c)) = Some (c ! j)"
  using assms cyc_next_nth [OF assms(3)] by (auto simp: perm_repr_def step_of_def)

lemma perm_image_inverse:
  "perm_wf p \<Longrightarrow> p_image p l = Some m \<longleftrightarrow> p_inverse p m = Some l"
  by (auto simp: perm_wf_def perm_repr_def)

lemma perm_image_dom: "perm_wf p \<Longrightarrow> p_image p l \<noteq> None \<longleftrightarrow> l \<in> set (p_cycles p)"
proof -
  assume "perm_wf p"
  then obtain css where r: "perm_repr css [] p" by (auto simp: perm_wf_def)
  then have "(\<exists>m. p_image p l = Some m) \<longleftrightarrow> (\<exists>m. step_of css [] l m)"
    by (simp add: perm_repr_def)
  also have "\<dots> \<longleftrightarrow> l \<in> set (concat css)"
    using cyc_next_ex by (fastforce simp: step_of_def dest: cyc_next_set)
  finally show ?thesis using r by (simp add: perm_repr_def)
qed

lemma perm_inverse_dom: "perm_wf p \<Longrightarrow> p_inverse p l \<noteq> None \<longleftrightarrow> l \<in> set (p_cycles p)"
proof -
  assume "perm_wf p"
  then obtain css where r: "perm_repr css [] p" by (auto simp: perm_wf_def)
  then have "(\<exists>m. p_inverse p l = Some m) \<longleftrightarrow> (\<exists>m. step_of css [] m l)"
    by (simp add: perm_repr_def)
  also have "\<dots> \<longleftrightarrow> l \<in> set (concat css)"
    using cyc_prev_ex by (fastforce simp: step_of_def dest: cyc_next_set)
  finally show ?thesis using r by (simp add: perm_repr_def)
qed

lemma perm_image_range:
  "perm_wf p \<Longrightarrow> p_image p l = Some m \<Longrightarrow> l \<in> set (p_cycles p) \<and> m \<in> set (p_cycles p)"
  using perm_image_dom [of p l] perm_inverse_dom [of p m] perm_image_inverse [of p l m] by auto

text \<open>No literal of a cycle is its own neighbour.\<close>

lemma cyc_next_neq:
  assumes "distinct c" "2 \<le> length c" "cyc_next c l m"
  shows "l \<noteq> m"
  using assms(3) unfolding cyc_next_def
proof
  assume "next_in c l m"
  then show ?thesis using assms(1) by (auto simp: next_in_def nth_eq_iff_index_eq)
next
  assume "c \<noteq> [] \<and> l = last c \<and> m = hd c"
  then have "l = c ! (length c - 1)" "m = c ! 0" by (simp_all add: last_conv_nth hd_conv_nth)
  moreover have "c ! (length c - 1) \<noteq> c ! 0"
    using assms(1,2) by (subst nth_eq_iff_index_eq) auto
  ultimately show ?thesis by simp
qed

lemma perm_inverse_neq:
  assumes "perm_wf p" "p_inverse p m = Some l"
  shows "l \<noteq> m"
proof -
  obtain css where r: "perm_repr css [] p" using assms(1) by (auto simp: perm_wf_def)
  then have "step_of css [] l m" using assms(2) by (simp add: perm_repr_def)
  then obtain c where c: "c \<in> set css" "cyc_next c l m" by (auto simp: step_of_def)
  have "distinct (concat css)" "\<forall>c \<in> set css. 2 \<le> length c"
    using r by (simp_all add: perm_repr_def)
  moreover obtain as bs where "css = as @ c # bs" using c(1) by (meson split_list)
  ultimately have "distinct c" "2 \<le> length c" by simp_all
  then show ?thesis using c(2) by (rule cyc_next_neq)
qed

section \<open>Entering whole cycles\<close>

text \<open>The call sequence by which every reader and finder enters one cycle.\<close>

definition enterCycle :: "literal list \<Rightarrow> permutation \<Rightarrow> permutation result" where
  "enterCycle c p = andThen (foldR (\<lambda>x p. addToCurrentCycle p x) c p) closeCurrentCycle"

definition enterCycles :: "literal list list \<Rightarrow> permutation \<Rightarrow> permutation result" where
  "enterCycles css p = foldR enterCycle css p"

lemma add_all_ok:
  assumes "perm_repr css op p" "distinct (concat css @ op @ xs)"
  shows "\<exists>p'. foldR (\<lambda>x p. addToCurrentCycle p x) xs p = Inr p' \<and> perm_repr css (op @ xs) p'
    \<and> p_size p' = p_size p"
  using assms
proof (induction xs arbitrary: op p)
  case Nil
  then show ?case by simp
next
  case (Cons x xs)
  then obtain p1 where p1: "addToCurrentCycle p x = Inr p1" "perm_repr css (op @ [x]) p1"
      "p_size p1 = p_size p"
    using addToCurrentCycle_ok [of css op p x] by auto
  then show ?case using Cons.IH [of "op @ [x]" p1] Cons.prems by simp
qed

lemma enterCycle_ok:
  assumes "perm_repr css [] p" "distinct (concat css @ c)" "2 \<le> length c"
  shows "\<exists>p'. enterCycle c p = Inr p' \<and> perm_repr (css @ [c]) [] p' \<and> p_size p' = p_size p"
proof -
  obtain p1 where "foldR (\<lambda>x p. addToCurrentCycle p x) c p = Inr p1" "perm_repr css c p1"
      "p_size p1 = p_size p"
    using add_all_ok [of css "[]" p c] assms by auto
  then show ?thesis using closeCurrentCycle_ok [of css c p1] assms by (simp add: enterCycle_def)
qed

lemma enterCycles_ok:
  assumes "perm_repr bs [] p" "distinct (concat (bs @ css))" "\<forall>c \<in> set css. 2 \<le> length c"
  shows "\<exists>p'. enterCycles css p = Inr p' \<and> perm_repr (bs @ css) [] p' \<and> p_size p' = p_size p"
  using assms
proof (induction css arbitrary: bs p)
  case Nil
  then show ?case by (simp add: enterCycles_def)
next
  case (Cons c css)
  have d: "distinct (concat bs @ c)" "2 \<le> length c"
    using Cons.prems(2,3) by (simp_all add: Int_Un_distrib)
  obtain p1 where p1: "enterCycle c p = Inr p1" "perm_repr (bs @ [c]) [] p1"
      "p_size p1 = p_size p"
    using enterCycle_ok [OF Cons.prems(1) d] by blast
  have "distinct (concat ((bs @ [c]) @ css))" "\<forall>c \<in> set css. 2 \<le> length c"
    using Cons.prems(2,3) by simp_all
  from Cons.IH [OF p1(2) this] p1 show ?case by (simp add: enterCycles_def)
qed

section \<open>Signed permutations\<close>

text \<open>
  The permutations that act on assignments: the image of a negated literal is the negated
  image. This is what the group checks before it stores a permutation.
\<close>

definition signed_perm :: "permutation \<Rightarrow> bool" where
  "signed_perm p \<longleftrightarrow>
     (\<forall>l \<in> set (p_cycles p). p_image p l \<noteq> None \<and> p_image p (negated l) \<noteq> None
        \<and> map_option negated (p_image p l) = p_image p (negated l))"

definition act :: "permutation \<Rightarrow> literal \<Rightarrow> literal" where
  "act p l = (case p_image p l of Some m \<Rightarrow> m | None \<Rightarrow> l)"

definition act_inv :: "permutation \<Rightarrow> literal \<Rightarrow> literal" where
  "act_inv p l = (case p_inverse p l of Some m \<Rightarrow> m | None \<Rightarrow> l)"

lemma act_inv_act:
  assumes "perm_wf p"
  shows "act_inv p (act p l) = l"
proof (cases "p_image p l")
  case None
  then have "p_inverse p l = None"
    using perm_image_dom [OF assms, of l] perm_inverse_dom [OF assms, of l] by auto
  with None show ?thesis by (simp add: act_def act_inv_def)
next
  case (Some m)
  then show ?thesis using perm_image_inverse [OF assms, of l m] by (simp add: act_def act_inv_def)
qed

lemma act_act_inv:
  assumes "perm_wf p"
  shows "act p (act_inv p l) = l"
proof (cases "p_inverse p l")
  case None
  then have "p_image p l = None"
    using perm_image_dom [OF assms, of l] perm_inverse_dom [OF assms, of l] by auto
  with None show ?thesis by (simp add: act_def act_inv_def)
next
  case (Some m)
  then show ?thesis using perm_image_inverse [OF assms, of m l] by (simp add: act_def act_inv_def)
qed

lemma act_negated:
  assumes "perm_wf p" "signed_perm p"
  shows "act p (negated l) = negated (act p l)"
proof (cases "l \<in> set (p_cycles p)")
  case True
  then show ?thesis using assms(2) by (auto simp: signed_perm_def act_def)
next
  case False
  have "negated l \<notin> set (p_cycles p)"
  proof
    assume "negated l \<in> set (p_cycles p)"
    then have "p_image p (negated (negated l)) \<noteq> None"
      using assms(2) unfolding signed_perm_def by blast
    then show False using False perm_image_dom [OF assms(1), of l] by simp
  qed
  with False show ?thesis
    using perm_image_dom [OF assms(1), of l] perm_image_dom [OF assms(1), of "negated l"]
    by (simp add: act_def)
qed

section \<open>Properties\<close>

text \<open>
  C17. Entering pairwise disjoint cycles of at least two literals gives exactly those cycles: the
  image of a literal is its successor in its cycle, the inverse table is the inverse of the image
  table, both lookups fail outside the cycles, and every cycle can be read back.
\<close>

lemma enter_cycles_tables:
  assumes "distinct (concat css)" "\<forall>c \<in> set css. 2 \<le> length c"
  shows "\<exists>p. enterCycles css (Permutation_new n) = Inr p \<and> numberOfCycles p = length css
    \<and> (\<forall>i < length css. cycle p i = Inr (css ! i) \<and> lastElementInCycle p i = Inr (last (css ! i)))
    \<and> (\<forall>l m. imageOf p l = Inr m \<longleftrightarrow> (\<exists>c \<in> set css. cyc_next c l m))
    \<and> (\<forall>l m. inverseOf p m = Inr l \<longleftrightarrow> imageOf p l = Inr m)
    \<and> (\<forall>l. l \<notin> set (concat css) \<longrightarrow> imageOf p l = Inl Out_of_range \<and> inverseOf p l = Inl Out_of_range)"
proof -
  obtain p where p: "enterCycles css (Permutation_new n) = Inr p" "perm_repr css [] p"
    using enterCycles_ok [OF perm_repr_new, of css] assms by auto
  have step: "step_of css [] l m \<longleftrightarrow> (\<exists>c \<in> set css. cyc_next c l m)" for l m
    by (simp add: step_of_def)
  have tables: "p_image p l = Some m \<longleftrightarrow> step_of css [] l m" "p_inverse p m = Some l \<longleftrightarrow> step_of css [] l m"
    for l m using p(2) by (simp_all add: perm_repr_def)
  have "p_image p l = None" "p_inverse p l = None" if "l \<notin> set (concat css)" for l
    using that tables step_of_set [of css "[]"] by (metis append_Nil2 not_Some_eq)+
  with p step tables show ?thesis
    by (intro exI [of _ p])
      (auto simp: imageOf_def inverseOf_def map_at_Inr_iff numberOfCycles_repr cycle_repr
        lastElementInCycle_repr)
qed

lemma enter_cycles_tables_witness:
  "\<exists>p. enterCycles [[Lit 0, Lit 2, Lit 4], [Lit 1, Lit 3, Lit 5]] (Permutation_new 3) = Inr p
    \<and> cycle p 1 = Inr [Lit 1, Lit 3, Lit 5] \<and> inverseOf p (Lit 6) = Inl Out_of_range"
  using enter_cycles_tables [of "[[Lit 0, Lit 2, Lit 4], [Lit 1, Lit 3, Lit 5]]" 3] by auto

text \<open>
  Closing a cycle: nothing happens when no literal was added since the last cycle, a single
  literal fails the check, and two or more become the last cycle.
\<close>

lemma close_cycle_cases:
  assumes "perm_repr css open_cycle p"
  shows "case open_cycle of
      [] \<Rightarrow> closeCurrentCycle p = Inr p
    | [x] \<Rightarrow> closeCurrentCycle p = Inl Check_failed
    | _ \<Rightarrow> \<exists>p'. closeCurrentCycle p = Inr p' \<and> perm_repr (css @ [open_cycle]) [] p'
             \<and> cycle p' (length css) = Inr open_cycle"
proof (cases open_cycle)
  case Nil
  then show ?thesis using assms closeCurrentCycle_empty by simp
next
  case (Cons x xs)
  show ?thesis
  proof (cases xs)
    case Nil
    then show ?thesis using assms Cons closeCurrentCycle_single by simp
  next
    case two: (Cons y ys)
    then have "2 \<le> length open_cycle" using Cons by simp
    then show ?thesis
      using closeCurrentCycle_ok [OF assms] cycle_repr [of "css @ [open_cycle]" "[]" _ "length css"] Cons two
      by fastforce
  qed
qed

lemma close_cycle_cases_witness:
  "\<exists>p. addToCurrentCycle (Permutation_new 3) (Lit 4) = Inr p \<and> closeCurrentCycle p = Inl Check_failed"
proof -
  obtain p where "addToCurrentCycle (Permutation_new 3) (Lit 4) = Inr p" "perm_repr [] [Lit 4] p"
    using addToCurrentCycle_ok [OF perm_repr_new, of "Lit 4" 3] by auto
  then show ?thesis using close_cycle_cases [of "[]" "[Lit 4]" p] by auto
qed

end
