(* ===== verification/Bits.thy ===== *)
theory Bits
  imports Cosy_Prelude
begin

text \<open>
  The 64-bit word arithmetic of \<open>include/cosy/Bitset.h\<close> that the bit set class is built on:
  masks, and the split of a bit position into a bucket number and an offset inside the bucket.
  The lemmas read every function through \<open>unat\<close> and \<open>bit\<close>.
\<close>

unbundle bit_operations_syntax

section \<open>Masks and positions\<close>

definition kAllBits64 :: int64 where
  "kAllBits64 = 0xFFFFFFFFFFFFFFFF"

definition kAllBitsButLsb64 :: int64 where
  "kAllBitsButLsb64 = 0xFFFFFFFFFFFFFFFE"

definition OneBit64 :: "int32 \<Rightarrow> int64" where
  "OneBit64 pos = push_bit (unat pos) 1"

definition BitPos64 :: "int64 \<Rightarrow> int64" where
  "BitPos64 pos = pos AND 63"

definition BitOffset64 :: "int64 \<Rightarrow> int64" where
  "BitOffset64 pos = drop_bit 6 pos"

definition BitLength64 :: "int64 \<Rightarrow> int64" where
  "BitLength64 sz = drop_bit 6 (sz + 63)"

definition BitShift64 :: "int64 \<Rightarrow> int64" where
  "BitShift64 v = push_bit 6 v"

definition TwoBitsFromPos64 :: "int64 \<Rightarrow> int64" where
  "TwoBitsFromPos64 pos = push_bit (unat (pos AND 62)) 3"

definition OneRange64 :: "int64 \<Rightarrow> int64 \<Rightarrow> int64 result" where
  "OneRange64 s e =
     check (s \<le> 63) (check (e \<le> 63) (check (s \<le> e)
       (Inr (push_bit (unat s) kAllBits64 XOR push_bit (unat e) (kAllBits64 - 1)))))"

definition IntervalUp64 :: "int64 \<Rightarrow> int64 result" where
  "IntervalUp64 s = check (s \<le> 63) (Inr (push_bit (unat s) kAllBits64))"

definition IntervalDown64 :: "int64 \<Rightarrow> int64 result" where
  "IntervalDown64 s = check (s \<le> 63) (Inr (drop_bit (unat (63 - s)) kAllBits64))"

definition LeastSignificantBitWord64 :: "int64 \<Rightarrow> int64" where
  "LeastSignificantBitWord64 n = n AND NOT (n - 1)"

section \<open>Reading the functions\<close>

lemma unat_BitOffset64 [simp]: "unat (BitOffset64 pos) = unat pos div 64"
  by (simp add: BitOffset64_def drop_bit_eq_div unat_div_distrib)

lemma BitPos64_take: "BitPos64 pos = take_bit 6 pos"
proof -
  have "(63 :: int64) = mask 6" by (simp add: mask_eq_exp_minus_1)
  then show ?thesis by (simp only: BitPos64_def take_bit_eq_mask)
qed

lemma unat_BitPos64 [simp]: "unat (BitPos64 pos) = unat pos mod 64"
  by (simp add: BitPos64_take take_bit_eq_mod unat_mod_distrib)

lemma unat_ucast_BitPos64 [simp]: "unat (ucast (BitPos64 pos) :: int32) = unat pos mod 64"
proof -
  have "unat pos mod 64 < 2 ^ 32"
    by (rule less_trans [of _ 64]) simp_all
  then show ?thesis
    by (simp add: unsigned_ucast_eq take_bit_nat_eq_self)
qed

lemma bit_OneBit64 [simp]: "bit (OneBit64 p) n \<longleftrightarrow> n = unat p \<and> n < 64"
  by (auto simp only: OneBit64_def bit_push_bit_iff bit_1_iff possible_bit_word) auto

lemma bit_three_word: "bit (3 :: int64) n \<longleftrightarrow> n = 0 \<or> n = 1"
proof -
  have "bit (mask 2 :: int64) n \<longleftrightarrow> n < 64 \<and> n < 2"
    by (simp only: bit_mask_iff possible_bit_word) simp
  moreover have "(mask 2 :: int64) = 3" by (simp add: mask_numeral)
  ultimately show ?thesis by auto
qed

lemma bit_62_word: "bit (62 :: int64) n \<longleftrightarrow> 0 < n \<and> n < 6"
proof -
  have "bit (push_bit 1 (mask 5) :: int64) n \<longleftrightarrow> n < 64 \<and> 1 \<le> n \<and> n - 1 < 5 \<and> n - 1 < 64"
    by (simp only: bit_push_bit_iff bit_mask_iff possible_bit_word) auto
  moreover have "(push_bit 1 (mask 5) :: int64) = 62" by (simp add: mask_numeral)
  ultimately show ?thesis by auto
qed

lemma unat_AND_62: "unat (pos AND (62 :: int64)) = 2 * (unat pos mod 64 div 2)"
proof -
  have e: "pos AND 62 = push_bit 1 (drop_bit 1 (take_bit 6 pos))"
    by (rule bit_word_eqI)
      (simp only: bit_and_iff bit_push_bit_iff bit_drop_bit_eq bit_take_bit_iff bit_62_word
        comp_apply possible_bit_word, auto)
  have "unat (drop_bit 1 (take_bit 6 pos)) = unat pos mod 64 div 2"
    by (simp add: take_bit_eq_mod drop_bit_eq_div unat_mod_distrib unat_div_distrib)
  moreover have "(unat pos mod 64 div 2) * 2 ^ 1 < 2 ^ LENGTH(64)"
    by (rule le_less_trans [of _ 64]) auto
  ultimately show ?thesis
    unfolding e by (subst unat_push_bit_small) (simp_all only: power_one_right mult.commute)
qed

lemma bit_TwoBitsFromPos64 [simp]:
  "bit (TwoBitsFromPos64 pos) n \<longleftrightarrow> n < 64 \<and> n div 2 = unat pos mod 64 div 2"
proof -
  define k where "k = unat pos mod 64 div 2"
  have "bit (TwoBitsFromPos64 pos) n \<longleftrightarrow> n < 64 \<and> 2 * k \<le> n \<and> (n - 2 * k = 0 \<or> n - 2 * k = 1)"
    by (simp only: TwoBitsFromPos64_def bit_push_bit_iff bit_three_word unat_AND_62
        possible_bit_word k_def) auto
  then show ?thesis unfolding k_def [symmetric] by arith
qed

lemma unat_BitLength64:
  assumes "unat sz < 2 ^ 63"
  shows "unat (BitLength64 sz) = (unat sz + 63) div 64"
proof -
  have "unat (sz + 63) = unat sz + 63"
    using assms by (simp add: unat_word_ariths)
  then show ?thesis
    by (simp add: BitLength64_def drop_bit_eq_div unat_div_distrib)
qed

lemma word_neq_0_bit: "(w :: 'a::len word) \<noteq> 0 \<longleftrightarrow> (\<exists>n < LENGTH('a). bit w n)"
  using bit_word_eqI [of w 0] by auto

lemma bit_and_OneBit64: "(w AND OneBit64 p \<noteq> 0) \<longleftrightarrow> unat p < 64 \<and> bit w (unat p)"
  by (auto simp: word_neq_0_bit bit_and_iff)

lemma bit_and_TwoBits64:
  "(w AND TwoBitsFromPos64 pos \<noteq> 0) \<longleftrightarrow>
     (\<exists>n < 64. n div 2 = unat pos mod 64 div 2 \<and> bit w n)"
  by (auto simp: word_neq_0_bit bit_and_iff)

end
