(* ===== verification/Bitset.thy ===== *)
theory Bitset
  imports Bits
begin

text \<open>
  The class \<open>Bitset64\<close> of \<open>include/cosy/Bitset.h\<close>. The state is the number of bits and the
  vector of 64-bit buckets; a position is the \<open>int64\<close> that \<open>Value\<close> returns. Every debug
  check and every bucket access outside the vector is an error of the result type.
  \<open>bits_of\<close> is the set of positions whose bit is 1. The locale \<open>bit_pairs\<close> states what a
  client that stores two bits per object relies on, and is interpreted on the class at the end.
\<close>

unbundle bit_operations_syntax

section \<open>State and operations\<close>

record bitset =
  bs_size :: int64
  bs_data :: "int64 list"

definition Bitset64_empty :: bitset where
  "Bitset64_empty = \<lparr>bs_size = 0, bs_data = []\<rparr>"

definition Bitset64_Resize :: "bitset \<Rightarrow> int64 \<Rightarrow> bitset result" where
  "Bitset64_Resize b sz =
     check (0 \<le>s sz)
      (let sz' = (if 0 <s sz then sz else 0)
       in Inr (b\<lparr>bs_size := sz', bs_data := vec_resize (bs_data b) (unat (BitLength64 sz')) 0\<rparr>))"

definition Bitset64_new :: "int64 \<Rightarrow> bitset" where
  "Bitset64_new sz =
     (let sz' = (if 0 <s sz then sz else 0)
      in \<lparr>bs_size = sz', bs_data = replicate (unat (BitLength64 sz')) 0\<rparr>)"

definition in_range :: "bitset \<Rightarrow> int64 \<Rightarrow> 'a result \<Rightarrow> 'a result" where
  "in_range b i k = check (0 \<le>s i) (check (i <s bs_size b) k)"

definition bucket_at :: "bitset \<Rightarrow> int64 \<Rightarrow> int64 result" where
  "bucket_at b i = vec_at (bs_data b) (unat (BitOffset64 i))"

definition bucket_put :: "bitset \<Rightarrow> int64 \<Rightarrow> int64 \<Rightarrow> bitset result" where
  "bucket_put b i w =
     andThen (vec_put (bs_data b) (unat (BitOffset64 i)) w) (\<lambda>d. Inr (b\<lparr>bs_data := d\<rparr>))"

definition Bitset64_IsSet :: "bitset \<Rightarrow> int64 \<Rightarrow> bool result" where
  "Bitset64_IsSet b i = in_range b i
     (andThen (bucket_at b i) (\<lambda>w. Inr (w AND OneBit64 (ucast (BitPos64 i)) \<noteq> 0)))"

definition Bitset64_AreOneOfTwoBitsSet :: "bitset \<Rightarrow> int64 \<Rightarrow> bool result" where
  "Bitset64_AreOneOfTwoBitsSet b i = in_range b i
     (andThen (bucket_at b i) (\<lambda>w. Inr (w AND TwoBitsFromPos64 i \<noteq> 0)))"

definition Bitset64_Set :: "bitset \<Rightarrow> int64 \<Rightarrow> bitset result" where
  "Bitset64_Set b i = in_range b i
     (andThen (bucket_at b i) (\<lambda>w. bucket_put b i (w OR OneBit64 (ucast (BitPos64 i)))))"

definition Bitset64_Clear :: "bitset \<Rightarrow> int64 \<Rightarrow> bitset result" where
  "Bitset64_Clear b i = in_range b i
     (andThen (bucket_at b i) (\<lambda>w. bucket_put b i (w AND NOT (OneBit64 (ucast (BitPos64 i))))))"

definition Bitset64_ClearBucket :: "bitset \<Rightarrow> int64 \<Rightarrow> bitset result" where
  "Bitset64_ClearBucket b i = in_range b i (bucket_put b i 0)"

definition Bitset64_ClearTwoBits :: "bitset \<Rightarrow> int64 \<Rightarrow> bitset result" where
  "Bitset64_ClearTwoBits b i = in_range b i
     (andThen (bucket_at b i) (\<lambda>w. bucket_put b i (w AND NOT (TwoBitsFromPos64 i))))"

definition Bitset64_SetValue :: "bitset \<Rightarrow> int64 \<Rightarrow> bool \<Rightarrow> bitset result" where
  "Bitset64_SetValue b i v = (if v then Bitset64_Set b i else Bitset64_Clear b i)"

definition Bitset64_PushBack :: "bitset \<Rightarrow> bool \<Rightarrow> bitset result" where
  "Bitset64_PushBack b v =
     (let sz = bs_size b + 1;
          b' = b\<lparr>bs_size := sz, bs_data := vec_resize (bs_data b) (unat (BitLength64 sz)) 0\<rparr>
      in Bitset64_SetValue b' (sz - 1) v)"

definition Bitset64_ClearAll :: "bitset \<Rightarrow> bitset" where
  "Bitset64_ClearAll b = b\<lparr>bs_data := replicate (length (bs_data b)) 0\<rparr>"

definition Bitset64_ClearAndResize :: "bitset \<Rightarrow> int64 \<Rightarrow> bitset result" where
  "Bitset64_ClearAndResize b sz =
     check (0 \<le>s sz)
      (let sz' = (if 0 <s sz then sz else 0);
           bit_length = unat (BitLength64 sz');
           to_clear = min (length (bs_data b)) bit_length;
           d = vec_resize (bs_data b) bit_length 0
       in Inr (b\<lparr>bs_size := sz', bs_data := replicate to_clear 0 @ drop to_clear d\<rparr>))"

definition Bitset64_Intersection :: "bitset \<Rightarrow> bitset \<Rightarrow> bitset" where
  "Bitset64_Intersection b c =
     (let min_size = min (length (bs_data b)) (length (bs_data c))
      in b\<lparr>bs_data := map (\<lambda>i. if i < min_size then bs_data b ! i AND bs_data c ! i else 0)
                       [0..<length (bs_data b)]\<rparr>)"

definition Bitset64_Union :: "bitset \<Rightarrow> bitset \<Rightarrow> bitset" where
  "Bitset64_Union b c =
     (let min_size = min (length (bs_data b)) (length (bs_data c))
      in b\<lparr>bs_data := map (\<lambda>i. if i < min_size then bs_data b ! i OR bs_data c ! i else bs_data b ! i)
                       [0..<length (bs_data b)]\<rparr>)"

section \<open>Content and well-formedness\<close>

definition bits_of :: "bitset \<Rightarrow> nat set" where
  "bits_of b = {n. n < 64 * length (bs_data b) \<and> bit (bs_data b ! (n div 64)) (n mod 64)}"

definition wf_bitset :: "bitset \<Rightarrow> bool" where
  "wf_bitset b \<longleftrightarrow>
     unat (bs_size b) < 2 ^ 63 \<and> length (bs_data b) = (unat (bs_size b) + 63) div 64"

definition valid_pos :: "bitset \<Rightarrow> int64 \<Rightarrow> bool" where
  "valid_pos b i \<longleftrightarrow> unat i < unat (bs_size b)"

lemma valid_pos_bucket:
  "wf_bitset b \<Longrightarrow> valid_pos b i \<Longrightarrow> unat i div 64 < length (bs_data b)"
  unfolding wf_bitset_def valid_pos_def by arith

lemma valid_pos_64:
  "wf_bitset b \<Longrightarrow> valid_pos b i \<Longrightarrow> unat i < 64 * length (bs_data b)"
  unfolding wf_bitset_def valid_pos_def by arith

lemma in_range_valid:
  assumes "wf_bitset b" and "valid_pos b i"
  shows "in_range b i k = k"
proof -
  have "unat i < 2 ^ 63" "unat (bs_size b) < 2 ^ 63"
    using assms by (auto simp: wf_bitset_def valid_pos_def)
  then have e: "sint i = int (unat i)" "sint (bs_size b) = int (unat (bs_size b))"
    by (simp_all add: sint_small)
  then have "sint i < sint (bs_size b)"
    using assms by (simp only: of_nat_less_iff valid_pos_def)
  moreover have "0 \<le> sint i" using e by simp
  ultimately show ?thesis by (simp add: in_range_def word_sle_eq word_sless_alt)
qed

lemma in_range_invalid:
  assumes "wf_bitset b" and "\<not> valid_pos b i"
  shows "in_range b i k = Inl Check_failed"
proof (cases "0 \<le> sint i")
  case True
  then have "sint i = int (unat i)" by (simp add: sint_nonneg_iff sint_small)
  moreover have "sint (bs_size b) = int (unat (bs_size b))"
    using assms by (simp add: wf_bitset_def sint_small)
  ultimately have "\<not> sint i < sint (bs_size b)"
    using assms by (simp only: of_nat_less_iff valid_pos_def) simp
  then show ?thesis by (simp add: in_range_def check_def word_sle_eq word_sless_alt)
next
  case False
  then show ?thesis by (simp add: in_range_def word_sle_eq)
qed

lemmas bucket_simps = bucket_at_def bucket_put_def in_range_valid valid_pos_bucket

lemma wf_bitset_put [wf_intros]:
  "wf_bitset b \<Longrightarrow> wf_bitset (b\<lparr>bs_data := (bs_data b)[k := w]\<rparr>)"
  by (simp add: wf_bitset_def)

lemma valid_pos_put [simp]: "valid_pos (b\<lparr>bs_data := d\<rparr>) i \<longleftrightarrow> valid_pos b i"
  by (simp add: valid_pos_def)

text \<open>Writing one bucket changes the content inside that bucket only.\<close>

lemma bits_of_put:
  assumes "k < length (bs_data b)"
  shows "n \<in> bits_of (b\<lparr>bs_data := (bs_data b)[k := w]\<rparr>) \<longleftrightarrow>
    (if n div 64 = k then bit w (n mod 64) else n \<in> bits_of b)"
proof -
  have "n < 64 * length (bs_data b)" if "n div 64 = k"
    using that assms by arith
  then show ?thesis using assms by (auto simp: bits_of_def)
qed

lemma same_bucket_bit:
  "n \<in> bits_of b \<longleftrightarrow> bit (bs_data b ! (n div 64)) (n mod 64)" if "n div 64 < length (bs_data b)"
proof -
  have "n < 64 * length (bs_data b)" using that by arith
  then show ?thesis by (simp add: bits_of_def)
qed

section \<open>The operations on the content\<close>

lemma Bitset64_IsSet_content:
  assumes "wf_bitset b" "valid_pos b i"
  shows "Bitset64_IsSet b i = Inr (unat i \<in> bits_of b)"
  using assms valid_pos_bucket [OF assms]
  by (simp add: Bitset64_IsSet_def bucket_simps bit_and_OneBit64 same_bucket_bit)

lemma Bitset64_Set_ok:
  assumes "wf_bitset b" "valid_pos b i"
  shows "\<exists>b'. Bitset64_Set b i = Inr b' \<and> wf_bitset b' \<and> bs_size b' = bs_size b
    \<and> bits_of b' = insert (unat i) (bits_of b)"
proof -
  let ?k = "unat i div 64"
  let ?w = "bs_data b ! ?k OR OneBit64 (ucast (BitPos64 i))"
  let ?b = "b\<lparr>bs_data := (bs_data b)[?k := ?w]\<rparr>"
  note k = valid_pos_bucket [OF assms]
  have "Bitset64_Set b i = Inr ?b"
    using assms k by (simp add: Bitset64_Set_def bucket_simps)
  moreover have "n \<in> bits_of ?b \<longleftrightarrow> n = unat i \<or> n \<in> bits_of b" for n
  proof (cases "n div 64 = ?k")
    case True
    then have "n mod 64 = unat i mod 64 \<longleftrightarrow> n = unat i"
      by (metis div_mult_mod_eq)
    with True k show ?thesis by (auto simp: bits_of_put bit_or_iff same_bucket_bit)
  next
    case False
    with k show ?thesis by (auto simp: bits_of_put)
  qed
  ultimately show ?thesis using assms by (auto intro: wf_bitset_put)
qed

lemma Bitset64_Clear_ok:
  assumes "wf_bitset b" "valid_pos b i"
  shows "\<exists>b'. Bitset64_Clear b i = Inr b' \<and> wf_bitset b' \<and> bs_size b' = bs_size b
    \<and> bits_of b' = bits_of b - {unat i}"
proof -
  let ?k = "unat i div 64"
  let ?w = "bs_data b ! ?k AND NOT (OneBit64 (ucast (BitPos64 i)))"
  let ?b = "b\<lparr>bs_data := (bs_data b)[?k := ?w]\<rparr>"
  note k = valid_pos_bucket [OF assms]
  have "Bitset64_Clear b i = Inr ?b"
    using assms k by (simp add: Bitset64_Clear_def bucket_simps)
  moreover have "n \<in> bits_of ?b \<longleftrightarrow> n \<noteq> unat i \<and> n \<in> bits_of b" for n
  proof (cases "n div 64 = ?k")
    case True
    then have "n mod 64 = unat i mod 64 \<longleftrightarrow> n = unat i"
      by (metis div_mult_mod_eq)
    with True k show ?thesis by (auto simp: bits_of_put bit_and_iff bit_not_iff same_bucket_bit)
  next
    case False
    with k show ?thesis by (auto simp: bits_of_put)
  qed
  ultimately show ?thesis using assms by (auto intro: wf_bitset_put)
qed

lemma pair_split: "(n :: nat) div 2 = 32 * (n div 64) + n mod 64 div 2"
proof -
  have "n = 2 * (32 * (n div 64)) + n mod 64"
    using div_mult_mod_eq [of n 64] by (simp add: mult.commute)
  then have "n div 2 = (2 * (32 * (n div 64)) + n mod 64) div 2" by simp
  then show ?thesis by (simp only: div_mult_self4)
qed

lemma pair_mod:
  fixes n m :: nat
  assumes "n div 64 = m div 64"
  shows "n mod 64 div 2 = m mod 64 div 2 \<longleftrightarrow> n div 2 = m div 2"
  using assms pair_split [of n] pair_split [of m] by simp

lemma pair_same_bucket: "(n :: nat) div 2 = m div 2 \<Longrightarrow> n div 64 = m div 64"
  using div_mult2_eq [of n 2 32] div_mult2_eq [of m 2 32] by simp

lemma Bitset64_ClearTwoBits_ok:
  assumes "wf_bitset b" "valid_pos b i"
  shows "\<exists>b'. Bitset64_ClearTwoBits b i = Inr b' \<and> wf_bitset b' \<and> bs_size b' = bs_size b
    \<and> bits_of b' = {n \<in> bits_of b. n div 2 \<noteq> unat i div 2}"
proof -
  let ?k = "unat i div 64"
  let ?w = "bs_data b ! ?k AND NOT (TwoBitsFromPos64 i)"
  let ?b = "b\<lparr>bs_data := (bs_data b)[?k := ?w]\<rparr>"
  note k = valid_pos_bucket [OF assms]
  have "Bitset64_ClearTwoBits b i = Inr ?b"
    using assms k by (simp add: Bitset64_ClearTwoBits_def bucket_simps)
  moreover have "n \<in> bits_of ?b \<longleftrightarrow> n \<in> bits_of b \<and> n div 2 \<noteq> unat i div 2" for n
  proof (cases "n div 64 = ?k")
    case True
    with k show ?thesis
      using pair_mod [OF True] by (auto simp: bits_of_put bit_and_iff bit_not_iff same_bucket_bit)
  next
    case False
    then have "n div 2 \<noteq> unat i div 2" using pair_same_bucket by blast
    with False k show ?thesis by (auto simp: bits_of_put)
  qed
  ultimately show ?thesis using assms by (auto intro: wf_bitset_put)
qed

lemma Bitset64_AreOneOfTwoBitsSet_content:
  assumes "wf_bitset b" "valid_pos b i"
  shows "Bitset64_AreOneOfTwoBitsSet b i = Inr (\<exists>n \<in> bits_of b. n div 2 = unat i div 2)"
proof -
  let ?k = "unat i div 64"
  note k = valid_pos_bucket [OF assms]
  have "(\<exists>m < 64. m div 2 = unat i mod 64 div 2 \<and> bit (bs_data b ! ?k) m) \<longleftrightarrow>
      (\<exists>n \<in> bits_of b. n div 2 = unat i div 2)" (is "?L \<longleftrightarrow> ?R")
  proof
    assume ?L
    then obtain m where m: "m < 64" "m div 2 = unat i mod 64 div 2" "bit (bs_data b ! ?k) m"
      by blast
    then have "(64 * ?k + m) div 64 = ?k" "(64 * ?k + m) mod 64 = m"
      by simp_all
    with m k pair_mod [of "64 * ?k + m" "unat i"]
    have "64 * ?k + m \<in> bits_of b" "(64 * ?k + m) div 2 = unat i div 2"
      by (simp_all add: same_bucket_bit)
    then show ?R by blast
  next
    assume ?R
    then obtain n where n: "n \<in> bits_of b" "n div 2 = unat i div 2" by blast
    then have e: "n div 64 = ?k" by (blast intro: pair_same_bucket)
    with n k have "bit (bs_data b ! ?k) (n mod 64)" by (simp add: same_bucket_bit)
    with pair_mod [OF e] n show ?L by (intro exI [of _ "n mod 64"]) auto
  qed
  then show ?thesis
    using assms k by (simp add: Bitset64_AreOneOfTwoBitsSet_def bucket_simps bit_and_TwoBits64)
qed

section \<open>Resizing\<close>

definition clean_bitset :: "bitset \<Rightarrow> bool" where
  "clean_bitset b \<longleftrightarrow> bits_of b \<subseteq> {..<unat (bs_size b)}"

lemma bits_of_resize:
  "bits_of \<lparr>bs_size = sz, bs_data = vec_resize (bs_data b) k 0\<rparr> = bits_of b \<inter> {..<64 * k}"
proof (rule set_eqI)
  fix n
  have "n div 64 < k" if "n < 64 * k" using that by (simp add: less_mult_imp_div_less mult.commute)
  moreover have "n div 64 < length (bs_data b) \<longleftrightarrow> n < 64 * length (bs_data b)"
    by (simp add: div_less_iff_less_mult mult.commute)
  ultimately show "n \<in> bits_of \<lparr>bs_size = sz, bs_data = vec_resize (bs_data b) k 0\<rparr> \<longleftrightarrow>
      n \<in> bits_of b \<inter> {..<64 * k}"
    by (auto simp: bits_of_def nth_vec_resize split: if_splits)
qed

lemma nonneg_size:
  fixes sz :: int64
  assumes "unat sz < 2 ^ 63"
  shows "0 \<le>s sz" and "(if 0 <s sz then sz else 0) = sz"
proof -
  have e: "sint sz = int (unat sz)" using assms by (simp add: sint_small)
  then show "0 \<le>s sz" by (simp add: word_sle_eq)
  have "0 < sint sz" if "sz \<noteq> 0"
    unfolding e using that by (simp only: of_nat_0_less_iff unat_gt_0 not_False_eq_True)
  then show "(if 0 <s sz then sz else 0) = sz" by (auto simp: word_sless_alt)
qed

lemma Bitset64_Resize_ok:
  assumes "unat sz < 2 ^ 63"
  shows "\<exists>b'. Bitset64_Resize b sz = Inr b' \<and> wf_bitset b' \<and> bs_size b' = sz
    \<and> bits_of b' = bits_of b \<inter> {..<64 * ((unat sz + 63) div 64)}"
proof -
  have "Bitset64_Resize b sz =
      Inr \<lparr>bs_size = sz, bs_data = vec_resize (bs_data b) ((unat sz + 63) div 64) 0\<rparr>"
    using assms nonneg_size [OF assms] by (simp add: Bitset64_Resize_def unat_BitLength64)
  then show ?thesis using assms by (simp add: wf_bitset_def bits_of_resize)
qed

lemma Bitset64_Resize_negative: "sint sz < 0 \<Longrightarrow> Bitset64_Resize b sz = Inl Check_failed"
  by (simp add: Bitset64_Resize_def word_sle_eq)

text \<open>Growing a bit set that has no stale bits keeps the content and adds zeros only.\<close>

lemma Bitset64_Resize_grow:
  assumes "unat sz < 2 ^ 63" "clean_bitset b" "unat (bs_size b) \<le> unat sz"
  shows "\<exists>b'. Bitset64_Resize b sz = Inr b' \<and> wf_bitset b' \<and> bs_size b' = sz
    \<and> bits_of b' = bits_of b \<and> clean_bitset b'"
proof -
  obtain b' where b': "Bitset64_Resize b sz = Inr b'" "wf_bitset b'" "bs_size b' = sz"
      "bits_of b' = bits_of b \<inter> {..<64 * ((unat sz + 63) div 64)}"
    using Bitset64_Resize_ok [OF assms(1)] by blast
  have "unat sz \<le> 64 * ((unat sz + 63) div 64)" by arith
  with assms have "bits_of b \<subseteq> {..<64 * ((unat sz + 63) div 64)}"
    by (auto simp: clean_bitset_def)
  with b' assms show ?thesis by (auto simp: clean_bitset_def)
qed

section \<open>Whole-set operations\<close>

lemma bits_of_ClearAll [simp]: "bits_of (Bitset64_ClearAll b) = {}"
  by (auto simp: bits_of_def Bitset64_ClearAll_def less_mult_imp_div_less mult.commute)

lemma bits_of_Intersection [simp]:
  "bits_of (Bitset64_Intersection b c) = bits_of b \<inter> bits_of c"
proof (rule set_eqI)
  fix n
  show "n \<in> bits_of (Bitset64_Intersection b c) \<longleftrightarrow> n \<in> bits_of b \<inter> bits_of c"
    using div_less_iff_less_mult [of 64 n "length (bs_data b)"]
      div_less_iff_less_mult [of 64 n "length (bs_data c)"]
    by (auto simp: bits_of_def Bitset64_Intersection_def bit_and_iff mult.commute)
qed

lemma bits_of_Union:
  "bits_of (Bitset64_Union b c) = bits_of b \<union> (bits_of c \<inter> {..<64 * length (bs_data b)})"
proof (rule set_eqI)
  fix n
  show "n \<in> bits_of (Bitset64_Union b c) \<longleftrightarrow>
      n \<in> bits_of b \<union> (bits_of c \<inter> {..<64 * length (bs_data b)})"
    using div_less_iff_less_mult [of 64 n "length (bs_data b)"]
      div_less_iff_less_mult [of 64 n "length (bs_data c)"]
    by (auto simp: bits_of_def Bitset64_Union_def bit_or_iff mult.commute)
qed

lemma Bitset64_ClearAndResize_ok:
  assumes "unat sz < 2 ^ 63"
  shows "\<exists>b'. Bitset64_ClearAndResize b sz = Inr b' \<and> wf_bitset b' \<and> bs_size b' = sz
    \<and> bits_of b' = {}"
proof -
  note s = nonneg_size [OF assms]
  define k where "k = (unat sz + 63) div 64"
  define m where "m = min (length (bs_data b)) k"
  have d: "replicate m 0 @ drop m (vec_resize (bs_data b) k 0) = (replicate k 0 :: int64 list)"
    by (rule nth_equalityI) (auto simp: m_def nth_append nth_vec_resize)
  have "Bitset64_ClearAndResize b sz = Inr \<lparr>bs_size = sz, bs_data = replicate k 0\<rparr>"
    using assms s d by (simp add: Bitset64_ClearAndResize_def unat_BitLength64 k_def m_def Let_def)
  then show ?thesis
    using assms by (auto simp: wf_bitset_def k_def bits_of_def less_mult_imp_div_less mult.commute)
qed

section \<open>The interface of a client that stores two bits per object\<close>

locale bit_pairs =
  fixes inv :: "'s \<Rightarrow> bool"
    and valid :: "'s \<Rightarrow> 'i \<Rightarrow> bool"
    and pos :: "'i \<Rightarrow> nat"
    and content :: "'s \<Rightarrow> nat set"
    and isSet :: "'s \<Rightarrow> 'i \<Rightarrow> bool result"
    and anyOfPair :: "'s \<Rightarrow> 'i \<Rightarrow> bool result"
    and setBit :: "'s \<Rightarrow> 'i \<Rightarrow> 's result"
    and clearPair :: "'s \<Rightarrow> 'i \<Rightarrow> 's result"
  assumes isSet: "inv s \<Longrightarrow> valid s i \<Longrightarrow> isSet s i = Inr (pos i \<in> content s)"
    and anyOfPair: "inv s \<Longrightarrow> valid s i \<Longrightarrow>
      anyOfPair s i = Inr (\<exists>n \<in> content s. n div 2 = pos i div 2)"
    and setBit: "inv s \<Longrightarrow> valid s i \<Longrightarrow> \<exists>s'. setBit s i = Inr s' \<and> inv s' \<and> valid s' = valid s
      \<and> content s' = insert (pos i) (content s)"
    and clearPair: "inv s \<Longrightarrow> valid s i \<Longrightarrow> \<exists>s'. clearPair s i = Inr s' \<and> inv s' \<and> valid s' = valid s
      \<and> content s' = {n \<in> content s. n div 2 \<noteq> pos i div 2}"
begin

lemma clear_then_none:
  assumes "inv s" "valid s i" "clearPair s i = Inr s'"
  shows "anyOfPair s' i = Inr False"
  using clearPair [OF assms(1,2)] assms anyOfPair [of s' i] by auto

lemma set_then_any:
  assumes "inv s" "valid s i" "setBit s i = Inr s'"
  shows "isSet s' i = Inr True \<and> anyOfPair s' i = Inr True"
  using setBit [OF assms(1,2)] assms anyOfPair [of s' i] isSet [of s' i] by auto

text \<open>Setting a bit of a pair that had none and clearing the pair restores the content.\<close>

lemma set_then_clear:
  assumes "inv s" "valid s i" "anyOfPair s i = Inr False"
    and "setBit s i = Inr s1" "clearPair s1 i = Inr s2"
  shows "inv s2 \<and> valid s2 = valid s \<and> content s2 = content s"
proof -
  have none: "\<forall>n \<in> content s. n div 2 \<noteq> pos i div 2"
    using assms(1-3) anyOfPair by auto
  from setBit [OF assms(1,2)] assms(4) have s1: "inv s1" "valid s1 = valid s"
      "content s1 = insert (pos i) (content s)" by auto
  then have "valid s1 i" using assms(2) by simp
  from clearPair [OF s1(1) this] assms(5)
  have "inv s2" "valid s2 = valid s1"
      "content s2 = {n \<in> content s1. n div 2 \<noteq> pos i div 2}" by auto
  with s1 none show ?thesis by auto
qed

end

interpretation bs: bit_pairs wf_bitset valid_pos unat bits_of Bitset64_IsSet
    Bitset64_AreOneOfTwoBitsSet Bitset64_Set Bitset64_ClearTwoBits
proof unfold_locales
  fix b i
  assume wf: "wf_bitset b" and v: "valid_pos b i"
  show "Bitset64_IsSet b i = Inr (unat i \<in> bits_of b)"
    by (rule Bitset64_IsSet_content [OF wf v])
  show "Bitset64_AreOneOfTwoBitsSet b i = Inr (\<exists>n \<in> bits_of b. n div 2 = unat i div 2)"
    by (rule Bitset64_AreOneOfTwoBitsSet_content [OF wf v])
  have vp: "valid_pos b' = valid_pos b" if "bs_size b' = bs_size b" for b'
    using that by (simp add: valid_pos_def fun_eq_iff)
  then show "\<exists>s'. Bitset64_Set b i = Inr s' \<and> wf_bitset s' \<and> valid_pos s' = valid_pos b
      \<and> bits_of s' = insert (unat i) (bits_of b)"
    using Bitset64_Set_ok [OF wf v] by blast
  show "\<exists>s'. Bitset64_ClearTwoBits b i = Inr s' \<and> wf_bitset s' \<and> valid_pos s' = valid_pos b
      \<and> bits_of s' = {n \<in> bits_of b. n div 2 \<noteq> unat i div 2}"
    using Bitset64_ClearTwoBits_ok [OF wf v] vp by blast
qed

section \<open>Properties\<close>

text \<open>
  Writing a value at a valid position changes that bit only, reading returns whether the bit
  is in the content, and every operation at a position outside the size fails its check.
\<close>

lemma bitset_read_write:
  assumes "wf_bitset b"
  shows "if valid_pos b i
    then (\<exists>b'. Bitset64_SetValue b i v = Inr b' \<and> wf_bitset b' \<and> bs_size b' = bs_size b
           \<and> bits_of b' = (if v then insert (unat i) (bits_of b) else bits_of b - {unat i})
           \<and> Bitset64_IsSet b' i = Inr v)
    else Bitset64_SetValue b i v = Inl Check_failed \<and> Bitset64_IsSet b i = Inl Check_failed"
proof (cases "valid_pos b i")
  case True
  obtain b' where b': "Bitset64_SetValue b i v = Inr b'" "wf_bitset b'" "bs_size b' = bs_size b"
      "bits_of b' = (if v then insert (unat i) (bits_of b) else bits_of b - {unat i})"
    using Bitset64_Set_ok [OF assms True] Bitset64_Clear_ok [OF assms True]
    by (cases v) (auto simp: Bitset64_SetValue_def)
  moreover have "valid_pos b' i" using True b'(3) by (simp add: valid_pos_def)
  ultimately show ?thesis using True Bitset64_IsSet_content [of b' i] by simp
next
  case False
  then show ?thesis
    by (simp add: Bitset64_SetValue_def Bitset64_Set_def Bitset64_Clear_def Bitset64_IsSet_def
        in_range_invalid [OF assms False])
qed

lemma bitset_read_write_witness:
  "wf_bitset (Bitset64_new 100) \<and>
   (\<exists>b'. Bitset64_SetValue (Bitset64_new 100) 70 True = Inr b' \<and> Bitset64_IsSet b' 70 = Inr True)
   \<and> Bitset64_IsSet (Bitset64_new 100) 100 = Inl Check_failed"
proof -
  have sz: "bs_size (Bitset64_new 100) = 100"
    by (simp add: Bitset64_new_def word_sless_alt)
  have wf: "wf_bitset (Bitset64_new 100)"
    by (simp add: wf_bitset_def Bitset64_new_def word_sless_alt unat_BitLength64)
  show ?thesis
    using bitset_read_write [OF wf, of 70 True] bitset_read_write [OF wf, of 100 True] wf
    by (auto simp: valid_pos_def sz)
qed

text \<open>
  \<open>Resize\<close> does not clear what it cuts off inside the last bucket: shrinking a set by one
  bit and growing it again brings the old bit back, although the documentation of \<open>Resize\<close>
  says that new bits are 0.
\<close>

lemma resize_keeps_stale_bit:
  "andThen (Bitset64_Set (Bitset64_new 2) 1) (\<lambda>b.
   andThen (Bitset64_Resize b 1) (\<lambda>b.
   andThen (Bitset64_Resize b 2) (\<lambda>b. Bitset64_IsSet b 1))) = Inr True"
  by code_simp

text \<open>
  Setting one bit of a pair that had none and clearing the pair restores the content, and
  between the two the pair test answers yes.
\<close>

lemma pair_set_clear:
  assumes "wf_bitset b" "valid_pos b i" "Bitset64_AreOneOfTwoBitsSet b i = Inr False"
  shows "\<exists>b1 b2. Bitset64_Set b i = Inr b1 \<and> Bitset64_AreOneOfTwoBitsSet b1 i = Inr True
    \<and> Bitset64_ClearTwoBits b1 i = Inr b2 \<and> wf_bitset b2 \<and> bits_of b2 = bits_of b"
proof -
  obtain b1 where b1: "Bitset64_Set b i = Inr b1" "wf_bitset b1" "valid_pos b1 = valid_pos b"
    using bs.setBit [OF assms(1,2)] by blast
  obtain b2 where b2: "Bitset64_ClearTwoBits b1 i = Inr b2"
    using bs.clearPair [OF b1(2), of i] b1(3) assms(2) by auto
  show ?thesis
    using bs.set_then_any [OF assms(1,2) b1(1)] bs.set_then_clear [OF assms b1(1) b2] b1(1) b2
    by blast
qed

lemma pair_set_clear_witness:
  "\<exists>b1 b2. Bitset64_Set (Bitset64_new 100) 71 = Inr b1
    \<and> Bitset64_ClearTwoBits b1 71 = Inr b2 \<and> bits_of b2 = bits_of (Bitset64_new 100)"
proof -
  have sz: "bs_size (Bitset64_new 100) = 100"
    by (simp add: Bitset64_new_def word_sless_alt)
  have wf: "wf_bitset (Bitset64_new 100)"
    by (simp add: wf_bitset_def Bitset64_new_def word_sless_alt unat_BitLength64)
  have "Bitset64_AreOneOfTwoBitsSet (Bitset64_new 100) 71 = Inr False" by code_simp
  then show ?thesis
    using pair_set_clear [OF wf, of 71] by (auto simp: valid_pos_def sz)
qed

end
