(* ===== verification/Assignments.thy ===== *)
theory Assignments
  imports Bitset Literals
begin

text \<open>
  The class \<open>Assignment\<close> of \<open>include/cosy/Assignment.h\<close>: a bit set with two bits per
  variable, the even one for the positive and the odd one for the negative literal.
  \<open>value_of\<close> reads it as a partial assignment of truth values to variables; the lemmas say
  what every operation does to that reading. The locale \<open>partial_valuation\<close> is the interface
  that the symmetry statuses use.
\<close>

unbundle bit_operations_syntax

section \<open>State and operations\<close>

record assignment =
  as_bits :: bitset

definition lit_pos :: "literal \<Rightarrow> int64" where
  "lit_pos l = scast (index l)"

definition var_pos :: "variable \<Rightarrow> int64" where
  "var_pos v = scast (push_bit 1 v)"

definition Assignment_empty :: assignment where
  "Assignment_empty = \<lparr>as_bits = Bitset64_empty\<rparr>"

definition Assignment_resize :: "assignment \<Rightarrow> int32 \<Rightarrow> assignment result" where
  "Assignment_resize a num_variables =
     andThen (Bitset64_Resize (as_bits a) (scast (push_bit 1 num_variables)))
       (\<lambda>b. Inr (a\<lparr>as_bits := b\<rparr>))"

definition Assignment_new :: "int32 \<Rightarrow> assignment result" where
  "Assignment_new num_variables = Assignment_resize Assignment_empty num_variables"

definition literalIsTrue :: "assignment \<Rightarrow> literal \<Rightarrow> bool result" where
  "literalIsTrue a l = Bitset64_IsSet (as_bits a) (lit_pos l)"

definition literalIsFalse :: "assignment \<Rightarrow> literal \<Rightarrow> bool result" where
  "literalIsFalse a l = Bitset64_IsSet (as_bits a) (scast (negatedIndex l))"

definition literalIsAssigned :: "assignment \<Rightarrow> literal \<Rightarrow> bool result" where
  "literalIsAssigned a l = Bitset64_AreOneOfTwoBitsSet (as_bits a) (lit_pos l)"

definition variableIsAssigned :: "assignment \<Rightarrow> variable \<Rightarrow> bool result" where
  "variableIsAssigned a v = Bitset64_AreOneOfTwoBitsSet (as_bits a) (var_pos v)"

definition assignFromTrueLiteral :: "assignment \<Rightarrow> literal \<Rightarrow> assignment result" where
  "assignFromTrueLiteral a l =
     andThen (variableIsAssigned a (variable l)) (\<lambda>assigned. check (\<not> assigned)
      (andThen (Bitset64_Set (as_bits a) (lit_pos l)) (\<lambda>b. Inr (a\<lparr>as_bits := b\<rparr>))))"

definition unassignLiteral :: "assignment \<Rightarrow> literal \<Rightarrow> assignment result" where
  "unassignLiteral a l =
     andThen (variableIsAssigned a (variable l)) (\<lambda>assigned. check assigned
      (andThen (Bitset64_ClearTwoBits (as_bits a) (lit_pos l)) (\<lambda>b. Inr (a\<lparr>as_bits := b\<rparr>))))"

definition bothLiteralsAreAssigned :: "assignment \<Rightarrow> literal \<Rightarrow> literal \<Rightarrow> bool result" where
  "bothLiteralsAreAssigned a x y =
     andThen (literalIsAssigned a x) (\<lambda>bx. if bx then literalIsAssigned a y else Inr False)"

definition hasSameAssignmentValue :: "assignment \<Rightarrow> literal \<Rightarrow> literal \<Rightarrow> bool result" where
  "hasSameAssignmentValue a x y =
     andThen (bothLiteralsAreAssigned a x y) (\<lambda>both.
       if both
       then andThen (literalIsTrue a x) (\<lambda>tx. andThen (literalIsTrue a y) (\<lambda>ty. Inr (tx = ty)))
       else Inr False)"

definition getTrueLiteralForAssignedVariable :: "assignment \<Rightarrow> variable \<Rightarrow> literal result" where
  "getTrueLiteralForAssignedVariable a v =
     andThen (variableIsAssigned a v) (\<lambda>assigned. check assigned
      (andThen (Bitset64_IsSet (as_bits a) (var_pos v)) (\<lambda>s. Inr (Literal_var v s))))"

definition getFalseLiteralForAssignedVariable :: "assignment \<Rightarrow> variable \<Rightarrow> literal result" where
  "getFalseLiteralForAssignedVariable a v =
     andThen (variableIsAssigned a v) (\<lambda>assigned. check assigned
      (andThen (Bitset64_IsSet (as_bits a) (var_pos v)) (\<lambda>s. Inr (Literal_var v (\<not> s)))))"

definition numberOfVariables :: "assignment \<Rightarrow> int32" where
  "numberOfVariables a = word_of_int (sint (bs_size (as_bits a)) div 2)"

section \<open>The partial assignment\<close>

type_synonym valuation = "variable \<Rightarrow> bool option"

definition value_of :: "assignment \<Rightarrow> valuation" where
  "value_of a v =
     (if 2 * unat v \<in> bits_of (as_bits a) then Some True
      else if Suc (2 * unat v) \<in> bits_of (as_bits a) then Some False else None)"

definition lit_value :: "valuation \<Rightarrow> literal \<Rightarrow> bool option" where
  "lit_value \<sigma> l = map_option (\<lambda>b. b = isPositive l) (\<sigma> (variable l))"

definition wf_assignment :: "nat \<Rightarrow> assignment \<Rightarrow> bool" where
  "wf_assignment n a \<longleftrightarrow>
     n < 2 ^ 30 \<and> wf_bitset (as_bits a) \<and> clean_bitset (as_bits a)
     \<and> unat (bs_size (as_bits a)) = 2 * n
     \<and> (\<forall>k. \<not> (2 * k \<in> bits_of (as_bits a) \<and> Suc (2 * k) \<in> bits_of (as_bits a)))"

definition lit_in :: "nat \<Rightarrow> literal \<Rightarrow> bool" where
  "lit_in n l \<longleftrightarrow> unat (variable l) < n"

definition same_value :: "valuation \<Rightarrow> literal \<Rightarrow> literal \<Rightarrow> bool" where
  "same_value \<sigma> x y \<longleftrightarrow> lit_value \<sigma> x \<noteq> None \<and> lit_value \<sigma> x = lit_value \<sigma> y"

lemma lit_value_negated [simp]: "lit_value \<sigma> (negated l) = map_option Not (lit_value \<sigma> l)"
  by (cases "\<sigma> (variable l)") (auto simp: lit_value_def)

lemma lit_value_None_iff [simp]: "lit_value \<sigma> l = None \<longleftrightarrow> \<sigma> (variable l) = None"
  by (simp add: lit_value_def)

lemma lit_in_negated [simp]: "lit_in n (negated l) \<longleftrightarrow> lit_in n l"
  by (simp add: lit_in_def)

lemma lit_in_small: "n < 2 ^ 30 \<Longrightarrow> lit_in n l \<Longrightarrow> small_var (variable l)"
  by (simp add: lit_in_def small_var_def)

lemma lit_value_upd:
  "lit_value (\<sigma>(variable l \<mapsto> isPositive l)) m =
     (if variable m = variable l then Some (m = l) else lit_value \<sigma> m)"
  by (auto simp: lit_value_def literal_eq_iff)

section \<open>Positions\<close>

lemma unat_index_bound: "n < 2 ^ 30 \<Longrightarrow> lit_in n l \<Longrightarrow> unat (index l) < 2 * n"
  using unat_index [of l] lit_in_small [of n l] by (auto simp: lit_in_def)

lemma unat_lit_pos:
  assumes "n < 2 ^ 30" "lit_in n l"
  shows "unat (lit_pos l) = 2 * unat (variable l) + (if isPositive l then 0 else 1)"
  using assms unat_index_bound [OF assms] unat_index [of l] lit_in_small [of n l]
  by (simp add: lit_pos_def unat_scast_small)

lemma lit_pos_negated: "lit_pos (negated l) = scast (negatedIndex l)"
  by (simp add: lit_pos_def negated_def)

lemma lit_pos_Literal_var: "lit_pos (Literal_var v True) = var_pos v"
  by (simp add: lit_pos_def var_pos_def Literal_var_def)

lemma valid_lit_pos:
  assumes "wf_assignment n a" "lit_in n l"
  shows "valid_pos (as_bits a) (lit_pos l)"
proof -
  have "n < 2 ^ 30" using assms by (simp add: wf_assignment_def)
  from unat_lit_pos [OF this assms(2)] assms show ?thesis
    by (auto simp: valid_pos_def wf_assignment_def lit_in_def)
qed

section \<open>Reads\<close>

lemma wf_assignmentD:
  assumes "wf_assignment n a"
  shows "n < 2 ^ 30" "wf_bitset (as_bits a)"
    "2 * k \<in> bits_of (as_bits a) \<Longrightarrow> Suc (2 * k) \<notin> bits_of (as_bits a)"
  using assms by (auto simp: wf_assignment_def)

lemma lit_value_bit:
  assumes "wf_assignment n a" "lit_in n l"
  shows "unat (lit_pos l) \<in> bits_of (as_bits a) \<longleftrightarrow> lit_value (value_of a) l = Some True"
  using unat_lit_pos [OF wf_assignmentD(1) [OF assms(1)] assms(2)]
    wf_assignmentD(3) [OF assms(1), of "unat (variable l)"]
  by (auto simp: lit_value_def value_of_def)

lemma pair_member: "(\<exists>m \<in> S. m div 2 = k) \<longleftrightarrow> 2 * k \<in> S \<or> Suc (2 * k) \<in> (S :: nat set)"
proof
  assume "\<exists>m \<in> S. m div 2 = k"
  then obtain m where "m \<in> S" "m div 2 = k" by blast
  moreover from this have "m = 2 * k \<or> m = Suc (2 * k)" by arith
  ultimately show "2 * k \<in> S \<or> Suc (2 * k) \<in> S" by auto
qed (auto intro: rev_bexI)

lemma lit_pos_div_2:
  assumes "wf_assignment n a" "lit_in n l"
  shows "unat (lit_pos l) div 2 = unat (variable l)"
  using unat_lit_pos [OF wf_assignmentD(1) [OF assms(1)] assms(2)] by simp

lemma literalIsTrue_eq [simp]:
  assumes "wf_assignment n a" "lit_in n l"
  shows "literalIsTrue a l = Inr (lit_value (value_of a) l = Some True)"
  using assms lit_value_bit [OF assms]
  by (simp add: literalIsTrue_def bs.isSet wf_assignmentD(2) valid_lit_pos)

lemma literalIsFalse_eq [simp]:
  assumes "wf_assignment n a" "lit_in n l"
  shows "literalIsFalse a l = Inr (lit_value (value_of a) l = Some False)"
proof -
  have "literalIsFalse a l = literalIsTrue a (negated l)"
    by (simp add: literalIsFalse_def literalIsTrue_def lit_pos_negated)
  moreover have "literalIsTrue a (negated l) = Inr (lit_value (value_of a) (negated l) = Some True)"
    by (rule literalIsTrue_eq) (use assms in simp_all)
  ultimately show ?thesis
    by (cases "value_of a (variable l)") (simp_all add: lit_value_def)
qed

lemma literalIsAssigned_eq [simp]:
  assumes "wf_assignment n a" "lit_in n l"
  shows "literalIsAssigned a l = Inr (lit_value (value_of a) l \<noteq> None)"
proof -
  have "literalIsAssigned a l =
      Inr (\<exists>m \<in> bits_of (as_bits a). m div 2 = unat (variable l))"
    using assms by (simp add: literalIsAssigned_def bs.anyOfPair wf_assignmentD(2) valid_lit_pos
        lit_pos_div_2)
  then show ?thesis by (auto simp: pair_member value_of_def)
qed

lemma variableIsAssigned_eq [simp]:
  assumes "wf_assignment n a" "unat v < n"
  shows "variableIsAssigned a v = Inr (value_of a v \<noteq> None)"
proof -
  have v: "variable (Literal_var v True) = v"
    using assms wf_assignmentD(1) [OF assms(1)] by (simp add: small_var_def)
  have "variableIsAssigned a v = literalIsAssigned a (Literal_var v True)"
    by (simp add: variableIsAssigned_def literalIsAssigned_def lit_pos_Literal_var)
  also have "\<dots> = Inr (lit_value (value_of a) (Literal_var v True) \<noteq> None)"
    by (rule literalIsAssigned_eq) (use assms v in \<open>simp_all add: lit_in_def\<close>)
  finally show ?thesis by (simp add: v)
qed

lemma bothLiteralsAreAssigned_eq [simp]:
  assumes "wf_assignment n a" "lit_in n x" "lit_in n y"
  shows "bothLiteralsAreAssigned a x y =
    Inr (lit_value (value_of a) x \<noteq> None \<and> lit_value (value_of a) y \<noteq> None)"
  using assms by (simp add: bothLiteralsAreAssigned_def)

lemma hasSameAssignmentValue_eq [simp]:
  assumes "wf_assignment n a" "lit_in n x" "lit_in n y"
  shows "hasSameAssignmentValue a x y = Inr (same_value (value_of a) x y)"
proof (cases "lit_value (value_of a) x"; cases "lit_value (value_of a) y")
  fix b c
  assume "lit_value (value_of a) x = Some b" "lit_value (value_of a) y = Some c"
  then show ?thesis
    using assms by (auto simp: hasSameAssignmentValue_def same_value_def lit_value_def)
qed (use assms in \<open>auto simp: hasSameAssignmentValue_def same_value_def lit_value_def\<close>)

lemma var_pos_isSet:
  assumes "wf_assignment n a" "unat v < n"
  shows "Bitset64_IsSet (as_bits a) (var_pos v) = Inr (value_of a v = Some True)"
proof -
  have v: "variable (Literal_var v True) = v"
    using assms wf_assignmentD(1) [OF assms(1)] by (simp add: small_var_def)
  have "Bitset64_IsSet (as_bits a) (var_pos v) = literalIsTrue a (Literal_var v True)"
    by (simp add: literalIsTrue_def lit_pos_Literal_var)
  also have "\<dots> = Inr (lit_value (value_of a) (Literal_var v True) = Some True)"
    by (rule literalIsTrue_eq) (use assms v in \<open>simp_all add: lit_in_def\<close>)
  finally show ?thesis by (simp add: v lit_value_def)
qed

lemma getTrueLiteralForAssignedVariable_eq [simp]:
  assumes "wf_assignment n a" "unat v < n" "value_of a v = Some b"
  shows "getTrueLiteralForAssignedVariable a v = Inr (Literal_var v b)"
  using assms by (simp add: getTrueLiteralForAssignedVariable_def var_pos_isSet)

lemma getFalseLiteralForAssignedVariable_eq [simp]:
  assumes "wf_assignment n a" "unat v < n" "value_of a v = Some b"
  shows "getFalseLiteralForAssignedVariable a v = Inr (Literal_var v (\<not> b))"
  using assms by (simp add: getFalseLiteralForAssignedVariable_def var_pos_isSet)

section \<open>Writes\<close>

lemma assignFromTrueLiteral_ok:
  assumes wf: "wf_assignment n a" and l: "lit_in n l" and fresh: "value_of a (variable l) = None"
  shows "\<exists>a'. assignFromTrueLiteral a l = Inr a' \<and> wf_assignment n a'
    \<and> value_of a' = (value_of a)(variable l \<mapsto> isPositive l)"
proof -
  note n = wf_assignmentD(1) [OF wf]
  obtain b where b: "Bitset64_Set (as_bits a) (lit_pos l) = Inr b" "wf_bitset b"
      "bs_size b = bs_size (as_bits a)" "bits_of b = insert (unat (lit_pos l)) (bits_of (as_bits a))"
    using Bitset64_Set_ok [OF wf_assignmentD(2) [OF wf] valid_lit_pos [OF wf l]] by blast
  let ?a = "a\<lparr>as_bits := b\<rparr>"
  have none: "2 * unat (variable l) \<notin> bits_of (as_bits a)"
      "Suc (2 * unat (variable l)) \<notin> bits_of (as_bits a)"
    using fresh by (auto simp: value_of_def split: if_splits)
  have "assignFromTrueLiteral a l = Inr ?a"
    using wf l fresh b(1) by (simp add: assignFromTrueLiteral_def lit_in_def)
  moreover have "clean_bitset b"
    using wf b n l by (auto simp: wf_assignment_def clean_bitset_def unat_lit_pos lit_in_def)
  then have "wf_assignment n ?a"
    using wf b none n l by (auto simp: wf_assignment_def unat_lit_pos split: if_splits)
  moreover have "value_of ?a v = ((value_of a)(variable l \<mapsto> isPositive l)) v" for v
    using b(4) none n l
    by (auto simp: value_of_def unat_lit_pos unat_word32_eq_iff)
  ultimately show ?thesis by (intro exI [of _ ?a]) (auto simp: fun_eq_iff)
qed

lemma assignFromTrueLiteral_assigned:
  assumes "wf_assignment n a" "lit_in n l" "value_of a (variable l) \<noteq> None"
  shows "assignFromTrueLiteral a l = Inl Check_failed"
  using assms by (auto simp: assignFromTrueLiteral_def lit_in_def)

lemma unassignLiteral_ok:
  assumes wf: "wf_assignment n a" and l: "lit_in n l" and set: "value_of a (variable l) \<noteq> None"
  shows "\<exists>a'. unassignLiteral a l = Inr a' \<and> wf_assignment n a'
    \<and> value_of a' = (value_of a)(variable l := None)"
proof -
  note n = wf_assignmentD(1) [OF wf]
  obtain b where b: "Bitset64_ClearTwoBits (as_bits a) (lit_pos l) = Inr b" "wf_bitset b"
      "bs_size b = bs_size (as_bits a)"
      "bits_of b = {m \<in> bits_of (as_bits a). m div 2 \<noteq> unat (lit_pos l) div 2}"
    using Bitset64_ClearTwoBits_ok [OF wf_assignmentD(2) [OF wf] valid_lit_pos [OF wf l]] by blast
  let ?a = "a\<lparr>as_bits := b\<rparr>"
  have "unassignLiteral a l = Inr ?a"
    using wf l set b(1) by (auto simp: unassignLiteral_def lit_in_def)
  moreover have "wf_assignment n ?a"
    using wf b by (auto simp: wf_assignment_def clean_bitset_def)
  moreover have "value_of ?a v = ((value_of a)(variable l := None)) v" for v
    using b(4) lit_pos_div_2 [OF wf l]
    by (auto simp: value_of_def unat_word32_eq_iff)
  ultimately show ?thesis by (intro exI [of _ ?a]) (auto simp: fun_eq_iff)
qed

lemma unassignLiteral_unassigned:
  assumes "wf_assignment n a" "lit_in n l" "value_of a (variable l) = None"
  shows "unassignLiteral a l = Inl Check_failed"
  using assms by (auto simp: unassignLiteral_def lit_in_def)

lemma Assignment_new_ok:
  assumes "unat num < 2 ^ 30"
  shows "\<exists>a. Assignment_new num = Inr a \<and> wf_assignment (unat num) a \<and> value_of a = Map.empty"
proof -
  have "unat (push_bit 1 num) = 2 * unat num"
    using assms unat_push_bit_small [of num 1] by (simp add: mult.commute)
  then have sz: "unat (scast (push_bit 1 num) :: int64) = 2 * unat num"
    using assms by (simp add: unat_scast_small)
  have "clean_bitset Bitset64_empty" "bits_of Bitset64_empty = {}"
    by (auto simp: clean_bitset_def bits_of_def Bitset64_empty_def)
  with Bitset64_Resize_grow [of "scast (push_bit 1 num)" Bitset64_empty] sz assms
  obtain b where "Bitset64_Resize Bitset64_empty (scast (push_bit 1 num)) = Inr b" "wf_bitset b"
      "bs_size b = scast (push_bit 1 num)" "bits_of b = {}" "clean_bitset b"
    by (auto simp: Bitset64_empty_def)
  with sz assms show ?thesis
    by (intro exI [of _ "\<lparr>as_bits = b\<rparr>"])
      (auto simp: Assignment_new_def Assignment_resize_def Assignment_empty_def wf_assignment_def
        value_of_def fun_eq_iff)
qed

section \<open>The interface of a client that assigns and undoes in stack order\<close>

locale undo_store =
  fixes inv :: "'s \<Rightarrow> bool"
    and ok :: "literal \<Rightarrow> bool"
    and view :: "'s \<Rightarrow> valuation"
    and assign :: "'s \<Rightarrow> literal \<Rightarrow> 's result"
    and unassign :: "'s \<Rightarrow> literal \<Rightarrow> 's result"
  assumes assign: "inv s \<Longrightarrow> ok l \<Longrightarrow> view s (variable l) = None \<Longrightarrow>
      \<exists>s'. assign s l = Inr s' \<and> inv s' \<and> view s' = (view s)(variable l \<mapsto> isPositive l)"
    and unassign: "inv s \<Longrightarrow> ok l \<Longrightarrow> view s (variable l) \<noteq> None \<Longrightarrow>
      \<exists>s'. unassign s l = Inr s' \<and> inv s' \<and> view s' = (view s)(variable l := None)"
begin

text \<open>Assigning a list of fresh literals and undoing it in reverse order restores the view.\<close>

lemma assign_undo:
  assumes "inv s" "\<forall>l \<in> set ls. ok l \<and> view s (variable l) = None" "distinct (map variable ls)"
  shows "\<exists>s1 s2. foldR (\<lambda>l s. assign s l) ls s = Inr s1 \<and> inv s1
    \<and> foldR (\<lambda>l s. unassign s l) (rev ls) s1 = Inr s2 \<and> inv s2 \<and> view s2 = view s"
  using assms
proof (induction ls arbitrary: s)
  case Nil
  then show ?case by auto
next
  case (Cons l ls)
  then obtain s' where s': "assign s l = Inr s'" "inv s'"
      "view s' = (view s)(variable l \<mapsto> isPositive l)"
    using assign [of s l] by auto
  have fresh: "\<forall>m \<in> set ls. ok m \<and> view s' (variable m) = None"
    using Cons.prems s' by (auto simp: image_iff)
  have "distinct (map variable ls)" using Cons.prems by simp
  with Cons.IH [OF s'(2) fresh] obtain s1 s2 where s2: "foldR (\<lambda>l s. assign s l) ls s' = Inr s1" "inv s1"
      "foldR (\<lambda>l s. unassign s l) (rev ls) s1 = Inr s2" "inv s2" "view s2 = view s'"
    by blast
  with s' Cons.prems obtain s3 where "unassign s2 l = Inr s3" "inv s3"
      "view s3 = (view s2)(variable l := None)"
    using unassign [of s2 l] by auto
  with s' s2 Cons.prems show ?case
    by (auto simp: foldR_append fun_eq_iff)
qed

end

interpretation as: undo_store "wf_assignment n" "lit_in n" value_of assignFromTrueLiteral
    unassignLiteral for n
  by unfold_locales (auto dest: assignFromTrueLiteral_ok unassignLiteral_ok)

section \<open>Properties\<close>

text \<open>
  Assigning fresh literals over different variables, oldest first, and unassigning them in
  the opposite order succeeds, keeps the assignment well formed and restores the values.
\<close>

lemma assign_unassign_restores:
  assumes "wf_assignment n a" "\<forall>l \<in> set ls. lit_in n l \<and> value_of a (variable l) = None"
    and "distinct (map variable ls)"
  shows "\<exists>a1 a2. foldR (\<lambda>l a. assignFromTrueLiteral a l) ls a = Inr a1 \<and> wf_assignment n a1
    \<and> foldR (\<lambda>l a. unassignLiteral a l) (rev ls) a1 = Inr a2 \<and> wf_assignment n a2
    \<and> value_of a2 = value_of a"
  using as.assign_undo [OF assms] by blast

lemma assign_unassign_restores_witness:
  "\<exists>a a1 a2. Assignment_new 40 = Inr a
    \<and> foldR (\<lambda>l a. assignFromTrueLiteral a l) [Literal_var 3 True, Literal_var 39 False] a = Inr a1
    \<and> foldR (\<lambda>l a. unassignLiteral a l) [Literal_var 39 False, Literal_var 3 True] a1 = Inr a2
    \<and> value_of a2 = Map.empty"
proof -
  obtain a where a: "Assignment_new 40 = Inr a" "wf_assignment 40 a" "value_of a = Map.empty"
    using Assignment_new_ok [of 40] by auto
  have "small_var 3" "small_var 39" by (simp_all add: small_var_def)
  with a show ?thesis
    using assign_unassign_restores [OF a(2), of "[Literal_var 3 True, Literal_var 39 False]"]
    by (auto simp: lit_in_def)
qed

text \<open>
  The reads agree with the partial assignment that the bits stand for: a literal is true or
  false by the value of its variable, and the comparison of two literals is true exactly when
  both have a value and the values are equal.
\<close>

lemma assignment_reads:
  assumes "wf_assignment n a" "lit_in n x" "lit_in n y"
  shows "literalIsTrue a x = Inr (lit_value (value_of a) x = Some True)
    \<and> literalIsFalse a x = Inr (lit_value (value_of a) x = Some False)
    \<and> literalIsAssigned a x = Inr (value_of a (variable x) \<noteq> None)
    \<and> hasSameAssignmentValue a x y =
        Inr (\<exists>b. lit_value (value_of a) x = Some b \<and> lit_value (value_of a) y = Some b)
    \<and> getFalseLiteralForAssignedVariable a (variable x) =
        (case value_of a (variable x) of None \<Rightarrow> Inl Check_failed
         | Some b \<Rightarrow> Inr (Literal_var (variable x) (\<not> b)))"
proof -
  have v: "unat (variable x) < n" using assms(2) by (simp add: lit_in_def)
  have "same_value (value_of a) x y =
      (\<exists>b. lit_value (value_of a) x = Some b \<and> lit_value (value_of a) y = Some b)"
    unfolding same_value_def by (metis not_Some_eq option.inject)
  moreover have "getFalseLiteralForAssignedVariable a (variable x) = Inl Check_failed"
    if "value_of a (variable x) = None"
    using assms(1) v that by (simp add: getFalseLiteralForAssignedVariable_def)
  ultimately show ?thesis using assms v by (auto split: option.splits)
qed

lemma assignment_reads_witness:
  "\<exists>a. Assignment_new 40 = Inr a \<and> literalIsTrue a (Literal_var 3 False) = Inr False
    \<and> hasSameAssignmentValue a (Literal_var 3 False) (Literal_var 4 True) = Inr False
    \<and> getFalseLiteralForAssignedVariable a 3 = Inl Check_failed"
proof -
  obtain a where a: "Assignment_new 40 = Inr a" "wf_assignment 40 a" "value_of a = Map.empty"
    using Assignment_new_ok [of 40] by auto
  have "small_var 3" "small_var 4" by (simp_all add: small_var_def)
  with a show ?thesis
    using assignment_reads [OF a(2), of "Literal_var 3 False" "Literal_var 4 True"]
    by (auto simp: lit_in_def lit_value_def)
qed

end
