(* ===== verification/Lex_Leaders.thy ===== *)
theory Lex_Leaders
  imports Permutations Assignments
begin

text \<open>
  The abstract specification of symmetry breaking: total assignments, satisfaction of
  clauses, the action of a signed permutation on assignments, the lexicographic order on
  assignments that an order of literals and a value mode define, and the fact that makes
  symmetry breaking sound: clauses that only exclude assignments with a smaller symmetric model
  keep at least one model. Nothing here depends on how the program computes.
\<close>

section \<open>Total assignments and clauses\<close>

type_synonym total = "variable \<Rightarrow> bool"
type_synonym clause = "literal list"

definition lit_true :: "total \<Rightarrow> literal \<Rightarrow> bool" where
  "lit_true \<tau> l \<longleftrightarrow> \<tau> (variable l) = isPositive l"

definition sat_clause :: "total \<Rightarrow> clause \<Rightarrow> bool" where
  "sat_clause \<tau> c \<longleftrightarrow> (\<exists>l \<in> set c. lit_true \<tau> l)"

definition sat_all :: "total \<Rightarrow> clause set \<Rightarrow> bool" where
  "sat_all \<tau> F \<longleftrightarrow> (\<forall>c \<in> F. sat_clause \<tau> c)"

lemma lit_true_negated [simp]: "lit_true \<tau> (negated l) \<longleftrightarrow> \<not> lit_true \<tau> l"
  by (auto simp: lit_true_def)

lemma sat_all_Un: "sat_all \<tau> (F \<union> G) \<longleftrightarrow> sat_all \<tau> F \<and> sat_all \<tau> G"
  by (auto simp: sat_all_def)

section \<open>The order on values and assignments\<close>

datatype ValueMode = TRUE_LESS_FALSE | FALSE_LESS_TRUE

text \<open>\<open>less_value m a b\<close>: the value \<open>a\<close> is strictly smaller than \<open>b\<close> in the mode.\<close>

definition less_value :: "ValueMode \<Rightarrow> bool \<Rightarrow> bool \<Rightarrow> bool" where
  "less_value m a b \<longleftrightarrow> (if m = TRUE_LESS_FALSE then a \<and> \<not> b else \<not> a \<and> b)"

definition lex_less :: "ValueMode \<Rightarrow> literal list \<Rightarrow> total \<Rightarrow> total \<Rightarrow> bool" where
  "lex_less m ord \<tau>' \<tau> \<longleftrightarrow>
     (\<exists>k < length ord. (\<forall>i < k. lit_true \<tau>' (ord ! i) = lit_true \<tau> (ord ! i))
        \<and> less_value m (lit_true \<tau>' (ord ! k)) (lit_true \<tau> (ord ! k)))"

fun weight :: "ValueMode \<Rightarrow> literal list \<Rightarrow> total \<Rightarrow> nat" where
  "weight m [] \<tau> = 0"
| "weight m (l # ls) \<tau> =
     (if less_value m (\<not> lit_true \<tau> l) (lit_true \<tau> l) then 2 ^ length ls else 0) + weight m ls \<tau>"

lemma weight_bound: "weight m ls \<tau> < 2 ^ length ls"
  by (induction ls) auto

lemma lex_less_Cons:
  "lex_less m (l # ls) \<tau>' \<tau> \<longleftrightarrow>
     less_value m (lit_true \<tau>' l) (lit_true \<tau> l)
     \<or> (lit_true \<tau>' l = lit_true \<tau> l \<and> lex_less m ls \<tau>' \<tau>)"
proof
  assume "lex_less m (l # ls) \<tau>' \<tau>"
  then obtain k where k: "k < Suc (length ls)"
      "\<forall>i < k. lit_true \<tau>' ((l # ls) ! i) = lit_true \<tau> ((l # ls) ! i)"
      "less_value m (lit_true \<tau>' ((l # ls) ! k)) (lit_true \<tau> ((l # ls) ! k))"
    by (auto simp: lex_less_def)
  show "less_value m (lit_true \<tau>' l) (lit_true \<tau> l)
     \<or> (lit_true \<tau>' l = lit_true \<tau> l \<and> lex_less m ls \<tau>' \<tau>)"
  proof (cases k)
    case 0
    with k show ?thesis by simp
  next
    case (Suc j)
    with k have "lit_true \<tau>' l = lit_true \<tau> l" by (metis nth_Cons_0 zero_less_Suc)
    moreover have "\<forall>i < j. lit_true \<tau>' (ls ! i) = lit_true \<tau> (ls ! i)"
      using k Suc by (metis Suc_less_eq nth_Cons_Suc)
    ultimately show ?thesis using k Suc by (auto simp: lex_less_def)
  qed
next
  assume "less_value m (lit_true \<tau>' l) (lit_true \<tau> l)
     \<or> (lit_true \<tau>' l = lit_true \<tau> l \<and> lex_less m ls \<tau>' \<tau>)"
  then show "lex_less m (l # ls) \<tau>' \<tau>"
  proof
    assume "less_value m (lit_true \<tau>' l) (lit_true \<tau> l)"
    then show ?thesis unfolding lex_less_def by (intro exI [of _ 0]) simp
  next
    assume a: "lit_true \<tau>' l = lit_true \<tau> l \<and> lex_less m ls \<tau>' \<tau>"
    then obtain k where "k < length ls" "\<forall>i < k. lit_true \<tau>' (ls ! i) = lit_true \<tau> (ls ! i)"
        "less_value m (lit_true \<tau>' (ls ! k)) (lit_true \<tau> (ls ! k))"
      by (auto simp: lex_less_def)
    with a show ?thesis
      unfolding lex_less_def by (intro exI [of _ "Suc k"]) (auto simp: nth_Cons split: nat.splits)
  qed
qed

lemma lex_less_weight: "lex_less m ls \<tau>' \<tau> \<Longrightarrow> weight m ls \<tau>' < weight m ls \<tau>"
proof (induction ls)
  case Nil
  then show ?case by (simp add: lex_less_def)
next
  case (Cons l ls)
  from Cons.prems show ?case
    unfolding lex_less_Cons
  proof
    assume v: "less_value m (lit_true \<tau>' l) (lit_true \<tau> l)"
    then have "weight m (l # ls) \<tau>' = weight m ls \<tau>'"
        "weight m (l # ls) \<tau> = 2 ^ length ls + weight m ls \<tau>"
      by (auto simp: less_value_def split: if_splits)
    then show ?thesis using weight_bound [of m ls \<tau>'] by simp
  next
    assume "lit_true \<tau>' l = lit_true \<tau> l \<and> lex_less m ls \<tau>' \<tau>"
    then show ?thesis using Cons.IH by simp
  qed
qed

text \<open>Literals whose values agree on both sides can be left out of the comparison.\<close>

lemma lex_less_filter:
  assumes "lex_less m (filter P ls) \<tau>' \<tau>"
    and "\<And>l. l \<in> set ls \<Longrightarrow> \<not> P l \<Longrightarrow> lit_true \<tau>' l = lit_true \<tau> l"
  shows "lex_less m ls \<tau>' \<tau>"
  using assms
proof (induction ls)
  case Nil
  then show ?case by simp
next
  case (Cons l ls)
  then show ?case by (cases "P l") (auto simp: lex_less_Cons)
qed

section \<open>Breaking clauses keep a model\<close>

text \<open>
  \<open>breaks m ord F c\<close>: every model of \<open>F\<close> that the clause excludes has a smaller model.
\<close>

definition breaks :: "ValueMode \<Rightarrow> literal list \<Rightarrow> clause set \<Rightarrow> clause \<Rightarrow> bool" where
  "breaks m ord F c \<longleftrightarrow>
     (\<forall>\<tau>. sat_all \<tau> F \<longrightarrow> \<not> sat_clause \<tau> c \<longrightarrow> (\<exists>\<tau>'. sat_all \<tau>' F \<and> lex_less m ord \<tau>' \<tau>))"

lemma breaks_keep_model:
  assumes "sat_all \<tau> F" and "\<forall>c \<in> C. breaks m ord F c"
  shows "\<exists>\<tau>'. sat_all \<tau>' (F \<union> C)"
proof -
  obtain \<tau>' where min: "sat_all \<tau>' F" "\<And>\<rho>. sat_all \<rho> F \<Longrightarrow> weight m ord \<tau>' \<le> weight m ord \<rho>"
    using ex_has_least_nat [of "\<lambda>\<rho>. sat_all \<rho> F" \<tau> "weight m ord"] assms(1) by auto
  have "sat_clause \<tau>' c" if "c \<in> C" for c
  proof (rule ccontr)
    assume no: "\<not> sat_clause \<tau>' c"
    have "breaks m ord F c" using assms(2) that by simp
    from this [unfolded breaks_def, rule_format, OF min(1) no]
    obtain \<rho> where "sat_all \<rho> F" "lex_less m ord \<rho> \<tau>'" by auto
    then show False using min(2) [of \<rho>] lex_less_weight [of m ord \<rho> \<tau>'] by simp
  qed
  with min(1) show ?thesis by (auto simp: sat_all_Un sat_all_def)
qed

section \<open>Signed permutations acting on assignments\<close>

locale signed_action =
  fixes fwd bwd :: "literal \<Rightarrow> literal"
  assumes bwd_fwd: "bwd (fwd l) = l"
    and fwd_bwd: "fwd (bwd l) = l"
    and fwd_negated: "fwd (negated l) = negated (fwd l)"
begin

lemma bwd_negated: "bwd (negated l) = negated (bwd l)"
  by (metis bwd_fwd fwd_bwd fwd_negated)

definition move :: "total \<Rightarrow> total" where
  "move \<tau> v = lit_true \<tau> (bwd (Literal_var v True))"

lemma lit_true_move: "lit_true (move \<tau>) l = lit_true \<tau> (bwd l)"
proof -
  have "Literal_var (variable l) True = (if isPositive l then l else negated l)"
    by (metis (full_types) Literal_var_variable negated_Literal_var)
  then show ?thesis by (auto simp: lit_true_def [of "move \<tau>"] move_def bwd_negated)
qed

lemma sat_move_image: "sat_clause (move \<tau>) (map fwd c) \<longleftrightarrow> sat_clause \<tau> c"
  by (simp add: sat_clause_def lit_true_move bwd_fwd)

text \<open>A set of clauses closed under the permutation has its models moved to models.\<close>

lemma sat_move:
  assumes closed: "\<And>c. c \<in> F \<Longrightarrow> \<exists>d \<in> F. set c = fwd ` set d" and sat: "sat_all \<tau> F"
  shows "sat_all (move \<tau>) F"
  unfolding sat_all_def
proof
  fix c assume "c \<in> F"
  then obtain d where d: "d \<in> F" "set c = fwd ` set d" using closed by blast
  then have "sat_clause (move \<tau>) (map fwd d)" using sat sat_move_image by (auto simp: sat_all_def)
  with d show "sat_clause (move \<tau>) c" by (simp add: sat_clause_def)
qed

text \<open>The lexicographic step: equal up to a position, smaller there.\<close>

lemma move_smaller:
  assumes "k < length ls" "\<forall>i < k. lit_true \<tau> (bwd (ls ! i)) = lit_true \<tau> (ls ! i)"
    and "less_value m (lit_true \<tau> (bwd (ls ! k))) (lit_true \<tau> (ls ! k))"
  shows "lex_less m ls (move \<tau>) \<tau>"
  using assms by (auto simp: lex_less_def lit_true_move)

lemma move_fixed: "bwd l = l \<Longrightarrow> lit_true (move \<tau>) l = lit_true \<tau> l"
  by (simp add: lit_true_move)

end

text \<open>
  Every permutation of the model gives such an action: its own when it is well formed and
  signed (the only permutations a group stores), the identity otherwise.
\<close>

definition perm_fwd :: "permutation \<Rightarrow> literal \<Rightarrow> literal" where
  "perm_fwd p = (if perm_wf p \<and> signed_perm p then act p else id)"

definition perm_bwd :: "permutation \<Rightarrow> literal \<Rightarrow> literal" where
  "perm_bwd p = (if perm_wf p \<and> signed_perm p then act_inv p else id)"

interpretation pa: signed_action "perm_fwd p" "perm_bwd p" for p
  by unfold_locales (auto simp: perm_fwd_def perm_bwd_def act_inv_act act_act_inv act_negated)

text \<open>A permutation is a symmetry of a formula when it maps its clauses onto clauses of it.\<close>

definition symmetry_of :: "permutation \<Rightarrow> clause set \<Rightarrow> bool" where
  "symmetry_of p F \<longleftrightarrow> (\<forall>c \<in> F. \<exists>d \<in> F. set c = perm_fwd p ` set d)"

lemma symmetry_moves_models: "symmetry_of p F \<Longrightarrow> sat_all \<tau> F \<Longrightarrow> sat_all (pa.move p \<tau>) F"
  by (rule pa.sat_move) (auto simp: symmetry_of_def)

end
