(* ===== verification/Orders.thy ===== *)
theory Orders
  imports Lex_Leaders
begin

text \<open>
  The class \<open>Order\<close> of \<open>include/cosy/Order.h\<close> and \<open>src/Order.cc\<close> and its simplest subclass,
  \<open>IncreaseOrder\<close>: a list of positive literals, the position of both literals of each listed
  variable, and the values that count as minimal and maximal. \<open>rank\<close> is the position of a
  variable in the list; \<open>wf_order\<close> says that the tables agree with it.
\<close>

unbundle bit_operations_syntax

section \<open>State and operations\<close>

record order =
  o_num_vars :: int32
  o_valueMode :: ValueMode
  o_order :: "literal list"
  o_indexes :: "literal \<rightharpoonup> int32"
  o_minimal :: int32
  o_maximal :: int32

definition Order_new :: "int32 \<Rightarrow> ValueMode \<Rightarrow> order" where
  "Order_new num_vars mode =
     \<lparr>o_num_vars = num_vars, o_valueMode = mode, o_order = [], o_indexes = Map.empty,
      o_minimal = (if mode = TRUE_LESS_FALSE then kTrueLiteralIndex else kFalseLiteralIndex),
      o_maximal = (if mode = TRUE_LESS_FALSE then kFalseLiteralIndex else kTrueLiteralIndex)\<rparr>"

definition Order_size :: "order \<Rightarrow> int32" where
  "Order_size o' = of_nat (length (o_order o'))"

definition contains :: "order \<Rightarrow> literal \<Rightarrow> bool" where
  "contains o' l \<longleftrightarrow> o_indexes o' l \<noteq> None"

definition Order_add :: "order \<Rightarrow> literal \<Rightarrow> order result" where
  "Order_add o' l = check (\<not> contains o' l)
     (let sz = of_nat (length (o_order o'))
      in Inr (o'\<lparr>o_indexes := (o_indexes o')(l \<mapsto> sz, negated l \<mapsto> sz),
                o_order := o_order o' @ [l]\<rparr>))"

definition leq :: "order \<Rightarrow> literal \<Rightarrow> literal \<Rightarrow> literal result" where
  "leq o' a b =
     andThen (map_at (o_indexes o') a) (\<lambda>i.
     andThen (map_at (o_indexes o') b) (\<lambda>j. Inr (if i \<le> j then a else b)))"

definition isMinimalValue :: "order \<Rightarrow> literal \<Rightarrow> assignment \<Rightarrow> bool result" where
  "isMinimalValue o' lit a =
     andThen (if o_minimal o' = kTrueLiteralIndex then literalIsTrue a lit else Inr False) (\<lambda>b.
       if b then Inr True
       else if o_minimal o' = kFalseLiteralIndex then literalIsFalse a lit else Inr False)"

definition isMaximalValue :: "order \<Rightarrow> literal \<Rightarrow> assignment \<Rightarrow> bool result" where
  "isMaximalValue o' lit a =
     andThen (if o_maximal o' = kTrueLiteralIndex then literalIsTrue a lit else Inr False) (\<lambda>b.
       if b then Inr True
       else if o_maximal o' = kFalseLiteralIndex then literalIsFalse a lit else Inr False)"

text \<open>\<open>preview\<close> prints at most ten literals and an ellipsis after the tenth.\<close>

fun preview_loop :: "nat \<Rightarrow> literal list \<Rightarrow> string" where
  "preview_loop i [] = ''''"
| "preview_loop i (l # ls) =
     to_string (signedValue l) @ '' '' @
     (if Suc i = 10 then ''...'' else preview_loop (Suc i) ls)"

definition preview :: "order \<Rightarrow> string" where
  "preview o' = preview_loop 0 (o_order o')"

definition valueModeString :: "order \<Rightarrow> string result" where
  "valueModeString o' = check (o_minimal o' \<noteq> o_maximal o')
     (Inr (if o_minimal o' = kFalseLiteralIndex then ''False < True''
           else if o_minimal o' = kTrueLiteralIndex then ''True  < False''
           else ''UNKNOWN''))"

text \<open>The loop \<open>for (BooleanVariable var(0); var < num_vars; ++var)\<close>, both sides as \<open>int\<close>.\<close>

definition variables_below :: "int32 \<Rightarrow> variable list" where
  "variables_below num_vars = map of_nat [0..<nat (sint num_vars)]"

definition IncreaseOrder :: "int32 \<Rightarrow> ValueMode \<Rightarrow> order result" where
  "IncreaseOrder num_vars mode =
     foldR (\<lambda>v o'. Order_add o' (Literal_var v True)) (variables_below num_vars)
       (Order_new num_vars mode)"

section \<open>Well-formed orders\<close>

definition rank :: "literal list \<Rightarrow> literal \<Rightarrow> nat" where
  "rank ls l = length (takeWhile (\<lambda>m. variable m \<noteq> variable l) ls)"

definition listed :: "literal list \<Rightarrow> literal \<Rightarrow> bool" where
  "listed ls l \<longleftrightarrow> variable l \<in> variable ` set ls"

definition wf_order :: "nat \<Rightarrow> order \<Rightarrow> bool" where
  "wf_order n o' \<longleftrightarrow>
     n < 2 ^ 30 \<and> distinct (map variable (o_order o'))
     \<and> (\<forall>l \<in> set (o_order o'). isPositive l \<and> lit_in n l)
     \<and> (\<forall>l. o_indexes o' l =
          (if listed (o_order o') l then Some (of_nat (rank (o_order o') l)) else None))
     \<and> o_minimal o' = (if o_valueMode o' = TRUE_LESS_FALSE then kTrueLiteralIndex else kFalseLiteralIndex)
     \<and> o_maximal o' = (if o_valueMode o' = TRUE_LESS_FALSE then kFalseLiteralIndex else kTrueLiteralIndex)"

definition complete_order :: "nat \<Rightarrow> order \<Rightarrow> bool" where
  "complete_order n o' \<longleftrightarrow> wf_order n o' \<and> (\<forall>v. unat v < n \<longrightarrow> v \<in> variable ` set (o_order o'))"

lemma rank_negated [simp]: "rank ls (negated l) = rank ls l"
  by (simp add: rank_def)

lemma listed_negated [simp]: "listed ls (negated l) \<longleftrightarrow> listed ls l"
  by (simp add: listed_def)

lemma rank_Nil [simp]: "rank [] l = 0"
  by (simp add: rank_def)

lemma rank_Cons: "rank (m # ls) l = (if variable m = variable l then 0 else Suc (rank ls l))"
  by (simp add: rank_def)

lemma listed_Cons: "listed (m # ls) l \<longleftrightarrow> variable m = variable l \<or> listed ls l"
  by (auto simp: listed_def)

lemma listed_Nil [simp]: "\<not> listed [] l"
  by (simp add: listed_def)

lemma rank_less: "listed ls l \<Longrightarrow> rank ls l < length ls"
  by (induction ls) (auto simp: rank_Cons listed_Cons)

lemma rank_nth: "listed ls l \<Longrightarrow> variable (ls ! rank ls l) = variable l"
  by (induction ls) (auto simp: rank_Cons listed_Cons)

lemma rank_eq_nth: "distinct (map variable ls) \<Longrightarrow> i < length ls \<Longrightarrow> rank ls (ls ! i) = i"
proof (induction ls arbitrary: i)
  case (Cons m ls)
  show ?case
  proof (cases i)
    case (Suc j)
    with Cons.prems have "variable m \<noteq> variable (ls ! j)" by auto
    with Cons Suc show ?thesis by (simp add: rank_Cons)
  qed (simp add: rank_Cons)
qed simp

lemma rank_inject:
  assumes "listed ls l" "listed ls m"
  shows "rank ls l = rank ls m \<longleftrightarrow> variable l = variable m"
proof
  assume "rank ls l = rank ls m"
  then show "variable l = variable m"
    using rank_nth [OF assms(1)] rank_nth [OF assms(2)] by metis
next
  assume "variable l = variable m"
  then show "rank ls l = rank ls m" by (simp only: rank_def)
qed

lemma rank_snoc:
  "rank (ls @ [m]) l = (if listed ls l then rank ls l else if variable m = variable l then length ls
     else Suc (length ls))"
  by (induction ls) (auto simp: rank_Cons listed_Cons)

lemma listed_snoc: "listed (ls @ [m]) l \<longleftrightarrow> listed ls l \<or> variable m = variable l"
  by (auto simp: listed_def)

lemma listed_nth: "i < length ls \<Longrightarrow> listed ls (ls ! i)"
  by (auto simp: listed_def)

lemma wf_order_new: "n < 2 ^ 30 \<Longrightarrow> wf_order n (Order_new num mode)"
  by (simp add: wf_order_def Order_new_def)

lemma wf_order_length:
  assumes "wf_order n o'"
  shows "length (o_order o') \<le> n"
proof -
  let ?vs = "map (\<lambda>l. unat (variable l)) (o_order o')"
  have "distinct ?vs"
    using assms by (auto simp: wf_order_def distinct_map inj_on_def word_unat_eq_iff [symmetric])
  moreover have "set ?vs \<subseteq> {..<n}" using assms by (auto simp: wf_order_def lit_in_def)
  then have "card (set ?vs) \<le> n" using card_mono [of "{..<n}" "set ?vs"] by simp
  ultimately show ?thesis by (simp only: distinct_card length_map)
qed

section \<open>The operations\<close>

lemma contains_eq: "wf_order n o' \<Longrightarrow> contains o' l \<longleftrightarrow> listed (o_order o') l"
  by (simp add: contains_def wf_order_def)

lemma Order_add_ok:
  assumes wf: "wf_order n o'" and l: "isPositive l" "lit_in n l" "\<not> listed (o_order o') l"
  shows "\<exists>o''. Order_add o' l = Inr o'' \<and> wf_order n o'' \<and> o_order o'' = o_order o' @ [l]
    \<and> o_valueMode o'' = o_valueMode o' \<and> o_num_vars o'' = o_num_vars o'"
proof -
  let ?sz = "of_nat (length (o_order o'))"
  let ?o = "o'\<lparr>o_indexes := (o_indexes o')(l \<mapsto> ?sz, negated l \<mapsto> ?sz),
      o_order := o_order o' @ [l]\<rparr>"
  have "Order_add o' l = Inr ?o"
    using l by (simp add: Order_add_def contains_eq [OF wf] Let_def)
  moreover have "o_indexes ?o m = (if listed (o_order ?o) m
      then Some (of_nat (rank (o_order ?o) m)) else None)" for m
    using wf l(3) by (auto simp: wf_order_def listed_snoc rank_snoc same_variable)
  moreover have "distinct (map variable (o_order ?o))"
    using wf l(3) by (simp add: wf_order_def listed_def)
  ultimately show ?thesis
    using wf l by (intro exI [of _ ?o]) (auto simp: wf_order_def)
qed

lemma Order_add_twice:
  "wf_order n o' \<Longrightarrow> listed (o_order o') l \<Longrightarrow> Order_add o' l = Inl Check_failed"
  by (simp add: Order_add_def contains_eq)

lemma leq_eq:
  assumes wf: "wf_order n o'" and l: "listed (o_order o') a" "listed (o_order o') b"
  shows "leq o' a b = Inr (if rank (o_order o') a \<le> rank (o_order o') b then a else b)"
proof -
  have "length (o_order o') < 2 ^ 30"
    using wf_order_length [OF wf] wf by (simp add: wf_order_def)
  then have "rank (o_order o') a < 2 ^ LENGTH(32)" "rank (o_order o') b < 2 ^ LENGTH(32)"
    using rank_less [OF l(1)] rank_less [OF l(2)] by simp_all
  then show ?thesis
    using wf l by (simp add: leq_def wf_order_def word_le_nat_alt unat_of_nat)
qed

lemma leq_unlisted:
  "wf_order n o' \<Longrightarrow> \<not> listed (o_order o') a \<or> \<not> listed (o_order o') b \<Longrightarrow>
    leq o' a b = Inl Out_of_range"
  by (auto simp: leq_def wf_order_def map_at_def)

definition minimal_value :: "ValueMode \<Rightarrow> bool" where
  "minimal_value m \<longleftrightarrow> m = TRUE_LESS_FALSE"

lemma isMinimalValue_eq:
  assumes "wf_order n o'" "wf_assignment n a" "lit_in n l"
  shows "isMinimalValue o' l a = Inr (lit_value (value_of a) l = Some (minimal_value (o_valueMode o')))"
  using assms by (auto simp: isMinimalValue_def wf_order_def minimal_value_def
      kTrueLiteralIndex_def kFalseLiteralIndex_def)

lemma isMaximalValue_eq:
  assumes "wf_order n o'" "wf_assignment n a" "lit_in n l"
  shows "isMaximalValue o' l a =
    Inr (lit_value (value_of a) l = Some (\<not> minimal_value (o_valueMode o')))"
  using assms by (auto simp: isMaximalValue_def wf_order_def minimal_value_def
      kTrueLiteralIndex_def kFalseLiteralIndex_def)

lemma less_value_minimal: "less_value m a b \<longleftrightarrow> a = minimal_value m \<and> b \<noteq> minimal_value m"
  by (cases m) (auto simp: less_value_def minimal_value_def)

lemma valueModeString_ok:
  "wf_order n o' \<Longrightarrow> valueModeString o' =
    Inr (if o_valueMode o' = TRUE_LESS_FALSE then ''True  < False'' else ''False < True'')"
  by (auto simp: valueModeString_def wf_order_def kTrueLiteralIndex_def kFalseLiteralIndex_def)

section \<open>The increasing order\<close>

text \<open>Adding a list of fresh variables, in order; every subclass builds its list this way.\<close>

lemma add_variables_ok:
  assumes "wf_order n o'" "distinct vs" "\<forall>v \<in> set vs. unat v < n \<and> v \<notin> variable ` set (o_order o')"
  shows "\<exists>o''. foldR (\<lambda>v o'. Order_add o' (Literal_var v True)) vs o' = Inr o'' \<and> wf_order n o''
    \<and> o_order o'' = o_order o' @ map (\<lambda>v. Literal_var v True) vs
    \<and> o_valueMode o'' = o_valueMode o' \<and> o_num_vars o'' = o_num_vars o'"
  using assms
proof (induction vs arbitrary: o')
  case Nil
  then show ?case by simp
next
  case (Cons v vs)
  have n: "n < 2 ^ 30" using Cons.prems(1) by (simp add: wf_order_def)
  have small: "small_var w" if "w \<in> set (v # vs)" for w
    using Cons.prems(3) that n by (auto simp: small_var_def)
  obtain o1 where o1: "Order_add o' (Literal_var v True) = Inr o1" "wf_order n o1"
      "o_order o1 = o_order o' @ [Literal_var v True]" "o_valueMode o1 = o_valueMode o'"
      "o_num_vars o1 = o_num_vars o'"
    using Order_add_ok [OF Cons.prems(1), of "Literal_var v True"] Cons.prems(3) small
    by (auto simp: lit_in_def listed_def)
  have "\<forall>w \<in> set vs. unat w < n \<and> w \<notin> variable ` set (o_order o1)"
    using Cons.prems small o1(3) by auto
  with Cons.IH [OF o1(2)] Cons.prems(2) o1 show ?case by auto
qed

lemma variables_below_ok:
  assumes "unat num < 2 ^ 30"
  shows "distinct (variables_below num)" "v \<in> set (variables_below num) \<longleftrightarrow> unat v < unat num"
proof -
  have s: "nat (sint num) = unat num" using sint_small [of num] assms by simp
  have u: "unat (of_nat i :: int32) = i" if "i < unat num" for i
    using that assms by (simp add: unat_of_nat)
  then show "distinct (variables_below num)"
    unfolding variables_below_def s distinct_map inj_on_def by (auto dest: arg_cong [of _ _ unat])
  have "v \<in> of_nat ` {0..<unat num} \<longleftrightarrow> unat v < unat num"
    using u by (auto intro: image_eqI [of _ _ "unat v"])
  then show "v \<in> set (variables_below num) \<longleftrightarrow> unat v < unat num"
    by (simp add: variables_below_def s)
qed

lemma IncreaseOrder_ok:
  assumes "unat num < 2 ^ 30"
  shows "\<exists>o'. IncreaseOrder num mode = Inr o' \<and> complete_order (unat num) o'
    \<and> o_valueMode o' = mode \<and> o_order o' = map (\<lambda>v. Literal_var v True) (variables_below num)"
proof -
  let ?n = "Order_new num mode"
  have n: "wf_order (unat num) ?n" "o_order ?n = []" "o_valueMode ?n = mode"
    using assms by (simp add: wf_order_new) (simp_all add: Order_new_def)
  obtain o' where o': "IncreaseOrder num mode = Inr o'" "wf_order (unat num) o'"
      "o_order o' = map (\<lambda>v. Literal_var v True) (variables_below num)" "o_valueMode o' = mode"
    using add_variables_ok [OF n(1) variables_below_ok(1) [OF assms]] variables_below_ok(2) [OF assms] n
    by (auto simp: IncreaseOrder_def)
  have "v \<in> variable ` set (o_order o')" if "unat v < unat num" for v
  proof -
    have "v = variable (Literal_var v True)" using that assms by (simp add: small_var_def)
    moreover have "Literal_var v True \<in> set (o_order o')"
      using o'(3) variables_below_ok(2) [OF assms] that by auto
    ultimately show ?thesis by blast
  qed
  with o' show ?thesis by (auto simp: complete_order_def)
qed

lemma rank_map_distinct:
  assumes "distinct vs" "\<forall>v \<in> set vs. small_var v" "i < length vs" "variable l = vs ! i"
  shows "rank (map (\<lambda>v. Literal_var v True) vs) l = i"
  using assms
proof (induction vs arbitrary: i)
  case (Cons v vs)
  then show ?case by (cases i) (auto simp: rank_Cons dest: nth_mem)
qed simp

lemma rank_increasing:
  assumes "unat num < 2 ^ 30" "unat (variable l) < unat num"
  shows "rank (map (\<lambda>v. Literal_var v True) (variables_below num)) l = unat (variable l)"
proof (rule rank_map_distinct)
  have s: "nat (sint num) = unat num" using sint_small [of num] assms by simp
  show "unat (variable l) < length (variables_below num)"
    and "variable l = variables_below num ! unat (variable l)"
    using assms(2) by (simp_all add: variables_below_def s)
  show "distinct (variables_below num)" "\<forall>v \<in> set (variables_below num). small_var v"
    using variables_below_ok [OF assms(1)] assms(1) by (auto simp: small_var_def)
qed

end
