(* ===== verification/Symmetry_Groups.thy ===== *)
theory Symmetry_Groups
  imports Permutations Assignments
begin

text \<open>
  The class \<open>Group\<close> of \<open>include/cosy/Group.h\<close> and \<open>src/Group.cc\<close>: the generators, the
  variables they move, those they invert, and for every variable the set of generators that
  move it. An \<open>unordered_set\<close> is the list of its elements in insertion order; the order in
  which the standard library iterates over it is the parameter \<open>ord\<close> of the operations that
  iterate, and \<open>iterates ord\<close> says all that the language promises about it.
\<close>

section \<open>State and operations\<close>

record group =
  g_permutations :: "permutation list"
  g_symmetric :: "variable list"
  g_inverting :: "variable list"
  g_watchers :: "nat list list"

definition Group_new :: group where
  "Group_new = \<lparr>g_permutations = [], g_symmetric = [], g_inverting = [], g_watchers = []\<rparr>"

definition numberOfPermutations :: "group \<Rightarrow> nat" where
  "numberOfPermutations g = length (g_permutations g)"

definition numberOfSymmetricVariables :: "group \<Rightarrow> nat" where
  "numberOfSymmetricVariables g = length (g_symmetric g)"

definition numberOfInverting :: "group \<Rightarrow> nat" where
  "numberOfInverting g = length (g_inverting g)"

definition elementSpurious :: "permutation \<Rightarrow> literal \<Rightarrow> bool result" where
  "elementSpurious p element =
     (if isTrivialImage p element then Inr True
      else if isTrivialImage p (negated element) then Inr True
      else andThen (imageOf p element) (\<lambda>a.
           andThen (imageOf p (negated element)) (\<lambda>b. Inr (negated a \<noteq> b))))"

definition isPermutationSpurious :: "permutation \<Rightarrow> bool result" where
  "isPermutationSpurious p =
     anyR (\<lambda>c. andThen (cycle p c) (anyR (elementSpurious p))) [0..<numberOfCycles p]"

definition visit_image :: "nat \<Rightarrow> literal \<Rightarrow> literal \<times> group \<Rightarrow> (literal \<times> group) result" where
  "visit_image permutation_index image_l = (\<lambda>(element, g).
     andThen (vec_at (g_watchers g) (unat (variable image_l))) (\<lambda>w.
     andThen (vec_put (g_watchers g) (unat (variable image_l)) (uset_insert permutation_index w)) (\<lambda>ws.
       Inr (image_l,
         g\<lparr>g_watchers := ws,
           g_symmetric := uset_insert (variable image_l) (g_symmetric g),
           g_inverting := (if element = negated image_l
                           then uset_insert (variable image_l) (g_inverting g)
                           else g_inverting g)\<rparr>))))"

definition visit_cycle :: "nat \<Rightarrow> permutation \<Rightarrow> nat \<Rightarrow> group \<Rightarrow> group result" where
  "visit_cycle permutation_index p c g =
     andThen (lastElementInCycle p c) (\<lambda>element.
     andThen (cycle p c) (\<lambda>cs.
     andThen (foldR (visit_image permutation_index) cs (element, g)) (\<lambda>(_, g'). Inr g')))"

definition addPermutation :: "group \<Rightarrow> permutation option \<Rightarrow> group result" where
  "addPermutation g ptr = (case ptr of
       None \<Rightarrow> Inl Check_failed
     | Some p \<Rightarrow>
        (let permutation_index = length (g_permutations g);
             num_cycles = numberOfCycles p
         in if num_cycles = 0 then Inr g
            else andThen (isPermutationSpurious p) (\<lambda>spurious.
              if spurious then Inr g
              else
                let g1 = (if unat (p_size p) > length (g_watchers g)
                          then g\<lparr>g_watchers := vec_resize (g_watchers g) (unat (p_size p)) []\<rparr>
                          else g)
                in andThen (foldR (visit_cycle permutation_index p) [0..<num_cycles] g1) (\<lambda>g2.
                     Inr (g2\<lparr>g_permutations := g_permutations g2 @ [p]\<rparr>)))))"

definition watch :: "(nat list \<Rightarrow> nat list) \<Rightarrow> group \<Rightarrow> variable \<Rightarrow> nat list result" where
  "watch ord g v = andThen (vec_at (g_watchers g) (unat v)) (\<lambda>w. Inr (ord w))"

definition iterates :: "('a list \<Rightarrow> 'a list) \<Rightarrow> bool" where
  "iterates ord \<longleftrightarrow> (\<forall>xs. distinct xs \<longrightarrow> distinct (ord xs) \<and> set (ord xs) = set xs)"

text \<open>\<open>debugPrint\<close>: the text it writes to the standard output.\<close>

definition Group_debugPrint :: "group \<Rightarrow> string result" where
  "Group_debugPrint g =
     andThen (foldR (\<lambda>p (i, out). andThen (Permutation_debugPrint p) (\<lambda>str.
                Inr (i + 1, out @ ''['' @ to_string i @ '']: '' @ str)))
              (g_permutations g) (1, []))
       (\<lambda>(i, out). Inr out)"

section \<open>Well-formed groups\<close>

definition perm_in :: "nat \<Rightarrow> permutation \<Rightarrow> bool" where
  "perm_in n p \<longleftrightarrow> perm_wf p \<and> unat (p_size p) = n \<and> (\<forall>l \<in> set (p_cycles p). lit_in n l)"

definition moves :: "permutation \<Rightarrow> nat \<Rightarrow> bool" where
  "moves p v \<longleftrightarrow> v \<in> (\<lambda>l. unat (variable l)) ` set (p_cycles p)"

definition inverts :: "permutation \<Rightarrow> variable \<Rightarrow> bool" where
  "inverts p v \<longleftrightarrow> (\<exists>l \<in> set (p_cycles p). variable l = v \<and> p_inverse p l = Some (negated l))"

definition wf_group :: "nat \<Rightarrow> group \<Rightarrow> bool" where
  "wf_group n g \<longleftrightarrow>
     (\<forall>p \<in> set (g_permutations g). perm_in n p \<and> signed_perm p \<and> p_cycles p \<noteq> [])
     \<and> length (g_watchers g) = (if g_permutations g = [] then 0 else n)
     \<and> (\<forall>w \<in> set (g_watchers g). distinct w)
     \<and> (\<forall>v < length (g_watchers g). set (g_watchers g ! v) =
          {i. i < length (g_permutations g) \<and> moves (g_permutations g ! i) v})
     \<and> distinct (g_symmetric g) \<and> distinct (g_inverting g)
     \<and> set (g_symmetric g) = variable ` (\<Union>p \<in> set (g_permutations g). set (p_cycles p))
     \<and> set (g_inverting g) = {v. \<exists>p \<in> set (g_permutations g). inverts p v}"

lemma wf_group_new: "wf_group n Group_new"
  by (simp add: wf_group_def Group_new_def)

lemma cycles_cover:
  assumes "perm_repr css [] p"
  shows "set (p_cycles p) = (\<Union>c \<in> set css. set c)"
  using assms by (simp add: perm_repr_def)

lemma elementSpurious_eq:
  "elementSpurious p l = Inr (\<not> (p_image p l \<noteq> None \<and> p_image p (negated l) \<noteq> None
     \<and> map_option negated (p_image p l) = p_image p (negated l)))"
  by (auto simp: elementSpurious_def isTrivialImage_def imageOf_def)

lemma isPermutationSpurious_eq:
  assumes "perm_repr css [] p"
  shows "isPermutationSpurious p = Inr (\<not> signed_perm p)"
proof -
  define bad where "bad l \<longleftrightarrow> \<not> (p_image p l \<noteq> None \<and> p_image p (negated l) \<noteq> None
     \<and> map_option negated (p_image p l) = p_image p (negated l))" for l
  have "anyR (elementSpurious p) c = Inr (\<exists>l \<in> set c. bad l)" for c
    by (rule anyR_Inr) (simp add: elementSpurious_eq bad_def)
  then have "isPermutationSpurious p = Inr (\<exists>i \<in> set [0..<length css]. \<exists>l \<in> set (css ! i). bad l)"
    unfolding isPermutationSpurious_def numberOfCycles_repr [OF assms]
    by (intro anyR_Inr) (simp add: cycle_repr [OF assms])
  also have "(\<exists>i \<in> set [0..<length css]. \<exists>l \<in> set (css ! i). bad l) \<longleftrightarrow>
      (\<exists>l \<in> set (p_cycles p). bad l)"
    unfolding cycles_cover [OF assms] bex_upt_nth [of css "\<lambda>c. \<exists>l \<in> set c. bad l"] by blast
  also have "\<dots> \<longleftrightarrow> \<not> signed_perm p" unfolding signed_perm_def bad_def by blast
  finally show ?thesis .
qed

text \<open>What visiting the literals \<open>vs\<close> of permutation \<open>p\<close> adds to a group.\<close>

definition visited :: "nat \<Rightarrow> permutation \<Rightarrow> group \<Rightarrow> literal set \<Rightarrow> group \<Rightarrow> bool" where
  "visited i p g0 vs g \<longleftrightarrow>
     g_permutations g = g_permutations g0
     \<and> length (g_watchers g) = length (g_watchers g0)
     \<and> (\<forall>w \<in> set (g_watchers g). distinct w)
     \<and> (\<forall>v < length (g_watchers g0). set (g_watchers g ! v) =
          set (g_watchers g0 ! v) \<union> {j. j = i \<and> v \<in> (\<lambda>l. unat (variable l)) ` vs})
     \<and> distinct (g_symmetric g) \<and> distinct (g_inverting g)
     \<and> set (g_symmetric g) = set (g_symmetric g0) \<union> variable ` vs
     \<and> set (g_inverting g) = set (g_inverting g0) \<union>
          {v. \<exists>l \<in> vs. variable l = v \<and> p_inverse p l = Some (negated l)}"

lemma visit_image_ok:
  assumes "visited i p g0 vs g" "unat (variable l) < length (g_watchers g0)"
    and "p_inverse p l = Some element"
  shows "\<exists>g'. visit_image i l (element, g) = Inr (l, g') \<and> visited i p g0 (insert l vs) g'"
proof -
  let ?v = "unat (variable l)"
  let ?w = "uset_insert i (g_watchers g ! ?v)"
  let ?g = "g\<lparr>g_watchers := (g_watchers g)[?v := ?w],
      g_symmetric := uset_insert (variable l) (g_symmetric g),
      g_inverting := (if element = negated l then uset_insert (variable l) (g_inverting g)
                      else g_inverting g)\<rparr>"
  have v: "?v < length (g_watchers g)" using assms by (simp add: visited_def)
  then have "visit_image i l (element, g) = Inr (l, ?g)" by (simp add: visit_image_def)
  moreover have "\<forall>w \<in> set ((g_watchers g)[?v := ?w]). distinct w"
    using assms v by (auto simp: visited_def dest!: subsetD [OF set_update_subset_insert])
  then have "visited i p g0 (insert l vs) ?g"
    using assms v by (auto simp: visited_def nth_list_update)
  ultimately show ?thesis by blast
qed

lemma visit_cycle_ok:
  assumes r: "perm_repr css [] p" and c: "c < length css" and g: "visited i p g0 vs g"
    and in_range: "\<forall>l \<in> set (css ! c). unat (variable l) < length (g_watchers g0)"
  shows "\<exists>g'. visit_cycle i p c g = Inr g' \<and> visited i p g0 (vs \<union> set (css ! c)) g'"
proof -
  let ?c = "css ! c"
  define P where "P = (\<lambda>pre s. visited i p g0 (vs \<union> set pre) (snd s)
      \<and> fst s = (if pre = [] then last ?c else last pre))"
  have "\<exists>s. foldR (visit_image i) ?c (last ?c, g) = Inr s \<and> P ?c s"
  proof (rule foldR_total)
    show "P [] (last ?c, g)" using g by (simp add: P_def)
  next
    fix pre x post s
    assume eq: "?c = pre @ x # post" and P: "P pre s"
    have "cyc_next ?c (if pre = [] then last ?c else last pre) x"
    proof (cases "pre = []")
      case True
      then show ?thesis unfolding eq by (simp add: cyc_next_def)
    next
      case False
      then have "Suc (length pre - 1) < length ?c" "?c ! (length pre - 1) = last pre"
          "?c ! Suc (length pre - 1) = x"
        unfolding eq by (simp_all add: nth_append last_conv_nth)
      with False show ?thesis unfolding cyc_next_def next_in_def by metis
    qed
    then have "step_of css [] (fst s) x"
      using P c by (auto simp: step_of_def P_def)
    then have inv: "p_inverse p x = Some (fst s)" using r by (simp add: perm_repr_def)
    have v: "visited i p g0 (vs \<union> set pre) (snd s)" using P by (simp add: P_def)
    have "x \<in> set ?c" by (simp add: eq)
    with visit_image_ok [OF v _ inv] in_range
    obtain g' where "visit_image i x (fst s, snd s) = Inr (x, g')"
        "visited i p g0 (insert x (vs \<union> set pre)) g'" by blast
    then show "\<exists>s'. visit_image i x s = Inr s' \<and> P (pre @ [x]) s'"
      by (auto simp: P_def)
  qed
  then show ?thesis
    using c by (auto simp: visit_cycle_def lastElementInCycle_repr [OF r] cycle_repr [OF r] P_def)
qed

lemma visit_cycles_ok:
  assumes r: "perm_repr css [] p" and g: "visited i p g0 {} g"
    and in_range: "\<forall>l \<in> set (p_cycles p). unat (variable l) < length (g_watchers g0)"
  shows "\<exists>g'. foldR (visit_cycle i p) [0..<length css] g = Inr g'
    \<and> visited i p g0 (set (p_cycles p)) g'"
proof -
  have "\<exists>g'. foldR (visit_cycle i p) [0..<length css] g = Inr g'
    \<and> visited i p g0 (\<Union>c \<in> set [0..<length css]. set (css ! c)) g'"
  proof (rule foldR_total)
    show "visited i p g0 (\<Union>c \<in> set []. set (css ! c)) g" using g by simp
  next
    fix pre x post s
    assume eq: "[0..<length css] = pre @ x # post"
      and v: "visited i p g0 (\<Union>c \<in> set pre. set (css ! c)) s"
    have "x \<in> set [0..<length css]" unfolding eq by simp
    then have x: "x < length css" by simp
    then have "\<forall>l \<in> set (css ! x). unat (variable l) < length (g_watchers g0)"
      using in_range cycles_cover [OF r] by (auto dest: nth_mem)
    from visit_cycle_ok [OF r x v this]
    show "\<exists>s'. visit_cycle i p x s = Inr s' \<and>
        visited i p g0 (\<Union>c \<in> set (pre @ [x]). set (css ! c)) s'"
      by (simp add: Un_commute)
  qed
  moreover have "(\<Union>c \<in> set [0..<length css]. set (css ! c)) = set (p_cycles p)"
    unfolding cycles_cover [OF r] by (rule Union_upt_nth)
  ultimately show ?thesis by simp
qed

section \<open>Adding a generator\<close>

lemma perm_cycles_Nil: "perm_repr css [] p \<Longrightarrow> p_cycles p = [] \<longleftrightarrow> css = []"
  by (cases css) (auto simp: perm_repr_def)

text \<open>
  A well-formed permutation over the variables of the problem is stored when it moves something
  and commutes with negation, and ignored otherwise; the tables of the group stay exact.
\<close>

lemma addPermutation_ok:
  assumes g: "wf_group n g" and p: "perm_in n p"
  shows "\<exists>g'. addPermutation g (Some p) = Inr g' \<and> wf_group n g' \<and>
    g_permutations g' =
      (if p_cycles p \<noteq> [] \<and> signed_perm p then g_permutations g @ [p] else g_permutations g)"
proof -
  obtain css where r: "perm_repr css [] p" using p by (auto simp: perm_in_def perm_wf_def)
  note spurious = isPermutationSpurious_eq [OF r]
  note nc = numberOfCycles_repr [OF r]
  show ?thesis
  proof (cases "p_cycles p \<noteq> [] \<and> signed_perm p")
    case False
    then have "addPermutation g (Some p) = Inr g"
      using perm_cycles_Nil [OF r] by (auto simp: addPermutation_def spurious nc Let_def)
    with False g show ?thesis by simp
  next
    case True
    let ?i = "length (g_permutations g)"
    let ?ws = "if g_permutations g = [] then replicate n [] else g_watchers g"
    let ?g1 = "if unat (p_size p) > length (g_watchers g)
        then g\<lparr>g_watchers := vec_resize (g_watchers g) (unat (p_size p)) []\<rparr> else g"
    have g1: "?g1 = g\<lparr>g_watchers := ?ws\<rparr>"
      using g p by (auto simp: wf_group_def perm_in_def vec_resize_def)
    have len: "length ?ws = n" using g by (simp add: wf_group_def)
    have "visited ?i p (g\<lparr>g_watchers := ?ws\<rparr>) {} (g\<lparr>g_watchers := ?ws\<rparr>)"
      using g by (auto simp: visited_def wf_group_def)
    moreover have "\<forall>l \<in> set (p_cycles p). unat (variable l) < length ?ws"
      unfolding len using p by (auto simp: perm_in_def lit_in_def)
    ultimately obtain g2 where g2: "foldR (visit_cycle ?i p) [0..<length css] ?g1 = Inr g2"
        "visited ?i p (g\<lparr>g_watchers := ?ws\<rparr>) (set (p_cycles p)) g2"
      unfolding g1 using visit_cycles_ok [OF r] by fastforce
    let ?g' = "g2\<lparr>g_permutations := g_permutations g2 @ [p]\<rparr>"
    have "css \<noteq> []" using True perm_cycles_Nil [OF r] by simp
    then have "addPermutation g (Some p) = Inr ?g'"
      using True g2(1) by (simp add: addPermutation_def spurious nc Let_def)
    moreover have "wf_group n ?g'"
    proof -
      have "set (?ws ! v) = {j. j < ?i \<and> moves (g_permutations g ! j) v}" if "v < n" for v
        using g that by (auto simp: wf_group_def)
      then have "set (g_watchers g2 ! v) =
          {j. j < Suc ?i \<and> moves ((g_permutations g @ [p]) ! j) v}" if "v < n" for v
        using g2(2) that len by (auto simp: visited_def nth_append moves_def less_Suc_eq)
      moreover have "length (g_watchers g2) = n" using g2(2) len by (simp add: visited_def)
      ultimately show ?thesis
        using g g2(2) p True by (auto simp: wf_group_def visited_def inverts_def)
    qed
    ultimately show ?thesis using True g2(2) by (auto simp: visited_def)
  qed
qed

lemma addPermutation_null: "addPermutation g None = Inl Check_failed"
  by (simp add: addPermutation_def)

section \<open>Watching\<close>

lemma watch_ok:
  assumes "wf_group n g" "iterates ord" "g_permutations g \<noteq> []" "unat v < n"
  shows "\<exists>is. watch ord g v = Inr is \<and> distinct is
    \<and> set is = {i. i < length (g_permutations g) \<and> moves (g_permutations g ! i) (unat v)}"
proof -
  have v: "unat v < length (g_watchers g)" using assms by (simp add: wf_group_def)
  then have "distinct (g_watchers g ! unat v)"
    using assms(1) by (simp add: wf_group_def)
  then have "distinct (ord (g_watchers g ! unat v))"
      "set (ord (g_watchers g ! unat v)) = set (g_watchers g ! unat v)"
    using assms(2) by (simp_all add: iterates_def)
  with v assms(1) show ?thesis by (simp add: watch_def wf_group_def)
qed

lemma iterates_id: "iterates id" "iterates rev"
  by (simp_all add: iterates_def)

lemma add_permutations_ok:
  assumes "wf_group n g" "\<forall>p \<in> set ps. perm_in n p"
  shows "\<exists>g'. foldR (\<lambda>p g. addPermutation g (Some p)) ps g = Inr g' \<and> wf_group n g'
    \<and> g_permutations g' = g_permutations g @ filter (\<lambda>p. \<not> isIdentity p \<and> signed_perm p) ps"
  using assms
proof (induction ps arbitrary: g)
  case Nil
  then show ?case by simp
next
  case (Cons p ps)
  obtain g1 where g1: "addPermutation g (Some p) = Inr g1" "wf_group n g1"
      "g_permutations g1 =
        (if p_cycles p \<noteq> [] \<and> signed_perm p then g_permutations g @ [p] else g_permutations g)"
    using addPermutation_ok [OF Cons.prems(1), of p] Cons.prems(2) by auto
  from Cons.IH [OF g1(2)] Cons.prems(2) g1 show ?case by (auto simp: isIdentity_def)
qed

end
