(* ===== verification/Clause_Injection.thy ===== *)
theory Clause_Injection
  imports Literals
begin

text \<open>
  The clause stores of \<open>include/cosy/ClauseInjector.h\<close> and \<open>src/ClauseInjector.cc\<close>: an
  \<open>Injector\<close> maps the variable that caused a clause to the clauses waiting for the solver; a
  \<open>ClauseInjector\<close> is a vector of three injectors and their counters. Looking a cause up
  with \<open>operator[]\<close> creates its entry, as the map of the code does. The locale
  \<open>clause_store\<close> is the interface the manager and the controller rely on.
\<close>

section \<open>Injector\<close>

type_synonym injector = "variable \<rightharpoonup> literal list list"

definition slot :: "injector \<Rightarrow> variable \<Rightarrow> literal list list" where
  "slot m cause = (case m cause of None \<Rightarrow> [] | Some v \<Rightarrow> v)"

definition Injector_addClause :: "injector \<Rightarrow> variable \<Rightarrow> literal list \<Rightarrow> injector" where
  "Injector_addClause m cause literals =
     (if cause = kNoBooleanVariable \<or> slot m cause = []
      then m(cause \<mapsto> slot m cause @ [literals])
      else m(cause \<mapsto> slot m cause))"

definition Injector_removeClause :: "injector \<Rightarrow> variable \<Rightarrow> injector" where
  "Injector_removeClause m cause = m(cause \<mapsto> [])"

definition Injector_hasClause :: "injector \<Rightarrow> variable \<Rightarrow> bool" where
  "Injector_hasClause m cause = (case m cause of None \<Rightarrow> False | Some v \<Rightarrow> length v > 0)"

definition Injector_getClause :: "injector \<Rightarrow> variable \<Rightarrow> (literal list \<times> injector) result" where
  "Injector_getClause m cause =
     check (Injector_hasClause m cause)
       (Inr (last (slot m cause), m(cause \<mapsto> butlast (slot m cause))))"

lemma Injector_hasClause_slot [simp]: "Injector_hasClause m cause \<longleftrightarrow> slot m cause \<noteq> []"
  by (simp add: Injector_hasClause_def slot_def split: option.splits)

lemma slot_upd [simp]: "slot (m(c \<mapsto> v)) d = (if d = c then v else slot m d)"
  by (simp add: slot_def)

section \<open>ClauseInjector\<close>

datatype ClauseType = UNITS | ESBP | ESBP_FORCING | NR_TYPES

fun type_index :: "ClauseType \<Rightarrow> nat" where
  "type_index UNITS = 0"
| "type_index ESBP = 1"
| "type_index ESBP_FORCING = 2"
| "type_index NR_TYPES = 3"

record clause_injector =
  injectors :: "injector list"
  stat_units :: int64
  stat_esbp :: int64
  stat_esbp_forcing :: int64

definition ClauseInjector_new :: clause_injector where
  "ClauseInjector_new =
     \<lparr>injectors = replicate (type_index NR_TYPES) Map.empty,
      stat_units = 0, stat_esbp = 0, stat_esbp_forcing = 0\<rparr>"

definition CI_addClause ::
    "clause_injector \<Rightarrow> ClauseType \<Rightarrow> variable \<Rightarrow> literal list \<Rightarrow> clause_injector result" where
  "CI_addClause ci type cause literals =
     andThen (vec_at (injectors ci) (type_index type)) (\<lambda>m.
     andThen (vec_put (injectors ci) (type_index type) (Injector_addClause m cause literals)) (\<lambda>v.
       Inr (ci\<lparr>injectors := v\<rparr>)))"

definition CI_removeClause ::
    "clause_injector \<Rightarrow> ClauseType \<Rightarrow> variable \<Rightarrow> clause_injector result" where
  "CI_removeClause ci type cause =
     andThen (vec_at (injectors ci) (type_index type)) (\<lambda>m.
     andThen (vec_put (injectors ci) (type_index type) (Injector_removeClause m cause)) (\<lambda>v.
       Inr (ci\<lparr>injectors := v\<rparr>)))"

definition CI_hasClause :: "clause_injector \<Rightarrow> ClauseType \<Rightarrow> variable \<Rightarrow> bool result" where
  "CI_hasClause ci type cause =
     andThen (vec_at (injectors ci) (type_index type)) (\<lambda>m. Inr (Injector_hasClause m cause))"

definition CI_count :: "clause_injector \<Rightarrow> ClauseType \<Rightarrow> clause_injector result" where
  "CI_count ci type = (case type of
       UNITS \<Rightarrow> Inr (ci\<lparr>stat_units := stat_units ci + 1\<rparr>)
     | ESBP \<Rightarrow> Inr (ci\<lparr>stat_esbp := stat_esbp ci + 1\<rparr>)
     | ESBP_FORCING \<Rightarrow> Inr (ci\<lparr>stat_esbp_forcing := stat_esbp_forcing ci + 1\<rparr>)
     | NR_TYPES \<Rightarrow> Inl Check_failed)"

definition CI_getClause ::
    "clause_injector \<Rightarrow> ClauseType \<Rightarrow> variable \<Rightarrow> (literal list \<times> clause_injector) result" where
  "CI_getClause ci type cause =
     andThen (CI_count ci type) (\<lambda>ci.
     andThen (vec_at (injectors ci) (type_index type)) (\<lambda>m.
     andThen (Injector_getClause m cause) (\<lambda>(literals, m').
     andThen (vec_put (injectors ci) (type_index type) m') (\<lambda>v.
       Inr (literals, ci\<lparr>injectors := v\<rparr>)))))"

definition CI_removeCause :: "clause_injector \<Rightarrow> variable \<Rightarrow> clause_injector" where
  "CI_removeCause ci cause =
     ci\<lparr>injectors := map (\<lambda>m. Injector_removeClause m cause) (injectors ci)\<rparr>"

section \<open>What is waiting\<close>

definition wf_injector :: "clause_injector \<Rightarrow> bool" where
  "wf_injector ci \<longleftrightarrow> length (injectors ci) = 3
     \<and> (\<forall>m \<in> set (injectors ci). \<forall>c. c \<noteq> kNoBooleanVariable \<longrightarrow> length (slot m c) \<le> 1)"

definition waiting :: "clause_injector \<Rightarrow> ClauseType \<Rightarrow> variable \<Rightarrow> literal list list" where
  "waiting ci type cause =
     (if type_index type < length (injectors ci)
      then slot (injectors ci ! type_index type) cause else [])"

lemma type_index_inject [simp]: "type_index s = type_index t \<longleftrightarrow> s = t"
  by (cases s; cases t) simp_all

lemma type_index_less: "type_index t < 3 \<longleftrightarrow> t \<noteq> NR_TYPES"
  by (cases t) simp_all

lemma wf_injector_len: "wf_injector ci \<Longrightarrow> length (injectors ci) = 3"
  by (simp add: wf_injector_def)

lemma wf_injector_slot:
  "wf_injector ci \<Longrightarrow> k < 3 \<Longrightarrow> c \<noteq> kNoBooleanVariable \<Longrightarrow> length (slot (injectors ci ! k) c) \<le> Suc 0"
  unfolding One_nat_def [symmetric]
  unfolding wf_injector_def by (metis nth_mem)

lemma wf_injector_put:
  assumes "wf_injector ci" "\<forall>c. c \<noteq> kNoBooleanVariable \<longrightarrow> length (slot m c) \<le> 1"
  shows "wf_injector (ci\<lparr>injectors := (injectors ci)[k := m]\<rparr>)"
  using assms unfolding wf_injector_def
  by (auto dest!: subsetD [OF set_update_subset_insert])

lemma wf_injector_new: "wf_injector ClauseInjector_new"
  by (simp add: wf_injector_def ClauseInjector_new_def slot_def)

lemma waiting_new [simp]: "waiting ClauseInjector_new t c = []"
  by (cases t) (simp_all add: waiting_def ClauseInjector_new_def slot_def)

lemma CI_hasClause_ok:
  "wf_injector ci \<Longrightarrow> t \<noteq> NR_TYPES \<Longrightarrow> CI_hasClause ci t c = Inr (waiting ci t c \<noteq> [])"
  by (simp add: CI_hasClause_def waiting_def wf_injector_len type_index_less)

lemma CI_addClause_ok:
  assumes "wf_injector ci" "t \<noteq> NR_TYPES"
  shows "\<exists>ci'. CI_addClause ci t c ls = Inr ci' \<and> wf_injector ci' \<and>
    (\<forall>s d. waiting ci' s d =
      (if s = t \<and> d = c \<and> (c = kNoBooleanVariable \<or> waiting ci t c = [])
       then waiting ci t c @ [ls] else waiting ci s d))"
proof -
  let ?k = "type_index t"
  let ?m = "Injector_addClause (injectors ci ! ?k) c ls"
  have k: "?k < length (injectors ci)" using assms by (simp add: wf_injector_len type_index_less)
  have "CI_addClause ci t c ls = Inr (ci\<lparr>injectors := (injectors ci)[?k := ?m]\<rparr>)"
    using k by (simp add: CI_addClause_def)
  moreover have "wf_injector (ci\<lparr>injectors := (injectors ci)[?k := ?m]\<rparr>)"
    using assms k by (intro wf_injector_put)
      (auto simp: Injector_addClause_def wf_injector_slot wf_injector_len)
  ultimately show ?thesis
    using k by (auto simp: waiting_def nth_list_update Injector_addClause_def)
qed

lemma CI_removeClause_ok:
  assumes "wf_injector ci" "t \<noteq> NR_TYPES"
  shows "\<exists>ci'. CI_removeClause ci t c = Inr ci' \<and> wf_injector ci' \<and>
    (\<forall>s d. waiting ci' s d = (if s = t \<and> d = c then [] else waiting ci s d))"
proof -
  let ?k = "type_index t"
  let ?m = "Injector_removeClause (injectors ci ! ?k) c"
  have k: "?k < length (injectors ci)" using assms by (simp add: wf_injector_len type_index_less)
  have "CI_removeClause ci t c = Inr (ci\<lparr>injectors := (injectors ci)[?k := ?m]\<rparr>)"
    using k by (simp add: CI_removeClause_def)
  moreover have "wf_injector (ci\<lparr>injectors := (injectors ci)[?k := ?m]\<rparr>)"
    using assms k by (intro wf_injector_put)
      (auto simp: Injector_removeClause_def wf_injector_slot wf_injector_len)
  ultimately show ?thesis
    using k by (auto simp: waiting_def nth_list_update Injector_removeClause_def)
qed

lemma CI_count_ok:
  assumes "t \<noteq> NR_TYPES"
  shows "\<exists>ci'. CI_count ci t = Inr ci' \<and> injectors ci' = injectors ci"
  using assms by (cases t) (simp_all add: CI_count_def)

lemma wf_injector_cong: "injectors ci' = injectors ci \<Longrightarrow> wf_injector ci' \<longleftrightarrow> wf_injector ci"
  by (simp add: wf_injector_def)

lemma waiting_cong: "injectors ci' = injectors ci \<Longrightarrow> waiting ci' t c = waiting ci t c"
  by (simp add: waiting_def)

lemma CI_getClause_ok:
  assumes "wf_injector ci" "t \<noteq> NR_TYPES" "waiting ci t c \<noteq> []"
  shows "\<exists>ci'. CI_getClause ci t c = Inr (last (waiting ci t c), ci') \<and> wf_injector ci' \<and>
    (\<forall>s d. waiting ci' s d = (if s = t \<and> d = c then butlast (waiting ci t c) else waiting ci s d))"
proof -
  let ?k = "type_index t"
  let ?m = "(injectors ci ! ?k)(c \<mapsto> butlast (slot (injectors ci ! ?k) c))"
  have k: "?k < length (injectors ci)" using assms by (simp add: wf_injector_len type_index_less)
  obtain ci1 where c1: "CI_count ci t = Inr ci1" "injectors ci1 = injectors ci"
    using CI_count_ok [OF assms(2)] by blast
  have "CI_getClause ci t c =
      Inr (last (waiting ci t c), ci1\<lparr>injectors := (injectors ci)[?k := ?m]\<rparr>)"
    using k assms(3) c1 by (simp add: CI_getClause_def Injector_getClause_def waiting_def)
  moreover have "length (slot ?m d) \<le> 1" if "d \<noteq> kNoBooleanVariable" for d
    using wf_injector_slot [OF assms(1) _ that, of ?k] assms(2) by (auto simp: type_index_less)
  then have "wf_injector (ci1\<lparr>injectors := (injectors ci1)[?k := ?m]\<rparr>)"
    using assms(1) c1 by (intro wf_injector_put) (simp_all add: wf_injector_cong [of ci1 ci])
  ultimately show ?thesis
    using k c1 by (auto simp: waiting_def nth_list_update)
qed

lemma CI_getClause_none:
  assumes "wf_injector ci" "waiting ci t c = []"
  shows "CI_getClause ci t c = Inl Check_failed"
  using assms
  by (cases t) (simp_all add: CI_getClause_def CI_count_def waiting_def wf_injector_len
      Injector_getClause_def)

lemma CI_removeCause_ok:
  assumes "wf_injector ci"
  shows "wf_injector (CI_removeCause ci c) \<and>
    (\<forall>s d. waiting (CI_removeCause ci c) s d = (if d = c then [] else waiting ci s d))"
  using assms
  by (auto simp: wf_injector_def CI_removeCause_def Injector_removeClause_def waiting_def)

section \<open>The interface\<close>

locale clause_store =
  fixes inv :: "'s \<Rightarrow> bool"
    and pending :: "'s \<Rightarrow> 't \<Rightarrow> variable \<Rightarrow> literal list list"
    and ok :: "'t \<Rightarrow> bool"
    and add :: "'s \<Rightarrow> 't \<Rightarrow> variable \<Rightarrow> literal list \<Rightarrow> 's result"
    and get :: "'s \<Rightarrow> 't \<Rightarrow> variable \<Rightarrow> (literal list \<times> 's) result"
    and drop_cause :: "'s \<Rightarrow> variable \<Rightarrow> 's"
  assumes add: "inv s \<Longrightarrow> ok t \<Longrightarrow> \<exists>s'. add s t c ls = Inr s' \<and> inv s' \<and>
      (\<forall>u d. pending s' u d = (if u = t \<and> d = c \<and> (c = kNoBooleanVariable \<or> pending s t c = [])
        then pending s t c @ [ls] else pending s u d))"
    and get: "inv s \<Longrightarrow> ok t \<Longrightarrow> pending s t c \<noteq> [] \<Longrightarrow>
      \<exists>s'. get s t c = Inr (last (pending s t c), s') \<and> inv s' \<and>
      (\<forall>u d. pending s' u d = (if u = t \<and> d = c then butlast (pending s t c) else pending s u d))"
    and drop_cause: "inv s \<Longrightarrow> inv (drop_cause s c) \<and>
      (\<forall>u d. pending (drop_cause s c) u d = (if d = c then [] else pending s u d))"
begin

text \<open>A clause added where none waits is the one that is read back, and the store is as before.\<close>

lemma add_get:
  assumes "inv s" "ok t" "pending s t c = []"
  shows "\<exists>s1 s2. add s t c ls = Inr s1 \<and> get s1 t c = Inr (ls, s2) \<and> inv s2
    \<and> pending s2 = pending s"
proof -
  obtain s1 where s1: "add s t c ls = Inr s1" "inv s1"
      "\<forall>u d. pending s1 u d = (if u = t \<and> d = c then [ls] else pending s u d)"
    using add [OF assms(1,2), of c ls] assms(3) by auto
  then have "pending s1 t c = [ls]" by simp
  with get [OF s1(2) assms(2), of c] obtain s2 where s2: "get s1 t c = Inr (ls, s2)" "inv s2"
      "\<forall>u d. pending s2 u d = (if u = t \<and> d = c then [] else pending s1 u d)" by auto
  have "pending s2 = pending s"
    using s1(3) s2(3) assms(3) by (intro ext) auto
  with s1 s2 show ?thesis by blast
qed

text \<open>Clauses that are waiting come from earlier contents or from the call.\<close>

lemma add_subset:
  assumes "inv s" "ok t" "add s t c ls = Inr s'"
  shows "set (pending s' u d) \<subseteq> set (pending s u d) \<union> {ls}"
  using add [OF assms(1,2), of c ls] assms(3) by auto

end

interpretation ci: clause_store wf_injector waiting "\<lambda>t. t \<noteq> NR_TYPES" CI_addClause CI_getClause
    CI_removeCause
  by unfold_locales (rule CI_addClause_ok CI_getClause_ok CI_removeCause_ok; assumption)+

section \<open>Properties\<close>

text \<open>
  A clause offered for a cause that has none waiting is handed out by the next request for
  that type and cause, after which the store is as before; while one is waiting for a variable, a
  second one for the same variable and type is dropped.
\<close>

lemma clause_waits_for_cause:
  assumes "wf_injector ci" "t \<noteq> NR_TYPES" "waiting ci t cause = []"
  shows "\<exists>c1 c2. CI_addClause ci t cause ls = Inr c1 \<and> CI_hasClause c1 t cause = Inr True
    \<and> CI_getClause c1 t cause = Inr (ls, c2) \<and> wf_injector c2 \<and> waiting c2 = waiting ci
    \<and> (cause \<noteq> kNoBooleanVariable \<longrightarrow>
        (\<exists>c3. CI_addClause c1 t cause ls' = Inr c3 \<and> waiting c3 = waiting c1))"
proof -
  obtain c1 where c1: "CI_addClause ci t cause ls = Inr c1" "wf_injector c1"
      "waiting c1 t cause = [ls]"
    using CI_addClause_ok [OF assms(1,2), of cause ls] assms(3) by auto
  obtain c2 where "CI_getClause c1 t cause = Inr (ls, c2)" "wf_injector c2" "waiting c2 = waiting ci"
    using ci.add_get [OF assms, of ls] c1(1) by auto
  moreover have "CI_hasClause c1 t cause = Inr True"
    using CI_hasClause_ok [OF c1(2) assms(2), of cause] c1(3) by simp
  moreover obtain c3 where "CI_addClause c1 t cause ls' = Inr c3"
      "\<forall>s d. waiting c3 s d = (if s = t \<and> d = cause \<and> (cause = kNoBooleanVariable \<or> waiting c1 t cause = [])
         then waiting c1 t cause @ [ls'] else waiting c1 s d)"
    using CI_addClause_ok [OF c1(2) assms(2), of cause ls'] by blast
  ultimately show ?thesis
    using c1 by (intro exI [of _ c1] exI [of _ c2]) (auto simp: fun_eq_iff)
qed

lemma clause_waits_for_cause_witness:
  "\<exists>c1 c2. CI_addClause ClauseInjector_new ESBP 7 [Lit 14, Lit 3] = Inr c1
    \<and> CI_getClause c1 ESBP 7 = Inr ([Lit 14, Lit 3], c2)
    \<and> (\<exists>c3. CI_addClause c1 ESBP 7 [Lit 5] = Inr c3 \<and> waiting c3 = waiting c1)"
  using clause_waits_for_cause [OF wf_injector_new, of ESBP 7 "[Lit 14, Lit 3]" "[Lit 5]"]
  by (auto simp: kNoBooleanVariable_def)

end
