(* ===== verification/Statuses.thy ===== *)
theory Statuses
  imports Orders Symmetry_Groups Clause_Injection
begin

text \<open>
  The class \<open>CosyStatus\<close> of \<open>include/cosy/CosyStatus.h\<close> and \<open>src/CosyStatus.cc\<close>, the symmetry
  status of one permutation: the literals of the order that the permutation moves, the position
  up to which every literal has the value of its inverse image, and the stack of positions to
  return to when literals are unassigned. The permutation and the order are constant references
  of the object and fields of its record; the assignment is shared and changes, so it is an
  argument of the operations that read it. Positions are below the number of variables and are
  kept as naturals. In \<open>st_lookup_infos\<close> the back of the deque is the last element.
\<close>

unbundle bit_operations_syntax

section \<open>State and operations\<close>

datatype CosyState = INACTIVE | ACTIVE | REDUCER | FORCE_LEX_LEADER

record lookup_info =
  li_variable :: variable
  li_back_index :: nat

record status =
  st_permutation :: permutation
  st_order :: order
  st_lookup_index :: nat
  st_lookup_order :: "literal list"
  st_lookup_infos :: "lookup_info list"
  st_state :: CosyState

definition CosyStatus_new :: "permutation \<Rightarrow> order \<Rightarrow> status" where
  "CosyStatus_new p o' =
     \<lparr>st_permutation = p, st_order = o', st_lookup_index = 0, st_lookup_order = [],
      st_lookup_infos = [], st_state = ACTIVE\<rparr>"

definition addLookupLiteral :: "status \<Rightarrow> literal \<Rightarrow> status" where
  "addLookupLiteral s l = s\<lparr>st_lookup_order := st_lookup_order s @ [l]\<rparr>"

definition isLookupEnd :: "status \<Rightarrow> bool" where
  "isLookupEnd s \<longleftrightarrow> st_lookup_index s \<ge> length (st_lookup_order s)"

definition generateUnitClauseOnInverting ::
    "status \<Rightarrow> clause_injector \<Rightarrow> clause_injector result" where
  "generateUnitClauseOnInverting s ci =
     (if isLookupEnd s then Inr ci
      else andThen (vec_at (st_lookup_order s) (st_lookup_index s)) (\<lambda>element.
           andThen (inverseOf (st_permutation s) element) (\<lambda>inverse.
             if element \<noteq> negated inverse then Inr ci
             else CI_addClause ci UNITS kNoBooleanVariable
                    [Literal_var (variable element) (o_valueMode (st_order s) = TRUE_LESS_FALSE)])))"

text \<open>The condition of \<open>updateState\<close> under which the undefined literal of a pair is forced.\<close>

definition forces_lex_leader :: "order \<Rightarrow> assignment \<Rightarrow> literal \<Rightarrow> literal \<Rightarrow> bool result" where
  "forces_lex_leader o' a minimal maximal =
     andThen (literalIsAssigned a minimal) (\<lambda>min_assigned.
     andThen (if \<not> min_assigned then isMinimalValue o' maximal a else Inr False) (\<lambda>b.
       if b then Inr True
       else andThen (literalIsAssigned a maximal) (\<lambda>max_assigned.
            if \<not> max_assigned then isMaximalValue o' minimal a else Inr False)))"

definition updateState :: "assignment \<Rightarrow> status \<Rightarrow> status result" where
  "updateState a s =
     (if isLookupEnd s then Inr (s\<lparr>st_state := ACTIVE\<rparr>)
      else andThen (vec_at (st_lookup_order s) (st_lookup_index s)) (\<lambda>element.
           andThen (inverseOf (st_permutation s) element) (\<lambda>inverse.
           andThen (leq (st_order s) element inverse) (\<lambda>minimal.
             let maximal = (if minimal = element then inverse else element) in
             andThen (bothLiteralsAreAssigned a element inverse) (\<lambda>both.
               if both
               then andThen (hasSameAssignmentValue a element inverse) (\<lambda>same. check (\<not> same)
                    (andThen (isMinimalValue (st_order s) minimal a) (\<lambda>b.
                       Inr (s\<lparr>st_state := (if b then INACTIVE else REDUCER)\<rparr>))))
               else andThen (forces_lex_leader (st_order s) a minimal maximal) (\<lambda>f.
                       Inr (s\<lparr>st_state := (if f then FORCE_LEX_LEADER else ACTIVE)\<rparr>)))))))"

text \<open>
  The loop of \<open>updateNotify\<close>: the list argument is the rest of the lookup order from the
  current position on.
\<close>

fun notify_loop ::
    "assignment \<Rightarrow> variable \<Rightarrow> nat \<Rightarrow> literal list \<Rightarrow> status \<Rightarrow> status result" where
  "notify_loop a v initial [] s = Inr s"
| "notify_loop a v initial (element # rest) s =
     andThen (inverseOf (st_permutation s) element) (\<lambda>inverse.
     andThen (hasSameAssignmentValue a element inverse) (\<lambda>same.
       if \<not> same then Inr s
       else notify_loop a v initial rest
         (s\<lparr>st_lookup_infos :=
              (if st_lookup_index s = initial
               then st_lookup_infos s @ [\<lparr>li_variable = v, li_back_index = st_lookup_index s\<rparr>]
               else st_lookup_infos s),
            st_lookup_index := Suc (st_lookup_index s)\<rparr>)))"

definition status_updateNotify :: "assignment \<Rightarrow> status \<Rightarrow> literal \<Rightarrow> status result" where
  "status_updateNotify a s l =
     andThen (notify_loop a (variable l) (st_lookup_index s)
                (drop (st_lookup_index s) (st_lookup_order s)) s)
       (updateState a)"

definition status_updateCancel :: "status \<Rightarrow> literal \<Rightarrow> status" where
  "status_updateCancel s l =
     (if st_lookup_infos s = [] then s
      else let lookup = last (st_lookup_infos s) in
        if li_variable lookup \<noteq> variable l then s
        else s\<lparr>st_lookup_index := li_back_index lookup,
               st_lookup_infos := butlast (st_lookup_infos s)\<rparr>)"

text \<open>
  In the clause generators \<open>used\<close> and \<open>literals\<close> always hold the same elements: a literal is
  appended when \<open>used.insert\<close> reports it as new, which is \<open>uset_insert\<close> on \<open>literals\<close>.
\<close>

definition esbp_pair ::
    "assignment \<Rightarrow> status \<Rightarrow> nat \<Rightarrow> literal list \<Rightarrow> literal list result" where
  "esbp_pair a s i literals =
     andThen (vec_at (st_lookup_order s) i) (\<lambda>element.
     andThen (inverseOf (st_permutation s) element) (\<lambda>inverse.
     andThen (bothLiteralsAreAssigned a element inverse) (\<lambda>both. check both
      (andThen (getFalseLiteralForAssignedVariable a (variable element)) (\<lambda>l.
       andThen (getFalseLiteralForAssignedVariable a (variable inverse)) (\<lambda>l'.
         Inr (uset_insert l' (uset_insert l literals))))))))"

definition swap_first :: "'a list \<Rightarrow> 'a list" where
  "swap_first xs = xs[0 := xs ! 1, 1 := xs ! 0]"

definition generateESBP ::
    "assignment \<Rightarrow> status \<Rightarrow> variable \<Rightarrow> clause_injector \<Rightarrow> clause_injector result" where
  "generateESBP a s reason ci =
     check (\<not> isLookupEnd s) (check (st_state s = REDUCER)
      (andThen (getFalseLiteralForAssignedVariable a reason) (\<lambda>l.
       andThen (foldR (esbp_pair a s) [0..<Suc (st_lookup_index s)] (uset_insert l [])) (\<lambda>literals.
         check (length literals \<ge> 2)
           (CI_addClause ci ESBP reason (swap_first literals))))))"

definition generateForceLexLeaderESBP ::
    "assignment \<Rightarrow> status \<Rightarrow> variable \<Rightarrow> clause_injector \<Rightarrow> clause_injector result" where
  "generateForceLexLeaderESBP a s reason ci =
     check (\<not> isLookupEnd s)
      (andThen (vec_at (st_lookup_order s) (st_lookup_index s)) (\<lambda>element.
       andThen (inverseOf (st_permutation s) element) (\<lambda>inverse.
       andThen (literalIsAssigned a element) (\<lambda>element_assigned.
       andThen (literalIsAssigned a inverse) (\<lambda>inverse_assigned.
         let undef = (if element_assigned then inverse else element);
             affected = (if inverse_assigned then inverse else element) in
         andThen (literalIsTrue a affected) (\<lambda>t.
         andThen (getFalseLiteralForAssignedVariable a reason) (\<lambda>l2.
         andThen (getFalseLiteralForAssignedVariable a (variable affected)) (\<lambda>l3.
         andThen (foldR (esbp_pair a s) [0..<st_lookup_index s]
            (uset_insert l3 (uset_insert l2 (uset_insert (Literal_var (variable undef) t) [])))) (\<lambda>literals.
           CI_addClause ci ESBP_FORCING reason literals)))))))))"

fun debug_loop :: "literal \<Rightarrow> literal \<Rightarrow> literal list \<Rightarrow> string" where
  "debug_loop element inverse_l [] = ''''"
| "debug_loop element inverse_l (l # ls) =
     (if l = element then ''['' @ to_string (signedValue l) @ ''] ''
      else if l = inverse_l then ''('' @ to_string (signedValue l) @ '') ''
      else to_string (signedValue l) @ '' '') @ debug_loop element inverse_l ls"

definition debugString :: "status \<Rightarrow> string result" where
  "debugString s =
     (if isLookupEnd s then Inr ''empty order''
      else andThen (vec_at (st_lookup_order s) (st_lookup_index s)) (\<lambda>element.
           andThen (inverseOf (st_permutation s) element) (\<lambda>inverse.
             Inr (debug_loop element inverse (st_lookup_order s)))))"

section \<open>The literals a permutation moves\<close>

lemma act_inv_eq: "p_inverse p l = Some m \<Longrightarrow> act_inv p l = m"
  by (simp add: act_inv_def)

lemma moved_inverse:
  assumes p: "perm_in n p" "signed_perm p" and l: "moves p (unat (variable l))"
  shows "inverseOf p l = Inr (act_inv p l)" and "lit_in n (act_inv p l)" and "lit_in n l"
    and "act_inv p l \<noteq> l" and "moves p (unat (variable (act_inv p l)))"
proof -
  have wf: "perm_wf p" using p(1) by (simp add: perm_in_def)
  obtain m where m: "m \<in> set (p_cycles p)" "variable m = variable l"
    using l by (auto simp: moves_def unat_word32_eq_iff [symmetric])
  have "negated m \<in> set (p_cycles p)"
    using p(2) m(1) perm_image_dom [OF wf, of "negated m"] unfolding signed_perm_def by blast
  then have l_in: "l \<in> set (p_cycles p)" using m same_variable [of m l] by auto
  with perm_inverse_dom [OF wf, of l] obtain k where k: "p_inverse p l = Some k" by auto
  then show "inverseOf p l = Inr (act_inv p l)" by (simp add: inverseOf_def act_inv_def)
  have "p_image p k = Some l" using k perm_image_inverse [OF wf] by simp
  then have "k \<in> set (p_cycles p)" using perm_image_dom [OF wf, of k] by auto
  then show "lit_in n (act_inv p l)" using p(1) k by (simp add: perm_in_def act_inv_eq)
  show "moves p (unat (variable (act_inv p l)))"
    using \<open>k \<in> set (p_cycles p)\<close> k by (simp add: moves_def act_inv_eq)
  show "lit_in n l" using l_in p(1) by (simp add: perm_in_def)
  show "act_inv p l \<noteq> l"
    using k wf by (auto simp: act_inv_eq dest: perm_inverse_neq)
qed

section \<open>Trails\<close>

text \<open>A trail is the list of the assigned literals, oldest first.\<close>

definition trail_val :: "literal list \<Rightarrow> valuation" where
  "trail_val tr = foldl (\<lambda>\<sigma> l. \<sigma>(variable l \<mapsto> isPositive l)) Map.empty tr"

definition trail_ok :: "nat \<Rightarrow> literal list \<Rightarrow> bool" where
  "trail_ok n tr \<longleftrightarrow> distinct (map variable tr) \<and> (\<forall>l \<in> set tr. lit_in n l)"

lemma trail_val_Nil [simp]: "trail_val [] = Map.empty"
  by (simp add: trail_val_def)

lemma trail_val_snoc [simp]: "trail_val (tr @ [l]) = (trail_val tr)(variable l \<mapsto> isPositive l)"
  by (simp add: trail_val_def)

lemma trail_val_None_iff: "trail_val tr v = None \<longleftrightarrow> v \<notin> variable ` set tr"
  by (induction tr rule: rev_induct) auto

lemma trail_ok_snoc:
  "trail_ok n (tr @ [l]) \<longleftrightarrow> trail_ok n tr \<and> lit_in n l \<and> trail_val tr (variable l) = None"
  by (auto simp: trail_ok_def trail_val_None_iff)

lemma trail_ok_prefix: "trail_ok n (tr @ post) \<Longrightarrow> trail_ok n tr"
  by (simp add: trail_ok_def)

text \<open>Assigning the literals of a trail one after the other.\<close>

lemma assign_trail_ok:
  assumes "wf_assignment n a" "value_of a = trail_val []" "trail_ok n tr"
  shows "\<exists>a'. foldR (\<lambda>l a. assignFromTrueLiteral a l) tr a = Inr a' \<and> wf_assignment n a'
    \<and> value_of a' = trail_val tr"
proof (rule foldR_total)
  show "wf_assignment n a \<and> value_of a = trail_val []" using assms by simp
next
  fix pre l post a
  assume "tr = pre @ l # post" and a: "wf_assignment n a \<and> value_of a = trail_val pre"
  then have "trail_ok n (pre @ [l])" using assms(3) trail_ok_prefix [of n "pre @ [l]" post] by simp
  then have "lit_in n l" "trail_val pre (variable l) = None" by (simp_all add: trail_ok_snoc)
  with assignFromTrueLiteral_ok [of n a l] a
  show "\<exists>a'. assignFromTrueLiteral a l = Inr a' \<and> wf_assignment n a'
      \<and> value_of a' = trail_val (pre @ [l])" by auto
qed

lemma same_value_trail_mono:
  assumes "trail_ok n (tr @ post)" "same_value (trail_val tr) x y"
  shows "same_value (trail_val (tr @ post)) x y"
  using assms
proof (induction post rule: rev_induct)
  case Nil
  then show ?case by simp
next
  case (snoc l post)
  have ok: "trail_ok n ((tr @ post) @ [l])" using snoc.prems(1) by simp
  then have "same_value (trail_val (tr @ post)) x y"
    using snoc trail_ok_prefix [of n "tr @ post" "[l]"] by simp
  moreover have "trail_val (tr @ post) (variable l) = None"
    using ok by (simp only: trail_ok_snoc)
  ultimately have "same_value ((trail_val (tr @ post))(variable l \<mapsto> isPositive l)) x y"
    by (auto simp: same_value_def lit_value_def)
  then show ?case by (simp only: append_assoc [symmetric] trail_val_snoc)
qed

section \<open>The lookup stack\<close>

text \<open>
  \<open>agrees p \<sigma> ls k\<close>: the first \<open>k\<close> literals of the lookup order have the value of their
  inverse image. \<open>stk\<close> reads the infos from the last pushed to the first: the position is
  justified by the assignments up to the literal that pushed the info, and the position below
  by those before it.
\<close>

definition agrees :: "permutation \<Rightarrow> valuation \<Rightarrow> literal list \<Rightarrow> nat \<Rightarrow> bool" where
  "agrees p \<sigma> ls k \<longleftrightarrow> (\<forall>i < k. same_value \<sigma> (ls ! i) (act_inv p (ls ! i)))"

fun stk :: "permutation \<Rightarrow> literal list \<Rightarrow> literal list \<Rightarrow> lookup_info list \<Rightarrow> nat \<Rightarrow> bool" where
  "stk p ls tr [] k \<longleftrightarrow> k = 0"
| "stk p ls tr (li # lis) k \<longleftrightarrow>
     li_back_index li < k \<and> k \<le> length ls
     \<and> (\<exists>pre l post. tr = pre @ l # post \<and> variable l = li_variable li
          \<and> agrees p (trail_val (pre @ [l])) ls k \<and> stk p ls pre lis (li_back_index li))"

definition status_inv :: "literal list \<Rightarrow> status \<Rightarrow> bool" where
  "status_inv tr s \<longleftrightarrow>
     stk (st_permutation s) (st_lookup_order s) tr (rev (st_lookup_infos s)) (st_lookup_index s)
     \<and> (\<forall>li \<in> set (st_lookup_infos s). moves (st_permutation s) (unat (li_variable li)))"

definition wf_status :: "nat \<Rightarrow> status \<Rightarrow> bool" where
  "wf_status n s \<longleftrightarrow>
     perm_in n (st_permutation s) \<and> signed_perm (st_permutation s)
     \<and> complete_order n (st_order s)
     \<and> st_lookup_order s =
         filter (\<lambda>l. moves (st_permutation s) (unat (variable l))) (o_order (st_order s))"

lemma stk_ConsI:
  "li_back_index li < k \<Longrightarrow> k \<le> length ls \<Longrightarrow> tr = pre @ l # post \<Longrightarrow>
    variable l = li_variable li \<Longrightarrow> agrees p (trail_val (pre @ [l])) ls k \<Longrightarrow>
    stk p ls pre lis (li_back_index li) \<Longrightarrow> stk p ls tr (li # lis) k"
  unfolding stk.simps by blast

lemma stk_length: "stk p ls tr lis k \<Longrightarrow> k \<le> length ls"
  by (cases lis) auto

lemma stk_append: "stk p ls tr lis k \<Longrightarrow> stk p ls (tr @ post) lis k"
  by (cases lis) fastforce+

lemma stk_agrees:
  assumes "stk p ls tr lis k" "trail_ok n tr"
  shows "agrees p (trail_val tr) ls k"
proof (cases lis)
  case Nil
  then show ?thesis using assms(1) by (simp add: agrees_def)
next
  case (Cons li lis')
  with assms(1) obtain pre l post where tr: "tr = (pre @ [l]) @ post"
      "agrees p (trail_val (pre @ [l])) ls k"
    by auto
  show ?thesis
    using tr(2) same_value_trail_mono [OF assms(2) [unfolded tr(1)]]
    unfolding agrees_def tr(1) by blast
qed

text \<open>Undoing the newest literal of the trail.\<close>

lemma stk_undo_other:
  assumes "stk p ls (tr @ [l]) (li # lis) k" "li_variable li \<noteq> variable l"
  shows "stk p ls tr (li # lis) k"
proof -
  from assms(1) obtain pre m post where e: "tr @ [l] = pre @ m # post" "variable m = li_variable li"
      "agrees p (trail_val (pre @ [m])) ls k" "stk p ls pre lis (li_back_index li)"
    by auto
  have "post \<noteq> []" using e(1,2) assms(2) by auto
  then obtain post' where "post = post' @ [l]" using e(1) by (cases post rule: rev_cases) auto
  with e(1) have "tr = pre @ m # post'" by simp
  moreover have "li_back_index li < k" "k \<le> length ls" using assms(1) by simp_all
  ultimately show ?thesis using e(2-4) by (intro stk_ConsI)
qed

lemma stk_undo_same:
  assumes "stk p ls (tr @ [l]) (li # lis) k" "li_variable li = variable l" "trail_ok n (tr @ [l])"
  shows "stk p ls tr lis (li_back_index li)"
proof -
  from assms(1) obtain pre m post where e: "tr @ [l] = pre @ m # post" "variable m = li_variable li"
      "stk p ls pre lis (li_back_index li)"
    by auto
  have "post = []"
  proof (rule ccontr)
    assume "post \<noteq> []"
    then obtain post' where "post = post' @ [l]" using e(1) by (cases post rule: rev_cases) auto
    then have "tr = pre @ m # post'" using e(1) by simp
    then have "variable l \<in> variable ` set tr" using e(2) assms(2) by simp
    then show False using assms(3) by (simp add: trail_ok_snoc trail_val_None_iff)
  qed
  then show ?thesis using e by simp
qed

declare stk.simps(2) [simp del]

lemma status_updateCancel_inv:
  assumes "status_inv (tr @ [l]) s" "trail_ok n (tr @ [l])"
  shows "status_inv tr (status_updateCancel s l)"
proof (cases "st_lookup_infos s" rule: rev_cases)
  case Nil
  then show ?thesis using assms(1) by (simp add: status_inv_def status_updateCancel_def)
next
  case (snoc lis li)
  then show ?thesis
    using assms stk_undo_other [of "st_permutation s" "st_lookup_order s" tr l li "rev lis"]
      stk_undo_same [of "st_permutation s" "st_lookup_order s" tr l li "rev lis"]
    by (auto simp: status_inv_def status_updateCancel_def)
qed

text \<open>A literal whose variable the permutation does not move has never been notified to it.\<close>

lemma status_inv_unmoved:
  assumes "status_inv (tr @ [l]) s" "\<not> moves (st_permutation s) (unat (variable l))"
  shows "status_inv tr s"
proof (cases "st_lookup_infos s" rule: rev_cases)
  case Nil
  then show ?thesis using assms(1) by (simp add: status_inv_def)
next
  case (snoc lis li)
  then have "li_variable li \<noteq> variable l" using assms by (auto simp: status_inv_def)
  then show ?thesis
    using assms(1) snoc stk_undo_other [of "st_permutation s" "st_lookup_order s" tr l li "rev lis"]
    by (simp add: status_inv_def)
qed

lemma status_updateCancel_frame [simp]:
  "st_permutation (status_updateCancel s l) = st_permutation s"
  "st_order (status_updateCancel s l) = st_order s"
  "st_lookup_order (status_updateCancel s l) = st_lookup_order s"
  "st_state (status_updateCancel s l) = st_state s"
  by (simp_all add: status_updateCancel_def Let_def)

section \<open>Notification\<close>

definition lookup_ok :: "nat \<Rightarrow> status \<Rightarrow> literal \<Rightarrow> bool" where
  "lookup_ok n s l \<longleftrightarrow> inverseOf (st_permutation s) l = Inr (act_inv (st_permutation s) l)
     \<and> lit_in n l \<and> lit_in n (act_inv (st_permutation s) l)
     \<and> act_inv (st_permutation s) l \<noteq> l
     \<and> listed (o_order (st_order s)) l
     \<and> listed (o_order (st_order s)) (act_inv (st_permutation s) l)"

lemma complete_listed: "complete_order n o' \<Longrightarrow> lit_in n l \<Longrightarrow> listed (o_order o') l"
  by (simp add: complete_order_def lit_in_def listed_def)

lemma wf_status_lookup_ok:
  assumes "wf_status n s" "l \<in> set (st_lookup_order s)"
  shows "lookup_ok n s l"
  using assms moved_inverse [of n "st_permutation s" l]
  by (auto simp: wf_status_def lookup_ok_def intro: complete_listed)

definition pair_same :: "valuation \<Rightarrow> status \<Rightarrow> nat \<Rightarrow> bool" where
  "pair_same \<sigma> s i \<longleftrightarrow>
     same_value \<sigma> (st_lookup_order s ! i) (act_inv (st_permutation s) (st_lookup_order s ! i))"

lemma notify_loop_ok:
  assumes "wf_assignment n a" "\<forall>l \<in> set (st_lookup_order s). lookup_ok n s l"
    and "rest = drop (st_lookup_index s) (st_lookup_order s)" "initial \<le> st_lookup_index s"
    and "st_lookup_index s \<le> length (st_lookup_order s)"
  shows "\<exists>k. notify_loop a v initial rest s =
      Inr (s\<lparr>st_lookup_infos :=
               (if st_lookup_index s = initial \<and> initial < k
                then st_lookup_infos s @ [\<lparr>li_variable = v, li_back_index = initial\<rparr>]
                else st_lookup_infos s),
             st_lookup_index := k\<rparr>)
    \<and> st_lookup_index s \<le> k \<and> k \<le> length (st_lookup_order s)
    \<and> (\<forall>i. st_lookup_index s \<le> i \<and> i < k \<longrightarrow> pair_same (value_of a) s i)
    \<and> (k < length (st_lookup_order s) \<longrightarrow> \<not> pair_same (value_of a) s k)"
  using assms
proof (induction rest arbitrary: s)
  case Nil
  then show ?case by (intro exI [of _ "st_lookup_index s"]) auto
next
  case (Cons e rest)
  let ?k = "st_lookup_index s"
  have k: "?k < length (st_lookup_order s)" "e = st_lookup_order s ! ?k"
      "rest = drop (Suc ?k) (st_lookup_order s)"
    using Cons.prems(3)
    by (metis drop_all linorder_not_le list.discI, metis nth_via_drop, metis drop_Suc list.sel(3) tl_drop)
  then have e: "lookup_ok n s e" using Cons.prems(2) by simp
  have same: "hasSameAssignmentValue a e (act_inv (st_permutation s) e) = Inr (pair_same (value_of a) s ?k)"
    using Cons.prems(1) e k(2) by (simp add: lookup_ok_def pair_same_def)
  have inv: "inverseOf (st_permutation s) e = Inr (act_inv (st_permutation s) e)"
    using e by (simp add: lookup_ok_def)
  show ?case
  proof (cases "pair_same (value_of a) s ?k")
    case False
    then show ?thesis
      using k same inv by (intro exI [of _ ?k]) auto
  next
    case True
    define s1 where "s1 = s\<lparr>st_lookup_infos :=
        (if ?k = initial then st_lookup_infos s @ [\<lparr>li_variable = v, li_back_index = ?k\<rparr>]
         else st_lookup_infos s), st_lookup_index := Suc ?k\<rparr>"
    have eq: "notify_loop a v initial (e # rest) s = notify_loop a v initial rest s1"
      using True same inv by (simp add: s1_def)
    have ok: "\<forall>l \<in> set (st_lookup_order s1). lookup_ok n s1 l"
      using Cons.prems(2) by (simp add: s1_def lookup_ok_def)
    have "rest = drop (st_lookup_index s1) (st_lookup_order s1)" "initial \<le> st_lookup_index s1"
        "st_lookup_index s1 \<le> length (st_lookup_order s1)"
      using k Cons.prems(4) by (simp_all add: s1_def)
    from Cons.IH [OF Cons.prems(1) ok this] obtain k' where k':
      "notify_loop a v initial rest s1 =
        Inr (s1\<lparr>st_lookup_infos :=
               (if st_lookup_index s1 = initial \<and> initial < k'
                then st_lookup_infos s1 @ [\<lparr>li_variable = v, li_back_index = initial\<rparr>]
                else st_lookup_infos s1), st_lookup_index := k'\<rparr>)"
      "st_lookup_index s1 \<le> k'" "k' \<le> length (st_lookup_order s1)"
      "\<forall>i. st_lookup_index s1 \<le> i \<and> i < k' \<longrightarrow> pair_same (value_of a) s1 i"
      "k' < length (st_lookup_order s1) \<longrightarrow> \<not> pair_same (value_of a) s1 k'" by blast
    have "pair_same (value_of a) s i" if "?k \<le> i" "i < k'" for i
      using k'(4) that True by (cases "i = ?k") (simp_all add: s1_def pair_same_def)
    with k' Cons.prems(4) show ?thesis
      unfolding eq by (intro exI [of _ k']) (auto simp: s1_def pair_same_def)
  qed
qed

text \<open>
  The state the comparison of the current pair calls for: \<open>first\<close> is the literal whose variable
  comes first in the order.
\<close>

definition pair_state :: "bool \<Rightarrow> bool option \<Rightarrow> bool option \<Rightarrow> CosyState" where
  "pair_state m x y = (case x of
       None \<Rightarrow> if y = Some m then FORCE_LEX_LEADER else ACTIVE
     | Some b \<Rightarrow> (case y of
           None \<Rightarrow> if b \<noteq> m then FORCE_LEX_LEADER else ACTIVE
         | Some _ \<Rightarrow> if b = m then INACTIVE else REDUCER))"

definition state_spec :: "valuation \<Rightarrow> status \<Rightarrow> CosyState" where
  "state_spec \<sigma> s =
     (if isLookupEnd s then ACTIVE
      else let element = st_lookup_order s ! st_lookup_index s;
               image = act_inv (st_permutation s) element;
               m = minimal_value (o_valueMode (st_order s))
           in if rank (o_order (st_order s)) element \<le> rank (o_order (st_order s)) image
              then pair_state m (lit_value \<sigma> element) (lit_value \<sigma> image)
              else pair_state m (lit_value \<sigma> image) (lit_value \<sigma> element))"

lemma forces_lex_leader_eq:
  assumes "wf_order n o'" "wf_assignment n a" "lit_in n x" "lit_in n y"
    and "lit_value (value_of a) x = None \<or> lit_value (value_of a) y = None"
  shows "forces_lex_leader o' a x y =
    Inr (pair_state (minimal_value (o_valueMode o')) (lit_value (value_of a) x)
           (lit_value (value_of a) y) = FORCE_LEX_LEADER)"
  using assms(5)
  by (cases "lit_value (value_of a) x"; cases "lit_value (value_of a) y")
    (simp_all add: forces_lex_leader_def pair_state_def literalIsAssigned_eq [OF assms(2,3)]
      literalIsAssigned_eq [OF assms(2,4)] isMinimalValue_eq [OF assms(1,2,4)]
      isMaximalValue_eq [OF assms(1,2,3)] del: lit_value_None_iff)

lemma pair_state_forced:
  "x = None \<or> y = None \<Longrightarrow>
    (if pair_state m x y = FORCE_LEX_LEADER then FORCE_LEX_LEADER else ACTIVE) = pair_state m x y"
  by (auto simp: pair_state_def split: option.splits if_splits)

lemma updateState_ok:
  assumes wf: "wf_status n s" and a: "wf_assignment n a"
    and differ: "\<not> isLookupEnd s \<Longrightarrow> \<not> pair_same (value_of a) s (st_lookup_index s)"
  shows "updateState a s = Inr (s\<lparr>st_state := state_spec (value_of a) s\<rparr>)"
proof (cases "isLookupEnd s")
  case True
  then show ?thesis by (simp add: updateState_def state_spec_def)
next
  case False
  let ?k = "st_lookup_index s" and ?ls = "o_order (st_order s)"
  let ?e = "st_lookup_order s ! ?k"
  let ?i = "act_inv (st_permutation s) ?e"
  let ?x = "lit_value (value_of a) ?e" and ?y = "lit_value (value_of a) ?i"
  have k: "?k < length (st_lookup_order s)" using False by (simp add: isLookupEnd_def)
  then have ok: "lookup_ok n s ?e" using wf_status_lookup_ok [OF wf] by simp
  note in_e = ok [unfolded lookup_ok_def]
  have o': "wf_order n (st_order s)"
    using wf by (simp add: wf_status_def complete_order_def)
  have both: "bothLiteralsAreAssigned a ?e ?i = Inr (?x \<noteq> None \<and> ?y \<noteq> None)"
    using bothLiteralsAreAssigned_eq [OF a] in_e by blast
  have "hasSameAssignmentValue a ?e ?i = Inr (pair_same (value_of a) s ?k)"
    using hasSameAssignmentValue_eq [OF a] in_e by (simp add: pair_same_def)
  then have same: "hasSameAssignmentValue a ?e ?i = Inr False" using differ [OF False] by simp
  have first: "leq (st_order s) ?e ?i = Inr (if rank ?ls ?e \<le> rank ?ls ?i then ?e else ?i)"
    using leq_eq [OF o'] in_e by blast
  have m: "isMinimalValue (st_order s) l a =
      Inr (lit_value (value_of a) l = Some (minimal_value (o_valueMode (st_order s))))"
    if "l = ?e \<or> l = ?i" for l
    using isMinimalValue_eq [OF o' a] that in_e by blast
  have f: "forces_lex_leader (st_order s) a ?e ?i = Inr (pair_state
      (minimal_value (o_valueMode (st_order s))) ?x ?y = FORCE_LEX_LEADER)"
    "forces_lex_leader (st_order s) a ?i ?e = Inr (pair_state
      (minimal_value (o_valueMode (st_order s))) ?y ?x = FORCE_LEX_LEADER)"
    if "?x = None \<or> ?y = None"
    using forces_lex_leader_eq [OF o' a] that in_e by blast+
  show ?thesis
  proof (cases "?x = None \<or> ?y = None")
    case True
    then have swap: "?y = None \<or> ?x = None" by (simp only: disj_commute)
    from True have "bothLiteralsAreAssigned a ?e ?i = Inr False" using both by auto
    then show ?thesis
      using False k in_e first f [OF True]
      by (simp add: updateState_def state_spec_def Let_def pair_state_forced [OF True]
          pair_state_forced [OF swap] del: lit_value_None_iff)
  next
    case decided: False
    then obtain x y where "?x = Some x" "?y = Some y"
      by (auto simp del: lit_value_None_iff)
    then show ?thesis
      using False k in_e both first same m
      by (simp add: updateState_def state_spec_def pair_state_def Let_def)
  qed
qed

text \<open>
  A notification of the newest literal keeps the stack invariant, advances the position over
  the pairs that now agree and leaves the state that the comparison of the next pair calls for.
\<close>

lemma status_updateNotify_ok:
  assumes wf: "wf_status n s" and a: "wf_assignment n a" "value_of a = trail_val (tr @ [l])"
    and tr: "trail_ok n (tr @ [l])" and stk: "status_inv tr s"
    and moved: "moves (st_permutation s) (unat (variable l))"
  shows "\<exists>s'. status_updateNotify a s l = Inr s' \<and> wf_status n s' \<and> status_inv (tr @ [l]) s'
    \<and> st_permutation s' = st_permutation s \<and> st_order s' = st_order s
    \<and> st_state s' = state_spec (value_of a) s'
    \<and> (\<not> isLookupEnd s' \<longrightarrow> \<not> pair_same (value_of a) s' (st_lookup_index s'))"
proof -
  let ?k = "st_lookup_index s" and ?p = "st_permutation s" and ?ls = "st_lookup_order s"
  have ok: "\<forall>l \<in> set ?ls. lookup_ok n s l" using wf_status_lookup_ok [OF wf] by blast
  have k: "?k \<le> length ?ls" using stk stk_length by (auto simp: status_inv_def)
  obtain k' where k': "notify_loop a (variable l) ?k (drop ?k ?ls) s =
      Inr (s\<lparr>st_lookup_infos :=
               (if ?k < k' then st_lookup_infos s @ [\<lparr>li_variable = variable l, li_back_index = ?k\<rparr>]
                else st_lookup_infos s), st_lookup_index := k'\<rparr>)"
      "?k \<le> k'" "k' \<le> length ?ls" "\<forall>i. ?k \<le> i \<and> i < k' \<longrightarrow> pair_same (value_of a) s i"
      "k' < length ?ls \<longrightarrow> \<not> pair_same (value_of a) s k'"
    using notify_loop_ok [OF a(1) ok refl order_refl k, of "variable l"] by auto
  define s1 where "s1 = s\<lparr>st_lookup_infos :=
               (if ?k < k' then st_lookup_infos s @ [\<lparr>li_variable = variable l, li_back_index = ?k\<rparr>]
                else st_lookup_infos s), st_lookup_index := k'\<rparr>"
  have wf1: "wf_status n s1" using wf by (simp add: wf_status_def s1_def)
  have differ: "\<not> isLookupEnd s1 \<Longrightarrow> \<not> pair_same (value_of a) s1 (st_lookup_index s1)"
    using k'(5) by (simp add: s1_def isLookupEnd_def pair_same_def)
  have st: "stk ?p ?ls (tr @ [l]) (rev (st_lookup_infos s)) ?k"
    using stk by (simp add: status_inv_def stk_append)
  have inv1: "status_inv (tr @ [l]) s1"
  proof (cases "?k < k'")
    case False
    then show ?thesis using st stk k'(2) by (simp add: status_inv_def s1_def)
  next
    case True
    have "same_value (trail_val (tr @ [l])) (?ls ! i) (act_inv ?p (?ls ! i))" if "i < k'" for i
    proof (cases "i < ?k")
      case True
      then show ?thesis using stk_agrees [OF st tr] by (simp add: agrees_def)
    next
      case False
      then show ?thesis using k'(4) that a(2) by (simp add: pair_same_def)
    qed
    then have "agrees ?p (trail_val (tr @ [l])) ?ls k'" by (simp add: agrees_def)
    with True stk k'(3) moved show ?thesis
      by (auto simp: status_inv_def s1_def intro!: stk_ConsI [where pre = tr and post = "[]"])
  qed
  let ?s = "s1\<lparr>st_state := state_spec (value_of a) s1\<rparr>"
  have "status_updateNotify a s l = Inr ?s"
    using k'(1) updateState_ok [OF wf1 a(1) differ] by (simp add: status_updateNotify_def s1_def)
  moreover have "state_spec (value_of a) ?s = state_spec (value_of a) s1"
    by (simp add: state_spec_def isLookupEnd_def Let_def)
  moreover have "wf_status n ?s" "status_inv (tr @ [l]) ?s"
    using wf1 inv1 by (simp_all add: wf_status_def status_inv_def)
  moreover have "\<not> isLookupEnd ?s \<longrightarrow> \<not> pair_same (value_of a) ?s (st_lookup_index ?s)"
    using differ by (simp add: isLookupEnd_def pair_same_def)
  ultimately show ?thesis by (intro exI [of _ ?s]) (simp add: s1_def)
qed

text \<open>Cancelling a literal right after its notification takes a status back.\<close>

lemma updateState_frame:
  assumes "updateState a s = Inr s'"
  shows "\<exists>st. s' = s\<lparr>st_state := st\<rparr>"
  using assms unfolding updateState_def
  by (auto simp: andThen_Inr_iff check_def Let_def split: if_splits)

lemma stk_newest: "stk p ls tr (li # lis) k \<Longrightarrow> li_variable li \<in> variable ` set tr"
proof -
  assume "stk p ls tr (li # lis) k"
  then obtain pre l post where "tr = pre @ l # post" "variable l = li_variable li"
    unfolding stk.simps by blast
  then show ?thesis by simp
qed

lemma status_notify_cancel:
  assumes wf: "wf_status n s" and a: "wf_assignment n a"
    and tr: "trail_ok n (tr @ [l])" and inv: "status_inv tr s"
    and s': "status_updateNotify a s l = Inr s'"
  shows "status_updateCancel s' l = s\<lparr>st_state := st_state s'\<rparr>"
proof -
  let ?k = "st_lookup_index s" and ?ls = "st_lookup_order s" and ?infos = "st_lookup_infos s"
  have ok: "\<forall>l \<in> set ?ls. lookup_ok n s l" using wf_status_lookup_ok [OF wf] by blast
  have k: "?k \<le> length ?ls" using inv stk_length by (auto simp: status_inv_def)
  obtain k' where k': "notify_loop a (variable l) ?k (drop ?k ?ls) s =
      Inr (s\<lparr>st_lookup_infos :=
               (if ?k < k' then ?infos @ [\<lparr>li_variable = variable l, li_back_index = ?k\<rparr>]
                else ?infos), st_lookup_index := k'\<rparr>)" "?k \<le> k'"
    using notify_loop_ok [OF a ok refl order_refl k, of "variable l"] by auto
  then obtain st where st: "s' = s\<lparr>st_lookup_infos :=
               (if ?k < k' then ?infos @ [\<lparr>li_variable = variable l, li_back_index = ?k\<rparr>]
                else ?infos), st_lookup_index := k', st_state := st\<rparr>"
    using s' updateState_frame by (fastforce simp: status_updateNotify_def)
  have "li_variable (last ?infos) \<noteq> variable l" if "?infos \<noteq> []"
  proof -
    have "rev ?infos = last ?infos # rev (butlast ?infos)"
      using that by (metis append_butlast_last_id rev_eq_Cons_iff rev_rev_ident)
    then have "li_variable (last ?infos) \<in> variable ` set tr"
      using inv stk_newest unfolding status_inv_def by metis
    then show ?thesis using tr by (auto simp: trail_ok_def)
  qed
  then show ?thesis using k'(2) unfolding st by (auto simp: status_updateCancel_def)
qed

end
