(* ===== verification/Breaking_Clauses.thy ===== *)
theory Breaking_Clauses
  imports Statuses
begin

text \<open>
  The clauses that a status generates: what \<open>generateESBP\<close> and \<open>generateUnitClauseOnInverting\<close>
  of \<open>src/CosyStatus.cc\<close> put into the injector, that an ESBP is a conflict clause of the current
  assignment, and that it only excludes models of the formula that have a smaller symmetric
  model. The last step needs the order to list the element before its inverse image.
\<close>

section \<open>The literals of an ESBP\<close>

definition false_lit :: "valuation \<Rightarrow> variable \<Rightarrow> literal" where
  "false_lit \<sigma> v = Literal_var v (\<sigma> v \<noteq> Some True)"

definition pair_vars :: "status \<Rightarrow> nat \<Rightarrow> variable set" where
  "pair_vars s i =
     {variable (st_lookup_order s ! i),
      variable (act_inv (st_permutation s) (st_lookup_order s ! i))}"

lemma variable_false_lit [simp]: "small_var v \<Longrightarrow> variable (false_lit \<sigma> v) = v"
  by (simp add: false_lit_def)

lemma getFalse_false_lit:
  assumes "wf_assignment n a" "unat v < n" "value_of a v \<noteq> None"
  shows "getFalseLiteralForAssignedVariable a v = Inr (false_lit (value_of a) v)"
  using assms by (auto simp: false_lit_def)

lemma false_lit_false:
  assumes "small_var v" "\<sigma> v \<noteq> None"
  shows "lit_value \<sigma> (false_lit \<sigma> v) = Some False"
  using assms by (auto simp: lit_value_def false_lit_def)

lemma falsified_value:
  assumes "\<sigma> (variable l) \<noteq> None" "small_var (variable l)"
    and "\<not> lit_true \<tau> (false_lit \<sigma> (variable l))"
  shows "lit_value \<sigma> l = Some (lit_true \<tau> l)"
  using assms by (auto simp: lit_value_def false_lit_def lit_true_def)

lemma esbp_pair_ok:
  assumes wf: "wf_status n s" and a: "wf_assignment n a" and i: "i < length (st_lookup_order s)"
    and assigned: "\<forall>v \<in> pair_vars s i. value_of a v \<noteq> None"
  shows "\<exists>ls'. esbp_pair a s i ls = Inr ls' \<and> (distinct ls \<longrightarrow> distinct ls')
    \<and> set ls' = set ls \<union> false_lit (value_of a) ` pair_vars s i"
proof -
  let ?e = "st_lookup_order s ! i"
  let ?i = "act_inv (st_permutation s) ?e"
  have ok: "lookup_ok n s ?e" using wf_status_lookup_ok [OF wf] i by simp
  note in_e = ok [unfolded lookup_ok_def]
  have "bothLiteralsAreAssigned a ?e ?i = Inr True"
    using bothLiteralsAreAssigned_eq [OF a] in_e assigned by (simp add: pair_vars_def)
  moreover have "getFalseLiteralForAssignedVariable a (variable l) =
      Inr (false_lit (value_of a) (variable l))" if "l = ?e \<or> l = ?i" for l
    using getFalse_false_lit [OF a] in_e assigned that by (auto simp: pair_vars_def lit_in_def)
  ultimately have "esbp_pair a s i ls = Inr (uset_insert (false_lit (value_of a) (variable ?i))
      (uset_insert (false_lit (value_of a) (variable ?e)) ls))"
    using i in_e by (simp add: esbp_pair_def)
  then show ?thesis by (auto simp: pair_vars_def)
qed

lemma esbp_pairs_ok:
  assumes wf: "wf_status n s" and a: "wf_assignment n a" and k: "k \<le> length (st_lookup_order s)"
    and assigned: "\<forall>i < k. \<forall>v \<in> pair_vars s i. value_of a v \<noteq> None"
    and d: "distinct ls"
  shows "\<exists>ls'. foldR (esbp_pair a s) [0..<k] ls = Inr ls' \<and> distinct ls'
    \<and> set ls' = set ls \<union> false_lit (value_of a) ` (\<Union>i \<in> {..<k}. pair_vars s i)"
proof -
  have "\<exists>ls'. foldR (esbp_pair a s) [0..<k] ls = Inr ls' \<and> distinct ls'
    \<and> set ls' = set ls \<union> false_lit (value_of a) ` (\<Union>i \<in> set [0..<k]. pair_vars s i)"
  proof (rule foldR_total)
    fix pre x post ls1
    assume "[0..<k] = pre @ x # post"
    then have "x \<in> set [0..<k]" by (metis in_set_conv_decomp)
    then have x: "x < k" by simp
    assume P: "distinct ls1 \<and>
        set ls1 = set ls \<union> false_lit (value_of a) ` (\<Union>i \<in> set pre. pair_vars s i)"
    have "x < length (st_lookup_order s)" "\<forall>v \<in> pair_vars s x. value_of a v \<noteq> None"
      using assigned x k by auto
    from esbp_pair_ok [OF wf a this, of ls1] obtain ls2 where
        "esbp_pair a s x ls1 = Inr ls2" "distinct ls1 \<longrightarrow> distinct ls2"
        "set ls2 = set ls1 \<union> false_lit (value_of a) ` pair_vars s x"
      by blast
    with P show "\<exists>ls2. esbp_pair a s x ls1 = Inr ls2 \<and> (distinct ls2 \<and>
        set ls2 = set ls \<union> false_lit (value_of a) ` (\<Union>i \<in> set (pre @ [x]). pair_vars s i))"
      by auto
  qed (simp add: d)
  then show ?thesis by (simp add: lessThan_atLeast0)
qed

section \<open>A reducer\<close>

text \<open>
  The situation in which the manager asks for an ESBP: the status is a reducer for the
  assignment that the trail stands for.
\<close>

definition reducing :: "nat \<Rightarrow> literal list \<Rightarrow> assignment \<Rightarrow> status \<Rightarrow> bool" where
  "reducing n tr a s \<longleftrightarrow> wf_status n s \<and> wf_assignment n a \<and> value_of a = trail_val tr
     \<and> trail_ok n tr \<and> status_inv tr s \<and> st_state s = REDUCER
     \<and> state_spec (value_of a) s = REDUCER
     \<and> \<not> pair_same (value_of a) s (st_lookup_index s)"

lemma reducing_index: "reducing n tr a s \<Longrightarrow> st_lookup_index s < length (st_lookup_order s)"
  by (auto simp: reducing_def state_spec_def isLookupEnd_def split: if_splits)

lemma pair_state_reducer:
  "pair_state m x y = REDUCER \<longleftrightarrow> x = Some (\<not> m) \<and> y \<noteq> None"
  by (auto simp: pair_state_def split: option.splits)

lemma reducing_agree:
  assumes "reducing n tr a s" "i < st_lookup_index s"
  shows "pair_same (value_of a) s i"
proof -
  have "agrees (st_permutation s) (trail_val tr) (st_lookup_order s) (st_lookup_index s)"
    using assms(1) by (auto simp: reducing_def status_inv_def intro: stk_agrees)
  then show ?thesis using assms by (simp add: reducing_def agrees_def pair_same_def)
qed

lemma same_value_assigned:
  "same_value \<sigma> x y \<Longrightarrow> \<exists>b. \<sigma> (variable x) = Some b" "same_value \<sigma> x y \<Longrightarrow> \<exists>b. \<sigma> (variable y) = Some b"
  by (cases "\<sigma> (variable x)"; cases "\<sigma> (variable y)"; simp add: same_value_def lit_value_def)+

lemma reducing_assigned:
  assumes r: "reducing n tr a s" and i: "i \<le> st_lookup_index s" and v: "v \<in> pair_vars s i"
  shows "value_of a v \<noteq> None"
proof (cases "i = st_lookup_index s")
  case True
  have "\<not> isLookupEnd s" using reducing_index [OF r] by (simp add: isLookupEnd_def)
  then show ?thesis
    using r v True
    by (auto simp: reducing_def state_spec_def Let_def pair_vars_def pair_state_reducer lit_value_def
        split: if_splits)
next
  case False
  then have "pair_same (value_of a) s i" using reducing_agree [OF r, of i] i by simp
  then show ?thesis using v same_value_assigned by (auto simp: pair_same_def pair_vars_def)
qed

lemma pair_vars_small:
  assumes "wf_status n s" "i < length (st_lookup_order s)" "v \<in> pair_vars s i"
  shows "small_var v" "unat v < n"
proof -
  have ok: "lookup_ok n s (st_lookup_order s ! i)"
    using wf_status_lookup_ok [OF assms(1)] assms(2) by simp
  then show "unat v < n" using assms(3) by (auto simp: lookup_ok_def pair_vars_def lit_in_def)
  moreover have "n < 2 ^ 30" using assms(1) by (simp add: wf_status_def complete_order_def wf_order_def)
  ultimately show "small_var v" by (simp add: small_var_def)
qed

lemma lookup_order_distinct: "wf_status n s \<Longrightarrow> distinct (map variable (st_lookup_order s))"
  by (simp add: wf_status_def complete_order_def wf_order_def distinct_map_filter)

text \<open>
  The code checks that the clause has two literals. This fails exactly when the reason is the
  only variable of the first pair, which a permutation that inverts that variable makes possible.
\<close>

definition lone_inversion :: "status \<Rightarrow> variable \<Rightarrow> bool" where
  "lone_inversion s reason \<longleftrightarrow> st_lookup_index s = 0 \<and> pair_vars s 0 = {reason}"

definition esbp_vars :: "status \<Rightarrow> variable \<Rightarrow> variable set" where
  "esbp_vars s reason = insert reason (\<Union>i \<in> {..st_lookup_index s}. pair_vars s i)"

lemma esbp_vars_two:
  assumes "reducing n tr a s"
  shows "lone_inversion s reason \<longleftrightarrow> esbp_vars s reason = {reason}"
proof
  assume "lone_inversion s reason"
  then show "esbp_vars s reason = {reason}" by (simp add: lone_inversion_def esbp_vars_def)
next
  assume e: "esbp_vars s reason = {reason}"
  have k: "st_lookup_index s < length (st_lookup_order s)" by (rule reducing_index [OF assms])
  have sub: "pair_vars s i = {reason}" if "i \<le> st_lookup_index s" for i
    using e that by (auto simp: esbp_vars_def pair_vars_def)
  have "st_lookup_index s = 0"
  proof (rule ccontr)
    assume "st_lookup_index s \<noteq> 0"
    have pos: "0 < length (st_lookup_order s)" using k by (rule le_less_trans [OF le0])
    have "variable (st_lookup_order s ! 0) = variable (st_lookup_order s ! st_lookup_index s)"
      using sub [of 0] sub [of "st_lookup_index s"] by (auto simp: pair_vars_def)
    then have "map variable (st_lookup_order s) ! 0 =
        map variable (st_lookup_order s) ! st_lookup_index s"
      using k pos by (simp only: nth_map)
    moreover have "distinct (map variable (st_lookup_order s))"
      using assms by (auto simp: reducing_def intro: lookup_order_distinct)
    ultimately have "0 = st_lookup_index s"
      using nth_eq_iff_index_eq [of "map variable (st_lookup_order s)" 0 "st_lookup_index s"] k pos
      by (simp only: length_map)
    with \<open>st_lookup_index s \<noteq> 0\<close> show False by simp
  qed
  with sub show "lone_inversion s reason" by (simp add: lone_inversion_def)
qed

lemma distinct_two:
  assumes "distinct xs" "xs \<noteq> []"
  shows "length xs \<ge> 2 \<longleftrightarrow> \<not> (\<exists>x. set xs = {x})"
proof (cases xs)
  case (Cons x ys)
  then show ?thesis using assms(1) by (cases ys) auto
qed (use assms in simp)

section \<open>The generated ESBP\<close>

lemma swap_first_props:
  assumes "length xs \<ge> 2"
  shows "set (swap_first xs) = set xs" "distinct (swap_first xs) = distinct xs"
    "length (swap_first xs) = length xs"
proof -
  obtain x y zs where "xs = x # y # zs" using assms by (cases xs; cases "tl xs") auto
  then show "set (swap_first xs) = set xs" "distinct (swap_first xs) = distinct xs"
    "length (swap_first xs) = length xs"
    by (auto simp: swap_first_def)
qed

lemma esbp_vars_ok:
  assumes r: "reducing n tr a s" and reason: "unat reason < n" "value_of a reason \<noteq> None"
    and v: "v \<in> esbp_vars s reason"
  shows "small_var v" "unat v < n" "value_of a v \<noteq> None"
proof -
  have wf: "wf_status n s" "n < 2 ^ 30"
    using r by (auto simp: reducing_def wf_assignment_def)
  from v consider "v = reason" | i where "i \<le> st_lookup_index s" "v \<in> pair_vars s i"
    by (auto simp: esbp_vars_def)
  then show "unat v < n"
  proof cases
    case 1
    then show ?thesis using reason by simp
  next
    case (2 i)
    then show ?thesis using pair_vars_small(2) [OF wf(1), of i] reducing_index [OF r] by simp
  qed
  then show "small_var v" using wf(2) by (simp add: small_var_def)
  show "value_of a v \<noteq> None"
    using v reason reducing_assigned [OF r] by (auto simp: esbp_vars_def)
qed

lemma generateESBP_literals:
  assumes r: "reducing n tr a s" and reason: "unat reason < n" "value_of a reason \<noteq> None"
  shows "\<exists>ls. foldR (esbp_pair a s) [0..<Suc (st_lookup_index s)]
      (uset_insert (false_lit (value_of a) reason) []) = Inr ls
    \<and> distinct ls \<and> set ls = false_lit (value_of a) ` esbp_vars s reason"
proof -
  have wf: "wf_status n s" "wf_assignment n a" using r by (simp_all add: reducing_def)
  have k: "Suc (st_lookup_index s) \<le> length (st_lookup_order s)"
    using reducing_index [OF r] by simp
  have assigned: "\<forall>i < Suc (st_lookup_index s). \<forall>v \<in> pair_vars s i. value_of a v \<noteq> None"
    using reducing_assigned [OF r] by (simp add: less_Suc_eq_le)
  have d: "distinct (uset_insert (false_lit (value_of a) reason) [])" by simp
  show ?thesis
    using esbp_pairs_ok [OF wf k assigned d]
    by (simp add: esbp_vars_def lessThan_Suc_atMost image_Un)
qed

lemma false_lit_inject:
  "small_var v \<Longrightarrow> small_var w \<Longrightarrow> false_lit \<sigma> v = false_lit \<sigma> w \<longleftrightarrow> v = w"
  by (metis variable_false_lit)

lemma generateESBP_ok:
  assumes r: "reducing n tr a s" and reason: "unat reason < n" "value_of a reason \<noteq> None"
    and two: "\<not> lone_inversion s reason"
  shows "\<exists>c. generateESBP a s reason ci = CI_addClause ci ESBP reason c
    \<and> distinct c \<and> 2 \<le> length c \<and> set c = false_lit (value_of a) ` esbp_vars s reason"
proof -
  have wf: "wf_assignment n a" "st_state s = REDUCER" using r by (simp_all add: reducing_def)
  have live: "\<not> isLookupEnd s" using reducing_index [OF r] by (simp add: isLookupEnd_def)
  obtain ls where ls: "foldR (esbp_pair a s) [0..<Suc (st_lookup_index s)]
      (uset_insert (false_lit (value_of a) reason) []) = Inr ls" "distinct ls"
      "set ls = false_lit (value_of a) ` esbp_vars s reason"
    using generateESBP_literals [OF r reason] by blast
  have reason_in: "reason \<in> esbp_vars s reason" by (simp add: esbp_vars_def)
  have "length ls \<ge> 2"
  proof -
    have "set ls \<noteq> {x}" for x
    proof
      assume x: "set ls = {x}"
      have "v = reason" if "v \<in> esbp_vars s reason" for v
      proof -
        have "false_lit (value_of a) w \<in> set ls" if "w \<in> esbp_vars s reason" for w
          unfolding ls(3) using that by (rule imageI)
        from this [OF that] this [OF reason_in]
        have "false_lit (value_of a) v = false_lit (value_of a) reason" unfolding x by simp
        then show ?thesis
          using false_lit_inject esbp_vars_ok(1) [OF r reason that]
            esbp_vars_ok(1) [OF r reason reason_in] by blast
      qed
      then show False using two esbp_vars_two [OF r] reason_in by blast
    qed
    moreover have "ls \<noteq> []" using ls(3) reason_in by auto
    ultimately show ?thesis using distinct_two [OF ls(2)] by blast
  qed
  moreover from this have "generateESBP a s reason ci = CI_addClause ci ESBP reason (swap_first ls)"
    using live wf(2) ls(1) getFalse_false_lit [OF wf(1) reason] by (simp add: generateESBP_def)
  ultimately show ?thesis
    using ls swap_first_props [of ls] by (intro exI [of _ "swap_first ls"]) simp
qed

lemma generateESBP_lone:
  assumes r: "reducing n tr a s" and reason: "unat reason < n" "value_of a reason \<noteq> None"
    and lone: "lone_inversion s reason"
  shows "generateESBP a s reason ci = Inl Check_failed"
proof -
  have wf: "wf_assignment n a" "st_state s = REDUCER" using r by (simp_all add: reducing_def)
  have live: "\<not> isLookupEnd s" using reducing_index [OF r] by (simp add: isLookupEnd_def)
  obtain ls where ls: "foldR (esbp_pair a s) [0..<Suc (st_lookup_index s)]
      (uset_insert (false_lit (value_of a) reason) []) = Inr ls" "distinct ls"
      "set ls = false_lit (value_of a) ` esbp_vars s reason"
    using generateESBP_literals [OF r reason] by blast
  have "set ls = {false_lit (value_of a) reason}"
    using ls(3) esbp_vars_two [OF r] lone by simp
  then have "\<not> length ls \<ge> 2" using distinct_two [OF ls(2)] by fastforce
  then show ?thesis
    using live wf(2) ls(1) getFalse_false_lit [OF wf(1) reason] by (simp add: generateESBP_def)
qed

text \<open>Every literal of the clause is false: it is a conflict clause for the solver.\<close>

lemma esbp_conflict:
  assumes "reducing n tr a s" "unat reason < n" "value_of a reason \<noteq> None"
    and "set c = false_lit (value_of a) ` esbp_vars s reason" "l \<in> set c"
  shows "lit_value (value_of a) l = Some False"
  using assms esbp_vars_ok [OF assms(1-3)] false_lit_false by auto

section \<open>An ESBP only excludes assignments with a smaller image\<close>

definition element_first :: "status \<Rightarrow> bool" where
  "element_first s \<longleftrightarrow>
     (let element = st_lookup_order s ! st_lookup_index s
      in rank (o_order (st_order s)) element \<le>
         rank (o_order (st_order s)) (act_inv (st_permutation s) element))"

lemma perm_bwd_status: "wf_status n s \<Longrightarrow> perm_bwd (st_permutation s) = act_inv (st_permutation s)"
  by (simp add: wf_status_def perm_in_def perm_bwd_def)

text \<open>An assignment that falsifies the clause has the values of the trail on its variables.\<close>

lemma falsified_agrees:
  assumes r: "reducing n tr a s"
    and c: "false_lit (value_of a) ` (\<Union>i \<in> {..st_lookup_index s}. pair_vars s i) \<subseteq> set c"
    and f: "\<not> sat_clause \<tau> c" and i: "i \<le> st_lookup_index s" and l: "variable l \<in> pair_vars s i"
  shows "lit_value (value_of a) l = Some (lit_true \<tau> l)"
proof (rule falsified_value)
  show "value_of a (variable l) \<noteq> None" by (rule reducing_assigned [OF r i l])
  have "i < length (st_lookup_order s)" using reducing_index [OF r] i by simp
  then show "small_var (variable l)"
    using r l by (auto simp: reducing_def intro: pair_vars_small)
  have "false_lit (value_of a) (variable l) \<in> set c" using c i l by auto
  then show "\<not> lit_true \<tau> (false_lit (value_of a) (variable l))"
    using f by (auto simp: sat_clause_def)
qed

lemma unmoved_fixed:
  assumes "wf_status n s" "\<not> moves (st_permutation s) (unat (variable l))"
  shows "act_inv (st_permutation s) l = l"
proof -
  have "l \<notin> set (p_cycles (st_permutation s))" using assms(2) by (auto simp: moves_def)
  moreover have "perm_wf (st_permutation s)" using assms(1) by (simp add: wf_status_def perm_in_def)
  ultimately have "p_inverse (st_permutation s) l = None" using perm_inverse_dom by blast
  then show ?thesis by (simp add: act_inv_def)
qed

text \<open>Only the moved literals matter when an assignment is compared with its image.\<close>

lemma lex_less_lookup:
  assumes wf: "wf_status n s"
    and less: "lex_less m (st_lookup_order s) (pa.move (st_permutation s) \<tau>) \<tau>"
  shows "lex_less m (o_order (st_order s)) (pa.move (st_permutation s) \<tau>) \<tau>"
proof -
  let ?p = "st_permutation s"
  have small: "lex_less m (filter (\<lambda>l. moves ?p (unat (variable l))) (o_order (st_order s)))
      (pa.move ?p \<tau>) \<tau>"
    using less wf by (simp add: wf_status_def)
  show ?thesis
  proof (rule lex_less_filter [OF small])
    show "lit_true (pa.move ?p \<tau>) l = lit_true \<tau> l" if "\<not> moves ?p (unat (variable l))" for l
      using unmoved_fixed [OF wf that] by (intro pa.move_fixed) (simp add: perm_bwd_status [OF wf])
  qed
qed

lemma esbp_breaks:
  assumes r: "reducing n tr a s" and first: "element_first s"
    and F: "symmetry_of (st_permutation s) F"
    and c: "false_lit (value_of a) ` (\<Union>i \<in> {..st_lookup_index s}. pair_vars s i) \<subseteq> set c"
  shows "breaks (o_valueMode (st_order s)) (o_order (st_order s)) F c"
  unfolding breaks_def
proof (intro allI impI)
  fix \<tau> assume sat: "sat_all \<tau> F" and f: "\<not> sat_clause \<tau> c"
  let ?p = "st_permutation s" and ?k = "st_lookup_index s" and ?m = "o_valueMode (st_order s)"
  let ?ls = "st_lookup_order s"
  have wf: "wf_status n s" using r by (simp add: reducing_def)
  note k = reducing_index [OF r]
  have v: "lit_value (value_of a) (?ls ! i) = Some (lit_true \<tau> (?ls ! i))"
      "lit_value (value_of a) (act_inv ?p (?ls ! i)) = Some (lit_true \<tau> (act_inv ?p (?ls ! i)))"
    if "i \<le> ?k" for i
    using falsified_agrees [OF r c f that] by (simp_all add: pair_vars_def)
  have eq: "lit_true \<tau> (act_inv ?p (?ls ! i)) = lit_true \<tau> (?ls ! i)" if "i < ?k" for i
    using reducing_agree [OF r that] v [of i] that by (simp add: pair_same_def same_value_def)
  have neq: "lit_true \<tau> (act_inv ?p (?ls ! ?k)) \<noteq> lit_true \<tau> (?ls ! ?k)"
    using r v [of ?k] by (auto simp: reducing_def pair_same_def same_value_def)
  have "state_spec (value_of a) s = REDUCER" using r unfolding reducing_def by blast
  then have "pair_state (minimal_value ?m) (lit_value (value_of a) (?ls ! ?k))
      (lit_value (value_of a) (act_inv ?p (?ls ! ?k))) = REDUCER"
    using first k by (simp add: state_spec_def element_first_def isLookupEnd_def Let_def)
  then have "lit_true \<tau> (?ls ! ?k) = (\<not> minimal_value ?m)"
    using v [of ?k] by (simp add: pair_state_reducer)
  with neq have "less_value ?m (lit_true \<tau> (act_inv ?p (?ls ! ?k))) (lit_true \<tau> (?ls ! ?k))"
    by (auto simp: less_value_minimal)
  then have "lex_less ?m ?ls (pa.move ?p \<tau>) \<tau>"
    using k eq by (intro pa.move_smaller [where k = ?k]) (simp_all add: perm_bwd_status [OF wf])
  then have "lex_less ?m (o_order (st_order s)) (pa.move ?p \<tau>) \<tau>"
    by (rule lex_less_lookup [OF wf])
  moreover have "sat_all (pa.move ?p \<tau>) F" using symmetry_moves_models [OF F sat] .
  ultimately show "\<exists>\<tau>'. sat_all \<tau>' F \<and> lex_less ?m (o_order (st_order s)) \<tau>' \<tau>" by blast
qed

section \<open>Involutions\<close>

text \<open>
  For a permutation that is its own inverse the element of a reducing pair always comes first
  in the order, so its ESBPs are justified. For longer cycles this can fail.
\<close>

definition involution :: "permutation \<Rightarrow> bool" where
  "involution p \<longleftrightarrow> (\<forall>l \<in> set (p_cycles p). p_inverse p l = p_image p l)"

lemma involution_act_inv:
  assumes "perm_wf p" "involution p"
  shows "act_inv p (act_inv p l) = l"
proof -
  have "p_inverse p l = p_image p l"
  proof (cases "l \<in> set (p_cycles p)")
    case False
    then show ?thesis
      using perm_image_dom [OF assms(1), of l] perm_inverse_dom [OF assms(1), of l] by simp
  qed (use assms(2) in \<open>simp add: involution_def\<close>)
  then have "act_inv p l = act p l" by (simp add: act_def act_inv_def)
  then show ?thesis using act_inv_act [OF assms(1)] by simp
qed

lemma filter_before:
  assumes "distinct (map variable ls)" "k < length (filter P ls)" "i < length ls" "P (ls ! i)"
    and "i < rank ls (filter P ls ! k)"
  shows "\<exists>j < k. filter P ls ! j = ls ! i"
  using assms
proof (induction ls arbitrary: i k)
  case Nil
  then show ?case by simp
next
  case (Cons m ls)
  have tail: "rank (m # ls) x = Suc (rank ls x)" if "x \<in> set ls" for x
    using that Cons.prems(1) by (auto simp: rank_Cons)
  have mem: "filter P ls ! q \<in> set ls" if "q < length (filter P ls)" for q
    using nth_mem [OF that] by simp
  show ?case
  proof (cases "P m")
    case True
    show ?thesis
    proof (cases k)
      case 0
      then show ?thesis using True Cons.prems by (simp add: rank_Cons)
    next
      case (Suc k')
      show ?thesis
      proof (cases i)
        case 0
        then show ?thesis using True Suc by (intro exI [of _ 0]) simp
      next
        case (Suc i')
        have k': "k' < length (filter P ls)" using Cons.prems(2) True \<open>k = Suc k'\<close> by simp
        have "\<exists>j < k'. filter P ls ! j = ls ! i'"
          using Cons.prems True Suc \<open>k = Suc k'\<close> tail [OF mem [OF k']] k'
          by (intro Cons.IH) simp_all
        then show ?thesis using True Suc \<open>k = Suc k'\<close> by (auto intro: exI [of _ "Suc _"])
      qed
    qed
  next
    case False
    then obtain i' where i: "i = Suc i'" using Cons.prems(4) by (cases i) simp_all
    have k: "k < length (filter P ls)" using Cons.prems(2) False by simp
    have "\<exists>j < k. filter P ls ! j = ls ! i'"
      using Cons.prems False i tail [OF mem [OF k]] k by (intro Cons.IH) simp_all
    then show ?thesis using False i by simp
  qed
qed

text \<open>A moved literal that comes before the current element has been looked up.\<close>

lemma looked_up_before:
  assumes wf: "wf_status n s" and k: "k < length (st_lookup_order s)"
    and l: "moves (st_permutation s) (unat (variable l))" "listed (o_order (st_order s)) l"
    and before: "rank (o_order (st_order s)) l < rank (o_order (st_order s)) (st_lookup_order s ! k)"
  shows "\<exists>j < k. variable (st_lookup_order s ! j) = variable l"
proof -
  let ?ls = "o_order (st_order s)"
  let ?P = "\<lambda>l. moves (st_permutation s) (unat (variable l))"
  have f: "st_lookup_order s = filter ?P ?ls" using wf by (simp add: wf_status_def)
  have "distinct (map variable ?ls)"
    using wf by (simp add: wf_status_def complete_order_def wf_order_def)
  moreover have "?P (?ls ! rank ?ls l)" using l rank_nth [OF l(2)] by simp
  ultimately have "\<exists>j < k. filter ?P ?ls ! j = ?ls ! rank ?ls l"
    using k before rank_less [OF l(2)] unfolding f by (intro filter_before)
  then show ?thesis using rank_nth [OF l(2)] f by auto
qed

lemma same_value_sym: "same_value \<sigma> x y \<longleftrightarrow> same_value \<sigma> y x"
  unfolding same_value_def by metis

lemma same_value_negated [simp]: "same_value \<sigma> (negated x) (negated y) \<longleftrightarrow> same_value \<sigma> x y"
  by (cases "\<sigma> (variable x)"; cases "\<sigma> (variable y)") (auto simp: same_value_def lit_value_def)

lemma act_inv_negated: "perm_wf p \<Longrightarrow> signed_perm p \<Longrightarrow> act_inv p (negated l) = negated (act_inv p l)"
  using pa.bwd_negated [of p l] by (simp add: perm_bwd_def)

lemma involution_first:
  assumes r: "reducing n tr a s" and i: "involution (st_permutation s)"
  shows "element_first s"
proof (rule ccontr)
  let ?p = "st_permutation s" and ?k = "st_lookup_index s"
  let ?e = "st_lookup_order s ! ?k"
  let ?i = "act_inv ?p ?e"
  have wf: "wf_status n s" using r by (simp add: reducing_def)
  then have p: "perm_in n ?p" "signed_perm ?p" "perm_wf ?p"
    by (simp_all add: wf_status_def perm_in_def)
  note k = reducing_index [OF r]
  have "?e \<in> set (st_lookup_order s)" using k by simp
  then have e: "lookup_ok n s ?e" "moves ?p (unat (variable ?e))"
    using wf_status_lookup_ok [OF wf] wf by (auto simp: wf_status_def)
  assume "\<not> element_first s"
  then have before: "rank (o_order (st_order s)) ?i < rank (o_order (st_order s)) ?e"
    by (simp add: element_first_def Let_def)
  obtain j where j: "j < ?k" "variable (st_lookup_order s ! j) = variable ?i"
    using looked_up_before [OF wf k moved_inverse(5) [OF p(1,2) e(2)] _ before] e(1)
    by (auto simp: lookup_ok_def)
  have "pair_same (value_of a) s j" by (rule reducing_agree [OF r j(1)])
  moreover have "act_inv ?p ?i = ?e" by (rule involution_act_inv [OF p(3) i])
  ultimately have "same_value (value_of a) ?i ?e"
    using j(2) same_variable [of "st_lookup_order s ! j" ?i] act_inv_negated [OF p(3,2), of ?i]
    by (auto simp: pair_same_def)
  then have "pair_same (value_of a) s ?k" by (simp add: pair_same_def same_value_sym)
  then show False using r unfolding reducing_def by blast
qed

section \<open>Units\<close>

text \<open>The first literal of the order that the permutation moves, when it is inverted.\<close>

definition inverted_first :: "status \<Rightarrow> literal \<Rightarrow> bool" where
  "inverted_first s e \<longleftrightarrow> st_lookup_order s \<noteq> [] \<and> e = hd (st_lookup_order s)
     \<and> act_inv (st_permutation s) e = negated e"

definition minimal_unit :: "ValueMode \<Rightarrow> literal \<Rightarrow> literal" where
  "minimal_unit m e = Literal_var (variable e) (minimal_value m)"

lemma lookup_positive: "wf_status n s \<Longrightarrow> l \<in> set (st_lookup_order s) \<Longrightarrow> isPositive l"
  by (auto simp: wf_status_def complete_order_def wf_order_def)

lemma generateUnit_ok:
  assumes wf: "wf_status n s" and start: "st_lookup_index s = 0"
  shows "generateUnitClauseOnInverting s ci =
    (if \<exists>e. inverted_first s e
     then CI_addClause ci UNITS kNoBooleanVariable
       [minimal_unit (o_valueMode (st_order s)) (hd (st_lookup_order s))]
     else Inr ci)"
proof (cases "st_lookup_order s")
  case Nil
  then show ?thesis
    using start by (simp add: generateUnitClauseOnInverting_def isLookupEnd_def inverted_first_def)
next
  case (Cons e ls)
  then have "lookup_ok n s e" using wf_status_lookup_ok [OF wf] by simp
  then have "inverseOf (st_permutation s) e = Inr (act_inv (st_permutation s) e)"
    by (simp add: lookup_ok_def)
  moreover have "e = negated (act_inv (st_permutation s) e) \<longleftrightarrow>
      act_inv (st_permutation s) e = negated e"
    by (metis negated_negated)
  ultimately show ?thesis
    using start Cons
    by (simp add: generateUnitClauseOnInverting_def isLookupEnd_def inverted_first_def
        minimal_unit_def minimal_value_def)
qed

lemma unit_breaks:
  assumes wf: "wf_status n s" and e: "inverted_first s e"
    and F: "symmetry_of (st_permutation s) F"
  shows "breaks (o_valueMode (st_order s)) (o_order (st_order s)) F
    [minimal_unit (o_valueMode (st_order s)) e]"
  unfolding breaks_def
proof (intro allI impI)
  fix \<tau>
  let ?m = "o_valueMode (st_order s)" and ?p = "st_permutation s" and ?ls = "st_lookup_order s"
  assume sat: "sat_all \<tau> F" and f: "\<not> sat_clause \<tau> [minimal_unit ?m e]"
  have hd: "0 < length ?ls" "?ls ! 0 = e" "act_inv ?p e = negated e"
    using e by (auto simp: inverted_first_def hd_conv_nth)
  then have "e \<in> set ?ls" by (metis nth_mem)
  then have "isPositive e" "lookup_ok n s e"
    using lookup_positive [OF wf] wf_status_lookup_ok [OF wf] by auto
  moreover have "small_var (variable e)"
    using pair_vars_small(1) [OF wf hd(1), of "variable e"] hd(2) by (simp add: pair_vars_def)
  ultimately have "lit_true \<tau> e = (\<not> minimal_value ?m)"
    using f by (auto simp: sat_clause_def minimal_unit_def lit_true_def)
  then have "less_value ?m (lit_true \<tau> (act_inv ?p (?ls ! 0))) (lit_true \<tau> (?ls ! 0))"
    using hd by (simp add: less_value_minimal)
  then have "lex_less ?m ?ls (pa.move ?p \<tau>) \<tau>"
    using hd(1) by (intro pa.move_smaller [where k = 0]) (simp_all add: perm_bwd_status [OF wf])
  then show "\<exists>\<tau>'. sat_all \<tau>' F \<and> lex_less ?m (o_order (st_order s)) \<tau>' \<tau>"
    using lex_less_lookup [OF wf] symmetry_moves_models [OF F sat] by blast
qed

lemma esbp_false_reason:
  assumes "reducing n tr a s" "unat reason < n" "value_of a reason \<noteq> None"
    and "set c = false_lit (value_of a) ` esbp_vars s reason"
  shows "reason \<in> variable ` set c \<and> (\<forall>k \<in> set c. lit_value (value_of a) k = Some False)"
proof -
  have "reason \<in> esbp_vars s reason" by (simp add: esbp_vars_def)
  moreover from esbp_vars_ok(1) [OF assms(1-3) this]
  have "variable (false_lit (value_of a) reason) = reason" by simp
  ultimately have "reason \<in> variable ` set c" unfolding assms(4) by (metis image_eqI)
  with esbp_conflict [OF assms] show ?thesis by blast
qed

end
