(* ===== verification/Managers.thy ===== *)
theory Managers
  imports Breaking_Clauses
begin

text \<open>
  The class \<open>CosyManager\<close> of \<open>include/cosy/CosyManager.h\<close> and \<open>src/CosyManager.cc\<close>: one status
  per generator of the group, the dispatch of assignments and cancellations to the statuses that
  watch the variable, and the generation of clauses. The group and the assignment belong to the
  controller and are arguments; \<open>ord\<close> is the iteration order of the watcher sets.
\<close>

section \<open>State and operations\<close>

record manager =
  m_order :: "order option"
  m_statuses :: "status list"

definition FLAGS_esbp :: bool where
  "FLAGS_esbp = True"

definition FLAGS_esbp_forcing :: bool where
  "FLAGS_esbp_forcing = False"

definition CosyManager_new :: manager where
  "CosyManager_new = \<lparr>m_order = None, m_statuses = []\<rparr>"

definition add_lookup :: "literal \<Rightarrow> nat \<Rightarrow> status list \<Rightarrow> status list result" where
  "add_lookup l i sts =
     andThen (vec_at sts i) (\<lambda>s. vec_put sts i (addLookupLiteral s l))"

definition defineOrder ::
    "(nat list \<Rightarrow> nat list) \<Rightarrow> group \<Rightarrow> manager \<Rightarrow> order \<Rightarrow> manager result" where
  "defineOrder ord g m o' =
     (let sts = m_statuses m @ map (\<lambda>p. CosyStatus_new p o') (g_permutations g) in
      andThen (foldR (\<lambda>l sts. andThen (watch ord g (variable l)) (\<lambda>is.
                 foldR (add_lookup l) is sts)) (o_order o') sts)
        (\<lambda>sts'. Inr (m\<lparr>m_order := Some o', m_statuses := sts'\<rparr>)))"

definition generateUnits :: "manager \<Rightarrow> clause_injector \<Rightarrow> clause_injector result" where
  "generateUnits m ci = foldR generateUnitClauseOnInverting (m_statuses m) ci"

fun notify_watchers ::
    "assignment \<Rightarrow> literal \<Rightarrow> nat list \<Rightarrow> status list \<Rightarrow> clause_injector
      \<Rightarrow> (status list \<times> clause_injector) result" where
  "notify_watchers a l [] sts ci = Inr (sts, ci)"
| "notify_watchers a l (i # rest) sts ci =
     andThen (vec_at sts i) (\<lambda>s.
     andThen (status_updateNotify a s l) (\<lambda>s'.
     andThen (vec_put sts i s') (\<lambda>sts'.
       if FLAGS_esbp \<and> st_state s' = REDUCER
       then andThen (generateESBP a s' (variable l) ci) (\<lambda>ci'. Inr (sts', ci'))
       else if FLAGS_esbp_forcing \<and> st_state s' = FORCE_LEX_LEADER
       then andThen (generateForceLexLeaderESBP a s' (variable l) ci)
              (notify_watchers a l rest sts')
       else notify_watchers a l rest sts' ci)))"

definition manager_updateNotify ::
    "(nat list \<Rightarrow> nat list) \<Rightarrow> group \<Rightarrow> assignment \<Rightarrow> manager \<Rightarrow> literal \<Rightarrow> clause_injector
      \<Rightarrow> (manager \<times> clause_injector) result" where
  "manager_updateNotify ord g a m l ci =
     andThen (watch ord g (variable l)) (\<lambda>is.
     andThen (notify_watchers a l is (m_statuses m) ci) (\<lambda>(sts, ci').
       Inr (m\<lparr>m_statuses := sts\<rparr>, ci')))"

definition cancel_watcher :: "literal \<Rightarrow> nat \<Rightarrow> status list \<Rightarrow> status list result" where
  "cancel_watcher l i sts =
     andThen (vec_at sts i) (\<lambda>s. vec_put sts i (status_updateCancel s l))"

definition manager_updateCancel ::
    "(nat list \<Rightarrow> nat list) \<Rightarrow> group \<Rightarrow> manager \<Rightarrow> literal \<Rightarrow> manager result" where
  "manager_updateCancel ord g m l =
     andThen (watch ord g (variable l)) (\<lambda>is.
     andThen (foldR (cancel_watcher l) is (m_statuses m)) (\<lambda>sts.
       Inr (m\<lparr>m_statuses := sts\<rparr>)))"

section \<open>Well-formed managers\<close>

definition wf_statuses :: "nat \<Rightarrow> group \<Rightarrow> order \<Rightarrow> status list \<Rightarrow> bool" where
  "wf_statuses n g o' sts \<longleftrightarrow>
     map st_permutation sts = g_permutations g
     \<and> (\<forall>s \<in> set sts. wf_status n s \<and> st_order s = o')"

definition wf_manager :: "nat \<Rightarrow> group \<Rightarrow> order \<Rightarrow> manager \<Rightarrow> bool" where
  "wf_manager n g o' m \<longleftrightarrow>
     m_order m = Some o' \<and> wf_statuses n g o' (m_statuses m)"

definition manager_inv :: "literal list \<Rightarrow> manager \<Rightarrow> bool" where
  "manager_inv tr m \<longleftrightarrow> (\<forall>s \<in> set (m_statuses m). status_inv tr s)"

text \<open>Updating the statuses at distinct positions, one after the other.\<close>

lemma update_each_ok:
  assumes step: "\<And>i sts. f i sts = andThen (vec_at sts i) (\<lambda>s. vec_put sts i (h s))"
    and "distinct is" "\<forall>i \<in> set is. i < length sts"
  shows "\<exists>sts'. foldR f is sts = Inr sts' \<and> length sts' = length sts
    \<and> (\<forall>i < length sts. sts' ! i = (if i \<in> set is then h (sts ! i) else sts ! i))"
  using assms(2,3)
proof (induction "is" arbitrary: sts)
  case Nil
  then show ?case by simp
next
  case (Cons i "is")
  let ?sts = "sts[i := h (sts ! i)]"
  have f: "f i sts = Inr ?sts" using Cons.prems by (simp add: step)
  have "distinct is" "\<forall>j \<in> set is. j < length ?sts" using Cons.prems by simp_all
  from Cons.IH [OF this] obtain sts' where "foldR f is ?sts = Inr sts'"
      "length sts' = length sts"
      "\<forall>j < length sts. sts' ! j = (if j \<in> set is then h (?sts ! j) else ?sts ! j)"
    by auto
  with f Cons.prems(1) show ?case
    by (auto simp: nth_list_update) (metis nth_list_update_neq)
qed

lemma status_inv_append: "status_inv tr s \<Longrightarrow> status_inv (tr @ post) s"
  by (simp add: status_inv_def stk_append)

section \<open>Defining the order\<close>

lemma map_st_permutation_update:
  "i < length sts \<Longrightarrow> st_permutation s = st_permutation (sts ! i) \<Longrightarrow>
    map st_permutation (sts[i := s]) = map st_permutation sts"
  by (simp add: map_update list_update_same_conv)

text \<open>The status of the generator \<open>p\<close> when the first literals \<open>ls\<close> of the order are entered.\<close>

definition entered :: "permutation \<Rightarrow> order \<Rightarrow> literal list \<Rightarrow> status" where
  "entered p o' ls = (CosyStatus_new p o')
     \<lparr>st_lookup_order := filter (\<lambda>l. moves p (unat (variable l))) ls\<rparr>"

lemma entered_snoc:
  "entered p o' (ls @ [l]) =
    (if moves p (unat (variable l)) then addLookupLiteral (entered p o' ls) l else entered p o' ls)"
  by (simp add: entered_def addLookupLiteral_def)

lemma defineOrder_ok:
  assumes g: "wf_group n g" "g_permutations g \<noteq> []" and ord: "iterates ord"
    and o': "complete_order n o'"
  shows "\<exists>m. defineOrder ord g CosyManager_new o' = Inr m \<and> wf_manager n g o' m
    \<and> manager_inv [] m
    \<and> m_statuses m = map (\<lambda>p. entered p o' (o_order o')) (g_permutations g)"
proof -
  let ?ps = "g_permutations g"
  let ?step = "\<lambda>l sts. andThen (watch ord g (variable l)) (\<lambda>is. foldR (add_lookup l) is sts)"
  have "\<exists>sts. foldR ?step (o_order o') (map (\<lambda>p. CosyStatus_new p o') ?ps) = Inr sts
      \<and> sts = map (\<lambda>p. entered p o' (o_order o')) ?ps"
  proof (rule foldR_total [where P = "\<lambda>pre sts. sts = map (\<lambda>p. entered p o' pre) ?ps"])
    show "map (\<lambda>p. CosyStatus_new p o') ?ps = map (\<lambda>p. entered p o' []) ?ps"
      by (simp add: entered_def CosyStatus_new_def)
  next
    fix pre l post sts
    assume e: "o_order o' = pre @ l # post" and sts: "sts = map (\<lambda>p. entered p o' pre) ?ps"
    have "lit_in n l" using o' e by (simp add: complete_order_def wf_order_def)
    then obtain "is" where is': "watch ord g (variable l) = Inr is" "distinct is"
        "set is = {i. i < length ?ps \<and> moves (?ps ! i) (unat (variable l))}"
      using watch_ok [OF g(1) ord g(2), of "variable l"] by (auto simp: lit_in_def)
    have in_range: "\<forall>i \<in> set is. i < length sts" using is'(3) sts by simp
    obtain sts' where sts': "foldR (add_lookup l) is sts = Inr sts'" "length sts' = length sts"
        "\<forall>i < length sts. sts' ! i =
          (if i \<in> set is then addLookupLiteral (sts ! i) l else sts ! i)"
      using update_each_ok [of "add_lookup l" "\<lambda>s. addLookupLiteral s l", OF add_lookup_def
          is'(2) in_range] by blast
    have "sts' = map (\<lambda>p. entered p o' (pre @ [l])) ?ps"
      using sts' is'(3) sts by (intro nth_equalityI) (auto simp: entered_snoc)
    with sts'(1) is'(1) show "\<exists>s'. ?step l sts = Inr s' \<and> s' = map (\<lambda>p. entered p o' (pre @ [l])) ?ps"
      by simp
  qed
  then have "defineOrder ord g CosyManager_new o' =
      Inr \<lparr>m_order = Some o', m_statuses = map (\<lambda>p. entered p o' (o_order o')) ?ps\<rparr>"
    by (simp add: defineOrder_def CosyManager_new_def)
  moreover have "wf_statuses n g o' (map (\<lambda>p. entered p o' (o_order o')) ?ps)"
    using g(1) o'
    by (auto simp: wf_statuses_def wf_status_def wf_group_def entered_def CosyStatus_new_def
        intro!: map_idI)
  ultimately show ?thesis
    by (auto simp: wf_manager_def manager_inv_def status_inv_def entered_def CosyStatus_new_def)
qed

section \<open>Cancelling\<close>

lemma wf_statuses_D:
  "wf_statuses n g o' sts \<Longrightarrow> length sts = length (g_permutations g)"
  "wf_statuses n g o' sts \<Longrightarrow> s \<in> set sts \<Longrightarrow> wf_status n s"
  "wf_statuses n g o' sts \<Longrightarrow> s \<in> set sts \<Longrightarrow> st_order s = o'"
  by (auto simp: wf_statuses_def dest: arg_cong [of _ _ length])

lemma wf_statuses_update:
  assumes "wf_statuses n g o' sts" "i < length sts" "wf_status n s"
    and "st_permutation s = st_permutation (sts ! i)" "st_order s = o'"
  shows "wf_statuses n g o' (sts[i := s])"
  using assms
  by (auto simp: wf_statuses_def map_st_permutation_update dest!: subsetD [OF set_update_subset_insert])

lemma status_updateCancel_wf: "wf_status n s \<Longrightarrow> wf_status n (status_updateCancel s l)"
  by (simp add: wf_status_def)

text \<open>Cancelling the newest literal takes every status back to the shorter trail.\<close>

lemma manager_updateCancel_ok:
  assumes g: "wf_group n g" "g_permutations g \<noteq> []" and ord: "iterates ord"
    and m: "wf_manager n g o' m" "manager_inv (tr @ [l]) m" and tr: "trail_ok n (tr @ [l])"
  shows "\<exists>m'. manager_updateCancel ord g m l = Inr m' \<and> wf_manager n g o' m' \<and> manager_inv tr m'"
proof -
  let ?sts = "m_statuses m"
  have sts: "wf_statuses n g o' ?sts" using m(1) by (simp add: wf_manager_def)
  have v: "unat (variable l) < n" using tr by (simp add: trail_ok_def lit_in_def)
  obtain "is" where is': "watch ord g (variable l) = Inr is" "distinct is"
      "set is = {i. i < length (g_permutations g) \<and> moves (g_permutations g ! i) (unat (variable l))}"
    using watch_ok [OF g(1) ord g(2) v] by blast
  have in_range: "\<forall>i \<in> set is. i < length ?sts" using is'(3) wf_statuses_D(1) [OF sts] by simp
  obtain sts' where sts': "foldR (cancel_watcher l) is ?sts = Inr sts'" "length sts' = length ?sts"
      "\<forall>i < length ?sts. sts' ! i =
        (if i \<in> set is then status_updateCancel (?sts ! i) l else ?sts ! i)"
    using update_each_ok [of "cancel_watcher l" "\<lambda>s. status_updateCancel s l", OF cancel_watcher_def
        is'(2) in_range] by blast
  have perm: "st_permutation (?sts ! i) = g_permutations g ! i" if "i < length ?sts" for i
    using sts that by (metis nth_map wf_statuses_def)
  have each: "wf_status n (sts' ! i) \<and> st_order (sts' ! i) = o' \<and> status_inv tr (sts' ! i)
      \<and> st_permutation (sts' ! i) = st_permutation (?sts ! i)" if "i < length ?sts" for i
  proof -
    have s: "?sts ! i \<in> set ?sts" using that by simp
    note wf = wf_statuses_D(2,3) [OF sts s]
    show ?thesis
    proof (cases "i \<in> set is")
      case True
      then show ?thesis
        using sts'(3) that wf s m(2) tr
        by (simp add: status_updateCancel_wf status_updateCancel_inv manager_inv_def)
    next
      case False
      then have still: "\<not> moves (st_permutation (?sts ! i)) (unat (variable l))"
        using is'(3) that perm [OF that] wf_statuses_D(1) [OF sts] by simp
      have "status_inv (tr @ [l]) (?sts ! i)" using m(2) s by (simp add: manager_inv_def)
      from this still have "status_inv tr (?sts ! i)" by (rule status_inv_unmoved)
      then show ?thesis using False sts'(3) that wf by simp
    qed
  qed
  have "map st_permutation sts' = map st_permutation ?sts"
    using sts'(2) each by (intro nth_equalityI) simp_all
  then have "wf_statuses n g o' sts'"
    using sts sts'(2) each unfolding wf_statuses_def by (metis in_set_conv_nth)
  moreover have "\<forall>s \<in> set sts'. status_inv tr s"
    using sts'(2) each by (metis in_set_conv_nth)
  ultimately show ?thesis
    using is'(1) sts'(1) m(1)
    by (simp add: manager_updateCancel_def wf_manager_def manager_inv_def)
qed

section \<open>Notifying\<close>

text \<open>
  The units of the inverting generators hold as far as the assignment decides them. With this,
  the check of \<open>generateESBP\<close> cannot fail.
\<close>

definition unit_respected :: "valuation \<Rightarrow> status \<Rightarrow> bool" where
  "unit_respected \<sigma> s \<longleftrightarrow> (\<forall>e. inverted_first s e \<longrightarrow>
     lit_value \<sigma> e \<noteq> Some (\<not> minimal_value (o_valueMode (st_order s))))"

lemma unit_respected_no_lone:
  assumes r: "reducing n tr a s" and u: "unit_respected (value_of a) s"
  shows "\<not> lone_inversion s reason"
proof
  assume lone: "lone_inversion s reason"
  let ?e = "st_lookup_order s ! 0"
  have k: "st_lookup_index s = 0" "0 < length (st_lookup_order s)"
    using lone reducing_index [OF r] by (simp_all add: lone_inversion_def)
  have "lookup_ok n s ?e"
    using r k by (auto simp: reducing_def intro: wf_status_lookup_ok)
  then have neg: "act_inv (st_permutation s) ?e = negated ?e"
    using lone same_variable [of "act_inv (st_permutation s) ?e" ?e]
    by (auto simp: lone_inversion_def pair_vars_def lookup_ok_def)
  then have inv: "inverted_first s ?e" using k by (auto simp: inverted_first_def hd_conv_nth)
  have "state_spec (value_of a) s = REDUCER" using r unfolding reducing_def by blast
  then have "lit_value (value_of a) ?e = Some (\<not> minimal_value (o_valueMode (st_order s)))"
    using k neg by (simp add: state_spec_def isLookupEnd_def Let_def pair_state_reducer)
  then show False using u inv by (auto simp: unit_respected_def)
qed

text \<open>\<open>esbp_for n tr a s v c\<close>: the clause \<open>c\<close> is the ESBP of the reducing status \<open>s\<close>.\<close>

definition esbp_for :: "nat \<Rightarrow> literal list \<Rightarrow> assignment \<Rightarrow> status \<Rightarrow> variable \<Rightarrow> clause \<Rightarrow> bool" where
  "esbp_for n tr a s v c \<longleftrightarrow> reducing n tr a s \<and> distinct c \<and> 2 \<le> length c
     \<and> set c = false_lit (value_of a) ` esbp_vars s v"

text \<open>The possible outcomes for the injector: nothing, or one ESBP of one of the statuses.\<close>

definition notified ::
    "nat \<Rightarrow> literal list \<Rightarrow> assignment \<Rightarrow> literal \<Rightarrow> status list \<Rightarrow> clause_injector
      \<Rightarrow> clause_injector \<Rightarrow> bool" where
  "notified n tr a l sts ci ci' \<longleftrightarrow>
     (ci' = ci \<or> (\<exists>s \<in> set sts. \<exists>c. esbp_for n tr a s (variable l) c
        \<and> CI_addClause ci ESBP (variable l) c = Inr ci'))"

lemma inverted_first_wf:
  assumes "wf_status n s" "wf_status n s'" "st_permutation s' = st_permutation s" "st_order s' = st_order s"
  shows "st_lookup_order s' = st_lookup_order s" "unit_respected \<sigma> s' \<longleftrightarrow> unit_respected \<sigma> s"
  using assms by (simp_all add: wf_status_def unit_respected_def inverted_first_def)

lemma notify_watchers_ok:
  assumes a: "wf_assignment n a" "value_of a = trail_val (tr @ [l])" and tr: "trail_ok n (tr @ [l])"
    and ci: "wf_injector ci" and d: "distinct is" "\<forall>i \<in> set is. i < length sts"
    and sts: "wf_statuses n g o' sts" "\<forall>s \<in> set sts. status_inv (tr @ [l]) s"
    and watchers: "\<forall>i \<in> set is. status_inv tr (sts ! i) \<and> unit_respected (value_of a) (sts ! i)
      \<and> moves (st_permutation (sts ! i)) (unat (variable l))"
  shows "\<exists>sts' ci'. notify_watchers a l is sts ci = Inr (sts', ci') \<and> wf_statuses n g o' sts'
    \<and> (\<forall>s \<in> set sts'. status_inv (tr @ [l]) s) \<and> notified n (tr @ [l]) a l sts' ci ci'"
  using d sts watchers
proof (induction "is" arbitrary: sts)
  case Nil
  then show ?case by (auto simp: notified_def)
next
  case (Cons i "is")
  let ?s = "sts ! i"
  have i: "i < length sts" "?s \<in> set sts" using Cons.prems(2) by simp_all
  note wf = wf_statuses_D(2,3) [OF Cons.prems(3) i(2)]
  obtain s' where s': "status_updateNotify a ?s l = Inr s'" "wf_status n s'"
      "status_inv (tr @ [l]) s'" "st_permutation s' = st_permutation ?s" "st_order s' = st_order ?s"
      "st_state s' = state_spec (value_of a) s'"
      "\<not> isLookupEnd s' \<longrightarrow> \<not> pair_same (value_of a) s' (st_lookup_index s')"
    using status_updateNotify_ok [OF wf(1) a tr] Cons.prems(5) by auto
  let ?sts = "sts[i := s']"
  have wf': "wf_statuses n g o' ?sts"
    using wf_statuses_update [OF Cons.prems(3) i(1) s'(2,4)] s'(5) wf(2) by simp
  have inv': "\<forall>s \<in> set ?sts. status_inv (tr @ [l]) s"
    using Cons.prems(4) s'(3) by (auto dest!: subsetD [OF set_update_subset_insert])
  show ?case
  proof (cases "st_state s' = REDUCER")
    case True
    then have live: "\<not> isLookupEnd s'" using s'(6) by (auto simp: state_spec_def)
    have r: "reducing n (tr @ [l]) a s'"
      unfolding reducing_def using s' a tr True live by metis
    have "unit_respected (value_of a) s'"
      using inverted_first_wf(2) [OF wf(1) s'(2,4,5)] Cons.prems(5) by simp
    then have two: "\<not> lone_inversion s' (variable l)" by (rule unit_respected_no_lone [OF r])
    have v: "unat (variable l) < n" "value_of a (variable l) \<noteq> None"
      using tr a(2) by (simp_all add: trail_ok_def lit_in_def)
    obtain c where c: "generateESBP a s' (variable l) ci = CI_addClause ci ESBP (variable l) c"
        "esbp_for n (tr @ [l]) a s' (variable l) c"
      using generateESBP_ok [OF r v two] r unfolding esbp_for_def by blast
    obtain ci' where ci': "CI_addClause ci ESBP (variable l) c = Inr ci'"
      using CI_addClause_ok [OF ci, of ESBP "variable l" c] by auto
    have "notify_watchers a l (i # is) sts ci = Inr (?sts, ci')"
      using i s'(1) True c(1) ci' by (simp add: FLAGS_esbp_def)
    moreover have "s' \<in> set ?sts" using i(1) by (rule set_update_memI)
    then have "notified n (tr @ [l]) a l ?sts ci ci'"
      using c(2) ci' unfolding notified_def by blast
    ultimately show ?thesis using wf' inv' by blast
  next
    case False
    then have "notify_watchers a l (i # is) sts ci = notify_watchers a l is ?sts ci"
      using i s'(1) by (simp add: FLAGS_esbp_forcing_def)
    moreover have "distinct is" "\<forall>j \<in> set is. j < length ?sts" using Cons.prems(1,2) by simp_all
    moreover have "\<forall>j \<in> set is. status_inv tr (?sts ! j) \<and> unit_respected (value_of a) (?sts ! j)
        \<and> moves (st_permutation (?sts ! j)) (unat (variable l))"
      using Cons.prems(1,5) by (metis distinct.simps(2) list.set_intros(2) nth_list_update_neq)
    ultimately show ?thesis using Cons.IH [OF _ _ wf' inv'] by simp
  qed
qed

lemma manager_updateNotify_ok:
  assumes g: "wf_group n g" "g_permutations g \<noteq> []" and ord: "iterates ord"
    and m: "wf_manager n g o' m" "manager_inv tr m"
    and a: "wf_assignment n a" "value_of a = trail_val (tr @ [l])" and tr: "trail_ok n (tr @ [l])"
    and ci: "wf_injector ci" and units: "\<forall>s \<in> set (m_statuses m). unit_respected (value_of a) s"
  shows "\<exists>m' ci'. manager_updateNotify ord g a m l ci = Inr (m', ci') \<and> wf_manager n g o' m'
    \<and> manager_inv (tr @ [l]) m' \<and> notified n (tr @ [l]) a l (m_statuses m') ci ci'"
proof -
  let ?sts = "m_statuses m"
  have sts: "wf_statuses n g o' ?sts" using m(1) by (simp add: wf_manager_def)
  have v: "unat (variable l) < n" using tr by (simp add: trail_ok_def lit_in_def)
  obtain "is" where is': "watch ord g (variable l) = Inr is" "distinct is"
      "set is = {i. i < length (g_permutations g) \<and> moves (g_permutations g ! i) (unat (variable l))}"
    using watch_ok [OF g(1) ord g(2) v] by blast
  have len: "length ?sts = length (g_permutations g)" by (rule wf_statuses_D(1) [OF sts])
  have perm: "st_permutation (?sts ! i) = g_permutations g ! i" if "i < length ?sts" for i
    using sts that by (metis nth_map wf_statuses_def)
  have in_range: "\<forall>i \<in> set is. i < length ?sts" using is'(3) len by simp
  have inv: "\<forall>s \<in> set ?sts. status_inv (tr @ [l]) s"
    using m(2) by (simp add: manager_inv_def status_inv_append)
  have watchers: "\<forall>i \<in> set is. status_inv tr (?sts ! i) \<and> unit_respected (value_of a) (?sts ! i)
      \<and> moves (st_permutation (?sts ! i)) (unat (variable l))"
    using m(2) units is'(3) perm len by (auto simp: manager_inv_def)
  obtain sts' ci' where n': "notify_watchers a l is ?sts ci = Inr (sts', ci')"
      "wf_statuses n g o' sts'" "\<forall>s \<in> set sts'. status_inv (tr @ [l]) s"
      "notified n (tr @ [l]) a l sts' ci ci'"
    using notify_watchers_ok [OF a tr ci is'(2) in_range sts inv watchers] by blast
  then show ?thesis
    using is'(1) m(1)
    by (intro exI [of _ "m\<lparr>m_statuses := sts'\<rparr>"] exI [of _ ci'])
      (simp add: manager_updateNotify_def wf_manager_def manager_inv_def)
qed

section \<open>Units\<close>

definition units_of :: "status \<Rightarrow> clause list" where
  "units_of s =
     (if st_lookup_order s \<noteq> [] \<and> inverted_first s (hd (st_lookup_order s))
      then [[minimal_unit (o_valueMode (st_order s)) (hd (st_lookup_order s))]] else [])"

lemma ex_inverted_first:
  "(\<exists>e. inverted_first s e) \<longleftrightarrow> st_lookup_order s \<noteq> [] \<and> inverted_first s (hd (st_lookup_order s))"
  by (auto simp: inverted_first_def)

lemma generateUnits_list_ok:
  assumes "\<forall>s \<in> set sts. wf_status n s \<and> st_lookup_index s = 0" "wf_injector ci"
  shows "\<exists>ci'. foldR generateUnitClauseOnInverting sts ci = Inr ci' \<and> wf_injector ci'
    \<and> (\<forall>t d. waiting ci' t d = waiting ci t d @
         (if t = UNITS \<and> d = kNoBooleanVariable then concat (map units_of sts) else []))"
  using assms
proof (induction sts arbitrary: ci)
  case Nil
  then show ?case by simp
next
  case (Cons s sts)
  have u: "generateUnitClauseOnInverting s ci =
    (if units_of s = [] then Inr ci else CI_addClause ci UNITS kNoBooleanVariable (hd (units_of s)))"
    using generateUnit_ok [of n s ci] Cons.prems(1) by (simp add: ex_inverted_first units_of_def)
  obtain ci1 where ci1: "generateUnitClauseOnInverting s ci = Inr ci1" "wf_injector ci1"
      "\<forall>t d. waiting ci1 t d = waiting ci t d @
         (if t = UNITS \<and> d = kNoBooleanVariable then units_of s else [])"
  proof (cases "units_of s = []")
    case True
    then show ?thesis using that u Cons.prems(2) by simp
  next
    case False
    then have "units_of s = [hd (units_of s)]" by (simp add: units_of_def split: if_splits)
    with False show ?thesis
      using that u CI_addClause_ok [OF Cons.prems(2), of UNITS kNoBooleanVariable "hd (units_of s)"]
      by fastforce
  qed
  from Cons.IH [OF _ ci1(2)] Cons.prems(1) obtain ci' where
    "foldR generateUnitClauseOnInverting sts ci1 = Inr ci'" "wf_injector ci'"
    "\<forall>t d. waiting ci' t d = waiting ci1 t d @
         (if t = UNITS \<and> d = kNoBooleanVariable then concat (map units_of sts) else [])" by auto
  with ci1 show ?case by auto
qed

text \<open>
  When no ESBP waits for the variable after the notification, every watching status was notified
  and none of them is a reducer.
\<close>

lemma generateESBP_stores:
  "generateESBP a s reason ci = Inr ci' \<Longrightarrow> \<exists>c. CI_addClause ci ESBP reason c = Inr ci'"
  by (auto simp: generateESBP_def run_simps)

lemma notify_watchers_silent:
  assumes "notify_watchers a l is sts ci = Inr (sts', ci')" "wf_injector ci"
    and "distinct is" "\<forall>i \<in> set is. i < length sts" "waiting ci' ESBP (variable l) = []"
  shows "length sts' = length sts
    \<and> (\<forall>i \<in> set is. status_updateNotify a (sts ! i) l = Inr (sts' ! i) \<and> st_state (sts' ! i) \<noteq> REDUCER)
    \<and> (\<forall>i < length sts. i \<notin> set is \<longrightarrow> sts' ! i = sts ! i)"
  using assms(1,3,4)
proof (induction "is" arbitrary: sts)
  case Nil
  then show ?case by simp
next
  case (Cons i "is")
  then have i: "i < length sts" by simp
  obtain s' where s': "status_updateNotify a (sts ! i) l = Inr s'"
    using Cons.prems(1) i by (auto simp: run_simps)
  let ?sts = "sts[i := s']"
  have "st_state s' \<noteq> REDUCER"
  proof
    assume r: "st_state s' = REDUCER"
    then have "generateESBP a s' (variable l) ci = Inr ci'"
      using Cons.prems(1) i s' by (simp add: FLAGS_esbp_def run_simps)
    then obtain c where "CI_addClause ci ESBP (variable l) c = Inr ci'"
      using generateESBP_stores by blast
    with CI_addClause_ok [OF assms(2), of ESBP "variable l" c] assms(5) show False
      by (auto split: if_splits)
  qed
  then have "notify_watchers a l is ?sts ci = Inr (sts', ci')"
    using Cons.prems(1) i s' by (simp add: FLAGS_esbp_forcing_def)
  from Cons.IH [OF this] Cons.prems(2,3)
  have len: "length sts' = length sts"
    and rest: "\<And>j. j \<in> set is \<Longrightarrow>
      status_updateNotify a (?sts ! j) l = Inr (sts' ! j) \<and> st_state (sts' ! j) \<noteq> REDUCER"
    and others: "\<And>j. j < length sts \<Longrightarrow> j \<notin> set is \<Longrightarrow> sts' ! j = ?sts ! j" by auto
  have i': "i \<notin> set is" using Cons.prems(2) by simp
  have at_i: "sts' ! i = s'" using others [OF i i'] i by simp
  have "status_updateNotify a (sts ! j) l = Inr (sts' ! j) \<and> st_state (sts' ! j) \<noteq> REDUCER"
    if "j \<in> set (i # is)" for j
  proof (cases "j = i")
    case True
    then show ?thesis using s' at_i \<open>st_state s' \<noteq> REDUCER\<close> by simp
  next
    case False
    then show ?thesis using that rest [of j] by simp
  qed
  moreover have "sts' ! j = sts ! j" if "j < length sts" "j \<notin> set (i # is)" for j
    using others [of j] that by simp
  ultimately show ?case using len by blast
qed

text \<open>Setting up the manager: the statuses, the units, and why the units are sound.\<close>

lemma units_generated:
  assumes "wf_group n g" "g_permutations g \<noteq> []" "iterates ord" "complete_order n o'"
    and "\<forall>p \<in> set (g_permutations g). symmetry_of p F" "wf_injector ci"
  shows "\<exists>m ci'. defineOrder ord g CosyManager_new o' = Inr m \<and> generateUnits m ci = Inr ci'
    \<and> wf_manager n g o' m \<and> manager_inv [] m \<and> wf_injector ci' \<and> map st_permutation (m_statuses m) = g_permutations g
    \<and> (\<forall>s \<in> set (m_statuses m). st_lookup_index s = 0 \<and> st_lookup_order s =
          filter (\<lambda>l. moves (st_permutation s) (unat (variable l))) (o_order o'))
    \<and> (\<forall>t d. waiting ci' t d = waiting ci t d @
         (if t = UNITS \<and> d = kNoBooleanVariable then concat (map units_of (m_statuses m)) else []))
    \<and> (\<forall>c \<in> set (concat (map units_of (m_statuses m))).
         breaks (o_valueMode o') (o_order o') F c)"
proof -
  obtain m where m: "defineOrder ord g CosyManager_new o' = Inr m" "wf_manager n g o' m" "manager_inv [] m"
      "m_statuses m = map (\<lambda>p. entered p o' (o_order o')) (g_permutations g)"
    using defineOrder_ok [OF assms(1-4)] by blast
  have sts: "wf_statuses n g o' (m_statuses m)" using m(2) by (simp add: wf_manager_def)
  have start: "st_lookup_index s = 0 \<and> st_lookup_order s =
      filter (\<lambda>l. moves (st_permutation s) (unat (variable l))) (o_order o')"
    if "s \<in> set (m_statuses m)" for s
    using that m(4) by (auto simp: entered_def CosyStatus_new_def)
  have "\<forall>s \<in> set (m_statuses m). wf_status n s \<and> st_lookup_index s = 0"
    using start wf_statuses_D(2) [OF sts] by blast
  then obtain ci' where ci': "generateUnits m ci = Inr ci'" "wf_injector ci'" "\<forall>t d. waiting ci' t d = waiting ci t d @
      (if t = UNITS \<and> d = kNoBooleanVariable then concat (map units_of (m_statuses m)) else [])"
    using generateUnits_list_ok [OF _ assms(6), of "m_statuses m" n] by (auto simp: generateUnits_def)
  have "breaks (o_valueMode o') (o_order o') F c"
    if s: "s \<in> set (m_statuses m)" and c: "c \<in> set (units_of s)" for s c
  proof -
    have "st_permutation s \<in> set (g_permutations g)"
      using s sts by (metis image_eqI list.set_map wf_statuses_def)
    then show ?thesis
      using unit_breaks [OF wf_statuses_D(2) [OF sts s], of "hd (st_lookup_order s)" F] c assms(5)
        wf_statuses_D(3) [OF sts s]
      by (simp add: units_of_def split: if_splits)
  qed
  then show ?thesis
    using m(1-3) sts start ci' by (auto simp: wf_statuses_def)
qed

end
