(* ===== verification/Small_Example.thy ===== *)
theory Small_Example
  imports Managers
begin

text \<open>
  A problem of two variables on which the hypotheses of the properties are shown to hold: the
  generator \<open>swap_perm\<close> exchanges the variables 0 and 1, the generator \<open>flip_perm\<close> inverts the
  variable 0. Literals are written by their index: \<open>Lit 0\<close> and \<open>Lit 2\<close> are the positive ones.
\<close>

definition get_ok :: "'a \<Rightarrow> 'a result \<Rightarrow> 'a" where
  "get_ok d r = (case r of Inl e \<Rightarrow> d | Inr x \<Rightarrow> x)"

lemma get_ok_simps [simp]: "get_ok d (Inr x) = x" "get_ok d (Inl e) = d"
  by (simp_all add: get_ok_def)

section \<open>Generators\<close>

definition swap_perm :: permutation where
  "swap_perm = get_ok (Permutation_new 2)
     (enterCycles [[Lit 0, Lit 2], [Lit 1, Lit 3]] (Permutation_new 2))"

definition flip_perm :: permutation where
  "flip_perm = get_ok (Permutation_new 2) (enterCycles [[Lit 0, Lit 1]] (Permutation_new 2))"

lemma entered_perm:
  assumes "distinct (concat css)" "\<forall>c \<in> set css. 2 \<le> length c"
    and "p = get_ok (Permutation_new 2) (enterCycles css (Permutation_new 2))"
  shows "perm_repr css [] p" "p_size p = 2" "p_cycles p = concat css"
proof -
  show r: "perm_repr css [] p" and "p_size p = 2"
    using enterCycles_ok [OF perm_repr_new, of css 2] assms by (auto simp: Permutation_new_def)
  show "p_cycles p = concat css" using r by (simp add: perm_repr_def)
qed

lemma small_literals:
  "variable (Lit 0) = 0" "variable (Lit 1) = 0" "variable (Lit 2) = 1" "variable (Lit 3) = 1"
  "negated (Lit 0) = Lit 1" "negated (Lit 1) = Lit 0" "negated (Lit 2) = Lit 3" "negated (Lit 3) = Lit 2"
  "isPositive (Lit 0)" "\<not> isPositive (Lit 1)" "isPositive (Lit 2)" "\<not> isPositive (Lit 3)"
  by code_simp+

lemmas swap_entered = entered_perm [OF _ _ swap_perm_def]
lemmas flip_entered = entered_perm [OF _ _ flip_perm_def]

lemma swap_tables:
  "p_image swap_perm (Lit 0) = Some (Lit 2)" "p_image swap_perm (Lit 2) = Some (Lit 0)"
  "p_image swap_perm (Lit 1) = Some (Lit 3)" "p_image swap_perm (Lit 3) = Some (Lit 1)"
  "p_inverse swap_perm (Lit 0) = Some (Lit 2)" "p_inverse swap_perm (Lit 2) = Some (Lit 0)"
  "p_inverse swap_perm (Lit 1) = Some (Lit 3)" "p_inverse swap_perm (Lit 3) = Some (Lit 1)"
  by code_simp+

lemma flip_tables:
  "p_image flip_perm (Lit 0) = Some (Lit 1)" "p_image flip_perm (Lit 1) = Some (Lit 0)"
  "p_inverse flip_perm (Lit 0) = Some (Lit 1)" "p_inverse flip_perm (Lit 1) = Some (Lit 0)"
  by code_simp+

lemma swap_perm_ok:
  "perm_in 2 swap_perm" "signed_perm swap_perm" "p_cycles swap_perm = [Lit 0, Lit 2, Lit 1, Lit 3]"
  "involution swap_perm"
proof -
  show c: "p_cycles swap_perm = [Lit 0, Lit 2, Lit 1, Lit 3]" using swap_entered(3) by simp
  show "perm_in 2 swap_perm"
    using swap_entered(1,2) c by (auto simp: perm_in_def perm_wf_def lit_in_def small_literals)
  show "signed_perm swap_perm" "involution swap_perm"
    unfolding signed_perm_def involution_def c by (simp_all add: swap_tables small_literals)
qed

lemma flip_perm_ok:
  "perm_in 2 flip_perm" "signed_perm flip_perm" "p_cycles flip_perm = [Lit 0, Lit 1]"
  "involution flip_perm"
proof -
  show c: "p_cycles flip_perm = [Lit 0, Lit 1]" using flip_entered(3) by simp
  show "perm_in 2 flip_perm"
    using flip_entered(1,2) c by (auto simp: perm_in_def perm_wf_def lit_in_def small_literals)
  show "signed_perm flip_perm" "involution flip_perm"
    unfolding signed_perm_def involution_def c by (simp_all add: flip_tables small_literals)
qed

section \<open>Groups and orders\<close>

definition swap_group :: group where
  "swap_group = get_ok Group_new (addPermutation Group_new (Some swap_perm))"

definition flip_group :: group where
  "flip_group = get_ok Group_new (addPermutation Group_new (Some flip_perm))"

lemma added_group:
  assumes "perm_in 2 p" "signed_perm p" "p_cycles p \<noteq> []"
    and "g = get_ok Group_new (addPermutation Group_new (Some p))"
  shows "wf_group 2 g" "g_permutations g = [p]"
  using addPermutation_ok [OF wf_group_new assms(1)] assms by (auto simp: Group_new_def)

lemma swap_group_ok: "wf_group 2 swap_group" "g_permutations swap_group = [swap_perm]"
  using added_group [OF swap_perm_ok(1,2) _ swap_group_def] swap_perm_ok(3) by auto

lemma flip_group_ok: "wf_group 2 flip_group" "g_permutations flip_group = [flip_perm]"
  using added_group [OF flip_perm_ok(1,2) _ flip_group_def] flip_perm_ok(3) by auto

definition small_order :: order where
  "small_order = get_ok (Order_new 2 TRUE_LESS_FALSE) (IncreaseOrder 2 TRUE_LESS_FALSE)"

lemma small_order_ok:
  "complete_order 2 small_order" "o_valueMode small_order = TRUE_LESS_FALSE"
  "o_order small_order = [Lit 0, Lit 2]"
proof -
  have l: "map (\<lambda>v. Literal_var v True) (variables_below 2) = [Lit 0, Lit 2]" by code_simp
  show "complete_order 2 small_order" "o_valueMode small_order = TRUE_LESS_FALSE"
    "o_order small_order = [Lit 0, Lit 2]"
    using IncreaseOrder_ok [of 2 TRUE_LESS_FALSE] unfolding l small_order_def by auto
qed

section \<open>Managers and assignments\<close>

definition manager_for :: "group \<Rightarrow> manager" where
  "manager_for g = get_ok CosyManager_new (defineOrder id g CosyManager_new small_order)"

lemma manager_for_ok:
  assumes "wf_group 2 g" "g_permutations g \<noteq> []"
  shows "wf_manager 2 g small_order (manager_for g)" "manager_inv [] (manager_for g)"
    "m_statuses (manager_for g) = map (\<lambda>p. entered p small_order [Lit 0, Lit 2]) (g_permutations g)"
  using defineOrder_ok [OF assms iterates_id(1) small_order_ok(1)] small_order_ok(3)
  by (auto simp: manager_for_def)

text \<open>The assignment after the literals of a trail have been assigned.\<close>

definition assigned :: "literal list \<Rightarrow> assignment" where
  "assigned tr = get_ok Assignment_empty
     (andThen (Assignment_new 2) (foldR (\<lambda>l a. assignFromTrueLiteral a l) tr))"

lemma assigned_ok:
  assumes "trail_ok 2 tr"
  shows "wf_assignment 2 (assigned tr)" "value_of (assigned tr) = trail_val tr"
proof -
  obtain a0 where a0: "Assignment_new 2 = Inr a0" "wf_assignment 2 a0" "value_of a0 = trail_val []"
    using Assignment_new_ok [of 2] by auto
  show "wf_assignment 2 (assigned tr)" "value_of (assigned tr) = trail_val tr"
    using assign_trail_ok [OF a0(2,3) assms] a0(1) by (auto simp: assigned_def)
qed

text \<open>
  The status of a generator after the literals of a trail, given newest first, have been notified
  to it one after the other.
\<close>

fun status_after :: "permutation \<Rightarrow> literal list \<Rightarrow> status" where
  "status_after p [] = entered p small_order [Lit 0, Lit 2]"
| "status_after p (l # rtr) =
     get_ok (status_after p rtr)
       (status_updateNotify (assigned (rev (l # rtr))) (status_after p rtr) l)"

lemma status_after_ok:
  assumes p: "perm_in 2 p" "signed_perm p" and tr: "trail_ok 2 (rev rtr)"
    and moved: "\<forall>l \<in> set rtr. moves p (unat (variable l))"
  shows "wf_status 2 (status_after p rtr) \<and> status_inv (rev rtr) (status_after p rtr)
    \<and> st_permutation (status_after p rtr) = p \<and> st_order (status_after p rtr) = small_order
    \<and> (rtr \<noteq> [] \<longrightarrow> st_state (status_after p rtr) =
          state_spec (trail_val (rev rtr)) (status_after p rtr)
        \<and> (\<not> isLookupEnd (status_after p rtr) \<longrightarrow>
            \<not> pair_same (trail_val (rev rtr)) (status_after p rtr) (st_lookup_index (status_after p rtr))))"
  using tr moved
proof (induction rtr)
  case Nil
  then show ?case
    using p small_order_ok
    by (simp add: wf_status_def entered_def CosyStatus_new_def status_inv_def)
next
  case (Cons l rtr)
  have ok: "trail_ok 2 (rev rtr @ [l])" using Cons.prems(1) by simp
  then have "trail_ok 2 (rev rtr)" by (simp add: trail_ok_def)
  with Cons have IH: "wf_status 2 (status_after p rtr)" "status_inv (rev rtr) (status_after p rtr)"
      "st_permutation (status_after p rtr) = p" "st_order (status_after p rtr) = small_order"
    by simp_all
  have moved: "moves (st_permutation (status_after p rtr)) (unat (variable l))"
    using IH(3) Cons.prems(2) by simp
  obtain s' where s': "status_updateNotify (assigned (rev rtr @ [l])) (status_after p rtr) l = Inr s'"
      "wf_status 2 s'" "status_inv (rev rtr @ [l]) s'"
      "st_permutation s' = st_permutation (status_after p rtr)"
      "st_order s' = st_order (status_after p rtr)"
      "st_state s' = state_spec (trail_val (rev rtr @ [l])) s'"
      "\<not> isLookupEnd s' \<longrightarrow> \<not> pair_same (trail_val (rev rtr @ [l])) s' (st_lookup_index s')"
    using status_updateNotify_ok [OF IH(1) assigned_ok [OF ok] ok IH(2) moved]
    unfolding assigned_ok(2) [OF ok] by blast
  then have "status_after p (l # rtr) = s'" by simp
  with s' IH(3,4) show ?case by (simp del: status_after.simps trail_val_snoc)
qed

text \<open>The swap is a reducer when variable 0 is false and variable 1 is true.\<close>

definition swap_trail :: "literal list" where
  "swap_trail = [Lit 1, Lit 2]"

definition swap_reducer :: status where
  "swap_reducer = status_after swap_perm (rev swap_trail)"

definition flip_reducer :: status where
  "flip_reducer = status_after flip_perm [Lit 1]"

lemma swap_trail_ok: "trail_ok 2 swap_trail"
  by (simp add: trail_ok_def swap_trail_def lit_in_def small_literals)

lemma flip_trail_ok: "trail_ok 2 [Lit 1]"
  by (simp add: trail_ok_def lit_in_def small_literals)

lemma swap_moves: "moves swap_perm (unat (variable l)) \<longleftrightarrow> variable l = 0 \<or> variable l = 1"
  by (auto simp: moves_def swap_perm_ok small_literals word_unat_eq_iff)

lemma flip_moves: "moves flip_perm (unat (variable l)) \<longleftrightarrow> variable l = 0"
  by (simp add: moves_def flip_perm_ok small_literals word_unat_eq_iff)

lemma small_moves: "moves swap_perm 0" "moves swap_perm (Suc 0)" "moves flip_perm 0"
    "\<not> moves flip_perm (Suc 0)"
  by (simp_all add: moves_def swap_perm_ok flip_perm_ok small_literals)

lemma reducer_states: "st_state swap_reducer = REDUCER" "st_state flip_reducer = REDUCER"
  by code_simp+

lemma reducing_after:
  assumes p: "perm_in 2 p" "signed_perm p" and tr: "trail_ok 2 (rev rtr)" "rtr \<noteq> []"
    and moved: "\<forall>l \<in> set rtr. moves p (unat (variable l))"
    and r: "st_state (status_after p rtr) = REDUCER"
  shows "reducing 2 (rev rtr) (assigned (rev rtr)) (status_after p rtr)"
proof -
  note s = status_after_ok [OF p tr(1) moved]
  have "\<not> isLookupEnd (status_after p rtr)"
    using s tr(2) r by (auto simp: state_spec_def)
  with s tr(2) r show ?thesis
    unfolding reducing_def assigned_ok(2) [OF tr(1)] using assigned_ok(1) [OF tr(1)] tr(1) by metis
qed

lemma swap_reducing: "reducing 2 swap_trail (assigned swap_trail) swap_reducer"
  using reducing_after [OF swap_perm_ok(1,2), of "rev swap_trail"] swap_trail_ok reducer_states
  by (simp add: swap_reducer_def swap_trail_def small_moves small_literals del: status_after.simps)

lemma flip_reducing: "reducing 2 [Lit 1] (assigned [Lit 1]) flip_reducer"
  using reducing_after [OF flip_perm_ok(1,2), of "[Lit 1]"] flip_trail_ok reducer_states
  by (simp add: flip_reducer_def small_moves small_literals del: status_after.simps)

lemma reducer_positions: "st_lookup_index swap_reducer = 0" "st_lookup_index flip_reducer = 0"
  by code_simp+

lemma reducer_frames:
  "st_permutation swap_reducer = swap_perm" "st_order swap_reducer = small_order"
  "st_permutation flip_reducer = flip_perm" "st_order flip_reducer = small_order"
  using status_after_ok [OF swap_perm_ok(1,2), of "rev swap_trail"]
    status_after_ok [OF flip_perm_ok(1,2), of "[Lit 1]"] swap_trail_ok flip_trail_ok
  by (simp_all add: swap_reducer_def flip_reducer_def swap_trail_def small_moves small_literals del: status_after.simps)

lemma reducer_lookups:
  "st_lookup_order swap_reducer = [Lit 0, Lit 2]" "st_lookup_order flip_reducer = [Lit 0]"
proof -
  have "wf_status 2 swap_reducer" "wf_status 2 flip_reducer"
    using swap_reducing flip_reducing by (simp_all add: reducing_def)
  then show "st_lookup_order swap_reducer = [Lit 0, Lit 2]" "st_lookup_order flip_reducer = [Lit 0]"
    by (simp_all add: wf_status_def reducer_frames small_order_ok small_moves small_literals)
qed

text \<open>A formula over the two variables: exactly one of them is true.\<close>

definition one_of_two :: "clause set" where
  "one_of_two = {[Lit 0, Lit 2], [Lit 1, Lit 3]}"

lemma swap_symmetry: "symmetry_of swap_perm one_of_two"
proof -
  have f: "perm_fwd swap_perm = act swap_perm"
    using swap_perm_ok by (simp add: perm_fwd_def perm_in_def)
  show ?thesis
    by (auto simp: symmetry_of_def f one_of_two_def act_def swap_tables insert_commute)
qed

end
