(* ===== verification/Engine_Properties.thy ===== *)
theory Engine_Properties
  imports Small_Example
begin

text \<open>
  The properties of the symmetry engine: the group of generators, the order of the literals, the
  status of a generator and the clauses it generates, and the manager that dispatches to the
  statuses. Every hypothesis is shown to hold on the problem of \<open>Small_Example\<close>.
\<close>

section \<open>The group and the order\<close>

text \<open>
  C15. A group fed any sequence of well-formed permutations keeps, in order, exactly those that
  move something and commute with negation. Watching a variable then gives exactly the generators
  that move it, each once, whatever the iteration order of the set, and the numbers of symmetric
  and inverting variables are those of the kept generators.
\<close>

lemma group_tables:
  assumes "\<forall>p \<in> set ps. perm_in n p"
  shows "\<exists>g. foldR (\<lambda>p g. addPermutation g (Some p)) ps Group_new = Inr g
    \<and> g_permutations g = filter (\<lambda>p. \<not> isIdentity p \<and> signed_perm p) ps
    \<and> (\<forall>ord v. iterates ord \<and> unat v < n \<and> numberOfPermutations g > 0 \<longrightarrow>
         (\<exists>is. watch ord g v = Inr is \<and> distinct is
            \<and> set is = {i. i < numberOfPermutations g \<and> moves (g_permutations g ! i) (unat v)}))
    \<and> numberOfSymmetricVariables g =
        card (variable ` (\<Union>p \<in> set (g_permutations g). set (support p)))
    \<and> numberOfInverting g = card {v. \<exists>p \<in> set (g_permutations g). inverts p v}"
proof -
  obtain g where g: "foldR (\<lambda>p g. addPermutation g (Some p)) ps Group_new = Inr g" "wf_group n g"
      "g_permutations g = filter (\<lambda>p. \<not> isIdentity p \<and> signed_perm p) ps"
    using add_permutations_ok [OF wf_group_new, of ps n] assms by (auto simp: Group_new_def)
  have "length (g_symmetric g) = card (set (g_symmetric g))"
    "length (g_inverting g) = card (set (g_inverting g))"
    using g(2) unfolding wf_group_def by (metis distinct_card)+
  then have "numberOfSymmetricVariables g =
      card (variable ` (\<Union>p \<in> set (g_permutations g). set (support p)))"
    "numberOfInverting g = card {v. \<exists>p \<in> set (g_permutations g). inverts p v}"
    using g(2) unfolding numberOfSymmetricVariables_def numberOfInverting_def support_def wf_group_def
    by simp_all
  then show ?thesis
    using g watch_ok [OF g(2)] by (auto simp: numberOfPermutations_def)
qed

lemma group_tables_witness:
  "\<exists>g. foldR (\<lambda>p g. addPermutation g (Some p)) [swap_perm, flip_perm] Group_new = Inr g
    \<and> g_permutations g = [swap_perm, flip_perm]"
  using group_tables [of "[swap_perm, flip_perm]" 2] swap_perm_ok flip_perm_ok
  by (auto simp: isIdentity_def)

text \<open>
  The increasing order over \<open>num\<close> variables lists the positive literal of each, in order.
  The comparison of two literals returns the one with the smaller variable (the first on a tie),
  whatever their signs, and adding a listed variable again fails the check.
\<close>

lemma increase_order_compares:
  assumes "unat num < 2 ^ 30" "unat (variable a) < unat num" "unat (variable b) < unat num"
  shows "\<exists>o'. IncreaseOrder num mode = Inr o' \<and> o_valueMode o' = mode
    \<and> length (o_order o') = unat num
    \<and> leq o' a b = Inr (if unat (variable a) \<le> unat (variable b) then a else b)
    \<and> contains o' a \<and> Order_add o' a = Inl Check_failed"
proof -
  obtain o' where o': "IncreaseOrder num mode = Inr o'" "complete_order (unat num) o'"
      "o_valueMode o' = mode" "o_order o' = map (\<lambda>v. Literal_var v True) (variables_below num)"
    using IncreaseOrder_ok [OF assms(1)] by blast
  have wf: "wf_order (unat num) o'" using o'(2) by (simp add: complete_order_def)
  have l: "listed (o_order o') x" if "unat (variable x) < unat num" for x
    using o'(2) that by (simp add: complete_order_def listed_def)
  have "length (o_order o') = unat num"
    using o'(4) sint_small [of num] assms(1) by (simp add: variables_below_def)
  moreover have "rank (o_order o') x = unat (variable x)" if "unat (variable x) < unat num" for x
    unfolding o'(4) by (rule rank_increasing [OF assms(1) that])
  ultimately show ?thesis
    using o' leq_eq [OF wf l [OF assms(2)] l [OF assms(3)]] contains_eq [OF wf] l [OF assms(2)]
      Order_add_twice [OF wf l [OF assms(2)]] assms by simp
qed

lemma increase_order_compares_witness:
  "\<exists>o'. IncreaseOrder 2 FALSE_LESS_TRUE = Inr o' \<and> leq o' (Lit 3) (Lit 0) = Inr (Lit 0)"
  using increase_order_compares [of 2 "Lit 3" "Lit 0" FALSE_LESS_TRUE] by (auto simp: small_literals)

section \<open>The status of a generator\<close>

text \<open>
  C11. Notifying a status of the newest assigned literal succeeds. The position becomes the first
  position of the lookup order whose literal and inverse image do not have the same value, and the
  state is the one that the comparison of that pair in the order calls for (active, inactive,
  forced or reducer). Cancelling the literal again restores the position and the stack.
\<close>

lemma status_tracks_trail:
  assumes "wf_status n s" "status_inv tr s" "trail_ok n (tr @ [l])"
    and "wf_assignment n a" "value_of a = trail_val (tr @ [l])"
    and "moves (st_permutation s) (unat (variable l))"
  shows "\<exists>s'. status_updateNotify a s l = Inr s'
    \<and> st_lookup_index s' \<le> length (st_lookup_order s')
    \<and> (\<forall>i < st_lookup_index s'. pair_same (value_of a) s' i)
    \<and> (\<not> isLookupEnd s' \<longrightarrow> \<not> pair_same (value_of a) s' (st_lookup_index s'))
    \<and> st_state s' = state_spec (value_of a) s'
    \<and> status_inv (tr @ [l]) s'
    \<and> status_updateCancel s' l = s\<lparr>st_state := st_state s'\<rparr>"
proof -
  obtain s' where s': "status_updateNotify a s l = Inr s'" "status_inv (tr @ [l]) s'"
      "st_state s' = state_spec (value_of a) s'"
      "\<not> isLookupEnd s' \<longrightarrow> \<not> pair_same (value_of a) s' (st_lookup_index s')"
    using status_updateNotify_ok [OF assms(1,4,5,3,2,6)] by blast
  have "stk (st_permutation s') (st_lookup_order s') (tr @ [l]) (rev (st_lookup_infos s'))
      (st_lookup_index s')"
    using s'(2) by (simp add: status_inv_def)
  from stk_length [OF this] stk_agrees [OF this assms(3)]
  have "st_lookup_index s' \<le> length (st_lookup_order s')"
    "\<forall>i < st_lookup_index s'. pair_same (value_of a) s' i"
    using assms(5) by (simp_all add: agrees_def pair_same_def)
  with s' status_notify_cancel [OF assms(1,4,3,2) s'(1)] show ?thesis by blast
qed

lemma status_tracks_trail_witness:
  "\<exists>s'. status_updateNotify (assigned [Lit 1]) (status_after swap_perm []) (Lit 1) = Inr s'
    \<and> status_updateCancel s' (Lit 1) = (status_after swap_perm [])\<lparr>st_state := st_state s'\<rparr>"
  using status_tracks_trail [of 2 "status_after swap_perm []" "[]" "Lit 1" "assigned [Lit 1]"]
    status_after_ok [OF swap_perm_ok(1,2), of "[]"] assigned_ok [of "[Lit 1]"] flip_trail_ok
  by (auto simp: trail_ok_def small_moves small_literals)

section \<open>The generated clauses\<close>

text \<open>
  C13. When the status is a reducer, the ESBP handed to the injector consists of the false
  literals of the reason and of the variables of the looked up pairs up to the current one, each
  once: the solver can use it as a conflict clause. The one exception is a permutation that
  inverts the reason at the first position: then the check on the clause size fails.
\<close>

lemma esbp_is_conflict_clause:
  assumes "reducing n tr a s" "unat reason < n" "value_of a reason \<noteq> None"
  shows "if lone_inversion s reason then generateESBP a s reason ci = Inl Check_failed
    else \<exists>c. generateESBP a s reason ci = CI_addClause ci ESBP reason c
           \<and> distinct c \<and> 2 \<le> length c \<and> variable ` set c = esbp_vars s reason
           \<and> (\<forall>l \<in> set c. lit_value (value_of a) l = Some False)"
proof (cases "lone_inversion s reason")
  case True
  then show ?thesis using generateESBP_lone [OF assms] by simp
next
  case False
  obtain c where c: "generateESBP a s reason ci = CI_addClause ci ESBP reason c" "distinct c"
      "2 \<le> length c" "set c = false_lit (value_of a) ` esbp_vars s reason"
    using generateESBP_ok [OF assms False] by blast
  have "variable ` set c = (\<lambda>v. v) ` esbp_vars s reason"
    unfolding c(4) image_image using esbp_vars_ok(1) [OF assms] by (intro image_cong) auto
  then have "variable ` set c = esbp_vars s reason" by simp
  then have "distinct c \<and> 2 \<le> length c \<and> variable ` set c = esbp_vars s reason
      \<and> (\<forall>l \<in> set c. lit_value (value_of a) l = Some False)"
    using c(2,3) esbp_conflict [OF assms c(4)] by blast
  then show ?thesis using False c(1) by auto
qed

lemma esbp_is_conflict_clause_witness:
  "generateESBP (assigned [Lit 1]) flip_reducer 0 ClauseInjector_new = Inl Check_failed"
proof -
  have "lone_inversion flip_reducer 0"
    by (simp add: lone_inversion_def pair_vars_def reducer_positions reducer_lookups reducer_frames
        act_inv_def flip_tables small_literals)
  moreover have "value_of (assigned [Lit 1]) 0 \<noteq> None"
    using assigned_ok(2) [OF flip_trail_ok] by (simp add: trail_val_def small_literals)
  ultimately show ?thesis using esbp_is_conflict_clause [OF flip_reducing, of 0] by simp
qed

text \<open>
  C8. Soundness of the ESBPs of involutions. When the generator is its own inverse and maps the
  formula to itself, the clause that \<open>generateESBP\<close> stores for the reason only excludes models of
  the formula for which the formula has a model that is smaller in the order.
\<close>

lemma involution_esbp_sound:
  assumes "reducing n tr a s" "involution (st_permutation s)" "symmetry_of (st_permutation s) F"
    and "unat reason < n" "value_of a reason \<noteq> None"
    and "wf_injector ci" "waiting ci ESBP reason = []"
    and "generateESBP a s reason ci = Inr ci'"
  shows "\<exists>c. waiting ci' ESBP reason = [c]
    \<and> breaks (o_valueMode (st_order s)) (o_order (st_order s)) F c"
proof -
  have "\<not> lone_inversion s reason"
    using generateESBP_lone [OF assms(1,4,5), of ci] assms(8) by auto
  from generateESBP_ok [OF assms(1,4,5) this, of ci]
  obtain c where c: "CI_addClause ci ESBP reason c = Inr ci'"
      "set c = false_lit (value_of a) ` esbp_vars s reason"
    using assms(8) by auto
  have "false_lit (value_of a) ` (\<Union>i \<in> {..st_lookup_index s}. pair_vars s i) \<subseteq> set c"
    unfolding c(2) esbp_vars_def by blast
  from esbp_breaks [OF assms(1) involution_first [OF assms(1,2)] assms(3) this]
    CI_addClause_ok [OF assms(6), of ESBP reason c] c(1) assms(7)
  show ?thesis by auto
qed

lemma involution_esbp_sound_witness:
  "\<exists>c ci'. generateESBP (assigned swap_trail) swap_reducer 1 ClauseInjector_new = Inr ci'
    \<and> waiting ci' ESBP 1 = [c] \<and> breaks TRUE_LESS_FALSE [Lit 0, Lit 2] one_of_two c"
proof -
  have "isl (generateESBP (assigned swap_trail) swap_reducer 1 ClauseInjector_new) = False"
    by code_simp
  then obtain ci' where ci': "generateESBP (assigned swap_trail) swap_reducer 1 ClauseInjector_new = Inr ci'"
    by (metis isl_def old.sum.exhaust)
  have "value_of (assigned swap_trail) 1 \<noteq> None"
    using assigned_ok(2) [OF swap_trail_ok] by (simp add: trail_val_def swap_trail_def small_literals)
  from involution_esbp_sound [OF swap_reducing _ _ _ this wf_injector_new waiting_new ci', of one_of_two]
  show ?thesis
    using ci' swap_perm_ok(4) swap_symmetry by (simp add: reducer_frames small_order_ok)
qed

section \<open>The manager\<close>

text \<open>
  C12. Defining the order gives every generator of the group one status whose lookup order is the
  literals of the order that the generator moves. Generating the units then appends, for each
  generator that inverts its first literal, the unit of the minimal value to the injector and
  nothing else, and each unit only excludes models of the formula that have a smaller model.
\<close>

lemma order_and_units:
  assumes "wf_group n g" "g_permutations g \<noteq> []" "iterates ord" "complete_order n o'"
    and "\<forall>p \<in> set (g_permutations g). symmetry_of p F" "wf_injector ci"
  shows "\<exists>m ci'. defineOrder ord g CosyManager_new o' = Inr m \<and> generateUnits m ci = Inr ci'
    \<and> map st_permutation (m_statuses m) = g_permutations g
    \<and> (\<forall>s \<in> set (m_statuses m). st_lookup_index s = 0 \<and> st_lookup_order s =
          filter (\<lambda>l. moves (st_permutation s) (unat (variable l))) (o_order o'))
    \<and> (\<forall>t d. waiting ci' t d = waiting ci t d @
         (if t = UNITS \<and> d = kNoBooleanVariable then concat (map units_of (m_statuses m)) else []))
    \<and> (\<forall>c \<in> set (concat (map units_of (m_statuses m))).
         breaks (o_valueMode o') (o_order o') F c)"
  using units_generated [OF assms] by blast

lemma order_and_units_witness:
  "\<exists>m ci'. defineOrder id swap_group CosyManager_new small_order = Inr m
    \<and> generateUnits m ClauseInjector_new = Inr ci'
    \<and> map st_permutation (m_statuses m) = [swap_perm]"
proof -
  have "\<forall>p \<in> set (g_permutations swap_group). symmetry_of p one_of_two"
    using swap_group_ok(2) swap_symmetry by simp
  from order_and_units [OF swap_group_ok(1) _ iterates_id(1) small_order_ok(1) this wf_injector_new]
  show ?thesis using swap_group_ok(2) by auto
qed

text \<open>
  C10. When a literal is assigned, every watching status is notified until one is a reducer. The
  call succeeds as long as the assignment respects the units of the inverting generators; it keeps
  the statuses consistent with the longer trail, and the injector is unchanged or has received one
  conflict clause for the variable, from a status that is a reducer of the new trail.
\<close>

lemma manager_notifies:
  assumes "wf_group n g" "g_permutations g \<noteq> []" "iterates ord"
    and "wf_manager n g o' m" "manager_inv tr m" "trail_ok n (tr @ [l])"
    and "wf_assignment n a" "value_of a = trail_val (tr @ [l])" "wf_injector ci"
    and "\<forall>s \<in> set (m_statuses m). unit_respected (value_of a) s"
  shows "\<exists>m' ci'. manager_updateNotify ord g a m l ci = Inr (m', ci')
    \<and> wf_manager n g o' m' \<and> manager_inv (tr @ [l]) m'
    \<and> (ci' = ci \<or> (\<exists>s \<in> set (m_statuses m'). \<exists>c. reducing n (tr @ [l]) a s
         \<and> CI_addClause ci ESBP (variable l) c = Inr ci'
         \<and> variable l \<in> variable ` set c
         \<and> (\<forall>k \<in> set c. lit_value (value_of a) k = Some False)))"
proof -
  obtain m' ci' where m': "manager_updateNotify ord g a m l ci = Inr (m', ci')"
      "wf_manager n g o' m'" "manager_inv (tr @ [l]) m'"
      "notified n (tr @ [l]) a l (m_statuses m') ci ci'"
    using manager_updateNotify_ok [OF assms(1-5,7,8,6,9,10)] by blast
  have v: "unat (variable l) < n" "value_of a (variable l) \<noteq> None"
    using assms(6,8) by (simp_all add: trail_ok_def lit_in_def)
  have "variable l \<in> variable ` set c \<and> (\<forall>k \<in> set c. lit_value (value_of a) k = Some False)"
    if "esbp_for n (tr @ [l]) a s (variable l) c" for s c
    using that esbp_false_reason [OF _ v, of "tr @ [l]" s c] by (simp add: esbp_for_def)
  with m' show ?thesis unfolding notified_def esbp_for_def by metis
qed

text \<open>
  C14. When the newest literal is unassigned, every status goes back to a position that the
  remaining trail justifies; the call succeeds and keeps the manager well formed.
\<close>

lemma manager_cancels:
  assumes "wf_group n g" "g_permutations g \<noteq> []" "iterates ord"
    and "wf_manager n g o' m" "manager_inv (tr @ [l]) m" "trail_ok n (tr @ [l])"
  shows "\<exists>m'. manager_updateCancel ord g m l = Inr m' \<and> wf_manager n g o' m'
    \<and> (\<forall>s \<in> set (m_statuses m'). \<forall>i < st_lookup_index s. pair_same (trail_val tr) s i)"
proof -
  obtain m' where m': "manager_updateCancel ord g m l = Inr m'" "wf_manager n g o' m'"
      "manager_inv tr m'"
    using manager_updateCancel_ok [OF assms] by blast
  have "trail_ok n tr" using assms(6) by (simp add: trail_ok_def)
  then have "\<forall>s \<in> set (m_statuses m'). \<forall>i < st_lookup_index s. pair_same (trail_val tr) s i"
    using m'(3) stk_agrees by (fastforce simp: manager_inv_def status_inv_def agrees_def pair_same_def)
  with m' show ?thesis by blast
qed

lemma manager_notifies_witness:
  "\<exists>m' ci'. manager_updateNotify id swap_group (assigned [Lit 1]) (manager_for swap_group) (Lit 1)
      ClauseInjector_new = Inr (m', ci') \<and> manager_inv [Lit 1] m'"
proof -
  note m = manager_for_ok [OF swap_group_ok(1)]
  have ok: "trail_ok 2 ([] @ [Lit 1])" using flip_trail_ok by simp
  have "\<not> inverted_first s e" if "s \<in> set (m_statuses (manager_for swap_group))" for s e
    using that m(3) swap_group_ok(2) swap_moves
    by (auto simp: inverted_first_def entered_def CosyStatus_new_def act_inv_def small_moves
        small_literals swap_tables)
  then have "\<forall>s \<in> set (m_statuses (manager_for swap_group)).
      unit_respected (value_of (assigned [Lit 1])) s"
    by (simp add: unit_respected_def)
  from manager_notifies [OF swap_group_ok(1) _ iterates_id(1) m(1,2) ok _ _ wf_injector_new this]
  show ?thesis using assigned_ok [OF ok] swap_group_ok(2) by auto
qed

lemma manager_cancels_witness:
  "\<exists>m'. manager_updateCancel id swap_group (manager_for swap_group) (Lit 1) = Inr m'"
proof -
  note m = manager_for_ok [OF swap_group_ok(1)]
  have "manager_inv ([] @ [Lit 1]) (manager_for swap_group)"
    using m(2) swap_group_ok(2) status_inv_append [of "[]" _ "[Lit 1]"] by (auto simp: manager_inv_def)
  from manager_cancels [OF swap_group_ok(1) _ iterates_id(1) m(1) this]
  show ?thesis using flip_trail_ok swap_group_ok(2) by auto
qed

end
