(* ===== verification/Unsound_Example.thy ===== *)
theory Unsound_Example
  imports Managers
begin

text \<open>
  An instance on which the generated ESBPs exclude every model of a satisfiable formula. The
  formula over four variables says that exactly one of \<open>x0, x1\<close> and exactly one of \<open>x2, x3\<close> is
  true. \<open>turn_perm\<close> maps \<open>x0\<close> to \<open>x3\<close>, \<open>x3\<close> to \<open>x1\<close>, \<open>x1\<close> to \<open>x2\<close> and \<open>x2\<close> to \<open>x0\<close>;
  \<open>pair_perm\<close> exchanges \<open>x2\<close> and \<open>x3\<close>. \<open>updateState\<close> asks the order which of an element and
  its inverse image comes first, and for the cycle of length four this makes \<open>INACTIVE\<close> and
  \<open>REDUCER\<close> change places at the positions whose inverse image comes before the element.
\<close>

section \<open>The instance\<close>

definition turn_perm :: permutation where
  "turn_perm = (case enterCycles [[Lit 0, Lit 6, Lit 2, Lit 4], [Lit 1, Lit 7, Lit 3, Lit 5]]
     (Permutation_new 4) of Inl _ \<Rightarrow> Permutation_new 4 | Inr p \<Rightarrow> p)"

definition pair_perm :: permutation where
  "pair_perm = (case enterCycles [[Lit 4, Lit 6], [Lit 5, Lit 7]] (Permutation_new 4) of
     Inl _ \<Rightarrow> Permutation_new 4 | Inr p \<Rightarrow> p)"

definition one_of_each_pair :: "clause set" where
  "one_of_each_pair = {[Lit 0, Lit 2], [Lit 1, Lit 3], [Lit 4, Lit 6], [Lit 5, Lit 7]}"

definition search_setup :: "(group \<times> manager \<times> assignment) result" where
  "search_setup =
     andThen (addPermutation Group_new (Some turn_perm)) (\<lambda>g1.
     andThen (addPermutation g1 (Some pair_perm)) (\<lambda>g.
     andThen (IncreaseOrder 4 TRUE_LESS_FALSE) (\<lambda>o'.
     andThen (defineOrder id g CosyManager_new o') (\<lambda>m.
     andThen (Assignment_new 4) (\<lambda>a. Inr (g, m, a))))))"

definition search_assign ::
    "group \<Rightarrow> literal \<Rightarrow> manager \<times> assignment \<times> clause_injector
      \<Rightarrow> (manager \<times> assignment \<times> clause_injector) result" where
  "search_assign g l = (\<lambda>(m, a, ci).
     andThen (assignFromTrueLiteral a l) (\<lambda>a'.
     andThen (manager_updateNotify id g a' m l ci) (\<lambda>(m', ci'). Inr (m', a', ci'))))"

text \<open>The ESBPs waiting after the literals of a trail have been assigned in turn.\<close>

definition search_clauses :: "literal list \<Rightarrow> clause list result" where
  "search_clauses tr =
     andThen search_setup (\<lambda>(g, m, a).
     andThen (foldR (search_assign g) tr (m, a, ClauseInjector_new)) (\<lambda>(m', a', ci).
       Inr (concat (map (\<lambda>l. waiting ci ESBP (variable l)) tr))))"

section \<open>The generated clauses\<close>

lemma search_0: "search_clauses [Lit 0, Lit 3, Lit 4, Lit 7] = Inr [[Lit 1, Lit 6, Lit 5, Lit 2]]"
  by code_simp

lemma search_1: "search_clauses [Lit 0, Lit 3, Lit 5, Lit 6] = Inr [[Lit 4, Lit 7]]"
  by code_simp

lemma search_2:
  "search_clauses [Lit 1, Lit 2, Lit 4, Lit 7] = Inr [[Lit 0, Lit 5], [Lit 0, Lit 6, Lit 5]]"
  by code_simp

lemma four_literals:
  "variable (Lit 0) = 0" "variable (Lit 1) = 0" "variable (Lit 2) = 1" "variable (Lit 3) = 1"
  "variable (Lit 4) = 2" "variable (Lit 5) = 2" "variable (Lit 6) = 3" "variable (Lit 7) = 3"
  "isPositive (Lit 0)" "\<not> isPositive (Lit 1)" "isPositive (Lit 2)" "\<not> isPositive (Lit 3)"
  "isPositive (Lit 4)" "\<not> isPositive (Lit 5)" "isPositive (Lit 6)" "\<not> isPositive (Lit 7)"
  by code_simp+

lemma example_generators:
  "perm_repr [[Lit 0, Lit 6, Lit 2, Lit 4], [Lit 1, Lit 7, Lit 3, Lit 5]] [] turn_perm"
  "perm_repr [[Lit 4, Lit 6], [Lit 5, Lit 7]] [] pair_perm"
  using enterCycles_ok [OF perm_repr_new, of "[[Lit 0, Lit 6, Lit 2, Lit 4], [Lit 1, Lit 7, Lit 3, Lit 5]]" 4]
    enterCycles_ok [OF perm_repr_new, of "[[Lit 4, Lit 6], [Lit 5, Lit 7]]" 4]
  by (auto simp: turn_perm_def pair_perm_def)

lemma turn_images:
  "map (p_image turn_perm) [Lit 0, Lit 1, Lit 2, Lit 3, Lit 4, Lit 5, Lit 6, Lit 7] =
    map Some [Lit 6, Lit 7, Lit 4, Lit 5, Lit 0, Lit 1, Lit 2, Lit 3]"
  by code_simp

lemma pair_images:
  "map (p_image pair_perm) [Lit 0, Lit 1, Lit 2, Lit 3, Lit 4, Lit 5, Lit 6, Lit 7] =
    [None, None, None, None, Some (Lit 6), Some (Lit 7), Some (Lit 4), Some (Lit 5)]"
  by code_simp

lemma example_signed: "signed_perm turn_perm" "signed_perm pair_perm"
proof -
  have neg: "negated (Lit 0) = Lit 1" "negated (Lit 1) = Lit 0" "negated (Lit 2) = Lit 3"
    "negated (Lit 3) = Lit 2" "negated (Lit 4) = Lit 5" "negated (Lit 5) = Lit 4"
    "negated (Lit 6) = Lit 7" "negated (Lit 7) = Lit 6" by code_simp+
  have cycles: "p_cycles turn_perm = [Lit 0, Lit 6, Lit 2, Lit 4, Lit 1, Lit 7, Lit 3, Lit 5]"
    "p_cycles pair_perm = [Lit 4, Lit 6, Lit 5, Lit 7]"
    using example_generators by (simp_all add: perm_repr_def)
  show "signed_perm turn_perm" "signed_perm pair_perm"
    unfolding signed_perm_def cycles using turn_images pair_images by (simp_all add: neg)
qed

lemma example_symmetries:
  "symmetry_of turn_perm one_of_each_pair" "symmetry_of pair_perm one_of_each_pair"
proof -
  have f: "perm_fwd turn_perm = act turn_perm" "perm_fwd pair_perm = act pair_perm"
    using example_generators example_signed by (auto simp: perm_fwd_def perm_wf_def)
  show "symmetry_of turn_perm one_of_each_pair" "symmetry_of pair_perm one_of_each_pair"
    using turn_images pair_images
    by (auto simp: symmetry_of_def f one_of_each_pair_def act_def insert_commute)
qed

section \<open>Properties\<close>

text \<open>
  C9. The ESBPs can be unsound. Both generators are symmetries of the formula and the formula has
  a model, yet the clauses generated along three assignments of the variables, added to the
  formula, leave it without any model.
\<close>

lemma esbps_can_lose_all_models:
  "symmetry_of turn_perm one_of_each_pair \<and> symmetry_of pair_perm one_of_each_pair
    \<and> (\<exists>\<tau>. sat_all \<tau> one_of_each_pair)
    \<and> (\<exists>C0 C1 C2. search_clauses [Lit 0, Lit 3, Lit 4, Lit 7] = Inr C0
         \<and> search_clauses [Lit 0, Lit 3, Lit 5, Lit 6] = Inr C1
         \<and> search_clauses [Lit 1, Lit 2, Lit 4, Lit 7] = Inr C2
         \<and> \<not> (\<exists>\<tau>. sat_all \<tau> (one_of_each_pair \<union> set C0 \<union> set C1 \<union> set C2)))"
proof -
  have "sat_all (\<lambda>v. v = 0 \<or> v = 2) one_of_each_pair"
    by (simp add: sat_all_def one_of_each_pair_def sat_clause_def lit_true_def four_literals)
  moreover have "\<not> sat_all \<tau> (one_of_each_pair \<union> set [[Lit 1, Lit 6, Lit 5, Lit 2]]
      \<union> set [[Lit 4, Lit 7]] \<union> set [[Lit 0, Lit 5], [Lit 0, Lit 6, Lit 5]])" for \<tau>
    by (auto simp: sat_all_def one_of_each_pair_def sat_clause_def lit_true_def four_literals)
  ultimately show ?thesis
    using example_symmetries search_0 search_1 search_2 by blast
qed

end
