(* ===== verification/CNF_Models.thy ===== *)
theory CNF_Models
  imports Literals
begin

text \<open>
  The classes \<open>Clause\<close> (\<open>include/cosy/Clause.h\<close>, \<open>src/Clause.cc\<close>) and \<open>CNFModel\<close>
  (\<open>include/cosy/CNFModel.h\<close>, \<open>src/CNFModel.cc\<close>): the clauses of the problem without repeated
  literals or repeated clauses, and their statistics. A repeated clause is recognised by the hash
  of its text; the hash function of the standard library is the parameter \<open>hash\<close>. \<open>std::sort\<close>
  and \<open>std::unique\<close> on literals are \<open>sort\<close> (in the order of the class, by index) and
  \<open>remdups_adj\<close>. The set of tags is the list of its elements in insertion order.
\<close>

section \<open>State and operations\<close>

record cnf_clause =
  cl_size :: int32
  cl_literals :: "literal list"

definition Clause_create :: "literal list \<Rightarrow> cnf_clause" where
  "Clause_create literals = \<lparr>cl_size = of_nat (length literals), cl_literals = literals\<rparr>"

record cnf_model =
  cm_num_variables :: int64
  cm_num_clauses :: int64
  cm_num_unary_clauses :: int64
  cm_num_binary_clauses :: int64
  cm_num_ternary_clauses :: int64
  cm_num_large_clauses :: int64
  cm_clauses :: "cnf_clause list"
  cm_clauses_tag :: "int64 list"
  cm_positive_occurences :: "int64 list"
  cm_negative_occurences :: "int64 list"
  cm_occurences :: "int64 list"

definition CNFModel_new :: cnf_model where
  "CNFModel_new =
     \<lparr>cm_num_variables = 0, cm_num_clauses = 0, cm_num_unary_clauses = 0, cm_num_binary_clauses = 0,
      cm_num_ternary_clauses = 0, cm_num_large_clauses = 0, cm_clauses = [], cm_clauses_tag = [],
      cm_positive_occurences = [], cm_negative_occurences = [], cm_occurences = []\<rparr>"

definition CNFModel_numberOfVariables :: "cnf_model \<Rightarrow> int64" where
  "CNFModel_numberOfVariables m = cm_num_variables m + 1"

definition clause_word :: "literal list \<Rightarrow> string" where
  "clause_word literals = concat (map (\<lambda>l. to_string (signedValue l) @ '' '') literals)"

definition compute_tag :: "(string \<Rightarrow> int64) \<Rightarrow> literal list \<Rightarrow> int64" where
  "compute_tag hash literals = hash (clause_word literals)"

definition vec_incr :: "int64 list \<Rightarrow> int64 \<Rightarrow> int64 list result" where
  "vec_incr xs i = andThen (vec_at xs (unat i)) (\<lambda>x. vec_put xs (unat i) (x + 1))"

definition count_literal :: "int64 \<Rightarrow> literal \<Rightarrow> cnf_model \<Rightarrow> cnf_model result" where
  "count_literal num_vars l m =
     (let i = scast (variable l) :: int64;
          m1 = (if i <s num_vars
                then m\<lparr>cm_positive_occurences := vec_resize (cm_positive_occurences m) (unat num_vars) 0,
                       cm_negative_occurences := vec_resize (cm_negative_occurences m) (unat num_vars) 0,
                       cm_occurences := vec_resize (cm_occurences m) (unat num_vars) 0\<rparr>
                else m)
      in andThen (if isPositive l
                  then andThen (vec_incr (cm_positive_occurences m1) i)
                         (\<lambda>v. Inr (m1\<lparr>cm_positive_occurences := v\<rparr>))
                  else andThen (vec_incr (cm_negative_occurences m1) i)
                         (\<lambda>v. Inr (m1\<lparr>cm_negative_occurences := v\<rparr>))) (\<lambda>m2.
         andThen (vec_incr (cm_occurences m2) i) (\<lambda>v. Inr (m2\<lparr>cm_occurences := v\<rparr>))))"

definition compute_occurences :: "cnf_model \<Rightarrow> literal list \<Rightarrow> cnf_model result" where
  "compute_occurences m literals =
     foldR (count_literal (CNFModel_numberOfVariables m)) literals m"

definition compute_sizes :: "cnf_model \<Rightarrow> literal list \<Rightarrow> cnf_model" where
  "compute_sizes m literals =
     (if length literals = 1 then m\<lparr>cm_num_unary_clauses := cm_num_unary_clauses m + 1\<rparr>
      else if length literals = 2 then m\<lparr>cm_num_binary_clauses := cm_num_binary_clauses m + 1\<rparr>
      else if length literals = 3 then m\<lparr>cm_num_ternary_clauses := cm_num_ternary_clauses m + 1\<rparr>
      else m\<lparr>cm_num_large_clauses := cm_num_large_clauses m + 1\<rparr>)"

text \<open>The call leaves the literals sorted and without repetitions in the caller's vector.\<close>

definition CNFModel_addClause ::
    "(string \<Rightarrow> int64) \<Rightarrow> cnf_model \<Rightarrow> literal list \<Rightarrow> (cnf_model \<times> literal list) result" where
  "CNFModel_addClause hash m literals = check (length literals > 0)
     (let ls = remdups_adj (sort literals);
          var = variable (last ls);
          m1 = (if ucast (cm_num_variables m) <s var then m\<lparr>cm_num_variables := scast var\<rparr> else m);
          m2 = m1\<lparr>cm_num_clauses := cm_num_clauses m1 + 1\<rparr>;
          tag = compute_tag hash ls
      in if tag \<in> set (cm_clauses_tag m2) then Inr (m2, ls)
         else
           let m3 = m2\<lparr>cm_clauses_tag := cm_clauses_tag m2 @ [tag],
                       cm_clauses := cm_clauses m2 @ [Clause_create ls]\<rparr>
           in andThen (compute_occurences m3 ls) (\<lambda>m4. Inr (compute_sizes m4 ls, ls)))"

section \<open>Sorted clauses\<close>

definition lit_below :: "nat \<Rightarrow> literal \<Rightarrow> bool" where
  "lit_below n l \<longleftrightarrow> unat (variable l) < n \<and> n \<le> 2 ^ 30"

lemma lit_below_small: "lit_below n l \<Longrightarrow> small_var (variable l)"
  by (simp add: lit_below_def small_var_def)

lemma literal_le_variable:
  assumes "l \<le> m" "small_var (variable l)" "small_var (variable m)"
  shows "unat (variable l) \<le> unat (variable m)"
proof -
  have small: "unat (index l) < 2 ^ 31" "unat (index m) < 2 ^ 31"
    using assms(2,3) by (auto simp: unat_index small_var_def)
  have "sint (index l) \<le> sint (index m)"
    using assms(1) by (simp add: less_eq_literal_def word_sle_eq)
  then have "int (unat (index l)) \<le> int (unat (index m))"
    using small by (simp add: sint_small)
  then have "unat (index l) \<le> unat (index m)" by (simp only: of_nat_le_iff)
  then have "unat (index l) div 2 \<le> unat (index m) div 2" by (rule div_le_mono)
  then show ?thesis using assms(2,3) by (simp only: unat_index_div_2)
qed

lemma distinct_remdups_adj_sorted: "sorted xs \<Longrightarrow> distinct (remdups_adj (xs :: 'a::linorder list))"
proof (induction xs rule: remdups_adj.induct)
  case (3 x y xs)
  then show ?case by (cases "x = y") (auto simp: order_le_less)
qed auto

lemma normal_clause:
  "sorted (remdups_adj (sort ls))" "distinct (remdups_adj (sort ls))"
  "set (remdups_adj (sort ls)) = set ls" "ls \<noteq> [] \<Longrightarrow> remdups_adj (sort ls) \<noteq> []"
  by (simp_all add: distinct_remdups_adj_sorted sorted_remdups_adj del: sort_key_simps)
    (metis length_0_conv length_sort)

lemma last_sorted_max:
  assumes "sorted ls" "ls \<noteq> []" "l \<in> set ls" "\<forall>l \<in> set ls. small_var (variable l)"
  shows "unat (variable l) \<le> unat (variable (last ls))"
proof -
  obtain i where i: "i < length ls" "l = ls ! i" using assms(3) by (auto simp: in_set_conv_nth)
  have "ls ! i \<le> ls ! (length ls - 1)"
    using assms(1,2) i(1) by (intro sorted_nth_mono) auto
  then have "l \<le> last ls" using i(2) assms(2) by (simp add: last_conv_nth)
  then show ?thesis using assms by (intro literal_le_variable) simp_all
qed

section \<open>Counting occurrences\<close>

definition entry :: "int64 list \<Rightarrow> nat \<Rightarrow> int64" where
  "entry xs v = (if v < length xs then xs ! v else 0)"

lemma entry_resize: "length xs \<le> n \<Longrightarrow> entry (vec_resize xs n 0) v = entry xs v"
  by (simp add: entry_def nth_vec_resize)

lemma vec_incr_ok:
  "unat i < length xs \<Longrightarrow> \<exists>ys. vec_incr xs i = Inr ys \<and> length ys = length xs
     \<and> entry ys = (\<lambda>v. entry xs v + of_bool (v = unat i))"
  by (auto simp: vec_incr_def entry_def fun_eq_iff nth_list_update)

definition occurs :: "(literal \<Rightarrow> bool) \<Rightarrow> literal list \<Rightarrow> nat \<Rightarrow> int64" where
  "occurs P ls v = of_nat (length (filter (\<lambda>l. P l \<and> unat (variable l) = v) ls))"

lemma occurs_Nil [simp]: "occurs P [] v = 0"
  by (simp add: occurs_def)

lemma occurs_snoc:
  "occurs P (ls @ [l]) v = occurs P ls v + of_bool (P l \<and> unat (variable l) = v)"
  by (simp add: occurs_def)

text \<open>The three occurrence tables of \<open>m\<close> are those of \<open>m0\<close> with the literals \<open>ls\<close> counted.\<close>

definition counted :: "nat \<Rightarrow> cnf_model \<Rightarrow> literal list \<Rightarrow> cnf_model \<Rightarrow> bool" where
  "counted n m0 ls m \<longleftrightarrow>
     length (cm_positive_occurences m) = n \<and> length (cm_negative_occurences m) = n
     \<and> length (cm_occurences m) = n
     \<and> (\<forall>v. entry (cm_positive_occurences m) v =
          entry (cm_positive_occurences m0) v + occurs isPositive ls v)
     \<and> (\<forall>v. entry (cm_negative_occurences m) v =
          entry (cm_negative_occurences m0) v + occurs isNegative ls v)
     \<and> (\<forall>v. entry (cm_occurences m) v = entry (cm_occurences m0) v + occurs (\<lambda>l. True) ls v)
     \<and> m = m0\<lparr>cm_positive_occurences := cm_positive_occurences m,
              cm_negative_occurences := cm_negative_occurences m,
              cm_occurences := cm_occurences m\<rparr>"

lemma scast_variable:
  assumes "lit_below n l"
  shows "unat (scast (variable l) :: int64) = unat (variable l)"
    and "scast (variable l) <s (of_nat n :: int64)"
proof -
  have n: "n \<le> 2 ^ 30" and v: "unat (variable l) < n" using assms by (simp_all add: lit_below_def)
  then show u: "unat (scast (variable l) :: int64) = unat (variable l)"
    by (intro unat_scast_small) simp
  have "sint (scast (variable l) :: int64) = int (unat (variable l))"
    using u n v by (simp add: sint_small)
  moreover have "sint (of_nat n :: int64) = int n"
    using n by (subst sint_small) (simp_all add: unat_of_nat)
  ultimately show "scast (variable l) <s (of_nat n :: int64)"
    using v by (simp only: word_sless_alt of_nat_less_iff)
qed

lemma counted_resize:
  assumes "length (cm_positive_occurences m0) \<le> n" "length (cm_negative_occurences m0) \<le> n"
    "length (cm_occurences m0) \<le> n"
  shows "counted n m0 [] (m0\<lparr>cm_positive_occurences := vec_resize (cm_positive_occurences m0) n 0,
     cm_negative_occurences := vec_resize (cm_negative_occurences m0) n 0,
     cm_occurences := vec_resize (cm_occurences m0) n 0\<rparr>)"
  using assms by (simp add: counted_def entry_resize)

lemma vec_resize_same: "length xs = n \<Longrightarrow> vec_resize xs n d = xs"
  by (simp add: vec_resize_def)

lemma count_literal_step:
  assumes m: "counted n m0 ls (m\<lparr>cm_positive_occurences := vec_resize (cm_positive_occurences m) n 0,
       cm_negative_occurences := vec_resize (cm_negative_occurences m) n 0,
       cm_occurences := vec_resize (cm_occurences m) n 0\<rparr>)" (is "counted n m0 ls ?m")
    and l: "lit_below n l"
  shows "\<exists>m'. count_literal (of_nat n) l m = Inr m' \<and> counted n m0 (ls @ [l]) m'"
proof -
  let ?i = "scast (variable l) :: int64"
  have i: "unat ?i = unat (variable l)" "?i <s of_nat n" "unat ?i < n"
    using scast_variable [OF l] l by (simp_all add: lit_below_def)
  have n: "unat (of_nat n :: int64) = n" using l by (simp add: lit_below_def unat_of_nat)
  have len: "length (cm_positive_occurences ?m) = n" "length (cm_negative_occurences ?m) = n"
      "length (cm_occurences ?m) = n" by simp_all
  obtain os where os: "vec_incr (cm_occurences ?m) ?i = Inr os" "length os = n"
      "entry os = (\<lambda>v. entry (cm_occurences ?m) v + of_bool (v = unat ?i))"
    using vec_incr_ok [of ?i "cm_occurences ?m"] i(3) len by auto
  show ?thesis
  proof (cases "isPositive l")
    case True
    obtain ps where ps: "vec_incr (cm_positive_occurences ?m) ?i = Inr ps" "length ps = n"
        "entry ps = (\<lambda>v. entry (cm_positive_occurences ?m) v + of_bool (v = unat ?i))"
      using vec_incr_ok [of ?i "cm_positive_occurences ?m"] i(3) len by auto
    have "count_literal (of_nat n) l m = Inr (?m\<lparr>cm_positive_occurences := ps, cm_occurences := os\<rparr>)"
      using i(2) True ps(1) os(1) by (simp add: count_literal_def n Let_def)
    moreover have "counted n m0 (ls @ [l]) (?m\<lparr>cm_positive_occurences := ps, cm_occurences := os\<rparr>)"
      using m True ps(2,3) os(2,3) i(1) by (auto simp: counted_def occurs_snoc)
    ultimately show ?thesis by blast
  next
    case False
    obtain ps where ps: "vec_incr (cm_negative_occurences ?m) ?i = Inr ps" "length ps = n"
        "entry ps = (\<lambda>v. entry (cm_negative_occurences ?m) v + of_bool (v = unat ?i))"
      using vec_incr_ok [of ?i "cm_negative_occurences ?m"] i(3) len by auto
    have "count_literal (of_nat n) l m = Inr (?m\<lparr>cm_negative_occurences := ps, cm_occurences := os\<rparr>)"
      using i(2) False ps(1) os(1) by (simp add: count_literal_def n Let_def)
    moreover have "counted n m0 (ls @ [l]) (?m\<lparr>cm_negative_occurences := ps, cm_occurences := os\<rparr>)"
      using m False ps(2,3) os(2,3) i(1) by (auto simp: counted_def occurs_snoc)
    ultimately show ?thesis by blast
  qed
qed

lemma compute_occurences_ok:
  assumes "length (cm_positive_occurences m) \<le> n" "length (cm_negative_occurences m) \<le> n"
    "length (cm_occurences m) \<le> n" and ls: "ls \<noteq> []" "\<forall>l \<in> set ls. lit_below n l"
    and n: "CNFModel_numberOfVariables m = of_nat n"
  shows "\<exists>m'. compute_occurences m ls = Inr m' \<and> counted n m ls m'"
proof -
  let ?R = "\<lambda>m. m\<lparr>cm_positive_occurences := vec_resize (cm_positive_occurences m) n 0,
       cm_negative_occurences := vec_resize (cm_negative_occurences m) n 0,
       cm_occurences := vec_resize (cm_occurences m) n 0\<rparr>"
  have same: "?R m' = m'" if "counted n m pre m'" for pre m'
    using that by (simp add: counted_def vec_resize_same)
  have "\<exists>m'. foldR (count_literal (of_nat n)) ls m = Inr m'
      \<and> (counted n m ls (?R m') \<and> (ls \<noteq> [] \<longrightarrow> counted n m ls m'))"
  proof (rule foldR_total)
    show "counted n m [] (?R m) \<and> ([] \<noteq> [] \<longrightarrow> counted n m [] m)"
      using counted_resize assms(1-3) by simp
  next
    fix pre l post m1
    assume "ls = pre @ l # post" and m1: "counted n m pre (?R m1) \<and> (pre \<noteq> [] \<longrightarrow> counted n m pre m1)"
    then have "lit_below n l" using ls(2) by simp
    then obtain m2 where m2: "count_literal (of_nat n) l m1 = Inr m2" "counted n m (pre @ [l]) m2"
      using count_literal_step m1 by blast
    then show "\<exists>m2. count_literal (of_nat n) l m1 = Inr m2 \<and> (counted n m (pre @ [l]) (?R m2)
        \<and> (pre @ [l] \<noteq> [] \<longrightarrow> counted n m (pre @ [l]) m2))"
      using same [OF m2(2)] by (intro exI [of _ m2]) simp
  qed
  then show ?thesis using ls(1) n by (auto simp: compute_occurences_def)
qed

section \<open>Well-formed models\<close>

text \<open>The clauses a model holds, and the number of literals over a variable in a list of clauses.\<close>

definition clause_lists :: "cnf_model \<Rightarrow> literal list list" where
  "clause_lists m = map cl_literals (cm_clauses m)"

definition total_occurs :: "(literal \<Rightarrow> bool) \<Rightarrow> literal list list \<Rightarrow> nat \<Rightarrow> int64" where
  "total_occurs P cs v = occurs P (concat cs) v"

definition num_vars :: "cnf_model \<Rightarrow> nat" where
  "num_vars m = unat (cm_num_variables m) + 1"

definition sized :: "(nat \<Rightarrow> bool) \<Rightarrow> literal list list \<Rightarrow> int64" where
  "sized P cs = of_nat (length (filter (\<lambda>c. P (length c)) cs))"

definition wf_cnf :: "(string \<Rightarrow> int64) \<Rightarrow> cnf_model \<Rightarrow> bool" where
  "wf_cnf hash m \<longleftrightarrow>
     num_vars m \<le> 2 ^ 30
     \<and> (\<forall>c \<in> set (cm_clauses m). cl_size c = of_nat (length (cl_literals c)))
     \<and> (\<forall>c \<in> set (clause_lists m). c \<noteq> [] \<and> sorted c \<and> distinct c \<and> (\<forall>l \<in> set c. lit_below (num_vars m) l))
     \<and> cm_clauses_tag m = map (compute_tag hash) (clause_lists m)
     \<and> distinct (cm_clauses_tag m)
     \<and> length (cm_positive_occurences m) = length (cm_occurences m)
     \<and> length (cm_negative_occurences m) = length (cm_occurences m)
     \<and> length (cm_occurences m) \<le> num_vars m
     \<and> (\<forall>v. entry (cm_positive_occurences m) v = total_occurs isPositive (clause_lists m) v)
     \<and> (\<forall>v. entry (cm_negative_occurences m) v = total_occurs isNegative (clause_lists m) v)
     \<and> (\<forall>v. entry (cm_occurences m) v = total_occurs (\<lambda>l. True) (clause_lists m) v)
     \<and> cm_num_unary_clauses m = sized (\<lambda>k. k = 1) (clause_lists m)
     \<and> cm_num_binary_clauses m = sized (\<lambda>k. k = 2) (clause_lists m)
     \<and> cm_num_ternary_clauses m = sized (\<lambda>k. k = 3) (clause_lists m)
     \<and> cm_num_large_clauses m = sized (\<lambda>k. k > 3) (clause_lists m)"

lemma wf_cnf_new: "wf_cnf hash CNFModel_new"
  by (simp add: wf_cnf_def CNFModel_new_def num_vars_def clause_lists_def total_occurs_def entry_def
      sized_def)

lemma numberOfVariables_num_vars:
  assumes "num_vars m \<le> 2 ^ 30"
  shows "CNFModel_numberOfVariables m = of_nat (num_vars m)"
proof -
  have "(of_nat (unat (cm_num_variables m)) :: int64) = cm_num_variables m" by simp
  then show ?thesis by (simp add: CNFModel_numberOfVariables_def num_vars_def add.commute)
qed

section \<open>Adding a clause\<close>

lemma occurs_append: "occurs P (ls @ ms) v = occurs P ls v + occurs P ms v"
  by (simp add: occurs_def)

lemma total_occurs_snoc: "total_occurs P (cs @ [c]) v = total_occurs P cs v + occurs P c v"
  by (simp add: total_occurs_def occurs_append)

lemma sized_snoc: "sized P (cs @ [c]) = sized P cs + of_bool (P (length c))"
  by (simp add: sized_def)

lemma update_num_variables:
  fixes v :: int32
  assumes m: "num_vars m \<le> 2 ^ 30" and v: "unat v < 2 ^ 30"
  defines "m1 \<equiv> if ucast (cm_num_variables m) <s v then m\<lparr>cm_num_variables := scast v\<rparr> else m"
  shows "num_vars m1 = max (num_vars m) (Suc (unat v))"
    and "m1 = m\<lparr>cm_num_variables := cm_num_variables m1\<rparr>"
proof -
  have k: "unat (cm_num_variables m) < 2 ^ 30" using m by (simp add: num_vars_def)
  then have u: "unat (ucast (cm_num_variables m) :: int32) = unat (cm_num_variables m)"
    by (simp add: unsigned_ucast_eq take_bit_nat_eq_self)
  have "ucast (cm_num_variables m) <s v \<longleftrightarrow> unat (cm_num_variables m) < unat v"
  proof -
    have "sint (ucast (cm_num_variables m) :: int32) = int (unat (cm_num_variables m))"
      by (subst sint_small) (use k u in simp_all)
    moreover have "sint v = int (unat v)" by (rule sint_small) (use v in simp)
    ultimately show ?thesis by (simp only: word_sless_alt of_nat_less_iff)
  qed
  moreover have "unat (scast v :: int64) = unat v" using v by (intro unat_scast_small) simp
  ultimately show "num_vars m1 = max (num_vars m) (Suc (unat v))"
    by (simp add: m1_def num_vars_def max_def)
  show "m1 = m\<lparr>cm_num_variables := cm_num_variables m1\<rparr>" by (simp add: m1_def)
qed

text \<open>
  One call: the number of variables grows to hold the largest variable, the clause is counted,
  and its normal form is stored when its tag is new.
\<close>

lemma addClause_ok:
  assumes wf: "wf_cnf hash m" and ls: "ls \<noteq> []" "\<forall>l \<in> set ls. lit_below (2 ^ 30) l"
  defines "c \<equiv> remdups_adj (sort ls)"
  shows "\<exists>m'. CNFModel_addClause hash m ls = Inr (m', c) \<and> wf_cnf hash m'
    \<and> num_vars m' = max (num_vars m) (Suc (unat (variable (last c))))
    \<and> cm_num_clauses m' = cm_num_clauses m + 1
    \<and> clause_lists m' = (if compute_tag hash c \<in> set (cm_clauses_tag m) then clause_lists m
         else clause_lists m @ [c])
    \<and> (compute_tag hash c \<in> set (cm_clauses_tag m) \<longrightarrow> cm_occurences m' = cm_occurences m)
    \<and> (compute_tag hash c \<notin> set (cm_clauses_tag m) \<longrightarrow> length (cm_occurences m') = num_vars m')"
proof -
  let ?v = "variable (last c)"
  have c: "sorted c" "distinct c" "set c = set ls" "c \<noteq> []"
    using normal_clause [of ls] ls(1) by (simp_all add: c_def)
  have small: "unat ?v < 2 ^ 30" using c ls(2) by (auto simp: lit_below_def)
  have nv: "num_vars m \<le> 2 ^ 30" using wf by (simp add: wf_cnf_def)
  define m1 where "m1 = (if ucast (cm_num_variables m) <s ?v
    then m\<lparr>cm_num_variables := scast ?v\<rparr> else m)"
  note m1 = update_num_variables [OF nv small, folded m1_def]
  let ?n = "num_vars m1"
  have n_le: "?n \<le> 2 ^ 30" using m1(1) nv small by simp
  have below: "\<forall>l \<in> set c. lit_below ?n l"
  proof
    fix l assume l: "l \<in> set c"
    then have "unat (variable l) \<le> unat ?v"
      using last_sorted_max [OF c(1,4) l] ls(2) c(3) lit_below_small by blast
    then show "lit_below ?n l" using m1(1) n_le by (simp add: lit_below_def)
  qed
  have below_old: "lit_below ?n l" if "lit_below (num_vars m) l" for l
    using that m1(1) n_le by (auto simp: lit_below_def)
  have "length (cm_occurences m) \<le> num_vars m" using wf by (simp add: wf_cnf_def)
  then have occ_le: "length (cm_occurences m) \<le> ?n" by (simp add: m1(1) le_max_iff_disj)
  define m2 where "m2 = m1\<lparr>cm_num_clauses := cm_num_clauses m1 + 1\<rparr>"
  have m2: "m2 = m\<lparr>cm_num_variables := cm_num_variables m1, cm_num_clauses := cm_num_clauses m + 1\<rparr>"
    unfolding m2_def by (subst m1(2), subst (2) m1(2)) simp
  have call: "CNFModel_addClause hash m ls =
    (if compute_tag hash c \<in> set (cm_clauses_tag m2) then Inr (m2, c)
     else andThen (compute_occurences (m2\<lparr>cm_clauses_tag := cm_clauses_tag m2 @ [compute_tag hash c],
            cm_clauses := cm_clauses m2 @ [Clause_create c]\<rparr>) c)
       (\<lambda>m4. Inr (compute_sizes m4 c, c)))"
    using ls(1) by (simp add: CNFModel_addClause_def m1_def m2_def c_def Let_def)
  have nv2: "num_vars m2 = ?n" by (simp add: m2_def num_vars_def)
  show ?thesis
  proof (cases "compute_tag hash c \<in> set (cm_clauses_tag m)")
    case True
    have "cm_positive_occurences m2 = cm_positive_occurences m" "clause_lists m2 = clause_lists m"
      by (simp_all add: m2 clause_lists_def)
    then have "wf_cnf hash m2"
      using wf occ_le below_old n_le unfolding wf_cnf_def nv2 by (elim conjE) (simp add: m2)
    then show ?thesis
      using True call m1(1) nv2 by (intro exI [of _ m2]) (simp add: m2 clause_lists_def)
  next
    case False
    define m3 where "m3 = m2\<lparr>cm_clauses_tag := cm_clauses_tag m2 @ [compute_tag hash c],
            cm_clauses := cm_clauses m2 @ [Clause_create c]\<rparr>"
    have nv3: "num_vars m3 = ?n" by (simp add: m3_def num_vars_def m2_def)
    have len: "length (cm_positive_occurences m3) \<le> ?n" "length (cm_negative_occurences m3) \<le> ?n"
        "length (cm_occurences m3) \<le> ?n"
      using wf occ_le by (simp_all add: m3_def m2 wf_cnf_def)
    obtain m4 where m4: "compute_occurences m3 c = Inr m4" "counted ?n m3 c m4"
      using compute_occurences_ok [OF len c(4) below] numberOfVariables_num_vars [of m3] nv3 n_le
      by auto
    let ?m = "compute_sizes m4 c"
    have eq: "CNFModel_addClause hash m ls = Inr (?m, c)"
      using False call m4(1) by (simp add: m3_def m2)
    have m4': "m4 = m3\<lparr>cm_positive_occurences := cm_positive_occurences m4,
        cm_negative_occurences := cm_negative_occurences m4, cm_occurences := cm_occurences m4\<rparr>"
      using m4(2) by (simp add: counted_def)
    have tables: "cm_positive_occurences ?m = cm_positive_occurences m4"
        "cm_negative_occurences ?m = cm_negative_occurences m4" "cm_occurences ?m = cm_occurences m4"
        "cm_clauses ?m = cm_clauses m4" "cm_clauses_tag ?m = cm_clauses_tag m4"
        "cm_num_variables ?m = cm_num_variables m4" "cm_num_clauses ?m = cm_num_clauses m4"
      by (simp_all add: compute_sizes_def)
    have kept: "cm_clauses m4 = cm_clauses m @ [Clause_create c]"
        "cm_clauses_tag m4 = cm_clauses_tag m @ [compute_tag hash c]"
        "cm_num_variables m4 = cm_num_variables m1" "cm_num_clauses m4 = cm_num_clauses m + 1"
        "cm_num_unary_clauses m4 = cm_num_unary_clauses m" "cm_num_binary_clauses m4 = cm_num_binary_clauses m"
        "cm_num_ternary_clauses m4 = cm_num_ternary_clauses m" "cm_num_large_clauses m4 = cm_num_large_clauses m"
      by (subst m4', simp add: m3_def m2)+
    have lists: "clause_lists ?m = clause_lists m @ [c]"
      by (simp add: clause_lists_def tables kept Clause_create_def)
    have nv4: "num_vars ?m = ?n" by (simp add: num_vars_def tables kept)
    have sizes: "cm_num_unary_clauses ?m = sized (\<lambda>k. k = 1) (clause_lists ?m)"
        "cm_num_binary_clauses ?m = sized (\<lambda>k. k = 2) (clause_lists ?m)"
        "cm_num_ternary_clauses ?m = sized (\<lambda>k. k = 3) (clause_lists ?m)"
        "cm_num_large_clauses ?m = sized (\<lambda>k. k > 3) (clause_lists ?m)"
    proof -
      have old: "cm_num_unary_clauses m = sized (\<lambda>k. k = 1) (clause_lists m)"
          "cm_num_binary_clauses m = sized (\<lambda>k. k = 2) (clause_lists m)"
          "cm_num_ternary_clauses m = sized (\<lambda>k. k = 3) (clause_lists m)"
          "cm_num_large_clauses m = sized (\<lambda>k. k > 3) (clause_lists m)"
        using wf unfolding wf_cnf_def by blast+
      have "0 < length c" using c(4) by simp
      then consider "length c = 1" | "length c = 2" | "length c = 3" | "length c > 3" by linarith
      then show "cm_num_unary_clauses ?m = sized (\<lambda>k. k = 1) (clause_lists ?m)"
          "cm_num_binary_clauses ?m = sized (\<lambda>k. k = 2) (clause_lists ?m)"
          "cm_num_ternary_clauses ?m = sized (\<lambda>k. k = 3) (clause_lists ?m)"
          "cm_num_large_clauses ?m = sized (\<lambda>k. k > 3) (clause_lists ?m)"
        unfolding lists sized_snoc by (cases; simp add: compute_sizes_def kept old)+
    qed
    have occs: "entry (cm_positive_occurences ?m) v = total_occurs isPositive (clause_lists ?m) v"
        "entry (cm_negative_occurences ?m) v = total_occurs isNegative (clause_lists ?m) v"
        "entry (cm_occurences ?m) v = total_occurs (\<lambda>l. True) (clause_lists ?m) v" for v
      using wf m4(2) unfolding lists total_occurs_snoc tables
      by (simp_all add: wf_cnf_def counted_def m3_def m2)
    have lens: "length (cm_positive_occurences ?m) = ?n" "length (cm_negative_occurences ?m) = ?n"
        "length (cm_occurences ?m) = ?n"
      using m4(2) by (simp_all add: tables counted_def)
    have old: "\<forall>c \<in> set (cm_clauses m). cl_size c = of_nat (length (cl_literals c))"
        "\<forall>c \<in> set (clause_lists m). c \<noteq> [] \<and> sorted c \<and> distinct c \<and> (\<forall>l \<in> set c. lit_below (num_vars m) l)"
        "cm_clauses_tag m = map (compute_tag hash) (clause_lists m)" "distinct (cm_clauses_tag m)"
      using wf unfolding wf_cnf_def by blast+
    have "\<forall>c \<in> set (cm_clauses ?m). cl_size c = of_nat (length (cl_literals c))"
      using old(1) by (simp add: tables kept Clause_create_def)
    moreover have "\<forall>c \<in> set (clause_lists ?m). c \<noteq> [] \<and> sorted c \<and> distinct c \<and> (\<forall>l \<in> set c. lit_below ?n l)"
      using old(2) c below below_old by (simp add: lists)
    moreover have "cm_clauses_tag ?m = map (compute_tag hash) (clause_lists ?m)"
      using old(3) by (simp add: lists tables kept)
    moreover have "distinct (cm_clauses_tag ?m)"
      using old(4) False by (simp add: tables kept)
    ultimately have "wf_cnf hash ?m"
      unfolding wf_cnf_def nv4 using n_le sizes occs
      by (intro conjI allI) (assumption | simp only: lens order_refl)+
    then show ?thesis
      using eq False nv4 m1(1) lists lens by (intro exI [of _ ?m]) (simp add: tables kept)
  qed
qed

section \<open>Entering the clauses of a problem\<close>

definition normal_form :: "literal list \<Rightarrow> literal list" where
  "normal_form c = remdups_adj (sort c)"

definition enter_clause ::
    "(string \<Rightarrow> int64) \<Rightarrow> literal list \<Rightarrow> cnf_model \<Rightarrow> cnf_model result" where
  "enter_clause hash c m = andThen (CNFModel_addClause hash m c) (\<lambda>(m', _). Inr m')"

text \<open>
  What the model is after the clauses \<open>css\<close>. When the hash function keeps the clauses apart, no
  clause is lost and the occurrence table covers every variable.
\<close>

definition entered_model ::
    "(string \<Rightarrow> int64) \<Rightarrow> bool \<Rightarrow> literal list list \<Rightarrow> cnf_model \<Rightarrow> bool" where
  "entered_model hash apart css m \<longleftrightarrow>
     wf_cnf hash m \<and> cm_num_clauses m = of_nat (length css)
     \<and> (\<forall>c \<in> set css. \<forall>l \<in> set c. lit_below (num_vars m) l)
     \<and> (num_vars m = 1 \<or> (\<exists>c \<in> set css. \<exists>l \<in> set c. num_vars m = Suc (unat (variable l))))
     \<and> set (clause_lists m) \<subseteq> normal_form ` set css
     \<and> (apart \<longrightarrow> set (clause_lists m) = normal_form ` set css
          \<and> (css \<noteq> [] \<longrightarrow> length (cm_occurences m) = num_vars m))"

lemma enter_clause_step:
  assumes m: "entered_model hash apart pre m" and c: "c \<noteq> []" "\<forall>l \<in> set c. lit_below (2 ^ 30) l"
    and apart: "apart \<Longrightarrow> inj_on (compute_tag hash) (insert (normal_form c) (normal_form ` set pre))"
  shows "\<exists>m'. enter_clause hash c m = Inr m' \<and> entered_model hash apart (pre @ [c]) m'"
proof -
  let ?n = "normal_form c"
  have wf: "wf_cnf hash m" using m by (simp add: entered_model_def)
  obtain m' where m': "CNFModel_addClause hash m c = Inr (m', ?n)" "wf_cnf hash m'"
      "num_vars m' = max (num_vars m) (Suc (unat (variable (last ?n))))"
      "cm_num_clauses m' = cm_num_clauses m + 1"
      "clause_lists m' = (if compute_tag hash ?n \<in> set (cm_clauses_tag m) then clause_lists m
         else clause_lists m @ [?n])"
      "compute_tag hash ?n \<in> set (cm_clauses_tag m) \<longrightarrow> cm_occurences m' = cm_occurences m"
      "compute_tag hash ?n \<notin> set (cm_clauses_tag m) \<longrightarrow> length (cm_occurences m') = num_vars m'"
    using addClause_ok [OF wf c] unfolding normal_form_def by blast
  have n: "sorted ?n" "set ?n = set c" "?n \<noteq> []"
    using normal_clause [of c] c(1) by (simp_all add: normal_form_def)
  have le: "num_vars m' \<le> 2 ^ 30" using m'(2) by (simp add: wf_cnf_def)
  have new: "lit_below (num_vars m') l" if "l \<in> set c" for l
  proof -
    have "unat (variable l) \<le> unat (variable (last ?n))"
      using last_sorted_max [OF n(1,3)] n(2) that c(2) lit_below_small by blast
    then show ?thesis using m'(3) le by (simp add: lit_below_def)
  qed
  have old: "lit_below (num_vars m') l" if "lit_below (num_vars m) l" for l
    using that m'(3) le by (auto simp: lit_below_def)
  have last: "last ?n \<in> set c" using n last_in_set by blast
  have tags: "set (cm_clauses_tag m) = compute_tag hash ` set (clause_lists m)"
    using wf by (simp add: wf_cnf_def)
  have full: "set (clause_lists m') = normal_form ` set (pre @ [c])
      \<and> length (cm_occurences m') = num_vars m'" if apart
  proof -
    have s: "set (clause_lists m) = normal_form ` set pre" using m that by (simp add: entered_model_def)
    have "compute_tag hash ?n \<in> set (cm_clauses_tag m) \<longleftrightarrow> ?n \<in> set (clause_lists m)"
      using apart [OF that] unfolding tags s by (auto simp: inj_on_def)
    moreover have "num_vars m' = num_vars m" if "?n \<in> set (clause_lists m)"
    proof -
      have "lit_below (num_vars m) (last ?n)"
        using wf that n(3) unfolding wf_cnf_def by auto
      then show ?thesis using m'(3) by (simp add: lit_below_def)
    qed
    moreover have "pre \<noteq> []" if "?n \<in> set (clause_lists m)" using that s by auto
    moreover have "length (cm_occurences m) = num_vars m" if "pre \<noteq> []"
      using m that \<open>apart\<close> by (simp add: entered_model_def)
    ultimately show ?thesis using m'(5-7) s by auto
  qed
  have "entered_model hash apart (pre @ [c]) m'"
    unfolding entered_model_def
  proof (intro conjI)
    show "cm_num_clauses m' = of_nat (length (pre @ [c]))"
      using m m'(4) by (simp add: entered_model_def)
    show "\<forall>d \<in> set (pre @ [c]). \<forall>l \<in> set d. lit_below (num_vars m') l"
      using m new old by (auto simp: entered_model_def)
    show "num_vars m' = 1 \<or> (\<exists>d \<in> set (pre @ [c]). \<exists>l \<in> set d. num_vars m' = Suc (unat (variable l)))"
      using m m'(3) last by (auto simp: entered_model_def max_def)
    show "set (clause_lists m') \<subseteq> normal_form ` set (pre @ [c])"
      using m m'(5) by (auto simp: entered_model_def)
    show "apart \<longrightarrow> set (clause_lists m') = normal_form ` set (pre @ [c])
        \<and> (pre @ [c] \<noteq> [] \<longrightarrow> length (cm_occurences m') = num_vars m')"
      using full by blast
  qed (rule m'(2))
  with m'(1) show ?thesis by (simp add: enter_clause_def)
qed

lemma enter_clauses_ok:
  assumes "\<forall>c \<in> set css. c \<noteq> [] \<and> (\<forall>l \<in> set c. lit_below (2 ^ 30) l)"
    and apart: "apart \<Longrightarrow> inj_on (compute_tag hash) (normal_form ` set css)"
  shows "\<exists>m. foldR (enter_clause hash) css CNFModel_new = Inr m \<and> entered_model hash apart css m"
proof (rule foldR_total)
  show "entered_model hash apart [] CNFModel_new"
    using wf_cnf_new by (simp add: entered_model_def num_vars_def clause_lists_def) (simp add: CNFModel_new_def)
next
  fix pre c post m
  assume css: "css = pre @ c # post" and m: "entered_model hash apart pre m"
  have "inj_on (compute_tag hash) (insert (normal_form c) (normal_form ` set pre))" if apart
    by (rule inj_on_subset [OF apart [OF that]]) (auto simp: css)
  then show "\<exists>m'. enter_clause hash c m = Inr m' \<and> entered_model hash apart (pre @ [c]) m'"
    using enter_clause_step [OF m] assms(1) css by auto
qed

end
