(* ===== verification/Stream_Buffers.thy ===== *)
theory Stream_Buffers
  imports Cosy_Prelude
begin

text \<open>
  The class \<open>StreamBuffer\<close> of \<open>include/cosy/StreamBuffer.h\<close> and \<open>src/StreamBuffer.cc\<close>: a
  buffered character source over a compressed file. \<open>gzread\<close> belongs to zlib and is the parameter
  \<open>gz\<close>: from a file state and a length it gives the returned count, the bytes stored in the
  buffer and the next file state. \<open>gz_serves gz view\<close> is its documented behaviour on a readable
  file with the remaining content \<open>view f\<close>: it stores the next bytes, at most as many as asked
  for, none only at the end of the file, and returns how many. The loops of the class read until a
  character stops them, so they are partial functions: \<open>None\<close> is a loop that does not end.
  \<open>content\<close> is the text still to be read, and the lemmas give every operation on it.
\<close>

section \<open>State and operations\<close>

definition kBufferSize :: nat where
  "kBufferSize = 4096"

type_synonym 'f gzread = "'f \<Rightarrow> nat \<Rightarrow> int32 \<times> char list \<times> 'f"

record 'f stream_buffer =
  sb_in :: 'f
  sb_buffer :: "char list"
  sb_index :: int32
  sb_size :: int32

definition isspace :: "char \<Rightarrow> bool" where
  "isspace c \<longleftrightarrow> c = CHR '' '' \<or> (9 \<le> (of_char c :: nat) \<and> of_char c \<le> (13 :: nat))"

definition isdigit_char :: "char \<Rightarrow> bool" where
  "isdigit_char c \<longleftrightarrow> 48 \<le> (of_char c :: nat) \<and> of_char c \<le> (57 :: nat)"

definition sb_read :: "'f gzread \<Rightarrow> 'f stream_buffer \<Rightarrow> (char \<times> 'f stream_buffer) result" where
  "sb_read gz sb =
     (let sb1 = (if sb_size sb \<le> sb_index sb
                 then (case gz (sb_in sb) kBufferSize of (n, bs, f) \<Rightarrow>
                   sb\<lparr>sb_in := f, sb_buffer := bs @ drop (length bs) (sb_buffer sb),
                      sb_index := 0, sb_size := n\<rparr>)
                 else sb)
      in if sb_size sb1 \<le> sb_index sb1 then Inr (CHR 0x00, sb1)
         else andThen (vec_at (sb_buffer sb1) (unat (sb_index sb1))) (\<lambda>c. Inr (c, sb1)))"

definition sb_skip :: "'f stream_buffer \<Rightarrow> 'f stream_buffer" where
  "sb_skip sb = sb\<lparr>sb_index := sb_index sb + 1\<rparr>"

text \<open>
  The constructor on the file that \<open>gzopen\<close> returned, with \<open>junk\<close> the uninitialised buffer. A
  file that could not be opened is reported with \<open>LOG(FATAL)\<close>, which only prints, and is read
  from all the same.
\<close>

definition StreamBuffer_new :: "'f gzread \<Rightarrow> char list \<Rightarrow> 'f \<Rightarrow> 'f stream_buffer result" where
  "StreamBuffer_new gz junk f =
     andThen (sb_read gz \<lparr>sb_in = f, sb_buffer = junk, sb_index = 0, sb_size = 0\<rparr>)
       (\<lambda>(_, sb). Inr sb)"

definition sb_star :: "'f gzread \<Rightarrow> 'f stream_buffer \<Rightarrow> (char \<times> 'f stream_buffer) result" where
  "sb_star gz sb = sb_read gz sb"

definition sb_next :: "'f gzread \<Rightarrow> 'f stream_buffer \<Rightarrow> 'f stream_buffer result" where
  "sb_next gz sb = andThen (sb_read gz (sb_skip sb)) (\<lambda>(_, sb'). Inr sb')"

partial_function (option) skipWhiteSpaces ::
    "'f gzread \<Rightarrow> 'f stream_buffer \<Rightarrow> 'f stream_buffer result option" where
  "skipWhiteSpaces gz sb =
     bindP (Some (sb_read gz sb)) (\<lambda>(c, sb1).
       if c \<noteq> CHR 0x00 \<and> isspace c then skipWhiteSpaces gz (sb_skip sb1) else Some (Inr sb1))"

declare skipWhiteSpaces.simps [code]

partial_function (option) skipLine_loop ::
    "'f gzread \<Rightarrow> 'f stream_buffer \<Rightarrow> 'f stream_buffer result option" where
  "skipLine_loop gz sb =
     bindP (Some (sb_read gz sb)) (\<lambda>(c, sb1).
       if c \<noteq> CHR 0x00 \<and> c \<noteq> CHR 0x0A then skipLine_loop gz (sb_skip sb1) else Some (Inr sb1))"

declare skipLine_loop.simps [code]

definition skipLine :: "'f gzread \<Rightarrow> 'f stream_buffer \<Rightarrow> 'f stream_buffer result option" where
  "skipLine gz sb = bindP (skipLine_loop gz sb) (\<lambda>sb1. Some (sb_next gz sb1))"

partial_function (option) readInt_loop ::
    "'f gzread \<Rightarrow> int32 \<Rightarrow> 'f stream_buffer \<Rightarrow> (int32 \<times> 'f stream_buffer) result option" where
  "readInt_loop gz v sb =
     bindP (Some (sb_read gz sb)) (\<lambda>(c, sb1).
       if c \<noteq> CHR 0x00 \<and> isdigit_char c
       then bindP (Some (vec_at (sb_buffer sb1) (unat (sb_index sb1)))) (\<lambda>d.
            bindP (Some (sb_next gz sb1)) (\<lambda>sb2.
              readInt_loop gz (v * 10 + (of_char d - 48)) sb2))
       else Some (Inr (v, sb1)))"

declare readInt_loop.simps [code]

definition readInt ::
    "'f gzread \<Rightarrow> 'f stream_buffer \<Rightarrow> (int32 \<times> 'f stream_buffer) result option" where
  "readInt gz sb =
     bindP (skipWhiteSpaces gz sb) (\<lambda>sb1.
     bindP (Some (sb_read gz sb1)) (\<lambda>(c, sb2).
     bindP (Some (if c = CHR ''-'' \<or> c = CHR ''+'' then sb_next gz sb2 else Inr sb2)) (\<lambda>sb3.
     bindP (readInt_loop gz 0 sb3) (\<lambda>(v, sb4).
       Some (Inr (if c = CHR ''-'' then - v else v, sb4))))))"

section \<open>The text still to be read\<close>

definition gz_serves :: "'f gzread \<Rightarrow> ('f \<Rightarrow> string) \<Rightarrow> bool" where
  "gz_serves gz view \<longleftrightarrow>
     (\<forall>f k n bs f'. gz f k = (n, bs, f') \<longrightarrow> n = of_nat (length bs) \<and> length bs \<le> k
        \<and> view f = bs @ view f' \<and> (0 < k \<and> bs = [] \<longrightarrow> view f = []))"

definition content :: "('f \<Rightarrow> string) \<Rightarrow> 'f stream_buffer \<Rightarrow> string" where
  "content view sb =
     drop (unat (sb_index sb)) (take (unat (sb_size sb)) (sb_buffer sb)) @ view (sb_in sb)"

definition sb_ok :: "'f stream_buffer \<Rightarrow> bool" where
  "sb_ok sb \<longleftrightarrow> length (sb_buffer sb) = kBufferSize \<and> unat (sb_size sb) \<le> kBufferSize
     \<and> unat (sb_index sb) \<le> unat (sb_size sb) + 1"

definition primed :: "('f \<Rightarrow> string) \<Rightarrow> 'f stream_buffer \<Rightarrow> bool" where
  "primed view sb \<longleftrightarrow> sb_ok sb \<and> unat (sb_index sb) \<le> unat (sb_size sb)
     \<and> (content view sb \<noteq> [] \<longrightarrow> unat (sb_index sb) < unat (sb_size sb))"

fun peek :: "string \<Rightarrow> char" where
  "peek [] = CHR 0x00"
| "peek (c # cs) = c"

lemma unat_Suc32: "unat (i :: int32) < 2 ^ 31 \<Longrightarrow> unat (i + 1) = Suc (unat i)"
  by (simp add: unat_word_ariths)

lemma content_cons:
  assumes "sb_ok sb" "unat (sb_index sb) < unat (sb_size sb)"
  shows "content view sb = sb_buffer sb ! unat (sb_index sb) # content view (sb_skip sb)"
proof -
  let ?i = "unat (sb_index sb)" and ?t = "take (unat (sb_size sb)) (sb_buffer sb)"
  have len: "?i < length ?t" using assms by (simp add: sb_ok_def)
  have "unat (sb_index sb + 1) = Suc ?i"
    using assms by (intro unat_Suc32) (auto simp: sb_ok_def kBufferSize_def)
  then show ?thesis
    using len assms by (simp add: content_def sb_skip_def Cons_nth_drop_Suc [symmetric])
qed

lemma sb_read_ok:
  assumes gz: "gz_serves gz view" and ok: "sb_ok sb"
  shows "\<exists>sb'. sb_read gz sb = Inr (peek (content view sb), sb') \<and> primed view sb'
    \<and> content view sb' = content view sb
    \<and> (content view sb \<noteq> [] \<longrightarrow>
         vec_at (sb_buffer sb') (unat (sb_index sb')) = Inr (peek (content view sb)))"
proof -
  obtain n bs f where g: "gz (sb_in sb) kBufferSize = (n, bs, f)" by (metis prod_cases3)
  then have "n = of_nat (length bs) \<and> length bs \<le> kBufferSize \<and> view (sb_in sb) = bs @ view f
      \<and> (0 < kBufferSize \<and> bs = [] \<longrightarrow> view (sb_in sb) = [])"
    using gz unfolding gz_serves_def by blast
  then have g': "n = of_nat (length bs)" "length bs \<le> kBufferSize" "view (sb_in sb) = bs @ view f"
      "bs = [] \<Longrightarrow> view f = []"
    by (auto simp: kBufferSize_def)
  then have n: "unat n = length bs" by (simp add: unat_of_nat kBufferSize_def)
  define sb1 where "sb1 = (if sb_size sb \<le> sb_index sb
    then sb\<lparr>sb_in := f, sb_buffer := bs @ drop (length bs) (sb_buffer sb), sb_index := 0, sb_size := n\<rparr>
    else sb)"
  have read: "sb_read gz sb =
      (if sb_size sb1 \<le> sb_index sb1 then Inr (CHR 0x00, sb1)
       else andThen (vec_at (sb_buffer sb1) (unat (sb_index sb1))) (\<lambda>c. Inr (c, sb1)))"
    by (simp add: sb_read_def sb1_def g)
  have same: "content view sb1 = content view sb" and ok1: "sb_ok sb1"
      and empty: "sb_size sb1 \<le> sb_index sb1 \<Longrightarrow> content view sb1 = []"
      and le: "unat (sb_index sb1) \<le> unat (sb_size sb1)"
    using ok g' n
    by (auto simp: sb1_def content_def sb_ok_def word_le_nat_alt linorder_not_le min_def kBufferSize_def)
  show ?thesis
  proof (cases "sb_size sb1 \<le> sb_index sb1")
    case True
    with empty same read ok1 le show ?thesis by (auto simp: primed_def)
  next
    case False
    then have lt: "unat (sb_index sb1) < unat (sb_size sb1)" by (simp add: word_le_nat_alt)
    have c: "content view sb = sb_buffer sb1 ! unat (sb_index sb1) # content view (sb_skip sb1)"
      using content_cons [OF ok1 lt, of view] same by simp
    have "unat (sb_index sb1) < length (sb_buffer sb1)" using ok1 lt by (simp add: sb_ok_def)
    with False c read ok1 lt le same show ?thesis by (simp add: primed_def)
  qed
qed

lemma sb_skip_ok:
  assumes "primed view sb" "content view sb \<noteq> []"
  shows "sb_ok (sb_skip sb)" "content view (sb_skip sb) = tl (content view sb)"
proof -
  have lt: "unat (sb_index sb) < unat (sb_size sb)" and ok: "sb_ok sb"
    using assms by (simp_all add: primed_def)
  show "content view (sb_skip sb) = tl (content view sb)"
    using content_cons [OF ok lt, of view] by simp
  have "unat (sb_index sb + 1) = Suc (unat (sb_index sb))"
    using ok lt by (intro unat_Suc32) (auto simp: sb_ok_def kBufferSize_def)
  then show "sb_ok (sb_skip sb)" using ok lt by (simp add: sb_ok_def sb_skip_def)
qed

text \<open>Advancing at the end of the file changes nothing.\<close>

lemma sb_skip_end:
  assumes "primed view sb" "content view sb = []"
  shows "sb_ok (sb_skip sb)" "content view (sb_skip sb) = []"
proof -
  have "unat (sb_index sb) \<le> unat (sb_size sb)" "sb_ok sb" using assms by (simp_all add: primed_def)
  moreover from this have "unat (sb_index sb + 1) = Suc (unat (sb_index sb))"
    by (intro unat_Suc32) (auto simp: sb_ok_def kBufferSize_def)
  ultimately show "sb_ok (sb_skip sb)" "content view (sb_skip sb) = []"
    using assms(2) by (auto simp: sb_ok_def sb_skip_def content_def)
qed

lemma sb_next_ok:
  assumes gz: "gz_serves gz view" and p: "primed view sb"
  shows "\<exists>sb'. sb_next gz sb = Inr sb' \<and> primed view sb' \<and> content view sb' = tl (content view sb)"
proof -
  have "sb_ok (sb_skip sb)" "content view (sb_skip sb) = tl (content view sb)"
    using sb_skip_ok [OF p] sb_skip_end [OF p] by (cases "content view sb = []"; simp)+
  with sb_read_ok [OF gz, of "sb_skip sb"] show ?thesis by (auto simp: sb_next_def)
qed

section \<open>The loops\<close>

lemma isspace_nonzero: "isspace c \<Longrightarrow> c \<noteq> CHR 0x00"
  by (auto simp: isspace_def)

lemma isdigit_nonzero: "isdigit_char c \<Longrightarrow> c \<noteq> CHR 0x00"
  by (auto simp: isdigit_char_def)

lemma skipWhiteSpaces_ok:
  assumes gz: "gz_serves gz view" and "sb_ok sb"
  shows "\<exists>sb'. skipWhiteSpaces gz sb = Some (Inr sb') \<and> primed view sb'
    \<and> content view sb' = dropWhile isspace (content view sb)"
  using assms(2)
proof (induction "content view sb" arbitrary: sb rule: length_induct)
  case 1
  obtain sb1 where r: "sb_read gz sb = Inr (peek (content view sb), sb1)" "primed view sb1"
      "content view sb1 = content view sb"
    using sb_read_ok [OF gz 1(2)] by blast
  show ?case
  proof (cases "content view sb")
    case Nil
    then show ?thesis using r by (subst skipWhiteSpaces.simps) simp
  next
    case (Cons c cs)
    show ?thesis
    proof (cases "isspace c")
      case False
      then show ?thesis using r Cons by (subst skipWhiteSpaces.simps) simp
    next
      case True
      have s: "sb_ok (sb_skip sb1)" "content view (sb_skip sb1) = cs"
        using sb_skip_ok [OF r(2)] r(3) Cons by simp_all
      have "length (content view (sb_skip sb1)) < length (content view sb)" using s(2) Cons by simp
      with 1(1) s(1) obtain sb' where "skipWhiteSpaces gz (sb_skip sb1) = Some (Inr sb')"
          "primed view sb'" "content view sb' = dropWhile isspace cs"
        using s(2) by metis
      then show ?thesis
        using r True Cons isspace_nonzero [OF True] by (subst skipWhiteSpaces.simps) simp
    qed
  qed
qed

definition line_end :: "char \<Rightarrow> bool" where
  "line_end c \<longleftrightarrow> c = CHR 0x00 \<or> c = CHR 0x0A"

lemma skipLine_loop_ok:
  assumes gz: "gz_serves gz view" and "sb_ok sb"
  shows "\<exists>sb'. skipLine_loop gz sb = Some (Inr sb') \<and> primed view sb'
    \<and> content view sb' = dropWhile (\<lambda>c. \<not> line_end c) (content view sb)"
  using assms(2)
proof (induction "content view sb" arbitrary: sb rule: length_induct)
  case 1
  obtain sb1 where r: "sb_read gz sb = Inr (peek (content view sb), sb1)" "primed view sb1"
      "content view sb1 = content view sb"
    using sb_read_ok [OF gz 1(2)] by blast
  show ?case
  proof (cases "content view sb")
    case Nil
    then show ?thesis using r by (subst skipLine_loop.simps) simp
  next
    case (Cons c cs)
    show ?thesis
    proof (cases "line_end c")
      case True
      then show ?thesis using r Cons by (subst skipLine_loop.simps) (auto simp: line_end_def)
    next
      case False
      have s: "sb_ok (sb_skip sb1)" "content view (sb_skip sb1) = cs"
        using sb_skip_ok [OF r(2)] r(3) Cons by simp_all
      have "length (content view (sb_skip sb1)) < length (content view sb)" using s(2) Cons by simp
      with 1(1) s(1) obtain sb' where "skipLine_loop gz (sb_skip sb1) = Some (Inr sb')"
          "primed view sb'" "content view sb' = dropWhile (\<lambda>c. \<not> line_end c) cs"
        using s(2) by metis
      then show ?thesis
        using r False Cons by (subst skipLine_loop.simps) (simp add: line_end_def)
    qed
  qed
qed

lemma skipLine_ok:
  assumes gz: "gz_serves gz view" and "sb_ok sb"
  shows "\<exists>sb'. skipLine gz sb = Some (Inr sb') \<and> primed view sb'
    \<and> content view sb' = tl (dropWhile (\<lambda>c. \<not> line_end c) (content view sb))"
proof -
  obtain sb1 where sb1: "skipLine_loop gz sb = Some (Inr sb1)" "primed view sb1"
      "content view sb1 = dropWhile (\<lambda>c. \<not> line_end c) (content view sb)"
    using skipLine_loop_ok [OF assms] by blast
  from sb_next_ok [OF gz sb1(2)] sb1 show ?thesis by (auto simp: skipLine_def)
qed

text \<open>The number at the start of a text, and the text after it.\<close>

fun read_digits :: "int32 \<Rightarrow> string \<Rightarrow> int32 \<times> string" where
  "read_digits v [] = (v, [])"
| "read_digits v (c # cs) =
     (if isdigit_char c then read_digits (v * 10 + (of_char c - 48)) cs else (v, c # cs))"

definition read_int_text :: "string \<Rightarrow> int32 \<times> string" where
  "read_int_text xs =
     (let ys = dropWhile isspace xs;
          r = read_digits 0 (if peek ys = CHR ''-'' \<or> peek ys = CHR ''+'' then tl ys else ys)
      in (if peek ys = CHR ''-'' then - fst r else fst r, snd r))"

lemma readInt_loop_ok:
  assumes gz: "gz_serves gz view" and "sb_ok sb"
  shows "\<exists>sb'. readInt_loop gz v sb = Some (Inr (fst (read_digits v (content view sb)), sb'))
    \<and> primed view sb' \<and> content view sb' = snd (read_digits v (content view sb))"
  using assms(2)
proof (induction "content view sb" arbitrary: sb v rule: length_induct)
  case 1
  obtain sb1 where r: "sb_read gz sb = Inr (peek (content view sb), sb1)" "primed view sb1"
      "content view sb1 = content view sb"
      "content view sb \<noteq> [] \<longrightarrow> vec_at (sb_buffer sb1) (unat (sb_index sb1)) = Inr (peek (content view sb))"
    using sb_read_ok [OF gz 1(2)] by blast
  show ?case
  proof (cases "content view sb")
    case Nil
    then show ?thesis using r by (subst readInt_loop.simps) simp
  next
    case (Cons c cs)
    show ?thesis
    proof (cases "isdigit_char c")
      case False
      then show ?thesis using r Cons by (subst readInt_loop.simps) simp
    next
      case True
      obtain sb2 where s: "sb_next gz sb1 = Inr sb2" "primed view sb2" "content view sb2 = cs"
        using sb_next_ok [OF gz r(2)] r(3) Cons by auto
      let ?v = "v * 10 + (of_char c - 48) :: int32"
      have "length (content view sb2) < length (content view sb)" using s(3) Cons by simp
      moreover have "sb_ok sb2" using s(2) by (simp add: primed_def)
      ultimately obtain sb' where "readInt_loop gz ?v sb2 =
          Some (Inr (fst (read_digits ?v cs), sb'))" "primed view sb'"
          "content view sb' = snd (read_digits ?v cs)"
        using 1(1) s(3) by metis
      then show ?thesis
        using r s True Cons isdigit_nonzero [OF True] by (subst readInt_loop.simps) simp
    qed
  qed
qed

lemma readInt_ok:
  assumes gz: "gz_serves gz view" and "sb_ok sb"
  shows "\<exists>sb'. readInt gz sb = Some (Inr (fst (read_int_text (content view sb)), sb'))
    \<and> primed view sb' \<and> content view sb' = snd (read_int_text (content view sb))"
proof -
  let ?ys = "dropWhile isspace (content view sb)"
  let ?sign = "peek ?ys = CHR ''-'' \<or> peek ?ys = CHR ''+''"
  obtain sb1 where sb1: "skipWhiteSpaces gz sb = Some (Inr sb1)" "primed view sb1"
      "content view sb1 = ?ys"
    using skipWhiteSpaces_ok [OF assms] by blast
  then have "sb_ok sb1" by (simp add: primed_def)
  from sb_read_ok [OF gz this] sb1(3) obtain sb2 where sb2: "sb_read gz sb1 = Inr (peek ?ys, sb2)"
      "primed view sb2" "content view sb2 = ?ys"
    by auto
  obtain sb3 where sb3: "(if ?sign then sb_next gz sb2 else Inr sb2) = Inr sb3" "primed view sb3"
      "content view sb3 = (if ?sign then tl ?ys else ?ys)"
    using sb_next_ok [OF gz sb2(2)] sb2 by (cases ?sign) auto
  obtain sb4 where "readInt_loop gz 0 sb3 = Some (Inr (fst (read_digits 0 (content view sb3)), sb4))"
      "primed view sb4" "content view sb4 = snd (read_digits 0 (content view sb3))"
    using readInt_loop_ok [OF gz, of sb3 0] sb3(2) by (auto simp: primed_def)
  with sb1 sb2 sb3 show ?thesis
    by (simp add: readInt_def read_int_text_def Let_def)
qed

section \<open>Numbers written in decimal\<close>

lemma of_char_digit:
  assumes "(d :: nat) < 10"
  shows "of_char (char_of (48 + d) :: char) = (48 + of_nat d :: int32)"
proof -
  have "of_char (char_of (48 + d) :: char) = (48 + d :: nat)" using assms by simp
  then show ?thesis by (subst of_nat_of_char [symmetric]) simp
qed

lemma isdigit_digit: "(d :: nat) < 10 \<Longrightarrow> isdigit_char (char_of (48 + d))"
  by (simp add: isdigit_char_def)

lemma read_digits_decimal:
  "\<exists>k. read_digits v (decimal n @ rest) = read_digits (v * k + of_nat n) rest"
proof (induction n arbitrary: v rest rule: decimal.induct)
  case (1 n)
  show ?case
  proof (cases "n < 10")
    case True
    then show ?thesis
      by (intro exI [of _ 10]) (simp add: decimal.simps [of n] isdigit_digit of_char_digit)
  next
    case False
    let ?d = "char_of (48 + n mod 10) :: char"
    obtain k where "read_digits v (decimal (n div 10) @ ?d # rest) =
        read_digits (v * k + of_nat (n div 10)) (?d # rest)"
      using 1 [OF False] by blast
    moreover have "(v * k + of_nat (n div 10)) * 10 + of_nat (n mod 10) = v * (k * 10) + of_nat n"
    proof -
      have "of_nat n = (of_nat (n div 10 * 10 + n mod 10) :: int32)" by simp
      also have "\<dots> = of_nat (n div 10) * 10 + of_nat (n mod 10)" by (simp only: of_nat_add of_nat_mult of_nat_numeral)
      finally show ?thesis by (simp add: algebra_simps)
    qed
    ultimately show ?thesis
      using False
      by (intro exI [of _ "k * 10"])
        (simp add: decimal.simps [of n] isdigit_digit of_char_digit mult.assoc add.assoc)
  qed
qed

lemma decimal_head: "\<exists>c cs. decimal n = c # cs \<and> isdigit_char c"
proof (induction n rule: decimal.induct)
  case (1 n)
  show ?case
  proof (cases "n < 10")
    case True
    then show ?thesis by (simp add: decimal.simps [of n] isdigit_digit)
  next
    case False
    with 1 obtain c cs where "decimal (n div 10) = c # cs" "isdigit_char c" by blast
    with False show ?thesis by (simp add: decimal.simps [of n])
  qed
qed

lemma isdigit_not_special:
  "isdigit_char c \<Longrightarrow> \<not> isspace c \<and> c \<noteq> CHR ''-'' \<and> c \<noteq> CHR ''+'' \<and> c \<noteq> CHR 0x0A"
  by (auto simp: isdigit_char_def isspace_def)

definition no_digit :: "string \<Rightarrow> bool" where
  "no_digit xs \<longleftrightarrow> \<not> isdigit_char (peek xs)"

lemma read_digits_stop: "no_digit rest \<Longrightarrow> read_digits v rest = (v, rest)"
  by (cases rest) (auto simp: no_digit_def)

lemma read_decimal: "no_digit rest \<Longrightarrow> read_digits 0 (decimal n @ rest) = (of_nat n, rest)"
  using read_digits_decimal [of 0 n rest] by (auto simp: read_digits_stop)

lemma dropWhile_spaces: "\<forall>c \<in> set ws. isspace c \<Longrightarrow> dropWhile isspace (ws @ xs) = dropWhile isspace xs"
  by (induction ws) auto

lemma read_int_to_string:
  assumes "\<forall>c \<in> set ws. isspace c" "no_digit rest"
  shows "read_int_text (ws @ to_string w @ rest) = (w, rest)"
proof (cases "w <s 0")
  case True
  have "of_nat (nat (- sint w)) = - w"
    using True by (simp add: word_sless_alt)
  moreover have "dropWhile isspace (ws @ to_string w @ rest) =
      CHR ''-'' # decimal (nat (- sint w)) @ rest"
    using True assms(1) by (simp add: dropWhile_spaces to_string_def isspace_def)
  ultimately show ?thesis
    using assms(2) by (simp add: read_int_text_def read_decimal)
next
  case False
  have w: "of_nat (nat (sint w)) = w" using False by (simp add: word_sless_alt)
  obtain c cs where c: "decimal (nat (sint w)) = c # cs" "isdigit_char c"
    using decimal_head by blast
  then have "dropWhile isspace (ws @ to_string w @ rest) = decimal (nat (sint w)) @ rest"
    using False assms(1) isdigit_not_special by (simp add: dropWhile_spaces to_string_def)
  moreover have "peek (decimal (nat (sint w)) @ rest) = c" using c by simp
  ultimately show ?thesis
    using assms(2) w isdigit_not_special [OF c(2)] by (simp add: read_int_text_def read_decimal)
qed

lemma read_int_to_string_plus:
  assumes "\<forall>c \<in> set ws. isspace c" "no_digit rest" "0 \<le>s w"
  shows "read_int_text (ws @ CHR ''+'' # to_string w @ rest) = (w, rest)"
proof -
  have s: "\<not> w <s 0" using assms(3) by (simp add: word_sless_alt word_sle_eq)
  then have w: "of_nat (nat (sint w)) = w" by (simp add: word_sless_alt)
  have "dropWhile isspace (ws @ CHR ''+'' # to_string w @ rest) = CHR ''+'' # decimal (nat (sint w)) @ rest"
    using s assms(1) by (simp add: dropWhile_spaces to_string_def isspace_def)
  then show ?thesis using assms(2) w by (simp add: read_int_text_def read_decimal)
qed

end
