(* ===== verification/CNF_Readers.thy ===== *)
theory CNF_Readers
  imports CNF_Models Stream_Buffers
begin

text \<open>
  The class \<open>CNFReader\<close> of \<open>include/cosy/CNFReader.h\<close> and \<open>src/CNFReader.cc\<close>: the parser of
  DIMACS files, over the character source of \<open>Stream_Buffers\<close> and into the model of
  \<open>CNF_Models\<close>. \<open>gz\<close>, \<open>junk\<close> and the opened file are the parameters of the character source,
  \<open>hash\<close> that of the model. The main theorem runs the parser on the text of a DIMACS file.
\<close>

section \<open>Operations\<close>

partial_function (option) read_clause ::
    "'f gzread \<Rightarrow> literal list \<Rightarrow> 'f stream_buffer \<Rightarrow> (literal list \<times> 'f stream_buffer) result option" where
  "read_clause gz literals sb =
     bindP (readInt gz sb) (\<lambda>(read_int, sb1).
       if read_int \<noteq> 0
       then bindP (Some (Literal_signed read_int)) (\<lambda>l. read_clause gz (literals @ [l]) sb1)
       else Some (Inr (literals, sb1)))"

declare read_clause.simps [code]

definition expect_next :: "'f gzread \<Rightarrow> char \<Rightarrow> 'f stream_buffer \<Rightarrow> 'f stream_buffer result" where
  "expect_next gz ch sb =
     andThen (sb_next gz sb) (\<lambda>sb1.
     andThen (sb_star gz sb1) (\<lambda>(c, sb2). check (c = ch) (Inr sb2)))"

record load_state =
  ls_model :: cnf_model
  ls_expected_num_vars :: int32
  ls_expected_num_clauses :: int32

definition read_header ::
    "'f gzread \<Rightarrow> load_state \<Rightarrow> 'f stream_buffer \<Rightarrow> (load_state \<times> 'f stream_buffer) result option" where
  "read_header gz st sb =
     bindP (Some (foldR (expect_next gz) '' cnf'' sb)) (\<lambda>sb1.
     bindP (Some (sb_next gz sb1)) (\<lambda>sb2.
     bindP (readInt gz sb2) (\<lambda>(v, sb3).
     bindP (readInt gz sb3) (\<lambda>(c, sb4).
     bindP (skipLine gz sb4) (\<lambda>sb5.
       Some (Inr (st\<lparr>ls_expected_num_vars := v, ls_expected_num_clauses := c\<rparr>, sb5)))))))"

definition read_clause_line ::
    "(string \<Rightarrow> int64) \<Rightarrow> 'f gzread \<Rightarrow> load_state \<Rightarrow> 'f stream_buffer
      \<Rightarrow> (load_state \<times> 'f stream_buffer) result option" where
  "read_clause_line hash gz st sb =
     bindP (read_clause gz [] sb) (\<lambda>(literals, sb1).
     bindP (Some (CNFModel_addClause hash (ls_model st) literals)) (\<lambda>(m, _).
     bindP (skipLine gz sb1) (\<lambda>sb2.
       Some (Inr (st\<lparr>ls_model := m\<rparr>, sb2)))))"

partial_function (option) load_loop ::
    "(string \<Rightarrow> int64) \<Rightarrow> 'f gzread \<Rightarrow> load_state \<Rightarrow> 'f stream_buffer \<Rightarrow> load_state result option" where
  "load_loop hash gz st sb =
     bindP (Some (sb_star gz sb)) (\<lambda>(c0, sb0).
       if c0 = CHR 0x00 then Some (Inr st)
       else
         bindP (bindP (Some (sb_star gz sb0)) (\<lambda>(c1, sb1).
                  if c1 = CHR ''c''
                  then bindP (skipLine gz sb1) (\<lambda>sb2. Some (Inr (st, sb2)))
                  else bindP (Some (sb_star gz sb1)) (\<lambda>(c2, sb2).
                       if c2 = CHR ''p'' then read_header gz st sb2
                       else read_clause_line hash gz st sb2))) (\<lambda>(st1, sb3).
         bindP (skipWhiteSpaces gz sb3) (\<lambda>sb4. load_loop hash gz st1 sb4)))"

declare load_loop.simps [code]

definition CNFReader_load ::
    "(string \<Rightarrow> int64) \<Rightarrow> 'f gzread \<Rightarrow> char list \<Rightarrow> 'f \<Rightarrow> cnf_model \<Rightarrow> (bool \<times> cnf_model) result option" where
  "CNFReader_load hash gz junk f m =
     bindP (Some (StreamBuffer_new gz junk f)) (\<lambda>sb.
     bindP (load_loop hash gz
              \<lparr>ls_model = m, ls_expected_num_vars = 0, ls_expected_num_clauses = 0\<rparr> sb) (\<lambda>st.
       Some (Inr
         (if CNFModel_numberOfVariables (ls_model st) \<noteq> ucast (ls_expected_num_vars st) then False
          else if cm_num_clauses (ls_model st) \<noteq> ucast (ls_expected_num_clauses st) then False
          else True,
          ls_model st))))"

section \<open>The text of a DIMACS file\<close>

datatype dimacs_line = Comment string | Header int32 int32 | Clause_line "literal list"

fun line_text :: "dimacs_line \<Rightarrow> string" where
  "line_text (Comment s) = ''c'' @ s @ [CHR 0x0A]"
| "line_text (Header v c) = ''p cnf '' @ to_string v @ '' '' @ to_string c @ [CHR 0x0A]"
| "line_text (Clause_line ls) = clause_word ls @ ''0'' @ [CHR 0x0A]"

definition dimacs_text :: "dimacs_line list \<Rightarrow> string" where
  "dimacs_text lines = concat (map line_text lines)"

fun proper_line :: "dimacs_line \<Rightarrow> bool" where
  "proper_line (Comment s) \<longleftrightarrow> (\<forall>c \<in> set s. \<not> line_end c)"
| "proper_line (Header v c) \<longleftrightarrow> True"
| "proper_line (Clause_line ls) \<longleftrightarrow> ls \<noteq> [] \<and> (\<forall>l \<in> set ls. small_var (variable l))"

fun enter_line :: "(string \<Rightarrow> int64) \<Rightarrow> dimacs_line \<Rightarrow> load_state \<Rightarrow> load_state result" where
  "enter_line hash (Comment s) st = Inr st"
| "enter_line hash (Header v c) st =
     Inr (st\<lparr>ls_expected_num_vars := v, ls_expected_num_clauses := c\<rparr>)"
| "enter_line hash (Clause_line ls) st =
     andThen (CNFModel_addClause hash (ls_model st) ls) (\<lambda>(m, _). Inr (st\<lparr>ls_model := m\<rparr>))"

lemma no_digit_space [simp]: "no_digit (CHR '' '' # xs)" "no_digit (CHR 0x0A # xs)"
  by (simp_all add: no_digit_def isdigit_char_def)

lemma isspace_simps [simp]: "isspace (CHR '' '')" "isspace (CHR 0x0A)"
  by (simp_all add: isspace_def)

lemma primed_ok: "primed view sb \<Longrightarrow> sb_ok sb"
  by (simp add: primed_def)

lemma to_string_zero: "to_string 0 = ''0''"
  by code_simp

lemma signedValue_nonzero: "small_var (variable l) \<Longrightarrow> signedValue l \<noteq> 0"
  using Literal_signed_signedValue [of l] by (auto simp: Literal_signed_def check_def)

lemma read_clause_ok:
  assumes gz: "gz_serves gz view" and "sb_ok sb"
    and "content view sb = ws @ clause_word ls @ ''0'' @ CHR 0x0A # rest" "\<forall>c \<in> set ws. isspace c"
    and "\<forall>l \<in> set ls. small_var (variable l)"
  shows "\<exists>sb'. read_clause gz acc sb = Some (Inr (acc @ ls, sb')) \<and> primed view sb'
    \<and> content view sb' = CHR 0x0A # rest"
  using assms(2-5)
proof (induction ls arbitrary: acc sb ws)
  case Nil
  have "content view sb = ws @ to_string 0 @ CHR 0x0A # rest"
    using Nil.prems(2) by (simp add: clause_word_def to_string_zero)
  then have "read_int_text (content view sb) = (0, CHR 0x0A # rest)"
    using read_int_to_string [OF Nil.prems(3)] by simp
  then show ?case
    using readInt_ok [OF gz Nil.prems(1)] by (subst read_clause.simps) fastforce
next
  case (Cons l ls)
  have small: "small_var (variable l)" using Cons.prems(4) by simp
  have "content view sb = ws @ to_string (signedValue l) @ '' '' @ clause_word ls @ ''0'' @ CHR 0x0A # rest"
    using Cons.prems(2) by (simp add: clause_word_def)
  then have r: "read_int_text (content view sb) =
      (signedValue l, '' '' @ clause_word ls @ ''0'' @ CHR 0x0A # rest)"
    using read_int_to_string [OF Cons.prems(3)] by simp
  obtain sb1 where sb1: "readInt gz sb = Some (Inr (signedValue l, sb1))" "primed view sb1"
      "content view sb1 = '' '' @ clause_word ls @ ''0'' @ CHR 0x0A # rest"
    using readInt_ok [OF gz Cons.prems(1)] r by auto
  have "\<forall>l \<in> set ls. small_var (variable l)" "\<forall>c \<in> set '' ''. isspace c"
    using Cons.prems(4) by simp_all
  from Cons.IH [OF primed_ok [OF sb1(2)] sb1(3) this(2,1), of "acc @ [l]"]
  show ?case
    using sb1(1) signedValue_nonzero [OF small] Literal_signed_signedValue [OF small]
    by (subst read_clause.simps) simp
qed

section \<open>Reading a file\<close>

lemma sb_star_ok:
  assumes "gz_serves gz view" "sb_ok sb"
  shows "\<exists>sb'. sb_star gz sb = Inr (peek (content view sb), sb') \<and> primed view sb'
    \<and> content view sb' = content view sb"
  using sb_read_ok [OF assms] by (auto simp: sb_star_def)

lemma expect_next_ok:
  assumes gz: "gz_serves gz view" and "primed view sb" "content view sb = x # ch # xs"
  shows "\<exists>sb'. expect_next gz ch sb = Inr sb' \<and> primed view sb' \<and> content view sb' = ch # xs"
proof -
  obtain sb1 where sb1: "sb_next gz sb = Inr sb1" "primed view sb1" "content view sb1 = ch # xs"
    using sb_next_ok [OF gz assms(2)] assms(3) by auto
  from sb_star_ok [OF gz primed_ok [OF sb1(2)]] sb1 show ?thesis by (auto simp: expect_next_def)
qed

lemma expect_all_ok:
  assumes gz: "gz_serves gz view" and "primed view sb" "content view sb = x # ks @ xs"
  shows "\<exists>sb'. foldR (expect_next gz) ks sb = Inr sb' \<and> primed view sb'
    \<and> content view sb' = last (x # ks) # xs"
  using assms(2,3)
proof (induction ks arbitrary: x sb)
  case Nil
  then show ?case by simp
next
  case (Cons k ks)
  obtain sb1 where "expect_next gz k sb = Inr sb1" "primed view sb1" "content view sb1 = k # ks @ xs"
    using expect_next_ok [OF gz Cons.prems(1)] Cons.prems(2) by auto
  with Cons.IH show ?case by auto
qed

lemma skip_rest_of_line:
  "\<forall>c \<in> set s. \<not> line_end c \<Longrightarrow> tl (dropWhile (\<lambda>c. \<not> line_end c) (s @ CHR 0x0A # rest)) = rest"
  by (induction s) (auto simp: line_end_def)

lemma read_header_ok:
  assumes gz: "gz_serves gz view" and sb: "primed view sb"
    and c: "content view sb = line_text (Header v k) @ rest"
  shows "\<exists>sb'. read_header gz st sb =
      Some (Inr (st\<lparr>ls_expected_num_vars := v, ls_expected_num_clauses := k\<rparr>, sb'))
    \<and> primed view sb' \<and> content view sb' = rest"
proof -
  let ?r = "'' '' @ to_string v @ '' '' @ to_string k @ CHR 0x0A # rest"
  have "content view sb = CHR ''p'' # '' cnf'' @ ?r" using c by simp
  from expect_all_ok [OF gz sb this] obtain sb1 where sb1:
      "foldR (expect_next gz) '' cnf'' sb = Inr sb1" "primed view sb1"
      "content view sb1 = CHR ''f'' # ?r" by auto
  then obtain sb2 where sb2: "sb_next gz sb1 = Inr sb2" "primed view sb2" "content view sb2 = ?r"
    using sb_next_ok [OF gz sb1(2)] by auto
  have "read_int_text (content view sb2) = (v, '' '' @ to_string k @ CHR 0x0A # rest)"
    unfolding sb2(3) by (rule read_int_to_string) simp_all
  then obtain sb3 where sb3: "readInt gz sb2 = Some (Inr (v, sb3))" "primed view sb3"
      "content view sb3 = '' '' @ to_string k @ CHR 0x0A # rest"
    using readInt_ok [OF gz primed_ok [OF sb2(2)]] by auto
  have "read_int_text (content view sb3) = (k, CHR 0x0A # rest)"
    unfolding sb3(3) by (rule read_int_to_string) simp_all
  then obtain sb4 where sb4: "readInt gz sb3 = Some (Inr (k, sb4))" "primed view sb4"
      "content view sb4 = CHR 0x0A # rest"
    using readInt_ok [OF gz primed_ok [OF sb3(2)]] by auto
  then obtain sb5 where "skipLine gz sb4 = Some (Inr sb5)" "primed view sb5" "content view sb5 = rest"
    using skipLine_ok [OF gz primed_ok [OF sb4(2)]] skip_rest_of_line [of "[]" rest] by auto
  with sb1 sb2 sb3 sb4 show ?thesis by (simp add: read_header_def)
qed

lemma clause_word_head:
  assumes "ls \<noteq> []"
  shows "\<exists>c cs. clause_word ls = c # cs \<and> (isdigit_char c \<or> c = CHR ''-'')"
proof -
  obtain l ms where "ls = l # ms" using assms by (cases ls) auto
  moreover obtain c cs where "decimal (nat (sint (signedValue l))) = c # cs" "isdigit_char c"
    using decimal_head by blast
  ultimately show ?thesis by (auto simp: clause_word_def to_string_def)
qed

lemma clause_line_ok:
  assumes gz: "gz_serves gz view" and sb: "primed view sb"
    and c: "content view sb = line_text (Clause_line ls) @ rest" and p: "proper_line (Clause_line ls)"
    and add: "CNFModel_addClause hash (ls_model st) ls = Inr (m, ls')"
  shows "\<exists>sb'. read_clause_line hash gz st sb = Some (Inr (st\<lparr>ls_model := m\<rparr>, sb'))
    \<and> primed view sb' \<and> content view sb' = rest"
proof -
  have "content view sb = [] @ clause_word ls @ ''0'' @ CHR 0x0A # rest" using c by simp
  moreover have "\<forall>l \<in> set ls. small_var (variable l)" using p by simp
  ultimately obtain sb1 where sb1: "read_clause gz [] sb = Some (Inr (ls, sb1))" "primed view sb1"
      "content view sb1 = CHR 0x0A # rest"
    using read_clause_ok [OF gz primed_ok [OF sb], of "[]" ls rest "[]"] by auto
  then obtain sb2 where "skipLine gz sb1 = Some (Inr sb2)" "primed view sb2" "content view sb2 = rest"
    using skipLine_ok [OF gz primed_ok [OF sb1(2)]] skip_rest_of_line [of "[]" rest] by auto
  with sb1 add show ?thesis by (simp add: read_clause_line_def)
qed

lemma line_head:
  assumes "proper_line L"
  shows "\<exists>c cs. line_text L = c # cs \<and> c \<noteq> CHR 0x00 \<and> \<not> isspace c"
proof (cases L)
  case (Clause_line ls)
  then obtain c cs where "clause_word ls = c # cs" "isdigit_char c \<or> c = CHR ''-''"
    using clause_word_head [of ls] assms by auto
  moreover from this have "c \<noteq> CHR 0x00 \<and> \<not> isspace c"
    by (auto simp: isdigit_char_def isspace_def)
  ultimately show ?thesis using Clause_line by simp
qed (simp_all add: isspace_def)

text \<open>One turn of the reading loop handles one line.\<close>

lemma load_loop_line:
  assumes gz: "gz_serves gz view" and sb: "sb_ok sb"
    and c: "content view sb = line_text L @ rest" and p: "proper_line L"
    and st: "enter_line hash L st = Inr st1"
  shows "\<exists>sb'. load_loop hash gz st sb = load_loop hash gz st1 sb' \<and> primed view sb'
    \<and> content view sb' = dropWhile isspace rest"
proof -
  obtain h t where h: "line_text L = h # t" "h \<noteq> CHR 0x00" "\<not> isspace h"
    using line_head [OF p] by blast
  obtain sb0 where sb0: "sb_star gz sb = Inr (h, sb0)" "primed view sb0"
      "content view sb0 = line_text L @ rest"
    using sb_star_ok [OF gz sb] c h(1) by auto
  obtain sb1 where sb1: "sb_star gz sb0 = Inr (h, sb1)" "primed view sb1"
      "content view sb1 = line_text L @ rest"
    using sb_star_ok [OF gz primed_ok [OF sb0(2)]] sb0(3) h(1) by auto
  obtain sb2 where sb2: "sb_star gz sb1 = Inr (h, sb2)" "primed view sb2"
      "content view sb2 = line_text L @ rest"
    using sb_star_ok [OF gz primed_ok [OF sb1(2)]] sb1(3) h(1) by auto
  let ?body = "if h = CHR ''c'' then bindP (skipLine gz sb1) (\<lambda>sb2. Some (Inr (st, sb2)))
      else if h = CHR ''p'' then read_header gz st sb2 else read_clause_line hash gz st sb2"
  have "\<exists>sb3. ?body = Some (Inr (st1, sb3)) \<and> primed view sb3 \<and> content view sb3 = rest"
  proof (cases L)
    case (Comment s)
    have "tl (dropWhile (\<lambda>c. \<not> line_end c) ((CHR ''c'' # s) @ CHR 0x0A # rest)) = rest"
      using p Comment by (intro skip_rest_of_line) (simp add: line_end_def)
    then show ?thesis
      using skipLine_ok [OF gz primed_ok [OF sb1(2)]] sb1(3) h(1) st Comment by fastforce
  next
    case (Header v k)
    then show ?thesis
      using read_header_ok [OF gz sb2(2), of v k rest st] sb2(3) h(1) st by auto
  next
    case (Clause_line ls)
    then obtain m ls' where m: "CNFModel_addClause hash (ls_model st) ls = Inr (m, ls')"
        "st1 = st\<lparr>ls_model := m\<rparr>"
      using st by (auto simp: andThen_Inr_iff)
    have "isdigit_char h \<or> h = CHR ''-''"
      using clause_word_head [of ls] p Clause_line h(1) by auto
    then have "h \<noteq> CHR ''c''" "h \<noteq> CHR ''p''" by (auto simp: isdigit_char_def)
    then show ?thesis
      using clause_line_ok [OF gz sb2(2), of ls rest hash st m ls'] sb2(3) p m Clause_line by auto
  qed
  then obtain sb3 where sb3: "?body = Some (Inr (st1, sb3))" "primed view sb3" "content view sb3 = rest"
    by blast
  obtain sb4 where sb4: "skipWhiteSpaces gz sb3 = Some (Inr sb4)" "primed view sb4"
      "content view sb4 = dropWhile isspace rest"
    using skipWhiteSpaces_ok [OF gz primed_ok [OF sb3(2)]] sb3(3) by auto
  have "load_loop hash gz st sb = load_loop hash gz st1 sb4"
    using sb0(1) sb1(1) sb2(1) sb3(1) sb4(1) h(2)
    by (subst load_loop.simps) (simp split: if_splits)
  with sb4 show ?thesis by blast
qed

lemma no_space_before_line:
  assumes "\<forall>L \<in> set lines. proper_line L"
  shows "dropWhile isspace (dimacs_text lines) = dimacs_text lines"
proof (cases lines)
  case Nil
  then show ?thesis by (simp add: dimacs_text_def)
next
  case (Cons L ls)
  then obtain c cs where "line_text L = c # cs" "\<not> isspace c" using line_head [of L] assms by auto
  then show ?thesis using Cons by (simp add: dimacs_text_def)
qed

lemma load_loop_lines:
  assumes gz: "gz_serves gz view" and "sb_ok sb" "content view sb = dimacs_text lines"
    and "\<forall>L \<in> set lines. proper_line L" "foldR (enter_line hash) lines st = Inr st1"
  shows "load_loop hash gz st sb = Some (Inr st1)"
  using assms(2-5)
proof (induction lines arbitrary: sb st)
  case Nil
  then obtain sb1 where "sb_star gz sb = Inr (CHR 0x00, sb1)"
    using sb_star_ok [OF gz Nil.prems(1)] by (auto simp: dimacs_text_def)
  then show ?case using Nil.prems(4) by (subst load_loop.simps) simp
next
  case (Cons L lines)
  from Cons.prems(4) obtain st2 where st2: "enter_line hash L st = Inr st2"
      "foldR (enter_line hash) lines st2 = Inr st1" by (auto simp: andThen_Inr_iff)
  have proper: "proper_line L" "\<forall>L \<in> set lines. proper_line L" using Cons.prems(3) by simp_all
  have "content view sb = line_text L @ dimacs_text lines"
    using Cons.prems(2) by (simp add: dimacs_text_def)
  from load_loop_line [OF gz Cons.prems(1) this proper(1) st2(1)] no_space_before_line [OF proper(2)]
  obtain sb' where "load_loop hash gz st sb = load_loop hash gz st2 sb'" "primed view sb'"
      "content view sb' = dimacs_text lines" by auto
  with Cons.IH [OF primed_ok _ proper(2) st2(2)] show ?case by auto
qed

lemma StreamBuffer_new_ok:
  assumes "gz_serves gz view" "length junk = kBufferSize"
  shows "\<exists>sb. StreamBuffer_new gz junk f = Inr sb \<and> primed view sb \<and> content view sb = view f"
proof -
  let ?sb = "\<lparr>sb_in = f, sb_buffer = junk, sb_index = 0, sb_size = 0\<rparr>"
  have "sb_ok ?sb" "content view ?sb = view f"
    using assms(2) by (simp_all add: sb_ok_def content_def)
  with sb_read_ok [OF assms(1), of ?sb] show ?thesis by (auto simp: StreamBuffer_new_def)
qed

lemma enter_lines_clauses:
  "foldR (enter_line hash) (map Clause_line css) st =
    andThen (foldR (enter_clause hash) css (ls_model st)) (\<lambda>m. Inr (st\<lparr>ls_model := m\<rparr>))"
proof (induction css arbitrary: st)
  case (Cons c css)
  show ?case
    by (cases "CNFModel_addClause hash (ls_model st) c") (auto simp: enter_clause_def Cons.IH)
qed simp

lemma enter_lines_comments: "foldR (enter_line hash) (map Comment cs @ lines) st =
    foldR (enter_line hash) lines st"
  by (induction cs) simp_all

lemma CNFReader_load_ok:
  assumes "gz_serves gz view" "length junk = kBufferSize"
    and content: "view f = dimacs_text (map Comment cs @ Header v k # map Clause_line css)"
    and cs: "\<forall>s \<in> set cs. \<forall>c \<in> set s. \<not> line_end c"
    and css: "\<forall>c \<in> set css. c \<noteq> [] \<and> (\<forall>l \<in> set c. lit_below (2 ^ 30) l)"
  shows "\<exists>m. CNFReader_load hash gz junk f CNFModel_new =
      Some (Inr (CNFModel_numberOfVariables m = ucast v \<and> cm_num_clauses m = ucast k, m))
    \<and> entered_model hash (inj_on (compute_tag hash) (normal_form ` set css)) css m"
proof -
  obtain m where m: "foldR (enter_clause hash) css CNFModel_new = Inr m"
      "entered_model hash (inj_on (compute_tag hash) (normal_form ` set css)) css m"
    using enter_clauses_ok [OF css, of "inj_on (compute_tag hash) (normal_form ` set css)" hash] by blast
  let ?st = "\<lparr>ls_model = CNFModel_new, ls_expected_num_vars = 0, ls_expected_num_clauses = 0\<rparr>"
  let ?lines = "map Comment cs @ Header v k # map Clause_line css"
  have proper: "\<forall>L \<in> set ?lines. proper_line L"
    using cs css lit_below_small [of "2 ^ 30"] by auto
  have st: "foldR (enter_line hash) ?lines ?st =
      Inr \<lparr>ls_model = m, ls_expected_num_vars = v, ls_expected_num_clauses = k\<rparr>"
    using m(1) by (simp add: enter_lines_comments enter_lines_clauses)
  obtain sb where sb: "StreamBuffer_new gz junk f = Inr sb" "primed view sb" "content view sb = view f"
    using StreamBuffer_new_ok [OF assms(1,2)] by blast
  have "load_loop hash gz ?st sb =
      Some (Inr \<lparr>ls_model = m, ls_expected_num_vars = v, ls_expected_num_clauses = k\<rparr>)"
    by (rule load_loop_lines [OF assms(1) primed_ok [OF sb(2)] _ proper st]) (simp add: sb(3) content)
  with sb(1) m show ?thesis by (auto simp: CNFReader_load_def)
qed

section \<open>Properties\<close>

text \<open>
  C16. Loading the text of a DIMACS file (comments, a problem line and one clause per line)
  terminates and builds a well-formed model of those clauses: every stored clause is a clause of
  the file in normal form, every clause of the file is counted, and none is lost when the hash
  function tells the clauses apart. The result is true exactly when the problem line states the
  numbers of variables and clauses that were found.
\<close>

lemma load_dimacs:
  assumes "gz_serves gz view" "length junk = kBufferSize"
    and content: "view f = dimacs_text (map Comment cs @ Header v k # map Clause_line css)"
    and cs: "\<forall>s \<in> set cs. \<forall>c \<in> set s. \<not> line_end c"
    and css: "\<forall>c \<in> set css. c \<noteq> [] \<and> (\<forall>l \<in> set c. lit_below (2 ^ 30) l)"
  shows "\<exists>m. CNFReader_load hash gz junk f CNFModel_new =
      Some (Inr (CNFModel_numberOfVariables m = ucast v \<and> cm_num_clauses m = ucast k, m))
    \<and> entered_model hash (inj_on (compute_tag hash) (normal_form ` set css)) css m"
  by (rule CNFReader_load_ok [OF assms])

text \<open>
  A concrete character source: the file state is the rest of the text. It serves the text of a
  problem with a comment, two variables and two clauses.
\<close>

definition text_gzread :: "string gzread" where
  "text_gzread s k = (let m = min k 4096 in (of_nat (length (take m s)), take m s, drop m s))"

lemma text_gzread_serves: "gz_serves text_gzread id"
  by (auto simp: gz_serves_def text_gzread_def Let_def)

definition small_clauses :: "literal list list" where
  "small_clauses = [[Literal_var 0 True, Literal_var 1 False], [Literal_var 0 False]]"

definition small_text :: string where
  "small_text = dimacs_text (map Comment ['' two clauses''] @ Header 2 2 # map Clause_line small_clauses)"

definition length_hash :: "string \<Rightarrow> int64" where
  "length_hash s = of_nat (length s)"

lemma load_dimacs_witness:
  "\<exists>m. CNFReader_load length_hash text_gzread (replicate kBufferSize CHR 0x00) small_text CNFModel_new =
      Some (Inr (CNFModel_numberOfVariables m = ucast (2 :: int32) \<and> cm_num_clauses m = ucast (2 :: int32), m))
    \<and> entered_model length_hash True small_clauses m"
proof -
  have lits: "\<forall>c \<in> set small_clauses. c \<noteq> [] \<and> (\<forall>l \<in> set c. lit_below (2 ^ 30) l)"
    by (simp add: small_clauses_def lit_below_def small_var_def)
  have comments: "\<forall>s \<in> set ['' two clauses'']. \<forall>c \<in> set s. \<not> line_end c"
    by (simp add: line_end_def)
  have input: "id small_text = dimacs_text (map Comment ['' two clauses'']
      @ Header 2 2 # map Clause_line small_clauses)"
    by (simp only: small_text_def id_apply)
  have "inj_on (compute_tag length_hash) (set (map normal_form small_clauses))"
    unfolding small_clauses_def by code_simp
  then have "inj_on (compute_tag length_hash) (normal_form ` set small_clauses)"
    by (simp only: set_map)
  with load_dimacs [OF text_gzread_serves length_replicate input comments lits, of length_hash]
  show ?thesis by (simp only: simp_thms)
qed

end
