(* ===== verification/Disjoint_Sets.thy ===== *)
theory Disjoint_Sets
  imports Cosy_Prelude
begin

text \<open>
  The class \<open>DisjointSets\<close> of \<open>include/cosy/DisjointSets.h\<close>: union-find with union by rank and
  path compression. A node is created at the position of its index and never moves, so a pointer
  to it is its index, and the null pointer of the vector is \<open>None\<close>. The loops of \<open>Find\<close> follow
  parent pointers and would not end on a cycle of them, so they are partial functions. The
  abstract view of a state is the relation \<open>same_set\<close>.
\<close>

section \<open>State and operations\<close>

record ds_node =
  nd_parent :: "nat option"
  nd_index :: nat
  nd_rank :: int

record disjoint_sets =
  ds_nodes :: "ds_node option list"
  ds_num_elements :: nat
  ds_num_sets :: int

definition DisjointSets_new :: disjoint_sets where
  "DisjointSets_new = \<lparr>ds_nodes = [], ds_num_elements = 0, ds_num_sets = 0\<rparr>"

definition Node_new :: "nat \<Rightarrow> ds_node" where
  "Node_new n = \<lparr>nd_parent = None, nd_index = n, nd_rank = 0\<rparr>"

definition node_at :: "ds_node option list \<Rightarrow> nat \<Rightarrow> ds_node result" where
  "node_at ns i = andThen (vec_at ns i) (\<lambda>nd. case nd of None \<Rightarrow> Inl Null_pointer | Some x \<Rightarrow> Inr x)"

definition ds_Add :: "disjoint_sets \<Rightarrow> nat \<Rightarrow> disjoint_sets result" where
  "ds_Add d element =
     (let ns = (if element \<ge> length (ds_nodes d) then vec_resize (ds_nodes d) (element + 1) None
                else ds_nodes d)
      in andThen (vec_at ns element) (\<lambda>nd.
           if nd = None
           then Inr (d\<lparr>ds_nodes := ns[element := Some (Node_new element)],
                       ds_num_elements := ds_num_elements d + 1,
                       ds_num_sets := ds_num_sets d + 1\<rparr>)
           else Inr (d\<lparr>ds_nodes := ns\<rparr>)))"

partial_function (option) root_loop :: "ds_node option list \<Rightarrow> nat \<Rightarrow> nat result option" where
  "root_loop ns i =
     bindP (Some (node_at ns i)) (\<lambda>nd. case nd_parent nd of
       None \<Rightarrow> Some (Inr i)
     | Some p \<Rightarrow> root_loop ns p)"

declare root_loop.simps [code]

partial_function (option) compress_loop ::
    "ds_node option list \<Rightarrow> nat \<Rightarrow> nat \<Rightarrow> ds_node option list result option" where
  "compress_loop ns i root =
     (if i = root then Some (Inr ns)
      else bindP (Some (node_at ns i)) (\<lambda>nd. case nd_parent nd of
             None \<Rightarrow> Some (Inl Null_pointer)
           | Some p \<Rightarrow> compress_loop (ns[i := Some (nd\<lparr>nd_parent := Some root\<rparr>)]) p root))"

declare compress_loop.simps [code]

definition ds_Find :: "disjoint_sets \<Rightarrow> nat \<Rightarrow> (nat \<times> disjoint_sets) result option" where
  "ds_Find d element =
     bindP (root_loop (ds_nodes d) element) (\<lambda>root.
     bindP (compress_loop (ds_nodes d) element root) (\<lambda>ns.
     bindP (Some (node_at ns root)) (\<lambda>nd. Some (Inr (nd_index nd, d\<lparr>ds_nodes := ns\<rparr>)))))"

text \<open>The two roots are fetched before either is changed; the pointers are compared first.\<close>

definition ds_link :: "disjoint_sets \<Rightarrow> nat \<Rightarrow> nat \<Rightarrow> disjoint_sets result" where
  "ds_link d x_root y_root =
     andThen (node_at (ds_nodes d) x_root) (\<lambda>x.
     andThen (node_at (ds_nodes d) y_root) (\<lambda>y.
       if x_root = y_root then Inr d
       else if nd_rank x < nd_rank y
       then Inr (d\<lparr>ds_nodes := (ds_nodes d)[x_root := Some (x\<lparr>nd_parent := Some y_root\<rparr>)],
                   ds_num_sets := ds_num_sets d - 1\<rparr>)
       else if nd_rank x > nd_rank y
       then Inr (d\<lparr>ds_nodes := (ds_nodes d)[y_root := Some (y\<lparr>nd_parent := Some x_root\<rparr>)],
                   ds_num_sets := ds_num_sets d - 1\<rparr>)
       else Inr (d\<lparr>ds_nodes := (ds_nodes d)
                     [y_root := Some (y\<lparr>nd_parent := Some x_root\<rparr>),
                      x_root := Some (x\<lparr>nd_rank := nd_rank x + 1\<rparr>)],
                   ds_num_sets := ds_num_sets d - 1\<rparr>)))"

definition ds_Union :: "disjoint_sets \<Rightarrow> nat \<Rightarrow> nat \<Rightarrow> disjoint_sets result option" where
  "ds_Union d x y =
     bindP (Some (andThen (node_at (ds_nodes d) x) (\<lambda>_. node_at (ds_nodes d) y))) (\<lambda>_.
     bindP (ds_Find d x) (\<lambda>(x_root, d1).
     bindP (ds_Find d1 y) (\<lambda>(y_root, d2). Some (ds_link d2 x_root y_root))))"

text \<open>\<open>debugPrint\<close>: the text it writes; every line calls \<open>Find\<close>, which compresses paths.\<close>

definition ds_print_line :: "nat \<Rightarrow> string \<times> disjoint_sets \<Rightarrow> (string \<times> disjoint_sets) result option" where
  "ds_print_line i = (\<lambda>(out, d).
     bindP (Some (vec_at (ds_nodes d) i)) (\<lambda>nd.
       if nd = None then Some (Inr (out, d))
       else bindP (ds_Find d i) (\<lambda>(r, d').
              Some (Inr (out @ decimal i @ '' : '' @ to_string (of_nat r) @ [CHR 0x0A], d')))))"

definition ds_debugPrint :: "disjoint_sets \<Rightarrow> (string \<times> disjoint_sets) result option" where
  "ds_debugPrint d = foldP ds_print_line [0..<length (ds_nodes d)] ([], d)"

section \<open>Representatives\<close>

text \<open>\<open>root_within ns i k\<close>: the root above \<open>i\<close> when it is at most \<open>k\<close> parent steps away.\<close>

fun root_within :: "ds_node option list \<Rightarrow> nat \<Rightarrow> nat \<Rightarrow> nat option" where
  "root_within ns i k =
     (if i < length ns then
        case ns ! i of None \<Rightarrow> None
        | Some nd \<Rightarrow> (case nd_parent nd of None \<Rightarrow> Some i
           | Some p \<Rightarrow> (case k of 0 \<Rightarrow> None | Suc k' \<Rightarrow> root_within ns p k'))
      else None)"

declare root_within.simps [simp del]

definition present :: "ds_node option list \<Rightarrow> nat \<Rightarrow> bool" where
  "present ns i \<longleftrightarrow> i < length ns \<and> ns ! i \<noteq> None"

definition root_of :: "ds_node option list \<Rightarrow> nat \<Rightarrow> nat \<Rightarrow> bool" where
  "root_of ns i r \<longleftrightarrow> (\<exists>k. root_within ns i k = Some r)"

definition roots :: "ds_node option list \<Rightarrow> nat set" where
  "roots ns = {i. present ns i \<and> nd_parent (the (ns ! i)) = None}"

definition wf_nodes :: "ds_node option list \<Rightarrow> bool" where
  "wf_nodes ns \<longleftrightarrow>
     (\<forall>i. present ns i \<longrightarrow> (\<exists>r. root_of ns i r) \<and> nd_index (the (ns ! i)) = i)"

definition wf_ds :: "disjoint_sets \<Rightarrow> bool" where
  "wf_ds d \<longleftrightarrow> wf_nodes (ds_nodes d)
     \<and> ds_num_elements d = card {i. present (ds_nodes d) i}
     \<and> ds_num_sets d = int (card (roots (ds_nodes d)))"

definition same_set :: "disjoint_sets \<Rightarrow> nat \<Rightarrow> nat \<Rightarrow> bool" where
  "same_set d i j \<longleftrightarrow> (\<exists>r. root_of (ds_nodes d) i r \<and> root_of (ds_nodes d) j r)"

lemma node_at_present: "present ns i \<Longrightarrow> node_at ns i = Inr (the (ns ! i))"
  by (auto simp: present_def node_at_def)

lemma node_at_absent: "\<not> present ns i \<Longrightarrow> \<exists>e. node_at ns i = Inl e"
  by (auto simp: present_def node_at_def vec_at_def)

lemma root_within_mono: "root_within ns i k = Some r \<Longrightarrow> k \<le> m \<Longrightarrow> root_within ns i m = Some r"
proof (induction k arbitrary: i m)
  case 0
  then show ?case
    by (subst root_within.simps, subst (asm) root_within.simps)
      (auto split: if_splits option.splits)
next
  case (Suc k)
  then obtain m' where m: "m = Suc m'" by (cases m) auto
  with Suc show ?case
    by (subst root_within.simps, subst (asm) (2) root_within.simps)
      (auto split: if_splits option.splits)
qed

lemma root_of_unique: "root_of ns i r \<Longrightarrow> root_of ns i s \<Longrightarrow> r = s"
  unfolding root_of_def
  by (metis nat_le_linear option.inject root_within_mono)

lemma root_of_root:
  assumes "present ns i" "nd_parent (the (ns ! i)) = None"
  shows "root_within ns i k = Some i"
  using assms by (subst root_within.simps) (auto simp: present_def)

lemma root_within_step:
  assumes "present ns i" "nd_parent (the (ns ! i)) = Some p"
  shows "root_within ns i (Suc k) = root_within ns p k" "root_within ns i 0 = None"
  using assms by (subst root_within.simps, auto simp: present_def)+

lemma root_within_cases:
  assumes "root_within ns i k = Some r"
  obtains "present ns i" "nd_parent (the (ns ! i)) = None" "r = i"
    | p k' where "present ns i" "nd_parent (the (ns ! i)) = Some p" "k = Suc k'"
        "root_within ns p k' = Some r"
  using assms
  by (subst (asm) root_within.simps)
    (auto simp: present_def split: if_splits option.splits nat.splits)

lemma root_within_root:
  "root_within ns i k = Some r \<Longrightarrow> present ns r \<and> nd_parent (the (ns ! r)) = None"
proof (induction k arbitrary: i)
  case 0
  then show ?case by (rule root_within_cases) simp_all
next
  case (Suc k)
  from Suc.prems show ?case by (rule root_within_cases) (use Suc.IH in simp_all)
qed

lemma root_within_present: "root_within ns i k = Some r \<Longrightarrow> present ns i"
  by (rule root_within_cases)

lemma root_of_present: "root_of ns i r \<Longrightarrow> present ns i"
  using root_within_present unfolding root_of_def by blast

lemma root_loop_ok: "root_within ns i k = Some r \<Longrightarrow> root_loop ns i = Some (Inr r)"
proof (induction k arbitrary: i)
  case 0
  then show ?case
    by (rule root_within_cases) (subst root_loop.simps; simp add: node_at_present)+
next
  case (Suc k)
  from Suc.prems show ?case
  proof (rule root_within_cases)
    fix p k'
    assume "present ns i" "nd_parent (the (ns ! i)) = Some p" "Suc k = Suc k'"
      "root_within ns p k' = Some r"
    with Suc.IH [of p] show ?thesis by (subst root_loop.simps) (simp add: node_at_present)
  qed (subst root_loop.simps, simp add: node_at_present)
qed

section \<open>Path compression\<close>

text \<open>\<open>finer ns ns'\<close>: the same nodes, each with its root, index and at most its old distance.\<close>

definition finer :: "ds_node option list \<Rightarrow> ds_node option list \<Rightarrow> bool" where
  "finer ns ns' \<longleftrightarrow> length ns' = length ns
     \<and> (\<forall>i. present ns' i \<longleftrightarrow> present ns i)
     \<and> (\<forall>i. present ns i \<longrightarrow> nd_index (the (ns' ! i)) = nd_index (the (ns ! i)))
     \<and> (\<forall>i k r. root_within ns i k = Some r \<longrightarrow> root_within ns' i k = Some r)"

lemma finer_refl: "finer ns ns"
  by (simp add: finer_def)

lemma finer_trans: "finer ns ns1 \<Longrightarrow> finer ns1 ns2 \<Longrightarrow> finer ns ns2"
  by (simp add: finer_def)

lemma finer_root_of: "finer ns ns' \<Longrightarrow> root_of ns i r \<Longrightarrow> root_of ns' i r"
  unfolding finer_def root_of_def by blast

lemma present_update [simp]:
  "present (ns[i := Some nd]) j \<longleftrightarrow> present ns j \<or> (j = i \<and> i < length ns)"
  by (cases "j = i") (auto simp: present_def)

lemma compress_one:
  assumes p: "present ns i" "nd_parent (the (ns ! i)) = Some p" and r: "root_within ns i k = Some r"
  shows "finer ns (ns[i := Some (the (ns ! i)\<lparr>nd_parent := Some r\<rparr>)])"
proof -
  let ?ns = "ns[i := Some (the (ns ! i)\<lparr>nd_parent := Some r\<rparr>)]"
  have i: "i < length ns" using p(1) by (simp add: present_def)
  have root: "present ns r" "nd_parent (the (ns ! r)) = None" using root_within_root [OF r] by auto
  then have ri: "r \<noteq> i" using p(2) by auto
  have root': "root_within ?ns r m = Some r" for m
    using root ri by (intro root_of_root) auto
  have "root_within ?ns j m = Some s" if "root_within ns j m = Some s" for j m s
    using that
  proof (induction m arbitrary: j)
    case 0
    then show ?case
    proof (rule root_within_cases)
      assume j: "present ns j" "nd_parent (the (ns ! j)) = None" "s = j"
      then have "j \<noteq> i" using p(2) by auto
      with j show ?thesis using root_of_root [of ?ns j 0] by simp
    qed simp
  next
    case (Suc m)
    show ?case
    proof (cases "j = i")
      case True
      have "s = r" using Suc.prems r True root_of_unique [of ns i] unfolding root_of_def by blast
      moreover have "present ?ns i" "nd_parent (the (?ns ! i)) = Some r" using i by simp_all
      ultimately show ?thesis using root_within_step(1) [of ?ns i r m] root' True by simp
    next
      case False
      from Suc.prems show ?thesis
      proof (rule root_within_cases)
        assume "present ns j" "nd_parent (the (ns ! j)) = None" "s = j"
        with False show ?thesis using root_of_root [of ?ns j] by simp
      next
        fix q m'
        assume "present ns j" "nd_parent (the (ns ! j)) = Some q" "Suc m = Suc m'"
          "root_within ns q m' = Some s"
        with False Suc.IH [of q] show ?thesis using root_within_step(1) [of ?ns j q m] by simp
      qed
    qed
  qed
  with i p(1) show ?thesis by (auto simp: finer_def nth_list_update)
qed

lemma compress_loop_ok:
  "root_within ns i k = Some r \<Longrightarrow>
    \<exists>ns'. compress_loop ns i r = Some (Inr ns') \<and> finer ns ns'"
proof (induction k arbitrary: ns i)
  case 0
  then show ?case
    by (rule root_within_cases) (subst compress_loop.simps; simp add: finer_refl)+
next
  case (Suc k)
  from Suc.prems show ?case
  proof (rule root_within_cases)
    assume "r = i"
    then show ?thesis by (subst compress_loop.simps) (auto intro: finer_refl)
  next
    fix p k'
    assume p: "present ns i" "nd_parent (the (ns ! i)) = Some p" "Suc k = Suc k'"
      "root_within ns p k' = Some r"
    have f: "finer ns (ns[i := Some (the (ns ! i)\<lparr>nd_parent := Some r\<rparr>)])"
      (is "finer ns ?ns") by (rule compress_one [OF p(1,2) Suc.prems])
    then have "root_within ?ns p k = Some r" using p(3,4) by (simp add: finer_def)
    then obtain ns' where "compress_loop ?ns p r = Some (Inr ns')" "finer ?ns ns'"
      using Suc.IH by blast
    moreover have "i \<noteq> r" using root_within_root [OF Suc.prems] p(2) by auto
    ultimately show ?thesis
      using p(1,2) f finer_trans by (subst compress_loop.simps) (auto simp: node_at_present)
  qed
qed

section \<open>Find\<close>

lemma root_of_finer:
  assumes "wf_nodes ns" "finer ns ns'"
  shows "root_of ns' i r \<longleftrightarrow> root_of ns i r"
proof
  assume r: "root_of ns' i r"
  then have "present ns' i" using root_within_present by (auto simp: root_of_def)
  then have "present ns i" using assms(2) by (simp add: finer_def)
  then obtain s where s: "root_of ns i s" using assms(1) by (auto simp: wf_nodes_def)
  with finer_root_of [OF assms(2)] r have "r = s" by (metis root_of_unique)
  with s show "root_of ns i r" by simp
qed (rule finer_root_of [OF assms(2)])

lemma roots_root_of: "i \<in> roots ns \<longleftrightarrow> root_of ns i i"
proof
  assume "i \<in> roots ns"
  then show "root_of ns i i" using root_of_root by (auto simp: roots_def root_of_def)
next
  assume "root_of ns i i"
  then show "i \<in> roots ns" using root_within_root by (auto simp: root_of_def roots_def)
qed

lemma finer_wf: "wf_nodes ns \<Longrightarrow> finer ns ns' \<Longrightarrow> wf_nodes ns'"
  by (simp add: wf_nodes_def root_of_finer finer_def [of ns ns'])

lemma ds_Find_ok:
  assumes wf: "wf_ds d" and r: "root_of (ds_nodes d) i r"
  shows "\<exists>d'. ds_Find d i = Some (Inr (r, d')) \<and> wf_ds d'
    \<and> (\<forall>j s. root_of (ds_nodes d') j s \<longleftrightarrow> root_of (ds_nodes d) j s)
    \<and> (\<forall>j. present (ds_nodes d') j \<longleftrightarrow> present (ds_nodes d) j)"
proof -
  let ?ns = "ds_nodes d"
  have wfn: "wf_nodes ?ns" using wf by (simp add: wf_ds_def)
  obtain k where k: "root_within ?ns i k = Some r" using r by (auto simp: root_of_def)
  obtain ns' where c: "compress_loop ?ns i r = Some (Inr ns')" "finer ?ns ns'"
    using compress_loop_ok [OF k] by blast
  have wfn': "wf_nodes ns'" by (rule finer_wf [OF wfn c(2)])
  have "present ns' r" using root_within_root [OF k] c(2) by (simp add: finer_def)
  then have "node_at ns' r = Inr (the (ns' ! r))" "nd_index (the (ns' ! r)) = r"
    using wfn' by (simp_all add: node_at_present wf_nodes_def)
  then have "ds_Find d i = Some (Inr (r, d\<lparr>ds_nodes := ns'\<rparr>))"
    using root_loop_ok [OF k] c(1) by (simp add: ds_Find_def)
  moreover have "roots ns' = roots ?ns"
    using root_of_finer [OF wfn c(2)] by (auto simp: roots_root_of)
  then have "wf_ds (d\<lparr>ds_nodes := ns'\<rparr>)"
    using wf wfn' c(2) by (simp add: wf_ds_def finer_def)
  ultimately show ?thesis
    using root_of_finer [OF wfn c(2)] c(2) by (auto simp: finer_def)
qed

section \<open>Add\<close>

lemma root_within_extend:
  assumes "length ns \<le> length ns'" "\<And>j. present ns j \<Longrightarrow> ns' ! j = ns ! j"
  shows "root_within ns i k = Some r \<Longrightarrow> root_within ns' i k = Some r"
proof (induction k arbitrary: i)
  case 0
  from 0 have "present ns i" "nd_parent (the (ns ! i)) = None" "r = i"
    by (auto elim: root_within_cases)
  with assms show ?case by (auto intro!: root_of_root simp: present_def)
next
  case (Suc k)
  have p: "present ns' j" "the (ns' ! j) = the (ns ! j)" if "present ns j" for j
    using assms that by (auto simp: present_def)
  from Suc.prems show ?case
  proof (rule root_within_cases)
    assume "present ns i" "nd_parent (the (ns ! i)) = None" "r = i"
    with p show ?thesis by (auto intro: root_of_root)
  next
    fix q k'
    assume "present ns i" "nd_parent (the (ns ! i)) = Some q" "Suc k = Suc k'"
      "root_within ns q k' = Some r"
    with p [of i] Suc.IH [of q] show ?thesis by (simp add: root_within_step)
  qed
qed

lemma ds_Add_ok:
  assumes wf: "wf_ds d"
  shows "\<exists>d'. ds_Add d e = Inr d' \<and> wf_ds d'
    \<and> (\<forall>j. present (ds_nodes d') j \<longleftrightarrow> present (ds_nodes d) j \<or> j = e)
    \<and> (\<forall>j s. root_of (ds_nodes d') j s \<longleftrightarrow>
          root_of (ds_nodes d) j s \<or> (j = e \<and> s = e \<and> \<not> present (ds_nodes d) e))"
proof -
  let ?ns = "ds_nodes d"
  let ?m = "if e \<ge> length ?ns then vec_resize ?ns (e + 1) None else ?ns"
  have len: "e < length ?m" "length ?ns \<le> length ?m" by (auto simp: vec_resize_def)
  have old: "?m ! j = (if j < length ?ns then ?ns ! j else None)" if "j < length ?m" for j
    using that by (auto simp: nth_vec_resize split: if_splits)
  have pm: "present ?m j \<longleftrightarrow> present ?ns j" for j
    using old len(2) by (auto simp: present_def split: if_splits)
  have wfn: "wf_nodes ?ns" using wf by (simp add: wf_ds_def)
  show ?thesis
  proof (cases "present ?ns e")
    case True
    then have "?m ! e \<noteq> None" "?m = ?ns" using pm [of e] by (auto simp: present_def)
    then have "ds_Add d e = Inr d" using len(1) by (auto simp: ds_Add_def Let_def vec_at_def)
    with wf True show ?thesis by auto
  next
    case False
    let ?n = "?m[e := Some (Node_new e)]"
    have add: "ds_Add d e = Inr (d\<lparr>ds_nodes := ?n, ds_num_elements := ds_num_elements d + 1,
        ds_num_sets := ds_num_sets d + 1\<rparr>)"
      using False pm [of e] len(1) by (auto simp: ds_Add_def Let_def vec_at_def present_def)
    have pn: "present ?n j \<longleftrightarrow> present ?ns j \<or> j = e" for j using len(1) pm by auto
    have ext: "root_within ?ns i k = Some r \<Longrightarrow> root_within ?n i k = Some r" for i k r
      by (rule root_within_extend [of ?ns ?n])
        (use len old False in \<open>auto simp: present_def nth_list_update\<close>)
    have ne: "nd_parent (the (?n ! e)) = None" "nd_index (the (?n ! e)) = e" using len(1)
      by (simp_all add: Node_new_def)
    have e: "root_of ?n e e" using pn ne(1) root_of_root [of ?n e] by (auto simp: root_of_def)
    have root: "root_of ?n j s \<longleftrightarrow> root_of ?ns j s \<or> (j = e \<and> s = e)" for j s
    proof
      assume n: "root_of ?n j s"
      have "present ?ns j \<or> j = e" using root_of_present [OF n] unfolding pn .
      then show "root_of ?ns j s \<or> (j = e \<and> s = e)"
      proof
        assume "present ?ns j"
        then obtain t where t: "root_of ?ns j t" using wfn by (auto simp: wf_nodes_def)
        then have "root_of ?n j t" using ext unfolding root_of_def by blast
        with n have "s = t" by (rule root_of_unique)
        with t show ?thesis by simp
      qed (use n e root_of_unique in blast)
    next
      assume "root_of ?ns j s \<or> (j = e \<and> s = e)"
      moreover have "root_of ?n j s" if "root_of ?ns j s"
        using that ext unfolding root_of_def by blast
      ultimately show "root_of ?n j s" using e by blast
    qed
    have keep: "the (?n ! j) = the (?ns ! j)" if "present ?ns j" for j
    proof -
      have "j \<noteq> e" using that False by auto
      then show ?thesis using that old [of j] len(2) by (auto simp: present_def)
    qed
    have "(\<exists>r. root_of ?n j r) \<and> nd_index (the (?n ! j)) = j" if "present ?n j" for j
    proof (cases "j = e")
      case True
      then show ?thesis using e ne(2) by blast
    next
      case False
      then have "present ?ns j" using that pn by blast
      with wfn keep [of j] root show ?thesis unfolding wf_nodes_def by metis
    qed
    then have wfn': "wf_nodes ?n" by (simp add: wf_nodes_def)
    have "roots ?n = insert e (roots ?ns)"
      by (simp only: set_eq_iff insert_iff roots_root_of root) blast
    moreover have "{j. present ?n j} = insert e {j. present ?ns j}" using pn by auto
    moreover have "finite (roots ?ns)" "finite {j. present ?ns j}" "e \<notin> roots ?ns"
      using False by (auto simp: roots_def present_def)
    ultimately have "wf_ds (d\<lparr>ds_nodes := ?n, ds_num_elements := ds_num_elements d + 1,
        ds_num_sets := ds_num_sets d + 1\<rparr>)"
      using wf wfn' False by (simp add: wf_ds_def)
    with add pn root False show ?thesis by auto
  qed
qed

section \<open>Union\<close>

text \<open>Hanging the root \<open>b\<close> below the root \<open>a\<close>, whatever happens to the ranks.\<close>

definition hung :: "ds_node option list \<Rightarrow> nat \<Rightarrow> nat \<Rightarrow> ds_node option list \<Rightarrow> bool" where
  "hung ns a b ns' \<longleftrightarrow> length ns' = length ns \<and> (\<forall>j. present ns' j \<longleftrightarrow> present ns j)
     \<and> (\<forall>j. present ns j \<longrightarrow> nd_index (the (ns' ! j)) = nd_index (the (ns ! j))
          \<and> nd_parent (the (ns' ! j)) = (if j = b then Some a else nd_parent (the (ns ! j))))"

lemma hung_root:
  assumes h: "hung ns a b ns'" and a: "a \<in> roots ns" and b: "b \<in> roots ns" and ab: "a \<noteq> b"
  shows "root_within ns i k = Some r \<Longrightarrow> root_within ns' i (Suc k) = Some (if r = b then a else r)"
proof (induction k arbitrary: i)
  case 0
  then have i: "present ns i" "nd_parent (the (ns ! i)) = None" "r = i"
    by (auto elim: root_within_cases)
  show ?case
  proof (cases "i = b")
    case True
    have "present ns' a" "nd_parent (the (ns' ! a)) = None"
      using h a ab by (auto simp: hung_def roots_def)
    moreover have "present ns' b" "nd_parent (the (ns' ! b)) = Some a"
      using h b by (auto simp: hung_def roots_def)
    ultimately show ?thesis using True i(3) by (simp add: root_within_step root_of_root)
  next
    case False
    then have "present ns' i" "nd_parent (the (ns' ! i)) = None"
      using h i by (auto simp: hung_def)
    then show ?thesis using False i(3) by (simp add: root_of_root)
  qed
next
  case (Suc k)
  from Suc.prems show ?case
  proof (rule root_within_cases)
    assume i: "present ns i" "nd_parent (the (ns ! i)) = None" "r = i"
    then have "root_within ns i k = Some r" by (simp add: root_of_root)
    from Suc.IH [OF this] show ?thesis by (rule root_within_mono) simp
  next
    fix q k'
    assume q: "present ns i" "nd_parent (the (ns ! i)) = Some q" "Suc k = Suc k'"
      "root_within ns q k' = Some r"
    then have "i \<noteq> b" using b by (auto simp: roots_def)
    then have "present ns' i" "nd_parent (the (ns' ! i)) = Some q"
      using h q by (auto simp: hung_def)
    with Suc.IH [of q] q show ?thesis by (simp add: root_within_step)
  qed
qed

lemma hung_root_of:
  assumes wf: "wf_nodes ns" and h: "hung ns a b ns'" and ab: "a \<in> roots ns" "b \<in> roots ns" "a \<noteq> b"
  shows "root_of ns' i s \<longleftrightarrow> (\<exists>r. root_of ns i r \<and> s = (if r = b then a else r))"
proof -
  have up: "root_of ns' i (if r = b then a else r)" if "root_of ns i r" for r
    using that hung_root [OF h ab] unfolding root_of_def by blast
  have "present ns i" if "root_of ns' i s"
    using root_of_present [OF that] h by (simp add: hung_def)
  moreover have "\<exists>r. root_of ns i r" if "present ns i"
    using wf that by (simp add: wf_nodes_def)
  ultimately show ?thesis using up root_of_unique by blast
qed

lemma hung_wf:
  assumes wf: "wf_nodes ns" and h: "hung ns a b ns'" and ab: "a \<in> roots ns" "b \<in> roots ns" "a \<noteq> b"
  shows "wf_nodes ns'" "roots ns' = roots ns - {b}"
proof -
  have "(\<exists>r. root_of ns' i r) \<and> nd_index (the (ns' ! i)) = i" if "present ns' i" for i
    using that wf h hung_root_of [OF wf h ab] unfolding wf_nodes_def hung_def by metis
  then show "wf_nodes ns'" by (simp add: wf_nodes_def)
  show "roots ns' = roots ns - {b}"
    using h ab(2) by (auto simp: roots_def hung_def split: if_splits)
qed

lemma ds_link_ok:
  assumes wf: "wf_ds d" and ab: "a \<in> roots (ds_nodes d)" "b \<in> roots (ds_nodes d)" "a \<noteq> b"
  shows "\<exists>d' x y. ds_link d a b = Inr d' \<and> {x, y} = {a, b} \<and> hung (ds_nodes d) x y (ds_nodes d')
    \<and> wf_ds d'"
proof -
  let ?ns = "ds_nodes d"
  have wfn: "wf_nodes ?ns" using wf by (simp add: wf_ds_def)
  have p: "present ?ns a" "present ?ns b" using ab by (simp_all add: roots_def)
  then have at: "node_at ?ns a = Inr (the (?ns ! a))" "node_at ?ns b = Inr (the (?ns ! b))"
    "a < length ?ns" "b < length ?ns"
    by (simp_all add: node_at_present) (simp_all add: present_def)
  have linked: "\<exists>d' x y. ds_link d a b = Inr d' \<and> {x, y} = {a, b} \<and> hung ?ns x y (ds_nodes d') \<and> wf_ds d'"
    if l: "ds_link d a b = Inr (d\<lparr>ds_nodes := ns', ds_num_sets := ds_num_sets d - 1\<rparr>)"
      and xy: "{x, y} = {a, b}" and h: "hung ?ns x y ns'" for ns' x y
  proof -
    have xy': "x \<in> roots ?ns" "y \<in> roots ?ns" "x \<noteq> y" using xy ab by (auto simp: doubleton_eq_iff)
    have fin: "finite (roots ?ns)" by (auto simp: roots_def present_def)
    then have "0 < card (roots ?ns)" using xy' by (auto simp: card_gt_0_iff)
    then have "int (card (roots ?ns - {y})) = int (card (roots ?ns)) - 1"
      using fin xy' by (simp add: of_nat_diff)
    then have "wf_ds (d\<lparr>ds_nodes := ns', ds_num_sets := ds_num_sets d - 1\<rparr>)"
      using wf hung_wf [OF wfn h xy'] h by (simp add: wf_ds_def hung_def)
    then show ?thesis using l xy h by (intro exI [of _ "d\<lparr>ds_nodes := ns', ds_num_sets := ds_num_sets d - 1\<rparr>"]) auto
  qed
  let ?x = "the (?ns ! a)" and ?y = "the (?ns ! b)"
  consider "nd_rank ?x < nd_rank ?y" | "nd_rank ?x > nd_rank ?y" | "nd_rank ?x = nd_rank ?y"
    by linarith
  then show ?thesis
  proof cases
    case 1
    have "hung ?ns b a (?ns[a := Some (?x\<lparr>nd_parent := Some b\<rparr>)])"
      using at(3) p by (auto simp: hung_def nth_list_update)
    with 1 at ab(3) show ?thesis by (intro linked) (auto simp: ds_link_def)
  next
    case 2
    have "hung ?ns a b (?ns[b := Some (?y\<lparr>nd_parent := Some a\<rparr>)])"
      using at(4) p by (auto simp: hung_def nth_list_update)
    with 2 at ab(3) show ?thesis by (intro linked) (auto simp: ds_link_def)
  next
    case 3
    have "hung ?ns a b (?ns[b := Some (?y\<lparr>nd_parent := Some a\<rparr>), a := Some (?x\<lparr>nd_rank := nd_rank ?x + 1\<rparr>)])"
      using at(3,4) p ab(3) by (auto simp: hung_def nth_list_update)
    with 3 at ab(3) show ?thesis by (intro linked) (auto simp: ds_link_def)
  qed
qed

lemma ds_Union_ok:
  assumes wf: "wf_ds d" and xy: "present (ds_nodes d) x" "present (ds_nodes d) y"
  shows "\<exists>d'. ds_Union d x y = Some (Inr d') \<and> wf_ds d'
    \<and> (\<forall>j. present (ds_nodes d') j \<longleftrightarrow> present (ds_nodes d) j)
    \<and> (\<forall>i j. same_set d' i j \<longleftrightarrow> same_set d i j \<or> (same_set d i x \<and> same_set d y j)
          \<or> (same_set d i y \<and> same_set d x j))"
proof -
  obtain a b where a: "root_of (ds_nodes d) x a" and b: "root_of (ds_nodes d) y b"
    using wf xy unfolding wf_ds_def wf_nodes_def by blast
  obtain d1 where d1: "ds_Find d x = Some (Inr (a, d1))" "wf_ds d1"
      "\<forall>j s. root_of (ds_nodes d1) j s \<longleftrightarrow> root_of (ds_nodes d) j s"
      "\<forall>j. present (ds_nodes d1) j \<longleftrightarrow> present (ds_nodes d) j"
    using ds_Find_ok [OF wf a] by blast
  have "root_of (ds_nodes d1) y b" using d1(3) b by blast
  from ds_Find_ok [OF d1(2) this] d1(3,4) obtain d2 where
      d2: "ds_Find d1 y = Some (Inr (b, d2))" "wf_ds d2"
      "\<forall>j s. root_of (ds_nodes d2) j s \<longleftrightarrow> root_of (ds_nodes d) j s"
      "\<forall>j. present (ds_nodes d2) j \<longleftrightarrow> present (ds_nodes d) j"
    by auto
  have union: "ds_Union d x y = Some (ds_link d2 a b)"
    using xy d1(1) d2(1) by (simp add: ds_Union_def node_at_present)
  have wfn: "wf_nodes (ds_nodes d2)" using d2(2) by (simp add: wf_ds_def)
  have ss: "same_set d i j \<longleftrightarrow> (\<exists>r. root_of (ds_nodes d2) i r \<and> root_of (ds_nodes d2) j r)" for i j
    using d2(3) by (simp add: same_set_def)
  have same: "same_set d i x \<longleftrightarrow> root_of (ds_nodes d2) i a" "same_set d x i \<longleftrightarrow> root_of (ds_nodes d2) i a"
    "same_set d i y \<longleftrightarrow> root_of (ds_nodes d2) i b" "same_set d y i \<longleftrightarrow> root_of (ds_nodes d2) i b" for i
    using a b d2(3) root_of_unique unfolding ss by metis+
  have roots: "a \<in> roots (ds_nodes d2)" "b \<in> roots (ds_nodes d2)"
    using a b d2(3) root_within_root root_of_root unfolding roots_root_of root_of_def by metis+
  show ?thesis
  proof (cases "a = b")
    case True
    then have "ds_Union d x y = Some (Inr d2)"
      using union roots by (simp add: ds_link_def roots_def node_at_present)
    moreover have "same_set d2 i j \<longleftrightarrow> same_set d i j" for i j
      unfolding ss same_set_def [of d2] ..
    moreover have "same_set d i j" if "root_of (ds_nodes d2) i a" "root_of (ds_nodes d2) j a" for i j
      using that unfolding ss by blast
    ultimately show ?thesis using d2(2,4) True same by (intro exI [of _ d2]) (simp, blast)
  next
    case False
    obtain d' p q where d': "ds_link d2 a b = Inr d'" "{p, q} = {a, b}"
        "hung (ds_nodes d2) p q (ds_nodes d')" "wf_ds d'"
      using ds_link_ok [OF d2(2) roots False] by blast
    have pq: "p \<in> roots (ds_nodes d2)" "q \<in> roots (ds_nodes d2)" "p \<noteq> q"
      using d'(2) roots False by (auto simp: doubleton_eq_iff)
    note root' = hung_root_of [OF wfn d'(3) pq]
    have "same_set d' i j \<longleftrightarrow> same_set d i j \<or> (root_of (ds_nodes d2) i p \<and> root_of (ds_nodes d2) j q)
        \<or> (root_of (ds_nodes d2) i q \<and> root_of (ds_nodes d2) j p)" for i j
    proof
      assume "same_set d' i j"
      then obtain r s where "root_of (ds_nodes d2) i r" "root_of (ds_nodes d2) j s"
          "(if r = q then p else r) = (if s = q then p else s)"
        unfolding same_set_def [of d'] root' by blast
      then show "same_set d i j \<or> (root_of (ds_nodes d2) i p \<and> root_of (ds_nodes d2) j q)
        \<or> (root_of (ds_nodes d2) i q \<and> root_of (ds_nodes d2) j p)"
        unfolding ss by (cases "r = q"; cases "s = q") auto
    next
      assume "same_set d i j \<or> (root_of (ds_nodes d2) i p \<and> root_of (ds_nodes d2) j q)
        \<or> (root_of (ds_nodes d2) i q \<and> root_of (ds_nodes d2) j p)"
      then show "same_set d' i j"
        unfolding ss same_set_def [of d'] root' using pq(3) by metis
    qed
    then have "same_set d' i j \<longleftrightarrow> same_set d i j \<or> (same_set d i x \<and> same_set d y j)
          \<or> (same_set d i y \<and> same_set d x j)" for i j
      using d'(2) unfolding same by (auto simp: doubleton_eq_iff)
    then show ?thesis using union d'(1,3,4) d2(4) by (auto simp: hung_def)
  qed
qed

section \<open>The partition a sequence of calls builds\<close>

lemma wf_ds_new: "wf_ds DisjointSets_new"
  by (simp add: wf_ds_def wf_nodes_def DisjointSets_new_def present_def roots_def)

lemma same_set_present: "same_set d i j \<Longrightarrow> present (ds_nodes d) i \<and> present (ds_nodes d) j"
  unfolding same_set_def by (blast intro: root_of_present)

lemma same_set_sym: "same_set d i j \<longleftrightarrow> same_set d j i"
  by (auto simp: same_set_def)

lemma same_set_trans: "same_set d i j \<Longrightarrow> same_set d j k \<Longrightarrow> same_set d i k"
  unfolding same_set_def by (metis root_of_unique)

lemma same_set_refl: "wf_ds d \<Longrightarrow> same_set d i i \<longleftrightarrow> present (ds_nodes d) i"
  using same_set_present by (auto simp: same_set_def wf_ds_def wf_nodes_def)

lemma ds_Add_same:
  assumes wf: "wf_ds d"
  shows "\<exists>d'. ds_Add d e = Inr d' \<and> wf_ds d'
    \<and> (\<forall>j. present (ds_nodes d') j \<longleftrightarrow> present (ds_nodes d) j \<or> j = e)
    \<and> (\<forall>i j. same_set d' i j \<longleftrightarrow> same_set d i j \<or> (i = e \<and> j = e))"
proof -
  obtain d' where d': "ds_Add d e = Inr d'" "wf_ds d'"
    "\<forall>j. present (ds_nodes d') j \<longleftrightarrow> present (ds_nodes d) j \<or> j = e"
    "\<forall>j s. root_of (ds_nodes d') j s \<longleftrightarrow>
        root_of (ds_nodes d) j s \<or> (j = e \<and> s = e \<and> \<not> present (ds_nodes d) e)"
    using ds_Add_ok [OF wf, of e] by auto
  have "same_set d' i j \<longleftrightarrow> same_set d i j \<or> (i = e \<and> j = e)" for i j
  proof (cases "present (ds_nodes d) e")
    case True
    then have "same_set d e e" using same_set_refl [OF wf] by simp
    then show ?thesis using d'(4) True by (auto simp: same_set_def)
  next
    case False
    then have "\<not> root_of (ds_nodes d) j e" for j
      using root_within_root by (auto simp: root_of_def)
    then show ?thesis using d'(4) False by (auto simp: same_set_def)
  qed
  with d' show ?thesis by blast
qed

text \<open>The connected components of a set of edges.\<close>

definition connects :: "(nat \<times> nat) set \<Rightarrow> nat \<Rightarrow> nat \<Rightarrow> bool" where
  "connects E i j \<longleftrightarrow> (i, j) \<in> (E \<union> E\<inverse>)\<^sup>* \<and> i \<in> Field E \<and> j \<in> Field E"

lemma connects_sym: "connects E i j \<Longrightarrow> connects E j i"
proof -
  have "sym ((E \<union> E\<inverse>)\<^sup>*)" by (intro sym_rtrancl) (auto simp: sym_def)
  then show "connects E i j \<Longrightarrow> connects E j i" by (auto simp: connects_def dest: symD)
qed

lemma connects_trans: "connects E i j \<Longrightarrow> connects E j k \<Longrightarrow> connects E i k"
  by (auto simp: connects_def)

lemma connects_refl: "connects E i i \<longleftrightarrow> i \<in> Field E"
  by (auto simp: connects_def)

lemma connects_edge: "(i, j) \<in> E \<Longrightarrow> connects E i j"
  by (auto simp: connects_def Field_def)

lemma connects_mono: "connects E i j \<Longrightarrow> connects (E \<union> E') i j"
proof -
  have "(E \<union> E\<inverse>)\<^sup>* \<subseteq> ((E \<union> E') \<union> (E \<union> E')\<inverse>)\<^sup>*" by (rule rtrancl_mono) auto
  then show "connects E i j \<Longrightarrow> connects (E \<union> E') i j" by (auto simp: connects_def)
qed

lemma connects_add: "connects (insert (e, e) E) i j \<longleftrightarrow> connects E i j \<or> (i = e \<and> j = e)"
proof
  have "insert (e, e) E \<union> (insert (e, e) E)\<inverse> = insert (e, e) (E \<union> E\<inverse>)" by auto
  then have r: "(insert (e, e) E \<union> (insert (e, e) E)\<inverse>)\<^sup>* = (E \<union> E\<inverse>)\<^sup>*"
    by (auto simp: rtrancl_insert)
  assume c: "connects (insert (e, e) E) i j"
  then have path: "(i, j) \<in> (E \<union> E\<inverse>)\<^sup>*" unfolding connects_def r by simp
  then have "i = j \<or> ((\<exists>z. (i, z) \<in> E \<union> E\<inverse>) \<and> (\<exists>z. (z, j) \<in> E \<union> E\<inverse>))"
    by (metis rtrancl_eq_or_trancl tranclD tranclD2)
  then have "i = j \<or> (i \<in> Field E \<and> j \<in> Field E)" by (auto simp: Field_def)
  then show "connects E i j \<or> (i = e \<and> j = e)"
    using c path by (auto simp: connects_def Field_insert)
next
  assume "connects E i j \<or> (i = e \<and> j = e)"
  then show "connects (insert (e, e) E) i j"
    using connects_mono [of E i j "{(e, e)}"] connects_edge [of e e] by auto
qed

lemma connects_join:
  assumes ab: "a \<in> Field E" "b \<in> Field E"
  shows "connects (insert (a, b) E) i j \<longleftrightarrow>
    connects E i j \<or> (connects E i a \<and> connects E b j) \<or> (connects E i b \<and> connects E a j)"
proof
  let ?E = "insert (a, b) E" and ?R = "connects E"
  have up: "connects ?E x y" if "?R x y" for x y
    using connects_mono [OF that, of "{(a, b)}"] by simp
  have edge: "connects ?E a b" "connects ?E b a"
    using connects_edge [of a b ?E] connects_sym by auto
  show "connects ?E i j" if "?R i j \<or> (?R i a \<and> ?R b j) \<or> (?R i b \<and> ?R a j)"
    using that
  proof (elim disjE conjE)
    assume "?R i a" "?R b j"
    then show ?thesis using up edge(1) connects_trans by blast
  next
    assume "?R i b" "?R a j"
    then show ?thesis using up edge(2) connects_trans by blast
  qed (rule up)
  assume c: "connects ?E i j"
  then have path: "(i, j) \<in> (?E \<union> ?E\<inverse>)\<^sup>*" and i: "i \<in> Field E"
    using ab by (auto simp: connects_def Field_insert)
  from path show "?R i j \<or> (?R i a \<and> ?R b j) \<or> (?R i b \<and> ?R a j)"
  proof (induction rule: rtrancl_induct)
    case base
    then show ?case using i by (simp add: connects_refl)
  next
    case (step y z)
    have "?R y z \<or> (y = a \<and> z = b) \<or> (y = b \<and> z = a)"
      using step.hyps(2) connects_edge connects_sym by auto
    moreover have "?R a a" "?R b b" using ab by (simp_all add: connects_refl)
    ultimately show ?case
      using step.IH connects_trans [of E i y z] connects_trans [of E b y z]
        connects_trans [of E a y z] connects_trans [of E i a b]
      by blast
  qed
qed

lemma connects_self:
  assumes "N \<subseteq> Field E"
  shows "connects (E \<union> Id_on N) i j \<longleftrightarrow> connects E i j"
proof -
  have "(E \<union> Id_on N) \<union> (E \<union> Id_on N)\<inverse> = (E \<union> E\<inverse>) \<union> Id_on N" by auto
  moreover have "((E \<union> E\<inverse>) \<union> Id_on N)\<^sup>* = (E \<union> E\<inverse>)\<^sup>*"
    by (rule rtrancl_subset) auto
  moreover have "Field (E \<union> Id_on N) = Field E" using assms by (auto simp: Field_def)
  ultimately show ?thesis by (simp add: connects_def)
qed

text \<open>
  The interface of the structure: a partial equivalence that grows by a point or by joining two
  classes, and representatives that are equal exactly inside a class.
\<close>

locale union_find =
  fixes inv :: "'d \<Rightarrow> bool" and member :: "'d \<Rightarrow> nat \<Rightarrow> bool" and rel :: "'d \<Rightarrow> nat \<Rightarrow> nat \<Rightarrow> bool"
    and add :: "'d \<Rightarrow> nat \<Rightarrow> 'd result" and join :: "'d \<Rightarrow> nat \<Rightarrow> nat \<Rightarrow> 'd result option"
    and find :: "'d \<Rightarrow> nat \<Rightarrow> (nat \<times> 'd) result option" and rep :: "'d \<Rightarrow> nat \<Rightarrow> nat"
  assumes add_law: "inv d \<Longrightarrow> \<exists>d'. add d e = Inr d' \<and> inv d'
        \<and> (\<forall>j. member d' j \<longleftrightarrow> member d j \<or> j = e)
        \<and> (\<forall>i j. rel d' i j \<longleftrightarrow> rel d i j \<or> (i = e \<and> j = e))"
    and join_law: "inv d \<Longrightarrow> member d x \<Longrightarrow> member d y \<Longrightarrow> \<exists>d'. join d x y = Some (Inr d') \<and> inv d'
        \<and> (\<forall>j. member d' j \<longleftrightarrow> member d j)
        \<and> (\<forall>i j. rel d' i j \<longleftrightarrow> rel d i j \<or> (rel d i x \<and> rel d y j) \<or> (rel d i y \<and> rel d x j))"
    and find_law: "inv d \<Longrightarrow> member d x \<Longrightarrow> \<exists>d'. find d x = Some (Inr (rep d x, d')) \<and> inv d'
        \<and> (\<forall>j. member d' j \<longleftrightarrow> member d j) \<and> rep d' = rep d"
    and rep_law: "inv d \<Longrightarrow> rel d x y \<longleftrightarrow> member d x \<and> member d y \<and> rep d x = rep d y"
    and rel_refl: "inv d \<Longrightarrow> rel d i i \<longleftrightarrow> member d i"
    and rel_sym: "rel d i j \<Longrightarrow> rel d j i"
    and rel_trans: "rel d i j \<Longrightarrow> rel d j k \<Longrightarrow> rel d i k"
begin

text \<open>
  A state represents a set of edges when its classes are the connected components. An element
  that was only added is an edge from it to itself.
\<close>

definition represents :: "'d \<Rightarrow> (nat \<times> nat) set \<Rightarrow> bool" where
  "represents d E \<longleftrightarrow> inv d \<and> (\<forall>j. member d j \<longleftrightarrow> j \<in> Field E) \<and> (\<forall>i j. rel d i j \<longleftrightarrow> connects E i j)"

lemma represents_add:
  assumes "represents d E"
  shows "\<exists>d'. add d e = Inr d' \<and> represents d' (insert (e, e) E)"
proof -
  obtain d' where "add d e = Inr d'" "inv d'" "\<forall>j. member d' j \<longleftrightarrow> member d j \<or> j = e"
      "\<forall>i j. rel d' i j \<longleftrightarrow> rel d i j \<or> (i = e \<and> j = e)"
    using add_law [of d e] assms by (auto simp: represents_def)
  with assms show ?thesis by (auto simp: represents_def connects_add Field_insert)
qed

lemma represents_join:
  assumes "represents d E" "a \<in> Field E" "b \<in> Field E"
  shows "\<exists>d'. join d a b = Some (Inr d') \<and> represents d' (insert (a, b) E)"
proof -
  obtain d' where "join d a b = Some (Inr d')" "inv d'" "\<forall>j. member d' j \<longleftrightarrow> member d j"
      "\<forall>i j. rel d' i j \<longleftrightarrow> rel d i j \<or> (rel d i a \<and> rel d b j) \<or> (rel d i b \<and> rel d a j)"
    using join_law [of d a b] assms by (auto simp: represents_def)
  with assms show ?thesis by (auto simp: represents_def connects_join Field_insert)
qed

end

definition ds_rep :: "disjoint_sets \<Rightarrow> nat \<Rightarrow> nat" where
  "ds_rep d x = (THE r. root_of (ds_nodes d) x r)"

lemma ds_rep_eq: "root_of (ds_nodes d) x r \<Longrightarrow> ds_rep d x = r"
  unfolding ds_rep_def by (rule the_equality) (auto intro: root_of_unique)

interpretation ds: union_find wf_ds "\<lambda>d. present (ds_nodes d)" same_set ds_Add ds_Union ds_Find ds_rep
proof
  fix d x
  assume wf: "wf_ds d" and x: "present (ds_nodes d) x"
  then obtain r where r: "root_of (ds_nodes d) x r" by (auto simp: wf_ds_def wf_nodes_def)
  obtain d' where d': "ds_Find d x = Some (Inr (r, d'))" "wf_ds d'"
      "\<forall>j s. root_of (ds_nodes d') j s \<longleftrightarrow> root_of (ds_nodes d) j s"
      "\<forall>j. present (ds_nodes d') j \<longleftrightarrow> present (ds_nodes d) j"
    using ds_Find_ok [OF wf r] by blast
  then have "ds_rep d' = ds_rep d" by (simp add: ds_rep_def fun_eq_iff)
  with d' r show "\<exists>d'. ds_Find d x = Some (Inr (ds_rep d x, d')) \<and> wf_ds d'
        \<and> (\<forall>j. present (ds_nodes d') j \<longleftrightarrow> present (ds_nodes d) j) \<and> ds_rep d' = ds_rep d"
    by (simp add: ds_rep_eq)
next
  fix d x y
  assume wf: "wf_ds d"
  have "root_of (ds_nodes d) z (ds_rep d z)" if "present (ds_nodes d) z" for z
    using wf that ds_rep_eq by (metis wf_ds_def wf_nodes_def)
  then show "same_set d x y \<longleftrightarrow> present (ds_nodes d) x \<and> present (ds_nodes d) y \<and> ds_rep d x = ds_rep d y"
    using same_set_present [of d x y] ds_rep_eq unfolding same_set_def by metis
next
  fix d i j
  show "same_set d i j \<Longrightarrow> same_set d j i" using same_set_sym by blast
qed (rule ds_Add_same ds_Union_ok same_set_refl same_set_trans; assumption)+

end
