(* ===== verification/Orbit_Partitions.thy ===== *)
theory Orbit_Partitions
  imports Disjoint_Sets Symmetry_Groups
begin

text \<open>
  The class \<open>Orbits\<close> of \<open>include/cosy/Orbits.h\<close> and \<open>src/Orbits.cc\<close>: the partition of the moved
  variables into the orbits of a set of permutations. The map from representatives to variables
  is the list of its entries in insertion order; the order in which the language iterates over it
  is the parameter \<open>ord\<close>. The local set \<open>used\<close> holds the elements of \<open>_symmetrics\<close>.
\<close>

section \<open>Operations\<close>

record orbits =
  or_symmetrics :: "variable list"
  or_orbits :: "variable list list"

definition vpos :: "literal \<Rightarrow> nat" where
  "vpos l = unat (variable l)"

definition join_image ::
    "literal \<Rightarrow> literal \<times> variable list \<times> disjoint_sets
      \<Rightarrow> (literal \<times> variable list \<times> disjoint_sets) result option" where
  "join_image image_l = (\<lambda>(element, syms, d).
     bindP (Some (ds_Add d (vpos image_l))) (\<lambda>d1.
     bindP (ds_Union d1 (vpos element) (vpos image_l)) (\<lambda>d2.
       Some (Inr (image_l, uset_insert (variable element) syms, d2)))))"

definition join_cycle ::
    "permutation \<Rightarrow> nat \<Rightarrow> variable list \<times> disjoint_sets
      \<Rightarrow> (variable list \<times> disjoint_sets) result option" where
  "join_cycle p c = (\<lambda>(syms, d).
     bindP (Some (lastElementInCycle p c)) (\<lambda>element.
     bindP (Some (ds_Add d (vpos element))) (\<lambda>d1.
     bindP (Some (cycle p c)) (\<lambda>cs.
     bindP (foldP join_image cs (element, syms, d1)) (\<lambda>(_, syms', d2).
       Some (Inr (syms', d2)))))))"

definition join_permutation ::
    "permutation \<Rightarrow> variable list \<times> disjoint_sets
      \<Rightarrow> (variable list \<times> disjoint_sets) result option" where
  "join_permutation p s = foldP (join_cycle p) [0..<numberOfCycles p] s"

fun orbit_insert :: "nat \<Rightarrow> variable \<Rightarrow> (nat \<times> variable list) list \<Rightarrow> (nat \<times> variable list) list" where
  "orbit_insert r v [] = [(r, [v])]"
| "orbit_insert r v ((r', vs) # m) =
     (if r = r' then (r', vs @ [v]) # m else (r', vs) # orbit_insert r v m)"

definition collect_orbit ::
    "variable \<Rightarrow> (nat \<times> variable list) list \<times> disjoint_sets
      \<Rightarrow> ((nat \<times> variable list) list \<times> disjoint_sets) result option" where
  "collect_orbit v = (\<lambda>(m, d).
     bindP (ds_Find d (unat v)) (\<lambda>(representant, d1).
       Some (Inr (orbit_insert representant v m, d1))))"

definition Orbits_assign ::
    "((nat \<times> variable list) list \<Rightarrow> (nat \<times> variable list) list) \<Rightarrow> permutation list
      \<Rightarrow> orbits result option" where
  "Orbits_assign ord permutations =
     bindP (foldP join_permutation permutations ([], DisjointSets_new)) (\<lambda>(syms, d).
     bindP (foldP collect_orbit syms ([], d)) (\<lambda>(m, _).
       Some (Inr \<lparr>or_symmetrics = syms, or_orbits = map snd (ord m)\<rparr>)))"

definition numberOfOrbits :: "orbits \<Rightarrow> nat" where
  "numberOfOrbits os = length (or_orbits os)"

section \<open>The edges of the permutations\<close>

definition walk_edges :: "literal list \<Rightarrow> (nat \<times> nat) set" where
  "walk_edges ls = set (zip (map vpos ls) (map vpos (tl ls)))"

definition perm_edges :: "permutation \<Rightarrow> (nat \<times> nat) set" where
  "perm_edges p = {(vpos a, vpos b) | a b. p_inverse p b = Some a}"

definition moved_vars :: "permutation \<Rightarrow> variable set" where
  "moved_vars p = variable ` set (p_cycles p)"

lemma walk_edges_Cons: "walk_edges (a # b # ls) = insert (vpos a, vpos b) (walk_edges (b # ls))"
  by (simp add: walk_edges_def)

lemma join_image_eq:
  "ds_Add d (vpos x) = Inr d1 \<Longrightarrow> ds_Union d1 (vpos e) (vpos x) = Some (Inr d2) \<Longrightarrow>
    join_image x (e, syms, d) = Some (Inr (x, uset_insert (variable e) syms, d2))"
  by (simp add: join_image_def)

lemma join_images_ok:
  assumes "ds.represents d E" "vpos e \<in> Field E" "distinct syms"
  shows "\<exists>syms' d'. foldP join_image xs (e, syms, d) = Some (Inr (last (e # xs), syms', d'))
    \<and> ds.represents d' (E \<union> Id_on (vpos ` set xs) \<union> walk_edges (e # xs))
    \<and> distinct syms' \<and> set syms' = set syms \<union> variable ` set (butlast (e # xs))"
  using assms
proof (induction xs arbitrary: e syms d E)
  case Nil
  then show ?case by (simp add: walk_edges_def)
next
  case (Cons x xs)
  obtain d1 where d1: "ds_Add d (vpos x) = Inr d1" "ds.represents d1 (insert (vpos x, vpos x) E)"
    using ds.represents_add [OF Cons.prems(1)] by blast
  have f: "vpos e \<in> Field (insert (vpos x, vpos x) E)" "vpos x \<in> Field (insert (vpos x, vpos x) E)"
    using Cons.prems(2) by (simp_all add: Field_insert)
  obtain d2 where d2: "ds_Union d1 (vpos e) (vpos x) = Some (Inr d2)"
      "ds.represents d2 (insert (vpos e, vpos x) (insert (vpos x, vpos x) E))"
    using ds.represents_join [OF d1(2) f] by blast
  let ?E = "insert (vpos e, vpos x) (insert (vpos x, vpos x) E)"
  have fx: "vpos x \<in> Field ?E" by (simp add: Field_insert)
  have d: "distinct (uset_insert (variable e) syms)" using Cons.prems(3) by simp
  from Cons.IH [OF d2(2) fx d] obtain syms' d' where
    "foldP join_image xs (x, uset_insert (variable e) syms, d2) = Some (Inr (last (x # xs), syms', d'))"
    "ds.represents d' (?E \<union> Id_on (vpos ` set xs) \<union> walk_edges (x # xs))" "distinct syms'"
    "set syms' = set (uset_insert (variable e) syms) \<union> variable ` set (butlast (x # xs))"
    by blast
  moreover have "?E \<union> Id_on (vpos ` set xs) \<union> walk_edges (x # xs) =
      E \<union> Id_on (vpos ` set (x # xs)) \<union> walk_edges (e # x # xs)"
    by (auto simp: walk_edges_Cons)
  ultimately show ?case using join_image_eq [OF d1(1) d2(1)] by auto
qed

lemma set_butlast_rotate: "c \<noteq> [] \<Longrightarrow> set (butlast (last c # c)) = set c"
  by (cases c rule: rev_cases) auto

lemma join_cycle_ok:
  assumes r: "perm_repr css [] p" and c: "c < length css" and E: "ds.represents d E" "distinct syms"
  shows "\<exists>syms' d'. join_cycle p c (syms, d) = Some (Inr (syms', d'))
    \<and> ds.represents d' (E \<union> Id_on (vpos ` set (css ! c)) \<union> walk_edges (last (css ! c) # css ! c))
    \<and> distinct syms' \<and> set syms' = set syms \<union> variable ` set (css ! c)"
proof -
  let ?c = "css ! c"
  have "2 \<le> length ?c" using r c by (simp add: perm_repr_def)
  then have ne: "?c \<noteq> []" by auto
  obtain d1 where d1: "ds_Add d (vpos (last ?c)) = Inr d1"
      "ds.represents d1 (insert (vpos (last ?c), vpos (last ?c)) E)"
    using ds.represents_add [OF E(1)] by blast
  have "vpos (last ?c) \<in> Field (insert (vpos (last ?c), vpos (last ?c)) E)" by (simp add: Field_insert)
  from join_images_ok [OF d1(2) this E(2), of ?c] obtain syms' d' where s:
    "foldP join_image ?c (last ?c, syms, d1) = Some (Inr (last (last ?c # ?c), syms', d'))"
    "ds.represents d' (insert (vpos (last ?c), vpos (last ?c)) E \<union> Id_on (vpos ` set ?c)
        \<union> walk_edges (last ?c # ?c))"
    "distinct syms'" "set syms' = set syms \<union> variable ` set (butlast (last ?c # ?c))" by blast
  have eq: "insert (vpos (last ?c), vpos (last ?c)) E \<union> Id_on (vpos ` set ?c) =
      E \<union> Id_on (vpos ` set ?c)"
    using ne by auto
  show ?thesis
    using s(2) s(4) s(1,3) d1(1) unfolding eq set_butlast_rotate [OF ne]
    by (simp add: join_cycle_def lastElementInCycle_repr [OF r] cycle_repr [OF r] c)
qed

lemma walk_edges_cycle:
  assumes "c \<noteq> []"
  shows "walk_edges (last c # c) = {(vpos a, vpos b) | a b. cyc_next c a b}"
proof -
  have "(a, b) \<in> set (zip (last c # c) c) \<longleftrightarrow> cyc_next c a b" for a b
  proof
    assume "(a, b) \<in> set (zip (last c # c) c)"
    then obtain i where i: "i < length c" "a = (last c # c) ! i" "b = c ! i"
      by (auto simp: in_set_zip)
    show "cyc_next c a b"
    proof (cases i)
      case 0
      then show ?thesis using i assms by (simp add: cyc_next_def hd_conv_nth)
    next
      case (Suc j)
      then show ?thesis using i unfolding cyc_next_def next_in_def by auto
    qed
  next
    assume "cyc_next c a b"
    then consider j where "Suc j < length c" "a = c ! j" "b = c ! Suc j" | "a = last c" "b = hd c"
      by (auto simp: cyc_next_def next_in_def)
    then show "(a, b) \<in> set (zip (last c # c) c)"
    proof cases
      case 1
      then show ?thesis unfolding in_set_zip by (intro exI [of _ "Suc j"]) simp
    next
      case 2
      then show ?thesis using assms unfolding in_set_zip
        by (intro exI [of _ 0]) (simp add: hd_conv_nth)
    qed
  qed
  then have "set (zip (last c # c) c) = {(a, b). cyc_next c a b}" by auto
  then show ?thesis
    unfolding walk_edges_def list.sel zip_map_map set_map by auto
qed

lemma join_permutation_ok:
  assumes r: "perm_repr css [] p" and E: "ds.represents d E" "distinct syms"
  shows "\<exists>syms' d'. join_permutation p (syms, d) = Some (Inr (syms', d'))
    \<and> ds.represents d' (E \<union> Id_on (vpos ` set (p_cycles p)) \<union> perm_edges p)
    \<and> distinct syms' \<and> set syms' = set syms \<union> moved_vars p"
proof -
  let ?nodes = "\<lambda>is. \<Union>c \<in> set is. set (css ! c)"
  let ?edges = "\<lambda>is. \<Union>c \<in> set is. walk_edges (last (css ! c) # css ! c)"
  define P where "P = (\<lambda>is s. ds.represents (snd s) (E \<union> Id_on (vpos ` ?nodes is) \<union> ?edges is)
    \<and> distinct (fst s) \<and> set (fst s) = set syms \<union> variable ` ?nodes is)"
  have "\<exists>s. foldP (join_cycle p) [0..<length css] (syms, d) = Some (Inr s) \<and> P [0..<length css] s"
  proof (rule foldP_total)
    show "P [] (syms, d)" using E by (simp add: P_def)
  next
    fix pre c post s
    assume eq: "[0..<length css] = pre @ c # post" and P: "P pre s"
    have "c \<in> set [0..<length css]" unfolding eq by simp
    then have c: "c < length css" by simp
    from P have rep: "ds.represents (snd s) (E \<union> Id_on (vpos ` ?nodes pre) \<union> ?edges pre)"
        "distinct (fst s)" "set (fst s) = set syms \<union> variable ` ?nodes pre"
      by (simp_all add: P_def)
    from join_cycle_ok [OF r c rep(1,2)] obtain syms' d' where
      s': "join_cycle p c (fst s, snd s) = Some (Inr (syms', d'))"
      "ds.represents d' ((E \<union> Id_on (vpos ` ?nodes pre) \<union> ?edges pre) \<union> Id_on (vpos ` set (css ! c))
         \<union> walk_edges (last (css ! c) # css ! c))"
      "distinct syms'" "set syms' = set (fst s) \<union> variable ` set (css ! c)" by blast
    have "(E \<union> Id_on (vpos ` ?nodes pre) \<union> ?edges pre) \<union> Id_on (vpos ` set (css ! c))
         \<union> walk_edges (last (css ! c) # css ! c) =
        E \<union> Id_on (vpos ` ?nodes (pre @ [c])) \<union> ?edges (pre @ [c])"
      by auto
    with s' rep(3) show "\<exists>s'. join_cycle p c s = Some (Inr s') \<and> P (pre @ [c]) s'"
      by (intro exI [of _ "(syms', d')"]) (auto simp: P_def)
  qed
  moreover have "?nodes [0..<length css] = set (p_cycles p)"
    unfolding cycles_cover [OF r] by (rule Union_upt_nth)
  moreover have "?edges [0..<length css] = perm_edges p"
  proof -
    have "?edges [0..<length css] = (\<Union>c \<in> set css. walk_edges (last c # c))"
      by (rule Union_upt_nth)
    also have "\<dots> = (\<Union>c \<in> set css. {(vpos a, vpos b) | a b. cyc_next c a b})"
    proof (rule SUP_cong [OF refl])
      fix c assume "c \<in> set css"
      then have "2 \<le> length c" using r by (simp add: perm_repr_def)
      then show "walk_edges (last c # c) = {(vpos a, vpos b) | a b. cyc_next c a b}"
        by (intro walk_edges_cycle) auto
    qed
    also have "\<dots> = perm_edges p"
      using r by (auto simp: perm_edges_def perm_repr_def step_of_def)
    finally show ?thesis .
  qed
  ultimately show ?thesis
    by (auto simp: join_permutation_def numberOfCycles_repr [OF r] P_def moved_vars_def)
qed

definition all_edges :: "permutation list \<Rightarrow> (nat \<times> nat) set" where
  "all_edges ps = (\<Union>p \<in> set ps. perm_edges p)"

lemma perm_edges_field:
  assumes "perm_wf p" "l \<in> set (p_cycles p)"
  shows "vpos l \<in> Field (perm_edges p)"
proof -
  obtain a where "p_inverse p l = Some a" using perm_inverse_dom [OF assms(1), of l] assms(2) by auto
  then have "(vpos a, vpos l) \<in> perm_edges p" by (auto simp: perm_edges_def)
  then show ?thesis by (auto simp: Field_def)
qed

lemma join_permutations_ok:
  assumes "\<forall>p \<in> set ps. perm_wf p"
  shows "\<exists>syms d N. foldP join_permutation ps ([], DisjointSets_new) = Some (Inr (syms, d))
    \<and> ds.represents d (all_edges ps \<union> Id_on N) \<and> N \<subseteq> Field (all_edges ps)
    \<and> distinct syms \<and> set syms = (\<Union>p \<in> set ps. moved_vars p)"
proof -
  define P where "P = (\<lambda>qs s. \<exists>N. ds.represents (snd s) (all_edges qs \<union> Id_on N)
    \<and> N \<subseteq> Field (all_edges qs) \<and> distinct (fst s) \<and> set (fst s) = (\<Union>p \<in> set qs. moved_vars p))"
  have "\<exists>s. foldP join_permutation ps ([], DisjointSets_new) = Some (Inr s) \<and> P ps s"
  proof (rule foldP_total)
    have "ds.represents DisjointSets_new {}"
      using wf_ds_new by (auto simp: ds.represents_def connects_def same_set_def root_of_def
          DisjointSets_new_def present_def root_within.simps)
    then show "P [] ([], DisjointSets_new)" by (simp add: P_def all_edges_def)
  next
    fix pre p post s
    assume eq: "ps = pre @ p # post" and "P pre s"
    then obtain N where s: "ds.represents (snd s) (all_edges pre \<union> Id_on N)"
        "N \<subseteq> Field (all_edges pre)" "distinct (fst s)" "set (fst s) = (\<Union>p \<in> set pre. moved_vars p)"
      by (auto simp: P_def)
    have wf: "perm_wf p" using assms eq by simp
    then obtain css where r: "perm_repr css [] p" by (auto simp: perm_wf_def)
    from join_permutation_ok [OF r s(1,3)] obtain syms' d' where
      s': "join_permutation p (fst s, snd s) = Some (Inr (syms', d'))"
      "ds.represents d' ((all_edges pre \<union> Id_on N) \<union> Id_on (vpos ` set (p_cycles p)) \<union> perm_edges p)"
      "distinct syms'" "set syms' = set (fst s) \<union> moved_vars p" by blast
    let ?N = "N \<union> vpos ` set (p_cycles p)"
    have e: "all_edges (pre @ [p]) = all_edges pre \<union> perm_edges p" by (auto simp: all_edges_def)
    have "(all_edges pre \<union> Id_on N) \<union> Id_on (vpos ` set (p_cycles p)) \<union> perm_edges p =
        all_edges (pre @ [p]) \<union> Id_on ?N"
      unfolding e by auto
    moreover have "?N \<subseteq> Field (all_edges (pre @ [p]))"
      using s(2) perm_edges_field [OF wf] unfolding e Field_Un by auto
    ultimately show "\<exists>s'. join_permutation p s = Some (Inr s') \<and> P (pre @ [p]) s'"
      using s' s(4) unfolding P_def
      by (intro exI [of _ "(syms', d')"] conjI exI [of _ ?N]) auto
  qed
  then show ?thesis by (auto simp: P_def)
qed

section \<open>Collecting the orbits\<close>

lemma orbit_insert_new: "r \<notin> set (map fst m) \<Longrightarrow> orbit_insert r v m = m @ [(r, [v])]"
  by (induction m) auto

lemma orbit_insert_old:
  "distinct (map fst m) \<Longrightarrow> r \<in> set (map fst m) \<Longrightarrow>
    orbit_insert r v m = map (\<lambda>(k, vs). if k = r then (k, vs @ [v]) else (k, vs)) m"
proof (induction m)
  case (Cons e m)
  obtain k vs where e: "e = (k, vs)" by (cases e)
  show ?case
  proof (cases "r = k")
    case True
    then have "map (\<lambda>(k, vs). if k = r then (k, vs @ [v]) else (k, vs)) m = m"
      using Cons.prems(1) e by (intro map_idI) (auto simp: image_iff)
    with True e show ?thesis by simp
  next
    case False
    with Cons e show ?thesis by auto
  qed
qed simp

definition grouped :: "('v \<Rightarrow> nat) \<Rightarrow> 'v list \<Rightarrow> (nat \<times> 'v list) list \<Rightarrow> bool" where
  "grouped f vs m \<longleftrightarrow> distinct (map fst m) \<and> set (map fst m) = f ` set vs
     \<and> (\<forall>r ws. (r, ws) \<in> set m \<longrightarrow> ws = filter (\<lambda>v. f v = r) vs)"

lemma grouped_insert:
  assumes "grouped f vs m"
  shows "grouped f (vs @ [v]) (orbit_insert (f v) v m)"
proof (cases "f v \<in> set (map fst m)")
  case False
  then have none: "filter (\<lambda>w. f w = f v) vs = []"
    using assms False by (auto simp: grouped_def filter_empty_conv) (metis imageI)
  have "ws = filter (\<lambda>w. f w = r) (vs @ [v])" if "(r, ws) \<in> set (m @ [(f v, [v])])" for r ws
  proof (cases "(r, ws) \<in> set m")
    case True
    then have "r \<noteq> f v" using False by force
    with True show ?thesis using assms by (auto simp: grouped_def)
  next
    case new: False
    then show ?thesis using that none by simp
  qed
  then show ?thesis
    using assms False none unfolding orbit_insert_new [OF False] grouped_def by auto
next
  case True
  let ?g = "\<lambda>(k, vs). if k = f v then (k, vs @ [v]) else (k, vs)"
  have keys: "map fst (map ?g m) = map fst m" by auto
  have m: "orbit_insert (f v) v m = map ?g m"
    using assms True by (intro orbit_insert_old) (simp_all add: grouped_def)
  have "ws = filter (\<lambda>w. f w = r) (vs @ [v])" if "(r, ws) \<in> set (map ?g m)" for r ws
  proof -
    from that obtain ws' where "(r, ws') \<in> set m" "ws = (if r = f v then ws' @ [v] else ws')"
      by (auto split: if_splits)
    with assms show ?thesis by (auto simp: grouped_def)
  qed
  moreover have "f ` set (vs @ [v]) = set (map fst m)" using assms True by (auto simp: grouped_def)
  moreover have "distinct (map fst m)" using assms by (simp add: grouped_def)
  ultimately show ?thesis unfolding m grouped_def keys by (intro conjI allI impI) (assumption | simp only:)+
qed

lemma collect_orbits_ok:
  assumes "wf_ds d" "\<forall>v \<in> set syms. present (ds_nodes d) (unat v)"
  shows "\<exists>m d'. foldP collect_orbit syms ([], d) = Some (Inr (m, d'))
    \<and> grouped (\<lambda>v. ds_rep d (unat v)) syms m"
proof -
  define P :: "variable list \<Rightarrow> (nat \<times> variable list) list \<times> disjoint_sets \<Rightarrow> bool" where
    "P = (\<lambda>vs s. grouped (\<lambda>v. ds_rep d (unat v)) vs (fst s) \<and> wf_ds (snd s)
    \<and> (\<forall>j. present (ds_nodes (snd s)) j \<longleftrightarrow> present (ds_nodes d) j) \<and> ds_rep (snd s) = ds_rep d)"
  have "\<exists>s. foldP collect_orbit syms ([], d) = Some (Inr s) \<and> P syms s"
  proof (rule foldP_total)
    show "P [] ([], d)" using assms(1) by (simp add: P_def grouped_def)
  next
    fix pre v post s
    assume eq: "syms = pre @ v # post" and P: "P pre s"
    then have v: "present (ds_nodes (snd s)) (unat v)" "wf_ds (snd s)"
      using assms(2) by (auto simp: P_def)
    obtain d' where d': "ds_Find (snd s) (unat v) = Some (Inr (ds_rep (snd s) (unat v), d'))"
        "wf_ds d'" "\<forall>j. present (ds_nodes d') j \<longleftrightarrow> present (ds_nodes (snd s)) j"
        "ds_rep d' = ds_rep (snd s)"
      using ds.find_law [OF v(2,1)] by blast
    let ?s = "(orbit_insert (ds_rep d (unat v)) v (fst s), d')"
    have "collect_orbit v s = Some (Inr ?s)"
      using d'(1) P by (cases s) (simp add: collect_orbit_def P_def)
    moreover have "P (pre @ [v]) ?s"
      using d' P grouped_insert [of "\<lambda>v. ds_rep d (unat v)" pre "fst s" v] by (simp add: P_def)
    ultimately show "\<exists>s'. collect_orbit v s = Some (Inr s') \<and> P (pre @ [v]) s'" by blast
  qed
  then show ?thesis by (auto simp: P_def)
qed

text \<open>The variables that a set of permutations connects.\<close>

definition same_orbit :: "permutation list \<Rightarrow> variable \<Rightarrow> variable \<Rightarrow> bool" where
  "same_orbit ps u v \<longleftrightarrow> connects (all_edges ps) (unat u) (unat v)"

definition orbit_partition :: "permutation list \<Rightarrow> variable list list \<Rightarrow> bool" where
  "orbit_partition ps os \<longleftrightarrow>
     (\<Union>o' \<in> set os. set o') = (\<Union>p \<in> set ps. moved_vars p)
     \<and> (\<forall>o' \<in> set os. o' \<noteq> [] \<and> distinct o' \<and> (\<forall>u \<in> set o'. \<forall>v. v \<in> set o' \<longleftrightarrow> same_orbit ps u v))
     \<and> distinct os \<and> inj_on set (set os)"

lemma Orbits_assign_ok:
  assumes ps: "\<forall>p \<in> set ps. perm_wf p" and ord: "iterates ord"
  shows "\<exists>os. Orbits_assign ord ps = Some (Inr os) \<and> orbit_partition ps (or_orbits os)
    \<and> distinct (or_symmetrics os) \<and> set (or_symmetrics os) = (\<Union>p \<in> set ps. moved_vars p)"
proof -
  obtain syms d N where s: "foldP join_permutation ps ([], DisjointSets_new) = Some (Inr (syms, d))"
      "ds.represents d (all_edges ps \<union> Id_on N)" "N \<subseteq> Field (all_edges ps)" "distinct syms"
      "set syms = (\<Union>p \<in> set ps. moved_vars p)"
    using join_permutations_ok [OF ps] by blast
  have Field: "Field (all_edges ps \<union> Id_on N) = Field (all_edges ps)"
    using s(3) by (auto simp: Field_def)
  have wf: "wf_ds d" "\<And>j. present (ds_nodes d) j \<longleftrightarrow> j \<in> Field (all_edges ps)"
      "\<And>i j. same_set d i j \<longleftrightarrow> connects (all_edges ps) i j"
    using s(2) connects_self [OF s(3)] unfolding ds.represents_def Field by simp_all
  have in_field: "unat v \<in> Field (all_edges ps) \<longleftrightarrow> v \<in> set syms" for v
  proof
    assume "v \<in> set syms"
    then obtain p l where "p \<in> set ps" "l \<in> set (p_cycles p)" "v = variable l"
      by (auto simp: s(5) moved_vars_def)
    then have "unat v \<in> Field (perm_edges p)" using perm_edges_field [of p l] ps by (simp add: vpos_def)
    then show "unat v \<in> Field (all_edges ps)" using \<open>p \<in> set ps\<close> by (auto simp: all_edges_def Field_def)
  next
    assume "unat v \<in> Field (all_edges ps)"
    then obtain p a b where p: "p \<in> set ps" "p_inverse p b = Some a" "unat v = vpos a \<or> unat v = vpos b"
      by (auto simp: all_edges_def Field_def perm_edges_def)
    have wfp: "perm_wf p" using ps p(1) by blast
    have "b \<in> set (p_cycles p)" "a \<in> set (p_cycles p)"
      using perm_inverse_dom [OF wfp, of b] perm_image_dom [OF wfp, of a] p(2)
        perm_image_inverse [OF wfp, of a b] by auto
    then show "v \<in> set syms" using p(1,3) by (auto simp: s(5) moved_vars_def vpos_def unat_word32_eq_iff [symmetric])
  qed
  obtain m d' where m: "foldP collect_orbit syms ([], d) = Some (Inr (m, d'))"
      "grouped (\<lambda>v. ds_rep d (unat v)) syms m"
    using collect_orbits_ok [OF wf(1), of syms] wf(2) in_field by auto
  have "distinct m" using m(2) by (auto simp: grouped_def distinct_map)
  then have ordm: "distinct (ord m)" "set (ord m) = set m" using ord by (simp_all add: iterates_def)
  have cls: "vs = filter (\<lambda>v. ds_rep d (unat v) = r) syms" "vs \<noteq> []" if "(r, vs) \<in> set m" for r vs
  proof -
    show "vs = filter (\<lambda>v. ds_rep d (unat v) = r) syms" using m(2) that by (auto simp: grouped_def)
    moreover have "r \<in> set (map fst m)" using that by (auto intro: image_eqI [of _ _ "(r, vs)"])
    then have "r \<in> (\<lambda>v. ds_rep d (unat v)) ` set syms" using m(2) by (simp add: grouped_def)
    ultimately show "vs \<noteq> []" by (auto simp: filter_empty_conv)
  qed
  have cls_rep: "ds_rep d (unat v) = r" if "(r, vs) \<in> set m" "v \<in> set vs" for r vs v
    using that(2) by (subst (asm) cls(1) [OF that(1)]) simp
  have same: "same_orbit ps u v \<longleftrightarrow> u \<in> set syms \<and> v \<in> set syms \<and> ds_rep d (unat u) = ds_rep d (unat v)" for u v
    using ds.rep_law [OF wf(1)] wf(2,3) in_field by (simp add: same_orbit_def)
  have "distinct (map snd (ord m))"
  proof (rule distinct_map [THEN iffD2], rule conjI [OF ordm(1)], rule inj_onI)
    fix x y assume "x \<in> set (ord m)" "y \<in> set (ord m)" "snd x = snd y"
    moreover obtain r vs r' ws where "x = (r, vs)" "y = (r', ws)" by fastforce
    ultimately have "(r, vs) \<in> set m" "(r', vs) \<in> set m" "x = (r, vs)" "y = (r', vs)"
      using ordm(2) by auto
    moreover have "r = r'"
    proof -
      obtain v where v: "v \<in> set vs" using cls(2) [OF calculation(1)] by fastforce
      then show ?thesis using cls_rep [OF calculation(1) v] cls_rep [OF calculation(2) v] by simp
    qed
    ultimately show "x = y" by simp
  qed
  moreover have "(\<Union>o' \<in> set (map snd (ord m)). set o') = set syms"
  proof -
    have "v \<in> (\<Union>o' \<in> snd ` set m. set o')" if "v \<in> set syms" for v
    proof -
      have "ds_rep d (unat v) \<in> set (map fst m)" using m(2) that by (simp add: grouped_def)
      then obtain vs where "(ds_rep d (unat v), vs) \<in> set m" by auto
      with cls(1) [OF this] that show ?thesis by force
    qed
    moreover have "set vs \<subseteq> set syms" if "(r, vs) \<in> set m" for r vs using cls(1) [OF that] by auto
    ultimately show ?thesis using ordm(2) by fastforce
  qed
  moreover have "vs \<noteq> [] \<and> distinct vs \<and> (\<forall>u \<in> set vs. \<forall>v. v \<in> set vs \<longleftrightarrow> same_orbit ps u v)"
    if "vs \<in> set (map snd (ord m))" for vs
  proof -
    from that ordm(2) obtain r where "(r, vs) \<in> set m" by auto
    note c = cls [OF this]
    have "distinct vs" by (subst c(1)) (simp add: s(4))
    moreover have "\<forall>u \<in> set vs. \<forall>v. v \<in> set vs \<longleftrightarrow> same_orbit ps u v"
    proof -
      have "v \<in> set vs \<longleftrightarrow> v \<in> set syms \<and> ds_rep d (unat v) = r" for v
        by (subst c(1)) auto
      then show ?thesis unfolding same by (metis (no_types))
    qed
    ultimately show ?thesis using c(2) by blast
  qed
  moreover have "inj_on set (set (map snd (ord m)))"
  proof (rule inj_onI)
    fix vs ws assume "vs \<in> set (map snd (ord m))" "ws \<in> set (map snd (ord m))" and eq: "set vs = set ws"
    then obtain r r' where r: "(r, vs) \<in> set m" "(r', ws) \<in> set m" using ordm(2) by auto
    obtain v where v: "v \<in> set vs" using cls(2) [OF r(1)] by fastforce
    then have "r = r'" using cls_rep [OF r(1) v] cls_rep [OF r(2), of v] eq by simp
    then show "vs = ws" using cls(1) [OF r(1)] cls(1) [OF r(2)] by simp
  qed
  ultimately show ?thesis
    using s m(1) by (simp add: Orbits_assign_def orbit_partition_def)
qed

end
