(* ===== verification/Order_Factories.thy ===== *)
theory Order_Factories
  imports Orders Orbit_Partitions CNF_Models "HOL-Library.Multiset" "HOL-Library.Sublist"
begin

text \<open>
  The orders of \<open>include/cosy/Order.h\<close> that look at the problem, \<open>OccurenceOrder\<close> and
  \<open>BreakIDOrder\<close>, and the factory of \<open>include/cosy/OrderFactory.h\<close>. \<open>std::sort\<close> is insertion
  sort: the comparison is a strict total order on the distinct indices, so the result does not
  depend on the algorithm, and like the code it reads \<open>values\<close> out of bounds when that vector is
  too short. \<open>ord\<close> is the iteration order of the orbit map. The loop of \<open>BreakIDOrder\<close> ends only
  if every chosen variable is moved by a remaining generator, so it is a partial function.
\<close>

section \<open>The occurrence order\<close>

text \<open>The comparison takes \<open>int\<close> arguments and the indices are \<open>int64\<close>.\<close>

definition order_lt :: "int64 list \<Rightarrow> int32 \<Rightarrow> int32 \<Rightarrow> bool result" where
  "order_lt vals i j =
     andThen (vec_at vals (unat i)) (\<lambda>a.
     andThen (vec_at vals (unat j)) (\<lambda>b.
       Inr (if a \<noteq> b then b <s a else i <s j)))"

fun sort_insert :: "int64 list \<Rightarrow> int64 \<Rightarrow> int64 list \<Rightarrow> int64 list result" where
  "sort_insert vals x [] = Inr [x]"
| "sort_insert vals x (y # ys) =
     andThen (order_lt vals (ucast x) (ucast y)) (\<lambda>lt.
       if lt then Inr (x # y # ys)
       else andThen (sort_insert vals x ys) (\<lambda>zs. Inr (y # zs)))"

definition sort_indexes :: "int64 list \<Rightarrow> int64 list \<Rightarrow> int64 list result" where
  "sort_indexes vals xs = foldR (sort_insert vals) xs []"

definition indexes_below :: "int64 \<Rightarrow> int64 list" where
  "indexes_below num = map of_nat [0..<nat (sint num)]"

definition OccurenceOrder :: "int64 \<Rightarrow> ValueMode \<Rightarrow> cnf_model \<Rightarrow> order result" where
  "OccurenceOrder num mode m =
     andThen (sort_indexes (cm_occurences m) (indexes_below num)) (\<lambda>indexes.
       foldR (\<lambda>i o'. Order_add o' (Literal_var (ucast i) True)) indexes
         (Order_new (ucast num) mode))"

section \<open>The generator order\<close>

text \<open>Counting the positive literals of the supports; an absent entry reads as 0.\<close>

definition count_at :: "(variable \<rightharpoonup> int64) \<Rightarrow> variable \<Rightarrow> int64" where
  "count_at m v = (case m v of None \<Rightarrow> 0 | Some k \<Rightarrow> k)"

definition count_support :: "permutation \<Rightarrow> (variable \<rightharpoonup> int64) \<Rightarrow> (variable \<rightharpoonup> int64)" where
  "count_support p m =
     fold (\<lambda>l m. if isPositive l then m(variable l \<mapsto> count_at m (variable l) + 1) else m) (support p) m"

definition occurence_generators :: "permutation list \<Rightarrow> (variable \<rightharpoonup> int64)" where
  "occurence_generators q = (fold count_support q Map.empty)(kNoBooleanVariable \<mapsto> 2147483647)"

definition visit_variable ::
    "(variable \<rightharpoonup> int64) \<Rightarrow> nat \<Rightarrow> variable \<Rightarrow> variable \<times> nat \<Rightarrow> variable \<times> nat" where
  "visit_variable occ sz v = (\<lambda>(next_v, largest).
     if count_at occ v = 0 then (next_v, largest)
     else
       let occ_v = ucast (count_at occ v) :: int32; occ_n = ucast (count_at occ next_v) in
       if next_v = kNoBooleanVariable \<or> occ_v <s occ_n \<or> (occ_v = occ_n \<and> v <s next_v)
       then (v, sz) else (next_v, largest))"

definition visit_orbit :: "(variable \<rightharpoonup> int64) \<Rightarrow> variable list \<Rightarrow> variable \<times> nat \<Rightarrow> variable \<times> nat" where
  "visit_orbit occ orbit_vs s =
     (if length orbit_vs < snd s then s else fold (visit_variable occ (length orbit_vs)) orbit_vs s)"

definition next_variable :: "(variable \<rightharpoonup> int64) \<Rightarrow> variable list list \<Rightarrow> variable" where
  "next_variable occ os = fst (fold (visit_orbit occ) os (kNoBooleanVariable, 0))"

partial_function (option) breakid_loop ::
    "((nat \<times> variable list) list \<Rightarrow> (nat \<times> variable list) list) \<Rightarrow> permutation list \<Rightarrow> order
      \<Rightarrow> order result option" where
  "breakid_loop ord q o' =
     (if q = [] then Some (Inr o')
      else bindP (Orbits_assign ord q) (\<lambda>os.
        if next_variable (occurence_generators q) (or_orbits os) = kNoBooleanVariable
        then Some (Inr o')
        else bindP (Some (Order_add o'
               (Literal_var (next_variable (occurence_generators q) (or_orbits os)) True))) (\<lambda>o''.
             breakid_loop ord
               (filter (\<lambda>p. isTrivialImage p
                  (Literal_var (next_variable (occurence_generators q) (or_orbits os)) True)) q) o'')))"

declare breakid_loop.simps [code]

definition add_missing :: "variable \<Rightarrow> order \<Rightarrow> order result" where
  "add_missing v o' =
     (if contains o' (Literal_var v True) then Inr o' else Order_add o' (Literal_var v True))"

definition BreakIDOrder ::
    "((nat \<times> variable list) list \<Rightarrow> (nat \<times> variable list) list) \<Rightarrow> int64 \<Rightarrow> ValueMode \<Rightarrow> group
      \<Rightarrow> order result option" where
  "BreakIDOrder ord num mode g =
     bindP (breakid_loop ord (g_permutations g) (Order_new (ucast num) mode)) (\<lambda>o'.
       Some (foldR add_missing (variables_below (ucast num)) o'))"

section \<open>The factory\<close>

datatype OrderMode = INCREASE | OCCURENCE | BREAKID | AUTO

text \<open>
  The automatic mode compares a quotient of two doubles with 0.25. The numerator is at most the
  number of variables and that is below \<open>2 ^ 32\<close>, so both convert exactly and the rounding of
  the quotient cannot change the comparison; it is written with integers here. The result also
  names the class of the object.
\<close>

definition OrderFactory_create ::
    "((nat \<times> variable list) list \<Rightarrow> (nat \<times> variable list) list) \<Rightarrow> OrderMode \<Rightarrow> ValueMode
      \<Rightarrow> cnf_model \<Rightarrow> group \<Rightarrow> (OrderMode \<times> order) result option" where
  "OrderFactory_create ord vars mode m g =
     (let num_vars = ucast (CNFModel_numberOfVariables m) :: int32;
          increase = Some (IncreaseOrder num_vars mode);
          occurence = Some (OccurenceOrder (ucast num_vars) mode m);
          breakid = BreakIDOrder ord (ucast num_vars) mode g;
          named = (\<lambda>c k. bindP k (\<lambda>o'. Some (Inr (c, o'))))
      in case vars of
           INCREASE \<Rightarrow> named INCREASE increase
         | OCCURENCE \<Rightarrow> named OCCURENCE occurence
         | BREAKID \<Rightarrow> named BREAKID breakid
         | AUTO \<Rightarrow> if 4 * numberOfInverting g > unat num_vars then named BREAKID breakid
                   else named OCCURENCE occurence)"

fun variableModeString :: "OrderMode \<Rightarrow> string" where
  "variableModeString INCREASE = ''increase''"
| "variableModeString OCCURENCE = ''occurence''"
| "variableModeString BREAKID = ''breakid''"
| "variableModeString AUTO = ''auto''"

section \<open>The occurrence order is complete and sorted\<close>

text \<open>Index \<open>i\<close> goes before index \<open>j\<close>: more occurrences, then the smaller index.\<close>

definition occurs_before :: "int64 list \<Rightarrow> nat \<Rightarrow> nat \<Rightarrow> bool" where
  "occurs_before vals i j \<longleftrightarrow>
     sint (vals ! j) < sint (vals ! i) \<or> (vals ! i = vals ! j \<and> i < j)"

lemma occurs_before_trans:
  "occurs_before vals i j \<Longrightarrow> occurs_before vals j k \<Longrightarrow> occurs_before vals i k"
  by (auto simp: occurs_before_def)

lemma sint_inject: "sint x = sint y \<longleftrightarrow> x = y"
  by (rule word_eq_iff_signed [symmetric])

lemma uint_less_unat: "uint x < uint (y :: 'a :: len word) \<longleftrightarrow> unat (x :: 'a word) < unat y"
  by (simp only: word_less_def [symmetric] word_less_nat_alt)

lemma occurs_before_total: "i \<noteq> j \<Longrightarrow> \<not> occurs_before vals i j \<Longrightarrow> occurs_before vals j i"
  by (auto simp: occurs_before_def sint_inject not_less)

definition good_index :: "int64 list \<Rightarrow> int64 \<Rightarrow> bool" where
  "good_index vals x \<longleftrightarrow> unat x < length vals \<and> unat x < 2 ^ 30"

lemma good_index_small: "good_index vals x \<Longrightarrow> unat (ucast x :: int32) = unat x"
  by (simp add: good_index_def unsigned_ucast_eq take_bit_nat_eq_self)

lemma order_lt_eq:
  assumes "good_index vals x" "good_index vals y"
  shows "order_lt vals (ucast x) (ucast y) = Inr (occurs_before vals (unat x) (unat y))"
proof -
  have s: "sint (ucast z :: int32) = int (unat z)" if "good_index vals z" for z :: int64
    using that good_index_small [OF that] sint_small [of "ucast z :: int32"]
    by (simp add: good_index_def)
  show ?thesis
    using assms good_index_small [OF assms(1)] good_index_small [OF assms(2)] s
    by (auto simp: order_lt_def occurs_before_def good_index_def word_sless_alt sint_inject
        uint_less_unat)
qed

lemma sort_insert_ok:
  assumes "\<forall>y \<in> set (x # ys). good_index vals y" "distinct (x # ys)"
    and "sorted_wrt (\<lambda>i j. occurs_before vals (unat i) (unat j)) ys"
  shows "\<exists>zs. sort_insert vals x ys = Inr zs \<and> mset zs = mset (x # ys)
    \<and> sorted_wrt (\<lambda>i j. occurs_before vals (unat i) (unat j)) zs"
  using assms
proof (induction ys)
  case Nil
  then show ?case by simp
next
  case (Cons y ys)
  have lt: "order_lt vals (ucast x) (ucast y) = Inr (occurs_before vals (unat x) (unat y))"
    using Cons.prems(1) by (simp add: order_lt_eq)
  show ?case
  proof (cases "occurs_before vals (unat x) (unat y)")
    case True
    then show ?thesis using Cons.prems(3) lt by (auto intro: occurs_before_trans)
  next
    case False
    then have yx: "occurs_before vals (unat y) (unat x)"
      using occurs_before_total [of "unat x" "unat y"] Cons.prems(2) by (auto simp: word_unat_eq_iff)
    obtain zs where zs: "sort_insert vals x ys = Inr zs" "mset zs = mset (x # ys)"
        "sorted_wrt (\<lambda>i j. occurs_before vals (unat i) (unat j)) zs"
      using Cons by auto
    have "set zs = insert x (set ys)" using mset_eq_setD [OF zs(2)] by simp
    then show ?thesis using zs yx False lt Cons.prems(3) by auto
  qed
qed

lemma sort_indexes_ok:
  assumes "\<forall>x \<in> set xs. good_index vals x" "distinct xs"
  shows "\<exists>zs. sort_indexes vals xs = Inr zs \<and> mset zs = mset xs
    \<and> sorted_wrt (\<lambda>i j. occurs_before vals (unat i) (unat j)) zs"
  unfolding sort_indexes_def
proof (rule foldR_total)
  fix pre x post zs
  assume eq: "xs = pre @ x # post" and zs: "mset zs = mset pre
    \<and> sorted_wrt (\<lambda>i j. occurs_before vals (unat i) (unat j)) zs"
  have s: "set zs = set pre" using zs mset_eq_setD by blast
  have "distinct zs" using zs assms(2) eq by (metis distinct_append mset_eq_imp_distinct_iff)
  then have "distinct (x # zs)" using s assms(2) eq by simp
  with sort_insert_ok [of x zs vals] assms(1) s zs eq
  show "\<exists>s'. sort_insert vals x zs = Inr s' \<and> mset s' = mset (pre @ [x])
      \<and> sorted_wrt (\<lambda>i j. occurs_before vals (unat i) (unat j)) s'" by auto
qed simp

lemma indexes_below_ok:
  assumes "unat num < 2 ^ 30"
  shows "distinct (indexes_below num)" "set (indexes_below num) = {x. unat x < unat num}"
proof -
  have s: "nat (sint num) = unat num" using sint_small [of num] assms by simp
  have u: "unat (of_nat i :: int64) = i" if "i < unat num" for i
    using that assms by (simp add: unat_of_nat)
  then show "distinct (indexes_below num)"
    unfolding indexes_below_def s distinct_map inj_on_def by (auto dest: arg_cong [of _ _ unat])
  have "x \<in> of_nat ` {0..<unat num} \<longleftrightarrow> unat x < unat num" for x :: int64
    using u by (auto intro: image_eqI [of _ _ "unat x"])
  then show "set (indexes_below num) = {x. unat x < unat num}"
    by (auto simp: indexes_below_def s)
qed

text \<open>The variables of an order, as positions.\<close>

definition order_positions :: "order \<Rightarrow> nat list" where
  "order_positions o' = map (\<lambda>l. unat (variable l)) (o_order o')"

lemma complete_orderI:
  assumes "wf_order n o'" "\<forall>v. unat v < n \<longrightarrow> v \<in> variable ` set (o_order o')"
  shows "complete_order n o'"
  using assms by (simp add: complete_order_def)

lemma OccurenceOrder_ok:
  assumes "unat num < 2 ^ 30" "unat num \<le> length (cm_occurences m)"
  shows "\<exists>o'. OccurenceOrder num mode m = Inr o' \<and> complete_order (unat num) o'
    \<and> o_valueMode o' = mode \<and> sorted_wrt (occurs_before (cm_occurences m)) (order_positions o')"
proof -
  let ?vals = "cm_occurences m" and ?n = "Order_new (ucast num) mode"
  note ib = indexes_below_ok [OF assms(1)]
  have good: "\<forall>x \<in> set (indexes_below num). good_index ?vals x"
    using assms ib by (auto simp: good_index_def)
  from sort_indexes_ok [OF good ib(1)] obtain zs where
    zs: "sort_indexes ?vals (indexes_below num) = Inr zs" "mset zs = mset (indexes_below num)"
      "sorted_wrt (\<lambda>i j. occurs_before ?vals (unat i) (unat j)) zs" by blast
  have zset: "set zs = {x. unat x < unat num}" using mset_eq_setD [OF zs(2)] ib(2) by simp
  have "distinct zs" using zs(2) ib(1) by (metis mset_eq_imp_distinct_iff)
  let ?vs = "map ucast zs :: int32 list"
  have u: "unat (ucast x :: int32) = unat x" if "x \<in> set zs" for x
    using that zset good_index_small [of ?vals x] good ib(2) by simp
  have dvs: "distinct ?vs"
    using \<open>distinct zs\<close> u unfolding distinct_map inj_on_def by (metis word_unat_eq_iff)
  have n: "wf_order (unat num) ?n" "o_order ?n = []" "o_valueMode ?n = mode"
    using assms by (simp add: wf_order_new) (simp_all add: Order_new_def)
  obtain o' where o': "OccurenceOrder num mode m = Inr o'" "wf_order (unat num) o'"
      "o_order o' = map (\<lambda>v. Literal_var v True) ?vs" "o_valueMode o' = mode"
    using add_variables_ok [OF n(1) dvs] n u zset
    by (auto simp: OccurenceOrder_def zs(1) foldR_map)
  have small: "small_var (ucast x :: int32)" if "x \<in> set zs" for x
    using that u zset assms(1) by (auto simp: small_var_def)
  have "order_positions o' = map unat zs"
    unfolding order_positions_def o'(3) using u small by simp
  moreover have "v \<in> variable ` set (o_order o')" if "unat v < unat num" for v
  proof -
    have "unat (ucast v :: int64) = unat v"
      using that assms(1) by (simp add: unsigned_ucast_eq take_bit_nat_eq_self)
    then have z: "ucast v \<in> set zs" using that zset by simp
    have "ucast (ucast v :: int64) = v"
      using u [OF z] \<open>unat (ucast v :: int64) = unat v\<close> by (simp add: word_unat_eq_iff)
    with z small [OF z] have "v = variable (Literal_var (ucast (ucast v :: int64)) True)" by simp
    with z show ?thesis unfolding o'(3) by (auto intro!: image_eqI)
  qed
  ultimately show ?thesis
    using o' zs(3) by (auto simp: sorted_wrt_map intro!: complete_orderI)
qed

section \<open>The generator order\<close>

lemma count_support_at:
  assumes "perm_wf p" "small_var v"
  shows "count_at (count_support p m) v =
    count_at m v + of_bool (Literal_var v True \<in> set (support p))"
proof -
  have "distinct (support p)"
    using assms(1) by (auto simp: perm_wf_def perm_repr_def support_def)
  moreover have "count_at (fold (\<lambda>l m. if isPositive l
        then m(variable l \<mapsto> count_at m (variable l) + 1) else m) ls m) v =
      count_at m v + of_bool (Literal_var v True \<in> set ls)" if "distinct ls" for ls
    using that
  proof (induction ls arbitrary: m)
    case (Cons l ls)
    have "isPositive l \<and> variable l = v \<longleftrightarrow> l = Literal_var v True"
      using assms(2) by (auto simp: literal_eq_iff)
    with Cons show ?case by (auto simp: count_at_def)
  qed simp
  ultimately show ?thesis by (simp add: count_support_def)
qed

definition movers :: "permutation list \<Rightarrow> variable \<Rightarrow> permutation list" where
  "movers q v = filter (\<lambda>p. Literal_var v True \<in> set (support p)) q"

lemma occurence_generators_eq:
  assumes "\<forall>p \<in> set q. perm_wf p" "small_var v" "v \<noteq> kNoBooleanVariable"
  shows "count_at (occurence_generators q) v = of_nat (length (movers q v))"
proof -
  have "count_at (fold count_support q m) v = count_at m v + of_nat (length (movers q v))" for m
    using assms(1)
    by (induction q arbitrary: m) (simp_all add: movers_def count_support_at [OF _ assms(2)])
  moreover have "count_at (occurence_generators q) v = count_at (fold count_support q Map.empty) v"
    using assms(3) by (simp add: occurence_generators_def count_at_def)
  ultimately show ?thesis by (simp add: count_at_def)
qed

text \<open>The generators the loop works on.\<close>

definition good_generators :: "nat \<Rightarrow> permutation list \<Rightarrow> bool" where
  "good_generators n q \<longleftrightarrow> n < 2 ^ 30 \<and> length q < 2 ^ 31
     \<and> (\<forall>p \<in> set q. perm_in n p \<and> signed_perm p \<and> p_cycles p \<noteq> [])"

lemma moved_positive:
  assumes "perm_wf p" "signed_perm p" "v \<in> moved_vars p"
  shows "p_image p (Literal_var v True) \<noteq> None"
proof -
  obtain l where l: "l \<in> set (p_cycles p)" "variable l = v" using assms(3) by (auto simp: moved_vars_def)
  have "Literal_var v True = l \<or> Literal_var v True = negated l"
    using l(2) Literal_var_variable [of l] Literal_var_variable [of "negated l"]
    by (cases "isPositive l") simp_all
  then show ?thesis using assms(2) l(1) by (auto simp: signed_perm_def)
qed

lemma moved_small:
  assumes "good_generators n q" "p \<in> set q" "v \<in> moved_vars p"
  shows "unat v < n" "small_var v" "v \<noteq> kNoBooleanVariable"
proof -
  show n: "unat v < n"
    using assms by (auto simp: good_generators_def perm_in_def lit_in_def moved_vars_def)
  then show "small_var v" using assms(1) by (simp add: good_generators_def small_var_def)
  then show "v \<noteq> kNoBooleanVariable" by (auto simp: small_var_def kNoBooleanVariable_def unsigned_minus_1_eq_mask mask_eq_exp_minus_1)
qed

lemma moved_by:
  assumes "good_generators n q" "p \<in> set q" "small_var v"
  shows "v \<in> moved_vars p \<longleftrightarrow> \<not> isTrivialImage p (Literal_var v True)"
    and "v \<in> moved_vars p \<longleftrightarrow> Literal_var v True \<in> set (support p)"
proof -
  have p: "perm_wf p" "signed_perm p" using assms by (auto simp: good_generators_def perm_in_def)
  have "v \<in> moved_vars p" if "Literal_var v True \<in> set (p_cycles p)"
    using that assms(3) by (auto simp: moved_vars_def intro!: image_eqI [of _ _ "Literal_var v True"])
  then show "v \<in> moved_vars p \<longleftrightarrow> \<not> isTrivialImage p (Literal_var v True)"
      "v \<in> moved_vars p \<longleftrightarrow> Literal_var v True \<in> set (support p)"
    using moved_positive [OF p, of v] perm_image_dom [OF p(1), of "Literal_var v True"]
    by (auto simp: isTrivialImage_def support_def)
qed

lemma moved_count:
  assumes q: "good_generators n q" and v: "p \<in> set q" "v \<in> moved_vars p"
  shows "count_at (occurence_generators q) v \<noteq> 0"
proof -
  note s = moved_small [OF q v]
  have "p \<in> set (movers q v)"
    using v moved_by(2) [OF q v(1) s(2)] by (simp add: movers_def)
  moreover have "length (movers q v) < 2 ^ 31"
    using q by (auto simp: movers_def good_generators_def intro: le_less_trans [OF length_filter_le])
  ultimately have "unat (of_nat (length (movers q v)) :: int64) \<noteq> 0"
    by (auto simp: unat_of_nat)
  then have "(of_nat (length (movers q v)) :: int64) \<noteq> 0" by auto
  moreover have "\<forall>p \<in> set q. perm_wf p" using q by (auto simp: good_generators_def perm_in_def)
  ultimately show ?thesis using occurence_generators_eq [OF _ s(2,3)] by simp
qed

text \<open>The selection takes a variable of some orbit.\<close>

definition selected :: "variable set \<Rightarrow> variable \<times> nat \<Rightarrow> bool" where
  "selected A s \<longleftrightarrow> (fst s = kNoBooleanVariable \<longrightarrow> snd s = 0) \<and> (fst s \<noteq> kNoBooleanVariable \<longrightarrow> fst s \<in> A)"

lemma visit_variable_selected:
  assumes "selected A s" "v \<in> A" "v \<noteq> kNoBooleanVariable" "count_at occ v \<noteq> 0"
  shows "selected A (visit_variable occ sz v s)" "fst (visit_variable occ sz v s) \<noteq> kNoBooleanVariable"
  using assms by (auto simp: visit_variable_def selected_def Let_def split: prod.splits)

lemma visit_variables_selected:
  assumes "selected A s" "\<forall>v \<in> set vs. v \<in> A \<and> v \<noteq> kNoBooleanVariable \<and> count_at occ v \<noteq> 0"
  shows "selected A (fold (visit_variable occ sz) vs s) \<and>
    (vs \<noteq> [] \<or> fst s \<noteq> kNoBooleanVariable \<longrightarrow>
      fst (fold (visit_variable occ sz) vs s) \<noteq> kNoBooleanVariable)"
  using assms
proof (induction vs arbitrary: s)
  case (Cons v vs)
  have "selected A (visit_variable occ sz v s)" "fst (visit_variable occ sz v s) \<noteq> kNoBooleanVariable"
    using visit_variable_selected [of A s v occ sz] Cons.prems by auto
  with Cons.IH [of "visit_variable occ sz v s"] Cons.prems(2) show ?case by simp
qed simp

lemma visit_orbit_selected:
  assumes "selected A s" "set vs \<subseteq> A" "vs \<noteq> []"
    and "\<forall>v \<in> A. v \<noteq> kNoBooleanVariable \<and> count_at occ v \<noteq> 0"
  shows "selected A (visit_orbit occ vs s)" "fst (visit_orbit occ vs s) \<noteq> kNoBooleanVariable"
proof -
  have v: "\<forall>v \<in> set vs. v \<in> A \<and> v \<noteq> kNoBooleanVariable \<and> count_at occ v \<noteq> 0" using assms by auto
  show "selected A (visit_orbit occ vs s)"
    using visit_variables_selected [OF assms(1) v] assms(1) by (simp add: visit_orbit_def)
  show "fst (visit_orbit occ vs s) \<noteq> kNoBooleanVariable"
    using visit_variables_selected [OF assms(1) v] assms(1,3)
    by (auto simp: visit_orbit_def selected_def)
qed

lemma next_variable_selected:
  assumes "\<forall>vs \<in> set os. vs \<noteq> [] \<and> set vs \<subseteq> A" "os \<noteq> []"
    and "\<forall>v \<in> A. v \<noteq> kNoBooleanVariable \<and> count_at occ v \<noteq> 0"
  shows "next_variable occ os \<in> A" "next_variable occ os \<noteq> kNoBooleanVariable"
proof -
  have "selected A (fold (visit_orbit occ) vss s) \<and>
      (vss \<noteq> [] \<longrightarrow> fst (fold (visit_orbit occ) vss s) \<noteq> kNoBooleanVariable)"
    if "set vss \<subseteq> set os" "selected A s" for vss s
    using that
  proof (induction vss arbitrary: s)
    case (Cons vs vss)
    have "selected A (visit_orbit occ vs s)" "fst (visit_orbit occ vs s) \<noteq> kNoBooleanVariable"
      using visit_orbit_selected [OF Cons.prems(2) _ _ assms(3), of vs] Cons.prems(1) assms(1) by auto
    with Cons show ?case by (cases "vss = []") auto
  qed simp
  from this [of os "(kNoBooleanVariable, 0)"] assms(2)
  show "next_variable occ os \<in> A" "next_variable occ os \<noteq> kNoBooleanVariable"
    by (auto simp: next_variable_def selected_def)
qed

text \<open>
  The loop returns. It chooses at most one variable per generator, each moved by a generator,
  and every generator moves a chosen variable.
\<close>

definition chosen :: "permutation list \<Rightarrow> variable list \<Rightarrow> bool" where
  "chosen q vs \<longleftrightarrow> length vs \<le> length q \<and> set vs \<subseteq> (\<Union>p \<in> set q. moved_vars p)
     \<and> (\<forall>p \<in> set q. \<exists>v \<in> set vs. v \<in> moved_vars p)"

lemma chosen_step:
  assumes q: "good_generators n q" and v: "v \<in> (\<Union>p \<in> set q. moved_vars p)" "small_var v"
    and vs: "chosen (filter (\<lambda>p. isTrivialImage p (Literal_var v True)) q) vs"
  shows "chosen q (v # vs)"
    and "length (filter (\<lambda>p. isTrivialImage p (Literal_var v True)) q) < length q"
proof -
  let ?q = "filter (\<lambda>p. isTrivialImage p (Literal_var v True)) q"
  obtain p where p: "p \<in> set q" "v \<in> moved_vars p" using v(1) by blast
  then have "\<not> isTrivialImage p (Literal_var v True)" using moved_by(1) [OF q p(1) v(2)] by simp
  then show less: "length ?q < length q" using p(1) by (intro length_filter_less) auto
  have "\<exists>w \<in> set (v # vs). w \<in> moved_vars r" if "r \<in> set q" for r
  proof (cases "isTrivialImage r (Literal_var v True)")
    case True
    then show ?thesis using vs that by (auto simp: chosen_def)
  next
    case False
    then show ?thesis using moved_by(1) [OF q that v(2)] by simp
  qed
  moreover have "set vs \<subseteq> (\<Union>p \<in> set q. moved_vars p)" using vs by (auto simp: chosen_def)
  ultimately show "chosen q (v # vs)" using vs less v(1) by (auto simp: chosen_def)
qed

lemma next_variable_ok:
  assumes ord: "iterates ord" and q: "good_generators n q" "q \<noteq> []"
  shows "\<exists>os. Orbits_assign ord q = Some (Inr os)
    \<and> next_variable (occurence_generators q) (or_orbits os) \<in> (\<Union>p \<in> set q. moved_vars p)
    \<and> next_variable (occurence_generators q) (or_orbits os) \<noteq> kNoBooleanVariable"
proof -
  let ?A = "\<Union>p \<in> set q. moved_vars p"
  have "\<forall>p \<in> set q. perm_wf p" using q by (auto simp: good_generators_def perm_in_def)
  then obtain os where os: "Orbits_assign ord q = Some (Inr os)" "orbit_partition q (or_orbits os)"
    using Orbits_assign_ok [OF _ ord, of q] by blast
  have A: "\<forall>v \<in> ?A. v \<noteq> kNoBooleanVariable \<and> count_at (occurence_generators q) v \<noteq> 0"
    using moved_small(3) [OF q(1)] moved_count [OF q(1)] by blast
  have "hd q \<in> set q" "p_cycles (hd q) \<noteq> []" using q by (simp_all add: good_generators_def)
  then have "?A \<noteq> {}" by (auto simp: moved_vars_def)
  then have "or_orbits os \<noteq> []" using os(2) by (auto simp: orbit_partition_def)
  moreover have "\<forall>vs \<in> set (or_orbits os). vs \<noteq> [] \<and> set vs \<subseteq> ?A"
    using os(2) by (auto simp: orbit_partition_def)
  ultimately show ?thesis
    using os(1) next_variable_selected [OF _ _ A, of "or_orbits os"] by blast
qed

lemma breakid_loop_ok:
  assumes ord: "iterates ord"
  shows "good_generators n q \<Longrightarrow> wf_order n o' \<Longrightarrow>
    (\<forall>p \<in> set q. moved_vars p \<inter> variable ` set (o_order o') = {}) \<Longrightarrow>
    \<exists>o'' vs. breakid_loop ord q o' = Some (Inr o'') \<and> wf_order n o'' \<and> chosen q vs
      \<and> o_order o'' = o_order o' @ map (\<lambda>v. Literal_var v True) vs \<and> o_valueMode o'' = o_valueMode o'"
proof (induction "length q" arbitrary: q o' rule: less_induct)
  case less
  show ?case
  proof (cases "q = []")
    case True
    then show ?thesis
      using less.prems(2) by (intro exI [of _ o'] exI [of _ "[]"])
        (simp add: chosen_def breakid_loop.simps)
  next
    case False
    note q = less.prems(1)
    let ?A = "\<Union>p \<in> set q. moved_vars p"
    obtain os where os: "Orbits_assign ord q = Some (Inr os)"
        "next_variable (occurence_generators q) (or_orbits os) \<in> ?A"
        "next_variable (occurence_generators q) (or_orbits os) \<noteq> kNoBooleanVariable"
      using next_variable_ok [OF ord q False] by blast
    define v where "v = next_variable (occurence_generators q) (or_orbits os)"
    let ?q = "filter (\<lambda>p. isTrivialImage p (Literal_var v True)) q"
    have vA: "v \<in> ?A" "v \<noteq> kNoBooleanVariable" using os by (simp_all add: v_def)
    then have v: "unat v < n" "small_var v" using moved_small [OF q] by blast+
    have "v \<notin> variable ` set (o_order o')" using vA(1) less.prems(3) by blast
    then obtain o1 where o1: "Order_add o' (Literal_var v True) = Inr o1" "wf_order n o1"
        "o_order o1 = o_order o' @ [Literal_var v True]" "o_valueMode o1 = o_valueMode o'"
      using Order_add_ok [OF less.prems(2), of "Literal_var v True"] v
      by (auto simp: lit_in_def listed_def)
    have step: "breakid_loop ord q o' = breakid_loop ord ?q o1"
      using False os(1) vA(2) o1(1) by (simp add: breakid_loop.simps [of ord q] v_def)
    have gq: "good_generators n ?q"
      using q by (auto simp: good_generators_def intro: le_less_trans [OF length_filter_le])
    have disj: "\<forall>p \<in> set ?q. moved_vars p \<inter> variable ` set (o_order o1) = {}"
      using less.prems(3) moved_by(1) [OF q _ v(2)] v(2) by (auto simp: o1(3))
    have shorter: "length ?q < length q"
      using vA(1) moved_by(1) [OF q _ v(2)] by (auto intro: length_filter_less)
    obtain o2 vs where o2: "breakid_loop ord ?q o1 = Some (Inr o2)" "wf_order n o2" "chosen ?q vs"
        "o_order o2 = o_order o1 @ map (\<lambda>v. Literal_var v True) vs" "o_valueMode o2 = o_valueMode o1"
      using less.hyps [OF shorter gq o1(2) disj] by blast
    then show ?thesis
      using chosen_step(1) [OF q vA(1) v(2) o2(3)] step o1(3,4)
      by (intro exI [of _ o2] exI [of _ "v # vs"]) simp
  qed
qed

text \<open>Completing an order with the variables it lacks.\<close>

lemma add_missing_ok:
  assumes "wf_order n o'" "\<forall>v \<in> set vs. unat v < n"
  shows "\<exists>o'' ws. foldR add_missing vs o' = Inr o'' \<and> wf_order n o''
    \<and> o_order o'' = o_order o' @ map (\<lambda>v. Literal_var v True) ws
    \<and> subseq ws vs \<and> set vs \<subseteq> variable ` set (o_order o'') \<and> o_valueMode o'' = o_valueMode o'"
  using assms
proof (induction vs arbitrary: o')
  case (Cons v vs)
  have v: "small_var v" "unat v < n" using Cons.prems by (auto simp: wf_order_def small_var_def)
  show ?case
  proof (cases "listed (o_order o') (Literal_var v True)")
    case True
    then have "add_missing v o' = Inr o'" by (simp add: add_missing_def contains_eq [OF Cons.prems(1)])
    moreover have "v \<in> variable ` set (o_order o')" using True v(1) by (simp add: listed_def)
    moreover obtain o2 ws where "foldR add_missing vs o' = Inr o2" "wf_order n o2"
        "o_order o2 = o_order o' @ map (\<lambda>v. Literal_var v True) ws" "subseq ws vs"
        "set vs \<subseteq> variable ` set (o_order o2)" "o_valueMode o2 = o_valueMode o'"
      using Cons.IH [OF Cons.prems(1)] Cons.prems(2) by auto
    ultimately show ?thesis by (intro exI [of _ o2] exI [of _ ws]) auto
  next
    case False
    obtain o1 where o1: "Order_add o' (Literal_var v True) = Inr o1" "wf_order n o1"
        "o_order o1 = o_order o' @ [Literal_var v True]" "o_valueMode o1 = o_valueMode o'"
      using Order_add_ok [OF Cons.prems(1), of "Literal_var v True"] v False by (auto simp: lit_in_def)
    have "add_missing v o' = Inr o1"
      using False o1(1) by (simp add: add_missing_def contains_eq [OF Cons.prems(1)])
    moreover obtain o2 ws where "foldR add_missing vs o1 = Inr o2" "wf_order n o2"
        "o_order o2 = o_order o1 @ map (\<lambda>v. Literal_var v True) ws" "subseq ws vs"
        "set vs \<subseteq> variable ` set (o_order o2)" "o_valueMode o2 = o_valueMode o1"
      using Cons.IH [OF o1(2)] Cons.prems(2) by auto
    ultimately show ?thesis using o1(3,4) v(1)
      by (intro exI [of _ o2] exI [of _ "v # ws"]) auto
  qed
qed simp

lemma wf_group_generators:
  "wf_group n g \<Longrightarrow> n < 2 ^ 30 \<Longrightarrow> length (g_permutations g) < 2 ^ 31 \<Longrightarrow>
    good_generators n (g_permutations g)"
  by (simp add: wf_group_def good_generators_def)

lemma BreakIDOrder_ok:
  assumes ord: "iterates ord" and g: "wf_group n g" "n < 2 ^ 30" "length (g_permutations g) < 2 ^ 31"
    and num: "unat num = n"
  shows "\<exists>o' vs ws. BreakIDOrder ord num mode g = Some (Inr o') \<and> complete_order n o'
    \<and> o_valueMode o' = mode \<and> o_order o' = map (\<lambda>v. Literal_var v True) (vs @ ws)
    \<and> chosen (g_permutations g) vs \<and> subseq ws (variables_below (ucast num))"
proof -
  let ?new = "Order_new (ucast num) mode"
  have n: "wf_order n ?new" "o_order ?new = []" "o_valueMode ?new = mode"
    using g(2) by (simp add: wf_order_new) (simp_all add: Order_new_def)
  obtain o1 vs where o1: "breakid_loop ord (g_permutations g) ?new = Some (Inr o1)" "wf_order n o1"
      "chosen (g_permutations g) vs" "o_order o1 = map (\<lambda>v. Literal_var v True) vs" "o_valueMode o1 = mode"
    using breakid_loop_ok [OF ord wf_group_generators [OF g] n(1)] n(2,3) by auto
  have u: "unat (ucast num :: int32) = n"
    using num g(2) by (simp add: unsigned_ucast_eq take_bit_nat_eq_self)
  note vb = variables_below_ok [of "ucast num", unfolded u, OF g(2)]
  obtain o2 ws where o2: "foldR add_missing (variables_below (ucast num)) o1 = Inr o2" "wf_order n o2"
      "o_order o2 = o_order o1 @ map (\<lambda>v. Literal_var v True) ws" "subseq ws (variables_below (ucast num))"
      "set (variables_below (ucast num)) \<subseteq> variable ` set (o_order o2)" "o_valueMode o2 = o_valueMode o1"
    using add_missing_ok [OF o1(2), of "variables_below (ucast num)"] vb(2) by blast
  have "complete_order n o2" using o2(2,5) vb(2) by (auto intro!: complete_orderI)
  with o1 o2 show ?thesis
    by (intro exI [of _ o2] exI [of _ vs] exI [of _ ws]) (simp add: BreakIDOrder_def)
qed

section \<open>The factory always builds a complete order\<close>

text \<open>The class of the order the automatic mode selects.\<close>

definition order_class :: "OrderMode \<Rightarrow> nat \<Rightarrow> group \<Rightarrow> OrderMode" where
  "order_class vars n g =
     (if vars = AUTO then (if n < 4 * numberOfInverting g then BREAKID else OCCURENCE) else vars)"

lemma OrderFactory_create_ok:
  assumes ord: "iterates ord" and g: "wf_group n g" "length (g_permutations g) < 2 ^ 31"
    and m: "entered_model hash True css m" "css \<noteq> []" "num_vars m = n" "n < 2 ^ 30"
  shows "\<exists>o'. OrderFactory_create ord vars mode m g = Some (Inr (order_class vars n g, o'))
    \<and> complete_order n o' \<and> o_valueMode o' = mode"
proof -
  define num where "num = (ucast (CNFModel_numberOfVariables m) :: int32)"
  have "unat (CNFModel_numberOfVariables m) = n"
    using numberOfVariables_num_vars [of m] m(3,4) by (simp add: unat_of_nat)
  then have num: "unat num = n" using m(4) by (simp add: num_def unsigned_ucast_eq take_bit_nat_eq_self)
  have num64: "unat (ucast num :: int64) = n"
    using num m(4) by (simp add: unsigned_ucast_eq take_bit_nat_eq_self)
  have occ: "length (cm_occurences m) = n" using m by (simp add: entered_model_def)
  obtain o1 where o1: "IncreaseOrder num mode = Inr o1" "complete_order n o1" "o_valueMode o1 = mode"
    using IncreaseOrder_ok [of num mode] num m(4) by auto
  obtain o2 where o2: "OccurenceOrder (ucast num) mode m = Inr o2" "complete_order n o2"
      "o_valueMode o2 = mode"
    using OccurenceOrder_ok [of "ucast num" m mode] num64 m(4) occ by auto
  obtain o3 where o3: "BreakIDOrder ord (ucast num) mode g = Some (Inr o3)" "complete_order n o3"
      "o_valueMode o3 = mode"
    using BreakIDOrder_ok [OF ord g(1) m(4) g(2) num64] by blast
  show ?thesis
    using o1 o2 o3 num
    by (cases vars) (simp_all add: OrderFactory_create_def order_class_def Let_def flip: num_def)
qed

end
