(* ===== verification/Order_Properties.thy ===== *)
theory Order_Properties
  imports Small_Example Order_Factories
begin

text \<open>
  The properties of the disjoint sets, of the orbits of a set of generators and of the orders the
  factory builds from them, with the generator \<open>swap_perm\<close> of \<open>Small_Example\<close> as the example.
\<close>

section \<open>Disjoint sets and orbits\<close>

text \<open>
  C25. Joining two elements of a well-formed union-find structure terminates, leaves it well
  formed, keeps its elements, merges exactly the classes of the two elements and lowers the number
  of sets by one when they were different. Afterwards two calls of \<open>Find\<close> terminate and return
  the same representative exactly for elements of the same class.
\<close>

lemma union_merges_classes:
  assumes "wf_ds d" "present (ds_nodes d) x" "present (ds_nodes d) y"
  shows "\<exists>d'. ds_Union d x y = Some (Inr d') \<and> wf_ds d'
    \<and> (\<forall>i j. same_set d' i j \<longleftrightarrow> same_set d i j \<or> (same_set d i x \<and> same_set d y j)
          \<or> (same_set d i y \<and> same_set d x j))
    \<and> (\<forall>i j. present (ds_nodes d) i \<and> present (ds_nodes d) j \<longrightarrow>
          (\<exists>r s d1 d2. ds_Find d' i = Some (Inr (r, d1)) \<and> ds_Find d1 j = Some (Inr (s, d2))
             \<and> (r = s \<longleftrightarrow> same_set d' i j)))"
proof -
  obtain d' where d': "ds_Union d x y = Some (Inr d')" "wf_ds d'"
      "\<forall>j. present (ds_nodes d') j \<longleftrightarrow> present (ds_nodes d) j"
      "\<forall>i j. same_set d' i j \<longleftrightarrow> same_set d i j \<or> (same_set d i x \<and> same_set d y j)
          \<or> (same_set d i y \<and> same_set d x j)"
    using ds_Union_ok [OF assms] by blast
  have "\<exists>r s d1 d2. ds_Find d' i = Some (Inr (r, d1)) \<and> ds_Find d1 j = Some (Inr (s, d2))
      \<and> (r = s \<longleftrightarrow> same_set d' i j)" if ij: "present (ds_nodes d') i" "present (ds_nodes d') j" for i j
  proof -
    obtain d1 where d1: "ds_Find d' i = Some (Inr (ds_rep d' i, d1))" "wf_ds d1"
        "\<forall>j. present (ds_nodes d1) j \<longleftrightarrow> present (ds_nodes d') j" "ds_rep d1 = ds_rep d'"
      using ds.find_law [OF d'(2) ij(1)] by blast
    then obtain d2 where "ds_Find d1 j = Some (Inr (ds_rep d' j, d2))"
      using ds.find_law [OF d1(2), of j] ij(2) by auto
    with d1(1) show ?thesis using ds.rep_law [OF d'(2), of i j] ij by auto
  qed
  then have "\<forall>i j. present (ds_nodes d) i \<and> present (ds_nodes d) j \<longrightarrow>
      (\<exists>r s d1 d2. ds_Find d' i = Some (Inr (r, d1)) \<and> ds_Find d1 j = Some (Inr (s, d2))
         \<and> (r = s \<longleftrightarrow> same_set d' i j))"
    unfolding d'(3) [rule_format] by (intro allI impI) (elim conjE, assumption)
  with d'(1,2,4) show ?thesis by (intro exI [of _ d'] conjI)
qed

definition two_points :: disjoint_sets where
  "two_points = get_ok DisjointSets_new (andThen (ds_Add DisjointSets_new 0) (\<lambda>d. ds_Add d 3))"

lemma two_points_ok:
  "wf_ds two_points" "present (ds_nodes two_points) j \<longleftrightarrow> j = 0 \<or> j = 3"
  "same_set two_points i j \<longleftrightarrow> i = j \<and> (j = 0 \<or> j = 3)"
proof -
  have absent: "present (ds_nodes DisjointSets_new) j \<longleftrightarrow> False"
      "same_set DisjointSets_new i j \<longleftrightarrow> False" for i j :: nat
    using same_set_present [of DisjointSets_new i j] by (auto simp: DisjointSets_new_def present_def)
  obtain d1 where d1: "ds_Add DisjointSets_new 0 = Inr d1" "wf_ds d1"
      "\<forall>j. present (ds_nodes d1) j \<longleftrightarrow> j = 0" "\<forall>i j. same_set d1 i j \<longleftrightarrow> i = 0 \<and> j = 0"
    using ds_Add_same [OF wf_ds_new, of 0] by (auto simp: absent)
  obtain d2 where d2: "ds_Add d1 3 = Inr d2" "wf_ds d2"
      "\<forall>j. present (ds_nodes d2) j \<longleftrightarrow> present (ds_nodes d1) j \<or> j = 3"
      "\<forall>i j. same_set d2 i j \<longleftrightarrow> same_set d1 i j \<or> (i = 3 \<and> j = 3)"
    using ds_Add_same [OF d1(2), of 3] by blast
  have "two_points = d2" by (simp add: two_points_def d1(1) d2(1))
  then show "wf_ds two_points" "present (ds_nodes two_points) j \<longleftrightarrow> j = 0 \<or> j = 3"
      "same_set two_points i j \<longleftrightarrow> i = j \<and> (j = 0 \<or> j = 3)"
    using d1(3,4) d2(2,3,4) by auto
qed

lemma union_merges_classes_witness:
  "\<exists>d'. ds_Union two_points 0 3 = Some (Inr d') \<and> \<not> same_set two_points 0 3 \<and> same_set d' 0 3"
proof -
  obtain d' where "ds_Union two_points 0 3 = Some (Inr d')"
      "\<forall>i j. same_set d' i j \<longleftrightarrow> same_set two_points i j \<or> (same_set two_points i 0 \<and> same_set two_points 3 j)
          \<or> (same_set two_points i 3 \<and> same_set two_points 0 j)"
    using union_merges_classes [of two_points 0 3] two_points_ok(1,2) by auto
  then show ?thesis by (auto simp: two_points_ok(3))
qed

text \<open>
  C24. For well-formed permutations \<open>Orbits::assign\<close> terminates. Whatever the iteration order of
  the map, the orbits are non-empty lists without repetition that partition the moved variables,
  and two variables are in the same orbit exactly when a chain of images connects them.
\<close>

lemma orbits_are_components:
  assumes "\<forall>p \<in> set ps. perm_wf p" "iterates ord"
  shows "\<exists>os. Orbits_assign ord ps = Some (Inr os)
    \<and> (\<Union>o' \<in> set (or_orbits os). set o') = (\<Union>p \<in> set ps. moved_vars p)
    \<and> distinct (or_orbits os)
    \<and> (\<forall>o' \<in> set (or_orbits os). o' \<noteq> [] \<and> distinct o'
         \<and> (\<forall>u \<in> set o'. \<forall>v. v \<in> set o' \<longleftrightarrow> connects (all_edges ps) (unat u) (unat v)))
    \<and> numberOfOrbits os = card ((\<lambda>u :: variable. {v :: variable. connects (all_edges ps) (unat u) (unat v)}) ` (\<Union>p \<in> set ps. moved_vars p))"
proof -
  obtain os where os: "Orbits_assign ord ps = Some (Inr os)" "orbit_partition ps (or_orbits os)"
    using Orbits_assign_ok [OF assms] by blast
  let ?cls = "\<lambda>u :: variable. {v :: variable. connects (all_edges ps) (unat u) (unat v)}"
  let ?A = "\<Union>p \<in> set ps. moved_vars p"
  have part: "(\<Union>o' \<in> set (or_orbits os). set o') = ?A" "distinct (or_orbits os)"
      "\<forall>o' \<in> set (or_orbits os). o' \<noteq> [] \<and> distinct o' \<and> (\<forall>u \<in> set o'. \<forall>v. v \<in> set o' \<longleftrightarrow> v \<in> ?cls u)"
    using os(2) by (auto simp: orbit_partition_def same_orbit_def)
  have cls: "set o' = ?cls u" if "o' \<in> set (or_orbits os)" "u \<in> set o'" for o' u
    using part(3) that by blast
  have "set ` set (or_orbits os) = ?cls ` ?A"
  proof
    show "set ` set (or_orbits os) \<subseteq> ?cls ` ?A"
    proof
      fix c assume "c \<in> set ` set (or_orbits os)"
      then obtain o' where o': "o' \<in> set (or_orbits os)" "c = set o'" by blast
      then obtain u where u: "u \<in> set o'" using part(3) by (meson ex_in_conv set_empty)
      then have "u \<in> ?A" using o' part(1) by blast
      then show "c \<in> ?cls ` ?A" using cls [OF o'(1) u] o'(2) by blast
    qed
    show "?cls ` ?A \<subseteq> set ` set (or_orbits os)"
    proof
      fix c assume "c \<in> ?cls ` ?A"
      then obtain u where u: "u \<in> ?A" "c = ?cls u" by blast
      then obtain o' where "o' \<in> set (or_orbits os)" "u \<in> set o'" using part(1) by blast
      then show "c \<in> set ` set (or_orbits os)" using cls u(2) by blast
    qed
  qed
  moreover have "inj_on set (set (or_orbits os))" using os(2) by (simp add: orbit_partition_def)
  ultimately have "card (?cls ` ?A) = length (or_orbits os)"
    using part(2) by (metis card_image distinct_card)
  with os(1) part show ?thesis by (auto simp: numberOfOrbits_def)
qed

lemma orbits_are_components_witness:
  "\<exists>os. Orbits_assign rev [swap_perm] = Some (Inr os)
    \<and> (\<Union>o' \<in> set (or_orbits os). set o') = {0, 1}"
proof -
  have "\<forall>p \<in> set [swap_perm]. perm_wf p" using swap_perm_ok(1) by (simp add: perm_in_def)
  from orbits_are_components [OF this iterates_id(2)]
  show ?thesis by (auto simp: moved_vars_def swap_perm_ok(3) small_literals)
qed

section \<open>The orders\<close>

text \<open>
  The occurrence order over \<open>num\<close> variables lists every variable once, those with more
  occurrences first and those with the same number by increasing index, provided the occurrence
  table has an entry for each of them.
\<close>

lemma occurence_order_sorted:
  assumes "unat num < 2 ^ 30" "unat num \<le> length (cm_occurences m)"
  shows "\<exists>o'. OccurenceOrder num mode m = Inr o' \<and> wf_order (unat num) o' \<and> o_valueMode o' = mode
    \<and> variable ` set (o_order o') = {v. unat v < unat num}
    \<and> (\<forall>i j. i < j \<and> j < length (o_order o') \<longrightarrow>
         (let x = unat (variable (o_order o' ! i)); y = unat (variable (o_order o' ! j));
              vals = cm_occurences m
          in sint (vals ! y) < sint (vals ! x) \<or> (vals ! x = vals ! y \<and> x < y)))"
proof -
  obtain o' where o': "OccurenceOrder num mode m = Inr o'" "complete_order (unat num) o'"
      "o_valueMode o' = mode" "sorted_wrt (occurs_before (cm_occurences m)) (order_positions o')"
    using OccurenceOrder_ok [OF assms] by blast
  then have wf: "wf_order (unat num) o'" by (simp add: complete_order_def)
  have "variable ` set (o_order o') \<subseteq> {v. unat v < unat num}"
    using wf by (auto simp: wf_order_def lit_in_def)
  moreover have "{v. unat v < unat num} \<subseteq> variable ` set (o_order o')"
    using o'(2) by (auto simp: complete_order_def)
  ultimately have "variable ` set (o_order o') = {v. unat v < unat num}" by (rule subset_antisym)
  then show ?thesis
    using o' wf by (auto simp: sorted_wrt_iff_nth_less order_positions_def occurs_before_def Let_def)
qed

definition two_counts :: cnf_model where
  "two_counts = CNFModel_new\<lparr>cm_num_variables := 1, cm_occurences := [1, 4]\<rparr>"

lemma occurence_order_sorted_witness:
  "\<exists>o'. OccurenceOrder 2 TRUE_LESS_FALSE two_counts = Inr o'
    \<and> variable ` set (o_order o') = {v. unat v < 2} \<and> unat (2 :: int64) \<le> length (cm_occurences two_counts)"
  using occurence_order_sorted [of 2 two_counts TRUE_LESS_FALSE] by (auto simp: two_counts_def)

text \<open>
  C23. For a well-formed group of fewer than \<open>2 ^ 31\<close> generators the loop of the generator order
  terminates, whatever the iteration order of the orbit map, without reporting a problem with the
  generators. It first lists at most as many variables as there are generators: each is moved by
  some generator and every generator moves one of them. The other variables follow in increasing
  order, and every variable is listed once.
\<close>

lemma breakid_order_covers:
  assumes "iterates ord" "wf_group n g" "n < 2 ^ 30" "length (g_permutations g) < 2 ^ 31" "unat num = n"
  shows "\<exists>o' vs ws. BreakIDOrder ord num mode g = Some (Inr o') \<and> complete_order n o'
    \<and> o_valueMode o' = mode \<and> o_order o' = map (\<lambda>v. Literal_var v True) (vs @ ws)
    \<and> length vs \<le> numberOfPermutations g
    \<and> (\<forall>v \<in> set vs. \<exists>p \<in> set (g_permutations g). moves p (unat v))
    \<and> (\<forall>p \<in> set (g_permutations g). \<exists>v \<in> set vs. moves p (unat v))
    \<and> sorted (map unat ws)"
proof -
  obtain o' vs ws where o': "BreakIDOrder ord num mode g = Some (Inr o')" "complete_order n o'"
      "o_valueMode o' = mode" "o_order o' = map (\<lambda>v. Literal_var v True) (vs @ ws)"
      "chosen (g_permutations g) vs" "subseq ws (variables_below (ucast num))"
    using BreakIDOrder_ok [OF assms] by blast
  have mv: "moves p (unat v)" if "v \<in> moved_vars p" for p v
    using that by (auto simp: moves_def moved_vars_def)
  have u: "unat (ucast num :: int32) < 2 ^ 30"
    using assms(3,5) by (simp add: unsigned_ucast_eq take_bit_nat_eq_self)
  have "sorted (map unat (variables_below (ucast num)))"
  proof -
    let ?k = "unat (ucast num :: int32)"
    have "map unat (variables_below (ucast num)) = map (\<lambda>i. unat (of_nat i :: int32)) [0..<?k]"
      using u sint_small [of "ucast num :: int32"] by (simp add: variables_below_def)
    also have "\<dots> = map id [0..<?k]"
      using u by (intro map_cong) (simp_all add: unat_of_nat)
    finally show ?thesis by simp
  qed
  moreover have "subseq (map unat ws) (map unat (variables_below (ucast num)))"
    using o'(6) by (rule subseq_map)
  ultimately have "sorted (map unat ws)" by (auto simp: subseq_conv_nths intro: sorted_nths)
  with o'(1-5) show ?thesis
    using mv unfolding chosen_def numberOfPermutations_def by blast
qed

lemma breakid_order_covers_witness:
  "\<exists>o' vs ws. BreakIDOrder rev 2 TRUE_LESS_FALSE swap_group = Some (Inr o')
    \<and> o_order o' = map (\<lambda>v. Literal_var v True) (vs @ ws) \<and> length vs \<le> 1"
  using breakid_order_covers [OF iterates_id(2) swap_group_ok(1), of 2 TRUE_LESS_FALSE] swap_group_ok(2)
  by (auto simp: numberOfPermutations_def)

text \<open>
  C26. Every order mode of the factory, the automatic one included, terminates and builds an order
  of the value mode asked for that lists every variable of the problem exactly once, for the model
  of any non-empty list of non-empty clauses that the hash function keeps apart.
\<close>

lemma factory_orders_complete:
  assumes "iterates ord" "wf_group (num_vars m) g" "length (g_permutations g) < 2 ^ 31"
    and "foldR (enter_clause hash) css CNFModel_new = Inr m" "num_vars m < 2 ^ 30"
    and "css \<noteq> []" "\<forall>c \<in> set css. c \<noteq> [] \<and> (\<forall>l \<in> set c. lit_below (2 ^ 30) l)"
    and "inj_on (compute_tag hash) (normal_form ` set css)"
  shows "\<exists>k o'. OrderFactory_create ord vars mode m g = Some (Inr (k, o'))
    \<and> (vars \<noteq> AUTO \<longrightarrow> k = vars) \<and> k \<noteq> AUTO \<and> o_valueMode o' = mode
    \<and> wf_order (num_vars m) o' \<and> distinct (map variable (o_order o'))
    \<and> variable ` set (o_order o') = {v. unat v < num_vars m}"
proof -
  have "entered_model hash True css m" using enter_clauses_ok [OF assms(7,8)] assms(4) by auto
  from OrderFactory_create_ok [OF assms(1-3) this assms(6) refl assms(5)] obtain o' where
    o': "OrderFactory_create ord vars mode m g = Some (Inr (order_class vars (num_vars m) g, o'))"
      "complete_order (num_vars m) o'" "o_valueMode o' = mode" by blast
  then have wf: "wf_order (num_vars m) o'" by (simp add: complete_order_def)
  have "variable ` set (o_order o') \<subseteq> {v. unat v < num_vars m}"
    using wf by (auto simp: wf_order_def lit_in_def)
  moreover have "{v. unat v < num_vars m} \<subseteq> variable ` set (o_order o')"
    using o'(2) by (auto simp: complete_order_def)
  ultimately have "variable ` set (o_order o') = {v. unat v < num_vars m}" by (rule subset_antisym)
  moreover have "distinct (map variable (o_order o'))" using wf by (simp add: wf_order_def)
  ultimately show ?thesis
    using o'(1,3) wf by (intro exI [of _ "order_class vars (num_vars m) g"] exI [of _ o'])
      (auto simp: order_class_def)
qed

lemma entered_small_clause:
  "\<exists>m. foldR (enter_clause (\<lambda>s. 0)) [[Lit 0, Lit 2]] CNFModel_new = Inr m \<and> num_vars m = 2"
proof -
  have c: "\<forall>c \<in> set [[Lit 0, Lit 2]]. c \<noteq> [] \<and> (\<forall>l \<in> set c. lit_below (2 ^ 30) l)"
    by (simp add: lit_below_def small_literals small_var_def)
  obtain m where m: "foldR (enter_clause (\<lambda>s. 0)) [[Lit 0, Lit 2]] CNFModel_new = Inr m"
      "entered_model (\<lambda>s. 0) True [[Lit 0, Lit 2]] m"
    using enter_clauses_ok [OF c, of True "\<lambda>s. 0"] by auto
  have "lit_below (num_vars m) (Lit 2)"
      "num_vars m = 1 \<or> num_vars m = Suc (unat (variable (Lit 0))) \<or> num_vars m = Suc (unat (variable (Lit 2)))"
    using m(2) unfolding entered_model_def by auto
  then have "num_vars m = 2" by (auto simp: lit_below_def small_literals)
  with m(1) show ?thesis by blast
qed

lemma factory_orders_complete_witness:
  "\<exists>m k o'. foldR (enter_clause (\<lambda>s. 0)) [[Lit 0, Lit 2]] CNFModel_new = Inr m
    \<and> OrderFactory_create id AUTO TRUE_LESS_FALSE m swap_group = Some (Inr (k, o'))
    \<and> variable ` set (o_order o') = {v. unat v < 2}"
proof -
  obtain m where m: "foldR (enter_clause (\<lambda>s. 0)) [[Lit 0, Lit 2]] CNFModel_new = Inr m" "num_vars m = 2"
    using entered_small_clause by blast
  have c: "\<forall>c \<in> set [[Lit 0, Lit 2]]. c \<noteq> [] \<and> (\<forall>l \<in> set c. lit_below (2 ^ 30) l)"
    by (simp add: lit_below_def small_literals small_var_def)
  show ?thesis
    using factory_orders_complete [OF iterates_id(1) _ _ m(1) _ _ c, of swap_group AUTO TRUE_LESS_FALSE]
      swap_group_ok m by auto
qed

section \<open>The generator order and the largest orbit\<close>

text \<open>Generators over five variables with the orbits \<open>{0, 1}\<close> and \<open>{2, 3, 4}\<close>.\<close>

definition five_perm :: "literal list list \<Rightarrow> permutation" where
  "five_perm css = get_ok (Permutation_new 5) (enterCycles css (Permutation_new 5))"

definition pair_and_triple :: group where
  "pair_and_triple = get_ok Group_new (foldR (\<lambda>p g. addPermutation g (Some p))
     [five_perm [[Lit 0, Lit 2], [Lit 1, Lit 3]],
      five_perm [[Lit 4, Lit 6, Lit 8], [Lit 5, Lit 7, Lit 9]],
      five_perm [[Lit 4, Lit 6, Lit 8], [Lit 5, Lit 7, Lit 9]]] Group_new)"

definition listed_variables :: "order result option \<Rightarrow> variable list result option" where
  "listed_variables r = map_option (map_sum id (\<lambda>o'. map variable (o_order o'))) r"

text \<open>
  The generator order does not always take its next variable from the largest orbit, and it
  depends on the iteration order of the orbit map: with one order the first variable is 0, of the
  orbit of two variables, with the other it is 2, of the orbit of three.
\<close>

lemma breakid_order_depends_on_iteration:
  "map_option (map_sum id (\<lambda>os. map length (or_orbits os)))
     (Orbits_assign id (g_permutations pair_and_triple)) = Some (Inr [2, 3])
   \<and> listed_variables (BreakIDOrder id 5 TRUE_LESS_FALSE pair_and_triple) = Some (Inr [0, 2, 1, 3, 4])
   \<and> listed_variables (BreakIDOrder rev 5 TRUE_LESS_FALSE pair_and_triple) = Some (Inr [2, 0, 1, 3, 4])"
  by (intro conjI) code_simp+

end
