(* ===== verification/CNF_Graphs.thy ===== *)
theory CNF_Graphs
  imports CNF_Models Orders
begin

text \<open>
  The class \<open>CNFGraph\<close> of \<open>include/cosy/CNFGraph.h\<close> and \<open>src/CNFGraph.cc\<close>: the coloured graph
  whose automorphisms the external tools look for. The node of a literal is its variable, plus the
  number of variables for a negative literal; every clause that is not binary has a node of its
  own after them, and a binary clause is an edge between its two literals.
\<close>

section \<open>State and operations\<close>

definition kLiteralColor :: int32 where
  "kLiteralColor = 0"

definition kClauseColor :: int32 where
  "kClauseColor = 1"

definition literal2Node :: "literal \<Rightarrow> int32 \<Rightarrow> int32" where
  "literal2Node l n = (let v = variable l in if isPositive l then v else n + v)"

definition node2Literal :: "int32 \<Rightarrow> int32 \<Rightarrow> int32 result" where
  "node2Literal node n =
     (if node < n then andThen (Literal_signed (node + 1)) (\<lambda>l. Inr (index l))
      else if node < 2 * n then andThen (Literal_signed (- (node - n + 1))) (\<lambda>l. Inr (index l))
      else Inr kNoLiteralIndex)"

record cnf_graph =
  gr_num_nodes :: int64
  gr_num_edges :: int64
  gr_adjacency :: "int32 list list"
  gr_colors :: "int32 list"

definition CNFGraph_new :: cnf_graph where
  "CNFGraph_new = \<lparr>gr_num_nodes = 0, gr_num_edges = 0, gr_adjacency = [], gr_colors = []\<rparr>"

definition numberOfNodes :: "cnf_graph \<Rightarrow> int32" where
  "numberOfNodes g = ucast (gr_num_nodes g)"

definition numberOfEdges :: "cnf_graph \<Rightarrow> int32" where
  "numberOfEdges g = ucast (gr_num_edges g)"

definition neighbour :: "cnf_graph \<Rightarrow> int32 \<Rightarrow> int32 list result" where
  "neighbour g node = vec_at (gr_adjacency g) (unat node)"

definition degree :: "cnf_graph \<Rightarrow> int32 \<Rightarrow> int32 result" where
  "degree g node = andThen (vec_at (gr_adjacency g) (unat node)) (\<lambda>ns. Inr (of_nat (length ns)))"

definition color :: "cnf_graph \<Rightarrow> int32 \<Rightarrow> int32 result" where
  "color g node = vec_at (gr_colors g) (unat node)"

definition addNode :: "cnf_graph \<Rightarrow> int32 \<Rightarrow> cnf_graph" where
  "addNode g node =
     (if ucast node <s gr_num_nodes g then g
      else let k = ucast (node + 1) :: int64
           in g\<lparr>gr_num_nodes := k, gr_adjacency := vec_resize (gr_adjacency g) (unat k) [],
                gr_colors := vec_resize (gr_colors g) (unat k) 0\<rparr>)"

definition push_neighbour :: "int32 \<Rightarrow> int32 \<Rightarrow> cnf_graph \<Rightarrow> cnf_graph result" where
  "push_neighbour node x g =
     andThen (vec_at (gr_adjacency g) (unat node)) (\<lambda>ns.
     andThen (vec_put (gr_adjacency g) (unat node) (ns @ [x])) (\<lambda>adj. Inr (g\<lparr>gr_adjacency := adj\<rparr>)))"

definition addEdge :: "int32 \<Rightarrow> int32 \<Rightarrow> cnf_graph \<Rightarrow> cnf_graph result" where
  "addEdge x y g =
     andThen (push_neighbour x y (addNode g (if y < x then x else y))) (\<lambda>g1.
     andThen (push_neighbour y x g1) (\<lambda>g2. Inr (g2\<lparr>gr_num_edges := gr_num_edges g2 + 1\<rparr>)))"

definition changeColor :: "int32 \<Rightarrow> int32 \<Rightarrow> cnf_graph \<Rightarrow> cnf_graph result" where
  "changeColor node c g =
     andThen (vec_put (gr_colors g) (unat node) c) (\<lambda>cs. Inr (g\<lparr>gr_colors := cs\<rparr>))"

definition add_clause_edges ::
    "int32 \<Rightarrow> cnf_clause \<Rightarrow> int32 \<times> cnf_graph \<Rightarrow> (int32 \<times> cnf_graph) result" where
  "add_clause_edges n c = (\<lambda>(num_clauses, g).
     if cl_size c = 2
     then andThen (vec_at (cl_literals c) 0) (\<lambda>a.
          andThen (vec_at (cl_literals c) 1) (\<lambda>b.
          andThen (addEdge (literal2Node a n) (literal2Node b n) g) (\<lambda>g'. Inr (num_clauses, g'))))
     else andThen (foldR (\<lambda>l. addEdge (literal2Node l n) num_clauses) (cl_literals c) g)
            (\<lambda>g'. Inr (num_clauses + 1, g')))"

definition add_consistency_edge :: "int32 \<Rightarrow> variable \<Rightarrow> cnf_graph \<Rightarrow> cnf_graph result" where
  "add_consistency_edge n v =
     addEdge (literal2Node (Literal_var v True) n) (literal2Node (Literal_var v False) n)"

definition color_variable ::
    "int32 \<Rightarrow> variable \<Rightarrow> int32 \<times> cnf_graph \<Rightarrow> (int32 \<times> cnf_graph) result" where
  "color_variable n v = (\<lambda>(clr, g).
     let x = literal2Node (Literal_var v True) n; y = literal2Node (Literal_var v False) n in
     andThen (degree g x) (\<lambda>dx.
     andThen (if dx = 1 then andThen (degree g y) (\<lambda>dy. Inr (dy = 1)) else Inr False) (\<lambda>alone.
       if alone
       then andThen (changeColor x clr g) (\<lambda>g1.
            andThen (changeColor y (clr + 1) g1) (\<lambda>g2. Inr (clr + 2, g2)))
       else Inr (clr, g))))"

definition CNFGraph_assign :: "cnf_graph \<Rightarrow> cnf_model \<Rightarrow> cnf_graph result" where
  "CNFGraph_assign g m =
     (let n = ucast (CNFModel_numberOfVariables m) :: int32 in
      andThen (foldR (add_clause_edges n) (cm_clauses m) (2 * n, g)) (\<lambda>(num_clauses, g1).
      andThen (foldR (add_consistency_edge n) (variables_below n) g1) (\<lambda>g2.
      andThen (foldR (color_variable n) (variables_below n) (kClauseColor + 1, g2)) (\<lambda>(_, g3).
        foldR (\<lambda>i. changeColor i kClauseColor)
          (map of_nat [unat (2 * n)..<unat num_clauses]) g3))))"

section \<open>The edges a graph holds\<close>

text \<open>The neighbours of a node in the order in which the edges are added.\<close>

definition nbrs :: "(nat \<times> nat) list \<Rightarrow> nat \<Rightarrow> nat list" where
  "nbrs es i = concat (map (\<lambda>(x, y). (if x = i then [y] else []) @ (if y = i then [x] else [])) es)"

lemma nbrs_simps [simp]:
  "nbrs [] i = []"
  "nbrs ((x, y) # es) i = (if x = i then [y] else []) @ (if y = i then [x] else []) @ nbrs es i"
  "nbrs (es @ es') i = nbrs es i @ nbrs es' i"
  by (simp_all add: nbrs_def)

lemma set_nbrs: "j \<in> set (nbrs es i) \<longleftrightarrow> (i, j) \<in> set es \<or> (j, i) \<in> set es"
  by (auto simp: nbrs_def)

text \<open>The graph with the nodes below \<open>k\<close>, the edges \<open>es\<close> and the colours \<open>cs\<close>.\<close>

definition graph_of :: "nat \<Rightarrow> (nat \<times> nat) list \<Rightarrow> nat list \<Rightarrow> cnf_graph \<Rightarrow> bool" where
  "graph_of k es cs g \<longleftrightarrow>
     k < 2 ^ 32 \<and> gr_num_nodes g = of_nat k \<and> gr_num_edges g = of_nat (length es)
     \<and> gr_adjacency g = map (\<lambda>i. map of_nat (nbrs es i)) [0..<k]
     \<and> gr_colors g = map of_nat cs \<and> length cs = k
     \<and> (\<forall>(x, y) \<in> set es. x < k \<and> y < k)"

lemma graph_of_new: "graph_of 0 [] [] CNFGraph_new"
  by (simp add: graph_of_def CNFGraph_new_def)

lemma unat_of_nat32: "k < 2 ^ 32 \<Longrightarrow> unat (of_nat k :: int32) = k"
  by (simp add: unat_of_nat)

lemma nbrs_outside: "\<forall>(x, y) \<in> set es. x < k \<and> y < k \<Longrightarrow> k \<le> i \<Longrightarrow> nbrs es i = []"
  by (induction es) auto

lemma unat_ucast64: "unat (ucast (w :: int32) :: int64) = unat w"
proof -
  have "unat w < 2 ^ 32" using unsigned_less [of w] by simp
  then show ?thesis by (simp add: unsigned_ucast_eq take_bit_nat_eq_self)
qed

lemma sless_of_nat64:
  assumes "i < 2 ^ 63" "k < 2 ^ 63"
  shows "(of_nat i :: int64) <s of_nat k \<longleftrightarrow> i < k"
proof -
  have "sint (of_nat j :: int64) = int j" if "j < 2 ^ 63" for j
  proof -
    have "unat (of_nat j :: int64) = j" using that by (simp add: unat_of_nat)
    then show ?thesis using that sint_small [of "of_nat j :: int64"] by simp
  qed
  then show ?thesis using assms by (simp add: word_sless_alt)
qed

text \<open>The number of nodes after a node has been used.\<close>

definition grown :: "nat \<Rightarrow> nat list \<Rightarrow> nat list" where
  "grown k cs = cs @ replicate (k - length cs) 0"

lemma addNode_ok:
  assumes g: "graph_of k es cs g" and x: "Suc x < 2 ^ 32"
  shows "graph_of (max k (Suc x)) es (grown (max k (Suc x)) cs) (addNode g (of_nat x))"
proof -
  have k: "k < 2 ^ 32" "gr_num_nodes g = of_nat k" "length cs = k" using g by (simp_all add: graph_of_def)
  have ux: "(ucast (of_nat x :: int32) :: int64) = of_nat x"
    using x by (simp add: word_unat_eq_iff unat_ucast64 unat_of_nat)
  have less: "(ucast (of_nat x :: int32) :: int64) <s gr_num_nodes g \<longleftrightarrow> x < k"
    unfolding ux k(2) by (rule sless_of_nat64) (use x k(1) in simp_all)
  show ?thesis
  proof (cases "x < k")
    case True
    then have "max k (Suc x) = k" by simp
    with True g less k(3) show ?thesis by (simp add: addNode_def grown_def)
  next
    case False
    have "(ucast (of_nat x + 1 :: int32) :: int64) = of_nat (Suc x)"
      using x by (simp add: word_unat_eq_iff unat_ucast64 unat_of_nat unat_word_ariths)
    moreover have "unat (of_nat (Suc x) :: int64) = Suc x" using x by (simp add: unat_of_nat del: of_nat_Suc)
    ultimately have add: "addNode g (of_nat x) =
        g\<lparr>gr_num_nodes := of_nat (Suc x), gr_adjacency := vec_resize (gr_adjacency g) (Suc x) [],
          gr_colors := vec_resize (gr_colors g) (Suc x) 0\<rparr>"
      using less False by (simp add: addNode_def Let_def del: of_nat_Suc)
    have m: "max k (Suc x) = Suc x" using False by simp
    have es: "\<forall>(x, y) \<in> set es. x < k \<and> y < k" using g by (simp add: graph_of_def)
    have "vec_resize (gr_adjacency g) (Suc x) [] = map (\<lambda>i. map of_nat (nbrs es i)) [0..<Suc x]"
      using g False nbrs_outside [OF es]
      by (intro nth_equalityI) (auto simp: graph_of_def nth_vec_resize simp del: upt_Suc)
    moreover have "vec_resize (gr_colors g) (Suc x) 0 = map of_nat (grown (Suc x) cs)"
      using g False k(3)
      by (intro nth_equalityI) (auto simp: graph_of_def nth_vec_resize grown_def nth_append)
    ultimately show ?thesis
      unfolding m add using g x False by (auto simp: graph_of_def grown_def simp del: of_nat_Suc upt_Suc)
  qed
qed

lemma grown_grown: "length cs \<le> j \<Longrightarrow> j \<le> k \<Longrightarrow> grown k (grown j cs) = grown k cs"
  by (simp add: grown_def replicate_add [symmetric])

lemma length_grown: "length cs \<le> k \<Longrightarrow> length (grown k cs) = k"
  by (simp add: grown_def)

lemma addEdge_ok:
  assumes g: "graph_of k es cs g" and xy: "Suc (max x y) < 2 ^ 32"
  defines "K \<equiv> max k (Suc (max x y))"
  shows "\<exists>g'. addEdge (of_nat x) (of_nat y) g = Inr g' \<and> graph_of K (es @ [(x, y)]) (grown K cs) g'"
proof -
  have u: "unat (of_nat x :: int32) = x" "unat (of_nat y :: int32) = y" using xy by (simp_all add: unat_of_nat32)
  have m: "(if (of_nat y :: int32) < of_nat x then of_nat x else of_nat y :: int32) = of_nat (max x y)"
    using u by (simp add: word_less_nat_alt)
  let ?g = "addNode g (of_nat (max x y))"
  have g1: "graph_of K es (grown K cs) ?g" unfolding K_def by (rule addNode_ok [OF g xy])
  have xK: "x < K" "y < K" by (auto simp: K_def)
  let ?A = "\<lambda>es. map (\<lambda>i. map (of_nat :: nat \<Rightarrow> int32) (nbrs es i)) [0..<K]"
  have adj: "gr_adjacency ?g = ?A es" using g1 by (simp add: graph_of_def)
  let ?A1 = "(?A es)[x := ?A es ! x @ [of_nat y]]"
  let ?A2 = "?A1[y := ?A1 ! y @ [of_nat x]]"
  have "addEdge (of_nat x) (of_nat y) g =
      Inr (?g\<lparr>gr_adjacency := ?A2, gr_num_edges := gr_num_edges ?g + 1\<rparr>)"
    using xK u by (simp add: addEdge_def push_neighbour_def m adj)
  moreover have "?A2 = ?A (es @ [(x, y)])"
    using xK by (intro nth_equalityI) (auto simp: nth_list_update)
  ultimately show ?thesis
    using g1 xK by (intro exI [of _ "?g\<lparr>gr_adjacency := ?A2, gr_num_edges := gr_num_edges ?g + 1\<rparr>"])
      (auto simp: graph_of_def)
qed

text \<open>Adding a list of edges.\<close>

definition nodes_after :: "nat \<Rightarrow> (nat \<times> nat) list \<Rightarrow> nat" where
  "nodes_after k es = fold (\<lambda>(x, y) k. max k (Suc (max x y))) es k"

lemma nodes_after_simps [simp]:
  "nodes_after k [] = k" "nodes_after k ((x, y) # es) = nodes_after (max k (Suc (max x y))) es"
  "nodes_after k (es @ es') = nodes_after (nodes_after k es) es'"
  by (simp_all add: nodes_after_def)

lemma nodes_after_ge: "k \<le> nodes_after k es"
proof (induction es arbitrary: k)
  case (Cons e es)
  obtain x y where e: "e = (x, y)" by (cases e)
  have "k \<le> max k (Suc (max x y))" by simp
  also have "\<dots> \<le> nodes_after (max k (Suc (max x y))) es" by (rule Cons.IH)
  finally show ?case by (simp add: e)
qed simp

lemma nodes_after_le: "k \<le> b \<Longrightarrow> \<forall>(x, y) \<in> set es. x < b \<and> y < b \<Longrightarrow> nodes_after k es \<le> b"
  by (induction es arbitrary: k) auto

lemma addEdges_ok:
  assumes "graph_of k es cs g" "\<forall>x \<in> set xs. Suc (max (f x) (h x)) < 2 ^ 32"
    and step: "\<And>x g. x \<in> set xs \<Longrightarrow> F x g = addEdge (of_nat (f x)) (of_nat (h x)) g"
  shows "\<exists>g'. foldR F xs g = Inr g'
    \<and> graph_of (nodes_after k (map (\<lambda>x. (f x, h x)) xs)) (es @ map (\<lambda>x. (f x, h x)) xs)
         (grown (nodes_after k (map (\<lambda>x. (f x, h x)) xs)) cs) g'"
  using assms
proof (induction xs arbitrary: k es cs g)
  case Nil
  then show ?case by (auto simp: graph_of_def grown_def)
next
  case (Cons x xs)
  let ?K = "max k (Suc (max (f x) (h x)))"
  obtain g1 where g1: "F x g = Inr g1" "graph_of ?K (es @ [(f x, h x)]) (grown ?K cs) g1"
    using addEdge_ok [OF Cons.prems(1), of "f x" "h x"] Cons.prems(2,3) by auto
  have k: "length cs = k" using Cons.prems(1) by (simp add: graph_of_def)
  have "grown (nodes_after ?K (map (\<lambda>x. (f x, h x)) xs)) (grown ?K cs) =
      grown (nodes_after ?K (map (\<lambda>x. (f x, h x)) xs)) cs"
    by (intro grown_grown) (simp_all add: k nodes_after_ge)
  with Cons.IH [OF g1(2)] Cons.prems(2,3) g1(1) show ?case by auto
qed

section \<open>The graph of a model\<close>

definition lit_node :: "nat \<Rightarrow> literal \<Rightarrow> nat" where
  "lit_node n l = (if isPositive l then unat (variable l) else n + unat (variable l))"

definition clause_edges :: "nat \<Rightarrow> nat \<Rightarrow> literal list \<Rightarrow> (nat \<times> nat) list" where
  "clause_edges n k c =
     (if length c = 2 then [(lit_node n (c ! 0), lit_node n (c ! 1))]
      else map (\<lambda>l. (lit_node n l, k)) c)"

definition next_clause :: "literal list \<Rightarrow> nat \<Rightarrow> nat" where
  "next_clause c k = (if length c = 2 then k else Suc k)"

fun all_clause_edges :: "nat \<Rightarrow> nat \<Rightarrow> literal list list \<Rightarrow> (nat \<times> nat) list" where
  "all_clause_edges n k [] = []"
| "all_clause_edges n k (c # cs) = clause_edges n k c @ all_clause_edges n (next_clause c k) cs"

definition consistency_edges :: "nat \<Rightarrow> (nat \<times> nat) list" where
  "consistency_edges n = map (\<lambda>v. (v, n + v)) [0..<n]"

definition model_edges :: "nat \<Rightarrow> literal list list \<Rightarrow> (nat \<times> nat) list" where
  "model_edges n cs = all_clause_edges n (2 * n) cs @ consistency_edges n"

definition clause_nodes :: "literal list list \<Rightarrow> nat" where
  "clause_nodes cs = length (filter (\<lambda>c. length c \<noteq> 2) cs)"

lemma fold_next_clause: "fold next_clause cs k = k + clause_nodes cs"
  by (induction cs arbitrary: k) (simp_all add: next_clause_def clause_nodes_def)

lemma literal2Node_ok:
  assumes "lit_below n l"
  shows "literal2Node l (of_nat n) = of_nat (lit_node n l)" "lit_node n l < 2 * n"
  using assms by (auto simp: literal2Node_def lit_node_def lit_below_def Let_def)

lemma clause_edges_below:
  assumes "\<forall>l \<in> set c. lit_below n l" "2 * n \<le> k"
  shows "\<forall>(x, y) \<in> set (clause_edges n k c). x < 2 * n \<and> y < (if length c = 2 then 2 * n else Suc k)"
proof (cases "length c = 2")
  case True
  then have "c ! 0 \<in> set c" "c ! 1 \<in> set c" by simp_all
  then show ?thesis using True literal2Node_ok(2) assms(1) by (auto simp: clause_edges_def)
next
  case False
  then show ?thesis using literal2Node_ok(2) assms by (auto simp: clause_edges_def)
qed

lemma add_clause_edges_ok:
  assumes g: "graph_of j es cs g" and c: "\<forall>l \<in> set (cl_literals c). lit_below n l"
    and sz: "cl_size c = of_nat (length (cl_literals c))" "length (cl_literals c) < 2 ^ 32"
    and k: "2 * n \<le> k" "Suc k < 2 ^ 32"
  defines "e \<equiv> clause_edges n k (cl_literals c)"
  shows "\<exists>g'. add_clause_edges (of_nat n) c (of_nat k, g) =
      Inr (of_nat (next_clause (cl_literals c) k), g')
    \<and> graph_of (nodes_after j e) (es @ e) (grown (nodes_after j e) cs) g'"
proof -
  have bin: "cl_size c = 2 \<longleftrightarrow> length (cl_literals c) = 2"
    using sz by (simp add: word_unat_eq_iff unat_of_nat)
  have n: "2 * n < 2 ^ 32" using k by simp
  show ?thesis
  proof (cases "length (cl_literals c) = 2")
    case True
    let ?a = "cl_literals c ! 0" and ?b = "cl_literals c ! 1"
    have "?a \<in> set (cl_literals c)" "?b \<in> set (cl_literals c)" using True by simp_all
    then have ab: "lit_below n ?a" "lit_below n ?b" using c by blast+
    have "Suc (max (lit_node n ?a) (lit_node n ?b)) < 2 ^ 32"
      using literal2Node_ok(2) [OF ab(1)] literal2Node_ok(2) [OF ab(2)] k by simp
    from addEdge_ok [OF g this] obtain g' where
      "addEdge (of_nat (lit_node n ?a)) (of_nat (lit_node n ?b)) g = Inr g'"
      "graph_of (nodes_after j e) (es @ e) (grown (nodes_after j e) cs) g'"
      using True by (auto simp: e_def clause_edges_def)
    then show ?thesis
      using True bin literal2Node_ok(1) [OF ab(1)] literal2Node_ok(1) [OF ab(2)]
      by (simp add: add_clause_edges_def next_clause_def)
  next
    case False
    have "\<exists>g'. foldR (\<lambda>l. addEdge (literal2Node l (of_nat n)) (of_nat k)) (cl_literals c) g = Inr g'
        \<and> graph_of (nodes_after j (map (\<lambda>l. (lit_node n l, k)) (cl_literals c)))
           (es @ map (\<lambda>l. (lit_node n l, k)) (cl_literals c))
           (grown (nodes_after j (map (\<lambda>l. (lit_node n l, k)) (cl_literals c))) cs) g'"
    proof (rule addEdges_ok [OF g])
      show "\<forall>l \<in> set (cl_literals c). Suc (max (lit_node n l) k) < 2 ^ 32"
        using literal2Node_ok(2) c k by fastforce
      show "addEdge (literal2Node l (of_nat n)) (of_nat k) g = addEdge (of_nat (lit_node n l)) (of_nat k) g"
        if "l \<in> set (cl_literals c)" for l g
        using that c literal2Node_ok(1) by simp
    qed
    then show ?thesis
      using False bin by (auto simp: add_clause_edges_def next_clause_def e_def clause_edges_def add.commute)
  qed
qed

lemma add_clauses_ok:
  assumes "graph_of j es cs g" "2 * n \<le> k" "Suc (k + clause_nodes (map cl_literals cls)) < 2 ^ 32"
    and "\<forall>c \<in> set cls. (\<forall>l \<in> set (cl_literals c). lit_below n l)
      \<and> cl_size c = of_nat (length (cl_literals c)) \<and> length (cl_literals c) < 2 ^ 32"
  defines "E \<equiv> all_clause_edges n k (map cl_literals cls)"
  shows "\<exists>g'. foldR (add_clause_edges (of_nat n)) cls (of_nat k, g) =
      Inr (of_nat (k + clause_nodes (map cl_literals cls)), g')
    \<and> graph_of (nodes_after j E) (es @ E) (grown (nodes_after j E) cs) g'"
  using assms(1-4) unfolding E_def
proof (induction cls arbitrary: j es cs g k)
  case Nil
  then show ?case by (auto simp: clause_nodes_def grown_def graph_of_def)
next
  case (Cons c cls)
  let ?c = "cl_literals c"
  let ?e = "clause_edges n k ?c"
  have k: "Suc k < 2 ^ 32" using Cons.prems(3) by simp
  have c: "\<forall>l \<in> set ?c. lit_below n l" "cl_size c = of_nat (length ?c)" "length ?c < 2 ^ 32"
    using Cons.prems(4) by auto
  obtain g1 where g1: "add_clause_edges (of_nat n) c (of_nat k, g) = Inr (of_nat (next_clause ?c k), g1)"
      "graph_of (nodes_after j ?e) (es @ ?e) (grown (nodes_after j ?e) cs) g1"
    using add_clause_edges_ok [OF Cons.prems(1) c Cons.prems(2) k] by blast
  have nc: "next_clause ?c k + clause_nodes (map cl_literals cls) =
      k + clause_nodes (map cl_literals (c # cls))"
    by (simp add: next_clause_def clause_nodes_def)
  have ge: "2 * n \<le> next_clause ?c k" using Cons.prems(2) by (simp add: next_clause_def)
  have l: "length cs \<le> nodes_after j ?e"
    using Cons.prems(1) nodes_after_ge [of j ?e] by (simp add: graph_of_def)
  obtain g2 where "foldR (add_clause_edges (of_nat n)) cls (of_nat (next_clause ?c k), g1) =
      Inr (of_nat (next_clause ?c k + clause_nodes (map cl_literals cls)), g2)"
      "graph_of (nodes_after j (?e @ all_clause_edges n (next_clause ?c k) (map cl_literals cls)))
        (es @ ?e @ all_clause_edges n (next_clause ?c k) (map cl_literals cls))
        (grown (nodes_after j (?e @ all_clause_edges n (next_clause ?c k) (map cl_literals cls))) cs) g2"
    using Cons.IH [OF g1(2) ge] Cons.prems(3,4) nc grown_grown [OF l nodes_after_ge] by auto
  then show ?case using g1(1) nc by auto
qed

lemma add_consistency_ok:
  assumes g: "graph_of j es cs g" and n: "n < 2 ^ 30"
  shows "\<exists>g'. foldR (add_consistency_edge (of_nat n)) (variables_below (of_nat n)) g = Inr g'
    \<and> graph_of (nodes_after j (consistency_edges n)) (es @ consistency_edges n)
        (grown (nodes_after j (consistency_edges n)) cs) g'"
proof -
  have u: "unat (of_nat n :: int32) = n" using n by (simp add: unat_of_nat)
  have s: "nat (sint (of_nat n :: int32)) = n"
    using sint_small [of "of_nat n :: int32"] n by (simp add: u)
  have "\<exists>g'. foldR (\<lambda>v. add_consistency_edge (of_nat n) (of_nat v)) [0..<n] g = Inr g'
    \<and> graph_of (nodes_after j (map (\<lambda>v. (v, n + v)) [0..<n])) (es @ map (\<lambda>v. (v, n + v)) [0..<n])
        (grown (nodes_after j (map (\<lambda>v. (v, n + v)) [0..<n])) cs) g'"
  proof (rule addEdges_ok [OF g])
    show "\<forall>v \<in> set [0..<n]. Suc (max v (n + v)) < 2 ^ 32" using n by auto
    show "add_consistency_edge (of_nat n) (of_nat v) g = addEdge (of_nat v) (of_nat (n + v)) g"
      if "v \<in> set [0..<n]" for v g
    proof -
      have "small_var (of_nat v :: variable)" using that n by (simp add: small_var_def unat_of_nat)
      then show ?thesis by (simp add: add_consistency_edge_def literal2Node_def Let_def)
    qed
  qed
  then show ?thesis by (simp add: variables_below_def s foldR_map consistency_edges_def)
qed

section \<open>The colours\<close>

definition lonely :: "nat \<Rightarrow> (nat \<times> nat) list \<Rightarrow> nat \<Rightarrow> bool" where
  "lonely n es v \<longleftrightarrow> length (nbrs es v) = 1 \<and> length (nbrs es (n + v)) = 1"

definition node_var :: "nat \<Rightarrow> nat \<Rightarrow> nat" where
  "node_var n i = (if i < n then i else i - n)"

text \<open>The colour of a literal: 0, or a colour of its own when its variable is in no clause.\<close>

definition lit_color :: "nat \<Rightarrow> (nat \<times> nat) list \<Rightarrow> nat \<Rightarrow> nat" where
  "lit_color n es i =
     (if lonely n es (node_var n i)
      then 2 + 2 * length (filter (lonely n es) [0..<node_var n i]) + (if i < n then 0 else 1)
      else 0)"

definition colored_upto :: "nat \<Rightarrow> (nat \<times> nat) list \<Rightarrow> nat \<Rightarrow> nat \<Rightarrow> nat list" where
  "colored_upto n es k j =
     map (\<lambda>i. if i < 2 * n \<and> node_var n i < j then lit_color n es i else 0) [0..<k]"

lemma changeColor_ok:
  assumes "graph_of k es cs g" "i < k"
  shows "\<exists>g'. changeColor (of_nat i) (of_nat c) g = Inr g' \<and> graph_of k es (cs[i := c]) g'"
proof -
  have "unat (of_nat i :: int32) = i" "i < length (gr_colors g)"
    using assms by (auto simp: graph_of_def unat_of_nat)
  then show ?thesis using assms by (auto simp: changeColor_def graph_of_def map_update)
qed

lemma length_nbrs: "length (nbrs es i) \<le> 2 * length es"
  by (induction es) auto

lemma degree_ok:
  assumes "graph_of k es cs g" "i < k" "2 * length es < 2 ^ 32"
  shows "\<exists>d. degree g (of_nat i) = Inr d \<and> (d = 1 \<longleftrightarrow> length (nbrs es i) = 1)"
proof -
  have i: "unat (of_nat i :: int32) = i" "gr_adjacency g ! i = map of_nat (nbrs es i)"
      "i < length (gr_adjacency g)"
    using assms by (auto simp: graph_of_def unat_of_nat)
  have "length (nbrs es i) < 2 ^ 32" using length_nbrs [of es i] assms(3) by simp
  then have "(of_nat (length (nbrs es i)) :: int32) = 1 \<longleftrightarrow> length (nbrs es i) = 1"
    by (simp add: word_unat_eq_iff unat_of_nat)
  with i show ?thesis by (simp add: degree_def)
qed

lemma color_variable_ok:
  assumes g: "graph_of k es (colored_upto n es k v) g" and v: "v < n" "2 * n \<le> k" "n < 2 ^ 30"
    and es: "2 * length es < 2 ^ 32"
  shows "\<exists>g'. color_variable (of_nat n) (of_nat v)
      (of_nat (2 + 2 * length (filter (lonely n es) [0..<v])), g)
      = Inr (of_nat (2 + 2 * length (filter (lonely n es) [0..<Suc v])), g')
    \<and> graph_of k es (colored_upto n es k (Suc v)) g'"
proof -
  let ?c = "2 + 2 * length (filter (lonely n es) [0..<v])"
  have sv: "small_var (of_nat v :: variable)" using v by (simp add: small_var_def unat_of_nat)
  have nodes: "literal2Node (Literal_var (of_nat v) True) (of_nat n) = of_nat v"
      "literal2Node (Literal_var (of_nat v) False) (of_nat n) = of_nat (n + v)"
    using sv by (simp_all add: literal2Node_def Let_def)
  obtain dx where dx: "degree g (of_nat v) = Inr dx" "dx = 1 \<longleftrightarrow> length (nbrs es v) = 1"
    using degree_ok [OF g _ es, of v] v by auto
  obtain dy where dy: "degree g (of_nat (n + v)) = Inr dy" "dy = 1 \<longleftrightarrow> length (nbrs es (n + v)) = 1"
    using degree_ok [OF g _ es, of "n + v"] v by auto
  have var: "node_var n i = v \<longleftrightarrow> i = v \<or> i = n + v" if "i < 2 * n" for i
    using that v by (auto simp: node_var_def)
  show ?thesis
  proof (cases "lonely n es v")
    case False
    then have "colored_upto n es k (Suc v) = colored_upto n es k v"
      using var by (auto simp: colored_upto_def lit_color_def less_Suc_eq)
    then show ?thesis
      using False dx dy g by (simp add: color_variable_def nodes lonely_def Let_def)
  next
    case True
    obtain g1 where g1: "changeColor (of_nat v) (of_nat ?c) g = Inr g1"
        "graph_of k es ((colored_upto n es k v)[v := ?c]) g1"
      using changeColor_ok [OF g, of v ?c] v by auto
    obtain g2 where g2: "changeColor (of_nat (n + v)) (of_nat (?c + 1)) g1 = Inr g2"
        "graph_of k es ((colored_upto n es k v)[v := ?c, n + v := ?c + 1]) g2"
      using changeColor_ok [OF g1(2), of "n + v" "?c + 1"] v by auto
    have "(colored_upto n es k v)[v := ?c, n + v := ?c + 1] = colored_upto n es k (Suc v)"
    proof (rule nth_equalityI)
      fix i assume "i < length ((colored_upto n es k v)[v := ?c, n + v := ?c + 1])"
      then have i: "i < k" by (simp add: colored_upto_def)
      then show "(colored_upto n es k v)[v := ?c, n + v := ?c + 1] ! i = colored_upto n es k (Suc v) ! i"
        using True v var [of i]
        by (cases "i = v"; cases "i = n + v")
          (auto simp: colored_upto_def nth_list_update lit_color_def node_var_def less_Suc_eq)
    qed (simp add: colored_upto_def)
    moreover have "(of_nat (?c + 1) :: int32) = of_nat ?c + 1" "(of_nat (Suc (Suc ?c)) :: int32) = of_nat ?c + 2"
      by simp_all
    ultimately show ?thesis
      using True dx dy g1(1) g2
      by (intro exI [of _ g2]) (simp add: color_variable_def nodes lonely_def Let_def del: of_nat_add of_nat_mult)
  qed
qed

lemma color_variables_ok:
  assumes g: "graph_of k es (replicate k 0) g" and n: "2 * n \<le> k" "n < 2 ^ 30"
    and es: "2 * length es < 2 ^ 32"
  shows "\<exists>c g'. foldR (color_variable (of_nat n)) (variables_below (of_nat n)) (kClauseColor + 1, g) = Inr (c, g')
    \<and> graph_of k es (colored_upto n es k n) g'"
proof -
  have u: "unat (of_nat n :: int32) = n" using n by (simp add: unat_of_nat)
  have s: "nat (sint (of_nat n :: int32)) = n"
    using sint_small [of "of_nat n :: int32"] n by (simp add: u)
  have start: "colored_upto n es k 0 = replicate k 0"
    by (simp add: colored_upto_def list_eq_iff_nth_eq)
  have "\<exists>g'. foldR (\<lambda>v. color_variable (of_nat n) (of_nat v)) [0..<j] (kClauseColor + 1, g) =
      Inr (of_nat (2 + 2 * length (filter (lonely n es) [0..<j])), g')
    \<and> graph_of k es (colored_upto n es k j) g'" if "j \<le> n" for j
    using that
  proof (induction j)
    case 0
    then show ?case using g start by (simp add: kClauseColor_def)
  next
    case (Suc j)
    then obtain g1 where g1: "foldR (\<lambda>v. color_variable (of_nat n) (of_nat v)) [0..<j] (kClauseColor + 1, g) =
        Inr (of_nat (2 + 2 * length (filter (lonely n es) [0..<j])), g1)"
        "graph_of k es (colored_upto n es k j) g1" by auto
    obtain g2 where "color_variable (of_nat n) (of_nat j)
        (of_nat (2 + 2 * length (filter (lonely n es) [0..<j])), g1)
        = Inr (of_nat (2 + 2 * length (filter (lonely n es) [0..<Suc j])), g2)"
        "graph_of k es (colored_upto n es k (Suc j)) g2"
      using color_variable_ok [OF g1(2) _ n es] Suc.prems by auto
    then show ?case using g1(1) unfolding upt_Suc_append [OF le0] foldR_append by simp
  qed
  from this [of n] show ?thesis by (auto simp: variables_below_def s foldR_map)
qed

definition model_colors :: "nat \<Rightarrow> (nat \<times> nat) list \<Rightarrow> nat \<Rightarrow> nat list" where
  "model_colors n es k = map (\<lambda>i. if i < 2 * n then lit_color n es i else 1) [0..<k]"

lemma color_clauses_ok:
  assumes g: "graph_of k es (colored_upto n es k n) g" and n: "2 * n \<le> k" "k < 2 ^ 32"
  shows "\<exists>g'. foldR (\<lambda>i. changeColor i kClauseColor) (map of_nat [2 * n..<k]) g = Inr g'
    \<and> graph_of k es (model_colors n es k) g'"
proof -
  define part where "part j = map (\<lambda>i. if i < 2 * n then lit_color n es i else if i < j then 1 else 0) [0..<k]" for j
  have start: "part (2 * n) = colored_upto n es k n"
    by (auto simp: part_def colored_upto_def node_var_def)
  have "\<exists>g'. foldR (\<lambda>i. changeColor (of_nat i) (of_nat 1)) [2 * n..<j] g = Inr g' \<and> graph_of k es (part j) g'"
    if "2 * n \<le> j" "j \<le> k" for j
    using that
  proof (induction j rule: dec_induct)
    case base
    then show ?case using g start by simp
  next
    case (step j)
    then obtain g1 where g1: "foldR (\<lambda>i. changeColor (of_nat i) (of_nat 1)) [2 * n..<j] g = Inr g1"
        "graph_of k es (part j) g1" by auto
    obtain g2 where "changeColor (of_nat j) (of_nat 1) g1 = Inr g2" "graph_of k es ((part j)[j := 1]) g2"
      using changeColor_ok [OF g1(2), of j 1] step by auto
    moreover have "(part j)[j := 1] = part (Suc j)"
      using step by (intro nth_equalityI) (auto simp: part_def nth_list_update)
    ultimately show ?case using g1(1) step.hyps(1) by (simp add: foldR_append)
  qed
  moreover have "part k = model_colors n es k" by (simp add: part_def model_colors_def)
  ultimately have "\<exists>g'. foldR (\<lambda>i. changeColor (of_nat i) (of_nat 1)) [2 * n..<k] g = Inr g'
      \<and> graph_of k es (model_colors n es k) g'"
    using n(1) by (metis le_refl)
  then show ?thesis by (simp add: foldR_map kClauseColor_def)
qed

section \<open>The graph of a model is exact\<close>

lemma nodes_after_contains: "(x, y) \<in> set es \<Longrightarrow> x < nodes_after k es \<and> y < nodes_after k es"
proof (induction es arbitrary: k)
  case (Cons e es)
  obtain a b where e: "e = (a, b)" by (cases e)
  show ?case
  proof (cases "(x, y) = (a, b)")
    case True
    then have "Suc (max x y) \<le> max k (Suc (max a b))" by simp
    also have "\<dots> \<le> nodes_after (max k (Suc (max a b))) es" by (rule nodes_after_ge)
    finally have "Suc (max x y) \<le> nodes_after k (e # es)" by (simp add: e)
    then show ?thesis by linarith
  next
    case False
    then show ?thesis using Cons e by auto
  qed
qed simp

lemma all_clause_edges_below:
  assumes "\<forall>c \<in> set cs. \<forall>l \<in> set c. lit_below n l" "2 * n \<le> k"
  shows "\<forall>(x, y) \<in> set (all_clause_edges n k cs). x < 2 * n \<and> y < k + clause_nodes cs"
  using assms
proof (induction cs arbitrary: k)
  case (Cons c cs)
  have k: "2 * n \<le> next_clause c k" "next_clause c k + clause_nodes cs = k + clause_nodes (c # cs)"
    using Cons.prems by (simp_all add: next_clause_def clause_nodes_def)
  have "\<forall>(x, y) \<in> set (clause_edges n k c). x < 2 * n \<and> y < k + clause_nodes (c # cs)"
    using clause_edges_below [of c n k] Cons.prems by (fastforce simp: clause_nodes_def split: if_splits)
  with Cons.IH [OF _ k(1)] Cons.prems(1) k(2) show ?case by auto
qed simp

lemma all_clause_edges_reach:
  assumes "\<forall>c \<in> set cs. c \<noteq> []" "i < clause_nodes cs"
  shows "\<exists>x. (x, k + i) \<in> set (all_clause_edges n k cs)"
  using assms
proof (induction cs arbitrary: k i)
  case (Cons c cs)
  show ?case
  proof (cases "length c = 2")
    case True
    then show ?thesis using Cons.IH [of i k] Cons.prems by (auto simp: clause_nodes_def next_clause_def)
  next
    case False
    show ?thesis
    proof (cases i)
      case 0
      then show ?thesis using False Cons.prems(1)
        by (intro exI [of _ "lit_node n (hd c)"]) (auto simp: clause_edges_def intro!: image_eqI [of _ _ "hd c"])
    next
      case (Suc j)
      then show ?thesis
        using Cons.IH [of j "Suc k"] Cons.prems False by (auto simp: clause_nodes_def next_clause_def)
    qed
  qed
qed (simp add: clause_nodes_def)

lemma nodes_after_model:
  assumes cs: "\<forall>c \<in> set cs. c \<noteq> [] \<and> (\<forall>l \<in> set c. lit_below n l)" and n: "0 < n"
  shows "nodes_after 0 (model_edges n cs) = 2 * n + clause_nodes cs"
proof (rule antisym)
  have "\<forall>(x, y) \<in> set (model_edges n cs). x < 2 * n + clause_nodes cs \<and> y < 2 * n + clause_nodes cs"
    using all_clause_edges_below [of cs n "2 * n"] cs
    by (fastforce simp: model_edges_def consistency_edges_def)
  then show "nodes_after 0 (model_edges n cs) \<le> 2 * n + clause_nodes cs"
    by (intro nodes_after_le) simp_all
  show "2 * n + clause_nodes cs \<le> nodes_after 0 (model_edges n cs)"
  proof (cases "clause_nodes cs")
    case 0
    have "(n - 1, n + (n - 1)) \<in> set (model_edges n cs)" 
      using n by (auto simp: model_edges_def consistency_edges_def)
    from nodes_after_contains [OF this, of 0] show ?thesis using 0 n by linarith
  next
    case (Suc i)
    then obtain x where "(x, 2 * n + i) \<in> set (model_edges n cs)"
      using all_clause_edges_reach [of cs i "2 * n" n] cs by (auto simp: model_edges_def)
    from nodes_after_contains [OF this, of 0] show ?thesis using Suc by simp
  qed
qed

lemma CNFGraph_assign_ok:
  assumes m: "wf_cnf hash m" "num_vars m < 2 ^ 30"
    and small: "\<forall>c \<in> set (clause_lists m). length c < 2 ^ 32"
      "2 * length (model_edges (num_vars m) (clause_lists m)) < 2 ^ 32"
      "Suc (2 * num_vars m + clause_nodes (clause_lists m)) < 2 ^ 32"
  defines "n \<equiv> num_vars m" and "es \<equiv> model_edges (num_vars m) (clause_lists m)"
    and "k \<equiv> 2 * num_vars m + clause_nodes (clause_lists m)"
  shows "\<exists>g. CNFGraph_assign CNFGraph_new m = Inr g \<and> graph_of k es (model_colors n es k) g"
proof -
  let ?cs = "clause_lists m"
  have n0: "0 < n" by (simp add: n_def num_vars_def)
  have n: "2 * n < 2 ^ 32" "n < 2 ^ 30" using m(2) by (simp_all add: n_def)
  have "CNFModel_numberOfVariables m = of_nat n"
    using numberOfVariables_num_vars [of m] m(2) by (simp add: n_def)
  then have num: "(ucast (CNFModel_numberOfVariables m) :: int32) = of_nat n"
    using n by (simp add: word_unat_eq_iff unsigned_ucast_eq unat_of_nat take_bit_nat_eq_self)
  have cs: "\<forall>c \<in> set ?cs. c \<noteq> [] \<and> (\<forall>l \<in> set c. lit_below n l)"
    using m(1) unfolding wf_cnf_def n_def by blast
  have cls: "\<forall>c \<in> set (cm_clauses m). (\<forall>l \<in> set (cl_literals c). lit_below n l)
      \<and> cl_size c = of_nat (length (cl_literals c)) \<and> length (cl_literals c) < 2 ^ 32"
    using m(1) cs small(1) by (auto simp: wf_cnf_def clause_lists_def)
  have maps: "map cl_literals (cm_clauses m) = ?cs" by (simp add: clause_lists_def)
  obtain g1 where g1: "foldR (add_clause_edges (of_nat n)) (cm_clauses m) (of_nat (2 * n), CNFGraph_new) =
      Inr (of_nat k, g1)" "graph_of (nodes_after 0 (all_clause_edges n (2 * n) ?cs))
        (all_clause_edges n (2 * n) ?cs) (grown (nodes_after 0 (all_clause_edges n (2 * n) ?cs)) []) g1"
    using add_clauses_ok [OF graph_of_new le_refl, of n "cm_clauses m"] cls small(3)
    by (auto simp: maps k_def n_def)
  let ?K = "nodes_after (nodes_after 0 (all_clause_edges n (2 * n) ?cs)) (consistency_edges n)"
  obtain g2 where g2: "foldR (add_consistency_edge (of_nat n)) (variables_below (of_nat n)) g1 = Inr g2"
      "graph_of ?K (all_clause_edges n (2 * n) ?cs @ consistency_edges n)
        (grown ?K (grown (nodes_after 0 (all_clause_edges n (2 * n) ?cs)) [])) g2"
    using add_consistency_ok [OF g1(2) n(2)] by blast
  have K: "?K = k"
    using nodes_after_model [OF cs n0] by (simp add: model_edges_def k_def n_def)
  have "grown ?K (grown (nodes_after 0 (all_clause_edges n (2 * n) ?cs)) []) = grown ?K []"
    by (rule grown_grown) (simp_all add: nodes_after_ge)
  then have g2': "graph_of k es (replicate k 0) g2"
    using g2(2) unfolding K by (simp add: es_def model_edges_def n_def grown_def)
  have es: "2 * length es < 2 ^ 32" using small(2) by (simp add: es_def)
  have k: "2 * n \<le> k" "k < 2 ^ 32" using small(3) by (simp_all add: k_def n_def)
  obtain c g3 where g3: "foldR (color_variable (of_nat n)) (variables_below (of_nat n)) (kClauseColor + 1, g2) = Inr (c, g3)"
      "graph_of k es (colored_upto n es k n) g3"
    using color_variables_ok [OF g2' k(1) n(2) es] by blast
  obtain g4 where g4: "foldR (\<lambda>i. changeColor i kClauseColor) (map of_nat [2 * n..<k]) g3 = Inr g4"
      "graph_of k es (model_colors n es k) g4"
    using color_clauses_ok [OF g3(2) k] by blast
  have u: "unat (2 * of_nat n :: int32) = 2 * n" "unat (of_nat k :: int32) = k"
    using n k by (simp_all add: unat_word_ariths unat_of_nat)
  have "CNFGraph_assign CNFGraph_new m = Inr g4"
    using g1(1) g2(1) g3(1) g4(1) by (simp add: CNFGraph_assign_def num Let_def u)
  with g4(2) show ?thesis by blast
qed

section \<open>The variables with colours of their own\<close>

definition unused_var :: "literal list list \<Rightarrow> nat \<Rightarrow> bool" where
  "unused_var cs v \<longleftrightarrow> (\<forall>c \<in> set cs. \<forall>l \<in> set c. unat (variable l) \<noteq> v)"

lemma nbrs_Nil: "nbrs es i = [] \<longleftrightarrow> (\<forall>(x, y) \<in> set es. x \<noteq> i \<and> y \<noteq> i)"
  by (auto simp: nbrs_def)

lemma nbrs_consistency:
  "v < n \<Longrightarrow> nbrs (consistency_edges n) v = [n + v] \<and> nbrs (consistency_edges n) (n + v) = [v]"
proof -
  have "nbrs (map (\<lambda>v. (v, n + v)) [0..<j]) i =
      (if i < j then [n + i] else []) @ (if n \<le> i \<and> i < n + j then [i - n] else [])" if "j \<le> n" for i j
    using that by (induction j) (auto simp: less_Suc_eq)
  from this [of n v] this [of n "n + v"] show "v < n \<Longrightarrow> ?thesis" by (simp add: consistency_edges_def)
qed

lemma clause_edges_touch:
  assumes "\<forall>l \<in> set c. lit_below n l" "2 * n \<le> k" "v < n"
  shows "nbrs (clause_edges n k c) v = [] \<and> nbrs (clause_edges n k c) (n + v) = []
    \<longleftrightarrow> (\<forall>l \<in> set c. unat (variable l) \<noteq> v)"
proof -
  have l: "lit_node n l = v \<or> lit_node n l = n + v \<longleftrightarrow> unat (variable l) = v" if "l \<in> set c" for l
    using assms(1,3) that by (auto simp: lit_node_def lit_below_def)
  show ?thesis
  proof (cases "length c = 2")
    case True
    then obtain a b where "c = [a, b]" by (auto simp: length_Suc_conv numeral_2_eq_2)
    with l show ?thesis by (auto simp: clause_edges_def nbrs_Nil)
  next
    case False
    have "k \<noteq> v" "k \<noteq> n + v" using assms(2,3) by simp_all
    with l False show ?thesis by (auto simp: clause_edges_def nbrs_Nil)
  qed
qed

lemma all_clause_edges_touch:
  assumes "\<forall>c \<in> set cs. \<forall>l \<in> set c. lit_below n l" "2 * n \<le> k" "v < n"
  shows "nbrs (all_clause_edges n k cs) v = [] \<and> nbrs (all_clause_edges n k cs) (n + v) = [] \<longleftrightarrow> unused_var cs v"
  using assms
proof (induction cs arbitrary: k)
  case (Cons c cs)
  have "2 * n \<le> next_clause c k" using Cons.prems(2) by (simp add: next_clause_def)
  with Cons.IH [OF _ this Cons.prems(3)] clause_edges_touch [of c n k v] Cons.prems
  show ?case by (auto simp: unused_var_def)
qed (simp add: unused_var_def)

lemma lonely_unused:
  assumes "\<forall>c \<in> set cs. \<forall>l \<in> set c. lit_below n l" "v < n"
  shows "lonely n (model_edges n cs) v \<longleftrightarrow> unused_var cs v"
  using all_clause_edges_touch [OF assms(1) le_refl assms(2)] nbrs_consistency [OF assms(2)]
  by (simp add: lonely_def model_edges_def)

text \<open>The colours of the literals of unused variables, in the order of the nodes.\<close>

lemma lit_color_unused:
  assumes "\<forall>c \<in> set cs. \<forall>l \<in> set c. lit_below n l" "i < 2 * n"
  shows "lit_color n (model_edges n cs) i =
    (if unused_var cs (node_var n i)
     then 2 + 2 * card {w. w < node_var n i \<and> unused_var cs w} + (if i < n then 0 else 1) else 0)"
proof -
  have v: "node_var n i < n" using assms(2) by (auto simp: node_var_def)
  then have "length (filter (lonely n (model_edges n cs)) [0..<node_var n i]) =
      length (filter (unused_var cs) [0..<node_var n i])"
    by (intro arg_cong [of _ _ length] filter_cong) (auto simp: lonely_unused [OF assms(1)])
  also have "\<dots> = card {w. w < node_var n i \<and> unused_var cs w}"
    by (subst distinct_card [symmetric]) (auto intro: arg_cong [of _ _ card])
  finally show ?thesis by (simp add: lit_color_def lonely_unused [OF assms(1) v])
qed

text \<open>No two nodes share the colour of an unused variable.\<close>

lemma unused_colors_differ:
  assumes "unused_var cs v" "unused_var cs w" "v \<noteq> w"
  shows "card {u. u < v \<and> unused_var cs u} \<noteq> card {u. u < w \<and> unused_var cs u}"
proof -
  have "card {u. u < a \<and> unused_var cs u} < card {u. u < b \<and> unused_var cs u}"
    if "a < b" "unused_var cs a" for a b
    using that by (intro psubset_card_mono) auto
  with assms show ?thesis by (metis less_irrefl linorder_neqE_nat)
qed

end
