(* ===== verification/Symmetry_Finders.thy ===== *)
theory Symmetry_Finders
  imports CNF_Graphs Symmetry_Groups
begin

text \<open>
  The classes \<open>SymmetryFinder\<close>, \<open>BlissSymmetryFinder\<close> and \<open>SaucySymmetryFinder\<close>: the graph of the
  model is handed to an external tool, and each automorphism the tool reports becomes a permutation
  of the literals, which the group keeps or ignores. The tools are the parameters \<open>bliss\<close> and
  \<open>saucy\<close>: from the graph they are given to the list of reported automorphisms, in order. Their
  documented behaviour is that every reported list is an automorphism of that graph
  (\<open>automorphism_of\<close>). The two callbacks are the same text. The loop that follows a cycle ends only
  when it comes back to its start, so it is a partial function.
\<close>

section \<open>The callbacks\<close>

definition take_node :: "int32 \<Rightarrow> int32 \<Rightarrow> permutation \<Rightarrow> permutation result" where
  "take_node nv node p =
     andThen (node2Literal node nv) (\<lambda>i.
       if i \<noteq> kNoLiteralIndex then addToCurrentCycle p (Lit i) else Inr p)"

partial_function (option) walk_cycle ::
    "int32 list \<Rightarrow> int32 \<Rightarrow> int32 \<Rightarrow> int32 \<Rightarrow> bool list \<Rightarrow> permutation
      \<Rightarrow> (bool list \<times> permutation) result option" where
  "walk_cycle aut nv i j seen p =
     (if j = i then Some (Inr (seen, p))
      else bindP (Some (vec_put seen (unat j) True)) (\<lambda>seen'.
           bindP (Some (take_node nv j p)) (\<lambda>p'.
           bindP (Some (vec_at aut (unat j))) (\<lambda>j'. walk_cycle aut nv i j' seen' p'))))"

declare walk_cycle.simps [code]

definition visit_node ::
    "int32 list \<Rightarrow> int32 \<Rightarrow> int32 \<Rightarrow> bool list \<times> permutation
      \<Rightarrow> (bool list \<times> permutation) result option" where
  "visit_node aut nv i = (\<lambda>(seen, p).
     bindP (Some (vec_at aut (unat i))) (\<lambda>a.
     if i = a then Some (Inr (seen, p))
     else bindP (Some (vec_at seen (unat i))) (\<lambda>s.
       if s then Some (Inr (seen, p))
       else
         bindP (Some (take_node nv i p)) (\<lambda>p1.
         bindP (Some (vec_put seen (unat i) True)) (\<lambda>seen1.
         bindP (walk_cycle aut nv i a seen1 p1) (\<lambda>(seen2, p2).
         bindP (Some (closeCurrentCycle p2)) (\<lambda>p3. Some (Inr (seen2, p3)))))))))"

definition on_automorphim :: "int32 list \<Rightarrow> int32 \<Rightarrow> int32 \<Rightarrow> group \<Rightarrow> group result option" where
  "on_automorphim aut n nv g =
     bindP (foldP (visit_node aut nv) (map of_nat [0..<unat n])
              (replicate (unat n) False, Permutation_new nv)) (\<lambda>(_, p).
       Some (addPermutation g (Some p)))"

text \<open>The callback for saucy also returns 1, which asks the tool to go on.\<close>

definition on_automorphism ::
    "int32 list \<Rightarrow> int32 \<Rightarrow> int32 \<Rightarrow> group \<Rightarrow> (int32 \<times> group) result option" where
  "on_automorphism aut n nv g =
     bindP (on_automorphim aut n nv g) (\<lambda>g'. Some (Inr (1, g')))"

section \<open>The finders\<close>

datatype Automorphism = BLISS | SAUCY

record symmetry_finder =
  sf_tool :: Automorphism
  sf_num_vars :: int32
  sf_graph :: cnf_graph

definition SymmetryFinder_new :: "Automorphism \<Rightarrow> cnf_model \<Rightarrow> symmetry_finder result" where
  "SymmetryFinder_new tool m =
     andThen (CNFGraph_assign CNFGraph_new m) (\<lambda>g.
       Inr \<lparr>sf_tool = tool, sf_num_vars = ucast (CNFModel_numberOfVariables m), sf_graph = g\<rparr>)"

definition SymmetryFinder_create :: "cnf_model \<Rightarrow> Automorphism \<Rightarrow> symmetry_finder result" where
  "SymmetryFinder_create m tool =
     (case tool of BLISS \<Rightarrow> SymmetryFinder_new BLISS m | SAUCY \<Rightarrow> SymmetryFinder_new SAUCY m)"

fun toolName :: "Automorphism \<Rightarrow> string" where
  "toolName BLISS = ''Bliss''"
| "toolName SAUCY = ''Saucy3''"

text \<open>The graph object of bliss: the colours set and the edges added, in the order of the calls.\<close>

record bliss_graph =
  bg_n :: int32
  bg_colors :: "int32 list"
  bg_edges :: "(int32 \<times> int32) list"

definition node_list :: "cnf_graph \<Rightarrow> int32 list" where
  "node_list g = map of_nat [0..<unat (numberOfNodes g)]"

definition bliss_change_colors :: "cnf_graph \<Rightarrow> int32 list result" where
  "bliss_change_colors g =
     foldR (\<lambda>i cs. andThen (color g i) (\<lambda>c. Inr (cs @ [c]))) (node_list g) []"

definition bliss_add_edges :: "cnf_graph \<Rightarrow> (int32 \<times> int32) list result" where
  "bliss_add_edges g =
     foldR (\<lambda>i es. andThen (neighbour g i) (\<lambda>xs. Inr (es @ map (\<lambda>x. (i, x)) xs))) (node_list g) []"

definition bliss_input :: "cnf_graph \<Rightarrow> bliss_graph result" where
  "bliss_input g =
     andThen (bliss_change_colors g) (\<lambda>cs.
     andThen (bliss_add_edges g) (\<lambda>es.
       Inr \<lparr>bg_n = numberOfNodes g, bg_colors = cs, bg_edges = es\<rparr>))"

definition Bliss_findAutomorphism ::
    "(bliss_graph \<Rightarrow> int32 list list) \<Rightarrow> symmetry_finder \<Rightarrow> group \<Rightarrow> group result option" where
  "Bliss_findAutomorphism bliss f g =
     bindP (Some (bliss_input (sf_graph f))) (\<lambda>b.
       foldP (\<lambda>aut. on_automorphim aut (bg_n b) (sf_num_vars f)) (bliss b) g)"

text \<open>The graph structure of saucy: the start of the neighbours of each node, and all neighbours.\<close>

record saucy_graph =
  sg_n :: int32
  sg_e :: int32
  sg_adj :: "int32 list"
  sg_edg :: "int32 list"
  sg_colors :: "int32 list"

definition saucy_adj :: "cnf_graph \<Rightarrow> int32 list result" where
  "saucy_adj g =
     andThen (foldR (\<lambda>i (sum, adj). andThen (degree g i) (\<lambda>d. Inr (sum + d, adj @ [sum + d])))
               (node_list g) (0, [0])) (\<lambda>(_, adj). Inr adj)"

definition saucy_edg :: "cnf_graph \<Rightarrow> int32 list result" where
  "saucy_edg g = foldR (\<lambda>i edj. andThen (neighbour g i) (\<lambda>xs. Inr (edj @ xs))) (node_list g) []"

definition saucy_input :: "cnf_graph \<Rightarrow> saucy_graph result" where
  "saucy_input g =
     andThen (saucy_adj g) (\<lambda>adj.
     andThen (saucy_edg g) (\<lambda>edj.
     andThen (bliss_change_colors g) (\<lambda>cs.
       Inr \<lparr>sg_n = numberOfNodes g, sg_e = numberOfEdges g, sg_adj = adj, sg_edg = edj, sg_colors = cs\<rparr>)))"

definition Saucy_findAutomorphism ::
    "(saucy_graph \<Rightarrow> int32 list list) \<Rightarrow> symmetry_finder \<Rightarrow> group \<Rightarrow> group result option" where
  "Saucy_findAutomorphism saucy f g =
     bindP (Some (saucy_input (sf_graph f))) (\<lambda>s.
       foldP (\<lambda>aut g. bindP (on_automorphism aut (sg_n s) (sf_num_vars f) g) (\<lambda>(_, g'). Some (Inr g')))
         (saucy s) g)"

definition findAutomorphism ::
    "(bliss_graph \<Rightarrow> int32 list list) \<Rightarrow> (saucy_graph \<Rightarrow> int32 list list) \<Rightarrow> symmetry_finder
      \<Rightarrow> group \<Rightarrow> group result option" where
  "findAutomorphism bliss saucy f g =
     (case sf_tool f of BLISS \<Rightarrow> Bliss_findAutomorphism bliss f g
      | SAUCY \<Rightarrow> Saucy_findAutomorphism saucy f g)"

section \<open>Nodes and literals\<close>

definition node_lit :: "nat \<Rightarrow> nat \<Rightarrow> literal" where
  "node_lit n j = Literal_var (of_nat (node_var n j)) (j < n)"

definition node_lits :: "nat \<Rightarrow> nat \<Rightarrow> literal list" where
  "node_lits n j = (if j < 2 * n then [node_lit n j] else [])"

lemma node_var_less: "j < 2 * n \<Longrightarrow> node_var n j < n"
  by (auto simp: node_var_def)

lemma node_lit_simps:
  assumes "n < 2 ^ 30" "j < 2 * n"
  shows "unat (variable (node_lit n j)) = node_var n j" "isPositive (node_lit n j) \<longleftrightarrow> j < n"
    and "lit_node n (node_lit n j) = j" "lit_in n (node_lit n j)"
proof -
  have v: "node_var n j < n" using assms(2) by (rule node_var_less)
  then have u: "unat (of_nat (node_var n j) :: variable) = node_var n j"
    using assms(1) by (simp add: unat_of_nat)
  then have s: "small_var (of_nat (node_var n j) :: variable)"
    using v assms(1) by (simp add: small_var_def)
  show uv: "unat (variable (node_lit n j)) = node_var n j" "isPositive (node_lit n j) \<longleftrightarrow> j < n"
    using s u by (simp_all add: node_lit_def)
  then show "lit_node n (node_lit n j) = j" using assms(2) by (auto simp: lit_node_def node_var_def)
  show "lit_in n (node_lit n j)" using uv v by (simp add: lit_in_def)
qed

lemma node_lit_node:
  assumes "n < 2 ^ 30" "lit_in n l"
  shows "node_lit n (lit_node n l) = l" "lit_node n l < 2 * n"
proof -
  show lt: "lit_node n l < 2 * n" using assms(2) by (auto simp: lit_node_def lit_in_def)
  have "unat (variable (node_lit n (lit_node n l))) = unat (variable l)"
    unfolding node_lit_simps(1) [OF assms(1) lt] using assms(2) by (auto simp: lit_node_def node_var_def lit_in_def)
  moreover have "isPositive (node_lit n (lit_node n l)) = isPositive l"
    unfolding node_lit_simps(2) [OF assms(1) lt] using assms(2) by (auto simp: lit_node_def lit_in_def)
  ultimately show "node_lit n (lit_node n l) = l" by (simp add: literal_eq_iff word_unat_eq_iff)
qed

lemma node_lit_inject:
  "n < 2 ^ 30 \<Longrightarrow> i < 2 * n \<Longrightarrow> j < 2 * n \<Longrightarrow> node_lit n i = node_lit n j \<longleftrightarrow> i = j"
  by (metis node_lit_simps(3))

lemma lit_node_negated:
  "lit_in n l \<Longrightarrow> lit_node n (negated l) = (if isPositive l then n + lit_node n l else lit_node n l - n)"
  by (auto simp: lit_node_def)

lemma signed_one_based:
  assumes "v < 2 ^ 30"
  shows "Literal_signed (of_nat v + 1) = Inr (Literal_var (of_nat v) True)"
    and "Literal_signed (- (of_nat v + 1)) = Inr (Literal_var (of_nat v) False)"
proof -
  have s: "small_var (of_nat v :: variable)" using assms by (simp add: small_var_def unat_of_nat)
  have "signedValue (Literal_var (of_nat v) True) = of_nat v + 1"
      "signedValue (Literal_var (of_nat v) False) = - (of_nat v + 1)"
    using s by (simp_all add: signedValue_variable)
  then show "Literal_signed (of_nat v + 1) = Inr (Literal_var (of_nat v) True)"
      "Literal_signed (- (of_nat v + 1)) = Inr (Literal_var (of_nat v) False)"
    using Literal_signed_signedValue [of "Literal_var (of_nat v) True"]
      Literal_signed_signedValue [of "Literal_var (of_nat v) False"] s by simp_all
qed

lemma node2Literal_ok:
  assumes "n < 2 ^ 30" "j < 2 ^ 32"
  shows "node2Literal (of_nat j) (of_nat n) =
    Inr (if j < 2 * n then index (node_lit n j) else kNoLiteralIndex)"
proof -
  have u: "unat (of_nat j :: int32) = j" "unat (of_nat n :: int32) = n" "unat (2 * of_nat n :: int32) = 2 * n"
    using assms by (simp_all add: unat_of_nat unat_word_ariths)
  have less: "(of_nat j :: int32) < of_nat n \<longleftrightarrow> j < n" "(of_nat j :: int32) < 2 * of_nat n \<longleftrightarrow> j < 2 * n"
    using u by (simp_all add: word_less_nat_alt)
  show ?thesis
  proof (cases "j < n")
    case True
    then show ?thesis
      using signed_one_based(1) [of j] assms(1) less by (simp add: node2Literal_def node_lit_def node_var_def)
  next
    case False
    have d: "(of_nat j - of_nat n + 1 :: int32) = of_nat (j - n) + 1" using False by simp
    show ?thesis
    proof (cases "j < 2 * n")
      case True
      then have "j - n < 2 ^ 30" using assms(1) by simp
      then show ?thesis
        using signed_one_based(2) [of "j - n"] False True less
        unfolding node2Literal_def d by (simp add: node_lit_def node_var_def)
    next
      case far: False
      then show ?thesis using False less by (simp add: node2Literal_def)
    qed
  qed
qed

lemma index_not_none: "n < 2 ^ 30 \<Longrightarrow> lit_in n l \<Longrightarrow> index l \<noteq> kNoLiteralIndex"
proof
  assume "n < 2 ^ 30" "lit_in n l" "index l = kNoLiteralIndex"
  have "variable (Lit kNoLiteralIndex) = -1" by code_simp
  then have "variable l = -1" using \<open>index l = kNoLiteralIndex\<close> by (metis literal.collapse)
  moreover have "small_var (variable l)" using \<open>n < 2 ^ 30\<close> \<open>lit_in n l\<close> by (rule lit_in_small)
  ultimately have "variable l = -1" "small_var (variable l)" by simp_all
  then show False by (simp add: small_var_def unsigned_minus_1_eq_mask mask_eq_exp_minus_1)
qed

lemma take_node_ok:
  assumes n: "n < 2 ^ 30" "j < 2 ^ 32" and p: "perm_repr css cur p"
    and new: "j < 2 * n \<Longrightarrow> node_lit n j \<notin> set (concat css @ cur)"
  shows "\<exists>p'. take_node (of_nat n) (of_nat j) p = Inr p' \<and> perm_repr css (cur @ node_lits n j) p'
    \<and> p_size p' = p_size p"
proof (cases "j < 2 * n")
  case True
  then have "index (node_lit n j) \<noteq> kNoLiteralIndex"
    using node_lit_simps(4) [OF n(1) True] index_not_none [OF n(1)] by blast
  moreover have "Lit (index (node_lit n j)) = node_lit n j" by simp
  ultimately show ?thesis
    using True node2Literal_ok [OF n] addToCurrentCycle_ok [OF p new [OF True]]
    by (simp add: take_node_def node_lits_def)
next
  case False
  then show ?thesis using node2Literal_ok [OF n] p by (simp add: take_node_def node_lits_def)
qed

section \<open>Following a cycle\<close>

definition node_permutation :: "nat \<Rightarrow> int32 list \<Rightarrow> bool" where
  "node_permutation k aut \<longleftrightarrow> length aut = k \<and> distinct aut \<and> (\<forall>x \<in> set aut. unat x < k) \<and> k < 2 ^ 32"

definition after :: "int32 list \<Rightarrow> nat \<Rightarrow> nat" where
  "after aut x = unat (aut ! x)"

lemma after_less: "node_permutation k aut \<Longrightarrow> x < k \<Longrightarrow> after aut x < k"
  by (simp add: node_permutation_def after_def)

lemma after_inject:
  assumes "node_permutation k aut" "x < k" "y < k"
  shows "after aut x = after aut y \<longleftrightarrow> x = y"
  using assms by (auto simp: node_permutation_def after_def word_unat_eq_iff [symmetric] nth_eq_iff_index_eq)

lemma after_onto:
  assumes "node_permutation k aut" "y < k"
  shows "\<exists>x < k. after aut x = y"
proof -
  have "inj_on (after aut) {..<k}" using after_inject [OF assms(1)] by (auto simp: inj_on_def)
  moreover have "after aut ` {..<k} \<subseteq> {..<k}" using after_less [OF assms(1)] by auto
  ultimately have "after aut ` {..<k} = {..<k}" by (intro endo_inj_surj) auto
  then show ?thesis using assms(2) by (metis imageE lessThan_iff)
qed

text \<open>A path of distinct nodes, each the image of the one before it.\<close>

definition chain :: "int32 list \<Rightarrow> nat list \<Rightarrow> bool" where
  "chain aut cs \<longleftrightarrow> cs \<noteq> [] \<and> distinct cs \<and> (\<forall>i. Suc i < length cs \<longrightarrow> cs ! Suc i = after aut (cs ! i))"

lemma chain_snoc:
  assumes "chain aut cs" "after aut (last cs) \<notin> set cs"
  shows "chain aut (cs @ [after aut (last cs)])"
  unfolding chain_def
proof (intro conjI allI impI)
  fix i assume i: "Suc i < length (cs @ [after aut (last cs)])"
  have ne: "cs \<noteq> []" using assms(1) by (simp add: chain_def)
  show "(cs @ [after aut (last cs)]) ! Suc i = after aut ((cs @ [after aut (last cs)]) ! i)"
  proof (cases "Suc i = length cs")
    case True
    then have "last cs = cs ! i" using ne by (simp add: last_conv_nth flip: True)
    then show ?thesis using True by (simp add: nth_append)
  next
    case False
    then show ?thesis using assms(1) i by (simp add: chain_def nth_append)
  qed
qed (use assms in \<open>auto simp: chain_def\<close>)

lemma chain_return:
  assumes p: "node_permutation k aut" and c: "chain aut cs" "\<forall>x \<in> set cs. x < k"
    and ret: "after aut (last cs) \<in> set cs"
  shows "after aut (last cs) = hd cs"
proof -
  obtain i where i: "i < length cs" "after aut (last cs) = cs ! i" using ret by (auto simp: in_set_conv_nth)
  show ?thesis
  proof (cases i)
    case 0
    then show ?thesis using i c(1) by (simp add: chain_def hd_conv_nth)
  next
    case (Suc j)
    then have j: "j < length cs" "cs ! i = after aut (cs ! j)" using c(1) i(1) by (auto simp: chain_def)
    then have "last cs < k" "cs ! j < k" using c by (auto simp: chain_def)
    then have "last cs = cs ! j" using after_inject [OF p] i(2) j(2) by auto
    then have "cs ! (length cs - 1) = cs ! j" using c(1) by (simp add: chain_def last_conv_nth)
    then have "length cs - 1 = j" using c(1) j(1) by (auto simp: chain_def nth_eq_iff_index_eq)
    then show ?thesis using i(1) Suc by simp
  qed
qed

text \<open>The marks of the visited nodes.\<close>

definition marks :: "nat \<Rightarrow> nat set \<Rightarrow> bool list \<Rightarrow> bool" where
  "marks k A seen \<longleftrightarrow> length seen = k \<and> (\<forall>x < k. seen ! x \<longleftrightarrow> x \<in> A)"

lemma marks_insert: "marks k A seen \<Longrightarrow> x < k \<Longrightarrow> marks k (insert x A) (seen[x := True])"
  by (auto simp: marks_def nth_list_update)

definition closed_under :: "int32 list \<Rightarrow> nat set \<Rightarrow> bool" where
  "closed_under aut A \<longleftrightarrow> (\<forall>x \<in> A. \<exists>y \<in> A. after aut y = x)"

lemma closed_under_after:
  assumes "node_permutation k aut" "closed_under aut A" "A \<subseteq> {..<k}" "x < k" "after aut x \<in> A"
  shows "x \<in> A"
proof -
  obtain y where y: "y \<in> A" "after aut y = after aut x" using assms(2,5) by (auto simp: closed_under_def)
  then have "y < k" using assms(3) by auto
  then have "y = x" using after_inject [OF assms(1)] assms(4) y(2) by blast
  then show ?thesis using y(1) by simp
qed

definition cycle_lits :: "nat \<Rightarrow> nat list \<Rightarrow> literal list" where
  "cycle_lits n cs = concat (map (node_lits n) cs)"

lemma cycle_lits_simps [simp]:
  "cycle_lits n [] = []" "cycle_lits n (c # cs) = node_lits n c @ cycle_lits n cs"
  "cycle_lits n (cs @ ds) = cycle_lits n cs @ cycle_lits n ds"
  by (simp_all add: cycle_lits_def)

lemma set_cycle_lits: "set (cycle_lits n cs) = node_lit n ` {j \<in> set cs. j < 2 * n}"
  by (induction cs) (auto simp: node_lits_def)

text \<open>
  One cycle: starting on the path \<open>cs\<close>, outside the set \<open>A\<close> of the nodes of earlier cycles, the
  loop comes back to the first node.
\<close>

lemma walk_cycle_ok:
  assumes aut: "node_permutation k aut" and n: "n < 2 ^ 30" and A: "closed_under aut A" "A \<subseteq> {..<k}"
    and css: "\<forall>l \<in> set (concat css). lit_in n l \<and> lit_node n l \<in> A"
  shows "chain aut cs \<Longrightarrow> set cs \<subseteq> {..<k} \<Longrightarrow> set cs \<inter> A = {} \<Longrightarrow> marks k (A \<union> set cs) seen \<Longrightarrow>
    perm_repr css (cycle_lits n cs) p \<Longrightarrow>
    \<exists>cs' seen' p'. walk_cycle aut (of_nat n) (of_nat (hd cs)) (of_nat (after aut (last cs))) seen p =
        Some (Inr (seen', p'))
      \<and> chain aut cs' \<and> set cs' \<subseteq> {..<k} \<and> set cs' \<inter> A = {} \<and> hd cs' = hd cs \<and> after aut (last cs') = hd cs
      \<and> marks k (A \<union> set cs') seen' \<and> perm_repr css (cycle_lits n cs') p' \<and> p_size p' = p_size p
      \<and> set cs \<subseteq> set cs'"
proof (induction "k - length cs" arbitrary: cs seen p rule: less_induct)
  case less
  let ?j = "after aut (last cs)"
  have k: "k < 2 ^ 32" using aut by (simp add: node_permutation_def)
  have ne: "cs \<noteq> []" "distinct cs" using less.prems(1) by (simp_all add: chain_def)
  then have in_k: "last cs < k" "hd cs < k" using less.prems(2) by (auto simp: subset_iff)
  then have j: "?j < k" using after_less [OF aut] by simp
  have eq: "(of_nat ?j :: int32) = of_nat (hd cs) \<longleftrightarrow> ?j = hd cs"
    using j in_k(2) k by (simp add: word_unat_eq_iff unat_of_nat)
  show ?case
  proof (cases "?j = hd cs")
    case True
    then show ?thesis using less.prems
      by (intro exI [of _ cs] exI [of _ seen] exI [of _ p]) (simp add: walk_cycle.simps)
  next
    case False
    have new: "?j \<notin> set cs" using chain_return [OF aut less.prems(1)] less.prems(2) False by blast
    have out: "?j \<notin> A"
    proof
      assume "?j \<in> A"
      then have "last cs \<in> A" using closed_under_after [OF aut A in_k(1)] by simp
      then show False using less.prems(3) last_in_set [OF ne(1)] by blast
    qed
    have uj: "unat (of_nat ?j :: int32) = ?j" using j k by (simp add: unat_of_nat)
    have fresh: "node_lit n ?j \<notin> set (concat css @ cycle_lits n cs)" if lit: "?j < 2 * n"
    proof
      assume "node_lit n ?j \<in> set (concat css @ cycle_lits n cs)"
      then consider "node_lit n ?j \<in> set (concat css)" | i where "i \<in> set cs" "i < 2 * n" "node_lit n ?j = node_lit n i"
        by (auto simp: set_cycle_lits simp del: set_concat)
      then show False
      proof cases
        case 1
        then have "lit_node n (node_lit n ?j) \<in> A" using css by blast
        then show False using out node_lit_simps(3) [OF n lit] by simp
      next
        case 2
        then show False using new node_lit_inject [OF n lit] by auto
      qed
    qed
    obtain p1 where p1: "take_node (of_nat n) (of_nat ?j) p = Inr p1"
        "perm_repr css (cycle_lits n cs @ node_lits n ?j) p1" "p_size p1 = p_size p"
      using take_node_ok [OF n _ less.prems(5), of ?j] fresh j k by auto
    let ?cs = "cs @ [?j]" and ?seen = "seen[?j := True]"
    have step: "walk_cycle aut (of_nat n) (of_nat (hd cs)) (of_nat ?j) seen p =
        walk_cycle aut (of_nat n) (of_nat (hd cs)) (of_nat (after aut ?j)) ?seen p1"
      using False eq p1(1) uj j less.prems(4) aut
      by (subst walk_cycle.simps) (simp add: marks_def node_permutation_def after_def)
    have "length cs < k"
    proof -
      have "card (set ?cs) \<le> card {..<k}" using less.prems(2) j by (intro card_mono) auto
      then show ?thesis using ne(2) new by (simp add: distinct_card)
    qed
    then have smaller: "k - length ?cs < k - length cs" by simp
    have "chain aut ?cs" by (rule chain_snoc [OF less.prems(1) new])
    moreover have "set ?cs \<subseteq> {..<k}" "set ?cs \<inter> A = {}" using less.prems(2,3) j out by auto
    moreover have "marks k (A \<union> set ?cs) ?seen" using marks_insert [OF less.prems(4) j] by simp
    moreover have "perm_repr css (cycle_lits n ?cs) p1" using p1(2) by simp
    moreover have "hd ?cs = hd cs" "last ?cs = ?j" using ne(1) by simp_all
    ultimately obtain cs' seen' p' where r:
      "walk_cycle aut (of_nat n) (of_nat (hd cs)) (of_nat (after aut ?j)) ?seen p1 = Some (Inr (seen', p'))"
      "chain aut cs'" "set cs' \<subseteq> {..<k}" "set cs' \<inter> A = {}" "hd cs' = hd cs" "after aut (last cs') = hd cs"
      "marks k (A \<union> set cs') seen'" "perm_repr css (cycle_lits n cs') p'" "p_size p' = p_size p1"
      "set ?cs \<subseteq> set cs'"
      using less.hyps [OF smaller, of ?seen p1] by metis
    then show ?thesis using step p1(3)
      by (intro exI [of _ cs'] exI [of _ seen'] exI [of _ p']) simp
  qed
qed

lemma chain_cyc_next:
  assumes aut: "node_permutation k aut" and c: "chain aut cs" "set cs \<subseteq> {..<k}" "after aut (last cs) = hd cs"
  shows "cyc_next cs x y \<longleftrightarrow> x \<in> set cs \<and> y = after aut x"
proof
  assume "cyc_next cs x y"
  then show "x \<in> set cs \<and> y = after aut x"
    using c by (auto simp: cyc_next_def next_in_def chain_def)
next
  assume x: "x \<in> set cs \<and> y = after aut x"
  then obtain i where i: "i < length cs" "x = cs ! i" by (auto simp: in_set_conv_nth)
  show "cyc_next cs x y"
  proof (cases "Suc i < length cs")
    case True
    then show ?thesis using i x c(1) unfolding cyc_next_def next_in_def chain_def by metis
  next
    case False
    then have "i = length cs - 1" using i(1) by simp
    then have "x = last cs" using i c(1) by (simp add: chain_def last_conv_nth)
    then show ?thesis using x c by (simp add: cyc_next_def chain_def)
  qed
qed

lemma cyc_next_map:
  assumes "inj_on f (set cs)" and xy: "x \<in> set cs" "y \<in> set cs"
  shows "cyc_next (map f cs) (f x) (f y) \<longleftrightarrow> cyc_next cs x y"
proof -
  have inj: "f a = f b \<longleftrightarrow> a = b" if "a \<in> set cs" "b \<in> set cs" for a b
    using assms(1) that by (auto simp: inj_on_def)
  have "f x = map f cs ! j \<longleftrightarrow> x = cs ! j" "f y = map f cs ! j \<longleftrightarrow> y = cs ! j" if "j < length cs" for j
    using inj that xy by simp_all
  then have "next_in (map f cs) (f x) (f y) \<longleftrightarrow> next_in cs x y"
    unfolding next_in_def by (metis (no_types, lifting) Suc_lessD length_map)
  moreover have "cs \<noteq> [] \<Longrightarrow> f x = last (map f cs) \<longleftrightarrow> x = last cs"
      "cs \<noteq> [] \<Longrightarrow> f y = hd (map f cs) \<longleftrightarrow> y = hd cs"
    using inj xy by (auto simp: last_map hd_map)
  ultimately show ?thesis by (auto simp: cyc_next_def)
qed

section \<open>All cycles\<close>

text \<open>The automorphism does not mix literals and clauses.\<close>

definition respects_literals :: "nat \<Rightarrow> nat \<Rightarrow> int32 list \<Rightarrow> bool" where
  "respects_literals n k aut \<longleftrightarrow> 2 * n \<le> k \<and> (\<forall>x < k. after aut x < 2 * n \<longleftrightarrow> x < 2 * n)"

text \<open>\<open>ncs\<close> are the cycles found so far, and \<open>p\<close> holds those of literals.\<close>

definition lit_cycles :: "nat \<Rightarrow> nat list list \<Rightarrow> literal list list" where
  "lit_cycles n ncs = map (map (node_lit n)) (filter (\<lambda>c. hd c < 2 * n) ncs)"

definition found :: "nat \<Rightarrow> nat \<Rightarrow> int32 list \<Rightarrow> nat list list \<Rightarrow> bool list \<Rightarrow> permutation \<Rightarrow> bool" where
  "found n k aut ncs seen p \<longleftrightarrow>
     (\<forall>c \<in> set ncs. chain aut c \<and> 2 \<le> length c \<and> set c \<subseteq> {..<k} \<and> after aut (last c) = hd c)
     \<and> distinct (concat ncs) \<and> marks k (set (concat ncs)) seen
     \<and> perm_repr (lit_cycles n ncs) [] p"

lemma same_kind:
  assumes "respects_literals n k aut" "chain aut c" "set c \<subseteq> {..<k}" "x \<in> set c"
  shows "x < 2 * n \<longleftrightarrow> hd c < 2 * n"
proof -
  have "c ! i < 2 * n \<longleftrightarrow> hd c < 2 * n" if "i < length c" for i
    using that
  proof (induction i)
    case 0
    then show ?case using assms(2) by (simp add: chain_def hd_conv_nth)
  next
    case (Suc i)
    then have "c ! i < k" using assms(3) by (metis Suc_lessD lessThan_iff nth_mem subsetD)
    then show ?case using Suc assms(1,2) by (simp add: chain_def respects_literals_def)
  qed
  then show ?thesis using assms(4) by (metis in_set_conv_nth)
qed

lemma cycle_lits_kind:
  assumes "respects_literals n k aut" "chain aut c" "set c \<subseteq> {..<k}"
  shows "cycle_lits n c = (if hd c < 2 * n then map (node_lit n) c else [])"
proof -
  have "cycle_lits n ds = (if hd c < 2 * n then map (node_lit n) ds else [])" if "set ds \<subseteq> set c" for ds
    using that
  proof (induction ds)
    case (Cons x ds)
    then have "x < 2 * n \<longleftrightarrow> hd c < 2 * n" using same_kind [OF assms, of x] by simp
    with Cons show ?case by (simp add: node_lits_def)
  qed simp
  then show ?thesis by blast
qed

lemma found_closed:
  assumes "found n k aut ncs seen p"
  shows "closed_under aut (set (concat ncs))" "set (concat ncs) \<subseteq> {..<k}"
proof -
  show "set (concat ncs) \<subseteq> {..<k}" using assms by (auto simp: found_def)
  show "closed_under aut (set (concat ncs))"
    unfolding closed_under_def
  proof
    fix x assume "x \<in> set (concat ncs)"
    then obtain c where c: "c \<in> set ncs" "x \<in> set c" by auto
    then have ch: "chain aut c" "after aut (last c) = hd c" using assms by (auto simp: found_def)
    obtain i where i: "i < length c" "x = c ! i" using c(2) by (auto simp: in_set_conv_nth)
    have "\<exists>y \<in> set c. after aut y = x"
    proof (cases i)
      case 0
      then have "after aut (last c) = x" using ch i by (simp add: chain_def hd_conv_nth)
      then show ?thesis using ch(1) by (auto simp: chain_def)
    next
      case (Suc j)
      then have "after aut (c ! j) = x" using ch(1) i by (simp add: chain_def)
      then show ?thesis using Suc i(1) by auto
    qed
    then show "\<exists>y \<in> set (concat ncs). after aut y = x" using c(1) by auto
  qed
qed

lemma visit_node_ok:
  assumes aut: "node_permutation k aut" and n: "n < 2 ^ 30" and kinds: "respects_literals n k aut"
    and f: "found n k aut ncs seen p" and i: "i < k"
  shows "\<exists>ncs' seen' p'. visit_node aut (of_nat n) (of_nat i) (seen, p) = Some (Inr (seen', p'))
    \<and> found n k aut ncs' seen' p' \<and> p_size p' = p_size p
    \<and> set (concat ncs) \<subseteq> set (concat ncs') \<and> (after aut i \<noteq> i \<longrightarrow> i \<in> set (concat ncs'))"
proof -
  have k: "k < 2 ^ 32" "length aut = k" using aut by (simp_all add: node_permutation_def)
  have ui: "unat (of_nat i :: int32) = i" using i k by (simp add: unat_of_nat)
  have eq: "(of_nat i :: int32) = aut ! i \<longleftrightarrow> after aut i = i"
    using ui by (auto simp: after_def word_unat_eq_iff)
  let ?A = "set (concat ncs)"
  have m: "marks k ?A seen" using f by (simp add: found_def)
  show ?thesis
  proof (cases "after aut i = i \<or> i \<in> ?A")
    case True
    then have "visit_node aut (of_nat n) (of_nat i) (seen, p) = Some (Inr (seen, p))"
      using ui i k(2) eq m by (auto simp: visit_node_def marks_def)
    then show ?thesis using f True by (intro exI [of _ ncs] exI [of _ seen] exI [of _ p]) auto
  next
    case False
    note cl = found_closed [OF f]
    have r: "perm_repr (lit_cycles n ncs) [] p" using f by (simp add: found_def)
    have css: "\<forall>l \<in> set (concat (lit_cycles n ncs)). lit_in n l \<and> lit_node n l \<in> ?A"
    proof
      fix l assume "l \<in> set (concat (lit_cycles n ncs))"
      then obtain c x where c: "c \<in> set ncs" "hd c < 2 * n" "x \<in> set c" "l = node_lit n x"
        by (auto simp: lit_cycles_def)
      then have "chain aut c" "set c \<subseteq> {..<k}" using f by (auto simp: found_def)
      then have x: "x < 2 * n" using same_kind [OF kinds _ _ c(3)] c(2) by blast
      then show "lit_in n l \<and> lit_node n l \<in> ?A"
        using node_lit_simps(3,4) [OF n x] c(1,3,4) by auto
    qed
    have fresh: "node_lit n i \<notin> set (concat (lit_cycles n ncs) @ [])" if "i < 2 * n"
    proof
      assume "node_lit n i \<in> set (concat (lit_cycles n ncs) @ [])"
      then have "node_lit n i \<in> set (concat (lit_cycles n ncs))" by simp
      with css have "lit_node n (node_lit n i) \<in> ?A" by blast
      then show False using node_lit_simps(3) [OF n that] False by simp
    qed
    obtain p1 where p1: "take_node (of_nat n) (of_nat i) p = Inr p1"
        "perm_repr (lit_cycles n ncs) ([] @ node_lits n i) p1" "p_size p1 = p_size p"
      using take_node_ok [OF n _ r fresh] i k(1) by auto
    let ?seen = "seen[i := True]"
    have c0: "chain aut [i]" "set [i] \<subseteq> {..<k}" "set [i] \<inter> ?A = {}" "marks k (?A \<union> set [i]) ?seen"
        "perm_repr (lit_cycles n ncs) (cycle_lits n [i]) p1"
      using False i m p1(2) marks_insert [OF m i] by (auto simp: chain_def)
    obtain cs seen2 p2 where w:
      "walk_cycle aut (of_nat n) (of_nat i) (of_nat (after aut i)) ?seen p1 = Some (Inr (seen2, p2))"
      "chain aut cs" "set cs \<subseteq> {..<k}" "set cs \<inter> ?A = {}" "hd cs = i" "after aut (last cs) = i"
      "marks k (?A \<union> set cs) seen2" "perm_repr (lit_cycles n ncs) (cycle_lits n cs) p2" "p_size p2 = p_size p1"
      using walk_cycle_ok [OF aut n cl css c0] by auto
    have two: "2 \<le> length cs"
    proof (rule ccontr)
      assume "\<not> 2 \<le> length cs"
      then have "cs = [hd cs]" using w(2) by (cases cs; cases "tl cs") (auto simp: chain_def)
      then have "last cs = hd cs" by (metis last.simps)
      then show False using w(5,6) False by simp
    qed
    obtain p3 where p3: "closeCurrentCycle p2 = Inr p3" "perm_repr (lit_cycles n (ncs @ [cs])) [] p3"
        "p_size p3 = p_size p2"
    proof (cases "i < 2 * n")
      case True
      then have cl': "cycle_lits n cs = map (node_lit n) cs" using cycle_lits_kind [OF kinds w(2,3)] w(5) by simp
      obtain p3 where "closeCurrentCycle p2 = Inr p3" "perm_repr (lit_cycles n ncs @ [map (node_lit n) cs]) [] p3"
          "p_size p3 = p_size p2"
        using closeCurrentCycle_ok [OF w(8)] two unfolding cl' by auto
      then show ?thesis using True w(5) that by (simp add: lit_cycles_def)
    next
      case clause: False
      then have cl': "cycle_lits n cs = []" using cycle_lits_kind [OF kinds w(2,3)] w(5) by simp
      then have "closeCurrentCycle p2 = Inr p2" using close_cycle_cases [OF w(8)] by simp
      then show ?thesis using clause w(5,8) cl' that by (simp add: lit_cycles_def)
    qed
    have "found n k aut (ncs @ [cs]) seen2 p3"
      using f w(2-7) two p3(2) by (auto simp: found_def chain_def)
    moreover have "visit_node aut (of_nat n) (of_nat i) (seen, p) = Some (Inr (seen2, p3))"
      using False ui i k(2) eq m p1(1) w(1) p3(1) by (auto simp: visit_node_def marks_def after_def)
    moreover have "i \<in> set cs" using w(2,5) by (auto simp: chain_def)
    ultimately show ?thesis
      using p1(3) w(9) p3(3) by (intro exI [of _ "ncs @ [cs]"] exI [of _ seen2] exI [of _ p3]) auto
  qed
qed

text \<open>The permutation a callback builds acts on a literal as the automorphism acts on its node.\<close>

definition acts_as :: "nat \<Rightarrow> nat \<Rightarrow> int32 list \<Rightarrow> permutation \<Rightarrow> bool" where
  "acts_as n k aut p \<longleftrightarrow> perm_in n p \<and> (\<forall>x < 2 * n. act p (node_lit n x) = node_lit n (after aut x))"

lemma found_image:
  assumes aut: "node_permutation k aut" and n: "n < 2 ^ 30" and kinds: "respects_literals n k aut"
    and f: "found n k aut ncs seen p" and c: "c \<in> set ncs" "x \<in> set c" "x < 2 * n"
  shows "p_image p (node_lit n x) = Some (node_lit n (after aut x))"
proof -
  have ch: "chain aut c" "set c \<subseteq> {..<k}" "after aut (last c) = hd c" "perm_repr (lit_cycles n ncs) [] p"
    using f c(1) by (auto simp: found_def)
  have lits: "\<forall>y \<in> set c. y < 2 * n" "hd c < 2 * n" using same_kind [OF kinds ch(1,2)] c(2,3) by blast+
  have nx: "cyc_next c x (after aut x)" using chain_cyc_next [OF aut ch(1-3)] c(2) by blast
  then have y: "after aut x \<in> set c" using cyc_next_set by fastforce
  have "inj_on (node_lit n) (set c)" using lits(1) node_lit_inject [OF n] by (auto simp: inj_on_def)
  from cyc_next_map [OF this c(2) y] nx
  have "cyc_next (map (node_lit n) c) (node_lit n x) (node_lit n (after aut x))" by simp
  moreover have "map (node_lit n) c \<in> set (lit_cycles n ncs)"
    using c(1) lits(2) by (auto simp: lit_cycles_def)
  ultimately have "step_of (lit_cycles n ncs) [] (node_lit n x) (node_lit n (after aut x))"
    by (auto simp: step_of_def)
  then show ?thesis using ch(4) by (simp add: perm_repr_def)
qed

lemma found_acts:
  assumes aut: "node_permutation k aut" and n: "n < 2 ^ 30" and kinds: "respects_literals n k aut"
    and f: "found n k aut ncs seen p" and all: "\<forall>i < k. after aut i \<noteq> i \<longrightarrow> i \<in> set (concat ncs)"
    and sz: "unat (p_size p) = n"
  shows "acts_as n k aut p"
proof -
  have r: "perm_repr (lit_cycles n ncs) [] p" using f by (simp add: found_def)
  then have wf: "perm_wf p" by (auto simp: perm_wf_def)
  have cyc: "set (p_cycles p) = (\<Union>c \<in> set (lit_cycles n ncs). set c)" using r by (rule cycles_cover)
  have lit: "\<exists>c x. c \<in> set ncs \<and> x \<in> set c \<and> x < 2 * n \<and> l = node_lit n x" if "l \<in> set (p_cycles p)" for l
  proof -
    from that cyc obtain c x where c: "c \<in> set ncs" "hd c < 2 * n" "x \<in> set c" "l = node_lit n x"
      by (auto simp: lit_cycles_def)
    then have "chain aut c" "set c \<subseteq> {..<k}" using f by (auto simp: found_def)
    then have "x < 2 * n" using same_kind [OF kinds _ _ c(3)] c(2) by blast
    with c show ?thesis by blast
  qed
  have "lit_in n l" if "l \<in> set (p_cycles p)" for l
    using lit [OF that] node_lit_simps(4) [OF n] by blast
  then have pin: "perm_in n p" using wf sz by (simp add: perm_in_def)
  have "act p (node_lit n x) = node_lit n (after aut x)" if x: "x < 2 * n" for x
  proof (cases "x \<in> set (concat ncs)")
    case True
    then obtain c where "c \<in> set ncs" "x \<in> set c" by auto
    then show ?thesis using found_image [OF aut n kinds f _ _ x] by (simp add: act_def)
  next
    case False
    have "x < k" using x kinds by (simp add: respects_literals_def)
    with False have stays: "after aut x = x" using all by blast
    have "node_lit n x \<notin> set (p_cycles p)"
    proof
      assume "node_lit n x \<in> set (p_cycles p)"
      from lit [OF this] obtain c y where c: "c \<in> set ncs" "y \<in> set c" "y < 2 * n" "node_lit n x = node_lit n y"
        by blast
      then have "x = y" using node_lit_inject [OF n x, of y] by simp
      then show False using c False by auto
    qed
    then have "p_image p (node_lit n x) = None" using perm_image_dom [OF wf, of "node_lit n x"] by simp
    then show ?thesis using stays by (simp add: act_def)
  qed
  then show ?thesis using pin by (simp add: acts_as_def)
qed

lemma on_automorphim_ok:
  assumes aut: "node_permutation k aut" and n: "n < 2 ^ 30" and kinds: "respects_literals n k aut"
    and g: "wf_group n g"
  shows "\<exists>p g'. on_automorphim aut (of_nat k) (of_nat n) g = Some (Inr g') \<and> acts_as n k aut p
    \<and> wf_group n g' \<and> g_permutations g' =
      (if p_cycles p \<noteq> [] \<and> signed_perm p then g_permutations g @ [p] else g_permutations g)"
proof -
  have k: "k < 2 ^ 32" using aut by (simp add: node_permutation_def)
  define P where "P = (\<lambda>(pre :: int32 list) s. \<exists>ncs. found n k aut ncs (fst s) (snd s) \<and> p_size (snd s) = of_nat n
    \<and> (\<forall>i \<in> unat ` set pre. after aut i \<noteq> i \<longrightarrow> i \<in> set (concat ncs)))"
  have "\<exists>s. foldP (visit_node aut (of_nat n)) (map of_nat [0..<k])
      (replicate k False, Permutation_new (of_nat n)) = Some (Inr s) \<and> P (map of_nat [0..<k] :: int32 list) s"
  proof (rule foldP_total)
    have "found n k aut [] (replicate k False) (Permutation_new (of_nat n))"
      by (simp add: found_def marks_def lit_cycles_def perm_repr_new)
    then show "P [] (replicate k False, Permutation_new (of_nat n))"
      by (auto simp: P_def Permutation_new_def intro!: exI [of _ "[]"])
  next
    fix pre x post s
    assume eq: "map of_nat [0..<k] = pre @ (x :: int32) # post" and "P pre s"
    then obtain ncs where f: "found n k aut ncs (fst s) (snd s)" "p_size (snd s) = of_nat n"
        "\<forall>i \<in> unat ` set pre. after aut i \<noteq> i \<longrightarrow> i \<in> set (concat ncs)" by (auto simp: P_def)
    have "x \<in> set (map of_nat [0..<k])" unfolding eq by simp
    then obtain i where i: "i < k" "x = of_nat i" by auto
    then have ui: "unat x = i" using k by (simp add: unat_of_nat)
    obtain ncs' seen' p' where v: "visit_node aut (of_nat n) x (fst s, snd s) = Some (Inr (seen', p'))"
        "found n k aut ncs' seen' p'" "p_size p' = p_size (snd s)"
        "set (concat ncs) \<subseteq> set (concat ncs')" "after aut i \<noteq> i \<longrightarrow> i \<in> set (concat ncs')"
      using visit_node_ok [OF aut n kinds f(1) i(1)] i(2) by blast
    have "P (pre @ [x]) (seen', p')"
      unfolding P_def
    proof (intro exI [of _ ncs'] conjI ballI impI)
      show "found n k aut ncs' (fst (seen', p')) (snd (seen', p'))" using v(2) by simp
      show "p_size (snd (seen', p')) = of_nat n" using v(3) f(2) by simp
      fix j assume "j \<in> unat ` set (pre @ [x])" "after aut j \<noteq> j"
      then show "j \<in> set (concat ncs')" using f(3) v(4,5) ui by auto
    qed
    then show "\<exists>s'. visit_node aut (of_nat n) x s = Some (Inr s') \<and> P (pre @ [x]) s'"
      using v(1) by (intro exI [of _ "(seen', p')"]) simp
  qed
  then obtain seen p ncs where s: "foldP (visit_node aut (of_nat n)) (map of_nat [0..<k])
      (replicate k False, Permutation_new (of_nat n)) = Some (Inr (seen, p))"
      "found n k aut ncs seen p" "p_size p = of_nat n"
      "\<forall>i \<in> unat ` set (map of_nat [0..<k] :: int32 list). after aut i \<noteq> i \<longrightarrow> i \<in> set (concat ncs)"
    by (auto simp: P_def)
  have "\<forall>i < k. i \<in> unat ` set (map of_nat [0..<k] :: int32 list)"
    using k by (auto simp: unat_of_nat image_iff intro!: bexI)
  then have all: "\<forall>i < k. after aut i \<noteq> i \<longrightarrow> i \<in> set (concat ncs)" using s(4) by blast
  have "unat (p_size p) = n" using s(3) n by (simp add: unat_of_nat)
  then have acts: "acts_as n k aut p" by (rule found_acts [OF aut n kinds s(2) all])
  then have "perm_in n p" by (simp add: acts_as_def)
  from addPermutation_ok [OF g this] obtain g' where "addPermutation g (Some p) = Inr g'" "wf_group n g'"
      "g_permutations g' = (if p_cycles p \<noteq> [] \<and> signed_perm p then g_permutations g @ [p] else g_permutations g)"
    by blast
  moreover have "unat (of_nat k :: int32) = k" using k by (simp add: unat_of_nat)
  ultimately show ?thesis using s(1) acts by (auto simp: on_automorphim_def)
qed

section \<open>Automorphisms of the graph are symmetries of the clauses\<close>

definition adjacent :: "(nat \<times> nat) list \<Rightarrow> nat \<Rightarrow> nat \<Rightarrow> bool" where
  "adjacent es x y \<longleftrightarrow> (x, y) \<in> set es \<or> (y, x) \<in> set es"

definition automorphism_of :: "nat \<Rightarrow> (nat \<times> nat) list \<Rightarrow> nat list \<Rightarrow> int32 list \<Rightarrow> bool" where
  "automorphism_of k es cs aut \<longleftrightarrow> node_permutation k aut
     \<and> (\<forall>x < k. cs ! after aut x = cs ! x)
     \<and> (\<forall>x < k. \<forall>y < k. adjacent es (after aut x) (after aut y) \<longleftrightarrow> adjacent es x y)"

lemma lit_color_not_clause: "lit_color n es i \<noteq> 1"
  by (simp add: lit_color_def)

lemma automorphism_kinds:
  assumes "automorphism_of k es (model_colors n es k) aut" "2 * n \<le> k"
  shows "respects_literals n k aut"
proof -
  have "after aut x < 2 * n \<longleftrightarrow> x < 2 * n" if x: "x < k" for x
  proof -
    have a: "after aut x < k" using after_less [of k aut x] assms(1) x by (simp add: automorphism_of_def)
    have "model_colors n es k ! after aut x = model_colors n es k ! x"
      using assms(1) x by (simp add: automorphism_of_def)
    then show ?thesis
      using a x lit_color_not_clause [of n es x] lit_color_not_clause [of n es "after aut x"]
      by (cases "x < 2 * n"; cases "after aut x < 2 * n") (simp_all add: model_colors_def)
  qed
  then show ?thesis using assms(2) by (simp add: respects_literals_def)
qed

text \<open>The node of a clause that is not binary, and the literals next to it.\<close>

fun clause_node :: "nat \<Rightarrow> literal list list \<Rightarrow> literal list \<Rightarrow> nat \<Rightarrow> bool" where
  "clause_node k [] c i = False"
| "clause_node k (d # cs) c i =
     ((length d \<noteq> 2 \<and> c = d \<and> i = k) \<or> clause_node (next_clause d k) cs c i)"

lemma clause_node_range: "clause_node k cs c i \<Longrightarrow> k \<le> i \<and> i < k + clause_nodes cs \<and> c \<in> set cs \<and> length c \<noteq> 2"
  by (induction cs arbitrary: k) (fastforce simp: next_clause_def clause_nodes_def split: if_splits)+

lemma clause_node_ex: "c \<in> set cs \<Longrightarrow> length c \<noteq> 2 \<Longrightarrow> \<exists>i. clause_node k cs c i"
  by (induction cs arbitrary: k) (simp, metis clause_node.simps(2) set_ConsD)

lemma clause_node_all: "k \<le> i \<Longrightarrow> i < k + clause_nodes cs \<Longrightarrow> \<exists>c. clause_node k cs c i"
proof (induction cs arbitrary: k)
  case (Cons d cs)
  show ?case
  proof (cases "length d = 2")
    case True
    then show ?thesis using Cons by (auto simp: next_clause_def clause_nodes_def)
  next
    case False
    then show ?thesis using Cons by (cases "i = k") (auto simp: next_clause_def clause_nodes_def)
  qed
qed (simp add: clause_nodes_def)

lemma clause_node_unique: "clause_node k cs c i \<Longrightarrow> clause_node k cs d i \<Longrightarrow> c = d"
proof (induction cs arbitrary: k)
  case (Cons e cs)
  have "\<not> clause_node (Suc k) cs x k" for x using clause_node_range [of "Suc k" cs x k] by auto
  with Cons show ?case by (auto simp: next_clause_def split: if_splits)
qed simp

text \<open>The edges of the clauses, by kind.\<close>

lemma all_clause_edges_iff:
  assumes "\<forall>c \<in> set cs. \<forall>l \<in> set c. lit_below n l" "2 * n \<le> k"
  shows "(x, y) \<in> set (all_clause_edges n k cs) \<longleftrightarrow>
    (\<exists>c \<in> set cs. length c = 2 \<and> x = lit_node n (c ! 0) \<and> y = lit_node n (c ! 1))
    \<or> (\<exists>c l. clause_node k cs c y \<and> l \<in> set c \<and> x = lit_node n l)"
  using assms
proof (induction cs arbitrary: k)
  case (Cons d cs)
  have k: "2 * n \<le> next_clause d k" using Cons.prems(2) by (simp add: next_clause_def)
  show ?case using Cons.IH [OF _ k] Cons.prems(1)
    by (cases "length d = 2") (auto simp: clause_edges_def next_clause_def)
qed simp

definition plain_clauses :: "nat \<Rightarrow> literal list list \<Rightarrow> bool" where
  "plain_clauses n cs \<longleftrightarrow> (\<forall>c \<in> set cs. c \<noteq> [] \<and> distinct c \<and> (\<forall>l \<in> set c. lit_below n l \<and> negated l \<notin> set c))"

lemma adjacent_clause:
  assumes cs: "plain_clauses n cs" and i: "clause_node (2 * n) cs c i" and x: "x < 2 * n"
  shows "adjacent (model_edges n cs) x i \<longleftrightarrow> x \<in> lit_node n ` set c"
proof -
  have lits: "\<forall>c \<in> set cs. \<forall>l \<in> set c. lit_below n l" using cs by (simp add: plain_clauses_def)
  note e = all_clause_edges_iff [OF lits le_refl]
  have i2: "2 * n \<le> i" using clause_node_range [OF i] by simp
  have low: "lit_node n (d ! j) < 2 * n" if "d \<in> set cs" "length d = 2" "j < 2" for d j
    using literal2Node_ok(2) lits that by (metis nth_mem)
  have "(i, x) \<notin> set (all_clause_edges n (2 * n) cs)"
    using all_clause_edges_below [OF lits le_refl] i2 by fastforce
  moreover have "(i, x) \<notin> set (consistency_edges n)" "(x, i) \<notin> set (consistency_edges n)"
    using i2 by (auto simp: consistency_edges_def)
  moreover have "(x, i) \<in> set (all_clause_edges n (2 * n) cs) \<longleftrightarrow> x \<in> lit_node n ` set c"
  proof -
    have "\<not> (\<exists>d \<in> set cs. length d = 2 \<and> x = lit_node n (d ! 0) \<and> i = lit_node n (d ! 1))"
      using low [of _ 1] i2 by force
    moreover have "(\<exists>d l. clause_node (2 * n) cs d i \<and> l \<in> set d \<and> x = lit_node n l) \<longleftrightarrow> x \<in> lit_node n ` set c"
      using clause_node_unique [OF i] i by blast
    ultimately show ?thesis unfolding e by blast
  qed
  ultimately show ?thesis by (simp add: adjacent_def model_edges_def)
qed

lemma adjacent_literals:
  assumes cs: "plain_clauses n cs" and xy: "x < 2 * n" "y < 2 * n"
  shows "adjacent (model_edges n cs) x y \<longleftrightarrow>
    (y = n + x \<or> x = n + y) \<or> (\<exists>c \<in> set cs. length c = 2 \<and> {x, y} = lit_node n ` set c \<and> x \<noteq> y)"
proof -
  have lits: "\<forall>c \<in> set cs. \<forall>l \<in> set c. lit_below n l" using cs by (simp add: plain_clauses_def)
  note e = all_clause_edges_iff [OF lits le_refl]
  have no: "\<not> clause_node (2 * n) cs c z" if "z < 2 * n" for c z
    using clause_node_range [of "2 * n" cs c z] that by auto
  have pair: "(\<exists>c \<in> set cs. length c = 2 \<and> x = lit_node n (c ! 0) \<and> y = lit_node n (c ! 1))
      \<or> (\<exists>c \<in> set cs. length c = 2 \<and> y = lit_node n (c ! 0) \<and> x = lit_node n (c ! 1))
      \<longleftrightarrow> (\<exists>c \<in> set cs. length c = 2 \<and> {x, y} = lit_node n ` set c \<and> x \<noteq> y)" (is "?l \<longleftrightarrow> ?r")
  proof -
    have "(x = lit_node n (c ! 0) \<and> y = lit_node n (c ! 1)) \<or> (y = lit_node n (c ! 0) \<and> x = lit_node n (c ! 1))
        \<longleftrightarrow> {x, y} = lit_node n ` set c \<and> x \<noteq> y" if c: "c \<in> set cs" "length c = 2" for c
    proof -
      obtain a b where ab: "c = [a, b]" using c(2) by (metis (no_types, opaque_lifting) Suc_length_conv length_0_conv numeral_2_eq_2)
      have "a \<noteq> b" "lit_below n a" "lit_below n b" using cs c(1) ab by (auto simp: plain_clauses_def)
      then have "lit_node n a \<noteq> lit_node n b"
        by (auto simp: lit_node_def lit_below_def literal_eq_iff word_unat_eq_iff split: if_splits)
      then show ?thesis using ab by (auto simp: doubleton_eq_iff)
    qed
    then show ?thesis by blast
  qed
  have c: "(x, y) \<in> set (consistency_edges n) \<or> (y, x) \<in> set (consistency_edges n) \<longleftrightarrow> y = n + x \<or> x = n + y"
    using xy by (auto simp: consistency_edges_def)
  have "adjacent (model_edges n cs) x y \<longleftrightarrow>
      ((x, y) \<in> set (all_clause_edges n (2 * n) cs) \<or> (y, x) \<in> set (all_clause_edges n (2 * n) cs))
      \<or> ((x, y) \<in> set (consistency_edges n) \<or> (y, x) \<in> set (consistency_edges n))"
    by (simp add: adjacent_def model_edges_def disj_ac)
  moreover have "(x, y) \<in> set (all_clause_edges n (2 * n) cs) \<or> (y, x) \<in> set (all_clause_edges n (2 * n) cs)
      \<longleftrightarrow> (\<exists>c \<in> set cs. length c = 2 \<and> {x, y} = lit_node n ` set c \<and> x \<noteq> y)"
    unfolding e pair [symmetric] by (simp add: no xy)
  ultimately show ?thesis using c by argo
qed

lemma node_lit_partner: "n < 2 ^ 30 \<Longrightarrow> x < n \<Longrightarrow> node_lit n (n + x) = negated (node_lit n x)"
  by (simp add: node_lit_def node_var_def)

lemma lit_below_in: "lit_below n l \<Longrightarrow> lit_in n l"
  by (simp add: lit_below_def lit_in_def)

lemma image_clause:
  assumes n: "n < 2 ^ 30" and a: "acts_as n k aut p" and cs: "plain_clauses n cs" "c \<in> set cs" "d \<in> set cs"
    and eq: "lit_node n ` set c = after aut ` lit_node n ` set d"
  shows "set c = act p ` set d"
proof -
  have again: "node_lit n ` lit_node n ` set e = set e" if "e \<in> set cs" for e
  proof -
    have "node_lit n (lit_node n l) = l" if "l \<in> set e" for l
      using cs(1) \<open>e \<in> set cs\<close> that node_lit_node(1) [OF n lit_below_in] by (auto simp: plain_clauses_def)
    then show ?thesis by (auto simp: image_image)
  qed
  have "lit_node n l < 2 * n" if "l \<in> set d" for l
    using cs(1,3) that literal2Node_ok(2) by (auto simp: plain_clauses_def)
  then have "node_lit n ` after aut ` lit_node n ` set d = act p ` node_lit n ` lit_node n ` set d"
    using a by (auto simp: acts_as_def image_image)
  then show ?thesis using again [OF cs(2)] again [OF cs(3)] eq by simp
qed

lemma automorphism_symmetry:
  assumes n: "n < 2 ^ 30" and cs: "plain_clauses n cs" and k: "k = 2 * n + clause_nodes cs"
    and am: "automorphism_of k (model_edges n cs) (model_colors n (model_edges n cs) k) aut"
    and a: "acts_as n k aut p" and s: "signed_perm p"
  shows "symmetry_of p (set cs)"
proof -
  let ?es = "model_edges n cs"
  have aut: "node_permutation k aut" and
    adj: "\<And>x y. x < k \<Longrightarrow> y < k \<Longrightarrow> adjacent ?es (after aut x) (after aut y) \<longleftrightarrow> adjacent ?es x y"
    using am by (simp_all add: automorphism_of_def)
  have kinds: "respects_literals n k aut" by (rule automorphism_kinds [OF am]) (simp add: k)
  have k2: "2 * n \<le> k" by (simp add: k)
  have wf: "perm_wf p" using a by (simp add: acts_as_def perm_in_def)
  have pre: "\<exists>x < k. after aut x = y \<and> (x < 2 * n \<longleftrightarrow> y < 2 * n)" if "y < k" for y
    using after_onto [OF aut that] kinds by (auto simp: respects_literals_def)
  have "\<exists>d \<in> set cs. set c = act p ` set d" if c: "c \<in> set cs" for c
  proof (cases "length c = 2")
    case False
    then obtain i where i: "clause_node (2 * n) cs c i" using clause_node_ex [OF c] by blast
    then have i2: "2 * n \<le> i" "i < k" using clause_node_range [OF i] k by simp_all
    then obtain j where j: "j < k" "after aut j = i" "2 * n \<le> j" using pre [of i] by (auto simp: not_less)
    then obtain d where d: "clause_node (2 * n) cs d j" using clause_node_all [of "2 * n" j cs] k by blast
    have dcs: "d \<in> set cs" using clause_node_range [OF d] by simp
    have low: "lit_node n l < 2 * n" if "l \<in> set e" "e \<in> set cs" for l e
      using cs that literal2Node_ok(2) by (auto simp: plain_clauses_def)
    have "lit_node n ` set c = {x. x < 2 * n \<and> adjacent ?es x i}"
      using adjacent_clause [OF cs i] low [OF _ c] by auto
    also have "\<dots> = after aut ` {y. y < 2 * n \<and> adjacent ?es y j}"
    proof -
      have "x \<in> after aut ` {y. y < 2 * n \<and> adjacent ?es y j}" if x: "x < 2 * n" "adjacent ?es x i" for x
      proof -
        obtain y where y: "y < k" "after aut y = x" "y < 2 * n" using pre [of x] x(1) k2 by auto
        then have "adjacent ?es y j" using adj [OF y(1) j(1)] x(2) j(2) by simp
        then show ?thesis using y by blast
      qed
      moreover have "after aut y < 2 * n \<and> adjacent ?es (after aut y) i" if y: "y < 2 * n" "adjacent ?es y j" for y
      proof -
        have "y < k" using y(1) k2 by simp
        then show ?thesis using adj [OF _ j(1)] j(2) y kinds by (auto simp: respects_literals_def)
      qed
      ultimately show ?thesis by blast
    qed
    also have "\<dots> = after aut ` lit_node n ` set d"
      using adjacent_clause [OF cs d] low [OF _ dcs] by (intro arg_cong [of _ _ "image (after aut)"]) auto
    finally show ?thesis using image_clause [OF n a cs c dcs] dcs by blast
  next
    case True
    then obtain l m where lm: "c = [l, m]"
      by (metis (no_types, opaque_lifting) Suc_length_conv length_0_conv numeral_2_eq_2)
    have below: "lit_below n l" "lit_below n m" "l \<noteq> m" "m \<noteq> negated l"
      using cs c lm by (auto simp: plain_clauses_def)
    define x y where "x = lit_node n l" and "y = lit_node n m"
    have xy: "x < 2 * n" "y < 2 * n" using literal2Node_ok(2) below by (simp_all add: x_def y_def)
    have lits: "node_lit n x = l" "node_lit n y = m"
      using node_lit_node(1) [OF n lit_below_in] below by (simp_all add: x_def y_def)
    then have ne: "x \<noteq> y" using below(3) by auto
    have "\<exists>d \<in> set cs. length d = 2 \<and> {x, y} = lit_node n ` set d \<and> x \<noteq> y"
      using c True ne lm by (intro bexI [of _ c]) (simp_all add: x_def y_def)
    then have "adjacent ?es x y" using adjacent_literals [OF cs xy] by blast
    moreover obtain x' y' where x': "x' < k" "after aut x' = x" "x' < 2 * n"
      and y': "y' < k" "after aut y' = y" "y' < 2 * n"
      using pre [of x] pre [of y] xy k2 by auto
    ultimately have "adjacent ?es x' y'" using adj [OF x'(1) y'(1)] by simp
    then consider "y' = n + x' \<or> x' = n + y'" | d where "d \<in> set cs" "{x', y'} = lit_node n ` set d"
      using adjacent_literals [OF cs x'(3) y'(3)] by blast
    then show ?thesis
    proof cases
      case 1
      then have "node_lit n y' = negated (node_lit n x')"
        using node_lit_partner [OF n, of x'] node_lit_partner [OF n, of y'] x'(3) y'(3) by auto
      then have "act p (node_lit n y') = negated (act p (node_lit n x'))"
        using act_negated [OF wf s] by simp
      then have "m = negated l" using a x' y' lits by (simp add: acts_as_def)
      then show ?thesis using below(4) by simp
    next
      case 2
      have "lit_node n ` set c = after aut ` lit_node n ` set d"
        unfolding 2(2) [symmetric] using lm x'(2) y'(2) by (simp add: x_def y_def)
      then show ?thesis using image_clause [OF n a cs c 2(1)] 2(1) by blast
    qed
  qed
  moreover have "perm_fwd p = act p" using wf s by (simp add: perm_fwd_def)
  ultimately show ?thesis by (simp add: symmetry_of_def)
qed

section \<open>What the tools are given\<close>

text \<open>The documented behaviour of the tools: they report automorphisms of their input.\<close>

definition bliss_edge :: "bliss_graph \<Rightarrow> nat \<Rightarrow> nat \<Rightarrow> bool" where
  "bliss_edge b x y \<longleftrightarrow> (of_nat x, of_nat y) \<in> set (bg_edges b) \<or> (of_nat y, of_nat x) \<in> set (bg_edges b)"

definition bliss_automorphism :: "bliss_graph \<Rightarrow> int32 list \<Rightarrow> bool" where
  "bliss_automorphism b aut \<longleftrightarrow>
     (let k = unat (bg_n b) in node_permutation k aut
      \<and> (\<forall>x < k. bg_colors b ! after aut x = bg_colors b ! x)
      \<and> (\<forall>x < k. \<forall>y < k. bliss_edge b (after aut x) (after aut y) \<longleftrightarrow> bliss_edge b x y))"

definition saucy_neighbours :: "saucy_graph \<Rightarrow> nat \<Rightarrow> int32 list" where
  "saucy_neighbours s x =
     (let lo = unat (sg_adj s ! x); hi = unat (sg_adj s ! Suc x) in take (hi - lo) (drop lo (sg_edg s)))"

definition saucy_automorphism :: "saucy_graph \<Rightarrow> int32 list \<Rightarrow> bool" where
  "saucy_automorphism s aut \<longleftrightarrow>
     (let k = unat (sg_n s) in node_permutation k aut
      \<and> (\<forall>x < k. sg_colors s ! after aut x = sg_colors s ! x)
      \<and> (\<forall>x < k. \<forall>y < k. of_nat (after aut y) \<in> set (saucy_neighbours s (after aut x))
            \<longleftrightarrow> of_nat y \<in> set (saucy_neighbours s x)))"

lemma numberOfNodes_ok: "graph_of k es cs g \<Longrightarrow> numberOfNodes g = of_nat k"
  by (simp add: graph_of_def numberOfNodes_def word_unat_eq_iff unsigned_ucast_eq unat_of_nat take_bit_nat_eq_self)

lemma node_list_ok: "graph_of k es cs g \<Longrightarrow> node_list g = map of_nat [0..<k]"
  using numberOfNodes_ok [of k es cs g] by (simp add: node_list_def graph_of_def unat_of_nat)

lemma neighbour_ok: "graph_of k es cs g \<Longrightarrow> i < k \<Longrightarrow> neighbour g (of_nat i) = Inr (map of_nat (nbrs es i))"
  by (simp add: graph_of_def neighbour_def unat_of_nat)

lemma color_ok: "graph_of k es cs g \<Longrightarrow> i < k \<Longrightarrow> color g (of_nat i) = Inr (of_nat (cs ! i))"
  by (simp add: graph_of_def color_def unat_of_nat)

text \<open>A loop over the nodes that appends what it reads for each of them.\<close>

lemma collect_nodes:
  assumes "\<And>i. i < k \<Longrightarrow> r (of_nat i) = Inr (f i)"
  shows "foldR (\<lambda>i ys. andThen (r i) (\<lambda>x. Inr (ys @ w i x))) (map of_nat [0..<k]) []
    = Inr (concat (map (\<lambda>i. w (of_nat i) (f i)) [0..<k]))"
proof -
  have "foldR (\<lambda>i ys. andThen (r i) (\<lambda>x. Inr (ys @ w i x))) (map of_nat [0..<j]) []
      = Inr (concat (map (\<lambda>i. w (of_nat i) (f i)) [0..<j]))" if "j \<le> k" for j
    using that assms by (induction j) (simp_all add: foldR_append)
  then show ?thesis by simp
qed

lemma bliss_change_colors_ok:
  assumes "graph_of k es cs g"
  shows "bliss_change_colors g = Inr (map of_nat cs)"
proof -
  have "bliss_change_colors g = Inr (concat (map (\<lambda>i. [of_nat (cs ! i)]) [0..<k]))"
    unfolding bliss_change_colors_def node_list_ok [OF assms] by (rule collect_nodes) (rule color_ok [OF assms])
  also have "concat (map (\<lambda>i. [of_nat (cs ! i)]) [0..<k]) = map of_nat (map ((!) cs) [0..<k])" by simp
  also have "map ((!) cs) [0..<k] = cs" using assms unfolding graph_of_def by (metis map_nth)
  finally show ?thesis .
qed

definition edge_list :: "nat \<Rightarrow> (nat \<times> nat) list \<Rightarrow> (int32 \<times> int32) list" where
  "edge_list k es = concat (map (\<lambda>i. map (\<lambda>x. (of_nat i, of_nat x)) (nbrs es i)) [0..<k])"

lemma bliss_input_ok:
  assumes "graph_of k es cs g"
  shows "bliss_input g = Inr \<lparr>bg_n = of_nat k, bg_colors = map of_nat cs, bg_edges = edge_list k es\<rparr>"
proof -
  have "bliss_add_edges g = Inr (concat (map (\<lambda>i. map (\<lambda>x. (of_nat i, x)) (map of_nat (nbrs es i))) [0..<k]))"
    unfolding bliss_add_edges_def node_list_ok [OF assms] by (rule collect_nodes) (rule neighbour_ok [OF assms])
  then show ?thesis
    by (simp add: bliss_input_def bliss_change_colors_ok [OF assms] numberOfNodes_ok [OF assms] edge_list_def comp_def)
qed

lemma of_nat32_inject: "x < 2 ^ 32 \<Longrightarrow> y < 2 ^ 32 \<Longrightarrow> (of_nat x :: int32) = of_nat y \<longleftrightarrow> x = y"
  by (metis unat_of_nat32)

lemma nbrs_below: "graph_of k es cs g \<Longrightarrow> y \<in> set (nbrs es x) \<Longrightarrow> x < k \<and> y < k"
  by (auto simp: graph_of_def set_nbrs)

lemma bliss_automorphism_ok:
  assumes g: "graph_of k es cs g" and cs: "\<forall>c \<in> set cs. c < 2 ^ 32"
    and b: "bliss_automorphism \<lparr>bg_n = of_nat k, bg_colors = map of_nat cs, bg_edges = edge_list k es\<rparr> aut"
      (is "bliss_automorphism ?b aut")
  shows "automorphism_of k es cs aut"
proof -
  have k: "k < 2 ^ 32" "length cs = k" using g by (simp_all add: graph_of_def)
  have uk: "unat (of_nat k :: int32) = k" using k by (simp add: unat_of_nat)
  have aut: "node_permutation k aut" using b by (simp add: bliss_automorphism_def uk Let_def)
  have edge: "bliss_edge ?b x y \<longleftrightarrow> adjacent es x y" if "x < k" "y < k" for x y
  proof -
    have "(of_nat u, of_nat v) \<in> set (edge_list k es) \<longleftrightarrow> v \<in> set (nbrs es u)" if "u < k" "v < k" for u v
    proof -
      have "(of_nat u :: int32) = of_nat i \<longleftrightarrow> u = i" "(of_nat v :: int32) = of_nat i \<longleftrightarrow> v = i" if "i < k" for i
        using that \<open>u < k\<close> \<open>v < k\<close> k(1) of_nat32_inject by (simp_all add: order_less_trans)
      moreover have "w < k" if "w \<in> set (nbrs es i)" for w i using nbrs_below [OF g that] by simp
      ultimately show ?thesis using that by (auto simp: edge_list_def image_iff)
    qed
    then show ?thesis using that by (auto simp: bliss_edge_def adjacent_def set_nbrs)
  qed
  have colors: "cs ! after aut x = cs ! x" if "x < k" for x
  proof -
    have a: "after aut x < k" by (rule after_less [OF aut that])
    have "(map of_nat cs :: int32 list) ! after aut x = map of_nat cs ! x"
      using b that by (simp only: bliss_automorphism_def uk Let_def bliss_graph.simps)
    then have "(of_nat (cs ! after aut x) :: int32) = of_nat (cs ! x)"
      using a that k(2) by simp
    moreover have "cs ! after aut x < 2 ^ 32" "cs ! x < 2 ^ 32" using cs a that k(2) by (metis nth_mem)+
    ultimately show ?thesis using of_nat32_inject by blast
  qed
  have "adjacent es (after aut x) (after aut y) \<longleftrightarrow> adjacent es x y" if xy: "x < k" "y < k" for x y
  proof -
    have "bliss_edge ?b (after aut x) (after aut y) \<longleftrightarrow> bliss_edge ?b x y"
      using b xy by (simp add: bliss_automorphism_def uk Let_def)
    then show ?thesis using edge [OF xy] edge [OF after_less [OF aut xy(1)] after_less [OF aut xy(2)]] by simp
  qed
  with aut colors show ?thesis by (simp add: automorphism_of_def)
qed

text \<open>The arrays for saucy: the neighbours of a node lie between two consecutive starts.\<close>

definition starts :: "(nat \<times> nat) list \<Rightarrow> nat \<Rightarrow> nat" where
  "starts es i = (\<Sum>j<i. length (nbrs es j))"

lemma sum_nbrs: "\<forall>(x, y) \<in> set es. x < k \<and> y < k \<Longrightarrow> starts es k = 2 * length es"
proof (induction es)
  case (Cons e es)
  obtain x y where e: "e = (x, y)" by (cases e)
  have "starts (e # es) k = (\<Sum>j<k. (if x = j then 1 else 0) + (if y = j then 1 else 0) + length (nbrs es j))"
    unfolding starts_def by (rule sum.cong) (auto simp: e)
  also have "\<dots> = (\<Sum>j<k. if x = j then 1 else 0) + (\<Sum>j<k. if y = j then 1 else 0) + starts es k"
    by (simp only: sum.distrib starts_def)
  also have "\<dots> = 2 + starts es k" using Cons.prems e by simp
  finally show ?case using Cons e by simp
qed (simp add: starts_def)

lemma length_concat_nbrs: "length (concat (map (nbrs es) [0..<i])) = starts es i"
  by (induction i) (simp_all add: starts_def)

lemma saucy_input_ok:
  assumes g: "graph_of k es cs g"
  shows "saucy_input g = Inr \<lparr>sg_n = of_nat k, sg_e = of_nat (length es),
      sg_adj = map (\<lambda>i. of_nat (starts es i)) [0..<Suc k],
      sg_edg = map of_nat (concat (map (nbrs es) [0..<k])), sg_colors = map of_nat cs\<rparr>"
proof -
  have edg: "saucy_edg g = Inr (concat (map (\<lambda>i. map of_nat (nbrs es i)) [0..<k]))"
    unfolding saucy_edg_def node_list_ok [OF g]
    by (rule collect_nodes [of k "neighbour g" _ "\<lambda>i x. x"]) (rule neighbour_ok [OF g])
  have step: "foldR (\<lambda>i (sum, adj). andThen (degree g i) (\<lambda>d. Inr (sum + d, adj @ [sum + d])))
      (map of_nat [0..<j]) (0, [0]) = Inr (of_nat (starts es j), map (\<lambda>i. of_nat (starts es i)) [0..<Suc j])"
    if "j \<le> k" for j
    using that
  proof (induction j)
    case (Suc j)
    have "degree g (of_nat j) = Inr (of_nat (length (nbrs es j)))"
      using g Suc.prems by (simp add: degree_def graph_of_def unat_of_nat)
    with Suc show ?case by (simp add: foldR_append starts_def)
  qed (simp add: starts_def)
  have e: "numberOfEdges g = of_nat (length es)"
  proof -
    have "(ucast (of_nat j :: int64) :: int32) = of_nat j" for j
      by (simp add: word_unat_eq_iff unsigned_ucast_eq unsigned_of_nat)
    then show ?thesis using g by (simp add: graph_of_def numberOfEdges_def)
  qed
  have "saucy_adj g = Inr (map (\<lambda>i. of_nat (starts es i)) [0..<Suc k])"
    using step [OF le_refl] by (simp add: saucy_adj_def node_list_ok [OF g] del: upt_Suc)
  then show ?thesis
    by (simp add: saucy_input_def edg e bliss_change_colors_ok [OF g] numberOfNodes_ok [OF g] map_concat
        comp_def del: upt_Suc)
qed

lemma starts_mono: "i \<le> j \<Longrightarrow> starts es i \<le> starts es j"
  unfolding starts_def by (rule sum_mono2) auto

lemma saucy_neighbours_ok:
  assumes g: "graph_of k es cs g" and es: "2 * length es < 2 ^ 32" and x: "x < k"
    and s: "saucy_input g = Inr s"
  shows "saucy_neighbours s x = map of_nat (nbrs es x)"
proof -
  have "\<forall>(x, y) \<in> set es. x < k \<and> y < k" using g by (simp add: graph_of_def)
  then have "starts es k < 2 ^ 32" using es sum_nbrs by simp
  then have u: "unat (of_nat (starts es i) :: int32) = starts es i" if "i \<le> k" for i
    using starts_mono [OF that, of es] by (intro unat_of_nat32) simp
  have adj: "sg_adj s ! i = of_nat (starts es i)" if "i \<le> k" for i
    using s that unfolding saucy_input_ok [OF g] by (auto simp del: upt_Suc simp: less_Suc_eq_le)
  have "[0..<k] = [0..<x] @ [x..<k]" using x upt_add_eq_append [of 0 x "k - x"] by simp
  also have "[x..<k] = x # [Suc x..<k]" using x by (rule upt_conv_Cons)
  finally have split: "[0..<k] = [0..<x] @ x # [Suc x..<k]" .
  have edg: "sg_edg s = map of_nat (concat (map (nbrs es) [0..<x])) @ map of_nat (nbrs es x)
      @ map of_nat (concat (map (nbrs es) [Suc x..<k]))"
    using s unfolding saucy_input_ok [OF g] split by (auto simp: map_concat)
  have "starts es (Suc x) - starts es x = length (nbrs es x)" by (simp add: starts_def)
  then show ?thesis
    using x u [of x] u [of "Suc x"] adj [of x] adj [of "Suc x"] length_concat_nbrs [of es x]
    by (simp add: saucy_neighbours_def Let_def edg)
qed

lemma saucy_automorphism_ok:
  assumes g: "graph_of k es cs g" and cs: "\<forall>c \<in> set cs. c < 2 ^ 32" and es: "2 * length es < 2 ^ 32"
    and s: "saucy_input g = Inr s" and a: "saucy_automorphism s aut"
  shows "automorphism_of k es cs aut"
proof -
  have k: "k < 2 ^ 32" "length cs = k" using g by (simp_all add: graph_of_def)
  have sk: "unat (sg_n s) = k" "sg_colors s = map of_nat cs"
    using s k unfolding saucy_input_ok [OF g] by (auto simp: unat_of_nat)
  have aut: "node_permutation k aut" using a by (simp add: saucy_automorphism_def sk Let_def)
  have nbr: "of_nat y \<in> set (saucy_neighbours s x) \<longleftrightarrow> adjacent es x y" if "x < k" "y < k" for x y
  proof -
    have "(of_nat y :: int32) \<in> of_nat ` set (nbrs es x) \<longleftrightarrow> y \<in> set (nbrs es x)"
    proof -
      have "(of_nat y :: int32) = of_nat z \<longleftrightarrow> y = z" if "z \<in> set (nbrs es x)" for z
        using nbrs_below [OF g that] k(1) \<open>y < k\<close> by (intro of_nat32_inject) simp_all
      then show ?thesis by blast
    qed
    then show ?thesis
      using saucy_neighbours_ok [OF g es that(1) s] by (simp add: set_nbrs adjacent_def)
  qed
  have colors: "cs ! after aut x = cs ! x" if "x < k" for x
  proof -
    have b: "after aut x < k" by (rule after_less [OF aut that])
    have "sg_colors s ! after aut x = sg_colors s ! x"
      using a that by (simp only: saucy_automorphism_def sk Let_def)
    then have "(of_nat (cs ! after aut x) :: int32) = of_nat (cs ! x)" using b that k(2) sk(2) by simp
    moreover have "cs ! after aut x < 2 ^ 32" "cs ! x < 2 ^ 32" using cs b that k(2) by (metis nth_mem)+
    ultimately show ?thesis using of_nat32_inject by blast
  qed
  have "adjacent es (after aut x) (after aut y) \<longleftrightarrow> adjacent es x y" if xy: "x < k" "y < k" for x y
  proof -
    have "of_nat (after aut y) \<in> set (saucy_neighbours s (after aut x)) \<longleftrightarrow> of_nat y \<in> set (saucy_neighbours s x)"
      using a xy by (simp only: saucy_automorphism_def sk Let_def)
    then show ?thesis using nbr [OF xy] nbr [OF after_less [OF aut xy(1)] after_less [OF aut xy(2)]] by simp
  qed
  with aut colors show ?thesis by (simp add: automorphism_of_def)
qed

section \<open>Every generator found is a symmetry\<close>

text \<open>The sizes within which no counter of the graph wraps around.\<close>

definition small_model :: "cnf_model \<Rightarrow> bool" where
  "small_model m \<longleftrightarrow> num_vars m < 2 ^ 30 \<and> (\<forall>c \<in> set (clause_lists m). length c < 2 ^ 32)
     \<and> 2 * length (model_edges (num_vars m) (clause_lists m)) < 2 ^ 32
     \<and> Suc (2 * num_vars m + clause_nodes (clause_lists m)) < 2 ^ 32"

definition no_tautologies :: "cnf_model \<Rightarrow> bool" where
  "no_tautologies m \<longleftrightarrow> (\<forall>c \<in> set (clause_lists m). \<forall>l \<in> set c. negated l \<notin> set c)"

lemma model_colors_small:
  assumes "n < 2 ^ 30"
  shows "\<forall>c \<in> set (model_colors n es k). c < 2 ^ 32"
proof -
  have "lit_color n es i < 2 ^ 32" if "i < 2 * n" for i
  proof -
    have "length (filter (lonely n es) [0..<node_var n i]) \<le> node_var n i"
      by (metis diff_zero length_filter_le length_upt)
    then show ?thesis using node_var_less [OF that] assms by (auto simp: lit_color_def)
  qed
  then show ?thesis by (auto simp: model_colors_def)
qed

definition symmetric_group :: "nat \<Rightarrow> literal list list \<Rightarrow> group \<Rightarrow> bool" where
  "symmetric_group n cs g \<longleftrightarrow> wf_group n g \<and> (\<forall>p \<in> set (g_permutations g). symmetry_of p (set cs))"

lemma callback_symmetric:
  assumes "n < 2 ^ 30" "plain_clauses n cs" "k = 2 * n + clause_nodes cs" "symmetric_group n cs g"
    and am: "automorphism_of k (model_edges n cs) (model_colors n (model_edges n cs) k) aut"
  shows "\<exists>g'. on_automorphim aut (of_nat k) (of_nat n) g = Some (Inr g') \<and> symmetric_group n cs g'"
proof -
  have "node_permutation k aut" using am by (simp add: automorphism_of_def)
  moreover have "respects_literals n k aut" by (rule automorphism_kinds [OF am]) (simp add: assms(3))
  moreover have "wf_group n g" using assms(4) by (simp add: symmetric_group_def)
  ultimately obtain p g' where g': "on_automorphim aut (of_nat k) (of_nat n) g = Some (Inr g')"
      "acts_as n k aut p" "wf_group n g'" "g_permutations g' =
        (if p_cycles p \<noteq> [] \<and> signed_perm p then g_permutations g @ [p] else g_permutations g)"
    using on_automorphim_ok [OF _ assms(1)] by blast
  have "symmetry_of p (set cs)" if "signed_perm p"
    by (rule automorphism_symmetry [OF assms(1-3) am g'(2) that])
  then have "symmetric_group n cs g'" using assms(4) g'(3,4) by (auto simp: symmetric_group_def)
  with g'(1) show ?thesis by blast
qed

lemma findAutomorphism_ok:
  assumes m: "wf_cnf hash m" "small_model m" "no_tautologies m"
    and bliss: "\<And>b aut. aut \<in> set (bliss b) \<Longrightarrow> bliss_automorphism b aut"
    and saucy: "\<And>s aut. aut \<in> set (saucy s) \<Longrightarrow> saucy_automorphism s aut"
  shows "\<exists>f g. SymmetryFinder_create m tool = Inr f \<and> findAutomorphism bliss saucy f Group_new = Some (Inr g)
    \<and> symmetric_group (num_vars m) (clause_lists m) g"
proof -
  define n cs es k where "n = num_vars m" and "cs = clause_lists m" and "es = model_edges n cs"
    and "k = 2 * n + clause_nodes cs"
  have n: "n < 2 ^ 30" "2 * length es < 2 ^ 32" using m(2) by (simp_all add: small_model_def n_def es_def cs_def)
  obtain gr where gr: "CNFGraph_assign CNFGraph_new m = Inr gr" "graph_of k es (model_colors n es k) gr"
    using CNFGraph_assign_ok [OF m(1)] m(2) unfolding small_model_def n_def cs_def es_def k_def by blast
  have plain: "plain_clauses n cs"
    using m(1,3) unfolding wf_cnf_def no_tautologies_def plain_clauses_def n_def cs_def by blast
  have num: "(ucast (CNFModel_numberOfVariables m) :: int32) = of_nat n"
    using numberOfVariables_num_vars [of m] m(1) n
    by (simp add: n_def wf_cnf_def word_unat_eq_iff unsigned_ucast_eq unat_of_nat take_bit_nat_eq_self)
  let ?f = "\<lparr>sf_tool = tool, sf_num_vars = of_nat n, sf_graph = gr\<rparr>"
  have f: "SymmetryFinder_create m tool = Inr ?f"
    by (cases tool) (simp_all add: SymmetryFinder_create_def SymmetryFinder_new_def gr(1) num)
  have start: "symmetric_group n cs Group_new"
    using wf_group_new by (simp add: symmetric_group_def Group_new_def)
  note colors = model_colors_small [OF n(1), of es k]
  have step: "\<exists>g'. on_automorphim aut (of_nat k) (of_nat n) g = Some (Inr g') \<and> symmetric_group n cs g'"
    if "automorphism_of k es (model_colors n es k) aut" "symmetric_group n cs g" for aut g
    using callback_symmetric [OF n(1) plain k_def that(2)] that(1) unfolding es_def by blast
  show ?thesis
  proof (cases tool)
    case BLISS
    let ?b = "\<lparr>bg_n = of_nat k, bg_colors = map of_nat (model_colors n es k), bg_edges = edge_list k es\<rparr>"
    have "\<exists>g. foldP (\<lambda>aut. on_automorphim aut (of_nat k) (of_nat n)) (bliss ?b) Group_new = Some (Inr g)
        \<and> symmetric_group n cs g"
    proof (rule foldP_total)
      fix pre aut post g
      assume "bliss ?b = pre @ aut # post" "symmetric_group n cs g"
      then show "\<exists>g'. on_automorphim aut (of_nat k) (of_nat n) g = Some (Inr g') \<and> symmetric_group n cs g'"
        using step bliss_automorphism_ok [OF gr(2) colors] bliss [of aut ?b] by simp
    qed (rule start)
    then show ?thesis
      using f BLISS bliss_input_ok [OF gr(2)]
      by (auto simp: findAutomorphism_def Bliss_findAutomorphism_def n_def cs_def)
  next
    case SAUCY
    obtain s where s: "saucy_input gr = Inr s" "sg_n s = of_nat k" using saucy_input_ok [OF gr(2)] by simp
    have "\<exists>g. foldP (\<lambda>aut g. bindP (on_automorphism aut (of_nat k) (of_nat n) g) (\<lambda>(_, g'). Some (Inr g')))
        (saucy s) Group_new = Some (Inr g) \<and> symmetric_group n cs g"
    proof (rule foldP_total)
      fix pre aut post g
      assume "saucy s = pre @ aut # post" "symmetric_group n cs g"
      then show "\<exists>g'. bindP (on_automorphism aut (of_nat k) (of_nat n) g) (\<lambda>(_, g'). Some (Inr g')) = Some (Inr g')
          \<and> symmetric_group n cs g'"
        using step saucy_automorphism_ok [OF gr(2) colors n(2) s(1)] saucy [of aut s]
        by (fastforce simp: on_automorphism_def)
    qed (rule start)
    then show ?thesis
      using f SAUCY s by (auto simp: findAutomorphism_def Saucy_findAutomorphism_def n_def cs_def)
  qed
qed

end
