(* ===== verification/Finder_Properties.thy ===== *)
theory Finder_Properties
  imports Small_Example Symmetry_Finders
begin

text \<open>
  The properties of the graph of a model and of the search for symmetries with an external tool.
  The example is the formula of one clause over two variables.
\<close>

section \<open>The example\<close>

definition pair_model :: cnf_model where
  "pair_model = get_ok CNFModel_new (enter_clause (\<lambda>s. 0) [Lit 0, Lit 2] CNFModel_new)"

lemma pair_clauses: "clause_lists pair_model = [[Lit 0, Lit 2]]" "num_vars pair_model = 2"
  by code_simp+

lemma pair_model_ok: "wf_cnf (\<lambda>s. 0) pair_model" "small_model pair_model" "no_tautologies pair_model"
proof -
  have "wf_cnf (\<lambda>s. 0) CNFModel_new" by (rule wf_cnf_new)
  from addClause_ok [OF this, of "[Lit 0, Lit 2]"] obtain m' where
    "CNFModel_addClause (\<lambda>s. 0) CNFModel_new [Lit 0, Lit 2] = Inr (m', remdups_adj (sort [Lit 0, Lit 2]))"
    "wf_cnf (\<lambda>s. 0) m'"
    by (auto simp: lit_below_def small_literals)
  then show "wf_cnf (\<lambda>s. 0) pair_model" by (simp add: pair_model_def enter_clause_def)
  show "small_model pair_model" "no_tautologies pair_model"
    by (simp_all add: small_model_def no_tautologies_def pair_clauses model_edges_def clause_edges_def
        next_clause_def consistency_edges_def clause_nodes_def small_literals)
qed

text \<open>A tool that tries one exchange of two variables and reports it when it is an automorphism.\<close>

definition try_exchange :: "int32 list list" where
  "try_exchange = [[1, 0, 3, 2]]"

definition exchange_bliss :: "bliss_graph \<Rightarrow> int32 list list" where
  "exchange_bliss b = filter (bliss_automorphism b) try_exchange"

definition exchange_saucy :: "saucy_graph \<Rightarrow> int32 list list" where
  "exchange_saucy s = filter (saucy_automorphism s) try_exchange"

section \<open>The graph\<close>

text \<open>The colour every node must have, and that the colours of unused variables are unique.\<close>

definition node_color :: "nat \<Rightarrow> literal list list \<Rightarrow> nat \<Rightarrow> nat" where
  "node_color n cs i =
     (if 2 * n \<le> i then 1
      else if unused_var cs (node_var n i)
        then 2 + 2 * card {v. v < node_var n i \<and> unused_var cs v} + (if i < n then 0 else 1)
      else 0)"

lemma model_colors_node:
  assumes "\<forall>c \<in> set cs. \<forall>l \<in> set c. lit_below n l" "i < k"
  shows "model_colors n (model_edges n cs) k ! i = node_color n cs i"
  using assms lit_color_unused [OF assms(1), of i] by (simp add: model_colors_def node_color_def)

lemma node_color_small:
  assumes "n < 2 ^ 30"
  shows "node_color n cs i < 2 ^ 32"
proof (cases "2 * n \<le> i")
  case False
  have "card {v. v < node_var n i \<and> unused_var cs v} \<le> card {..<node_var n i}"
    by (intro card_mono) auto
  also have "\<dots> < n" using False node_var_less [of i n] by simp
  finally show ?thesis using assms by (simp add: node_color_def)
qed (simp add: node_color_def)

lemma node_color_unique:
  assumes "i < 2 * n" "unused_var cs (node_var n i)" "node_color n cs j = node_color n cs i"
  shows "j = i"
proof -
  have c: "node_color n cs i = 2 + 2 * card {v. v < node_var n i \<and> unused_var cs v} + (if i < n then 0 else 1)"
    using assms(1,2) by (simp add: node_color_def)
  then have j: "j < 2 * n" "unused_var cs (node_var n j)"
    using assms(3) by (auto simp: node_color_def not_le split: if_splits)
  then have e: "2 * card {v. v < node_var n j \<and> unused_var cs v} + (if j < n then 0 else 1)
      = 2 * card {v. v < node_var n i \<and> unused_var cs v} + (if i < n then 0 else (1::nat))"
    using assms(3) c by (simp add: node_color_def)
  then have "j < n \<longleftrightarrow> i < n" by (auto split: if_splits)
  then have "node_var n j = node_var n i"
    using e unused_colors_differ [OF j(2) assms(2)] by auto
  with \<open>j < n \<longleftrightarrow> i < n\<close> show ?thesis by (auto simp: node_var_def split: if_splits)
qed

text \<open>
  C21. The graph of a well-formed model has one node per literal and one per clause that is not
  binary; its edges are, in order, those of the clauses and one between the two literals of every
  variable. Clause nodes, and no others, have the clause colour. A literal whose variable occurs in
  some clause has the literal colour 0; the literals of the variables that occur in no clause get
  the colours from 2 on, in the order of the variables and the positive literal first, and share
  them with no other node.
\<close>

lemma graph_of_model:
  assumes "wf_cnf hash m" "small_model m"
  shows "\<exists>g. CNFGraph_assign CNFGraph_new m = Inr g
    \<and> unat (numberOfNodes g) = 2 * num_vars m + clause_nodes (clause_lists m)
    \<and> (\<forall>i < unat (numberOfNodes g).
         neighbour g (of_nat i) = Inr (map of_nat (nbrs (model_edges (num_vars m) (clause_lists m)) i))
         \<and> (\<exists>c. color g (of_nat i) = Inr c \<and> (c = kClauseColor \<longleftrightarrow> 2 * num_vars m \<le> i))
         \<and> color g (of_nat i) = Inr
             (if 2 * num_vars m \<le> i then kClauseColor
              else if unused_var (clause_lists m) (node_var (num_vars m) i)
                then of_nat (2 + 2 * card {v. v < node_var (num_vars m) i \<and> unused_var (clause_lists m) v}
                  + (if i < num_vars m then 0 else 1))
              else kLiteralColor)
         \<and> (i < 2 * num_vars m \<and> unused_var (clause_lists m) (node_var (num_vars m) i) \<longrightarrow>
             (\<forall>j < unat (numberOfNodes g). j \<noteq> i \<longrightarrow> color g (of_nat j) \<noteq> color g (of_nat i))))"
proof -
  define n cs es k where "n = num_vars m" and "cs = clause_lists m"
    and "es = model_edges (num_vars m) (clause_lists m)" and "k = 2 * num_vars m + clause_nodes (clause_lists m)"
  obtain g where g: "CNFGraph_assign CNFGraph_new m = Inr g" "graph_of k es (model_colors n es k) g"
    using CNFGraph_assign_ok [OF assms(1)] assms(2) unfolding small_model_def n_def es_def k_def by blast
  have k: "unat (numberOfNodes g) = k"
    using numberOfNodes_ok [OF g(2)] g(2) by (simp add: graph_of_def unat_of_nat)
  have n: "n < 2 ^ 30" using assms(2) by (simp add: small_model_def n_def)
  have cs: "\<forall>c \<in> set cs. \<forall>l \<in> set c. lit_below n l"
    using assms(1) unfolding wf_cnf_def n_def cs_def by blast
  have col: "color g (of_nat i) = Inr (of_nat (node_color n cs i))" if "i < k" for i
    using color_ok [OF g(2) that] model_colors_node [OF cs that] by (simp add: es_def n_def cs_def)
  have same: "(of_nat (node_color n cs i) :: int32) = of_nat x \<longleftrightarrow> node_color n cs i = x" if "x < 2 ^ 32" for i x
    using node_color_small [OF n] that by (rule of_nat32_inject)
  have "\<forall>j < k. j \<noteq> i \<longrightarrow> color g (of_nat j) \<noteq> color g (of_nat i)"
    if "i < k" "i < 2 * n" "unused_var cs (node_var n i)" for i
    using node_color_unique [OF that(2,3)] that(1) by (auto simp: col same [OF node_color_small [OF n]])
  moreover have "(of_nat (node_color n cs i) :: int32) = kClauseColor \<longleftrightarrow> 2 * n \<le> i" for i
    using same [of 1 i] by (auto simp: kClauseColor_def node_color_def)
  moreover have "(of_nat (node_color n cs i) :: int32) =
      (if 2 * n \<le> i then kClauseColor
       else if unused_var cs (node_var n i)
         then of_nat (2 + 2 * card {v. v < node_var n i \<and> unused_var cs v} + (if i < n then 0 else 1))
       else kLiteralColor)" for i
    by (simp add: node_color_def kClauseColor_def kLiteralColor_def)
  ultimately have "\<forall>i < k. neighbour g (of_nat i) = Inr (map of_nat (nbrs es i))
      \<and> (\<exists>c. color g (of_nat i) = Inr c \<and> (c = kClauseColor \<longleftrightarrow> 2 * n \<le> i))
      \<and> color g (of_nat i) = Inr (if 2 * n \<le> i then kClauseColor
          else if unused_var cs (node_var n i)
            then of_nat (2 + 2 * card {v. v < node_var n i \<and> unused_var cs v} + (if i < n then 0 else 1))
          else kLiteralColor)
      \<and> (i < 2 * n \<and> unused_var cs (node_var n i) \<longrightarrow>
          (\<forall>j < k. j \<noteq> i \<longrightarrow> color g (of_nat j) \<noteq> color g (of_nat i)))"
    using neighbour_ok [OF g(2)] col by auto
  then show ?thesis
    using g(1) k unfolding n_def es_def k_def [symmetric] cs_def by (intro exI [of _ g]) (simp only: k simp_thms)
qed

lemma graph_of_model_witness:
  "\<exists>g. CNFGraph_assign CNFGraph_new pair_model = Inr g \<and> unat (numberOfNodes g) = 4
    \<and> neighbour g 0 = Inr [1, 2] \<and> color g 0 = Inr kLiteralColor"
proof -
  obtain g where g: "CNFGraph_assign CNFGraph_new pair_model = Inr g"
      "unat (numberOfNodes g) = 4"
      "\<forall>i < unat (numberOfNodes g). neighbour g (of_nat i) =
        Inr (map of_nat (nbrs (model_edges 2 [[Lit 0, Lit 2]]) i))"
      "\<forall>i < unat (numberOfNodes g). i < 4 \<longrightarrow> \<not> unused_var [[Lit 0, Lit 2]] (node_var 2 i) \<longrightarrow>
        color g (of_nat i) = Inr kLiteralColor"
    using graph_of_model [OF pair_model_ok(1,2)] by (auto simp: pair_clauses clause_nodes_def)
  have "nbrs (model_edges 2 [[Lit 0, Lit 2]]) 0 = [1, 2]" by code_simp
  moreover have "neighbour g (of_nat 0) = Inr (map of_nat (nbrs (model_edges 2 [[Lit 0, Lit 2]]) 0))"
    using g(2,3) by (metis zero_less_numeral)
  ultimately have "neighbour g 0 = Inr [1, 2]" by simp
  moreover have "\<not> unused_var [[Lit 0, Lit 2]] (node_var 2 0)"
    by (simp add: unused_var_def node_var_def small_literals)
  with g(2,4) have "color g (of_nat 0) = Inr kLiteralColor" by (metis zero_less_numeral)
  ultimately show ?thesis using g(1,2) by auto
qed

text \<open>
  C22. The arrays handed to saucy describe the same graph: the neighbours of a node are the entries
  between its start and the next, the starts begin with 0 and end with the length of the array of
  neighbours, and that length is twice the number of edges.
\<close>

lemma saucy_arrays:
  assumes "wf_cnf hash m" "small_model m"
  shows "\<exists>g s. CNFGraph_assign CNFGraph_new m = Inr g \<and> saucy_input g = Inr s
    \<and> sg_n s = numberOfNodes g \<and> length (sg_adj s) = Suc (unat (sg_n s))
    \<and> sg_adj s ! 0 = 0 \<and> unat (last (sg_adj s)) = length (sg_edg s)
    \<and> length (sg_edg s) = 2 * unat (sg_e s)
    \<and> (\<forall>i < unat (sg_n s). neighbour g (of_nat i) = Inr (saucy_neighbours s i))"
proof -
  define n es k where "n = num_vars m" and "es = model_edges (num_vars m) (clause_lists m)"
    and "k = 2 * num_vars m + clause_nodes (clause_lists m)"
  obtain g where g: "CNFGraph_assign CNFGraph_new m = Inr g" "graph_of k es (model_colors n es k) g"
    using CNFGraph_assign_ok [OF assms(1)] assms(2) unfolding small_model_def n_def es_def k_def by blast
  have es: "2 * length es < 2 ^ 32" using assms(2) by (simp add: small_model_def es_def)
  have k: "unat (of_nat k :: int32) = k" using g(2) by (simp add: graph_of_def unat_of_nat)
  obtain s where s: "saucy_input g = Inr s" "sg_n s = of_nat k" "sg_e s = of_nat (length es)"
      "sg_adj s = map (\<lambda>i. of_nat (starts es i)) [0..<Suc k]"
      "sg_edg s = map of_nat (concat (map (nbrs es) [0..<k]))"
    using saucy_input_ok [OF g(2)] by simp
  have "\<forall>(x, y) \<in> set es. x < k \<and> y < k" using g(2) by (simp add: graph_of_def)
  then have st: "starts es k = 2 * length es" by (rule sum_nbrs)
  have "length (sg_edg s) = 2 * length es"
    using s(5) st length_concat_nbrs [of es k] by (simp only: length_map)
  moreover have "unat (sg_e s) = length es" using s(3) es by (simp add: unat_of_nat)
  moreover have "last (sg_adj s) = of_nat (2 * length es)" using s(4) st by simp
  then have "unat (last (sg_adj s)) = 2 * length es" using unat_of_nat32 [OF es] by simp
  moreover have "sg_adj s ! 0 = 0" "length (sg_adj s) = Suc k"
    using s(4) by (simp_all add: starts_def del: upt_Suc)
  moreover have "\<forall>i < k. neighbour g (of_nat i) = Inr (saucy_neighbours s i)"
    using neighbour_ok [OF g(2)] saucy_neighbours_ok [OF g(2) es _ s(1)] by simp
  ultimately show ?thesis using g(1) s(1,2) k numberOfNodes_ok [OF g(2)] by auto
qed

lemma saucy_arrays_witness:
  "\<exists>g s. CNFGraph_assign CNFGraph_new pair_model = Inr g \<and> saucy_input g = Inr s
    \<and> length (sg_edg s) = 2 * unat (sg_e s)"
  using saucy_arrays [OF pair_model_ok(1,2)] by blast

section \<open>The generators found\<close>

text \<open>
  C19. From a reported permutation of the nodes that keeps literals and clauses apart, the callback
  terminates without an error. The permutation it builds maps every literal as the report maps its
  node; the group keeps it when it moves something and commutes with negation.
\<close>

lemma callback_builds_permutation:
  assumes "node_permutation k aut" "n < 2 ^ 30" "respects_literals n k aut" "wf_group n g"
  shows "\<exists>p g'. on_automorphim aut (of_nat k) (of_nat n) g = Some (Inr g')
    \<and> on_automorphism aut (of_nat k) (of_nat n) g = Some (Inr (1, g'))
    \<and> perm_in n p \<and> (\<forall>l. lit_in n l \<longrightarrow> lit_node n (act p l) = after aut (lit_node n l))
    \<and> wf_group n g' \<and> g_permutations g' =
      (if \<not> isIdentity p \<and> signed_perm p then g_permutations g @ [p] else g_permutations g)"
proof -
  obtain p g' where p: "on_automorphim aut (of_nat k) (of_nat n) g = Some (Inr g')" "acts_as n k aut p"
      "wf_group n g'" "g_permutations g' =
        (if p_cycles p \<noteq> [] \<and> signed_perm p then g_permutations g @ [p] else g_permutations g)"
    using on_automorphim_ok [OF assms] by blast
  have "lit_node n (act p l) = after aut (lit_node n l)" if l: "lit_in n l" for l
  proof -
    note x = node_lit_node [OF assms(2) l]
    have "after aut (lit_node n l) < 2 * n" using assms(3) x(2) by (simp add: respects_literals_def)
    moreover have "act p (node_lit n (lit_node n l)) = node_lit n (after aut (lit_node n l))"
      using p(2) x(2) by (simp add: acts_as_def)
    ultimately show ?thesis using x(1) node_lit_simps(3) [OF assms(2)] by simp
  qed
  with p show ?thesis
    by (intro exI [of _ p] exI [of _ g']) (auto simp: acts_as_def on_automorphism_def isIdentity_def)
qed

lemma callback_builds_permutation_witness:
  "\<exists>p. perm_in 2 p \<and> lit_node 2 (act p (Lit 0)) = 1
    \<and> (\<exists>g'. on_automorphim [1, 0, 3, 2] 4 2 Group_new = Some (Inr g'))"
proof -
  have aut: "node_permutation 4 [1, 0, 3, 2]" by (simp add: node_permutation_def)
  have kinds: "respects_literals 2 4 [1, 0, 3, 2]"
    by code_simp
  have two: "(2 :: nat) < 2 ^ 30" by simp
  note r = callback_builds_permutation [OF aut two kinds wf_group_new]
  from r [unfolded of_nat_numeral] obtain p g' where
    p: "on_automorphim [1, 0, 3, 2] 4 2 Group_new = Some (Inr g')" "perm_in 2 p"
      "\<forall>l. lit_in 2 l \<longrightarrow> lit_node 2 (act p l) = after [1, 0, 3, 2] (lit_node 2 l)"
    by (elim exE conjE) (rule that)
  have "lit_in 2 (Lit 0)" "after [1, 0, 3, 2] (lit_node 2 (Lit 0)) = 1"
    by (simp_all add: lit_in_def lit_node_def small_literals after_def)
  with p show ?thesis by metis
qed

text \<open>
  C18. Whichever tool is chosen, if every permutation it reports is an automorphism of the graph it
  was given, then the search terminates and every generator of the group is a symmetry of the
  clauses: it maps each clause to a clause. The check of the group for permutations that do not
  commute with negation is what makes this true, since a binary clause and the two literals of a
  variable give the same kind of edge. Clauses that contain a literal and its negation are excluded.
\<close>

lemma found_generators_are_symmetries:
  assumes "wf_cnf hash m" "small_model m" "no_tautologies m"
    and "\<And>b aut. aut \<in> set (bliss b) \<Longrightarrow> bliss_automorphism b aut"
    and "\<And>s aut. aut \<in> set (saucy s) \<Longrightarrow> saucy_automorphism s aut"
  shows "\<exists>f g. SymmetryFinder_create m tool = Inr f
    \<and> findAutomorphism bliss saucy f Group_new = Some (Inr g)
    \<and> wf_group (num_vars m) g
    \<and> (\<forall>p \<in> set (g_permutations g). symmetry_of p (set (clause_lists m)))"
  using findAutomorphism_ok [OF assms, of bliss saucy tool] by (auto simp: symmetric_group_def)

lemma found_generators_are_symmetries_witness:
  "\<exists>f g. SymmetryFinder_create pair_model SAUCY = Inr f
    \<and> findAutomorphism exchange_bliss exchange_saucy f Group_new = Some (Inr g)
    \<and> (\<forall>p \<in> set (g_permutations g). symmetry_of p {[Lit 0, Lit 2]})"
  using found_generators_are_symmetries [OF pair_model_ok, of exchange_bliss exchange_saucy SAUCY]
  by (auto simp: exchange_bliss_def exchange_saucy_def pair_clauses)

end
