(* ===== verification/Saucy_Readers.thy ===== *)
theory Saucy_Readers
  imports CNF_Readers Symmetry_Groups
begin

text \<open>
  The class \<open>SaucyReader\<close> of \<open>include/cosy/SaucyReader.h\<close> and \<open>src/SaucyReader.cc\<close>: the parser of
  a file of generators in cycle notation over the nodes of the graph, numbered from 1. Its loops
  read until a character stops them, so they are partial functions. The main theorem runs it on
  the text of a list of generators.
\<close>

section \<open>Operations\<close>

definition graphNodeToInt :: "int32 \<Rightarrow> int32 \<Rightarrow> int32" where
  "graphNodeToInt node nv =
     (if node \<le>s nv then node else if node \<le>s 2 * nv then nv - node else 0)"

definition expect_char :: "'f gzread \<Rightarrow> char \<Rightarrow> 'f stream_buffer \<Rightarrow> 'f stream_buffer result" where
  "expect_char gz ch sb = andThen (sb_star gz sb) (\<lambda>(c, sb1). check (c = ch) (Inr sb1))"

definition take_int ::
    "'f gzread \<Rightarrow> int32 \<Rightarrow> permutation \<Rightarrow> 'f stream_buffer \<Rightarrow> (permutation \<times> 'f stream_buffer) result option" where
  "take_int gz nv p sb =
     bindP (readInt gz sb) (\<lambda>(parsed, sb1).
       let cnf_int = graphNodeToInt parsed nv in
       if cnf_int \<noteq> 0
       then bindP (Some (Literal_signed cnf_int)) (\<lambda>lit.
            bindP (Some (addToCurrentCycle p lit)) (\<lambda>p'. Some (Inr (p', sb1))))
       else Some (Inr (p, sb1)))"

partial_function (option) read_members ::
    "'f gzread \<Rightarrow> int32 \<Rightarrow> permutation \<Rightarrow> 'f stream_buffer \<Rightarrow> (permutation \<times> 'f stream_buffer) result option" where
  "read_members gz nv p sb =
     bindP (Some (sb_star gz sb)) (\<lambda>(c, sb1).
       if c = CHR '')'' then Some (Inr (p, sb1))
       else bindP (Some (expect_char gz (CHR '','') sb1)) (\<lambda>sb2.
            bindP (Some (sb_next gz sb2)) (\<lambda>sb3.
            bindP (take_int gz nv p sb3) (\<lambda>(p', sb4). read_members gz nv p' sb4))))"

declare read_members.simps [code]

partial_function (option) read_cycles ::
    "'f gzread \<Rightarrow> int32 \<Rightarrow> permutation \<Rightarrow> 'f stream_buffer \<Rightarrow> (permutation \<times> 'f stream_buffer) result option" where
  "read_cycles gz nv p sb =
     bindP (Some (sb_star gz sb)) (\<lambda>(c, sb1).
       if c \<noteq> CHR ''('' then Some (Inr (p, sb1))
       else bindP (Some (sb_next gz sb1)) (\<lambda>sb2.
            bindP (take_int gz nv p sb2) (\<lambda>(p1, sb3).
            bindP (read_members gz nv p1 sb3) (\<lambda>(p2, sb4).
            bindP (Some (expect_char gz (CHR '')'') sb4)) (\<lambda>sb5.
            bindP (Some (closeCurrentCycle p2)) (\<lambda>p3.
            bindP (Some (sb_next gz sb5)) (\<lambda>sb6. read_cycles gz nv p3 sb6)))))))"

declare read_cycles.simps [code]

definition end_of_generator :: "'f gzread \<Rightarrow> 'f stream_buffer \<Rightarrow> 'f stream_buffer result" where
  "end_of_generator gz sb =
     andThen (sb_star gz sb) (\<lambda>(c, sb1).
       if c = CHR '',''
       then andThen (sb_next gz sb1) (\<lambda>sb2.
            andThen (expect_char gz (CHR 0x0A) sb2) (\<lambda>sb3. sb_next gz sb3))
       else Inr sb1)"

definition read_generator ::
    "'f gzread \<Rightarrow> int32 \<Rightarrow> group \<Rightarrow> 'f stream_buffer \<Rightarrow> (group \<times> 'f stream_buffer) result option" where
  "read_generator gz nv g sb =
     bindP (Some (expect_char gz (CHR ''('') sb)) (\<lambda>sb1.
     bindP (read_cycles gz nv (Permutation_new nv) sb1) (\<lambda>(p, sb2).
     bindP (Some (addPermutation g (Some p))) (\<lambda>g'.
     bindP (Some (end_of_generator gz sb2)) (\<lambda>sb3. Some (Inr (g', sb3))))))"

partial_function (option) read_generators ::
    "'f gzread \<Rightarrow> int32 \<Rightarrow> group \<Rightarrow> 'f stream_buffer \<Rightarrow> (group \<times> 'f stream_buffer) result option" where
  "read_generators gz nv g sb =
     bindP (Some (sb_star gz sb)) (\<lambda>(c, sb1).
       if c = CHR 0x0A then Some (Inr (g, sb1))
       else bindP (read_generator gz nv g sb1) (\<lambda>(g', sb2). read_generators gz nv g' sb2))"

declare read_generators.simps [code]

definition SaucyReader_load ::
    "'f gzread \<Rightarrow> char list \<Rightarrow> 'f \<Rightarrow> int32 \<Rightarrow> group \<Rightarrow> (bool \<times> group) result option" where
  "SaucyReader_load gz junk f nv g =
     bindP (Some (StreamBuffer_new gz junk f)) (\<lambda>sb.
     bindP (Some (expect_char gz (CHR ''['') sb)) (\<lambda>sb1.
     bindP (Some (sb_next gz sb1)) (\<lambda>sb2.
     bindP (Some (expect_char gz (CHR 0x0A) sb2)) (\<lambda>sb3.
     bindP (Some (sb_next gz sb3)) (\<lambda>sb4.
     bindP (Some (sb_star gz sb4)) (\<lambda>(c, sb5).
       if c = CHR '']'' then Some (Inr (True, g))
       else bindP (read_generators gz nv g sb5) (\<lambda>(g', sb6).
            bindP (Some (sb_next gz sb6)) (\<lambda>sb7.
            bindP (Some (expect_char gz (CHR '']'') sb7)) (\<lambda>_. Some (Inr (True, g')))))))))))"

section \<open>The text of a file of generators\<close>

definition saucy_node :: "nat \<Rightarrow> literal \<Rightarrow> nat" where
  "saucy_node n l = (if isPositive l then Suc (unat (variable l)) else n + Suc (unat (variable l)))"

fun members_text :: "nat \<Rightarrow> literal list \<Rightarrow> string" where
  "members_text n [] = '')''"
| "members_text n (l # ls) = '','' @ decimal (saucy_node n l) @ members_text n ls"

fun cycle_text :: "nat \<Rightarrow> literal list \<Rightarrow> string" where
  "cycle_text n [] = []"
| "cycle_text n (l # ls) = ''('' @ decimal (saucy_node n l) @ members_text n ls"

definition generator_text :: "nat \<Rightarrow> literal list list \<Rightarrow> string" where
  "generator_text n css = concat (map (cycle_text n) css)"

fun generators_text :: "nat \<Rightarrow> literal list list list \<Rightarrow> string" where
  "generators_text n [] = [CHR 0x0A] @ '']''"
| "generators_text n [css] = generator_text n css @ [CHR 0x0A] @ '']''"
| "generators_text n (css # ds # rest) =
     generator_text n css @ '','' @ [CHR 0x0A] @ generators_text n (ds # rest)"

definition saucy_text :: "nat \<Rightarrow> literal list list list \<Rightarrow> string" where
  "saucy_text n gens =
     ''['' @ [CHR 0x0A] @ (if gens = [] then '']'' else generators_text n gens)"

lemma graphNodeToInt_ok:
  assumes "n < 2 ^ 29" "lit_in n l"
  shows "graphNodeToInt (of_nat (saucy_node n l)) (of_nat n) = signedValue l"
proof -
  have v: "unat (variable l) < n" using assms(2) by (simp add: lit_in_def)
  have s: "sint (of_nat k :: int32) = int k" if "k < 2 ^ 31" for k
    using that sint_small [of "of_nat k :: int32"] by (simp add: unat_of_nat)
  have n2: "sint (2 * of_nat n :: int32) = 2 * int n"
    using s [of "2 * n"] assms(1) by simp
  have "saucy_node n l < 2 ^ 31" using v assms(1) by (auto simp: saucy_node_def)
  then have k: "sint (of_nat (saucy_node n l) :: int32) = int (saucy_node n l)" by (rule s)
  have sn: "sint (of_nat n :: int32) = int n" using assms(1) by (intro s) simp
  have le: "(of_nat (saucy_node n l) :: int32) \<le>s of_nat n \<longleftrightarrow> saucy_node n l \<le> n"
      "(of_nat (saucy_node n l) :: int32) \<le>s 2 * of_nat n \<longleftrightarrow> saucy_node n l \<le> 2 * n"
    unfolding word_sle_eq k sn n2 by linarith+
  show ?thesis
  proof (cases "isPositive l")
    case True
    then show ?thesis
      using le v by (simp add: graphNodeToInt_def saucy_node_def signedValue_variable)
  next
    case False
    then show ?thesis
      using le v by (simp add: graphNodeToInt_def saucy_node_def signedValue_variable algebra_simps)
  qed
qed

section \<open>Reading the text back\<close>

lemma expect_char_ok:
  assumes gz: "gz_serves gz view" and "sb_ok sb" "content view sb = ch # xs"
  shows "\<exists>sb'. expect_char gz ch sb = Inr sb' \<and> primed view sb' \<and> content view sb' = ch # xs"
  using sb_star_ok [OF gz assms(2)] assms(3) by (auto simp: expect_char_def)

text \<open>A parser reads the text \<open>s\<close> in front of any rest and returns \<open>x\<close>.\<close>

definition reads ::
    "('f \<Rightarrow> string) \<Rightarrow> ('f stream_buffer \<Rightarrow> ('a \<times> 'f stream_buffer) result option) \<Rightarrow> string \<Rightarrow> string \<Rightarrow> 'a \<Rightarrow> bool" where
  "reads view r s rest x \<longleftrightarrow> (\<forall>sb. sb_ok sb \<and> content view sb = s @ rest \<longrightarrow>
     (\<exists>sb'. r sb = Some (Inr (x, sb')) \<and> primed view sb' \<and> content view sb' = rest))"

lemma readsD:
  "reads view r s rest x \<Longrightarrow> sb_ok sb \<Longrightarrow> content view sb = s @ rest \<Longrightarrow>
    \<exists>sb'. r sb = Some (Inr (x, sb')) \<and> primed view sb' \<and> content view sb' = rest"
  by (simp add: reads_def)

lemma no_digit_members: "no_digit (members_text n ls @ xs)"
  by (cases ls) (simp_all add: no_digit_def isdigit_char_def)

definition good_lit :: "nat \<Rightarrow> literal \<Rightarrow> bool" where
  "good_lit n l \<longleftrightarrow> lit_in n l \<and> n < 2 ^ 29"

lemma take_int_ok:
  assumes gz: "gz_serves gz view" and l: "good_lit n l" and p: "addToCurrentCycle p l = Inr p'"
    and rest: "no_digit rest"
  shows "reads view (take_int gz (of_nat n) p) (decimal (saucy_node n l)) rest p'"
  unfolding reads_def
proof (intro allI impI, elim conjE)
  fix sb assume sb: "sb_ok sb" "content view sb = decimal (saucy_node n l) @ rest"
  have n: "n < 2 ^ 29" "lit_in n l" using l by (simp_all add: good_lit_def)
  have sv: "small_var (variable l)" using n by (simp add: small_var_def lit_in_def)
  let ?w = "of_nat (saucy_node n l) :: int32"
  have "saucy_node n l < 2 ^ 31" using n by (auto simp: saucy_node_def lit_in_def)
  then have "sint ?w = int (saucy_node n l)"
    using sint_small [of ?w] by (simp add: unat_of_nat)
  then have "decimal (saucy_node n l) = to_string ?w"
    by (simp add: to_string_def word_sless_alt)
  then have "read_int_text (content view sb) = (?w, rest)"
    using read_int_to_string [of "[]" rest ?w] rest sb(2) by simp
  then obtain sb1 where sb1: "readInt gz sb = Some (Inr (?w, sb1))" "primed view sb1" "content view sb1 = rest"
    using readInt_ok [OF gz sb(1)] by auto
  then show "\<exists>sb'. take_int gz (of_nat n) p sb = Some (Inr (p', sb')) \<and> primed view sb' \<and> content view sb' = rest"
    using graphNodeToInt_ok [OF n] Literal_signed_signedValue [OF sv] signedValue_nonzero [OF sv] p
    by (simp add: take_int_def)
qed

lemma read_members_ok:
  assumes gz: "gz_serves gz view" and "\<forall>l \<in> set ls. good_lit n l"
    and "foldR (\<lambda>x p. addToCurrentCycle p x) ls p = Inr p'"
    and "sb_ok sb" "content view sb = members_text n ls @ rest"
  shows "\<exists>sb'. read_members gz (of_nat n) p sb = Some (Inr (p', sb')) \<and> primed view sb'
    \<and> content view sb' = '')'' @ rest"
  using assms(2-5)
proof (induction ls arbitrary: p sb)
  case Nil
  then obtain sb1 where "sb_star gz sb = Inr (CHR '')'', sb1)" "primed view sb1"
      "content view sb1 = '')'' @ rest"
    using sb_star_ok [OF gz Nil.prems(3)] by auto
  then show ?case using Nil.prems(2) by (subst read_members.simps) simp
next
  case (Cons l ls)
  obtain p1 where p1: "addToCurrentCycle p l = Inr p1" "foldR (\<lambda>x p. addToCurrentCycle p x) ls p1 = Inr p'"
    using Cons.prems(2) by (auto simp: andThen_Inr_iff)
  let ?t = "decimal (saucy_node n l) @ members_text n ls @ rest"
  obtain sb1 where sb1: "sb_star gz sb = Inr (CHR '','', sb1)" "primed view sb1"
      "content view sb1 = CHR '','' # ?t"
    using sb_star_ok [OF gz Cons.prems(3)] Cons.prems(4) by auto
  obtain sb2 where sb2: "expect_char gz (CHR '','') sb1 = Inr sb2" "primed view sb2"
      "content view sb2 = CHR '','' # ?t"
    using expect_char_ok [OF gz primed_ok [OF sb1(2)] sb1(3)] by blast
  obtain sb3 where sb3: "sb_next gz sb2 = Inr sb3" "primed view sb3" "content view sb3 = ?t"
    using sb_next_ok [OF gz sb2(2)] sb2(3) by auto
  have "good_lit n l" using Cons.prems(1) by simp
  from readsD [OF take_int_ok [OF gz this p1(1) no_digit_members] primed_ok [OF sb3(2)] sb3(3)]
  obtain sb4 where sb4: "take_int gz (of_nat n) p sb3 = Some (Inr (p1, sb4))" "primed view sb4"
      "content view sb4 = members_text n ls @ rest" by blast
  from Cons.IH [OF _ p1(2) primed_ok [OF sb4(2)] sb4(3)] Cons.prems(1) sb1(1) sb2(1) sb3(1) sb4(1)
  show ?case by (subst read_members.simps) simp
qed

lemma enterCycle_Cons:
  "enterCycle (l # ls) p = andThen (addToCurrentCycle p l) (\<lambda>p1.
     andThen (foldR (\<lambda>x p. addToCurrentCycle p x) ls p1) closeCurrentCycle)"
  by (simp add: enterCycle_def andThen_assoc)

text \<open>A character that does not start another cycle.\<close>

lemma read_cycles_ok:
  assumes gz: "gz_serves gz view" and "\<forall>c \<in> set css. c \<noteq> [] \<and> (\<forall>l \<in> set c. good_lit n l)"
    and "enterCycles css p = Inr p'" "peek rest \<noteq> CHR ''(''"
    and "sb_ok sb" "content view sb = generator_text n css @ rest"
  shows "\<exists>sb'. read_cycles gz (of_nat n) p sb = Some (Inr (p', sb')) \<and> primed view sb'
    \<and> content view sb' = rest"
  using assms(2-6)
proof (induction css arbitrary: p sb)
  case Nil
  then obtain sb1 where "sb_star gz sb = Inr (peek rest, sb1)" "primed view sb1" "content view sb1 = rest"
    using sb_star_ok [OF gz Nil.prems(4)] by (auto simp: generator_text_def)
  then show ?case using Nil.prems(2,3) by (subst read_cycles.simps) (simp add: enterCycles_def)
next
  case (Cons c css)
  obtain l ls where c: "c = l # ls" using Cons.prems(1) by (cases c) auto
  obtain p1 p2 p3 where p: "addToCurrentCycle p l = Inr p1"
      "foldR (\<lambda>x p. addToCurrentCycle p x) ls p1 = Inr p2" "closeCurrentCycle p2 = Inr p3"
      "enterCycles css p3 = Inr p'"
    using Cons.prems(2) by (auto simp: enterCycles_def c enterCycle_Cons andThen_Inr_iff)
  let ?more = "generator_text n css @ rest"
  let ?t = "decimal (saucy_node n l) @ members_text n ls @ ?more"
  obtain sb1 where sb1: "sb_star gz sb = Inr (CHR ''('', sb1)" "primed view sb1"
      "content view sb1 = CHR ''('' # ?t"
    using sb_star_ok [OF gz Cons.prems(4)] Cons.prems(5) by (auto simp: generator_text_def c)
  obtain sb2 where sb2: "sb_next gz sb1 = Inr sb2" "primed view sb2" "content view sb2 = ?t"
    using sb_next_ok [OF gz sb1(2)] sb1(3) by auto
  have l: "good_lit n l" "\<forall>m \<in> set ls. good_lit n m" using Cons.prems(1) c by simp_all
  from readsD [OF take_int_ok [OF gz l(1) p(1) no_digit_members] primed_ok [OF sb2(2)] sb2(3)]
  obtain sb3 where sb3: "take_int gz (of_nat n) p sb2 = Some (Inr (p1, sb3))" "primed view sb3"
      "content view sb3 = members_text n ls @ ?more" by blast
  obtain sb4 where sb4: "read_members gz (of_nat n) p1 sb3 = Some (Inr (p2, sb4))" "primed view sb4"
      "content view sb4 = CHR '')'' # ?more"
    using read_members_ok [OF gz l(2) p(2) primed_ok [OF sb3(2)] sb3(3)] by auto
  obtain sb5 where sb5: "expect_char gz (CHR '')'') sb4 = Inr sb5" "primed view sb5"
      "content view sb5 = CHR '')'' # ?more"
    using expect_char_ok [OF gz primed_ok [OF sb4(2)] sb4(3)] by blast
  obtain sb6 where sb6: "sb_next gz sb5 = Inr sb6" "primed view sb6" "content view sb6 = ?more"
    using sb_next_ok [OF gz sb5(2)] sb5(3) by auto
  from Cons.IH [OF _ p(4) Cons.prems(3) primed_ok [OF sb6(2)] sb6(3)] Cons.prems(1)
    sb1(1) sb2(1) sb3(1) sb4(1) sb5(1) sb6(1) p(3)
  show ?case by (subst read_cycles.simps) simp
qed

section \<open>Reading a file\<close>

definition enter_generator :: "int32 \<Rightarrow> literal list list \<Rightarrow> group \<Rightarrow> group result" where
  "enter_generator nv css g =
     andThen (enterCycles css (Permutation_new nv)) (\<lambda>p. addPermutation g (Some p))"

definition good_generator :: "nat \<Rightarrow> literal list list \<Rightarrow> bool" where
  "good_generator n css \<longleftrightarrow> css \<noteq> [] \<and> distinct (concat css)
     \<and> (\<forall>c \<in> set css. 2 \<le> length c \<and> (\<forall>l \<in> set c. good_lit n l))"

lemma generator_text_head: "good_generator n css \<Longrightarrow> \<exists>cs. generator_text n css = CHR ''('' # cs"
proof -
  assume "good_generator n css"
  then obtain c css' where css: "css = c # css'" "2 \<le> length c" by (cases css) (auto simp: good_generator_def)
  then obtain l ls where "c = l # ls" by (cases c) auto
  then show ?thesis using css by (simp add: generator_text_def)
qed

text \<open>The end of a generator: a comma and a line break when another one follows.\<close>

definition separator :: "bool \<Rightarrow> string" where
  "separator follow = (if follow then '','' @ [CHR 0x0A] else [])"

lemma end_of_generator_ok:
  assumes gz: "gz_serves gz view" and sb: "sb_ok sb" and c: "content view sb = separator follow @ rest"
    and rest: "\<not> follow \<longrightarrow> peek rest \<noteq> CHR '',''"
  shows "\<exists>sb'. end_of_generator gz sb = Inr sb' \<and> primed view sb' \<and> content view sb' = rest"
proof (cases follow)
  case False
  then obtain sb1 where "sb_star gz sb = Inr (peek rest, sb1)" "primed view sb1" "content view sb1 = rest"
    using sb_star_ok [OF gz sb] c by (auto simp: separator_def)
  then show ?thesis using False rest by (simp add: end_of_generator_def)
next
  case True
  obtain sb1 where sb1: "sb_star gz sb = Inr (CHR '','', sb1)" "primed view sb1"
      "content view sb1 = CHR '','' # CHR 0x0A # rest"
    using sb_star_ok [OF gz sb] c True by (auto simp: separator_def)
  obtain sb2 where sb2: "sb_next gz sb1 = Inr sb2" "primed view sb2" "content view sb2 = CHR 0x0A # rest"
    using sb_next_ok [OF gz sb1(2)] sb1(3) by auto
  obtain sb3 where sb3: "expect_char gz (CHR 0x0A) sb2 = Inr sb3" "primed view sb3"
      "content view sb3 = CHR 0x0A # rest"
    using expect_char_ok [OF gz primed_ok [OF sb2(2)] sb2(3)] by blast
  obtain sb4 where "sb_next gz sb3 = Inr sb4" "primed view sb4" "content view sb4 = rest"
    using sb_next_ok [OF gz sb3(2)] sb3(3) by auto
  with sb1(1) sb2(1) sb3(1) show ?thesis by (simp add: end_of_generator_def)
qed

lemma read_generator_ok:
  assumes gz: "gz_serves gz view" and css: "good_generator n css"
    and g: "enter_generator (of_nat n) css g = Inr g'"
    and sb: "sb_ok sb" "content view sb = generator_text n css @ separator follow @ rest"
    and rest: "\<not> follow \<longrightarrow> peek rest \<noteq> CHR '','' \<and> peek rest \<noteq> CHR ''(''"
  shows "\<exists>sb'. read_generator gz (of_nat n) g sb = Some (Inr (g', sb')) \<and> primed view sb'
    \<and> content view sb' = rest"
proof -
  obtain p where p: "enterCycles css (Permutation_new (of_nat n)) = Inr p" "addPermutation g (Some p) = Inr g'"
    using g by (auto simp: enter_generator_def andThen_Inr_iff)
  obtain cs where cs: "generator_text n css = CHR ''('' # cs" using generator_text_head [OF css] by blast
  obtain sb1 where sb1: "expect_char gz (CHR ''('') sb = Inr sb1" "primed view sb1"
      "content view sb1 = generator_text n css @ separator follow @ rest"
    using expect_char_ok [OF gz sb(1), of "CHR ''(''"] sb(2) cs by auto
  have "\<forall>c \<in> set css. c \<noteq> [] \<and> (\<forall>l \<in> set c. good_lit n l)" using css by (auto simp: good_generator_def)
  moreover have "peek (separator follow @ rest) \<noteq> CHR ''(''" using rest by (auto simp: separator_def)
  ultimately obtain sb2 where sb2: "read_cycles gz (of_nat n) (Permutation_new (of_nat n)) sb1 = Some (Inr (p, sb2))"
      "primed view sb2" "content view sb2 = separator follow @ rest"
    using read_cycles_ok [OF gz _ p(1) _ primed_ok [OF sb1(2)] sb1(3)] by blast
  obtain sb3 where "end_of_generator gz sb2 = Inr sb3" "primed view sb3" "content view sb3 = rest"
    using end_of_generator_ok [OF gz primed_ok [OF sb2(2)] sb2(3)] rest by blast
  with sb1(1) sb2(1) p(2) show ?thesis by (simp add: read_generator_def)
qed

lemma read_generators_ok:
  assumes gz: "gz_serves gz view" and "gens \<noteq> []" "\<forall>css \<in> set gens. good_generator n css"
    and "foldR (enter_generator (of_nat n)) gens g = Inr g'"
    and "sb_ok sb" "content view sb = generators_text n gens"
  shows "\<exists>sb'. read_generators gz (of_nat n) g sb = Some (Inr (g', sb')) \<and> primed view sb'
    \<and> content view sb' = CHR 0x0A # '']''"
  using assms(2-6)
proof (induction gens arbitrary: g sb rule: list_nonempty_induct)
  case (single css)
  then have css: "good_generator n css" "enter_generator (of_nat n) css g = Inr g'"
    by (auto simp: andThen_Inr_iff)
  obtain cs where cs: "generator_text n css = CHR ''('' # cs" using generator_text_head [OF css(1)] by blast
  have c: "content view sb = generator_text n css @ separator False @ CHR 0x0A # '']''"
    using single.prems(4) by (simp add: separator_def)
  obtain sb1 where sb1: "sb_star gz sb = Inr (CHR ''('', sb1)" "primed view sb1"
      "content view sb1 = generator_text n css @ separator False @ CHR 0x0A # '']''"
    using sb_star_ok [OF gz single.prems(3)] c cs by auto
  obtain sb2 where sb2: "read_generator gz (of_nat n) g sb1 = Some (Inr (g', sb2))" "primed view sb2"
      "content view sb2 = CHR 0x0A # '']''"
    using read_generator_ok [OF gz css primed_ok [OF sb1(2)] sb1(3)] by auto
  obtain sb3 where sb3: "sb_star gz sb2 = Inr (CHR 0x0A, sb3)" "primed view sb3" "content view sb3 = CHR 0x0A # '']''"
    using sb_star_ok [OF gz primed_ok [OF sb2(2)]] sb2(3) by auto
  then have "read_generators gz (of_nat n) g' sb2 = Some (Inr (g', sb3))"
    by (subst read_generators.simps) simp
  then show ?case using sb1(1) sb2(1) sb3 by (subst read_generators.simps) simp
next
  case (cons css gens)
  obtain g1 where g1: "enter_generator (of_nat n) css g = Inr g1" "foldR (enter_generator (of_nat n)) gens g1 = Inr g'"
    using cons.prems(2) by (auto simp: andThen_Inr_iff)
  have css: "good_generator n css" "\<forall>css \<in> set gens. good_generator n css" using cons.prems(1) by simp_all
  obtain cs where cs: "generator_text n css = CHR ''('' # cs" using generator_text_head [OF css(1)] by blast
  obtain ds follow where gens: "gens = ds # follow" using cons.hyps(1) by (cases gens) auto
  have c: "content view sb = generator_text n css @ separator True @ generators_text n gens"
    using cons.prems(4) gens by (simp add: separator_def)
  obtain sb1 where sb1: "sb_star gz sb = Inr (CHR ''('', sb1)" "primed view sb1"
      "content view sb1 = generator_text n css @ separator True @ generators_text n gens"
    using sb_star_ok [OF gz cons.prems(3)] c cs by auto
  obtain sb2 where sb2: "read_generator gz (of_nat n) g sb1 = Some (Inr (g1, sb2))" "primed view sb2"
      "content view sb2 = generators_text n gens"
    using read_generator_ok [OF gz css(1) g1(1) primed_ok [OF sb1(2)] sb1(3)] by auto
  from cons.IH [OF css(2) g1(2) primed_ok [OF sb2(2)] sb2(3)] sb1(1) sb2(1)
  show ?case by (subst read_generators.simps) simp
qed

lemma SaucyReader_load_ok:
  assumes gz: "gz_serves gz view" and junk: "length junk = kBufferSize"
    and f: "view f = saucy_text n gens" and gens: "\<forall>css \<in> set gens. good_generator n css"
    and g: "foldR (enter_generator (of_nat n)) gens g = Inr g'"
  shows "SaucyReader_load gz junk f (of_nat n) g = Some (Inr (True, g'))"
proof -
  let ?body = "if gens = [] then '']'' else generators_text n gens"
  obtain sb where sb: "StreamBuffer_new gz junk f = Inr sb" "primed view sb"
      "content view sb = CHR ''['' # CHR 0x0A # ?body"
    using StreamBuffer_new_ok [OF gz junk, of f] f by (auto simp: saucy_text_def)
  obtain sb1 where sb1: "expect_char gz (CHR ''['') sb = Inr sb1" "primed view sb1"
      "content view sb1 = CHR ''['' # CHR 0x0A # ?body"
    using expect_char_ok [OF gz primed_ok [OF sb(2)] sb(3)] by blast
  obtain sb2 where sb2: "sb_next gz sb1 = Inr sb2" "primed view sb2" "content view sb2 = CHR 0x0A # ?body"
    using sb_next_ok [OF gz sb1(2)] sb1(3) by auto
  obtain sb3 where sb3: "expect_char gz (CHR 0x0A) sb2 = Inr sb3" "primed view sb3"
      "content view sb3 = CHR 0x0A # ?body"
    using expect_char_ok [OF gz primed_ok [OF sb2(2)] sb2(3)] by blast
  obtain sb4 where sb4: "sb_next gz sb3 = Inr sb4" "primed view sb4" "content view sb4 = ?body"
    using sb_next_ok [OF gz sb3(2)] sb3(3) by auto
  obtain sb5 where sb5: "sb_star gz sb4 = Inr (peek ?body, sb5)" "primed view sb5" "content view sb5 = ?body"
    using sb_star_ok [OF gz primed_ok [OF sb4(2)]] sb4(3) by auto
  note start = sb(1) sb1(1) sb2(1) sb3(1) sb4(1) sb5(1)
  show ?thesis
  proof (cases "gens = []")
    case True
    then show ?thesis using start g by (simp add: SaucyReader_load_def)
  next
    case False
    then obtain css follow where cm: "gens = css # follow" by (cases gens) auto
    then obtain cs where "generator_text n css = CHR ''('' # cs"
      using generator_text_head [of n css] gens by auto
    then have peek: "peek ?body = CHR ''(''" using cm by (cases follow) auto
    obtain sb6 where sb6: "read_generators gz (of_nat n) g sb5 = Some (Inr (g', sb6))" "primed view sb6"
        "content view sb6 = CHR 0x0A # '']''"
      using read_generators_ok [OF gz False gens g primed_ok [OF sb5(2)]] sb5(3) False by auto
    obtain sb7 where sb7: "sb_next gz sb6 = Inr sb7" "primed view sb7" "content view sb7 = '']''"
      using sb_next_ok [OF gz sb6(2)] sb6(3) by auto
    obtain sb8 where "expect_char gz (CHR '']'') sb7 = Inr sb8"
      using expect_char_ok [OF gz primed_ok [OF sb7(2)] sb7(3)] by blast
    then show ?thesis using start sb6(1) sb7(1) peek False by (simp add: SaucyReader_load_def)
  qed
qed

lemma enter_generator_ok:
  assumes g: "wf_group n g" and css: "good_generator n css"
  shows "\<exists>p g'. enter_generator (of_nat n) css g = Inr g' \<and> wf_group n g' \<and> perm_repr css [] p
    \<and> g_permutations g' = (if signed_perm p then g_permutations g @ [p] else g_permutations g)"
proof -
  have "distinct (concat ([] @ css))" "\<forall>c \<in> set css. 2 \<le> length c"
    using css by (simp_all add: good_generator_def)
  from enterCycles_ok [OF perm_repr_new this] obtain p where
    p: "enterCycles css (Permutation_new (of_nat n)) = Inr p" "perm_repr css [] p"
      "p_size p = p_size (Permutation_new (of_nat n))" by (auto simp del: concat_append)
  obtain c where c: "c \<in> set css" "2 \<le> length c" "\<forall>l \<in> set c. good_lit n l"
    using css by (cases css) (auto simp: good_generator_def)
  then have "c \<noteq> []" by auto
  then have "hd c \<in> set c" by simp
  with c(3) have "good_lit n (hd c)" by blast
  then have "n < 2 ^ 29" by (simp add: good_lit_def)
  then have "unat (p_size p) = n" using p(3) by (simp add: Permutation_new_def unat_of_nat)
  moreover have "\<forall>l \<in> set (p_cycles p). lit_in n l"
    using p(2) css by (auto simp: perm_repr_def good_generator_def good_lit_def)
  ultimately have "perm_in n p" using p(2) by (auto simp: perm_in_def perm_wf_def)
  from addPermutation_ok [OF g this] obtain g' where g': "addPermutation g (Some p) = Inr g'" "wf_group n g'"
      "g_permutations g' = (if p_cycles p \<noteq> [] \<and> signed_perm p then g_permutations g @ [p] else g_permutations g)"
    by blast
  have "p_cycles p \<noteq> []" using perm_cycles_Nil [OF p(2)] css by (simp add: good_generator_def)
  with p g' show ?thesis by (intro exI [of _ p] exI [of _ g']) (simp add: enter_generator_def)
qed

lemma enter_generators_ok:
  assumes "wf_group n g" "\<forall>css \<in> set gens. good_generator n css"
  shows "\<exists>ps g'. foldR (enter_generator (of_nat n)) gens g = Inr g' \<and> wf_group n g'
    \<and> list_all2 (\<lambda>css p. perm_repr css [] p) gens ps
    \<and> g_permutations g' = g_permutations g @ filter signed_perm ps"
  using assms
proof (induction gens arbitrary: g)
  case Nil
  then show ?case by simp
next
  case (Cons css gens)
  have "good_generator n css" using Cons.prems(2) by simp
  from enter_generator_ok [OF Cons.prems(1) this] obtain p g1 where
    g1: "enter_generator (of_nat n) css g = Inr g1" "wf_group n g1" "perm_repr css [] p"
      "g_permutations g1 = (if signed_perm p then g_permutations g @ [p] else g_permutations g)" by blast
  obtain ps g' where "foldR (enter_generator (of_nat n)) gens g1 = Inr g'" "wf_group n g'"
      "list_all2 (\<lambda>css p. perm_repr css [] p) gens ps"
      "g_permutations g' = g_permutations g1 @ filter signed_perm ps"
    using Cons.IH [OF g1(2)] Cons.prems(2) by auto
  with g1 show ?case by (intro exI [of _ "p # ps"] exI [of _ g']) auto
qed

section \<open>Properties\<close>

text \<open>
  C20. Loading the text of a list of generators, in cycle notation over the nodes of the graph,
  terminates and returns true. The group then holds, in order, the permutations with exactly these
  cycles that commute with negation, and its tables are exact. The empty list is a case of its own.
\<close>

lemma load_saucy_file:
  assumes "gz_serves gz view" "length junk = kBufferSize" "view f = saucy_text n gens"
    and "\<forall>css \<in> set gens. good_generator n css"
  shows "\<exists>g ps. SaucyReader_load gz junk f (of_nat n) Group_new = Some (Inr (True, g)) \<and> wf_group n g
    \<and> list_all2 (\<lambda>css p. p_cycles p = concat css \<and> perm_repr css [] p) gens ps
    \<and> g_permutations g = filter signed_perm ps"
proof -
  obtain ps g where g: "foldR (enter_generator (of_nat n)) gens Group_new = Inr g" "wf_group n g"
      "list_all2 (\<lambda>css p. perm_repr css [] p) gens ps"
      "g_permutations g = g_permutations Group_new @ filter signed_perm ps"
    using enter_generators_ok [OF wf_group_new assms(4)] by blast
  have "list_all2 (\<lambda>css p. p_cycles p = concat css \<and> perm_repr css [] p) gens ps"
    using g(3) by (rule list_all2_mono) (simp add: perm_repr_def)
  with SaucyReader_load_ok [OF assms g(1)] g(2,4) show ?thesis by (auto simp: Group_new_def)
qed

definition swap_cycles :: "literal list list" where
  "swap_cycles = [[Literal_var 0 True, Literal_var 1 True], [Literal_var 0 False, Literal_var 1 False]]"

lemma swap_cycles_text: "saucy_text 2 [swap_cycles] = ''['' @ [CHR 0x0A] @ ''(1,2)(3,4)'' @ [CHR 0x0A] @ '']''"
  unfolding swap_cycles_def by code_simp

lemma load_saucy_file_witness:
  "\<exists>g p. SaucyReader_load text_gzread (replicate kBufferSize CHR 0x00)
      (''['' @ [CHR 0x0A] @ ''(1,2)(3,4)'' @ [CHR 0x0A] @ '']'') (of_nat 2) Group_new = Some (Inr (True, g))
    \<and> perm_repr swap_cycles [] p \<and> g_permutations g = filter signed_perm [p]"
proof -
  have "good_generator 2 swap_cycles"
    by (simp add: good_generator_def swap_cycles_def good_lit_def lit_in_def small_var_def literal_eq_iff)
  then have good: "\<forall>css \<in> set [swap_cycles]. good_generator 2 css" by simp
  have input: "id (''['' @ [CHR 0x0A] @ ''(1,2)(3,4)'' @ [CHR 0x0A] @ '']'') = saucy_text 2 [swap_cycles]"
    by (simp only: swap_cycles_text id_apply)
  have junk: "length (replicate kBufferSize CHR 0x00) = kBufferSize" by simp
  obtain g ps where "SaucyReader_load text_gzread (replicate kBufferSize CHR 0x00)
      (''['' @ [CHR 0x0A] @ ''(1,2)(3,4)'' @ [CHR 0x0A] @ '']'') (of_nat 2) Group_new = Some (Inr (True, g))"
      "list_all2 (\<lambda>css p. p_cycles p = concat css \<and> perm_repr css [] p) [swap_cycles] ps"
      "g_permutations g = filter signed_perm ps"
    using load_saucy_file [OF text_gzread_serves, OF junk input good] by (elim exE conjE) (rule that)
  then show ?thesis by (auto simp: list_all2_Cons1)
qed

end
