(* ===== verification/Minisat_Literals.thy ===== *)
theory Minisat_Literals
  imports Literals
begin

text \<open>
  The literals and the lifted booleans of the example solver, \<open>Lit\<close> and \<open>lbool\<close> of
  \<open>examples/solvers/minisat/core/SolverTypes.h\<close> (the copy in \<open>glucose-3.0\<close> declares the same). A
  variable is an \<open>int\<close>, a literal is twice the variable plus its sign; a lifted boolean is a byte
  of which the low bit is the negated value and the second bit says undefined. The lemmas say that
  the bit tables of \<open>&&\<close> and \<open>||\<close> are the connectives of three-valued logic.
\<close>

unbundle bit_operations_syntax

section \<open>Literals\<close>

datatype solver_lit = SLit (sl_x: int32)

definition mkLit :: "int32 \<Rightarrow> bool \<Rightarrow> solver_lit" where
  "mkLit v neg = SLit (v + v + (if neg then 1 else 0))"

definition lit_not :: "solver_lit \<Rightarrow> solver_lit" where
  "lit_not p = SLit (sl_x p XOR 1)"

definition lit_xor :: "solver_lit \<Rightarrow> bool \<Rightarrow> solver_lit" where
  "lit_xor p b = SLit (sl_x p XOR (if b then 1 else 0))"

definition sign :: "solver_lit \<Rightarrow> bool" where
  "sign p \<longleftrightarrow> sl_x p AND 1 \<noteq> 0"

definition var :: "solver_lit \<Rightarrow> int32" where
  "var p = signed_drop_bit 1 (sl_x p)"

definition lit_toInt :: "solver_lit \<Rightarrow> int32" where
  "lit_toInt p = sl_x p"

definition toLit :: "int32 \<Rightarrow> solver_lit" where
  "toLit i = SLit i"

definition lit_Undef :: solver_lit where
  "lit_Undef = SLit (- 2)"

definition lit_Error :: solver_lit where
  "lit_Error = SLit (- 1)"

text \<open>\<open>operator<\<close> compares the integers.\<close>

instantiation solver_lit :: linorder
begin

definition less_eq_solver_lit :: "solver_lit \<Rightarrow> solver_lit \<Rightarrow> bool" where
  "less_eq_solver_lit p q \<longleftrightarrow> sl_x p \<le>s sl_x q"

definition less_solver_lit :: "solver_lit \<Rightarrow> solver_lit \<Rightarrow> bool" where
  "less_solver_lit p q \<longleftrightarrow> sl_x p <s sl_x q"

instance
proof
  fix p q r :: solver_lit
  show "(p < q) = (p \<le> q \<and> \<not> q \<le> p)"
    by (auto simp: less_eq_solver_lit_def less_solver_lit_def word_sle_eq word_sless_alt)
  show "p \<le> p" by (simp add: less_eq_solver_lit_def word_sle_eq)
  show "p \<le> q \<Longrightarrow> q \<le> r \<Longrightarrow> p \<le> r" by (simp add: less_eq_solver_lit_def word_sle_eq)
  show "p \<le> q \<Longrightarrow> q \<le> p \<Longrightarrow> p = q"
    by (rule solver_lit.expand) (simp add: less_eq_solver_lit_def word_sle_eq sint_eq_iff [symmetric])
  show "p \<le> q \<or> q \<le> p" by (auto simp: less_eq_solver_lit_def word_sle_eq)
qed

end

text \<open>
  A solver literal and a literal of the library with the same integer have the same variable and
  the same sign: both encode twice the variable plus the sign.
\<close>

lemma var_as_variable: "var p = variable (Lit (sl_x p))"
  by (simp add: var_def variable_def)

lemma sign_as_isPositive: "sign p \<longleftrightarrow> \<not> isPositive (Lit (sl_x p))"
  by (simp add: sign_def isPositive_def)

lemma lit_not_as_negated: "Lit (sl_x (lit_not p)) = negated (Lit (sl_x p))"
  by (simp add: lit_not_def negated_def negatedIndex_def)

lemma var_lit_not [simp]: "var (lit_not p) = var p"
  by (simp only: var_as_variable lit_not_as_negated variable_negated)

lemma sign_lit_not [simp]: "sign (lit_not p) \<longleftrightarrow> \<not> sign p"
  by (simp only: sign_as_isPositive lit_not_as_negated isPositive_negated)

lemma lit_not_not [simp]: "lit_not (lit_not p) = p"
  by (cases p) (simp add: lit_not_def xor.assoc)

lemma lit_not_neq [simp]: "lit_not p \<noteq> p" "p \<noteq> lit_not p"
  by (metis sign_lit_not)+

lemma lit_xor_simps [simp]: "lit_xor p False = p" "lit_xor p True = lit_not p"
  by (simp_all add: lit_xor_def lit_not_def)

lemma mkLit_as_Literal:
  assumes "small_var v"
  shows "Lit (sl_x (mkLit v neg)) = Literal_var v (\<not> neg)"
proof (rule literal.expand)
  have "unat (v + v + (if neg then 1 else 0)) = 2 * unat v + (if neg then 1 else 0)"
    using assms by (simp add: small_var_def unat_word_ariths)
  then show "index (Lit (sl_x (mkLit v neg))) = index (Literal_var v (\<not> neg))"
    using unat_index_Literal_var [OF assms, of "\<not> neg"]
    by (simp add: mkLit_def word_unat_eq_iff)
qed

lemma var_mkLit [simp]: "small_var v \<Longrightarrow> var (mkLit v neg) = v"
  by (simp add: var_as_variable mkLit_as_Literal)

lemma sign_mkLit [simp]: "small_var v \<Longrightarrow> sign (mkLit v neg) \<longleftrightarrow> neg"
  by (simp add: sign_as_isPositive mkLit_as_Literal)

lemma mkLit_var_sign [simp]:
  assumes "small_var (var p)"
  shows "mkLit (var p) (sign p) = p"
proof -
  have "Lit (sl_x (mkLit (var p) (sign p))) = Lit (sl_x p)"
    using Literal_var_variable [of "Lit (sl_x p)"]
    by (simp add: mkLit_as_Literal [OF assms] var_as_variable [symmetric] sign_as_isPositive)
  then show ?thesis by (intro solver_lit.expand) simp
qed

section \<open>Lifted booleans\<close>

datatype lbool = LBool (lb_value: "8 word")

definition l_True :: lbool where
  "l_True = LBool 0"

definition l_False :: lbool where
  "l_False = LBool 1"

definition l_Undef :: lbool where
  "l_Undef = LBool 2"

definition lbool_of :: "bool \<Rightarrow> lbool" where
  "lbool_of x = LBool (if x then 0 else 1)"

definition lbool_eq :: "lbool \<Rightarrow> lbool \<Rightarrow> bool" where
  "lbool_eq a b \<longleftrightarrow>
     (lb_value b AND 2) AND (lb_value a AND 2) \<noteq> 0
     \<or> lb_value b AND 2 = 0 \<and> lb_value a = lb_value b"

definition lbool_xor :: "lbool \<Rightarrow> bool \<Rightarrow> lbool" where
  "lbool_xor a b = LBool (lb_value a XOR (if b then 1 else 0))"

definition lbool_and :: "lbool \<Rightarrow> lbool \<Rightarrow> lbool" where
  "lbool_and a b =
     (let sel = push_bit 1 (lb_value a) OR push_bit 3 (lb_value b);
          v = drop_bit (unat sel) (0xF7F755F4 :: int32) AND 3
      in LBool (ucast v))"

definition lbool_or :: "lbool \<Rightarrow> lbool \<Rightarrow> lbool" where
  "lbool_or a b =
     (let sel = push_bit 1 (lb_value a) OR push_bit 3 (lb_value b);
          v = drop_bit (unat sel) (0xFCFCF400 :: int32) AND 3
      in LBool (ucast v))"

definition lbool_toInt :: "lbool \<Rightarrow> int32" where
  "lbool_toInt l = ucast (lb_value l)"

definition toLbool :: "int32 \<Rightarrow> lbool" where
  "toLbool v = LBool (ucast v)"

text \<open>The truth value that a lifted boolean stands for. The byte 3 is undefined as 2 is.\<close>

definition truth :: "lbool \<Rightarrow> bool option" where
  "truth a = (if lb_value a AND 2 \<noteq> 0 then None else Some (lb_value a AND 1 = 0))"

definition lbool_ok :: "lbool \<Rightarrow> bool" where
  "lbool_ok a \<longleftrightarrow> lb_value a \<in> {0, 1, 2, 3}"

fun kleene_and :: "bool option \<Rightarrow> bool option \<Rightarrow> bool option" where
  "kleene_and (Some False) b = Some False"
| "kleene_and (Some True) b = b"
| "kleene_and None b = (if b = Some False then Some False else None)"

definition kleene_or :: "bool option \<Rightarrow> bool option \<Rightarrow> bool option" where
  "kleene_or a b = map_option Not (kleene_and (map_option Not a) (map_option Not b))"

definition connectives_ok :: "lbool \<Rightarrow> lbool \<Rightarrow> bool \<Rightarrow> bool" where
  "connectives_ok a b x \<longleftrightarrow> lbool_eq a b = (truth a = truth b)
     \<and> truth (lbool_and a b) = kleene_and (truth a) (truth b)
     \<and> truth (lbool_or a b) = kleene_or (truth a) (truth b)
     \<and> truth (lbool_xor a x) = map_option (\<lambda>v. v \<noteq> x) (truth a)
     \<and> lbool_ok (lbool_and a b) \<and> lbool_ok (lbool_or a b) \<and> lbool_ok (lbool_xor a x)"

lemma connectives_table:
  "\<forall>a \<in> set [LBool 0, LBool 1, LBool 2, LBool 3]. \<forall>b \<in> set [LBool 0, LBool 1, LBool 2, LBool 3].
     \<forall>x \<in> set [False, True]. connectives_ok a b x"
  by code_simp

lemma lbool_ok_cases: "lbool_ok a \<Longrightarrow> a \<in> set [LBool 0, LBool 1, LBool 2, LBool 3]"
  by (cases a) (auto simp: lbool_ok_def)

text \<open>
  On the four bytes that lifted booleans take, equality is equality of the truth values, the
  bit tables of conjunction and disjunction compute the connectives of three-valued logic, \<open>^\<close>
  with true negates a defined value and keeps an undefined one undefined, and every result is
  again one of the four bytes.
\<close>

lemma lbool_connectives:
  assumes "lbool_ok a" "lbool_ok b"
  shows "lbool_eq a b = (truth a = truth b)
    \<and> truth (lbool_and a b) = kleene_and (truth a) (truth b)
    \<and> truth (lbool_or a b) = kleene_or (truth a) (truth b)
    \<and> truth (lbool_xor a x) = map_option (\<lambda>v. v \<noteq> x) (truth a)
    \<and> lbool_ok (lbool_and a b) \<and> lbool_ok (lbool_or a b) \<and> lbool_ok (lbool_xor a x)"
proof -
  have "x \<in> set [False, True]" by simp
  then have "connectives_ok a b x"
    using connectives_table lbool_ok_cases [OF assms(1)] lbool_ok_cases [OF assms(2)] by blast
  then show ?thesis by (simp add: connectives_ok_def)
qed

lemma lbool_connectives_witness:
  "truth (lbool_and l_Undef l_False) = Some False \<and> truth (lbool_or l_Undef l_False) = None"
  using lbool_connectives [of l_Undef l_False True]
  by (simp add: lbool_ok_def l_Undef_def l_False_def truth_def kleene_or_def)

end
