(* ===== verification/Literal_Adapters.thy ===== *)
theory Literal_Adapters
  imports Minisat_Literals
begin

text \<open>
  The class template \<open>LiteralAdapter\<close> of \<open>include/cosy/LiteralAdapter.h\<close>, by which a solver tells
  the controller how its literals are encoded: a record of the two virtual functions. The
  specialisation for the library's own literals and the adapters of the two example solvers are
  its instances. The locale \<open>literal_adapter\<close> states the contract of an adapter; every instance
  is shown to meet it.
\<close>

section \<open>Adapters\<close>

record 'a adapter =
  convertFrom :: "literal \<Rightarrow> 'a"
  convertTo :: "'a \<Rightarrow> literal result"

definition identity_adapter :: "literal adapter" where
  "identity_adapter = \<lparr>convertFrom = \<lambda>l. l, convertTo = \<lambda>l. Inr l\<rparr>"

definition Minisat_convertFrom :: "literal \<Rightarrow> solver_lit" where
  "Minisat_convertFrom l = mkLit (variable l) (isNegative l)"

definition Minisat_convertTo :: "solver_lit \<Rightarrow> literal result" where
  "Minisat_convertTo p = Literal_signed (if sign p then - (var p + 1) else var p + 1)"

definition Glucose_convertFrom :: "literal \<Rightarrow> solver_lit" where
  "Glucose_convertFrom l = mkLit (variable l) (isNegative l)"

definition Glucose_convertTo :: "solver_lit \<Rightarrow> literal result" where
  "Glucose_convertTo p = Literal_signed (if sign p then - (var p + 1) else var p + 1)"

definition MinisatLiteralAdapter :: "solver_lit adapter" where
  "MinisatLiteralAdapter = \<lparr>convertFrom = Minisat_convertFrom, convertTo = Minisat_convertTo\<rparr>"

definition GlucoseLiteralAdapter :: "solver_lit adapter" where
  "GlucoseLiteralAdapter = \<lparr>convertFrom = Glucose_convertFrom, convertTo = Glucose_convertTo\<rparr>"

text \<open>\<open>adaptVector\<close> of the controller converts a clause of the library for the solver.\<close>

definition adaptVector :: "'a adapter \<Rightarrow> literal list \<Rightarrow> 'a list" where
  "adaptVector ad literals = foldl (\<lambda>adapted l. adapted @ [convertFrom ad l]) [] literals"

lemma adaptVector_map: "adaptVector ad ls = map (convertFrom ad) ls"
proof -
  have "foldl (\<lambda>adapted l. adapted @ [convertFrom ad l]) acc ls = acc @ map (convertFrom ad) ls" for acc
    by (induction ls arbitrary: acc) simp_all
  then show ?thesis by (simp add: adaptVector_def)
qed

section \<open>The contract of an adapter\<close>

locale literal_adapter =
  fixes from_lib :: "literal \<Rightarrow> 'a" and to_lib :: "'a \<Rightarrow> literal result" and usable :: "'a \<Rightarrow> bool"
  assumes there_and_back: "small_var (variable l) \<Longrightarrow> usable (from_lib l) \<and> to_lib (from_lib l) = Inr l"
    and back_and_there: "usable x \<Longrightarrow> \<exists>l. to_lib x = Inr l \<and> small_var (variable l) \<and> from_lib l = x"
begin

lemma from_lib_inj: "inj_on from_lib {l. small_var (variable l)}"
  by (rule inj_onI) (metis Inr_inject mem_Collect_eq there_and_back)

lemma from_lib_onto: "from_lib ` {l. small_var (variable l)} = {x. usable x}"
  using there_and_back back_and_there by blast

text \<open>A clause that crosses the interface and comes back is unchanged, in both directions.\<close>

lemma clause_there_and_back:
  assumes "\<forall>l \<in> set ls. small_var (variable l)"
  shows "foldR (\<lambda>x acc. andThen (to_lib x) (\<lambda>l. Inr (acc @ [l]))) (map from_lib ls) acc = Inr (acc @ ls)"
  using assms by (induction ls arbitrary: acc) (simp_all add: there_and_back)

lemma to_lib_inj: "usable x \<Longrightarrow> usable y \<Longrightarrow> to_lib x = to_lib y \<Longrightarrow> x = y"
  using back_and_there [of x] back_and_there [of y] by auto

end

lemma Minisat_convertTo_signed:
  "Minisat_convertTo p = Literal_signed (signedValue (Lit (sl_x p)))"
  by (simp add: Minisat_convertTo_def signedValue_variable var_as_variable sign_as_isPositive)

lemma Minisat_convertFrom_lit: "small_var (variable l) \<Longrightarrow> Lit (sl_x (Minisat_convertFrom l)) = l"
  by (simp add: Minisat_convertFrom_def mkLit_as_Literal)

lemma Minisat_adapter_laws:
  "small_var (variable l) \<Longrightarrow>
    small_var (var (Minisat_convertFrom l)) \<and> Minisat_convertTo (Minisat_convertFrom l) = Inr l"
  "small_var (var p) \<Longrightarrow> \<exists>l. Minisat_convertTo p = Inr l \<and> small_var (variable l) \<and> Minisat_convertFrom l = p"
proof -
  assume v: "small_var (variable l)"
  have "Lit (sl_x (Minisat_convertFrom l)) = l" using v by (rule Minisat_convertFrom_lit)
  then show "small_var (var (Minisat_convertFrom l)) \<and> Minisat_convertTo (Minisat_convertFrom l) = Inr l"
    using v by (simp add: Minisat_convertTo_signed Literal_signed_signedValue var_as_variable)
next
  assume v: "small_var (var p)"
  then have "Minisat_convertTo p = Inr (Lit (sl_x p))"
    by (simp add: Minisat_convertTo_signed Literal_signed_signedValue var_as_variable)
  moreover have "Minisat_convertFrom (Lit (sl_x p)) = p"
    using v by (simp add: Minisat_convertFrom_def var_as_variable [symmetric]
        sign_as_isPositive [symmetric])
  ultimately show "\<exists>l. Minisat_convertTo p = Inr l \<and> small_var (variable l) \<and> Minisat_convertFrom l = p"
    using v by (simp add: var_as_variable)
qed

lemma Glucose_same: "Glucose_convertFrom = Minisat_convertFrom" "Glucose_convertTo = Minisat_convertTo"
  by (auto simp: fun_eq_iff Glucose_convertFrom_def Minisat_convertFrom_def Glucose_convertTo_def
      Minisat_convertTo_def)

interpretation own: literal_adapter "convertFrom identity_adapter" "convertTo identity_adapter"
    "\<lambda>l. small_var (variable l)"
  by unfold_locales (simp_all add: identity_adapter_def)

interpretation minisat: literal_adapter Minisat_convertFrom Minisat_convertTo "\<lambda>p. small_var (var p)"
  by unfold_locales (use Minisat_adapter_laws in blast)+

interpretation glucose: literal_adapter Glucose_convertFrom Glucose_convertTo "\<lambda>p. small_var (var p)"
  unfolding Glucose_same by (rule minisat.literal_adapter_axioms)

section \<open>Properties\<close>

lemma Minisat_signs:
  assumes "\<forall>l \<in> set ls. small_var (variable l)"
  shows "map var (map Minisat_convertFrom ls) = map variable ls"
    "map sign (map Minisat_convertFrom ls) = map isNegative ls"
  using assms by (auto simp: Minisat_convertFrom_def)

lemma Minisat_negates:
  assumes "small_var (var p)"
  shows "\<exists>l. Minisat_convertTo p = Inr l \<and> Minisat_convertTo (lit_not p) = Inr (negated l)
    \<and> variable l = var p \<and> isNegative l = sign p \<and> Minisat_convertFrom l = p"
proof -
  obtain l where l: "Minisat_convertTo p = Inr l" "small_var (variable l)" "Minisat_convertFrom l = p"
    using minisat.back_and_there [OF assms] by blast
  have "Lit (sl_x p) = l" using Minisat_convertFrom_lit [OF l(2)] l(3) by simp
  then have "Lit (sl_x (Minisat_convertFrom (negated l))) = Lit (sl_x (lit_not p))"
    using Minisat_convertFrom_lit [of "negated l"] l(2) unfolding lit_not_as_negated by simp
  then have "Minisat_convertFrom (negated l) = lit_not p" by (intro solver_lit.expand) simp
  then have "Minisat_convertTo (lit_not p) = Inr (negated l)"
    using minisat.there_and_back [of "negated l"] l(2) by simp
  moreover have "variable l = var p" "isNegative l = sign p"
    using l(2,3) by (auto simp: Minisat_convertFrom_def)
  ultimately show ?thesis using l by blast
qed

text \<open>
  C35. The adapters of both example solvers are bijections between the literals of the library and
  the solver's literals over variables below 2^30: in both directions they keep the variable and
  the sign and commute with negation, and a clause that is handed to the solver reads back as the
  same clause.
\<close>

lemma solver_adapters_round_trip:
  assumes "\<forall>l \<in> set ls. small_var (variable l)" and "small_var (var p)"
  shows "foldR (\<lambda>x acc. andThen (convertTo MinisatLiteralAdapter x) (\<lambda>l. Inr (acc @ [l])))
      (adaptVector MinisatLiteralAdapter ls) [] = Inr ls
    \<and> map var (adaptVector MinisatLiteralAdapter ls) = map variable ls
    \<and> map sign (adaptVector MinisatLiteralAdapter ls) = map isNegative ls
    \<and> (\<exists>l. convertTo MinisatLiteralAdapter p = Inr l \<and> convertTo MinisatLiteralAdapter (lit_not p) = Inr (negated l)
         \<and> variable l = var p \<and> isNegative l = sign p \<and> adaptVector MinisatLiteralAdapter [l] = [p])
    \<and> foldR (\<lambda>x acc. andThen (convertTo GlucoseLiteralAdapter x) (\<lambda>l. Inr (acc @ [l])))
      (adaptVector GlucoseLiteralAdapter ls) [] = Inr ls
    \<and> map var (adaptVector GlucoseLiteralAdapter ls) = map variable ls
    \<and> map sign (adaptVector GlucoseLiteralAdapter ls) = map isNegative ls
    \<and> (\<exists>l. convertTo GlucoseLiteralAdapter p = Inr l \<and> convertTo GlucoseLiteralAdapter (lit_not p) = Inr (negated l)
         \<and> variable l = var p \<and> isNegative l = sign p \<and> adaptVector GlucoseLiteralAdapter [l] = [p])"
  using minisat.clause_there_and_back [OF assms(1), of "[]"] Minisat_signs [OF assms(1)] Minisat_negates [OF assms(2)]
  by (simp add: adaptVector_map MinisatLiteralAdapter_def GlucoseLiteralAdapter_def Glucose_same)

lemma solver_adapters_round_trip_witness:
  "adaptVector MinisatLiteralAdapter [Lit 5, Lit 2] = [SLit 5, SLit 2]
   \<and> (\<exists>l. convertTo MinisatLiteralAdapter (SLit 9) = Inr l \<and> variable l = 4 \<and> isNegative l)
   \<and> (\<exists>l. convertTo GlucoseLiteralAdapter (SLit 9) = Inr l \<and> variable l = 4 \<and> isNegative l)"
proof -
  have v: "var (SLit 9) = 4" "variable (Lit 5) = 2" "variable (Lit 2) = 1" by code_simp+
  have s: "sign (SLit 9) = True" by code_simp
  have p: "small_var (var (SLit 9))" unfolding v by (simp add: small_var_def)
  have ls: "\<forall>l \<in> set [Lit 5, Lit 2]. small_var (variable l)" by (simp add: v small_var_def)
  have "adaptVector MinisatLiteralAdapter [Lit 5, Lit 2] = [SLit 5, SLit 2]" by code_simp
  with solver_adapters_round_trip [OF ls p] show ?thesis unfolding v(1) s by blast
qed

end
