(* ===== verification/Controllers.thy ===== *)
theory Controllers
  imports Literal_Adapters Managers Order_Factories CNF_Readers Saucy_Readers Symmetry_Finders
begin

text \<open>
  The class template \<open>SymmetryController\<close> of \<open>include/cosy/SymmetryController.h\<close>, the object a
  solver talks to: it reads the problem, obtains the group of generators from a file or from one
  of the tools, sets up the manager, and forwards every assignment and cancellation of the solver.
  Its invariant ties the group, the assignment, the manager and the injector to one trail. The
  locale \<open>trail_follower\<close> is the contract of an object that is told of every step of a trail.
\<close>

section \<open>State and operations\<close>

record controller =
  c_num_vars :: int32
  c_group :: group
  c_cnf_model :: cnf_model
  c_assignment :: assignment
  c_injector :: clause_injector
  c_cosy_manager :: "manager option"
  c_symmetry_finder :: "symmetry_finder option"

text \<open>The number of variables is not initialised by the constructors: it is an argument.\<close>

definition controller_fields :: "int32 \<Rightarrow> controller" where
  "controller_fields nv =
     \<lparr>c_num_vars = nv, c_group = Group_new, c_cnf_model = CNFModel_new,
      c_assignment = Assignment_empty, c_injector = ClauseInjector_new,
      c_cosy_manager = None, c_symmetry_finder = None\<rparr>"

definition loadCNFProblem ::
    "(string \<Rightarrow> int64) \<Rightarrow> 'f gzread \<Rightarrow> char list \<Rightarrow> 'f \<Rightarrow> controller
      \<Rightarrow> (bool \<times> controller) result option" where
  "loadCNFProblem hash gz junk cnf_file c =
     bindP (CNFReader_load hash gz junk cnf_file (c_cnf_model c)) (\<lambda>(success, m).
       let c1 = c\<lparr>c_cnf_model := m\<rparr> in
       if \<not> success then Some (Inr (False, c1))
       else let nv = ucast (CNFModel_numberOfVariables m) in
            bindP (Some (Assignment_resize (c_assignment c1) nv)) (\<lambda>a.
              Some (Inr (True, c1\<lparr>c_num_vars := nv, c_assignment := a\<rparr>))))"

definition SymmetryController_file ::
    "(string \<Rightarrow> int64) \<Rightarrow> 'f gzread \<Rightarrow> char list \<Rightarrow> int32 \<Rightarrow> 'f \<Rightarrow> 'f \<Rightarrow> controller result option" where
  "SymmetryController_file hash gz junk nv cnf_file sym_file =
     bindP (loadCNFProblem hash gz junk cnf_file (controller_fields nv)) (\<lambda>(success, c).
       if \<not> success then Some (Inr c)
       else bindP (SaucyReader_load gz junk sym_file (c_num_vars c) (c_group c)) (\<lambda>(_, g).
              Some (Inr (c\<lparr>c_group := g\<rparr>))))"

definition SymmetryController_tool ::
    "(string \<Rightarrow> int64) \<Rightarrow> 'f gzread \<Rightarrow> char list
      \<Rightarrow> (bliss_graph \<Rightarrow> int32 list list) \<Rightarrow> (saucy_graph \<Rightarrow> int32 list list)
      \<Rightarrow> int32 \<Rightarrow> 'f \<Rightarrow> Automorphism \<Rightarrow> controller result option" where
  "SymmetryController_tool hash gz junk bliss saucy nv cnf_file tool =
     bindP (loadCNFProblem hash gz junk cnf_file (controller_fields nv)) (\<lambda>(success, c).
       if \<not> success then Some (Inr c)
       else bindP (Some (SymmetryFinder_create (c_cnf_model c) tool)) (\<lambda>f.
            bindP (findAutomorphism bliss saucy f (c_group c)) (\<lambda>g.
              Some (Inr (c\<lparr>c_symmetry_finder := Some f, c_group := g\<rparr>)))))"

definition enableCosy ::
    "((nat \<times> variable list) list \<Rightarrow> (nat \<times> variable list) list) \<Rightarrow> (nat list \<Rightarrow> nat list)
      \<Rightarrow> OrderMode \<Rightarrow> ValueMode \<Rightarrow> controller \<Rightarrow> controller result option" where
  "enableCosy map_ord set_ord vars value c =
     (if numberOfPermutations (c_group c) = 0 then Some (Inr c)
      else bindP (OrderFactory_create map_ord vars value (c_cnf_model c) (c_group c)) (\<lambda>(_, o').
           bindP (Some (defineOrder set_ord (c_group c) CosyManager_new o')) (\<lambda>m.
           bindP (Some (generateUnits m (c_injector c))) (\<lambda>ci.
             Some (Inr (c\<lparr>c_cosy_manager := Some m, c_injector := ci\<rparr>))))))"

definition controller_updateNotify ::
    "'a adapter \<Rightarrow> (nat list \<Rightarrow> nat list) \<Rightarrow> 'a \<Rightarrow> controller \<Rightarrow> controller result" where
  "controller_updateNotify ad set_ord literal_s c =
     andThen (convertTo ad literal_s) (\<lambda>literal_c.
     andThen (assignFromTrueLiteral (c_assignment c) literal_c) (\<lambda>a.
       case c_cosy_manager c of
         None \<Rightarrow> Inr (c\<lparr>c_assignment := a\<rparr>)
       | Some m \<Rightarrow> andThen (manager_updateNotify set_ord (c_group c) a m literal_c (c_injector c))
           (\<lambda>(m', ci). Inr (c\<lparr>c_assignment := a, c_cosy_manager := Some m', c_injector := ci\<rparr>))))"

definition controller_updateCancel ::
    "'a adapter \<Rightarrow> (nat list \<Rightarrow> nat list) \<Rightarrow> 'a \<Rightarrow> controller \<Rightarrow> controller result" where
  "controller_updateCancel ad set_ord literal_s c =
     andThen (convertTo ad literal_s) (\<lambda>literal_c.
     andThen (unassignLiteral (c_assignment c) literal_c) (\<lambda>a.
     andThen (case c_cosy_manager c of
         None \<Rightarrow> Inr None
       | Some m \<Rightarrow> andThen (manager_updateCancel set_ord (c_group c) m literal_c) (\<lambda>m'. Inr (Some m')))
       (\<lambda>mo. Inr (c\<lparr>c_assignment := a, c_cosy_manager := mo,
          c_injector := CI_removeCause (c_injector c) (variable literal_c)\<rparr>))))"

definition hasClauseToInject_for ::
    "'a adapter \<Rightarrow> ClauseType \<Rightarrow> 'a \<Rightarrow> controller \<Rightarrow> bool result" where
  "hasClauseToInject_for ad t literal_s c =
     andThen (convertTo ad literal_s) (\<lambda>literal_c. CI_hasClause (c_injector c) t (variable literal_c))"

definition clauseToInject_for ::
    "'a adapter \<Rightarrow> ClauseType \<Rightarrow> 'a \<Rightarrow> controller \<Rightarrow> ('a list \<times> controller) result" where
  "clauseToInject_for ad t literal_s c =
     andThen (convertTo ad literal_s) (\<lambda>literal_c.
     andThen (CI_getClause (c_injector c) t (variable literal_c)) (\<lambda>(literals_c, ci).
       Inr (adaptVector ad literals_c, c\<lparr>c_injector := ci\<rparr>)))"

definition hasClauseToInject :: "ClauseType \<Rightarrow> controller \<Rightarrow> bool result" where
  "hasClauseToInject t c = CI_hasClause (c_injector c) t kNoBooleanVariable"

definition clauseToInject :: "'a adapter \<Rightarrow> ClauseType \<Rightarrow> controller \<Rightarrow> ('a list \<times> controller) result" where
  "clauseToInject ad t c =
     andThen (CI_getClause (c_injector c) t kNoBooleanVariable) (\<lambda>(literals_c, ci).
       Inr (adaptVector ad literals_c, c\<lparr>c_injector := ci\<rparr>))"

end
