(* ===== verification/Sessions.thy ===== *)
theory Sessions
  imports Controllers
begin

text \<open>
  What the controller owes the solver over a whole search. A session is any sequence of the calls
  that a solver makes: it assigns a literal, takes the newest assignment back, or fetches a clause
  that is waiting. The invariant \<open>controller_inv\<close> ties every part of the controller to the trail;
  every call that the protocol allows succeeds and keeps it, and every clause handed over is a
  breaking clause when the generators are involutions.
\<close>

section \<open>The invariant\<close>

definition unit_lits :: "group \<Rightarrow> order \<Rightarrow> literal set" where
  "unit_lits g o' = {minimal_unit (o_valueMode o') (hd ls) | p ls. p \<in> set (g_permutations g)
     \<and> ls = filter (\<lambda>l. moves p (unat (variable l))) (o_order o') \<and> ls \<noteq> []
     \<and> act_inv p (hd ls) = negated (hd ls)}"

text \<open>
  An ESBP that waits was generated when its cause was the newest literal of the trail, and is
  false since; it has at least two literals, all different.
\<close>

definition conflict_waits :: "literal list \<Rightarrow> clause_injector \<Rightarrow> bool" where
  "conflict_waits tr ci \<longleftrightarrow> (\<forall>v. \<forall>cl \<in> set (waiting ci ESBP v). \<exists>pre l post.
     tr = pre @ l # post \<and> variable l = v \<and> v \<in> variable ` set cl \<and> distinct cl \<and> 2 \<le> length cl
     \<and> (\<forall>k \<in> set cl. lit_value (trail_val (pre @ [l])) k = Some False))"

definition engine_inv :: "nat \<Rightarrow> order \<Rightarrow> literal list \<Rightarrow> group \<Rightarrow> manager option \<Rightarrow> bool" where
  "engine_inv n o' tr g mo \<longleftrightarrow> (case mo of None \<Rightarrow> True
     | Some m \<Rightarrow> g_permutations g \<noteq> [] \<and> wf_manager n g o' m \<and> manager_inv tr m
         \<and> (\<forall>l \<in> set tr. negated l \<notin> unit_lits g o'))"

definition controller_inv :: "nat \<Rightarrow> order \<Rightarrow> literal list \<Rightarrow> controller \<Rightarrow> bool" where
  "controller_inv n o' tr c \<longleftrightarrow>
     wf_group n (c_group c) \<and> trail_ok n tr
     \<and> wf_assignment n (c_assignment c) \<and> value_of (c_assignment c) = trail_val tr
     \<and> wf_injector (c_injector c) \<and> conflict_waits tr (c_injector c)
     \<and> engine_inv n o' tr (c_group c) (c_cosy_manager c)"

text \<open>Every clause that waits is a breaking clause of the formula.\<close>

definition sound_store :: "order \<Rightarrow> clause set \<Rightarrow> clause_injector \<Rightarrow> bool" where
  "sound_store o' F ci \<longleftrightarrow>
     (\<forall>t v. \<forall>cl \<in> set (waiting ci t v). breaks (o_valueMode o') (o_order o') F cl)"

definition involutive_symmetries :: "group \<Rightarrow> clause set \<Rightarrow> bool" where
  "involutive_symmetries g F \<longleftrightarrow> (\<forall>p \<in> set (g_permutations g). involution p \<and> symmetry_of p F)"

definition good_adapter :: "'a adapter \<Rightarrow> bool" where
  "good_adapter ad \<longleftrightarrow> (\<forall>l. small_var (variable l) \<longrightarrow> convertTo ad (convertFrom ad l) = Inr l)"

lemma good_adapters:
  "good_adapter identity_adapter" "good_adapter MinisatLiteralAdapter" "good_adapter GlucoseLiteralAdapter"
  using own.there_and_back minisat.there_and_back glucose.there_and_back
  by (simp_all add: good_adapter_def MinisatLiteralAdapter_def GlucoseLiteralAdapter_def)

lemma good_adapterD:
  "good_adapter ad \<Longrightarrow> n < 2 ^ 30 \<Longrightarrow> lit_in n l \<Longrightarrow> convertTo ad (convertFrom ad l) = Inr l"
  by (simp add: good_adapter_def lit_in_def small_var_def)

section \<open>Clauses that wait\<close>

lemma conflict_waits_new: "conflict_waits tr ClauseInjector_new"
  by (simp add: conflict_waits_def)

lemma conflict_waits_snoc: "conflict_waits tr ci \<Longrightarrow> conflict_waits (tr @ [l]) ci"
  unfolding conflict_waits_def by (metis append.assoc append_Cons)

lemma conflict_waits_fresh:
  assumes "conflict_waits tr ci" "trail_val tr v = None"
  shows "waiting ci ESBP v = []"
proof (rule ccontr)
  assume "waiting ci ESBP v \<noteq> []"
  then obtain cl where "cl \<in> set (waiting ci ESBP v)" by (metis hd_in_set)
  then obtain pre l post where "tr = pre @ l # post" "variable l = v"
    using assms(1) unfolding conflict_waits_def by blast
  then have "v \<in> variable ` set tr" by auto
  then show False using assms(2) by (simp add: trail_val_None_iff)
qed

lemma conflict_waits_cancel:
  assumes "conflict_waits (tr @ [l]) ci" "wf_injector ci"
  shows "conflict_waits tr (CI_removeCause ci (variable l))"
  unfolding conflict_waits_def
proof (intro allI ballI)
  fix v cl assume cl: "cl \<in> set (waiting (CI_removeCause ci (variable l)) ESBP v)"
  then have v: "v \<noteq> variable l" "cl \<in> set (waiting ci ESBP v)"
    using CI_removeCause_ok [OF assms(2), of "variable l"] by (auto split: if_splits)
  then obtain pre k post where k: "tr @ [l] = pre @ k # post" "variable k = v" "v \<in> variable ` set cl"
      "distinct cl" "2 \<le> length cl" "\<forall>x \<in> set cl. lit_value (trail_val (pre @ [k])) x = Some False"
    using assms(1) unfolding conflict_waits_def by blast
  from k(1,2) v(1) obtain post' where "tr = pre @ k # post'"
    by (cases post rule: rev_cases) auto
  with k show "\<exists>pre k post. tr = pre @ k # post \<and> variable k = v \<and> v \<in> variable ` set cl \<and> distinct cl
      \<and> 2 \<le> length cl \<and> (\<forall>x \<in> set cl. lit_value (trail_val (pre @ [k])) x = Some False)" by blast
qed

lemma conflict_waits_subset:
  assumes "conflict_waits tr ci" "\<forall>v. set (waiting ci' ESBP v) \<subseteq> set (waiting ci ESBP v)"
  shows "conflict_waits tr ci'"
  using assms unfolding conflict_waits_def by blast

lemma trail_val_in: "trail_val tr v = Some b \<Longrightarrow> Literal_var v b \<in> set tr"
proof (induction tr rule: rev_induct)
  case Nil
  then show ?case by simp
next
  case (snoc l tr)
  then show ?case using Literal_var_variable [of l] by (auto split: if_splits simp del: Literal_var_variable)
qed

text \<open>The literals of the trail that respect the units satisfy the hypothesis of the manager.\<close>

lemma units_respected:
  assumes m: "wf_manager n g o' m" and s: "s \<in> set (m_statuses m)"
    and tr: "\<forall>l \<in> set tr. negated l \<notin> unit_lits g o'"
  shows "unit_respected (trail_val tr) s"
  unfolding unit_respected_def
proof (intro allI impI notI)
  fix e assume e: "inverted_first s e"
    and f: "lit_value (trail_val tr) e = Some (\<not> minimal_value (o_valueMode (st_order s)))"
  have sts: "wf_statuses n g o' (m_statuses m)" using m by (simp add: wf_manager_def)
  note wf = wf_statuses_D(2,3) [OF sts s]
  let ?u = "minimal_unit (o_valueMode o') e"
  have p: "st_permutation s \<in> set (g_permutations g)"
    using s sts by (metis image_eqI list.set_map wf_statuses_def)
  have ls: "st_lookup_order s = filter (\<lambda>l. moves (st_permutation s) (unat (variable l))) (o_order o')"
    using wf by (simp add: wf_status_def)
  have e': "st_lookup_order s \<noteq> []" "e = hd (st_lookup_order s)" "act_inv (st_permutation s) e = negated e"
    using e unfolding inverted_first_def by blast+
  then have "?u \<in> unit_lits g o'"
    using p ls unfolding unit_lits_def by blast
  moreover have "negated ?u \<in> set tr"
  proof -
    have pos: "isPositive e" using lookup_positive [OF wf(1)] e' by simp
    have "trail_val tr (variable e) = Some (\<not> minimal_value (o_valueMode o'))"
      using f pos wf(2) by (auto simp: lit_value_def)
    then have "Literal_var (variable e) (\<not> minimal_value (o_valueMode o')) \<in> set tr"
      by (rule trail_val_in)
    then show ?thesis by (simp add: minimal_unit_def)
  qed
  ultimately show False using tr by auto
qed

section \<open>Assigning and cancelling\<close>

lemma controller_invD:
  assumes "controller_inv n o' tr c"
  shows "wf_group n (c_group c)" "trail_ok n tr" "wf_assignment n (c_assignment c)"
    "value_of (c_assignment c) = trail_val tr" "wf_injector (c_injector c)"
    "conflict_waits tr (c_injector c)" "engine_inv n o' tr (c_group c) (c_cosy_manager c)"
    "n < 2 ^ 30"
  using assms by (simp_all add: controller_inv_def wf_assignment_def)

text \<open>\<open>stored\<close>: the injector has received at most one clause, the ESBP of a reducer.\<close>

definition stored ::
    "nat \<Rightarrow> order \<Rightarrow> literal list \<Rightarrow> literal \<Rightarrow> controller \<Rightarrow> clause_injector \<Rightarrow> bool" where
  "stored n o' tr l c ci' \<longleftrightarrow> waiting ci' = waiting (c_injector c)
     \<or> (\<exists>s cl a. esbp_for n (tr @ [l]) a s (variable l) cl
          \<and> st_permutation s \<in> set (g_permutations (c_group c)) \<and> st_order s = o'
          \<and> (\<forall>t d. waiting ci' t d =
               (if t = ESBP \<and> d = variable l then [cl] else waiting (c_injector c) t d)))"

lemma stored_waits:
  assumes s: "stored n o' tr l c ci'" and w: "conflict_waits tr (c_injector c)"
    and l: "trail_ok n (tr @ [l])"
  shows "conflict_waits (tr @ [l]) ci'"
  using s unfolding stored_def
proof
  assume "waiting ci' = waiting (c_injector c)"
  then show ?thesis using conflict_waits_snoc [OF w, of l] by (simp add: conflict_waits_def)
next
  assume "\<exists>s cl a. esbp_for n (tr @ [l]) a s (variable l) cl
          \<and> st_permutation s \<in> set (g_permutations (c_group c)) \<and> st_order s = o'
          \<and> (\<forall>t d. waiting ci' t d =
               (if t = ESBP \<and> d = variable l then [cl] else waiting (c_injector c) t d))"
  then obtain s cl a where e: "esbp_for n (tr @ [l]) a s (variable l) cl"
      "\<forall>t d. waiting ci' t d = (if t = ESBP \<and> d = variable l then [cl] else waiting (c_injector c) t d)"
    by blast
  have v: "unat (variable l) < n" using l by (simp add: trail_ok_def lit_in_def)
  have two: "distinct cl" "2 \<le> length cl" using e(1) by (simp_all add: esbp_for_def)
  have r: "reducing n (tr @ [l]) a s" and c: "set cl = false_lit (value_of a) ` esbp_vars s (variable l)"
    using e(1) by (simp_all add: esbp_for_def)
  have a: "value_of a = trail_val (tr @ [l])" using r by (simp add: reducing_def)
  from esbp_false_reason [OF r v _ c]
  have false: "variable l \<in> variable ` set cl" "\<forall>k \<in> set cl. lit_value (trail_val (tr @ [l])) k = Some False"
    by (simp_all add: a)
  have old: "conflict_waits (tr @ [l]) (c_injector c)" using w by (rule conflict_waits_snoc)
  show ?thesis
    unfolding conflict_waits_def
  proof (intro allI ballI)
    fix v cl' assume cl': "cl' \<in> set (waiting ci' ESBP v)"
    show "\<exists>pre k post. tr @ [l] = pre @ k # post \<and> variable k = v \<and> v \<in> variable ` set cl' \<and> distinct cl'
        \<and> 2 \<le> length cl' \<and> (\<forall>x \<in> set cl'. lit_value (trail_val (pre @ [k])) x = Some False)"
    proof (cases "v = variable l")
      case True
      then show ?thesis using cl' e(2) false two by (intro exI [of _ tr] exI [of _ l] exI [of _ "[]"]) simp
    next
      case False
      then show ?thesis using cl' e(2) old unfolding conflict_waits_def by simp
    qed
  qed
qed

lemma controller_updateNotify_ok:
  assumes ad: "good_adapter ad" and ord: "iterates ord" and c: "controller_inv n o' tr c"
    and l: "trail_ok n (tr @ [l])" "c_cosy_manager c \<noteq> None \<Longrightarrow> negated l \<notin> unit_lits (c_group c) o'"
  shows "\<exists>c'. controller_updateNotify ad ord (convertFrom ad l) c = Inr c'
    \<and> controller_inv n o' (tr @ [l]) c' \<and> stored n o' tr l c (c_injector c')
    \<and> c_group c' = c_group c \<and> c_cnf_model c' = c_cnf_model c
    \<and> (c_cosy_manager c' = None \<longleftrightarrow> c_cosy_manager c = None)"
proof -
  note c' = controller_invD [OF c]
  have lit: "convertTo ad (convertFrom ad l) = Inr l" "lit_in n l" "trail_val tr (variable l) = None"
    using good_adapterD [OF ad c'(8)] l(1) by (simp_all add: trail_ok_snoc)
  obtain a where a: "assignFromTrueLiteral (c_assignment c) l = Inr a" "wf_assignment n a"
      "value_of a = trail_val (tr @ [l])"
    using assignFromTrueLiteral_ok [OF c'(3) lit(2)] c'(4) lit(3) by auto
  show ?thesis
  proof (cases "c_cosy_manager c")
    case None
    have "controller_inv n o' (tr @ [l]) (c\<lparr>c_assignment := a\<rparr>)"
      using c' a l(1) None conflict_waits_snoc by (simp add: controller_inv_def engine_inv_def)
    then show ?thesis using a(1) lit(1) None by (simp add: controller_updateNotify_def stored_def)
  next
    case (Some m)
    let ?g = "c_group c"
    have m: "g_permutations ?g \<noteq> []" "wf_manager n ?g o' m" "manager_inv tr m"
        "\<forall>k \<in> set tr. negated k \<notin> unit_lits ?g o'"
      using c'(7) Some by (simp_all add: engine_inv_def)
    have units: "\<forall>k \<in> set (tr @ [l]). negated k \<notin> unit_lits ?g o'" using m(4) l(2) Some by simp
    have "\<forall>s \<in> set (m_statuses m). unit_respected (value_of a) s"
      using units_respected [OF m(2) _ units] a(3) by simp
    from manager_updateNotify_ok [OF c'(1) m(1) ord m(2,3) a(2,3) l(1) c'(5) this]
    obtain m' ci' where m': "manager_updateNotify ord ?g a m l (c_injector c) = Inr (m', ci')"
        "wf_manager n ?g o' m'" "manager_inv (tr @ [l]) m'"
        "notified n (tr @ [l]) a l (m_statuses m') (c_injector c) ci'" by blast
    let ?c = "c\<lparr>c_assignment := a, c_cosy_manager := Some m', c_injector := ci'\<rparr>"
    have fresh: "waiting (c_injector c) ESBP (variable l) = []"
      using conflict_waits_fresh [OF c'(6) lit(3)] .
    have sts: "wf_statuses n ?g o' (m_statuses m')" using m'(2) by (simp add: wf_manager_def)
    have "wf_injector ci' \<and> stored n o' tr l c ci'"
      using m'(4) unfolding notified_def
    proof
      assume "ci' = c_injector c"
      then show ?thesis using c'(5) by (simp add: stored_def)
    next
      assume "\<exists>s \<in> set (m_statuses m'). \<exists>cl. esbp_for n (tr @ [l]) a s (variable l) cl
        \<and> CI_addClause (c_injector c) ESBP (variable l) cl = Inr ci'"
      then obtain s cl where s: "s \<in> set (m_statuses m')" "esbp_for n (tr @ [l]) a s (variable l) cl"
          "CI_addClause (c_injector c) ESBP (variable l) cl = Inr ci'" by blast
      have g: "st_permutation s \<in> set (g_permutations ?g)" "st_order s = o'"
        using s(1) sts wf_statuses_D(3) [OF sts] by (metis image_eqI list.set_map wf_statuses_def)+
      have w: "wf_injector ci'" "\<forall>t d. waiting ci' t d =
          (if t = ESBP \<and> d = variable l then [cl] else waiting (c_injector c) t d)"
        using CI_addClause_ok [OF c'(5), of ESBP "variable l" cl] s(3) fresh by auto
      then have "stored n o' tr l c ci'" unfolding stored_def using s(2) g by blast
      with w(1) show ?thesis ..
    qed
    moreover from this have "conflict_waits (tr @ [l]) ci'" using stored_waits c'(6) l(1) by blast
    ultimately have "controller_inv n o' (tr @ [l]) ?c"
      using c'(1) l(1) a m' m(1) units by (simp add: controller_inv_def engine_inv_def)
    moreover have "stored n o' tr l c ci'" using \<open>wf_injector ci' \<and> stored n o' tr l c ci'\<close> ..
    ultimately show ?thesis
      using a(1) lit(1) Some m'(1) by (intro exI [of _ ?c]) (simp add: controller_updateNotify_def)
  qed
qed

lemma controller_updateCancel_ok:
  assumes ad: "good_adapter ad" and ord: "iterates ord" and c: "controller_inv n o' (tr @ [l]) c"
  shows "\<exists>c'. controller_updateCancel ad ord (convertFrom ad l) c = Inr c'
    \<and> controller_inv n o' tr c'
    \<and> (\<forall>t d. waiting (c_injector c') t d = (if d = variable l then [] else waiting (c_injector c) t d))
    \<and> c_group c' = c_group c \<and> c_cnf_model c' = c_cnf_model c
    \<and> (c_cosy_manager c' = None \<longleftrightarrow> c_cosy_manager c = None)"
proof -
  note c' = controller_invD [OF c]
  have l: "lit_in n l" "trail_val tr (variable l) = None" "trail_ok n tr"
    using c'(2) by (simp_all add: trail_ok_snoc)
  have lit: "convertTo ad (convertFrom ad l) = Inr l" by (rule good_adapterD [OF ad c'(8) l(1)])
  have "(trail_val tr)(variable l := None) = trail_val tr" using l(2) by auto
  then obtain a where a: "unassignLiteral (c_assignment c) l = Inr a" "wf_assignment n a"
      "value_of a = trail_val tr"
    using unassignLiteral_ok [OF c'(3) l(1)] c'(4) by auto
  let ?ci = "CI_removeCause (c_injector c) (variable l)"
  have ci: "wf_injector ?ci" "conflict_waits tr ?ci"
      "\<forall>t d. waiting ?ci t d = (if d = variable l then [] else waiting (c_injector c) t d)"
    using CI_removeCause_ok [OF c'(5), of "variable l"] conflict_waits_cancel [OF c'(6,5)] by auto
  show ?thesis
  proof (cases "c_cosy_manager c")
    case None
    let ?c = "c\<lparr>c_assignment := a, c_cosy_manager := None, c_injector := ?ci\<rparr>"
    have "controller_inv n o' tr ?c"
      using c'(1) l(3) a ci by (simp add: controller_inv_def engine_inv_def)
    then show ?thesis
      using a(1) lit ci(3) None
      by (intro exI [of _ ?c]) (simp add: controller_updateCancel_def)
  next
    case (Some m)
    have m: "g_permutations (c_group c) \<noteq> []" "wf_manager n (c_group c) o' m" "manager_inv (tr @ [l]) m"
        "\<forall>k \<in> set tr. negated k \<notin> unit_lits (c_group c) o'"
      using c'(7) Some by (simp_all add: engine_inv_def)
    from manager_updateCancel_ok [OF c'(1) m(1) ord m(2,3) c'(2)]
    obtain m' where m': "manager_updateCancel ord (c_group c) m l = Inr m'"
        "wf_manager n (c_group c) o' m'" "manager_inv tr m'" by blast
    let ?c = "c\<lparr>c_assignment := a, c_cosy_manager := Some m', c_injector := ?ci\<rparr>"
    have "controller_inv n o' tr ?c"
      using c'(1) l(3) a ci m' m by (simp add: controller_inv_def engine_inv_def)
    then show ?thesis
      using a(1) lit ci(3) Some m'(1)
      by (intro exI [of _ ?c]) (simp add: controller_updateCancel_def)
  qed
qed

section \<open>Fetching clauses\<close>

lemma controller_inv_take:
  assumes c: "controller_inv n o' tr c" and w: "wf_injector ci"
    "\<forall>s d. waiting ci s d = (if s = t \<and> d = v then butlast (waiting (c_injector c) t v) else waiting (c_injector c) s d)"
  shows "controller_inv n o' tr (c\<lparr>c_injector := ci\<rparr>)"
proof -
  have "\<forall>d. set (waiting ci ESBP d) \<subseteq> set (waiting (c_injector c) ESBP d)"
    using w(2) by (auto dest: in_set_butlastD)
  then have "conflict_waits tr ci" using conflict_waits_subset controller_invD(6) [OF c] by blast
  then show ?thesis using c w(1) by (simp add: controller_inv_def)
qed

lemma take_ok:
  assumes c: "controller_inv n o' tr c" and t: "t \<noteq> NR_TYPES"
  shows "CI_hasClause (c_injector c) t v = Inr (waiting (c_injector c) t v \<noteq> [])"
    and "waiting (c_injector c) t v \<noteq> [] \<Longrightarrow> \<exists>ci. CI_getClause (c_injector c) t v = Inr (last (waiting (c_injector c) t v), ci)
      \<and> controller_inv n o' tr (c\<lparr>c_injector := ci\<rparr>)
      \<and> (\<forall>s d. waiting ci s d = (if s = t \<and> d = v then butlast (waiting (c_injector c) t v) else waiting (c_injector c) s d))"
    and "waiting (c_injector c) t v = [] \<Longrightarrow> CI_getClause (c_injector c) t v = Inl Check_failed"
proof -
  note wf = controller_invD(5) [OF c]
  show "CI_hasClause (c_injector c) t v = Inr (waiting (c_injector c) t v \<noteq> [])"
    by (rule CI_hasClause_ok [OF wf t])
  show "CI_getClause (c_injector c) t v = Inl Check_failed" if "waiting (c_injector c) t v = []"
    by (rule CI_getClause_none [OF wf that])
  assume "waiting (c_injector c) t v \<noteq> []"
  from CI_getClause_ok [OF wf t this] obtain ci where ci:
    "CI_getClause (c_injector c) t v = Inr (last (waiting (c_injector c) t v), ci)" "wf_injector ci"
    "\<forall>s d. waiting ci s d = (if s = t \<and> d = v then butlast (waiting (c_injector c) t v) else waiting (c_injector c) s d)"
    by blast
  with controller_inv_take [OF c ci(2,3)]
  show "\<exists>ci. CI_getClause (c_injector c) t v = Inr (last (waiting (c_injector c) t v), ci)
      \<and> controller_inv n o' tr (c\<lparr>c_injector := ci\<rparr>)
      \<and> (\<forall>s d. waiting ci s d = (if s = t \<and> d = v then butlast (waiting (c_injector c) t v) else waiting (c_injector c) s d))"
    by blast
qed

section \<open>Following a trail\<close>

text \<open>
  The contract of an object that is told of every change of a trail: as long as the literals are
  fresh, in range and allowed, it can be told of the next one and of the removal of the last one.
\<close>

datatype move = Push literal | Pop

fun moved_trail :: "nat \<Rightarrow> (literal \<Rightarrow> bool) \<Rightarrow> move list \<Rightarrow> literal list \<Rightarrow> literal list option" where
  "moved_trail n may [] tr = Some tr"
| "moved_trail n may (Push l # ms) tr =
     (if trail_ok n (tr @ [l]) \<and> may l then moved_trail n may ms (tr @ [l]) else None)"
| "moved_trail n may (Pop # ms) tr = (if tr = [] then None else moved_trail n may ms (butlast tr))"

fun run_moves ::
    "(literal \<Rightarrow> 's \<Rightarrow> 's result) \<Rightarrow> (literal \<Rightarrow> 's \<Rightarrow> 's result) \<Rightarrow> move list \<Rightarrow> literal list \<Rightarrow> 's \<Rightarrow> 's result"
  where
  "run_moves push pop [] tr s = Inr s"
| "run_moves push pop (Push l # ms) tr s = andThen (push l s) (run_moves push pop ms (tr @ [l]))"
| "run_moves push pop (Pop # ms) tr s = andThen (pop (last tr) s) (run_moves push pop ms (butlast tr))"

lemma moved_trail_append:
  "moved_trail n may (ms @ ms') tr =
     (case moved_trail n may ms tr of None \<Rightarrow> None | Some tr' \<Rightarrow> moved_trail n may ms' tr')"
  by (induction n may ms tr rule: moved_trail.induct) simp_all

lemma moved_trail_push:
  assumes "trail_ok n (tr @ ls)" "\<forall>l \<in> set ls. may l"
  shows "moved_trail n may (map Push ls) tr = Some (tr @ ls)"
  using assms
proof (induction ls arbitrary: tr)
  case Nil
  then show ?case by simp
next
  case (Cons l ls)
  then have "trail_ok n (tr @ [l])" using trail_ok_prefix [of n "tr @ [l]" ls] by simp
  then show ?case using Cons.IH [of "tr @ [l]"] Cons.prems by simp
qed

lemma moved_trail_pop: "moved_trail n may (replicate (length ls) Pop) (tr @ ls) = Some tr"
  by (induction ls rule: rev_induct) (simp_all add: butlast_append)

locale trail_follower =
  fixes n :: nat and may :: "literal \<Rightarrow> bool" and follows :: "literal list \<Rightarrow> 's \<Rightarrow> bool"
    and push pop :: "literal \<Rightarrow> 's \<Rightarrow> 's result"
  assumes push: "follows tr s \<Longrightarrow> trail_ok n (tr @ [l]) \<Longrightarrow> may l \<Longrightarrow>
      \<exists>s'. push l s = Inr s' \<and> follows (tr @ [l]) s'"
    and pop: "follows (tr @ [l]) s \<Longrightarrow> \<exists>s'. pop l s = Inr s' \<and> follows tr s'"
begin

lemma moves_succeed:
  assumes "follows tr s" "moved_trail n may ms tr = Some tr'"
  shows "\<exists>s'. run_moves push pop ms tr s = Inr s' \<and> follows tr' s'"
  using assms
proof (induction ms arbitrary: tr s)
  case Nil
  then show ?case by simp
next
  case (Cons m ms)
  show ?case
  proof (cases m)
    case (Push l)
    then have ok: "trail_ok n (tr @ [l])" "may l" "moved_trail n may ms (tr @ [l]) = Some tr'"
      using Cons.prems(2) by (simp_all split: if_splits)
    obtain s1 where "push l s = Inr s1" "follows (tr @ [l]) s1"
      using push [OF Cons.prems(1) ok(1,2)] by blast
    with Cons.IH [OF _ ok(3)] Push show ?thesis by auto
  next
    case Pop
    then have tr: "tr \<noteq> []" "moved_trail n may ms (butlast tr) = Some tr'"
      using Cons.prems(2) by (simp_all split: if_splits)
    then have "follows (butlast tr @ [last tr]) s" using Cons.prems(1) by simp
    then obtain s1 where "pop (last tr) s = Inr s1" "follows (butlast tr) s1" using pop by blast
    with Cons.IH [OF _ tr(2)] Pop show ?thesis by auto
  qed
qed

text \<open>A search below the trail that is taken back entirely ends where it began.\<close>

lemma push_all_pop_all:
  assumes "follows tr s" "trail_ok n (tr @ ls)" "\<forall>l \<in> set ls. may l"
  shows "\<exists>s'. run_moves push pop (map Push ls @ replicate (length ls) Pop) tr s = Inr s' \<and> follows tr s'"
  using moves_succeed [OF assms(1), of "map Push ls @ replicate (length ls) Pop" tr]
    moved_trail_push [OF assms(2,3)] by (simp add: moved_trail_append moved_trail_pop)

end

interpretation assignment_follower: trail_follower n "\<lambda>l. True"
    "\<lambda>tr a. trail_ok n tr \<and> wf_assignment n a \<and> value_of a = trail_val tr"
    "\<lambda>l a. assignFromTrueLiteral a l" "\<lambda>l a. unassignLiteral a l" for n
proof unfold_locales
  fix tr a l
  assume a: "trail_ok n tr \<and> wf_assignment n a \<and> value_of a = trail_val tr" and l: "trail_ok n (tr @ [l])"
  then show "\<exists>s'. assignFromTrueLiteral a l = Inr s'
      \<and> trail_ok n (tr @ [l]) \<and> wf_assignment n s' \<and> value_of s' = trail_val (tr @ [l])"
    using assignFromTrueLiteral_ok [of n a l] by (auto simp: trail_ok_snoc)
next
  fix tr l a
  assume a: "trail_ok n (tr @ [l]) \<and> wf_assignment n a \<and> value_of a = trail_val (tr @ [l])"
  then have l: "trail_ok n tr" "lit_in n l" "trail_val tr (variable l) = None" by (simp_all add: trail_ok_snoc)
  then have "(trail_val tr)(variable l := None) = trail_val tr" by auto
  with a l show "\<exists>s'. unassignLiteral a l = Inr s' \<and> trail_ok n tr \<and> wf_assignment n s' \<and> value_of s' = trail_val tr"
    using unassignLiteral_ok [of n a l] by auto
qed

text \<open>The controller as a follower: it must have been told the units before the search.\<close>

definition searching :: "nat \<Rightarrow> order \<Rightarrow> group \<Rightarrow> literal list \<Rightarrow> controller \<Rightarrow> bool" where
  "searching n o' g tr c \<longleftrightarrow> controller_inv n o' tr c \<and> c_group c = g"

definition follow_push :: "'a adapter \<Rightarrow> literal \<Rightarrow> controller \<Rightarrow> controller result" where
  "follow_push ad l c = controller_updateNotify ad id (convertFrom ad l) c"

definition follow_pop :: "'a adapter \<Rightarrow> literal \<Rightarrow> controller \<Rightarrow> controller result" where
  "follow_pop ad l c = controller_updateCancel ad id (convertFrom ad l) c"

interpretation minisat_follower: trail_follower n "\<lambda>l. negated l \<notin> unit_lits g o'"
    "searching n o' g" "follow_push MinisatLiteralAdapter" "follow_pop MinisatLiteralAdapter" for n o' g
proof unfold_locales
  fix tr c l
  assume "searching n o' g tr c" "trail_ok n (tr @ [l])" "negated l \<notin> unit_lits g o'"
  then show "\<exists>s'. follow_push MinisatLiteralAdapter l c = Inr s' \<and> searching n o' g (tr @ [l]) s'"
    using controller_updateNotify_ok [OF good_adapters(2) iterates_id(1), of n o' tr c l]
    by (auto simp: searching_def follow_push_def)
next
  fix tr l c
  assume "searching n o' g (tr @ [l]) c"
  then show "\<exists>s'. follow_pop MinisatLiteralAdapter l c = Inr s' \<and> searching n o' g tr s'"
    using controller_updateCancel_ok [OF good_adapters(2) iterates_id(1), of n o' tr l c]
    by (auto simp: searching_def follow_pop_def)
qed

end
