(* ===== verification/Controller_Startup.thy ===== *)
theory Controller_Startup
  imports Sessions
begin

text \<open>
  The start of the controller: both constructors on the text of a problem, and \<open>enableCosy\<close>.
  \<open>good_problem\<close> collects what the text has to satisfy; the lemmas show that the constructors and
  \<open>enableCosy\<close> succeed on it and establish the invariant of \<open>Sessions\<close>.
\<close>

section \<open>Problems\<close>

definition dimacs_vars :: "literal list list \<Rightarrow> nat" where
  "dimacs_vars css = Max (insert 1 (\<Union>c \<in> set css. (\<lambda>l. Suc (unat (variable l))) ` set c))"

definition good_problem :: "(string \<Rightarrow> int64) \<Rightarrow> literal list list \<Rightarrow> bool" where
  "good_problem hash css \<longleftrightarrow> css \<noteq> []
     \<and> (\<forall>c \<in> set css. c \<noteq> [] \<and> (\<forall>l \<in> set c. unat (variable l) < 2 ^ 30 - 1 \<and> negated l \<notin> set c))
     \<and> sum_list (map length css) < 2 ^ 30
     \<and> inj_on (compute_tag hash) (normal_form ` set css)"

text \<open>\<open>serves_problem gz view junk f css\<close>: the file is a DIMACS text of the clauses with its header.\<close>

definition serves_problem ::
    "'f gzread \<Rightarrow> ('f \<Rightarrow> char list) \<Rightarrow> char list \<Rightarrow> 'f \<Rightarrow> literal list list \<Rightarrow> bool" where
  "serves_problem gz view junk f css \<longleftrightarrow> gz_serves gz view \<and> length junk = kBufferSize
     \<and> (\<exists>cs. (\<forall>s \<in> set cs. \<forall>c \<in> set s. \<not> line_end c) \<and> view f = dimacs_text (map Comment cs
          @ Header (of_nat (dimacs_vars css)) (of_nat (length css)) # map Clause_line css))"

lemma set_normal_form [simp]: "set (normal_form c) = set c"
  by (simp add: normal_form_def)

lemma length_normal_form: "length (normal_form c) \<le> length c"
  unfolding normal_form_def by (metis length_sort remdups_adj_length)

lemma entered_dimacs_vars:
  assumes m: "entered_model hash apart css m" and css: "\<forall>c \<in> set css. c \<noteq> []"
  shows "num_vars m = dimacs_vars css"
proof -
  let ?S = "insert 1 (\<Union>c \<in> set css. (\<lambda>l. Suc (unat (variable l))) ` set c)"
  have fin: "finite ?S" by simp
  have "1 \<le> num_vars m" by (simp add: num_vars_def)
  then have up: "x \<le> num_vars m" if "x \<in> ?S" for x
    using that m by (auto simp: entered_model_def lit_below_def Suc_le_eq)
  have "num_vars m \<in> ?S" using m unfolding entered_model_def by blast
  with up fin show ?thesis unfolding dimacs_vars_def by (intro Max_eqI [symmetric])
qed

lemma length_all_clause_edges:
  "\<forall>c \<in> set cs. c \<noteq> [] \<Longrightarrow> length (all_clause_edges n k cs) \<le> sum_list (map length cs)"
proof (induction cs arbitrary: k)
  case Nil
  then show ?case by simp
next
  case (Cons c cs)
  have "length (clause_edges n k c) \<le> length c" by (simp add: clause_edges_def)
  moreover have "length (all_clause_edges n (next_clause c k) cs) \<le> sum_list (map length cs)"
    using Cons by simp
  ultimately show ?case by simp
qed

lemma length_le_total: "\<forall>c \<in> set css. c \<noteq> [] \<Longrightarrow> length css \<le> sum_list (map length css)"
proof (induction css)
  case Nil
  then show ?case by simp
next
  case (Cons c css)
  then have "1 \<le> length c" by (cases c) auto
  with Cons show ?case by simp
qed

lemma clause_nodes_bound: "\<forall>c \<in> set cs. c \<noteq> [] \<Longrightarrow> clause_nodes cs \<le> sum_list (map length cs)"
  unfolding clause_nodes_def by (rule order_trans [OF length_filter_le length_le_total])

lemma stored_size:
  assumes "wf_cnf hash m" "set (clause_lists m) \<subseteq> normal_form ` set css"
  shows "sum_list (map length (clause_lists m)) \<le> sum_list (map length css)"
proof -
  have d: "distinct (clause_lists m)"
  proof -
    have "cm_clauses_tag m = map (compute_tag hash) (clause_lists m)" "distinct (cm_clauses_tag m)"
      using assms(1) unfolding wf_cnf_def by blast+
    then have "distinct (map (compute_tag hash) (clause_lists m))" by metis
    then show ?thesis unfolding distinct_map by (rule conjunct1)
  qed
  have "sum_list (map length (clause_lists m)) = sum length (set (clause_lists m))"
    by (rule sum_list_distinct_conv_sum_set [OF d])
  also have "\<dots> \<le> sum length (normal_form ` set css)"
    using assms(2) by (intro sum_mono2) simp_all
  also have "\<dots> \<le> sum (\<lambda>c. length (normal_form c)) (set css)"
    using sum_image_le [of "set css" length normal_form] by (simp add: o_def)
  also have "\<dots> \<le> sum length (set css)" by (intro sum_mono length_normal_form)
  also have "\<dots> \<le> sum_list (map length css)"
    by (induction css) (auto simp: sum.insert_if)
  finally show ?thesis .
qed

lemma good_problem_model:
  assumes p: "good_problem hash css" and m: "entered_model hash True css m"
  shows "wf_cnf hash m" "small_model m" "no_tautologies m" "num_vars m < 2 ^ 30"
    "set (clause_lists m) = normal_form ` set css"
proof -
  let ?cs = "clause_lists m"
  show wf: "wf_cnf hash m" and cs: "set ?cs = normal_form ` set css"
    using m by (simp_all add: entered_model_def)
  have ne: "\<forall>c \<in> set ?cs. c \<noteq> []" using wf unfolding wf_cnf_def by blast
  have n: "num_vars m = dimacs_vars css"
    using p entered_dimacs_vars [OF m] by (simp add: good_problem_def)
  have "dimacs_vars css < 2 ^ 30"
    unfolding dimacs_vars_def using p by (subst Max_less_iff) (auto simp: good_problem_def)
  then show small: "num_vars m < 2 ^ 30" using n by simp
  have "sum_list (map length ?cs) \<le> sum_list (map length css)"
    using stored_size [OF wf, of css] cs by simp
  then have size: "sum_list (map length ?cs) < 2 ^ 30" using p by (simp add: good_problem_def)
  have "length c \<le> sum_list (map length ?cs)" if "c \<in> set ?cs" for c
    using member_le_sum_list [of "length c" "map length ?cs"] that by simp
  then show "small_model m"
    using small size length_all_clause_edges [OF ne, of "num_vars m" "2 * num_vars m"] clause_nodes_bound [OF ne]
    by (fastforce simp: small_model_def model_edges_def consistency_edges_def)
  show "no_tautologies m"
    using p cs unfolding no_tautologies_def good_problem_def by fastforce
qed

section \<open>The constructors\<close>

text \<open>A controller that has just been constructed for a model.\<close>

definition fresh_controller :: "nat \<Rightarrow> cnf_model \<Rightarrow> controller \<Rightarrow> bool" where
  "fresh_controller n m c \<longleftrightarrow> c_cnf_model c = m \<and> c_num_vars c = of_nat n
     \<and> wf_group n (c_group c)
     \<and> wf_assignment n (c_assignment c) \<and> value_of (c_assignment c) = Map.empty
     \<and> c_injector c = ClauseInjector_new \<and> c_cosy_manager c = None"

lemma loadCNFProblem_ok:
  assumes p: "good_problem hash css" and f: "serves_problem gz view junk f css"
  shows "\<exists>m c. loadCNFProblem hash gz junk f (controller_fields nv) = Some (Inr (True, c))
    \<and> entered_model hash True css m \<and> fresh_controller (num_vars m) m c \<and> c_group c = Group_new"
proof -
  obtain cs where gz: "gz_serves gz view" "length junk = kBufferSize"
      and cs: "\<forall>s \<in> set cs. \<forall>c \<in> set s. \<not> line_end c"
      and content: "view f = dimacs_text (map Comment cs @ Header (of_nat (dimacs_vars css)) (of_nat (length css))
          # map Clause_line css)"
    using f unfolding serves_problem_def by blast
  have css: "\<forall>c \<in> set css. c \<noteq> [] \<and> (\<forall>l \<in> set c. lit_below (2 ^ 30) l)"
    using p by (fastforce simp: good_problem_def lit_below_def)
  have inj: "inj_on (compute_tag hash) (normal_form ` set css)" using p by (simp add: good_problem_def)
  obtain m where m: "CNFReader_load hash gz junk f CNFModel_new =
      Some (Inr (CNFModel_numberOfVariables m = ucast (of_nat (dimacs_vars css) :: int32)
        \<and> cm_num_clauses m = ucast (of_nat (length css) :: int32), m))"
      "entered_model hash True css m"
    using CNFReader_load_ok [OF gz content cs css, of hash] inj by auto
  note good = good_problem_model [OF p m(2)]
  have n: "num_vars m = dimacs_vars css" using entered_dimacs_vars [OF m(2)] css by blast
  have num: "CNFModel_numberOfVariables m = of_nat (num_vars m)"
    using numberOfVariables_num_vars [of m] good(4) by simp
  have "length css \<le> sum_list (map length css)"
    using css by (intro length_le_total) blast
  then have "length css < 2 ^ 30" using p by (simp add: good_problem_def)
  then have "cm_num_clauses m = ucast (of_nat (length css) :: int32)"
    using m(2) by (simp add: entered_model_def word_unat_eq_iff unsigned_ucast_eq unat_of_nat take_bit_nat_eq_self)
  moreover have "CNFModel_numberOfVariables m = ucast (of_nat (dimacs_vars css) :: int32)"
    using num n good(4) by (simp add: word_unat_eq_iff unsigned_ucast_eq unat_of_nat take_bit_nat_eq_self)
  ultimately have load: "CNFReader_load hash gz junk f CNFModel_new = Some (Inr (True, m))"
    using m(1) by simp
  have nv: "(ucast (CNFModel_numberOfVariables m) :: int32) = of_nat (num_vars m)"
    using num good(4) by (simp add: word_unat_eq_iff unsigned_ucast_eq unat_of_nat take_bit_nat_eq_self)
  obtain a where a: "Assignment_new (of_nat (num_vars m)) = Inr a" "wf_assignment (num_vars m) a"
      "value_of a = Map.empty"
    using Assignment_new_ok [of "of_nat (num_vars m)"] good(4) by (auto simp: unat_of_nat)
  let ?c = "(controller_fields nv)\<lparr>c_cnf_model := m, c_num_vars := of_nat (num_vars m), c_assignment := a\<rparr>"
  have "loadCNFProblem hash gz junk f (controller_fields nv) = Some (Inr (True, ?c))"
    using load a(1) by (simp add: loadCNFProblem_def controller_fields_def Assignment_new_def nv Let_def)
  moreover have "fresh_controller (num_vars m) m ?c" "c_group ?c = Group_new"
    using a(2,3) wf_group_new by (simp_all add: fresh_controller_def controller_fields_def)
  ultimately show ?thesis using m(2) by blast
qed

lemma SymmetryController_tool_ok:
  assumes p: "good_problem hash css" and f: "serves_problem gz view junk f css"
    and bliss: "\<And>b aut. aut \<in> set (bliss b) \<Longrightarrow> bliss_automorphism b aut"
    and saucy: "\<And>s aut. aut \<in> set (saucy s) \<Longrightarrow> saucy_automorphism s aut"
  shows "\<exists>m c. SymmetryController_tool hash gz junk bliss saucy nv f tool = Some (Inr c)
    \<and> entered_model hash True css m \<and> fresh_controller (num_vars m) m c
    \<and> (\<forall>p \<in> set (g_permutations (c_group c)). symmetry_of p (normal_form ` set css))"
proof -
  obtain m c where c: "loadCNFProblem hash gz junk f (controller_fields nv) = Some (Inr (True, c))"
      "entered_model hash True css m" "fresh_controller (num_vars m) m c" "c_group c = Group_new"
    using loadCNFProblem_ok [OF p f] by blast
  note good = good_problem_model [OF p c(2)]
  obtain fi g where fi: "SymmetryFinder_create m tool = Inr fi"
      "findAutomorphism bliss saucy fi Group_new = Some (Inr g)" "symmetric_group (num_vars m) (clause_lists m) g"
    using findAutomorphism_ok [OF good(1-3), of bliss saucy tool] bliss saucy by blast
  have m: "c_cnf_model c = m" using c(3) by (simp add: fresh_controller_def)
  let ?c = "c\<lparr>c_symmetry_finder := Some fi, c_group := g\<rparr>"
  have "SymmetryController_tool hash gz junk bliss saucy nv f tool = Some (Inr ?c)"
    using c(1,4) fi(1,2) m by (simp add: SymmetryController_tool_def)
  moreover have "fresh_controller (num_vars m) m ?c"
    using c(3) fi(3) by (simp add: fresh_controller_def symmetric_group_def)
  ultimately show ?thesis
    using c(2) fi(3) good(5) by (intro exI [of _ m] exI [of _ ?c]) (simp add: symmetric_group_def)
qed

lemma SymmetryController_file_ok:
  assumes p: "good_problem hash css" and f: "serves_problem gz view junk f css"
    and n: "n = dimacs_vars css"
    and sym: "view sym_file = saucy_text n gens" "\<forall>gs \<in> set gens. good_generator n gs"
  shows "\<exists>m c ps. SymmetryController_file hash gz junk nv f sym_file = Some (Inr c)
    \<and> entered_model hash True css m \<and> num_vars m = n \<and> fresh_controller n m c
    \<and> list_all2 (\<lambda>gs p. perm_repr gs [] p) gens ps
    \<and> g_permutations (c_group c) = filter signed_perm ps"
proof -
  obtain m c where c: "loadCNFProblem hash gz junk f (controller_fields nv) = Some (Inr (True, c))"
      "entered_model hash True css m" "fresh_controller (num_vars m) m c" "c_group c = Group_new"
    using loadCNFProblem_ok [OF p f] by blast
  have m: "num_vars m = n" using entered_dimacs_vars [OF c(2)] p n by (simp add: good_problem_def)
  have gz: "gz_serves gz view" "length junk = kBufferSize" using f by (simp_all add: serves_problem_def)
  obtain ps g where g: "foldR (enter_generator (of_nat n)) gens Group_new = Inr g" "wf_group n g"
      "list_all2 (\<lambda>gs p. perm_repr gs [] p) gens ps" "g_permutations g = filter signed_perm ps"
    using enter_generators_ok [OF wf_group_new sym(2)] by (auto simp: Group_new_def)
  from SaucyReader_load_ok [OF gz(1), OF gz(2), OF sym(1) sym(2) g(1)]
  have "SymmetryController_file hash gz junk nv f sym_file = Some (Inr (c\<lparr>c_group := g\<rparr>))"
    using c(1,3,4) m by (simp add: SymmetryController_file_def fresh_controller_def)
  moreover have "fresh_controller n m (c\<lparr>c_group := g\<rparr>)"
    using c(3) g(2) m by (simp add: fresh_controller_def)
  ultimately show ?thesis using c(2) g(3,4) m by (intro exI [of _ m] exI [of _ "c\<lparr>c_group := g\<rparr>"] exI [of _ ps]) simp
qed

section \<open>Enabling the engine\<close>

lemma fresh_inv:
  assumes "fresh_controller n m c"
  shows "controller_inv n o' [] c" "sound_store o' F (c_injector c)"
  using assms wf_injector_new conflict_waits_new
  by (simp_all add: fresh_controller_def controller_inv_def engine_inv_def trail_ok_def sound_store_def)

lemma enableCosy_ok:
  assumes c: "fresh_controller n m c" and m: "entered_model hash True css m" "css \<noteq> []" "num_vars m = n" "n < 2 ^ 30"
    and g: "length (g_permutations (c_group c)) < 2 ^ 31"
    and ord: "iterates map_ord" "iterates set_ord"
  shows "\<exists>o' c'. enableCosy map_ord set_ord vars mode c = Some (Inr c')
    \<and> complete_order n o' \<and> o_valueMode o' = mode
    \<and> controller_inv n o' [] c' \<and> c_group c' = c_group c \<and> c_cnf_model c' = m
    \<and> (c_cosy_manager c' = None \<longleftrightarrow> g_permutations (c_group c) = [])
    \<and> ((\<forall>p \<in> set (g_permutations (c_group c)). symmetry_of p F) \<longrightarrow> sound_store o' F (c_injector c'))"
proof -
  let ?g = "c_group c"
  have wf: "wf_group n ?g" and m': "c_cnf_model c = m" and ci: "c_injector c = ClauseInjector_new"
    using c by (simp_all add: fresh_controller_def)
  obtain o' where o': "OrderFactory_create map_ord vars mode m ?g = Some (Inr (order_class vars n ?g, o'))"
      "complete_order n o'" "o_valueMode o' = mode"
    using OrderFactory_create_ok [OF ord(1) wf g m] by blast
  show ?thesis
  proof (cases "g_permutations ?g = []")
    case True
    then have "enableCosy map_ord set_ord vars mode c = Some (Inr c)"
      by (simp add: enableCosy_def numberOfPermutations_def)
    then show ?thesis
      using True o'(2,3) fresh_inv [OF c, of o'] m' c
      by (intro exI [of _ o'] exI [of _ c]) (simp add: fresh_controller_def)
  next
    case False
    have triv: "\<forall>p \<in> set (g_permutations ?g). symmetry_of p F'" if "F' = {}" for F'
      using that by (simp add: symmetry_of_def)
    obtain mg ci' where mg: "defineOrder set_ord ?g CosyManager_new o' = Inr mg"
        "generateUnits mg ClauseInjector_new = Inr ci'" "wf_manager n ?g o' mg" "manager_inv [] mg" "wf_injector ci'"
        "\<forall>t d. waiting ci' t d = waiting ClauseInjector_new t d @
           (if t = UNITS \<and> d = kNoBooleanVariable then concat (map units_of (m_statuses mg)) else [])"
      using units_generated [OF wf False ord(2) o'(2) triv [OF refl] wf_injector_new] by blast
    let ?c = "c\<lparr>c_cosy_manager := Some mg, c_injector := ci'\<rparr>"
    have run: "enableCosy map_ord set_ord vars mode c = Some (Inr ?c)"
      using False o'(1) mg(1,2) ci m' by (simp add: enableCosy_def numberOfPermutations_def)
    have "conflict_waits [] ci'" using mg(6) by (simp add: conflict_waits_def)
    then have inv: "controller_inv n o' [] ?c"
      using c False mg(3-5) by (simp add: fresh_controller_def controller_inv_def engine_inv_def trail_ok_def)
    have "sound_store o' F ci'" if F: "\<forall>p \<in> set (g_permutations ?g). symmetry_of p F"
    proof -
      have "\<forall>cl \<in> set (concat (map units_of (m_statuses mg))). breaks (o_valueMode o') (o_order o') F cl"
        using units_generated [OF wf False ord(2) o'(2) F wf_injector_new] mg(1) by auto
      then show ?thesis using mg(6) by (auto simp: sound_store_def)
    qed
    then show ?thesis
      using run inv o'(2,3) m' False by (intro exI [of _ o'] exI [of _ ?c]) simp
  qed
qed

end
