(* ===== verification/Session_Properties.thy ===== *)
theory Session_Properties
  imports Controller_Startup Order_Properties Finder_Properties Small_Example
begin

text \<open>
  The step relation of the sessions between a solver and the controller and the properties of the
  whole engine: no allowed call fails, every conflict clause is a conflict of the trail, no
  reducer goes unreported, and all the clauses handed over during a search together keep the
  formula satisfiable. The last section starts a session from the text of a problem.
\<close>

section \<open>Sessions\<close>

type_synonym 'a config = "literal list \<times> controller \<times> 'a list list"

inductive solver_step ::
    "'a adapter \<Rightarrow> (nat list \<Rightarrow> nat list) \<Rightarrow> nat \<Rightarrow> literal set \<Rightarrow> 'a config \<Rightarrow> 'a config \<Rightarrow> bool"
  for ad ord n units where
  assigns: "trail_ok n (tr @ [l]) \<Longrightarrow> negated l \<notin> units \<Longrightarrow>
    controller_updateNotify ad ord (convertFrom ad l) c = Inr c' \<Longrightarrow>
    solver_step ad ord n units (tr, c, log) (tr @ [l], c', log)"
| cancels: "controller_updateCancel ad ord (convertFrom ad l) c = Inr c' \<Longrightarrow>
    solver_step ad ord n units (tr @ [l], c, log) (tr, c', log)"
| fetches: "lit_in n l \<Longrightarrow> hasClauseToInject_for ad t (convertFrom ad l) c = Inr True \<Longrightarrow>
    clauseToInject_for ad t (convertFrom ad l) c = Inr (cl, c') \<Longrightarrow>
    solver_step ad ord n units (tr, c, log) (tr, c', log @ [cl])"
| fetches_any: "hasClauseToInject t c = Inr True \<Longrightarrow> clauseToInject ad t c = Inr (cl, c') \<Longrightarrow>
    solver_step ad ord n units (tr, c, log) (tr, c', log @ [cl])"

inductive_cases solver_stepE: "solver_step ad ord n units (tr, c, log) (tr', c', log')"

definition session ::
    "'a adapter \<Rightarrow> (nat list \<Rightarrow> nat list) \<Rightarrow> nat \<Rightarrow> order \<Rightarrow> controller \<Rightarrow> 'a config \<Rightarrow> bool" where
  "session ad ord n o' c0 s \<longleftrightarrow>
     (solver_step ad ord n (unit_lits (c_group c0) o'))\<^sup>*\<^sup>* ([], c0, []) s"

section \<open>Every session keeps the invariant\<close>

lemma fetch_for_Inr:
  assumes c: "controller_inv n o' tr c" and ad: "good_adapter ad" and l: "lit_in n l"
    and has: "hasClauseToInject_for ad t (convertFrom ad l) c = Inr True"
    and get: "clauseToInject_for ad t (convertFrom ad l) c = Inr (cl, c')"
  shows "\<exists>ls. cl = adaptVector ad ls \<and> ls \<in> set (waiting (c_injector c) t (variable l))
    \<and> controller_inv n o' tr c' \<and> c_group c' = c_group c
    \<and> (\<forall>s d. waiting (c_injector c') s d =
         (if s = t \<and> d = variable l then butlast (waiting (c_injector c) t d) else waiting (c_injector c) s d))"
proof -
  have to: "convertTo ad (convertFrom ad l) = Inr l"
    by (rule good_adapterD [OF ad controller_invD(8) [OF c] l])
  have t: "t \<noteq> NR_TYPES"
    using has to wf_injector_len [OF controller_invD(5) [OF c]]
    by (auto simp: hasClauseToInject_for_def CI_hasClause_def vec_at_def)
  have w: "waiting (c_injector c) t (variable l) \<noteq> []"
    using has to take_ok(1) [OF c t] by (simp add: hasClauseToInject_for_def)
  from take_ok(2) [OF c t w] obtain ci where ci:
    "CI_getClause (c_injector c) t (variable l) = Inr (last (waiting (c_injector c) t (variable l)), ci)"
    "controller_inv n o' tr (c\<lparr>c_injector := ci\<rparr>)"
    "\<forall>s d. waiting ci s d = (if s = t \<and> d = variable l then butlast (waiting (c_injector c) t (variable l))
       else waiting (c_injector c) s d)" by blast
  have "cl = adaptVector ad (last (waiting (c_injector c) t (variable l)))" "c' = c\<lparr>c_injector := ci\<rparr>"
    using get to ci(1) by (simp_all add: clauseToInject_for_def)
  with ci w show ?thesis by (intro exI [of _ "last (waiting (c_injector c) t (variable l))"]) simp
qed

lemma fetch_any_Inr:
  assumes c: "controller_inv n o' tr c"
    and has: "hasClauseToInject t c = Inr True" and get: "clauseToInject ad t c = Inr (cl, c')"
  shows "\<exists>ls. cl = adaptVector ad ls \<and> ls \<in> set (waiting (c_injector c) t kNoBooleanVariable)
    \<and> controller_inv n o' tr c' \<and> c_group c' = c_group c
    \<and> (\<forall>s d. set (waiting (c_injector c') s d) \<subseteq> set (waiting (c_injector c) s d))"
proof -
  let ?w = "waiting (c_injector c) t kNoBooleanVariable"
  have t: "t \<noteq> NR_TYPES"
    using has wf_injector_len [OF controller_invD(5) [OF c]]
    by (auto simp: hasClauseToInject_def CI_hasClause_def vec_at_def)
  have w: "?w \<noteq> []" using has take_ok(1) [OF c t] by (simp add: hasClauseToInject_def)
  from take_ok(2) [OF c t w] obtain ci where ci:
    "CI_getClause (c_injector c) t kNoBooleanVariable = Inr (last ?w, ci)"
    "controller_inv n o' tr (c\<lparr>c_injector := ci\<rparr>)"
    "\<forall>s d. waiting ci s d = (if s = t \<and> d = kNoBooleanVariable then butlast ?w else waiting (c_injector c) s d)"
    by blast
  have "cl = adaptVector ad (last ?w)" "c' = c\<lparr>c_injector := ci\<rparr>"
    using get ci(1) by (simp_all add: clauseToInject_def)
  with ci w show ?thesis
    by (intro exI [of _ "last ?w"]) (auto dest: in_set_butlastD)
qed

lemma stored_sound:
  assumes st: "stored n o' tr l c ci'" and g: "involutive_symmetries (c_group c) F"
    and s: "sound_store o' F (c_injector c)"
  shows "sound_store o' F ci'"
  using st unfolding stored_def
proof
  assume "waiting ci' = waiting (c_injector c)"
  then show ?thesis using s by (simp add: sound_store_def)
next
  assume "\<exists>s cl a. esbp_for n (tr @ [l]) a s (variable l) cl
      \<and> st_permutation s \<in> set (g_permutations (c_group c)) \<and> st_order s = o'
      \<and> (\<forall>t d. waiting ci' t d = (if t = ESBP \<and> d = variable l then [cl] else waiting (c_injector c) t d))"
  then obtain s cl a where e: "esbp_for n (tr @ [l]) a s (variable l) cl"
      "st_permutation s \<in> set (g_permutations (c_group c))" "st_order s = o'"
      "\<forall>t d. waiting ci' t d = (if t = ESBP \<and> d = variable l then [cl] else waiting (c_injector c) t d)"
    by blast
  have r: "reducing n (tr @ [l]) a s" and c: "set cl = false_lit (value_of a) ` esbp_vars s (variable l)"
    using e(1) by (simp_all add: esbp_for_def)
  have i: "involution (st_permutation s)" "symmetry_of (st_permutation s) F"
    using g e(2) by (simp_all add: involutive_symmetries_def)
  have "false_lit (value_of a) ` (\<Union>i \<in> {..st_lookup_index s}. pair_vars s i) \<subseteq> set cl"
    unfolding c esbp_vars_def by blast
  from esbp_breaks [OF r involution_first [OF r i(1)] i(2) this] e(3)
  have "breaks (o_valueMode o') (o_order o') F cl" by simp
  then show ?thesis using s e(4) by (simp add: sound_store_def)
qed

text \<open>One step keeps the invariant; the clauses that are handed over were waiting.\<close>

lemma solver_step_inv:
  assumes step: "solver_step ad ord n (unit_lits g o') (tr, c, log) (tr', c', log')"
    and ad: "good_adapter ad" and ord: "iterates ord"
    and c: "controller_inv n o' tr c" "c_group c = g"
  shows "controller_inv n o' tr' c' \<and> c_group c' = g
    \<and> (involutive_symmetries g F \<longrightarrow> sound_store o' F (c_injector c) \<longrightarrow> sound_store o' F (c_injector c')
         \<and> (\<exists>C. log' = log @ map (adaptVector ad) C \<and> (\<forall>cl \<in> set C. breaks (o_valueMode o') (o_order o') F cl)))" (is ?goal)
  using step
proof (rule solver_stepE)
  fix l assume s: "trail_ok n (tr @ [l])" "negated l \<notin> unit_lits g o'"
    "controller_updateNotify ad ord (convertFrom ad l) c = Inr c'" "tr' = tr @ [l]" "log' = log"
  then obtain c1 where "controller_updateNotify ad ord (convertFrom ad l) c = Inr c1"
      "controller_inv n o' (tr @ [l]) c1" "stored n o' tr l c (c_injector c1)" "c_group c1 = c_group c"
    using controller_updateNotify_ok [OF ad ord c(1), of l] c(2) by auto
  then show ?goal using s c(2) stored_sound [of n o' tr l c "c_injector c1" F]
    by (auto intro!: exI [of _ "[]"])
next
  fix l assume s: "tr = tr' @ [l]" "log' = log"
    "controller_updateCancel ad ord (convertFrom ad l) c = Inr c'"
  then obtain c1 where c1: "controller_updateCancel ad ord (convertFrom ad l) c = Inr c1"
      "controller_inv n o' tr' c1" "c_group c1 = c_group c"
      "\<forall>t d. waiting (c_injector c1) t d = (if d = variable l then [] else waiting (c_injector c) t d)"
    using controller_updateCancel_ok [OF ad ord, of n o' tr' l c] c by auto
  then have "sound_store o' F (c_injector c) \<longrightarrow> sound_store o' F (c_injector c1)"
    by (simp add: sound_store_def)
  then show ?goal using s c c1 by (auto intro!: exI [of _ "[]"])
next
  fix l t cl assume s: "lit_in n l" "hasClauseToInject_for ad t (convertFrom ad l) c = Inr True"
    "clauseToInject_for ad t (convertFrom ad l) c = Inr (cl, c')" "tr' = tr" "log' = log @ [cl]"
  from fetch_for_Inr [OF c(1) ad s(1,2,3)] obtain ls where ls: "cl = adaptVector ad ls"
      "ls \<in> set (waiting (c_injector c) t (variable l))" "controller_inv n o' tr c'" "c_group c' = c_group c"
      "\<forall>s d. waiting (c_injector c') s d =
         (if s = t \<and> d = variable l then butlast (waiting (c_injector c) t d) else waiting (c_injector c) s d)"
    by blast
  have "sound_store o' F (c_injector c) \<longrightarrow> sound_store o' F (c_injector c')"
    using ls(5) by (auto simp: sound_store_def dest: in_set_butlastD)
  then show ?goal using s c ls(1-4) by (auto simp: sound_store_def intro!: exI [of _ "[ls]"])
next
  fix t cl assume s: "hasClauseToInject t c = Inr True" "clauseToInject ad t c = Inr (cl, c')"
    "tr' = tr" "log' = log @ [cl]"
  from fetch_any_Inr [OF c(1) s(1,2)] obtain ls where ls: "cl = adaptVector ad ls"
      "ls \<in> set (waiting (c_injector c) t kNoBooleanVariable)" "controller_inv n o' tr c'" "c_group c' = c_group c"
      "\<forall>s d. set (waiting (c_injector c') s d) \<subseteq> set (waiting (c_injector c) s d)"
    by blast
  have "sound_store o' F (c_injector c) \<longrightarrow> sound_store o' F (c_injector c')"
    using ls(5) unfolding sound_store_def by blast
  then show ?goal using s c ls(1-4) by (auto simp: sound_store_def intro!: exI [of _ "[ls]"])
qed

lemma session_inv:
  assumes "session ad ord n o' c0 (tr, c, log)" and ad: "good_adapter ad" and ord: "iterates ord"
    and c0: "controller_inv n o' [] c0"
  shows "controller_inv n o' tr c \<and> c_group c = c_group c0
    \<and> (involutive_symmetries (c_group c0) F \<longrightarrow> sound_store o' F (c_injector c0) \<longrightarrow>
         sound_store o' F (c_injector c)
         \<and> (\<exists>C. log = map (adaptVector ad) C \<and> (\<forall>cl \<in> set C. breaks (o_valueMode o') (o_order o') F cl)))"
proof -
  let ?P = "\<lambda>(tr, c, log). controller_inv n o' tr c \<and> c_group c = c_group c0
    \<and> (involutive_symmetries (c_group c0) F \<longrightarrow> sound_store o' F (c_injector c0) \<longrightarrow>
         sound_store o' F (c_injector c)
         \<and> (\<exists>C. log = map (adaptVector ad) C \<and> (\<forall>cl \<in> set C. breaks (o_valueMode o') (o_order o') F cl)))"
  have "?P s" if "(solver_step ad ord n (unit_lits (c_group c0) o'))\<^sup>*\<^sup>* ([], c0, []) s" for s
    using that
  proof (induction rule: rtranclp_induct)
    case base
    then show ?case using c0 by auto
  next
    case (step s s')
    obtain tr c log tr' c' log' where s: "s = (tr, c, log)" "s' = (tr', c', log')"
      by (metis prod_cases3)
    have inv: "controller_inv n o' tr c" "c_group c = c_group c0" using step.IH s by simp_all
    note kept = solver_step_inv [OF step.hyps(2) [unfolded s] ad ord inv, of F]
    show ?case
    proof (cases "involutive_symmetries (c_group c0) F \<and> sound_store o' F (c_injector c0)")
      case True
      then obtain C where "sound_store o' F (c_injector c)" "log = map (adaptVector ad) C"
          "\<forall>cl \<in> set C. breaks (o_valueMode o') (o_order o') F cl"
        using step.IH s by auto
      moreover from kept True calculation(1) obtain D where "log' = log @ map (adaptVector ad) D"
          "\<forall>cl \<in> set D. breaks (o_valueMode o') (o_order o') F cl" "sound_store o' F (c_injector c')"
        by blast
      ultimately show ?thesis using kept s by (auto intro!: exI [of _ "C @ D"])
    next
      case False
      then show ?thesis using kept s by auto
    qed
  qed
  from this [of "(tr, c, log)"] assms(1) show ?thesis by (simp add: session_def)
qed

section \<open>Properties of the sessions\<close>

text \<open>
  C2. No call that the protocol allows ever fails. In every session that starts from a sound
  controller, every fresh literal in range that respects the units can be notified, the newest
  literal can be cancelled, and asking for a clause, of a literal or of a type only, answers
  whether one is stored there, after which a clause can be fetched exactly when the answer was yes.
\<close>

theorem session_never_fails:
  assumes "good_adapter ad" "iterates ord" "controller_inv n o' [] c0"
    and "session ad ord n o' c0 (tr, c, log)"
  shows "trail_ok n tr
    \<and> (\<forall>l. trail_ok n (tr @ [l]) \<and> negated l \<notin> unit_lits (c_group c0) o' \<longrightarrow>
         (\<exists>c'. controller_updateNotify ad ord (convertFrom ad l) c = Inr c'))
    \<and> (tr \<noteq> [] \<longrightarrow> (\<exists>c'. controller_updateCancel ad ord (convertFrom ad (last tr)) c = Inr c'))
    \<and> (\<forall>l t. lit_in n l \<and> t \<noteq> NR_TYPES \<longrightarrow>
         (\<exists>b. hasClauseToInject_for ad t (convertFrom ad l) c = Inr b
            \<and> (b \<longleftrightarrow> waiting (c_injector c) t (variable l) \<noteq> [])
            \<and> (b \<longleftrightarrow> (\<exists>x. clauseToInject_for ad t (convertFrom ad l) c = Inr x))))
    \<and> (\<forall>t. t \<noteq> NR_TYPES \<longrightarrow>
         (\<exists>b. hasClauseToInject t c = Inr b
            \<and> (b \<longleftrightarrow> waiting (c_injector c) t kNoBooleanVariable \<noteq> [])
            \<and> (b \<longleftrightarrow> (\<exists>x. clauseToInject ad t c = Inr x))))"
proof -
  have c: "controller_inv n o' tr c" "c_group c = c_group c0"
    using session_inv [OF assms(4,1,2,3)] by blast+
  have cancel: "\<exists>c'. controller_updateCancel ad ord (convertFrom ad (last tr)) c = Inr c'" if "tr \<noteq> []"
    using controller_updateCancel_ok [OF assms(1,2), of n o' "butlast tr" "last tr" c] c(1) that by auto
  have fetch: "\<exists>b. hasClauseToInject_for ad t (convertFrom ad l) c = Inr b
      \<and> (b \<longleftrightarrow> waiting (c_injector c) t (variable l) \<noteq> [])
      \<and> (b \<longleftrightarrow> (\<exists>x. clauseToInject_for ad t (convertFrom ad l) c = Inr x))"
    if "lit_in n l" "t \<noteq> NR_TYPES" for l t
    using good_adapterD [OF assms(1) controller_invD(8) [OF c(1)] that(1)] take_ok [OF c(1) that(2), of "variable l"]
    by (cases "waiting (c_injector c) t (variable l) = []")
      (auto simp: hasClauseToInject_for_def clauseToInject_for_def)
  have fetch_any: "\<exists>b. hasClauseToInject t c = Inr b
      \<and> (b \<longleftrightarrow> waiting (c_injector c) t kNoBooleanVariable \<noteq> []) \<and> (b \<longleftrightarrow> (\<exists>x. clauseToInject ad t c = Inr x))"
    if "t \<noteq> NR_TYPES" for t
    using take_ok [OF c(1) that, of kNoBooleanVariable]
    by (cases "waiting (c_injector c) t kNoBooleanVariable = []")
      (auto simp: hasClauseToInject_def clauseToInject_def)
  have notify: "\<exists>c'. controller_updateNotify ad ord (convertFrom ad l) c = Inr c'"
    if "trail_ok n (tr @ [l])" "negated l \<notin> unit_lits (c_group c0) o'" for l
    using controller_updateNotify_ok [OF assms(1,2) c(1) that(1)] that(2) c(2) by auto
  have "trail_ok n tr" by (rule controller_invD(2) [OF c(1)])
  with notify cancel fetch fetch_any show ?thesis by blast
qed

text \<open>
  C1. The clauses of a whole session are sound together. When every generator is an involution
  that maps the formula to itself and the store holds breaking clauses at the start, all the
  clauses that the solver fetches in any session can be added to the formula at once: if the
  formula has a model, it has one that satisfies all of them.
\<close>

theorem session_keeps_satisfiability:
  assumes "good_adapter ad" "iterates ord" "controller_inv n o' [] c0"
    and "involutive_symmetries (c_group c0) F" "sound_store o' F (c_injector c0)"
    and "session ad ord n o' c0 (tr, c, log)" "sat_all \<tau> F"
  shows "\<exists>C \<tau>'. log = map (adaptVector ad) C \<and> sat_all \<tau>' (F \<union> set C)"
proof -
  obtain C where "log = map (adaptVector ad) C" "\<forall>cl \<in> set C. breaks (o_valueMode o') (o_order o') F cl"
    using session_inv [OF assms(6,1,2,3), of F] assms(4,5) by blast
  with breaks_keep_model [OF assms(7), of "set C"] show ?thesis by blast
qed

text \<open>
  C4. A conflict clause is delivered in time. Whenever an ESBP waits for the newest literal of the
  trail, fetching it gives a clause that contains the variable of the literal and of which every
  literal is false in the trail, so the solver can analyse it as a conflict; afterwards no ESBP
  waits for the literal.
\<close>

theorem conflict_is_delivered:
  assumes "good_adapter ad" "iterates ord" "controller_inv n o' [] c0"
    and "session ad ord n o' c0 (tr @ [l], c, log)"
    and "hasClauseToInject_for ad ESBP (convertFrom ad l) c = Inr True"
  shows "\<exists>cl c'. clauseToInject_for ad ESBP (convertFrom ad l) c = Inr (adaptVector ad cl, c')
    \<and> variable l \<in> variable ` set cl
    \<and> (\<forall>k \<in> set cl. lit_value (trail_val (tr @ [l])) k = Some False)
    \<and> hasClauseToInject_for ad ESBP (convertFrom ad l) c' = Inr False"
proof -
  have c: "controller_inv n o' (tr @ [l]) c" using session_inv [OF assms(4,1,2,3)] by blast
  have trail: "trail_ok n (tr @ [l])" and l: "lit_in n l"
    using controller_invD(2) [OF c] by (simp_all add: trail_ok_snoc)
  have to: "convertTo ad (convertFrom ad l) = Inr l"
    by (rule good_adapterD [OF assms(1) controller_invD(8) [OF c] l])
  let ?w = "waiting (c_injector c) ESBP (variable l)"
  have w: "?w \<noteq> []" using assms(5) take_ok(1) [OF c, of ESBP] to by (simp add: hasClauseToInject_for_def)
  then obtain cl c' where cl: "clauseToInject_for ad ESBP (convertFrom ad l) c = Inr (adaptVector ad cl, c')"
      "cl = last ?w"
    using take_ok(2) [OF c _ w] to by (auto simp: clauseToInject_for_def)
  have "unat kNoBooleanVariable = 2 ^ 32 - 1"
    by (simp add: kNoBooleanVariable_def unsigned_minus_1_eq_mask mask_eq_exp_minus_1)
  then have "variable l \<noteq> kNoBooleanVariable"
    using l controller_invD(8) [OF c] by (auto simp: lit_in_def)
  then have "length ?w \<le> 1"
    using wf_injector_slot [OF controller_invD(5) [OF c], of 1 "variable l"]
      wf_injector_len [OF controller_invD(5) [OF c]]
    by (simp add: waiting_def)
  then have "butlast ?w = []" by (cases ?w) auto
  moreover from fetch_for_Inr [OF c assms(1) l assms(5) cl(1)]
  have c': "controller_inv n o' (tr @ [l]) c'" "waiting (c_injector c') ESBP (variable l) = butlast ?w" by auto
  ultimately have "hasClauseToInject_for ad ESBP (convertFrom ad l) c' = Inr False"
    using take_ok(1) [OF c'(1), of ESBP] to by (simp add: hasClauseToInject_for_def)
  moreover obtain pre k post where k: "tr @ [l] = pre @ k # post" "variable k = variable l"
      "variable l \<in> variable ` set cl" "\<forall>x \<in> set cl. lit_value (trail_val (pre @ [k])) x = Some False"
    using controller_invD(6) [OF c] w cl(2) unfolding conflict_waits_def by (metis last_in_set)
  have "post = []"
    using k(1,2) trail by (cases post rule: rev_cases) (auto simp: trail_ok_def)
  then have "pre @ [k] = tr @ [l]" using k(1) by simp
  ultimately show ?thesis using cl(1) k(3,4) by auto
qed

text \<open>
  A notification that leaves no conflict clause waiting brings every generator that moves the variable up to
  date and leaves the others alone.
\<close>

lemma silent_notification:
  assumes ad: "good_adapter ad" "iterates ord" and c: "controller_inv n o' tr c" and l: "trail_ok n (tr @ [l])"
    and run: "controller_updateNotify ad ord (convertFrom ad l) c = Inr c'" "c_cosy_manager c' = Some m'"
    and silent: "waiting (c_injector c') ESBP (variable l) = []"
  obtains a m "is" where "wf_assignment n a" "value_of a = trail_val (tr @ [l])"
    "wf_statuses n (c_group c) o' (m_statuses m)" "manager_inv tr m"
    "set is = {i. i < length (g_permutations (c_group c)) \<and> moves (g_permutations (c_group c) ! i) (unat (variable l))}"
    "length (m_statuses m') = length (m_statuses m)"
    "\<forall>i < length (m_statuses m). i \<notin> set is \<longrightarrow> m_statuses m' ! i = m_statuses m ! i"
    "\<forall>i \<in> set is. status_updateNotify a (m_statuses m ! i) l = Inr (m_statuses m' ! i)
       \<and> st_state (m_statuses m' ! i) \<noteq> REDUCER"
proof -
  note inv = controller_invD [OF c]
  have l': "lit_in n l" "unat (variable l) < n" using l by (simp_all add: trail_ok_snoc lit_in_def)
  have to: "convertTo ad (convertFrom ad l) = Inr l" by (rule good_adapterD [OF ad(1) inv(8) l'(1)])
  obtain a where a: "assignFromTrueLiteral (c_assignment c) l = Inr a" "wf_assignment n a"
      "value_of a = trail_val (tr @ [l])"
    using assignFromTrueLiteral_ok [OF inv(3) l'(1)] inv(4) l by (auto simp: trail_ok_snoc)
  obtain m where m: "c_cosy_manager c = Some m"
    using run to a(1) by (auto simp: controller_updateNotify_def split: option.splits)
  then obtain ci where n: "manager_updateNotify ord (c_group c) a m l (c_injector c) = Inr (m', ci)"
      "c_injector c' = ci"
    using run to a(1) by (auto simp: controller_updateNotify_def run_simps)
  have g: "g_permutations (c_group c) \<noteq> []" "wf_statuses n (c_group c) o' (m_statuses m)" "manager_inv tr m"
    using inv(7) m by (simp_all add: engine_inv_def wf_manager_def)
  obtain "is" where is': "watch ord (c_group c) (variable l) = Inr is" "distinct is"
      "set is = {i. i < length (g_permutations (c_group c)) \<and> moves (g_permutations (c_group c) ! i) (unat (variable l))}"
    using watch_ok [OF inv(1) ad(2) g(1) l'(2)] by blast
  obtain sts' where w: "notify_watchers a l is (m_statuses m) (c_injector c) = Inr (sts', ci)"
      "m_statuses m' = sts'"
    using n(1) is'(1) by (auto simp: manager_updateNotify_def run_simps)
  have "\<forall>i \<in> set is. i < length (m_statuses m)" using is'(3) wf_statuses_D(1) [OF g(2)] by simp
  note ends = notify_watchers_silent [OF w(1) inv(5) is'(2) this, unfolded n(2) [symmetric], OF silent]
  show thesis
    by (rule that [OF a(2,3) g(2,3) is'(3)]) (use ends w(2) in auto)
qed

text \<open>
  C3. No reducer goes unreported. After a literal has been notified, either an ESBP waits for it or
  every generator that moves its variable has been brought up to date with the longer trail and is
  not a reducer: a conflict that symmetry breaking detects is always available to the solver.
\<close>

theorem no_reducer_goes_unreported:
  assumes "good_adapter ad" "iterates ord" "controller_inv n o' [] c0"
    and "session ad ord n o' c0 (tr, c, log)"
    and "trail_ok n (tr @ [l])" "negated l \<notin> unit_lits (c_group c0) o'"
    and "controller_updateNotify ad ord (convertFrom ad l) c = Inr c'"
    and "c_cosy_manager c' = Some m'"
  shows "hasClauseToInject_for ad ESBP (convertFrom ad l) c' = Inr True
    \<or> (\<forall>s \<in> set (m_statuses m'). moves (st_permutation s) (unat (variable l)) \<longrightarrow>
         st_state s \<noteq> REDUCER \<and> state_spec (trail_val (tr @ [l])) s = st_state s)"
proof (cases "waiting (c_injector c') ESBP (variable l) = []")
  case False
  have c: "controller_inv n o' tr c" "c_group c = c_group c0" using session_inv [OF assms(4,1,2,3)] by blast+
  have "controller_inv n o' (tr @ [l]) c'"
    using controller_updateNotify_ok [OF assms(1,2) c(1) assms(5)] assms(6,7) c(2) by auto
  from take_ok(1) [OF this, of ESBP "variable l"] False
  show ?thesis using good_adapterD [OF assms(1) controller_invD(8) [OF c(1)], of l] assms(5)
    by (simp add: hasClauseToInject_for_def trail_ok_snoc)
next
  case True
  have c: "controller_inv n o' tr c" using session_inv [OF assms(4,1,2,3)] by blast
  obtain a m "is" where a: "wf_assignment n a" "value_of a = trail_val (tr @ [l])"
    and sts: "wf_statuses n (c_group c) o' (m_statuses m)" and inv: "manager_inv tr m"
    and is': "set is = {i. i < length (g_permutations (c_group c)) \<and> moves (g_permutations (c_group c) ! i) (unat (variable l))}"
    and len: "length (m_statuses m') = length (m_statuses m)"
    and same: "\<forall>i < length (m_statuses m). i \<notin> set is \<longrightarrow> m_statuses m' ! i = m_statuses m ! i"
    and upd: "\<forall>i \<in> set is. status_updateNotify a (m_statuses m ! i) l = Inr (m_statuses m' ! i)
      \<and> st_state (m_statuses m' ! i) \<noteq> REDUCER"
    by (rule silent_notification [OF assms(1,2) c assms(5,7,8) True])
  have perm: "st_permutation (m_statuses m ! i) = g_permutations (c_group c) ! i"
    "i < length (g_permutations (c_group c))" if "i < length (m_statuses m)" for i
    using sts that wf_statuses_D(1) [OF sts] by (metis nth_map wf_statuses_def)+
  have "st_state (m_statuses m' ! i) \<noteq> REDUCER
      \<and> state_spec (trail_val (tr @ [l])) (m_statuses m' ! i) = st_state (m_statuses m' ! i)"
    if i: "i < length (m_statuses m')" and mv: "moves (st_permutation (m_statuses m' ! i)) (unat (variable l))" for i
  proof -
    have i': "i < length (m_statuses m)" using i len by simp
    then have s: "m_statuses m ! i \<in> set (m_statuses m)" by simp
    have sinv: "status_inv tr (m_statuses m ! i)" using inv s by (simp add: manager_inv_def)
    note ok = status_updateNotify_ok [OF wf_statuses_D(2) [OF sts s] a assms(5) sinv]
    have watched: "i \<in> set is \<longleftrightarrow> moves (st_permutation (m_statuses m ! i)) (unat (variable l))"
      using is' perm [OF i'] by simp
    have "i \<in> set is" using same i' mv watched by metis
    then show ?thesis using ok watched upd a(2) by auto
  qed
  then show ?thesis by (metis in_set_conv_nth)
qed

section \<open>The start of a session\<close>

text \<open>
  C5. From the text of a problem to a sound controller. The constructor that runs a tool reads the
  problem and fills the group with symmetries of it, whatever automorphisms the tool returns;
  enabling the engine then builds a complete order in the chosen value mode and puts the controller
  into a sound initial state: every clause that waits is a breaking clause of the formula.
\<close>

theorem controller_starts_sound:
  assumes "good_problem hash css" "serves_problem gz view junk f css"
    and "\<And>b aut. aut \<in> set (bliss b) \<Longrightarrow> bliss_automorphism b aut"
    and "\<And>s aut. aut \<in> set (saucy s) \<Longrightarrow> saucy_automorphism s aut"
    and "iterates map_ord" "iterates set_ord"
  shows "\<exists>c. SymmetryController_tool hash gz junk bliss saucy nv f tool = Some (Inr c)
    \<and> (\<forall>p \<in> set (g_permutations (c_group c)). symmetry_of p (normal_form ` set css))
    \<and> (numberOfPermutations (c_group c) < 2 ^ 31 \<longrightarrow>
        (\<exists>o' c'. enableCosy map_ord set_ord vars mode c = Some (Inr c')
           \<and> complete_order (dimacs_vars css) o' \<and> o_valueMode o' = mode
           \<and> c_group c' = c_group c \<and> controller_inv (dimacs_vars css) o' [] c'
           \<and> sound_store o' (normal_form ` set css) (c_injector c')
           \<and> (c_cosy_manager c' = None \<longleftrightarrow> g_permutations (c_group c) = [])))"
proof -
  obtain m c where c: "SymmetryController_tool hash gz junk bliss saucy nv f tool = Some (Inr c)"
      "entered_model hash True css m" "fresh_controller (num_vars m) m c"
      "\<forall>p \<in> set (g_permutations (c_group c)). symmetry_of p (normal_form ` set css)"
    using SymmetryController_tool_ok [OF assms(1-4), of bliss saucy nv tool] by blast
  have n: "num_vars m = dimacs_vars css" and ne: "css \<noteq> []"
    using assms(1) entered_dimacs_vars [OF c(2)] by (simp_all add: good_problem_def)
  have small: "dimacs_vars css < 2 ^ 30" using good_problem_model(4) [OF assms(1) c(2)] n by simp
  let ?started = "\<lambda>o' c'. enableCosy map_ord set_ord vars mode c = Some (Inr c')
    \<and> complete_order (dimacs_vars css) o' \<and> o_valueMode o' = mode
    \<and> c_group c' = c_group c \<and> controller_inv (dimacs_vars css) o' [] c'
    \<and> sound_store o' (normal_form ` set css) (c_injector c')
    \<and> (c_cosy_manager c' = None \<longleftrightarrow> g_permutations (c_group c) = [])"
  have "\<exists>o' c'. ?started o' c'" if "numberOfPermutations (c_group c) < 2 ^ 31"
  proof -
    have "length (g_permutations (c_group c)) < 2 ^ 31" using that by (simp add: numberOfPermutations_def)
    from enableCosy_ok [OF c(3) [unfolded n] c(2) ne n small this assms(5,6), of vars mode "normal_form ` set css"]
    obtain o' c' where "?started o' c'" using c(4) by auto
    then show ?thesis by (intro exI)
  qed
  then show ?thesis by (intro exI [of _ c] conjI impI c(1) c(4)) simp
qed

text \<open>
  C27. The constructor that reads a file of generators keeps, in the order of the file, those that
  commute with negation, over the variables of the problem; the controller it builds can be
  enabled and then follows any trail.
\<close>

theorem controller_from_symmetry_file:
  assumes "good_problem hash css" "serves_problem gz view junk f css"
    and "view sym_file = saucy_text (dimacs_vars css) gens" "\<forall>gs \<in> set gens. good_generator (dimacs_vars css) gs"
    and "length gens < 2 ^ 31" "iterates map_ord" "iterates set_ord"
  shows "\<exists>c ps o' c'. SymmetryController_file hash gz junk nv f sym_file = Some (Inr c)
    \<and> list_all2 (\<lambda>gs p. p_cycles p = concat gs) gens ps
    \<and> g_permutations (c_group c) = filter signed_perm ps
    \<and> enableCosy map_ord set_ord vars mode c = Some (Inr c')
    \<and> controller_inv (dimacs_vars css) o' [] c'"
proof -
  obtain m c ps where c: "SymmetryController_file hash gz junk nv f sym_file = Some (Inr c)"
      "entered_model hash True css m" "num_vars m = dimacs_vars css" "fresh_controller (dimacs_vars css) m c"
      "list_all2 (\<lambda>gs p. perm_repr gs [] p) gens ps" "g_permutations (c_group c) = filter signed_perm ps"
    using SymmetryController_file_ok [OF assms(1,2) refl, OF assms(3,4), of nv] by blast
  have "list_all2 (\<lambda>gs p. p_cycles p = concat gs) gens ps"
    using c(5) by (rule list_all2_mono) (simp add: perm_repr_def)
  moreover have "length (g_permutations (c_group c)) < 2 ^ 31"
    using assms(5) c(6) list_all2_lengthD [OF c(5)] le_less_trans [OF length_filter_le [of signed_perm ps]] by simp
  moreover have "css \<noteq> []" "dimacs_vars css < 2 ^ 30"
    using assms(1) good_problem_model(4) [OF assms(1) c(2)] c(3) by (simp_all add: good_problem_def)
  ultimately show ?thesis
    using enableCosy_ok [OF c(4,2) _ c(3) _ _ assms(6,7), of vars mode] c(1,6) by blast
qed

section \<open>A session on the small example\<close>

text \<open>
  A controller over the group of \<open>swap_perm\<close>, and the session that assigns the negative literal of
  the variable 0 and the positive one of the variable 1. The second makes \<open>swap_perm\<close> a reducer.
\<close>

definition swap_controller :: controller where
  "swap_controller = (controller_fields 2)\<lparr>c_group := swap_group, c_assignment := assigned [],
     c_cosy_manager := Some (manager_for swap_group)\<rparr>"

definition swap_assign :: "literal \<Rightarrow> controller \<Rightarrow> controller" where
  "swap_assign l c = get_ok c (controller_updateNotify MinisatLiteralAdapter id (convertFrom MinisatLiteralAdapter l) c)"

definition swap_conflict :: controller where
  "swap_conflict = swap_assign (Lit 2) (swap_assign (Lit 1) swap_controller)"

lemma swap_controller_ok:
  "controller_inv 2 small_order [] swap_controller" "c_group swap_controller = swap_group"
  "sound_store small_order one_of_two (c_injector swap_controller)"
  "involutive_symmetries (c_group swap_controller) one_of_two"
proof -
  have "trail_ok 2 []" by (simp add: trail_ok_def)
  then show "controller_inv 2 small_order [] swap_controller"
    using assigned_ok [of "[]"] manager_for_ok(1,2) [OF swap_group_ok(1)] swap_group_ok wf_injector_new
    by (simp add: controller_inv_def swap_controller_def controller_fields_def conflict_waits_new engine_inv_def)
  show "c_group swap_controller = swap_group" by (simp add: swap_controller_def)
  show "sound_store small_order one_of_two (c_injector swap_controller)"
    by (simp add: swap_controller_def controller_fields_def sound_store_def)
  show "involutive_symmetries (c_group swap_controller) one_of_two"
    using swap_group_ok(2) swap_perm_ok(4) swap_symmetry by (simp add: involutive_symmetries_def swap_controller_def)
qed

lemma swap_units: "unit_lits swap_group small_order = {}"
  using swap_group_ok(2) small_order_ok(3) swap_moves
  by (auto simp: unit_lits_def act_inv_def small_moves small_literals swap_tables split: if_splits)

lemma swap_conflict_has:
  "hasClauseToInject_for MinisatLiteralAdapter ESBP (convertFrom MinisatLiteralAdapter (Lit 2)) swap_conflict = Inr True"
  by code_simp

lemma swap_fetched:
  "map_sum id fst (clauseToInject_for MinisatLiteralAdapter ESBP (convertFrom MinisatLiteralAdapter (Lit 2)) swap_conflict)
    = Inr [SLit 0, SLit 3]"
  by code_simp

lemma swap_assign_ok:
  assumes c: "controller_inv 2 small_order tr c" "c_group c = swap_group" and l: "trail_ok 2 (tr @ [l])"
  shows "controller_updateNotify MinisatLiteralAdapter id (convertFrom MinisatLiteralAdapter l) c = Inr (swap_assign l c)"
    "controller_inv 2 small_order (tr @ [l]) (swap_assign l c)" "c_group (swap_assign l c) = swap_group"
  using controller_updateNotify_ok [OF good_adapters(2) iterates_id(1) c(1) l] c(2) swap_units
  by (auto simp: swap_assign_def)

lemma swap_session:
  "session MinisatLiteralAdapter id 2 small_order swap_controller ([Lit 1] @ [Lit 2], swap_conflict, [])"
  "controller_inv 2 small_order ([Lit 1] @ [Lit 2]) swap_conflict"
proof -
  let ?c = "swap_assign (Lit 1) swap_controller"
  have t: "trail_ok 2 ([] @ [Lit 1])" "trail_ok 2 ([Lit 1] @ [Lit 2])"
    using flip_trail_ok swap_trail_ok by (simp_all add: swap_trail_def)
  note one = swap_assign_ok [OF swap_controller_ok(1,2) t(1)]
  have c1: "controller_inv 2 small_order [Lit 1] ?c" using one(2) by simp
  note two = swap_assign_ok [OF c1 one(3) t(2)]
  show "controller_inv 2 small_order ([Lit 1] @ [Lit 2]) swap_conflict" using two(2) by (simp add: swap_conflict_def)
  let ?step = "solver_step MinisatLiteralAdapter id 2 (unit_lits (c_group swap_controller) small_order)"
  have no_units: "unit_lits (c_group swap_controller) small_order = {}"
    using swap_controller_ok(2) swap_units by simp
  have s1: "?step ([], swap_controller, []) ([Lit 1], ?c, [])"
    using assigns [OF t(1) _ one(1)] by (simp add: no_units)
  have s2: "?step ([Lit 1], ?c, []) ([Lit 1] @ [Lit 2], swap_conflict, [])"
    using assigns [OF t(2) _ two(1)] by (simp only: no_units swap_conflict_def empty_iff not_False_eq_True)
  show "session MinisatLiteralAdapter id 2 small_order swap_controller ([Lit 1] @ [Lit 2], swap_conflict, [])"
    unfolding session_def by (rule rtranclp.rtrancl_into_rtrancl [where r = ?step, OF _ s2]) (rule r_into_rtranclp [where r = ?step, OF s1])
qed

lemma swap_session_log:
  "\<exists>c. session MinisatLiteralAdapter id 2 small_order swap_controller ([Lit 1] @ [Lit 2], c, [] @ [[SLit 0, SLit 3]])"
proof -
  obtain c where "clauseToInject_for MinisatLiteralAdapter ESBP (convertFrom MinisatLiteralAdapter (Lit 2)) swap_conflict
      = Inr ([SLit 0, SLit 3], c)"
    using swap_fetched by (cases "clauseToInject_for MinisatLiteralAdapter ESBP (convertFrom MinisatLiteralAdapter (Lit 2)) swap_conflict") auto
  moreover have "lit_in 2 (Lit 2)" by (simp add: lit_in_def small_literals)
  ultimately have "solver_step MinisatLiteralAdapter id 2 (unit_lits (c_group swap_controller) small_order)
      ([Lit 1] @ [Lit 2], swap_conflict, []) ([Lit 1] @ [Lit 2], c, [] @ [[SLit 0, SLit 3]])"
    by (intro fetches [OF _ swap_conflict_has])
  then show ?thesis using swap_session(1) unfolding session_def by (intro exI) (rule rtranclp.rtrancl_into_rtrancl)
qed

lemma session_never_fails_witness:
  "(\<exists>c'. controller_updateNotify MinisatLiteralAdapter id (convertFrom MinisatLiteralAdapter (Lit 1)) swap_controller = Inr c')
   \<and> (\<exists>c'. controller_updateCancel MinisatLiteralAdapter id (convertFrom MinisatLiteralAdapter (Lit 2)) swap_conflict = Inr c')"
proof -
  have "session MinisatLiteralAdapter id 2 small_order swap_controller ([], swap_controller, [])"
    by (simp add: session_def)
  note start = session_never_fails [OF good_adapters(2) iterates_id(1) swap_controller_ok(1) this]
  have "trail_ok 2 ([] @ [Lit 1])" using flip_trail_ok by simp
  moreover have "negated (Lit 1) \<notin> unit_lits (c_group swap_controller) small_order"
    using swap_controller_ok(2) swap_units by simp
  ultimately have "\<exists>c'. controller_updateNotify MinisatLiteralAdapter id (convertFrom MinisatLiteralAdapter (Lit 1)) swap_controller = Inr c'"
    using start by blast
  moreover have "\<exists>c'. controller_updateCancel MinisatLiteralAdapter id (convertFrom MinisatLiteralAdapter (Lit 2)) swap_conflict = Inr c'"
    using session_never_fails [OF good_adapters(2) iterates_id(1) swap_controller_ok(1) swap_session(1)] by simp
  ultimately show ?thesis by blast
qed

lemma session_keeps_satisfiability_witness:
  "\<exists>C \<tau>. [[SLit 0, SLit 3]] = map (adaptVector MinisatLiteralAdapter) C \<and> sat_all \<tau> (one_of_two \<union> set C)"
proof -
  obtain c where c: "session MinisatLiteralAdapter id 2 small_order swap_controller
      ([Lit 1] @ [Lit 2], c, [] @ [[SLit 0, SLit 3]])"
    using swap_session_log by blast
  have "sat_all (\<lambda>v. v = 0) one_of_two"
    by (simp add: one_of_two_def sat_all_def sat_clause_def lit_true_def small_literals)
  from session_keeps_satisfiability [OF good_adapters(2) iterates_id(1) swap_controller_ok(1,4,3) c this]
  show ?thesis by simp
qed

lemma conflict_is_delivered_witness:
  "\<exists>cl c'. clauseToInject_for MinisatLiteralAdapter ESBP (convertFrom MinisatLiteralAdapter (Lit 2)) swap_conflict
      = Inr (adaptVector MinisatLiteralAdapter cl, c')
    \<and> (\<forall>k \<in> set cl. lit_value (trail_val ([Lit 1] @ [Lit 2])) k = Some False)"
  using conflict_is_delivered [OF good_adapters(2) iterates_id(1) swap_controller_ok(1) swap_session(1) swap_conflict_has]
  by blast

lemma no_reducer_goes_unreported_witness:
  "\<exists>c' m'. controller_updateNotify MinisatLiteralAdapter id (convertFrom MinisatLiteralAdapter (Lit 1)) swap_controller = Inr c'
    \<and> c_cosy_manager c' = Some m'
    \<and> (hasClauseToInject_for MinisatLiteralAdapter ESBP (convertFrom MinisatLiteralAdapter (Lit 1)) c' = Inr True
       \<or> (\<forall>s \<in> set (m_statuses m'). moves (st_permutation s) (unat (variable (Lit 1))) \<longrightarrow> st_state s \<noteq> REDUCER))"
proof -
  have s: "session MinisatLiteralAdapter id 2 small_order swap_controller ([], swap_controller, [])"
    by (simp add: session_def)
  have t: "trail_ok 2 ([] @ [Lit 1])" using flip_trail_ok by simp
  have u: "negated (Lit 1) \<notin> unit_lits (c_group swap_controller) small_order"
    using swap_controller_ok(2) swap_units by simp
  obtain c' where c': "controller_updateNotify MinisatLiteralAdapter id (convertFrom MinisatLiteralAdapter (Lit 1)) swap_controller = Inr c'"
      "c_cosy_manager c' \<noteq> None"
    using controller_updateNotify_ok [OF good_adapters(2) iterates_id(1) swap_controller_ok(1) t] u
    by (auto simp: swap_controller_def)
  then obtain m' where "c_cosy_manager c' = Some m'" by blast
  with no_reducer_goes_unreported [OF good_adapters(2) iterates_id(1) swap_controller_ok(1) s t u c'(1)] c'(1)
  show ?thesis by blast
qed

text \<open>The problem of one clause over two variables, as a text.\<close>

definition pair_problem :: "literal list list" where
  "pair_problem = [[Lit 0, Lit 2]]"

definition pair_text :: string where
  "pair_text = dimacs_text (map Comment [] @ Header 2 1 # map Clause_line pair_problem)"

lemma pair_problem_ok:
  "good_problem (\<lambda>s. 0) pair_problem" "dimacs_vars pair_problem = 2"
  "serves_problem text_gzread id (replicate kBufferSize CHR 0x00) pair_text pair_problem"
proof -
  show "good_problem (\<lambda>s. 0) pair_problem"
    by (simp add: good_problem_def pair_problem_def small_literals literal_eq_iff)
  show v: "dimacs_vars pair_problem = 2"
    by (simp add: dimacs_vars_def pair_problem_def small_literals)
  show "serves_problem text_gzread id (replicate kBufferSize CHR 0x00) pair_text pair_problem"
    unfolding serves_problem_def
    by (intro conjI text_gzread_serves length_replicate exI [of _ "[]"])
      (simp_all add: v, simp_all add: pair_text_def pair_problem_def)
qed

lemma controller_starts_sound_witness:
  "\<exists>c. SymmetryController_tool (\<lambda>s. 0) text_gzread (replicate kBufferSize CHR 0x00) exchange_bliss
      exchange_saucy 0 pair_text SAUCY = Some (Inr c)
    \<and> (\<forall>p \<in> set (g_permutations (c_group c)). symmetry_of p (normal_form ` set pair_problem))"
proof -
  have t: "\<And>b aut. aut \<in> set (exchange_bliss b) \<Longrightarrow> bliss_automorphism b aut"
    "\<And>s aut. aut \<in> set (exchange_saucy s) \<Longrightarrow> saucy_automorphism s aut"
    by (simp_all add: exchange_bliss_def exchange_saucy_def)
  show ?thesis
    using controller_starts_sound [OF pair_problem_ok(1,3) t iterates_id(1) iterates_id(1), where nv = 0 and tool = SAUCY]
    by blast
qed

lemma controller_from_symmetry_file_witness:
  "\<exists>c c' o'. SymmetryController_file (\<lambda>s. 0) text_gzread (replicate kBufferSize CHR 0x00) 0 pair_text
      (saucy_text 2 [swap_cycles]) = Some (Inr c)
    \<and> enableCosy id id INCREASE TRUE_LESS_FALSE c = Some (Inr c') \<and> controller_inv 2 o' [] c'"
proof -
  have "good_generator 2 swap_cycles"
    by (simp add: good_generator_def swap_cycles_def good_lit_def lit_in_def small_var_def literal_eq_iff)
  then have gens: "\<forall>gs \<in> set [swap_cycles]. good_generator (dimacs_vars pair_problem) gs"
    using pair_problem_ok(2) by simp
  have sym: "id (saucy_text 2 [swap_cycles]) = saucy_text (dimacs_vars pair_problem) [swap_cycles]"
    using pair_problem_ok(2) by simp
  have len: "length [swap_cycles] < 2 ^ 31" by simp
  show ?thesis
    using controller_from_symmetry_file [where view = id and sym_file = "saucy_text 2 [swap_cycles]",
        OF pair_problem_ok(1,3) sym gens len iterates_id(1) iterates_id(1), of 0 INCREASE TRUE_LESS_FALSE]
    unfolding pair_problem_ok(2) by blast
qed

text \<open>
  C28. A problem line that states wrong numbers makes the constructor give up: it reports no
  failure to its caller, the group stays empty, enabling the engine does nothing, and because the
  assignment was never resized the first notification of any literal fails its check.
\<close>

theorem wrong_header_leaves_unusable_controller:
  assumes "gz_serves gz view" "length junk = kBufferSize"
    and "view f = dimacs_text (map Comment cs @ Header v k # map Clause_line css)"
    and "\<forall>s \<in> set cs. \<forall>c \<in> set s. \<not> line_end c"
    and "\<forall>c \<in> set css. c \<noteq> [] \<and> (\<forall>l \<in> set c. lit_below (2 ^ 30) l)"
    and "k \<noteq> of_nat (length css)" "length css < 2 ^ 32"
  shows "\<exists>c. SymmetryController_tool hash gz junk bliss saucy nv f tool = Some (Inr c)
    \<and> c_group c = Group_new \<and> enableCosy map_ord set_ord vars mode c = Some (Inr c)
    \<and> (\<forall>l. small_var (variable l) \<longrightarrow>
         controller_updateNotify MinisatLiteralAdapter set_ord (convertFrom MinisatLiteralAdapter l) c = Inl Check_failed)"
proof -
  obtain m where m: "CNFReader_load hash gz junk f CNFModel_new =
      Some (Inr (CNFModel_numberOfVariables m = ucast v \<and> cm_num_clauses m = ucast k, m))"
      "entered_model hash (inj_on (compute_tag hash) (normal_form ` set css)) css m"
    using CNFReader_load_ok [OF assms(1), OF assms(2-5), of hash] by blast
  have "cm_num_clauses m \<noteq> ucast k"
  proof
    assume "cm_num_clauses m = ucast k"
    then have "(of_nat (length css) :: int64) = ucast k" using m(2) by (simp add: entered_model_def)
    then have "unat (of_nat (length css) :: int64) = unat (ucast k :: int64)" by simp
    moreover have "unat k < 2 ^ LENGTH(32)" by (rule unsigned_less)
    ultimately have "length css = unat k"
      using assms(7) by (simp add: unat_of_nat unsigned_ucast_eq take_bit_nat_eq_self)
    then show False using assms(6) by simp
  qed
  then have load: "CNFReader_load hash gz junk f CNFModel_new = Some (Inr (False, m))" using m(1) by simp
  let ?c = "(controller_fields nv)\<lparr>c_cnf_model := m\<rparr>"
  have "SymmetryController_tool hash gz junk bliss saucy nv f tool = Some (Inr ?c)"
    using load by (simp add: SymmetryController_tool_def loadCNFProblem_def controller_fields_def Let_def)
  moreover have "enableCosy map_ord set_ord vars mode ?c = Some (Inr ?c)"
    by (simp add: enableCosy_def controller_fields_def numberOfPermutations_def Group_new_def)
  moreover have none: "assignFromTrueLiteral Assignment_empty l = Inl Check_failed" for l
  proof -
    have "in_range \<lparr>bs_size = 0, bs_data = []\<rparr> i k = (Inl Check_failed :: bool result)" for i k
      by (cases "0 \<le>s i") (auto simp: in_range_def check_def word_sle_eq word_sless_alt)
    then show ?thesis
      by (simp add: assignFromTrueLiteral_def variableIsAssigned_def Bitset64_AreOneOfTwoBitsSet_def
          Assignment_empty_def Bitset64_empty_def)
  qed
  moreover have "controller_updateNotify MinisatLiteralAdapter set_ord (convertFrom MinisatLiteralAdapter l) ?c = Inl Check_failed"
    if "small_var (variable l)" for l
    using good_adapters(2) that none by (simp add: good_adapter_def controller_updateNotify_def controller_fields_def)
  ultimately show ?thesis by (intro exI [of _ ?c]) (simp add: controller_fields_def)
qed

lemma wrong_header_leaves_unusable_controller_witness:
  "\<exists>c. SymmetryController_tool (\<lambda>s. 0) text_gzread (replicate kBufferSize CHR 0x00) exchange_bliss
      exchange_saucy 0 (dimacs_text (map Comment [] @ Header 2 3 # map Clause_line pair_problem)) SAUCY = Some (Inr c)
    \<and> controller_updateNotify MinisatLiteralAdapter id (convertFrom MinisatLiteralAdapter (Lit 0)) c = Inl Check_failed"
proof -
  have junk: "length (replicate kBufferSize CHR 0x00) = kBufferSize" by simp
  have view: "id (dimacs_text (map Comment [] @ Header 2 3 # map Clause_line pair_problem)) =
      dimacs_text (map Comment [] @ Header 2 3 # map Clause_line pair_problem)" by simp
  have cs: "\<forall>s \<in> set []. \<forall>c \<in> set s. \<not> line_end c" by simp
  have css: "\<forall>c \<in> set pair_problem. c \<noteq> [] \<and> (\<forall>l \<in> set c. lit_below (2 ^ 30) l)"
    by (simp add: pair_problem_def lit_below_def small_literals)
  have k: "(3 :: int32) \<noteq> of_nat (length pair_problem)" "length pair_problem < 2 ^ 32"
    by (simp_all add: pair_problem_def)
  have l: "small_var (variable (Lit 0))" by (simp add: small_literals small_var_def)
  from wrong_header_leaves_unusable_controller [OF text_gzread_serves, OF junk view cs css k, of "\<lambda>s. 0"
      exchange_bliss exchange_saucy 0 SAUCY id id INCREASE TRUE_LESS_FALSE]
  show ?thesis using l by blast
qed

end
