(* ===== verification/Word_Scans.thy ===== *)
theory Word_Scans
  imports Bits
begin

text \<open>
  The functions of \<open>include/cosy/Bitset.h\<close> that look for a bit in one machine word: the least and
  the most significant bit, each in the variant of the compiler's builtin, the variant with a de
  Bruijn sequence and the default variant by halving, for 64 and 32 bits. All variants find the
  same position; \<open>is_lsb\<close> and \<open>is_msb\<close> are the specification.
\<close>

unbundle bit_operations_syntax

section \<open>Operations\<close>

text \<open>The builtins \<open>__builtin_ctzl\<close> and \<open>__builtin_clzl\<close>: undefined on 0, where they are not used.\<close>

definition count_trailing_zeros :: "'a::len word \<Rightarrow> nat" where
  "count_trailing_zeros w = length (takeWhile Not (map (bit w) [0..<LENGTH('a)]))"

definition count_leading_zeros :: "'a::len word \<Rightarrow> nat" where
  "count_leading_zeros w = length (takeWhile Not (rev (map (bit w) [0..<LENGTH('a)])))"

definition LeastSignificantBitWord32 :: "int32 \<Rightarrow> int32" where
  "LeastSignificantBitWord32 n = n AND NOT (n - 1)"

definition LeastSignificantBitPosition64Fast :: "int64 \<Rightarrow> int32" where
  "LeastSignificantBitPosition64Fast n = (if n = 0 then 0 else of_nat (count_trailing_zeros n))"

definition kSeq64 :: int64 where
  "kSeq64 = 0x0218a392dd5fb34f"

definition kTab64 :: "int32 list" where
  "kTab64 =
     [0, 1, 2, 7, 3, 13, 8, 19, 4, 25, 14, 28, 9, 52, 20, 58,
      5, 17, 26, 56, 15, 38, 29, 40, 10, 49, 53, 31, 21, 34, 59, 42,
      63, 6, 12, 18, 24, 27, 51, 57, 16, 55, 37, 39, 48, 30, 33, 41,
      62, 11, 23, 50, 54, 36, 47, 32, 61, 22, 35, 46, 60, 45, 44, 43]"

definition LeastSignificantBitPosition64DeBruijn :: "int64 \<Rightarrow> int32 result" where
  "LeastSignificantBitPosition64DeBruijn n =
     vec_at kTab64 (unat (drop_bit 58 ((n AND (NOT n + 1)) * kSeq64)))"

text \<open>One step of the halving: keep the low part when it has a bit, else shift the high part down.\<close>

definition lsb_halve :: "'a::len word \<Rightarrow> nat \<Rightarrow> int32 \<times> 'a word \<Rightarrow> int32 \<times> 'a word" where
  "lsb_halve low s = (\<lambda>(pos, n). if n AND low \<noteq> 0 then (pos - of_nat s, n) else (pos, drop_bit s n))"

definition lsb_last :: "int32 \<times> 'a::len word \<Rightarrow> int32" where
  "lsb_last = (\<lambda>(pos, n). if n AND 1 \<noteq> 0 then pos - 1 else pos)"

definition LeastSignificantBitPosition64Default :: "int64 \<Rightarrow> int32" where
  "LeastSignificantBitPosition64Default n =
     (if n = 0 then 0
      else lsb_last (lsb_halve 0x3 2 (lsb_halve 0xF 4 (lsb_halve 0xFF 8 (lsb_halve 0xFFFF 16
             (lsb_halve 0xFFFFFFFF 32 (63, n)))))))"

definition LeastSignificantBitPosition64 :: "int64 \<Rightarrow> int32 result" where
  "LeastSignificantBitPosition64 n = check (n \<noteq> 0) (Inr (LeastSignificantBitPosition64Fast n))"

definition LeastSignificantBitPosition32Fast :: "int32 \<Rightarrow> int32" where
  "LeastSignificantBitPosition32Fast n =
     (if n = 0 then 0 else of_nat (count_trailing_zeros (ucast n :: int64)))"

definition kSeq32 :: int32 where
  "kSeq32 = 0x077CB531"

definition kTab32 :: "int32 list" where
  "kTab32 =
     [0, 1, 28, 2, 29, 14, 24, 3, 30, 22, 20, 15, 25, 17, 4, 8,
      31, 27, 13, 23, 21, 19, 16, 7, 26, 12, 18, 6, 11, 5, 10, 9]"

definition LeastSignificantBitPosition32DeBruijn :: "int32 \<Rightarrow> int32 result" where
  "LeastSignificantBitPosition32DeBruijn n =
     vec_at kTab32 (unat (drop_bit 27 ((n AND (NOT n + 1)) * kSeq32)))"

definition LeastSignificantBitPosition32Default :: "int32 \<Rightarrow> int32" where
  "LeastSignificantBitPosition32Default n =
     (if n = 0 then 0
      else lsb_last (lsb_halve 0x3 2 (lsb_halve 0xF 4 (lsb_halve 0xFF 8
             (lsb_halve 0xFFFF 16 (31, n))))))"

definition LeastSignificantBitPosition32 :: "int32 \<Rightarrow> int32 result" where
  "LeastSignificantBitPosition32 n = check (n \<noteq> 0) (Inr (LeastSignificantBitPosition32Fast n))"

definition MostSignificantBitPosition64Fast :: "int64 \<Rightarrow> int32" where
  "MostSignificantBitPosition64Fast n =
     (let offset = of_nat (count_leading_zeros (1 :: int64)) in
      if n = 0 then 0 else offset - of_nat (count_leading_zeros n))"

text \<open>One step: when a bit is set at or above the position \<open>s\<close>, note it and shift it down.\<close>

definition msb_halve :: "nat \<Rightarrow> int32 \<times> 'a::len word \<Rightarrow> int32 \<times> 'a word" where
  "msb_halve s = (\<lambda>(b, n).
     if n AND push_bit s (- 1) \<noteq> 0 then (b OR of_nat s, drop_bit s n) else (b, n))"

definition MostSignificantBitPosition64Default :: "int64 \<Rightarrow> int32" where
  "MostSignificantBitPosition64Default n =
     fst (msb_halve 1 (msb_halve 2 (msb_halve 4 (msb_halve 8 (msb_halve 16 (msb_halve 32 (0, n)))))))"

definition MostSignificantBitPosition64 :: "int64 \<Rightarrow> int32" where
  "MostSignificantBitPosition64 n = MostSignificantBitPosition64Fast n"

definition MostSignificantBitPosition32Fast :: "int32 \<Rightarrow> int32" where
  "MostSignificantBitPosition32Fast n =
     (let offset = of_nat (count_leading_zeros (1 :: int64)) in
      if n = 0 then 0 else offset - of_nat (count_leading_zeros (ucast n :: int64)))"

definition MostSignificantBitPosition32Default :: "int32 \<Rightarrow> int32" where
  "MostSignificantBitPosition32Default n =
     fst (msb_halve 1 (msb_halve 2 (msb_halve 4 (msb_halve 8 (msb_halve 16 (0, n))))))"

definition MostSignificantBitPosition32 :: "int32 \<Rightarrow> int32" where
  "MostSignificantBitPosition32 n = MostSignificantBitPosition32Fast n"

section \<open>The specification\<close>

definition is_lsb :: "'a::len word \<Rightarrow> nat \<Rightarrow> bool" where
  "is_lsb w k \<longleftrightarrow> bit w k \<and> (\<forall>i < k. \<not> bit w i)"

definition is_msb :: "'a::len word \<Rightarrow> nat \<Rightarrow> bool" where
  "is_msb w k \<longleftrightarrow> bit w k \<and> (\<forall>i. k < i \<longrightarrow> \<not> bit w i)"

lemma is_lsb_unique: "is_lsb w j \<Longrightarrow> is_lsb w k \<Longrightarrow> j = k"
  unfolding is_lsb_def by (metis linorder_neqE_nat)

lemma is_msb_unique: "is_msb w j \<Longrightarrow> is_msb w k \<Longrightarrow> j = k"
  unfolding is_msb_def by (metis linorder_neqE_nat)

lemma is_lsb_less: "is_lsb (w :: 'a::len word) k \<Longrightarrow> k < LENGTH('a)"
  by (auto simp: is_lsb_def dest: bit_imp_le_length)

lemma is_msb_less: "is_msb (w :: 'a::len word) k \<Longrightarrow> k < LENGTH('a)"
  by (auto simp: is_msb_def dest: bit_imp_le_length)

lemma ex_is_lsb: "w \<noteq> 0 \<Longrightarrow> \<exists>k. is_lsb w k"
  unfolding is_lsb_def using exists_least_iff [of "bit w"] bit_word_eqI [of w 0] by auto

lemma ex_is_msb:
  fixes w :: "'a::len word"
  assumes "w \<noteq> 0"
  shows "\<exists>k. is_msb w k"
proof -
  have "finite {i. bit w i}"
    by (rule finite_subset [of _ "{..<LENGTH('a)}"]) (auto dest: bit_imp_le_length)
  moreover have "{i. bit w i} \<noteq> {}" using assms bit_word_eqI [of w 0] by auto
  ultimately have "is_msb w (Max {i. bit w i})"
    unfolding is_msb_def by (metis Max_ge Max_in mem_Collect_eq not_le)
  then show ?thesis ..
qed

lemma is_lsb_nonzero: "is_lsb w k \<Longrightarrow> w \<noteq> 0"
  by (auto simp: is_lsb_def)

lemma is_msb_nonzero: "is_msb w k \<Longrightarrow> w \<noteq> 0"
  by (auto simp: is_msb_def)

section \<open>The builtins\<close>

lemma takeWhile_Not_length:
  assumes "k < length xs" "xs ! k" "\<forall>i < k. \<not> xs ! i"
  shows "length (takeWhile Not xs) = k"
proof -
  have "takeWhile Not xs = take k xs"
    using assms by (intro takeWhile_eq_take_P_nth) simp_all
  then show ?thesis using assms(1) by simp
qed

lemma count_trailing_zeros_eq: "is_lsb (w :: 'a::len word) k \<Longrightarrow> count_trailing_zeros w = k"
  unfolding count_trailing_zeros_def
  using is_lsb_less [of w k] by (intro takeWhile_Not_length) (simp_all add: is_lsb_def)

lemma count_leading_zeros_eq:
  assumes "is_msb (w :: 'a::len word) k"
  shows "count_leading_zeros w = LENGTH('a) - 1 - k"
  unfolding count_leading_zeros_def
  using is_msb_less [OF assms] assms by (intro takeWhile_Not_length) (auto simp: is_msb_def rev_nth)

lemma bit_ucast64: "bit (ucast (w :: int32) :: int64) i \<longleftrightarrow> bit w i"
  using bit_imp_le_length [of w i] by (auto simp: bit_unsigned_iff)

lemma is_lsb_ucast: "is_lsb (ucast (w :: int32) :: int64) k \<longleftrightarrow> is_lsb w k"
  by (simp add: is_lsb_def bit_ucast64)

lemma is_msb_ucast: "is_msb (ucast (w :: int32) :: int64) k \<longleftrightarrow> is_msb w k"
  by (simp add: is_msb_def bit_ucast64)

lemma is_msb_1: "is_msb (1 :: int64) 0"
  by (simp add: is_msb_def bit_1_iff)

lemma lsb_fast_ok:
  "is_lsb n k \<Longrightarrow> LeastSignificantBitPosition64Fast n = of_nat k"
  "is_lsb m k \<Longrightarrow> LeastSignificantBitPosition32Fast m = of_nat k"
  by (simp_all add: LeastSignificantBitPosition64Fast_def LeastSignificantBitPosition32Fast_def
      is_lsb_nonzero count_trailing_zeros_eq [of _ k] is_lsb_ucast)

lemma msb_fast_ok:
  "is_msb n k \<Longrightarrow> MostSignificantBitPosition64Fast n = of_nat k"
  "is_msb m k \<Longrightarrow> MostSignificantBitPosition32Fast m = of_nat k"
proof -
  have one: "count_leading_zeros (1 :: int64) = 63"
    using count_leading_zeros_eq [OF is_msb_1] by simp
  have diff: "(63 :: int32) - of_nat (63 - k) = of_nat k" if "k < 64" for k
    using that by (simp add: of_nat_diff)
  show "MostSignificantBitPosition64Fast n = of_nat k" if "is_msb n k"
    using that is_msb_less [OF that] is_msb_nonzero [OF that]
    by (simp add: MostSignificantBitPosition64Fast_def one count_leading_zeros_eq diff)
  show "MostSignificantBitPosition32Fast m = of_nat k" if "is_msb m k"
    using that is_msb_less [OF that] is_msb_nonzero [OF that]
    by (simp add: MostSignificantBitPosition32Fast_def one count_leading_zeros_eq [of _ k] is_msb_ucast diff)
qed

section \<open>The de Bruijn variants\<close>

lemma odd_and_minus:
  assumes "bit (d :: 'a::len word) 0"
  shows "d AND - d = 1"
proof -
  have "bit (- d) i \<longleftrightarrow> i < LENGTH('a) \<and> (i = 0 \<or> \<not> bit d i)" for i
  proof -
    have "- d = NOT d + 1" by (simp add: not_eq_complement)
    also have "\<dots> = NOT d OR 1"
      using assms by (intro disjunctive_add) (auto simp: bit_not_iff bit_1_iff)
    finally show ?thesis using assms by (auto simp: bit_or_iff bit_not_iff bit_1_iff dest: bit_imp_le_length)
  qed
  then show ?thesis
    using assms by (intro bit_word_eqI) (auto simp: bit_and_iff bit_1_iff)
qed

lemma isolate_lsb:
  assumes "is_lsb (n :: 'a::len word) k"
  shows "n AND (NOT n + 1) = push_bit k 1"
proof -
  define d where "d = drop_bit k n"
  have n: "n = push_bit k d"
  proof (rule bit_word_eqI)
    fix i assume "i < LENGTH('a)"
    then show "bit n i = bit (push_bit k d) i"
      using assms by (cases "i < k") (auto simp: d_def bit_push_bit_iff bit_drop_bit_eq is_lsb_def)
  qed
  have "bit d 0" using assms by (simp add: d_def bit_drop_bit_eq is_lsb_def)
  have "NOT n + 1 = - n" by (simp add: not_eq_complement)
  also have "\<dots> = push_bit k (- d)" by (simp add: n push_bit_minus)
  finally have "n AND (NOT n + 1) = push_bit k (d AND - d)" by (simp add: n push_bit_and)
  with odd_and_minus [OF \<open>bit d 0\<close>] show ?thesis by simp
qed

lemma de_bruijn_tables:
  "\<forall>k \<in> set [0..<64]. vec_at kTab64 (unat (drop_bit 58 (push_bit k 1 * kSeq64))) = Inr (of_nat k)"
  "\<forall>k \<in> set [0..<32]. vec_at kTab32 (unat (drop_bit 27 (push_bit k 1 * kSeq32))) = Inr (of_nat k)"
  by code_simp+

lemma lsb_de_bruijn_ok:
  "is_lsb n k \<Longrightarrow> LeastSignificantBitPosition64DeBruijn n = Inr (of_nat k)"
  "is_lsb m k \<Longrightarrow> LeastSignificantBitPosition32DeBruijn m = Inr (of_nat k)"
proof -
  assume k: "is_lsb n k"
  then have "k \<in> set [0..<64]" using is_lsb_less [OF k] by simp
  then show "LeastSignificantBitPosition64DeBruijn n = Inr (of_nat k)"
    using de_bruijn_tables(1) unfolding LeastSignificantBitPosition64DeBruijn_def isolate_lsb [OF k] by blast
next
  assume k: "is_lsb m k"
  then have "k \<in> set [0..<32]" using is_lsb_less [OF k] by simp
  then show "LeastSignificantBitPosition32DeBruijn m = Inr (of_nat k)"
    using de_bruijn_tables(2) unfolding LeastSignificantBitPosition32DeBruijn_def isolate_lsb [OF k] by blast
qed

section \<open>The variants by halving\<close>

text \<open>The state of the search for the lowest bit \<open>k\<close>, inside a window of \<open>w\<close> bits.\<close>

definition lsb_state :: "nat \<Rightarrow> nat \<Rightarrow> int32 \<times> 'a::len word \<Rightarrow> bool" where
  "lsb_state w k st \<longleftrightarrow> (\<exists>j. is_lsb (snd st) j \<and> j < w \<and> fst st = of_nat (k + w - 1 - j) \<and> j \<le> k + w - 1)"

lemma and_mask_nonzero: "(n :: 'a::len word) AND mask s \<noteq> 0 \<longleftrightarrow> (\<exists>i < s. bit n i)"
  by (auto simp: word_neq_0_bit bit_and_iff bit_mask_iff dest: bit_imp_le_length)

lemma is_lsb_drop:
  assumes "is_lsb n j" "s \<le> j"
  shows "is_lsb (drop_bit s n) (j - s)"
  using assms by (auto simp: is_lsb_def bit_drop_bit_eq)

lemma lsb_halve_ok:
  assumes st: "lsb_state (s + s) k st" and low: "low = mask s" and s: "0 < s"
  shows "lsb_state s k (lsb_halve low s st)"
proof -
  obtain pos n j where p: "st = (pos, n)" "is_lsb n j" "j < s + s"
      "pos = of_nat (k + (s + s) - 1 - j)" "j \<le> k + (s + s) - 1"
    using st by (cases st) (auto simp: lsb_state_def)
  have low': "n AND low \<noteq> 0 \<longleftrightarrow> j < s"
    using p(2) unfolding low and_mask_nonzero is_lsb_def by (metis linorder_neqE_nat order.strict_trans)
  show ?thesis
  proof (cases "j < s")
    case True
    have "k + (s + s) - 1 - j = (k + s - 1 - j) + s" using True s by simp
    then have "pos - of_nat s = of_nat (k + s - 1 - j)" by (simp add: p(4))
    then show ?thesis
      using True low' p(2) unfolding lsb_state_def p(1) lsb_halve_def by (intro exI [of _ j]) auto
  next
    case False
    have "k + (s + s) - 1 - j = k + s - 1 - (j - s)" using False s by simp
    then have "pos = of_nat (k + s - 1 - (j - s))" by (simp only: p(4))
    moreover have "is_lsb (drop_bit s n) (j - s)" using False p(2) by (intro is_lsb_drop) simp_all
    moreover have "j - s < s" "j - s \<le> k + s - 1" using False p(3) s by arith+
    ultimately show ?thesis
      using False low' unfolding lsb_state_def p(1) lsb_halve_def by (intro exI [of _ "j - s"]) simp
  qed
qed

lemma lsb_last_ok:
  assumes "lsb_state 2 k st"
  shows "lsb_last st = of_nat k"
proof -
  obtain pos n j where p: "st = (pos, n)" "is_lsb n j" "j < 2" "pos = of_nat (Suc k - j)"
    using assms by (cases st) (auto simp: lsb_state_def)
  have "n AND 1 \<noteq> 0 \<longleftrightarrow> bit n 0"
    using and_mask_nonzero [of n 1] by simp
  moreover have "bit n 0 \<longleftrightarrow> j = 0" using p(2) by (metis gr0I is_lsb_def)
  ultimately show ?thesis using p(1,3,4) by (auto simp: lsb_last_def less_2_cases_iff)
qed

lemma mask_literals:
  "(0x3 :: 'a::len word) = mask 2" "(0xF :: 'a word) = mask 4" "(0xFF :: 'a word) = mask 8"
  "(0xFFFF :: 'a word) = mask 16" "(0xFFFFFFFF :: 'a word) = mask 32"
  by (simp_all add: mask_numeral)

lemma lsb_halve_step:
  "lsb_state w k st \<Longrightarrow> w = s + s \<Longrightarrow> low = mask s \<Longrightarrow> 0 < s \<Longrightarrow> lsb_state s k (lsb_halve low s st)"
  using lsb_halve_ok by blast

lemmas lsb_chain =
  lsb_halve_step [where s = 32 and w = 64] lsb_halve_step [where s = 16 and w = 32]
  lsb_halve_step [where s = 8 and w = 16] lsb_halve_step [where s = 4 and w = 8]
  lsb_halve_step [where s = 2 and w = 4]

lemma lsb_default_ok:
  "is_lsb n k \<Longrightarrow> LeastSignificantBitPosition64Default n = of_nat k"
  "is_lsb m k \<Longrightarrow> LeastSignificantBitPosition32Default m = of_nat k"
proof -
  show "LeastSignificantBitPosition64Default n = of_nat k" if k: "is_lsb n k"
  proof -
    have st: "lsb_state 64 k (63, n)"
      unfolding lsb_state_def using k is_lsb_less [OF k] by (intro exI [of _ k]) simp
    show ?thesis
      unfolding LeastSignificantBitPosition64Default_def if_not_P [OF is_lsb_nonzero [OF k]]
      by (intro lsb_last_ok lsb_chain st) (simp_all add: mask_literals)
  qed
  show "LeastSignificantBitPosition32Default m = of_nat k" if k: "is_lsb m k"
  proof -
    have st: "lsb_state 32 k (31, m)"
      unfolding lsb_state_def using k is_lsb_less [OF k] by (intro exI [of _ k]) simp
    show ?thesis
      unfolding LeastSignificantBitPosition32Default_def if_not_P [OF is_lsb_nonzero [OF k]]
      by (intro lsb_last_ok lsb_chain(2-) st) (simp_all add: mask_literals)
  qed
qed

text \<open>
  The state of the search for the highest bit \<open>k\<close>: \<open>b\<close> is a multiple of the window \<open>2 ^ e\<close> in
  which the highest bit is left.
\<close>

definition msb_state :: "nat \<Rightarrow> nat \<Rightarrow> int32 \<times> 'a::len word \<Rightarrow> bool" where
  "msb_state e k st \<longleftrightarrow> (\<exists>j. is_msb (snd st) j \<and> j < 2 ^ e \<and> k = unat (fst st) + j \<and> 2 ^ e dvd unat (fst st))"

lemma and_high_nonzero:
  "(n :: 'a::len word) AND push_bit s (- 1) \<noteq> 0 \<longleftrightarrow> (\<exists>i \<ge> s. bit n i)"
proof -
  have "bit (push_bit s (- 1 :: 'a word)) i \<longleftrightarrow> i < LENGTH('a) \<and> s \<le> i" for i
    by (simp only: bit_push_bit_iff bit_minus_1_iff possible_bit_word) auto
  then show ?thesis by (auto simp only: word_neq_0_bit bit_and_iff dest: bit_imp_le_length)
qed

lemma is_msb_drop: "is_msb n j \<Longrightarrow> s \<le> j \<Longrightarrow> is_msb (drop_bit s n) (j - s)"
  by (auto simp: is_msb_def bit_drop_bit_eq)

lemma or_exp_multiple:
  assumes d: "2 ^ Suc e dvd unat (b :: int32)" and e: "e < 32" and lt: "unat b + 2 ^ e < 2 ^ 32"
  shows "unat (b OR of_nat (2 ^ e)) = unat b + 2 ^ e"
proof -
  from d obtain c where "unat b = 2 ^ Suc e * c" ..
  then have "\<not> bit (unat b) e" by (simp add: bit_iff_odd)
  then have "\<not> bit b e" by (simp add: bit_unsigned_iff e)
  moreover have x: "bit (of_nat (2 ^ e) :: int32) i \<longleftrightarrow> i = e" for i
    using e by (auto simp: bit_exp_iff)
  ultimately have "b OR of_nat (2 ^ e) = b + of_nat (2 ^ e)"
    by (intro disjunctive_add [symmetric]) (auto simp only: x)
  moreover have "unat (of_nat (2 ^ e) :: int32) = 2 ^ e"
    using e power_strict_increasing [OF e, of "2 :: nat"] by (simp add: unsigned_of_nat take_bit_nat_eq_self del: of_nat_power)
  ultimately show ?thesis using lt by (simp add: unat_word_ariths)
qed

lemma msb_halve_ok:
  assumes st: "msb_state (Suc e) k st" and k: "k < 64" and e: "e < 6" and s: "s = 2 ^ e"
  shows "msb_state e k (msb_halve s st)"
proof -
  obtain b n j where p: "st = (b, n)" "is_msb n j" "j < 2 * 2 ^ e" "k = unat b + j" "2 ^ Suc e dvd unat b"
    using st by (cases st) (auto simp: msb_state_def)
  have high: "n AND push_bit s (- 1) \<noteq> 0 \<longleftrightarrow> s \<le> j"
    using p(2) unfolding and_high_nonzero is_msb_def by (metis linorder_le_less_linear order.strict_trans2)
  show ?thesis
  proof (cases "s \<le> j")
    case True
    have u: "unat (b OR of_nat s) = unat b + s"
      unfolding s using True e k p(4,5) s by (intro or_exp_multiple) simp_all
    moreover have "2 ^ e dvd unat b + s" using p(5) s by (metis dvd_add dvd_refl dvd_triv_right dvd_trans power_Suc)
    moreover have "msb_halve s st = (b OR of_nat s, drop_bit s n)"
      using True high by (simp add: msb_halve_def p(1))
    moreover have "j - s < 2 ^ e" "k = unat b + s + (j - s)" using True p(3,4) s by simp_all
    ultimately show ?thesis
      using is_msb_drop [OF p(2) True] unfolding msb_state_def by (intro exI [of _ "j - s"]) simp
  next
    case False
    moreover have "2 ^ e dvd unat b" using p(5) by (metis dvd_triv_right dvd_trans power_Suc)
    ultimately show ?thesis
      using high p(2,4) s unfolding msb_state_def p(1) msb_halve_def by (intro exI [of _ j]) auto
  qed
qed

lemma msb_state_0: "msb_state 0 k st \<Longrightarrow> k < 64 \<Longrightarrow> fst st = of_nat k"
  by (auto simp: msb_state_def)

lemma msb_halve_step:
  "msb_state e k st \<Longrightarrow> k < 64 \<Longrightarrow> e = Suc d \<Longrightarrow> d < 6 \<Longrightarrow> s = 2 ^ d \<Longrightarrow> msb_state d k (msb_halve s st)"
  using msb_halve_ok by blast

lemmas msb_chain =
  msb_halve_step [where d = 5 and e = 6] msb_halve_step [where d = 4 and e = 5]
  msb_halve_step [where d = 3 and e = 4] msb_halve_step [where d = 2 and e = 3]
  msb_halve_step [where d = 1 and e = 2] msb_halve_step [where d = 0 and e = 1]

lemma msb_default_ok:
  "is_msb n k \<Longrightarrow> MostSignificantBitPosition64Default n = of_nat k"
  "is_msb m k \<Longrightarrow> MostSignificantBitPosition32Default m = of_nat k"
proof -
  show "MostSignificantBitPosition64Default n = of_nat k" if k: "is_msb n k"
  proof -
    have st: "msb_state 6 k (0, n)" "k < 64"
      unfolding msb_state_def using k is_msb_less [OF k] by (auto intro: exI [of _ k])
    then show ?thesis
      unfolding MostSignificantBitPosition64Default_def by (intro msb_state_0 msb_chain st) simp_all
  qed
  show "MostSignificantBitPosition32Default m = of_nat k" if k: "is_msb m k"
  proof -
    have st: "msb_state 5 k (0, m)" "k < 64"
      unfolding msb_state_def using k is_msb_less [OF k] by (auto intro: exI [of _ k])
    then show ?thesis
      unfolding MostSignificantBitPosition32Default_def by (intro msb_state_0 msb_chain(2-) st) simp_all
  qed
qed

section \<open>All variants find the same bit\<close>

text \<open>
  C37. Every word with a bit set has one least and one most significant bit, and the variants with the
  compiler's builtin, with the de Bruijn table and by halving all return its position, on 64 and on
  32 bits; the table lookups stay inside their tables.
\<close>

theorem bit_scans_agree:
  assumes "n \<noteq> 0" and "m \<noteq> 0"
  shows "(\<exists>k. is_lsb n k \<and> LeastSignificantBitPosition64 n = Inr (of_nat k)
      \<and> LeastSignificantBitPosition64DeBruijn n = Inr (of_nat k)
      \<and> LeastSignificantBitPosition64Default n = of_nat k)
    \<and> (\<exists>k. is_lsb m k \<and> LeastSignificantBitPosition32 m = Inr (of_nat k)
      \<and> LeastSignificantBitPosition32DeBruijn m = Inr (of_nat k)
      \<and> LeastSignificantBitPosition32Default m = of_nat k)
    \<and> (\<exists>k. is_msb n k \<and> MostSignificantBitPosition64 n = of_nat k
      \<and> MostSignificantBitPosition64Default n = of_nat k)
    \<and> (\<exists>k. is_msb m k \<and> MostSignificantBitPosition32 m = of_nat k
      \<and> MostSignificantBitPosition32Default m = of_nat k)"
proof (intro conjI)
  obtain j j' k k' where "is_lsb n j" "is_lsb m j'" "is_msb n k" "is_msb m k'"
    using ex_is_lsb ex_is_msb assms by meson
  show "\<exists>k. is_lsb n k \<and> LeastSignificantBitPosition64 n = Inr (of_nat k)
      \<and> LeastSignificantBitPosition64DeBruijn n = Inr (of_nat k)
      \<and> LeastSignificantBitPosition64Default n = of_nat k"
    using \<open>is_lsb n j\<close> assms
    by (auto simp: LeastSignificantBitPosition64_def lsb_fast_ok lsb_de_bruijn_ok lsb_default_ok)
  show "\<exists>k. is_lsb m k \<and> LeastSignificantBitPosition32 m = Inr (of_nat k)
      \<and> LeastSignificantBitPosition32DeBruijn m = Inr (of_nat k)
      \<and> LeastSignificantBitPosition32Default m = of_nat k"
    using \<open>is_lsb m j'\<close> assms
    by (auto simp: LeastSignificantBitPosition32_def lsb_fast_ok lsb_de_bruijn_ok lsb_default_ok)
  show "\<exists>k. is_msb n k \<and> MostSignificantBitPosition64 n = of_nat k
      \<and> MostSignificantBitPosition64Default n = of_nat k"
    using \<open>is_msb n k\<close> by (auto simp: MostSignificantBitPosition64_def msb_fast_ok msb_default_ok)
  show "\<exists>k. is_msb m k \<and> MostSignificantBitPosition32 m = of_nat k
      \<and> MostSignificantBitPosition32Default m = of_nat k"
    using \<open>is_msb m k'\<close> by (auto simp: MostSignificantBitPosition32_def msb_fast_ok msb_default_ok)
qed

lemma bit_scans_agree_witness:
  "\<exists>k. is_lsb (0x500 :: int64) k \<and> LeastSignificantBitPosition64Default 0x500 = of_nat k
     \<and> LeastSignificantBitPosition64DeBruijn 0x500 = Inr 8 \<and> (of_nat k :: int32) = 8"
proof -
  have "LeastSignificantBitPosition64DeBruijn 0x500 = Inr 8" by code_simp
  then show ?thesis using bit_scans_agree [of "0x500" "1", THEN conjunct1] by auto
qed

end
