(* ===== verification/Bit_Counts.thy ===== *)
theory Bit_Counts
  imports Bits
begin

text \<open>
  The functions \<open>BitCount64\<close> and \<open>BitCount32\<close> of \<open>include/cosy/Bitset.h\<close>, which add up the bits of
  a word in parallel fields of 2, 4 and 8 bits. A word is read as the value of the list of its fields;
  \<open>bit_count\<close>, the number of positions that are set, is the specification.
\<close>

unbundle bit_operations_syntax

section \<open>Operations\<close>

definition BitCount64 :: "int64 \<Rightarrow> int64" where
  "BitCount64 n =
     (let m1 = 0x5555555555555555; m2 = 0x3333333333333333;
          m4 = 0x0F0F0F0F0F0F0F0F; h01 = 0x0101010101010101;
          n = n - (drop_bit 1 n AND m1);
          n = (n AND m2) + (drop_bit 2 n AND m2);
          n = (n + drop_bit 4 n) AND m4;
          n = drop_bit 56 (n * h01)
      in n)"

definition BitCount32 :: "int32 \<Rightarrow> int32" where
  "BitCount32 n =
     (let n = n - (drop_bit 1 n AND 0x55555555);
          n = (n AND 0x33333333) + (drop_bit 2 n AND 0x33333333);
          n = (n + drop_bit 4 n) AND 0x0F0F0F0F;
          n = n + drop_bit 8 n;
          n = n + drop_bit 16 n
      in n AND 0x3F)"

section \<open>The specification\<close>

definition bit_count :: "'a::len word \<Rightarrow> nat" where
  "bit_count w = card {i. i < LENGTH('a) \<and> bit w i}"

section \<open>Numbers as lists of fields\<close>

text \<open>The number with the fields \<open>ds\<close> of \<open>k\<close> bits, the lowest field first.\<close>

fun fields :: "nat \<Rightarrow> nat list \<Rightarrow> nat" where
  "fields k [] = 0"
| "fields k (d # ds) = d + 2 ^ k * fields k ds"

fun pairwise :: "('a \<Rightarrow> 'a \<Rightarrow> 'b) \<Rightarrow> 'a list \<Rightarrow> 'b list" where
  "pairwise f (x # y # zs) = f x y # pairwise f zs"
| "pairwise f zs = []"

lemma fields_less: "\<forall>d \<in> set ds. d < 2 ^ k \<Longrightarrow> fields k ds < 2 ^ (k * length ds)"
proof (induction ds)
  case (Cons d ds)
  then have "fields k ds + 1 \<le> 2 ^ (k * length ds)" "d < 2 ^ k" by simp_all
  then have "2 ^ k * (fields k ds + 1) \<le> 2 ^ k * 2 ^ (k * length ds)" by (intro mult_le_mono2)
  with \<open>d < 2 ^ k\<close> show ?case by (simp add: power_add algebra_simps)
qed simp

text \<open>A conjunction works on the low \<open>k\<close> bits and on the others separately.\<close>

lemma and_split:
  assumes "x < 2 ^ k" and "m < (2 :: nat) ^ k"
  shows "(x + 2 ^ k * X) AND (m + 2 ^ k * M) = (x AND m) + 2 ^ k * (X AND M)"
proof -
  have t: "take_bit k (y + 2 ^ k * Y) = y" "drop_bit k (y + 2 ^ k * Y) = Y" if "y < 2 ^ k" for y Y :: nat
    using that by (simp_all add: take_bit_eq_mod drop_bit_eq_div)
  let ?z = "(x + 2 ^ k * X) AND (m + 2 ^ k * M)"
  have "?z = take_bit k ?z + 2 ^ k * drop_bit k ?z"
    using bits_ident [of k ?z] by (simp add: push_bit_eq_mult mult.commute)
  then show ?thesis by (simp add: t [OF assms(1)] t [OF assms(2)] take_bit_and drop_bit_and)
qed

lemma field_and_mask:
  assumes "x < (2 :: nat) ^ k"
  shows "(x + 2 ^ k * y) AND (2 ^ k - 1) = x"
proof -
  have "(x + 2 ^ k * y) AND mask k = x"
    using assms by (simp add: take_bit_eq_mask [symmetric] take_bit_eq_mod)
  then show ?thesis by (simp add: mask_eq_exp_minus_1)
qed

text \<open>The mask that keeps every other field.\<close>

definition even_mask :: "nat \<Rightarrow> nat \<Rightarrow> nat" where
  "even_mask k h = fields (2 * k) (replicate h (2 ^ k - 1))"

lemma double_field: "(2 :: nat) ^ (2 * k) = 2 ^ k * 2 ^ k"
  by (simp add: mult_2 power_add)

text \<open>One double field of a conjunction with it: the low field \<open>x\<close> stays, the high one goes.\<close>

lemma and_even_mask:
  assumes "x < 2 ^ k" and "y < 2 ^ k"
  shows "(x + 2 ^ k * y + 2 ^ (2 * k) * X) AND even_mask k (Suc h) = x + 2 ^ (2 * k) * (X AND even_mask k h)"
proof -
  have "2 ^ k * (y + 1) \<le> 2 ^ k * (2 :: nat) ^ k" using assms(2) by (intro mult_le_mono2) simp
  then have low: "x + 2 ^ k * y < 2 ^ (2 * k)"
    using assms(1) unfolding double_field by (simp add: algebra_simps)
  have m: "(2 :: nat) ^ k - 1 < 2 ^ (2 * k)"
    unfolding double_field by (rule less_le_trans [of _ "2 ^ k"]) simp_all
  have "even_mask k (Suc h) = (2 ^ k - 1) + 2 ^ (2 * k) * even_mask k h" by (simp add: even_mask_def)
  then show ?thesis
    by (simp only: and_split [OF low m] field_and_mask [OF assms(1)])
qed

lemma fields_pair: "fields k (x # y # zs) = x + 2 ^ k * y + 2 ^ (2 * k) * fields k zs"
  unfolding double_field by (simp add: algebra_simps)

lemma fields_pair_div: "x < 2 ^ k \<Longrightarrow> fields k (x # y # zs) div 2 ^ k
    = y + 2 ^ k * (fields k zs mod 2 ^ k) + 2 ^ (2 * k) * (fields k zs div 2 ^ k)"
  unfolding double_field
  by (simp add: mult.assoc add.assoc flip: distrib_left)

lemma pair_list_cases: "length ds = 2 * Suc h \<Longrightarrow> \<exists>x y zs. ds = x # y # zs \<and> length zs = 2 * h"
  by (auto simp: length_Suc_conv)

lemma keep_even_fields:
  "\<forall>d \<in> set ds. d < 2 ^ k \<Longrightarrow> length ds = 2 * h \<Longrightarrow>
   fields k ds AND even_mask k h = fields (2 * k) (pairwise (\<lambda>x y. x) ds)"
proof (induction h arbitrary: ds)
  case (Suc h)
  then obtain x y zs where ds: "ds = x # y # zs" "length zs = 2 * h" using pair_list_cases by blast
  with Suc have "x < 2 ^ k" "y < 2 ^ k" "\<forall>d \<in> set zs. d < 2 ^ k" by auto
  with Suc.IH [of zs] ds show ?case by (simp only: ds fields_pair and_even_mask) simp
qed (simp add: even_mask_def)

lemma keep_odd_fields:
  "\<forall>d \<in> set ds. d < 2 ^ k \<Longrightarrow> length ds = 2 * h \<Longrightarrow>
   (fields k ds div 2 ^ k) AND even_mask k h = fields (2 * k) (pairwise (\<lambda>x y. y) ds)"
proof (induction h arbitrary: ds)
  case (Suc h)
  then obtain x y zs where ds: "ds = x # y # zs" "length zs = 2 * h" using pair_list_cases by blast
  with Suc have "x < 2 ^ k" "y < 2 ^ k" "\<forall>d \<in> set zs. d < 2 ^ k" by auto
  with Suc.IH [of zs] ds show ?case
    by (simp only: ds fields_pair_div and_even_mask mod_less_divisor zero_less_power zero_less_numeral) simp
qed (simp add: even_mask_def)

text \<open>The three ways in which the program adds neighbouring fields.\<close>

lemma fields_pairwise_add:
  "even (length ds) \<Longrightarrow> fields k (pairwise (\<lambda>x y. x) ds) + fields k (pairwise (\<lambda>x y. y) ds) = fields k (pairwise (+) ds)"
  by (induction "(+) :: nat \<Rightarrow> nat \<Rightarrow> nat" ds rule: pairwise.induct) (auto simp flip: distrib_left)

lemma add_masked_fields:
  assumes "\<forall>d \<in> set ds. d < 2 ^ k" and "length ds = 2 * h"
  shows "(fields k ds AND even_mask k h) + ((fields k ds div 2 ^ k) AND even_mask k h)
      = fields (2 * k) (pairwise (+) ds)"
  by (simp add: keep_even_fields keep_odd_fields assms fields_pairwise_add)

lemma bits_pairwise:
  "even (length ds) \<Longrightarrow> fields 1 ds = fields 2 (pairwise (+) ds) + fields 2 (pairwise (\<lambda>x y. y) ds)"
  by (induction "(+) :: nat \<Rightarrow> nat \<Rightarrow> nat" ds rule: pairwise.induct) (auto simp: algebra_simps)

lemma subtract_high_bits:
  assumes "\<forall>d \<in> set ds. d < 2" and "length ds = 2 * h"
  shows "fields 1 ds - ((fields 1 ds div 2) AND even_mask 1 h) = fields 2 (pairwise (+) ds)"
  using keep_odd_fields [of ds 1 h] bits_pairwise [of ds] assms by simp

lemma add_then_mask:
  "\<forall>d \<in> set ds. d \<le> c \<Longrightarrow> 2 * c < 2 ^ k \<Longrightarrow> length ds = 2 * h \<Longrightarrow>
   (fields k ds + fields k ds div 2 ^ k) AND even_mask k h = fields (2 * k) (pairwise (+) ds)"
proof (induction h arbitrary: ds)
  case (Suc h)
  then obtain x y zs where ds: "ds = x # y # zs" "length zs = 2 * h" using pair_list_cases by blast
  define F where "F = fields k zs"
  have xy: "x \<le> c" "y \<le> c" "\<forall>d \<in> set zs. d \<le> c" using Suc.prems(1) by (auto simp: ds)
  have "F mod 2 ^ k \<le> c" using xy(3) Suc.prems(2) by (cases zs) (simp_all add: F_def)
  with xy Suc.prems(2) have low: "x + y < 2 ^ k" "y + F mod 2 ^ k < 2 ^ k" by linarith+
  have "x < 2 ^ k" using xy Suc.prems(2) by linarith
  then have e: "fields k ds + fields k ds div 2 ^ k
      = (x + y) + 2 ^ k * (y + F mod 2 ^ k) + 2 ^ (2 * k) * (F + F div 2 ^ k)"
    unfolding ds(1) fields_pair_div [OF \<open>x < 2 ^ k\<close>] unfolding fields_pair F_def by (simp only: ring_distribs ac_simps)
  show ?case
    unfolding e and_even_mask [OF low] using Suc.IH [of zs] ds xy(3) Suc.prems(2) by (simp add: F_def)
qed (simp add: even_mask_def)

lemma pairwise_bound: "\<forall>d \<in> set ds. d \<le> c \<Longrightarrow> \<forall>d \<in> set (pairwise (+) ds). d \<le> 2 * (c :: nat) \<or> odd (length ds)"
  by (induction "(+) :: nat \<Rightarrow> nat \<Rightarrow> nat" ds rule: pairwise.induct) auto

lemma sum_pairwise: "even (length ds) \<Longrightarrow> sum_list (pairwise (+) ds) = sum_list (ds :: nat list)"
  by (induction "(+) :: nat \<Rightarrow> nat \<Rightarrow> nat" ds rule: pairwise.induct) auto

lemma length_pairwise: "length ds = 2 * h \<Longrightarrow> length (pairwise f ds) = h"
proof (induction h arbitrary: ds)
  case (Suc h)
  then show ?case using pair_list_cases [OF Suc.prems] by auto
qed simp

section \<open>The functions count the bits\<close>

definition bit_fields :: "'a::len word \<Rightarrow> nat list" where
  "bit_fields w = map (\<lambda>i. of_bool (bit w i)) [0..<LENGTH('a)]"

lemma unat_bit_fields: "unat (w :: 'a::len word) = fields 1 (bit_fields w)"
proof -
  have h: "fields 1 (map (\<lambda>i. of_bool (P i)) is) = horner_sum of_bool 2 (map P is)"
    for P and "is" :: "nat list"
    by (induction "is") simp_all
  have "map (bit w) [0..<LENGTH('a)] = map (bit (unat w)) [0..<LENGTH('a)]"
    by (simp add: bit_unsigned_iff)
  then have "fields 1 (bit_fields w) = horner_sum of_bool 2 (map (bit (unat w)) [0..<LENGTH('a)])"
    unfolding bit_fields_def h by (rule arg_cong)
  also have "\<dots> = take_bit LENGTH('a) (unat w)" by (rule horner_sum_bit_eq_take_bit)
  also have "\<dots> = unat w" by (rule take_bit_nat_eq_self) simp
  finally show ?thesis by (rule sym)
qed

lemma sum_list_of_bool: "sum_list (map (\<lambda>i. of_bool (P i)) [0..<n]) = card {i. i < n \<and> P i}"
proof (induction n)
  case (Suc n)
  have "{i. i < Suc n \<and> P i} = (if P n then insert n {i. i < n \<and> P i} else {i. i < n \<and> P i})"
    by (auto simp: less_Suc_eq)
  with Suc show ?case by simp
qed simp

lemma sum_bit_fields: "sum_list (bit_fields w) = bit_count (w :: 'a::len word)"
  unfolding bit_fields_def bit_count_def by (rule sum_list_of_bool)

text \<open>The fields after each of the three additions, at last \<open>LENGTH div 8\<close> fields of 8 bits.\<close>

definition pair_counts :: "'a::len word \<Rightarrow> nat list" where
  "pair_counts w = pairwise (+) (bit_fields w)"

definition nibble_counts :: "'a::len word \<Rightarrow> nat list" where
  "nibble_counts w = pairwise (+) (pair_counts w)"

definition byte_counts :: "'a::len word \<Rightarrow> nat list" where
  "byte_counts w = pairwise (+) (nibble_counts w)"

lemma field_lists:
  fixes w :: "'a::len word"
  assumes "LENGTH('a) = 8 * h"
  shows "length (bit_fields w) = 2 * (2 * (2 * h))" "length (pair_counts w) = 2 * (2 * h)"
    "length (nibble_counts w) = 2 * h" "length (byte_counts w) = h"
    "\<forall>d \<in> set (bit_fields w). d \<le> 1" "\<forall>d \<in> set (pair_counts w). d \<le> 2"
    "\<forall>d \<in> set (nibble_counts w). d \<le> 4" "\<forall>d \<in> set (byte_counts w). d \<le> 8"
    "sum_list (byte_counts w) = bit_count w"
proof -
  show l: "length (bit_fields w) = 2 * (2 * (2 * h))" using assms by (simp add: bit_fields_def)
  show l2: "length (pair_counts w) = 2 * (2 * h)" unfolding pair_counts_def by (rule length_pairwise [OF l])
  show l4: "length (nibble_counts w) = 2 * h" unfolding nibble_counts_def by (rule length_pairwise [OF l2])
  show "length (byte_counts w) = h" unfolding byte_counts_def by (rule length_pairwise [OF l4])
  show b: "\<forall>d \<in> set (bit_fields w). d \<le> 1" by (auto simp: bit_fields_def)
  show b2: "\<forall>d \<in> set (pair_counts w). d \<le> 2"
    using pairwise_bound [OF b] l unfolding pair_counts_def by simp
  show b4: "\<forall>d \<in> set (nibble_counts w). d \<le> 4"
    using pairwise_bound [OF b2] l2 unfolding nibble_counts_def by simp
  show "\<forall>d \<in> set (byte_counts w). d \<le> 8"
    using pairwise_bound [OF b4] l4 unfolding byte_counts_def by simp
  show "sum_list (byte_counts w) = bit_count w"
    using l l2 l4 by (simp add: byte_counts_def nibble_counts_def pair_counts_def sum_pairwise sum_bit_fields)
qed

lemma field_stages:
  fixes w :: "'a::len word"
  assumes h: "LENGTH('a) = 8 * h"
  shows "unat w - ((unat w div 2) AND even_mask 1 (4 * h)) = fields 2 (pair_counts w)"
    and "(fields 2 (pair_counts w) AND even_mask 2 (2 * h))
       + ((fields 2 (pair_counts w) div 4) AND even_mask 2 (2 * h)) = fields 4 (nibble_counts w)"
    and "(fields 4 (nibble_counts w) + fields 4 (nibble_counts w) div 16) AND even_mask 4 h
       = fields 8 (byte_counts w)"
proof -
  note l = field_lists [OF h, of w]
  show "unat w - ((unat w div 2) AND even_mask 1 (4 * h)) = fields 2 (pair_counts w)"
    unfolding unat_bit_fields [of w] using subtract_high_bits [of "bit_fields w" "4 * h"] l(1,5)
    by (fastforce simp: pair_counts_def)
  show "(fields 2 (pair_counts w) AND even_mask 2 (2 * h))
      + ((fields 2 (pair_counts w) div 4) AND even_mask 2 (2 * h)) = fields 4 (nibble_counts w)"
    using add_masked_fields [of "pair_counts w" 2 "2 * h"] l(2,6) by (fastforce simp: nibble_counts_def)
  show "(fields 4 (nibble_counts w) + fields 4 (nibble_counts w) div 16) AND even_mask 4 h
      = fields 8 (byte_counts w)"
    using add_then_mask [of "nibble_counts w" 4 4 h] l(3,7) by (simp add: byte_counts_def)
qed

lemma field_stages_less:
  fixes w :: "'a::len word"
  assumes h: "LENGTH('a) = 8 * h"
  shows "fields 4 (nibble_counts w) < 2 ^ LENGTH('a)" and "fields 8 (byte_counts w) < 2 ^ LENGTH('a)"
proof -
  note l = field_lists [OF h, of w]
  show "fields 4 (nibble_counts w) < 2 ^ LENGTH('a)"
    using fields_less [of "nibble_counts w" 4] l(3,7) h by fastforce
  show "fields 8 (byte_counts w) < 2 ^ LENGTH('a)"
    using fields_less [of "byte_counts w" 8] l(4,8) h by fastforce
qed

lemma middle_field:
  assumes "low < 2 ^ j" and "s < (2 :: nat) ^ k"
  shows "(low + 2 ^ j * (s + 2 ^ k * high)) mod (2 ^ j * 2 ^ k) div 2 ^ j = s"
  using assms by (simp add: mod_mult2_eq)

lemma byte_list_sum_64:
  assumes l: "length us = 8" and u: "\<forall>d \<in> set us. d \<le> 8"
  shows "(fields 8 us * 0x0101010101010101) mod (2 ^ 56 * 2 ^ 8) div 2 ^ 56 = sum_list us"
proof -
  obtain a b c d e f g h where us: "us = [a, b, c, d, e, f, g, h]"
    using l by (auto simp: length_Suc_conv numeral_eq_Suc)
  define low where "low = a + 2 ^ 8 * (a + b) + 2 ^ 16 * (a + b + c) + 2 ^ 24 * (a + b + c + d)
      + 2 ^ 32 * (a + b + c + d + e) + 2 ^ 40 * (a + b + c + d + e + f)
      + 2 ^ 48 * (a + b + c + d + e + f + g)"
  define high where "high = (b + c + d + e + f + g + h) + 2 ^ 8 * (c + d + e + f + g + h)
      + 2 ^ 16 * (d + e + f + g + h) + 2 ^ 24 * (e + f + g + h) + 2 ^ 32 * (f + g + h)
      + 2 ^ 40 * (g + h) + 2 ^ 48 * h"
  have le: "a \<le> 8" "b \<le> 8" "c \<le> 8" "d \<le> 8" "e \<le> 8" "f \<le> 8" "g \<le> 8" "h \<le> 8"
    using u by (simp_all add: us)
  have e: "fields 8 us * 0x0101010101010101 = low + 2 ^ 56 * (sum_list us + 2 ^ 8 * high)"
    by (simp add: us low_def high_def)
  moreover have "low < 2 ^ 56" unfolding low_def using le by simp
  moreover have "sum_list us < 2 ^ 8" using le by (simp add: us)
  ultimately show ?thesis unfolding e by (intro middle_field)
qed

lemma byte_list_sum_32:
  assumes l: "length us = 4" and u: "\<forall>d \<in> set us. d \<le> 8"
  defines "n \<equiv> fields 8 us + fields 8 us div 2 ^ 8"
  shows "(n + n div 2 ^ 16) mod 2 ^ 6 = sum_list us" and "n + n div 2 ^ 16 < 2 ^ 32" and "n < 2 ^ 32"
proof -
  obtain a b c d where us: "us = [a, b, c, d]"
    using l by (auto simp: length_Suc_conv numeral_eq_Suc)
  have le: "a \<le> 8" "b \<le> 8" "c \<le> 8" "d \<le> 8"
    using u by (simp_all add: us)
  have "fields 8 us = a + 2 ^ 8 * (b + 2 ^ 8 * (c + 2 ^ 8 * d))" by (simp add: us)
  then have "fields 8 us div 2 ^ 8 = b + 2 ^ 8 * (c + 2 ^ 8 * d)" using le by simp
  then have n: "n = (a + b) + 2 ^ 8 * (b + c) + 2 ^ 16 * ((c + d) + 2 ^ 8 * d)" by (simp add: n_def us)
  then have "n div 2 ^ 16 = (c + d) + 2 ^ 8 * d" using le by simp
  then have e: "n + n div 2 ^ 16 = (a + b + c + d) + 2 ^ 6 * (4 * (b + c + d) + 2 ^ 10 * (c + d) + 2 ^ 18 * d)"
    by (simp add: n)
  have low: "(x + 2 ^ 6 * y) mod 2 ^ 6 = x" if "x < 2 ^ 6" for x y :: nat using that by simp
  show "(n + n div 2 ^ 16) mod 2 ^ 6 = sum_list us" unfolding e
    by (subst low) (use le us in simp_all)
  show "n + n div 2 ^ 16 < 2 ^ 32" unfolding e using le by simp
  show "n < 2 ^ 32" unfolding n using le by simp
qed

lemma even_mask_numeral:
  "even_mask k (numeral v) = (2 ^ k - 1) + 2 ^ (2 * k) * even_mask k (pred_numeral v)"
  by (simp add: even_mask_def numeral_eq_Suc)

lemma even_mask_0_1: "even_mask k 0 = 0" "even_mask k 1 = 2 ^ k - 1" "even_mask k (Suc 0) = 2 ^ k - 1"
  by (simp_all add: even_mask_def)

lemma even_mask_literals:
  "even_mask 1 32 = 0x5555555555555555" "even_mask 2 16 = 0x3333333333333333"
  "even_mask 4 8 = 0x0F0F0F0F0F0F0F0F"
  "even_mask 1 16 = 0x55555555" "even_mask 2 8 = 0x33333333" "even_mask 4 4 = 0x0F0F0F0F"
  by (simp_all add: even_mask_numeral even_mask_0_1)

lemma unat_and: "unat (v AND w) = unat v AND unat w"
  by (rule unsigned_and_eq)

lemma unat_shift: "unat (drop_bit k (w :: 'a::len word)) = unat w div 2 ^ k"
  by (simp add: unat_drop_bit_eq drop_bit_nat_def)

lemma word_stages:
  fixes w :: "'a::len word"
  assumes h: "LENGTH('a) = 8 * h"
    and m: "unat m1 = even_mask 1 (4 * h)" "unat m2 = even_mask 2 (2 * h)" "unat m4 = even_mask 4 h"
  defines "n1 \<equiv> w - (drop_bit 1 w AND m1)"
  defines "n2 \<equiv> (n1 AND m2) + (drop_bit 2 n1 AND m2)"
  shows "unat ((n2 + drop_bit 4 n2) AND m4) = fields 8 (byte_counts w)"
proof -
  note stages = field_stages [OF h, of w]
  have "drop_bit 1 w AND m1 \<le> drop_bit 1 w" by (rule word_and_le2)
  also have "drop_bit 1 w \<le> w" by (simp add: word_le_nat_alt unat_shift)
  finally have n1: "unat n1 = fields 2 (pair_counts w)"
    unfolding n1_def stages(1) [symmetric] by (simp add: unat_sub unat_and unat_shift m)
  have n2: "unat n2 = fields 4 (nibble_counts w)"
    using field_stages_less(1) [OF h, of w]
    by (simp add: n2_def unat_word_ariths(1) unat_and unat_shift m n1 stages(2))
  have "unat ((n2 + drop_bit 4 n2) AND m4) = take_bit LENGTH('a) (unat n2 + unat n2 div 16) AND even_mask 4 h"
    by (simp add: unat_and unat_word_ariths(1) unat_shift m take_bit_eq_mod)
  also have "\<dots> = take_bit LENGTH('a) ((unat n2 + unat n2 div 16) AND even_mask 4 h)"
    by (simp add: take_bit_and take_bit_nat_eq_self flip: m(3))
  also have "\<dots> = fields 8 (byte_counts w)"
    using field_stages_less(2) [OF h, of w] by (simp add: n2 stages(3) take_bit_nat_eq_self)
  finally show ?thesis .
qed

text \<open>
  \<open>BitCount64\<close> and \<open>BitCount32\<close>, which add the bits in parallel inside one word, return the number
  of positions at which the word has a bit.
\<close>

lemma BitCount_ok:
  "unat (BitCount64 n) = bit_count n" "unat (BitCount32 m) = bit_count m"
proof -
  define n8 where "n8 = (let n = n - (drop_bit 1 n AND 0x5555555555555555);
      n = (n AND 0x3333333333333333) + (drop_bit 2 n AND 0x3333333333333333)
    in (n + drop_bit 4 n) AND 0x0F0F0F0F0F0F0F0F)"
  have h: "LENGTH(64) = 8 * 8" by simp
  note l = field_lists [OF h, of n]
  have "unat n8 = fields 8 (byte_counts n)"
    unfolding n8_def Let_def by (rule word_stages [OF h]) (simp_all add: even_mask_literals [unfolded One_nat_def])
  then have "unat (drop_bit 56 (n8 * 0x0101010101010101)) = sum_list (byte_counts n)"
    using byte_list_sum_64 [OF l(4,8)] by (simp only: unat_shift unat_word_ariths(2)) simp
  then show "unat (BitCount64 n) = bit_count n"
    by (simp only: BitCount64_def n8_def Let_def l(9))
  define m8 where "m8 = (let n = m - (drop_bit 1 m AND 0x55555555);
      n = (n AND 0x33333333) + (drop_bit 2 n AND 0x33333333)
    in (n + drop_bit 4 n) AND 0x0F0F0F0F)"
  have h': "LENGTH(32) = 8 * 4" by simp
  note l' = field_lists [OF h', of m]
  have m8: "unat m8 = fields 8 (byte_counts m)"
    unfolding m8_def Let_def by (rule word_stages [OF h']) (simp_all add: even_mask_literals [unfolded One_nat_def])
  define m16 where "m16 = m8 + drop_bit 8 m8"
  note sums = byte_list_sum_32 [OF l'(4,8)]
  have m16: "unat m16 = fields 8 (byte_counts m) + fields 8 (byte_counts m) div 2 ^ 8"
    using sums(3) by (simp add: m16_def unat_word_ariths(1) unat_shift m8)
  have "(0x3F :: int32) = mask 6" by (simp add: mask_numeral)
  then have "x AND 0x3F = take_bit 6 x" for x :: int32 by (simp only: take_bit_eq_mask)
  then have "unat ((m16 + drop_bit 16 m16) AND 0x3F) = unat (m16 + drop_bit 16 m16) mod 2 ^ 6"
    by (simp only: unsigned_take_bit_eq) (simp only: take_bit_eq_mod)
  also have "\<dots> = sum_list (byte_counts m)"
    using sums(1,2) by (simp add: unat_word_ariths(1) unat_shift m16)
  finally show "unat (BitCount32 m) = bit_count m"
    by (simp only: BitCount32_def m8_def m16_def Let_def l'(9))
qed

end
