(* ===== verification/Bit_Ranges.thy ===== *)
theory Bit_Ranges
  imports Word_Scans Bit_Counts
begin

text \<open>
  The functions of \<open>src/Bitset.cc\<close> on ranges of positions of an array of words, written in the code as
  macros over the word size. A macro is a definition over a record of the operations of one word size,
  the macro's calls \<open>BitOffset##size\<close> and so on; the locale \<open>word_ops\<close> states what they have to do and is
  interpreted on the 64-bit and on the 32-bit operations of \<open>include/cosy/Bitset.h\<close>.

  An array is the list of its words, subscripted by an \<open>int\<close> as in the code; \<open>arr_bit\<close> reads it as the
  set of its positions.
\<close>

unbundle bit_operations_syntax

section \<open>The 32-bit helpers\<close>

definition kAllBits32 :: int32 where
  "kAllBits32 = 0xFFFFFFFF"

definition OneBit32 :: "int32 \<Rightarrow> int32" where
  "OneBit32 pos = push_bit (unat pos) 1"

definition OneRange32 :: "int32 \<Rightarrow> int32 \<Rightarrow> int32 result" where
  "OneRange32 s e =
     check (s \<le> 31) (check (e \<le> 31) (check (s \<le> e)
       (Inr (push_bit (unat s) kAllBits32 XOR push_bit (unat e) (kAllBits32 - 1)))))"

definition IntervalUp32 :: "int32 \<Rightarrow> int32 result" where
  "IntervalUp32 s = check (s \<le> 31) (Inr (push_bit (unat s) kAllBits32))"

definition IntervalDown32 :: "int32 \<Rightarrow> int32 result" where
  "IntervalDown32 s = check (s \<le> 31) (Inr (drop_bit (unat (31 - s)) kAllBits32))"

definition BitPos32 :: "int32 \<Rightarrow> int32" where
  "BitPos32 pos = pos AND 31"

definition BitOffset32 :: "int32 \<Rightarrow> int32" where
  "BitOffset32 pos = drop_bit 5 pos"

definition BitLength32 :: "int32 \<Rightarrow> int32" where
  "BitLength32 sz = drop_bit 5 (sz + 31)"

definition BitShift32 :: "int32 \<Rightarrow> int32" where
  "BitShift32 v = push_bit 5 v"

section \<open>Single bits of an array\<close>

definition IsBitSet64 :: "int64 list \<Rightarrow> int64 \<Rightarrow> bool result" where
  "IsBitSet64 bitset pos = andThen (vec_at bitset (unat (BitOffset64 pos)))
     (\<lambda>w. Inr (w AND OneBit64 (ucast (BitPos64 pos)) \<noteq> 0))"

definition IsBitSet32 :: "int32 list \<Rightarrow> int32 \<Rightarrow> bool result" where
  "IsBitSet32 bitset pos = andThen (vec_at bitset (unat (BitOffset32 pos)))
     (\<lambda>w. Inr (w AND OneBit32 (BitPos32 pos) \<noteq> 0))"

definition SetBit64 :: "int64 list \<Rightarrow> int64 \<Rightarrow> int64 list result" where
  "SetBit64 bitset pos = andThen (vec_at bitset (unat (BitOffset64 pos)))
     (\<lambda>w. vec_put bitset (unat (BitOffset64 pos)) (w OR OneBit64 (ucast (BitPos64 pos))))"

definition SetBit32 :: "int32 list \<Rightarrow> int32 \<Rightarrow> int32 list result" where
  "SetBit32 bitset pos = andThen (vec_at bitset (unat (BitOffset32 pos)))
     (\<lambda>w. vec_put bitset (unat (BitOffset32 pos)) (w OR OneBit32 (BitPos32 pos)))"

definition ClearBit64 :: "int64 list \<Rightarrow> int64 \<Rightarrow> int64 list result" where
  "ClearBit64 bitset pos = andThen (vec_at bitset (unat (BitOffset64 pos)))
     (\<lambda>w. vec_put bitset (unat (BitOffset64 pos)) (w AND NOT (OneBit64 (ucast (BitPos64 pos)))))"

definition ClearBit32 :: "int32 list \<Rightarrow> int32 \<Rightarrow> int32 list result" where
  "ClearBit32 bitset pos = andThen (vec_at bitset (unat (BitOffset32 pos)))
     (\<lambda>w. vec_put bitset (unat (BitOffset32 pos)) (w AND NOT (OneBit32 (BitPos32 pos))))"

section \<open>The macros\<close>

text \<open>The operations of one word size that the macros call.\<close>

record (overloaded) ('a :: len) width_ops =
  BitOffset :: "'a word \<Rightarrow> 'a word"
  BitPos :: "'a word \<Rightarrow> 'a word"
  BitShift :: "'a word \<Rightarrow> 'a word"
  OneRange :: "'a word \<Rightarrow> 'a word \<Rightarrow> 'a word result"
  IntervalUp :: "'a word \<Rightarrow> 'a word result"
  IntervalDown :: "'a word \<Rightarrow> 'a word result"
  IsBitSet :: "'a word list \<Rightarrow> 'a word \<Rightarrow> bool result"
  BitCount :: "'a word \<Rightarrow> 'a word"
  LsbPosition :: "'a word \<Rightarrow> int32 result"
  MsbPosition :: "'a word \<Rightarrow> int32"

definition ops64 :: "64 width_ops" where
  "ops64 = \<lparr>BitOffset = BitOffset64, BitPos = BitPos64, BitShift = BitShift64,
     OneRange = OneRange64, IntervalUp = IntervalUp64, IntervalDown = IntervalDown64,
     IsBitSet = IsBitSet64, BitCount = BitCount64,
     LsbPosition = LeastSignificantBitPosition64, MsbPosition = MostSignificantBitPosition64\<rparr>"

definition ops32 :: "32 width_ops" where
  "ops32 = \<lparr>BitOffset = BitOffset32, BitPos = BitPos32, BitShift = BitShift32,
     OneRange = OneRange32, IntervalUp = IntervalUp32, IntervalDown = IntervalDown32,
     IsBitSet = IsBitSet32, BitCount = BitCount32,
     LsbPosition = LeastSignificantBitPosition32, MsbPosition = MostSignificantBitPosition32\<rparr>"

text \<open>A subscript of type \<open>int\<close>, and the values of the loop \<open>for (int o = a; o < b; ++o)\<close>.\<close>

definition word_at :: "'a word list \<Rightarrow> int32 \<Rightarrow> 'a word result" where
  "word_at bits i = (if i <s 0 then Inl Bad_index else vec_at bits (unat i))"

definition int_range :: "int32 \<Rightarrow> int32 \<Rightarrow> int32 list" where
  "int_range a b = map word_of_int [sint a .. sint b - 1]"

text \<open>The word at \<open>i\<close> under a mask.\<close>

definition masked_at :: "'a::len word list \<Rightarrow> int32 \<Rightarrow> 'a word result \<Rightarrow> 'a word result" where
  "masked_at bits i mask_of = andThen (word_at bits i) (\<lambda>w. andThen mask_of (\<lambda>m. Inr (w AND m)))"

text \<open>
  The loop over a short range. It counts \<open>i\<close> up to the last position \<open>e\<close> and does not end when \<open>e\<close> is
  the largest word; a range that is counted this way has at most 9 positions, so that a loop that has
  not ended after 10 rounds never ends: \<open>None\<close>.
\<close>

fun count_loop :: "'a::len width_ops \<Rightarrow> 'a word list \<Rightarrow> nat \<Rightarrow> 'a word \<Rightarrow> 'a word \<Rightarrow> 'a word
    \<Rightarrow> 'a word result option" where
  "count_loop ops bits 0 i e c = None"
| "count_loop ops bits (Suc n) i e c =
     (if i \<le> e then
        (case IsBitSet ops bits i of
           Inl err \<Rightarrow> Some (Inl err)
         | Inr b \<Rightarrow> count_loop ops bits n (i + 1) e (c + of_bool b))
      else Some (Inr c))"

definition BitCountRange :: "'a::len width_ops \<Rightarrow> 'a word list \<Rightarrow> 'a word \<Rightarrow> 'a word \<Rightarrow> 'a word result option" where
  "BitCountRange ops bits start end_pos =
     (if 8 < end_pos - start then
        (let offset_start = ucast (BitOffset ops start) :: int32;
             pos_start = ucast (BitPos ops start) :: int32;
             offset_end = ucast (BitOffset ops end_pos) :: int32;
             pos_end = ucast (BitPos ops end_pos) :: int32
         in Some (if offset_end = offset_start then
              andThen (masked_at bits offset_start (OneRange ops (scast pos_start) (scast pos_end)))
                (\<lambda>w. Inr (BitCount ops w))
            else
              andThen (masked_at bits offset_start (IntervalUp ops (scast pos_start))) (\<lambda>w.
              andThen (foldR (\<lambda>i c. andThen (word_at bits i) (\<lambda>v. Inr (c + BitCount ops v)))
                         (int_range (offset_start + 1) offset_end) (BitCount ops w)) (\<lambda>c.
              andThen (masked_at bits offset_end (IntervalDown ops (scast pos_end))) (\<lambda>v.
              Inr (c + BitCount ops v))))))
      else count_loop ops bits 10 start end_pos 0)"

definition IsEmptyRange :: "'a::len width_ops \<Rightarrow> 'a word list \<Rightarrow> 'a word \<Rightarrow> 'a word \<Rightarrow> bool result" where
  "IsEmptyRange ops bits start end_pos =
     (let offset_start = ucast (BitOffset ops start) :: int32;
          pos_start = ucast (BitPos ops start) :: int32;
          offset_end = ucast (BitOffset ops end_pos) :: int32;
          pos_end = ucast (BitPos ops end_pos) :: int32
      in if offset_end = offset_start then
           andThen (masked_at bits offset_start (OneRange ops (scast pos_start) (scast pos_end)))
             (\<lambda>w. Inr (w = 0))
         else
           andThen (masked_at bits offset_start (IntervalUp ops (scast pos_start))) (\<lambda>w.
           if w \<noteq> 0 then Inr False
           else andThen (anyR (\<lambda>i. andThen (word_at bits i) (\<lambda>v. Inr (v \<noteq> 0)))
                           (int_range (offset_start + 1) offset_end)) (\<lambda>found.
           if found then Inr False
           else andThen (masked_at bits offset_end (IntervalDown ops (scast pos_end))) (\<lambda>v.
             Inr (v = 0)))))"

text \<open>The position of the lowest or highest bit of a word, as a position of the array.\<close>

definition lsb_at :: "'a::len width_ops \<Rightarrow> int32 \<Rightarrow> 'a word \<Rightarrow> 'a word result" where
  "lsb_at ops offset w = andThen (LsbPosition ops w) (\<lambda>p. Inr (BitShift ops (scast offset) + scast p))"

definition msb_at :: "'a::len width_ops \<Rightarrow> int32 \<Rightarrow> 'a word \<Rightarrow> 'a word result" where
  "msb_at ops offset w = Inr (BitShift ops (scast offset) + scast (MsbPosition ops w))"

text \<open>The loop that leaves at the first word that is not zero.\<close>

fun first_word :: "'a::len word list \<Rightarrow> int32 list \<Rightarrow> (int32 \<times> 'a word) option result" where
  "first_word bits [] = Inr None"
| "first_word bits (i # is) =
     andThen (word_at bits i) (\<lambda>w. if w \<noteq> 0 then Inr (Some (i, w)) else first_word bits is)"

definition LeastSignificantBitPosition ::
    "'a::len width_ops \<Rightarrow> 'a word list \<Rightarrow> 'a word \<Rightarrow> 'a word \<Rightarrow> 'a word result" where
  "LeastSignificantBitPosition ops bits start end_pos =
     check (start \<le> end_pos) (andThen (IsBitSet ops bits start) (\<lambda>b.
     if b then Inr start else
       let offset_start = ucast (BitOffset ops start) :: int32;
           offset_end = ucast (BitOffset ops end_pos) :: int32;
           pos_start = ucast (BitPos ops start) :: int32;
           pos_end = ucast (BitPos ops end_pos) :: int32
       in if offset_start = offset_end then
            andThen (masked_at bits offset_start (OneRange ops (scast pos_start) (scast pos_end))) (\<lambda>w.
            if w \<noteq> 0 then lsb_at ops offset_start w else Inr (- 1))
          else
            andThen (masked_at bits offset_start (IntervalUp ops (scast pos_start))) (\<lambda>w.
            if w \<noteq> 0 then lsb_at ops offset_start w
            else andThen (first_word bits (int_range (offset_start + 1) offset_end)) (\<lambda>found.
              case found of
                Some (offset, v) \<Rightarrow> lsb_at ops offset v
              | None \<Rightarrow>
                  andThen (masked_at bits offset_end (IntervalDown ops (scast pos_end))) (\<lambda>v.
                  if v \<noteq> 0 then lsb_at ops offset_end v else Inr (- 1))))))"

definition MostSignificantBitPosition ::
    "'a::len width_ops \<Rightarrow> 'a word list \<Rightarrow> 'a word \<Rightarrow> 'a word \<Rightarrow> 'a word result" where
  "MostSignificantBitPosition ops bits start end_pos =
     check (start \<le> end_pos) (andThen (IsBitSet ops bits end_pos) (\<lambda>b.
     if b then Inr end_pos else
       let offset_start = ucast (BitOffset ops start) :: int32;
           offset_end = ucast (BitOffset ops end_pos) :: int32;
           pos_start = ucast (BitPos ops start) :: int32;
           pos_end = ucast (BitPos ops end_pos) :: int32
       in if offset_start = offset_end then
            andThen (masked_at bits offset_start (OneRange ops (scast pos_start) (scast pos_end))) (\<lambda>w.
            if w \<noteq> 0 then msb_at ops offset_end w else Inr (- 1))
          else
            andThen (masked_at bits offset_end (IntervalDown ops (scast pos_end))) (\<lambda>w.
            if w \<noteq> 0 then msb_at ops offset_end w
            else andThen (first_word bits (rev (int_range (offset_start + 1) offset_end))) (\<lambda>found.
              case found of
                Some (offset, v) \<Rightarrow> msb_at ops offset v
              | None \<Rightarrow>
                  andThen (masked_at bits offset_start (IntervalUp ops (scast pos_start))) (\<lambda>v.
                  if v \<noteq> 0 then msb_at ops offset_start v else Inr (- 1))))))"

definition UnsafeLeastSignificantBitPosition ::
    "'a::len width_ops \<Rightarrow> 'a word list \<Rightarrow> 'a word \<Rightarrow> 'a word \<Rightarrow> 'a word result" where
  "UnsafeLeastSignificantBitPosition ops bits start end_pos =
     check (start \<le> end_pos) (andThen (IsBitSet ops bits end_pos) (\<lambda>last. check last
     (andThen (IsBitSet ops bits start) (\<lambda>b.
     if b then Inr start else
       let offset_start = ucast (BitOffset ops start) :: int32;
           offset_end = ucast (BitOffset ops end_pos) :: int32;
           pos_start = ucast (BitPos ops start) :: int32
       in andThen (masked_at bits offset_start (IntervalUp ops (scast pos_start))) (\<lambda>w.
          if w \<noteq> 0 then lsb_at ops offset_start w
          else andThen (first_word bits (int_range (offset_start + 1) (offset_end + 1))) (\<lambda>found.
            case found of Some (offset, v) \<Rightarrow> lsb_at ops offset v | None \<Rightarrow> Inr (- 1)))))))"

definition UnsafeMostSignificantBitPosition ::
    "'a::len width_ops \<Rightarrow> 'a word list \<Rightarrow> 'a word \<Rightarrow> 'a word \<Rightarrow> 'a word result" where
  "UnsafeMostSignificantBitPosition ops bits start end_pos =
     check (start \<le> end_pos) (andThen (IsBitSet ops bits start) (\<lambda>first. check first
     (andThen (IsBitSet ops bits end_pos) (\<lambda>b.
     if b then Inr end_pos else
       let offset_start = ucast (BitOffset ops start) :: int32;
           offset_end = ucast (BitOffset ops end_pos) :: int32;
           pos_end = ucast (BitPos ops end_pos) :: int32
       in andThen (masked_at bits offset_end (IntervalDown ops (scast pos_end))) (\<lambda>w.
          if w \<noteq> 0 then msb_at ops offset_end w
          else andThen (first_word bits (rev (int_range offset_start offset_end))) (\<lambda>found.
            case found of Some (offset, v) \<Rightarrow> msb_at ops offset v | None \<Rightarrow> Inr (- 1)))))))"

section \<open>The specification\<close>

definition arr_bit :: "'a::len word list \<Rightarrow> nat \<Rightarrow> bool" where
  "arr_bit bits i \<longleftrightarrow> i < LENGTH('a) * length bits \<and> bit (bits ! (i div LENGTH('a))) (i mod LENGTH('a))"

text \<open>A range inside the array, whose positions and word numbers can be held in the result types.\<close>

definition range_ok :: "'a::len word list \<Rightarrow> 'a word \<Rightarrow> 'a word \<Rightarrow> bool" where
  "range_ok bits s e \<longleftrightarrow> s \<le> e \<and> unat e < LENGTH('a) * length bits \<and> length bits < 2 ^ 31 - 1
     \<and> LENGTH('a) * length bits \<le> 2 ^ (LENGTH('a) - 1)"

definition first_in :: "(nat \<Rightarrow> bool) \<Rightarrow> nat \<Rightarrow> nat \<Rightarrow> nat \<Rightarrow> bool" where
  "first_in P lo hi k \<longleftrightarrow> lo \<le> k \<and> k \<le> hi \<and> P k \<and> (\<forall>i. lo \<le> i \<and> i < k \<longrightarrow> \<not> P i)"

definition last_in :: "(nat \<Rightarrow> bool) \<Rightarrow> nat \<Rightarrow> nat \<Rightarrow> nat \<Rightarrow> bool" where
  "last_in P lo hi k \<longleftrightarrow> lo \<le> k \<and> k \<le> hi \<and> P k \<and> (\<forall>i. k < i \<and> i \<le> hi \<longrightarrow> \<not> P i)"

definition none_in :: "(nat \<Rightarrow> bool) \<Rightarrow> nat \<Rightarrow> nat \<Rightarrow> bool" where
  "none_in P lo hi \<longleftrightarrow> (\<forall>i. lo \<le> i \<and> i \<le> hi \<longrightarrow> \<not> P i)"

section \<open>The operations of one word size\<close>

text \<open>What the macros rely on.\<close>

locale word_ops =
  fixes ops :: "'a::len width_ops"
  assumes width: "8 \<le> LENGTH('a)" "LENGTH('a) \<le> 64"
    and offset: "unat (BitOffset ops w) = unat w div LENGTH('a)"
    and pos: "unat (BitPos ops w) = unat w mod LENGTH('a)"
    and shift: "unat v * LENGTH('a) < 2 ^ LENGTH('a) \<Longrightarrow> unat (BitShift ops v) = unat v * LENGTH('a)"
    and one_range: "s \<le> e \<Longrightarrow> unat e < LENGTH('a) \<Longrightarrow>
        \<exists>m. OneRange ops s e = Inr m \<and> (\<forall>i. bit m i \<longleftrightarrow> unat s \<le> i \<and> i \<le> unat e)"
    and interval_up: "unat s < LENGTH('a) \<Longrightarrow>
        \<exists>m. IntervalUp ops s = Inr m \<and> (\<forall>i. bit m i \<longleftrightarrow> unat s \<le> i \<and> i < LENGTH('a))"
    and interval_down: "unat s < LENGTH('a) \<Longrightarrow>
        \<exists>m. IntervalDown ops s = Inr m \<and> (\<forall>i. bit m i \<longleftrightarrow> i \<le> unat s)"
    and is_bit_set: "IsBitSet ops bits p = andThen (vec_at bits (unat p div LENGTH('a)))
        (\<lambda>w. Inr (bit w (unat p mod LENGTH('a))))"
    and count: "unat (BitCount ops w) = bit_count w"
    and lsb: "is_lsb w k \<Longrightarrow> LsbPosition ops w = Inr (of_nat k)"
    and msb: "is_msb w k \<Longrightarrow> MsbPosition ops w = of_nat k"

subsection \<open>Both word sizes are instances\<close>

lemma bit_all: "bit kAllBits64 i \<longleftrightarrow> i < 64" "bit kAllBits32 i \<longleftrightarrow> i < 32"
  "bit (kAllBits64 - 1) i \<longleftrightarrow> 0 < i \<and> i < 64" "bit (kAllBits32 - 1) i \<longleftrightarrow> 0 < i \<and> i < 32"
proof -
  have e: "kAllBits64 = mask 64" "kAllBits32 = mask 32"
    by (simp_all add: kAllBits64_def kAllBits32_def mask_numeral)
  show "bit kAllBits64 i \<longleftrightarrow> i < 64" "bit kAllBits32 i \<longleftrightarrow> i < 32"
    unfolding e by (simp_all only: bit_mask_iff possible_bit_word) simp_all
  have e': "kAllBits64 - 1 = push_bit 1 (mask 63)" "kAllBits32 - 1 = push_bit 1 (mask 31)"
    by (simp_all add: kAllBits64_def kAllBits32_def mask_numeral)
  show "bit (kAllBits64 - 1) i \<longleftrightarrow> 0 < i \<and> i < 64" "bit (kAllBits32 - 1) i \<longleftrightarrow> 0 < i \<and> i < 32"
    unfolding e' by (auto simp only: bit_push_bit_iff bit_mask_iff possible_bit_word) auto
qed

lemma mask_5: "(31 :: int32) = mask 5"
  by (simp add: mask_numeral)

lemma unat_BitPos32: "unat (BitPos32 w) = unat w mod 32"
  unfolding BitPos32_def mask_5 take_bit_eq_mask [symmetric]
  by (simp add: unsigned_take_bit_eq take_bit_nat_def)

lemma unat_BitOffset32: "unat (BitOffset32 w) = unat w div 32"
  by (simp add: BitOffset32_def unat_drop_bit_eq drop_bit_nat_def)

lemma unat_push: "unat v * 2 ^ k < 2 ^ LENGTH('a) \<Longrightarrow> unat (push_bit k (v :: 'a::len word)) = unat v * 2 ^ k"
  by (simp add: unsigned_push_bit_eq push_bit_nat_def take_bit_nat_eq_self)

lemma bit_OneBit32: "bit (OneBit32 p) n \<longleftrightarrow> n = unat p \<and> n < 32"
  by (auto simp only: OneBit32_def bit_push_bit_iff bit_1_iff possible_bit_word) auto

lemma le_31: "(s :: int32) \<le> 31 \<longleftrightarrow> unat s < 32" and le_63: "(t :: int64) \<le> 63 \<longleftrightarrow> unat t < 64"
  by (auto simp: word_le_nat_alt)

lemma unat_diff_31: "unat s < 32 \<Longrightarrow> unat (31 - s :: int32) = 31 - unat s"
  and unat_diff_63: "unat t < 64 \<Longrightarrow> unat (63 - t :: int64) = 63 - unat t"
  by (simp_all add: unat_sub word_le_nat_alt)

lemma masks64:
  "s \<le> e \<Longrightarrow> unat e < 64 \<Longrightarrow> \<exists>m. OneRange64 s e = Inr m \<and> (\<forall>i. bit m i \<longleftrightarrow> unat s \<le> i \<and> i \<le> unat e)"
  "unat s < 64 \<Longrightarrow> \<exists>m. IntervalUp64 s = Inr m \<and> (\<forall>i. bit m i \<longleftrightarrow> unat s \<le> i \<and> i < 64)"
  "unat s < 64 \<Longrightarrow> \<exists>m. IntervalDown64 s = Inr m \<and> (\<forall>i. bit m i \<longleftrightarrow> i \<le> unat s)"
proof -
  show "\<exists>m. OneRange64 s e = Inr m \<and> (\<forall>i. bit m i \<longleftrightarrow> unat s \<le> i \<and> i \<le> unat e)"
    if "s \<le> e" "unat e < 64"
  proof -
    have "unat s \<le> unat e" using that by (simp add: word_le_nat_alt)
    then show ?thesis
      using that by (auto simp: OneRange64_def le_63 bit_xor_iff bit_push_bit_iff bit_all)
  qed
  show "\<exists>m. IntervalUp64 s = Inr m \<and> (\<forall>i. bit m i \<longleftrightarrow> unat s \<le> i \<and> i < 64)" if "unat s < 64"
    using that by (auto simp: IntervalUp64_def le_63 bit_push_bit_iff bit_all)
  show "\<exists>m. IntervalDown64 s = Inr m \<and> (\<forall>i. bit m i \<longleftrightarrow> i \<le> unat s)" if "unat s < 64"
    using that by (auto simp: IntervalDown64_def le_63 bit_drop_bit_eq bit_all unat_diff_63)
qed

lemma masks32:
  "s \<le> e \<Longrightarrow> unat e < 32 \<Longrightarrow> \<exists>m. OneRange32 s e = Inr m \<and> (\<forall>i. bit m i \<longleftrightarrow> unat s \<le> i \<and> i \<le> unat e)"
  "unat s < 32 \<Longrightarrow> \<exists>m. IntervalUp32 s = Inr m \<and> (\<forall>i. bit m i \<longleftrightarrow> unat s \<le> i \<and> i < 32)"
  "unat s < 32 \<Longrightarrow> \<exists>m. IntervalDown32 s = Inr m \<and> (\<forall>i. bit m i \<longleftrightarrow> i \<le> unat s)"
proof -
  show "\<exists>m. OneRange32 s e = Inr m \<and> (\<forall>i. bit m i \<longleftrightarrow> unat s \<le> i \<and> i \<le> unat e)"
    if "s \<le> e" "unat e < 32"
  proof -
    have "unat s \<le> unat e" using that by (simp add: word_le_nat_alt)
    then show ?thesis
      using that by (auto simp: OneRange32_def le_31 bit_xor_iff bit_push_bit_iff bit_all)
  qed
  show "\<exists>m. IntervalUp32 s = Inr m \<and> (\<forall>i. bit m i \<longleftrightarrow> unat s \<le> i \<and> i < 32)" if "unat s < 32"
    using that by (auto simp: IntervalUp32_def le_31 bit_push_bit_iff bit_all)
  show "\<exists>m. IntervalDown32 s = Inr m \<and> (\<forall>i. bit m i \<longleftrightarrow> i \<le> unat s)" if "unat s < 32"
    using that by (auto simp: IntervalDown32_def le_31 bit_drop_bit_eq bit_all unat_diff_31)
qed

lemma is_bit_set_eq:
  "IsBitSet64 bits p = andThen (vec_at bits (unat p div 64)) (\<lambda>w. Inr (bit w (unat p mod 64)))"
  "IsBitSet32 bits' q = andThen (vec_at bits' (unat q div 32)) (\<lambda>w. Inr (bit w (unat q mod 32)))"
  by (simp_all add: IsBitSet64_def IsBitSet32_def bit_and_OneBit64 unat_BitOffset32 word_neq_0_bit
      bit_and_iff bit_OneBit32 unat_BitPos32)

interpretation w64: word_ops ops64
  by unfold_locales
    (simp_all add: ops64_def masks64 is_bit_set_eq BitCount_ok LeastSignificantBitPosition64_def
      lsb_fast_ok is_lsb_nonzero MostSignificantBitPosition64_def msb_fast_ok BitShift64_def
      unat_push [where k = 6, simplified])

interpretation w32: word_ops ops32
  by unfold_locales
    (simp_all add: ops32_def masks32 is_bit_set_eq BitCount_ok LeastSignificantBitPosition32_def
      lsb_fast_ok is_lsb_nonzero MostSignificantBitPosition32_def msb_fast_ok BitShift32_def
      unat_push [where k = 5, simplified] unat_BitPos32 unat_BitOffset32)

section \<open>Subscripts and loops over subscripts\<close>

lemma sint_small_nat: "p < 2 ^ 31 \<Longrightarrow> sint (of_nat p :: int32) = int p"
  by (simp add: signed_of_nat signed_take_bit_int_eq_self)

lemma scast_small: "p < 2 ^ 31 \<Longrightarrow> scast (of_nat p :: int32) = (of_nat p :: 'a::len word)"
  using sint_small_nat [of p] by (metis of_int_of_nat_eq of_int_sint)

lemma word_at_nat: "j < length bits \<Longrightarrow> length bits < 2 ^ 31 \<Longrightarrow> word_at bits (of_nat j) = Inr (bits ! j)"
  using sint_small_nat [of j]
  by (simp add: word_at_def word_sless_alt vec_at_def unsigned_of_nat take_bit_nat_eq_self)

lemma upto_nat: "[int a..int b - 1] = map int [a..<b]"
proof (induction b)
  case (Suc b)
  then show ?case
    by (cases "a \<le> b") (simp_all add: upto_rec2)
qed simp

lemma int_range_nat: "a < 2 ^ 31 \<Longrightarrow> b < 2 ^ 31 \<Longrightarrow> int_range (of_nat a) (of_nat b) = map of_nat [a..<b]"
  unfolding int_range_def by (simp only: sint_small_nat upto_nat map_map comp_def of_int_of_nat_eq)

lemma first_word_nat:
  "\<forall>j \<in> set js. j < length bits \<Longrightarrow> length bits < 2 ^ 31 \<Longrightarrow>
   first_word bits (map of_nat js) = Inr (map_option (\<lambda>j. (of_nat j, bits ! j)) (List.find (\<lambda>j. bits ! j \<noteq> 0) js))"
  by (induction js) (auto simp: word_at_nat)

lemma ucast_int: "(ucast w :: int32) = of_nat (unat w)"
  by simp

lemma find_upt_Some:
  assumes "List.find P [a..<b] = Some j"
  shows "a \<le> j \<and> j < b \<and> P j \<and> (\<forall>i. a \<le> i \<and> i < j \<longrightarrow> \<not> P i)"
proof -
  obtain n where n: "n < b - a" "P (a + n)" "j = a + n" "\<And>m. m < n \<Longrightarrow> \<not> P (a + m)"
    using assms by (auto simp: find_Some_iff)
  have "\<not> P i" if "a \<le> i" "i < j" for i
    using n(4) [of "i - a"] that by (simp add: n(3))
  then show ?thesis using n by auto
qed

lemma find_rev_upt_Some:
  assumes "List.find P (rev [a..<b]) = Some j"
  shows "a \<le> j \<and> j < b \<and> P j \<and> (\<forall>i. j < i \<and> i < b \<longrightarrow> \<not> P i)"
proof -
  obtain n where n: "n < b - a" "P (b - Suc n)" "j = b - Suc n" "\<And>m. m < n \<Longrightarrow> \<not> P (b - Suc m)"
    using assms by (auto simp: find_Some_iff rev_nth)
  have "\<not> P i" if "j < i" "i < b" for i
    using n(4) [of "b - Suc i"] that n(1) by (simp add: n(3))
  then show ?thesis using n by auto
qed

section \<open>The words of a range\<close>

text \<open>The part of the word \<open>j\<close> that lies in a range of positions.\<close>

definition active :: "'a::len word list \<Rightarrow> nat \<Rightarrow> nat \<Rightarrow> nat \<Rightarrow> 'a word" where
  "active bits lo hi j = horner_sum of_bool 2
     (map (\<lambda>b. bit (bits ! j) b \<and> lo \<le> j * LENGTH('a) + b \<and> j * LENGTH('a) + b \<le> hi) [0..<LENGTH('a)])"

lemma bit_active:
  fixes bits :: "'a::len word list"
  shows "bit (active bits lo hi j) b \<longleftrightarrow>
    b < LENGTH('a) \<and> bit (bits ! j) b \<and> lo \<le> j * LENGTH('a) + b \<and> j * LENGTH('a) + b \<le> hi"
  by (auto simp: active_def bit_horner_sum_bit_word_iff)

lemma lex_le:
  fixes a c w x y :: nat
  assumes "x < w" and "y < w"
  shows "a * w + x \<le> c * w + y \<longleftrightarrow> a < c \<or> a = c \<and> x \<le> y"
proof (cases a c rule: linorder_cases)
  case less
  then have "(a + 1) * w \<le> c * w" by (intro mult_le_mono1) simp
  with less assms show ?thesis by simp
next
  case greater
  then have "(c + 1) * w \<le> a * w" by (intro mult_le_mono1) simp
  with greater assms show ?thesis by simp
qed simp

lemma lex_less:
  fixes a c w x y :: nat
  assumes "x < w" and "y < w"
  shows "a * w + x < c * w + y \<longleftrightarrow> a < c \<or> a = c \<and> x < y"
  using lex_le [OF assms(2,1), of c a] by (auto simp: not_le [symmetric])

lemma position_split: "(i :: nat) = i div w * w + i mod w"
  by simp

lemma range_le:
  fixes w :: nat
  assumes "b < w"
  shows "lo \<le> j * w + b \<longleftrightarrow> lo div w < j \<or> lo div w = j \<and> lo mod w \<le> b"
    and "j * w + b \<le> hi \<longleftrightarrow> j < hi div w \<or> j = hi div w \<and> b \<le> hi mod w"
  using lex_le [of "lo mod w" w b "lo div w" j] lex_le [of b w "hi mod w" j "hi div w"] assms
  by (simp_all del: mult_div_mod_eq)

lemma arr_bit_split:
  fixes bits :: "'a::len word list"
  assumes "j < length bits" "b < LENGTH('a)"
  shows "arr_bit bits (j * LENGTH('a) + b) \<longleftrightarrow> bit (bits ! j) b"
proof -
  have "(j + 1) * LENGTH('a) \<le> length bits * LENGTH('a)" using assms(1) by (intro mult_le_mono1) simp
  with assms(2) show ?thesis by (simp add: arr_bit_def mult.commute)
qed

lemma arr_bit_active:
  fixes bits :: "'a::len word list"
  assumes "i div LENGTH('a) < length bits" "lo \<le> i" "i \<le> hi"
  shows "arr_bit bits i \<longleftrightarrow> bit (active bits lo hi (i div LENGTH('a))) (i mod LENGTH('a))"
  using arr_bit_split [OF assms(1), of "i mod LENGTH('a)"] assms by (simp add: bit_active)

lemma active_inner_hi:
  fixes bits :: "'a::len word list"
  shows "j < e div LENGTH('a) \<Longrightarrow> e \<le> hi \<Longrightarrow> active bits lo hi j = active bits lo e j"
  using div_le_mono [of e hi "LENGTH('a)"] by (intro bit_word_eqI) (auto simp: bit_active range_le)

lemma active_inner_lo:
  fixes bits :: "'a::len word list"
  shows "s div LENGTH('a) < j \<Longrightarrow> lo \<le> s \<Longrightarrow> active bits lo hi j = active bits s hi j"
  using div_le_mono [of lo s "LENGTH('a)"] by (intro bit_word_eqI) (auto simp: bit_active range_le)

text \<open>Where the first and the last bit of a range are, in terms of the words of the range.\<close>

lemma first_active:
  fixes bits :: "'a::len word list"
  assumes hi: "hi div LENGTH('a) < length bits" and j: "j \<le> hi div LENGTH('a)"
    and k: "is_lsb (active bits lo hi j) k"
    and none: "\<forall>i. lo div LENGTH('a) \<le> i \<and> i < j \<longrightarrow> active bits lo hi i = 0"
  shows "first_in (arr_bit bits) lo hi (j * LENGTH('a) + k)"
proof -
  have b: "k < LENGTH('a)" "bit (bits ! j) k" "lo \<le> j * LENGTH('a) + k" "j * LENGTH('a) + k \<le> hi"
    using k by (auto simp: is_lsb_def bit_active)
  have "\<not> arr_bit bits i" if i: "lo \<le> i" "i < j * LENGTH('a) + k" for i
  proof -
    have "i \<le> hi" using b i by simp
    then have len: "i div LENGTH('a) < length bits" using hi by (meson div_le_mono le_less_trans)
    have "i div LENGTH('a) * LENGTH('a) + i mod LENGTH('a) < j * LENGTH('a) + k" using i by simp
    then have "i div LENGTH('a) < j \<or> i div LENGTH('a) = j \<and> i mod LENGTH('a) < k"
      using lex_less [of "i mod LENGTH('a)" "LENGTH('a)" k "i div LENGTH('a)" j] b(1)
      by (simp del: mult_div_mod_eq div_mult_mod_eq)
    then show ?thesis
    proof
      assume "i div LENGTH('a) < j"
      then have "active bits lo hi (i div LENGTH('a)) = 0" using none i(1) by (simp add: div_le_mono)
      then show ?thesis using arr_bit_active [OF len i(1) \<open>i \<le> hi\<close>] by simp
    next
      assume "i div LENGTH('a) = j \<and> i mod LENGTH('a) < k"
      then show ?thesis using arr_bit_active [OF len i(1) \<open>i \<le> hi\<close>] k by (simp add: is_lsb_def)
    qed
  qed
  moreover have "j < length bits" using hi j by simp
  ultimately show ?thesis using b arr_bit_split [of j bits k] by (simp add: first_in_def)
qed

lemma last_active:
  fixes bits :: "'a::len word list"
  assumes hi: "hi div LENGTH('a) < length bits" and j: "j \<le> hi div LENGTH('a)"
    and k: "is_msb (active bits lo hi j) k"
    and none: "\<forall>i. j < i \<and> i \<le> hi div LENGTH('a) \<longrightarrow> active bits lo hi i = 0"
  shows "last_in (arr_bit bits) lo hi (j * LENGTH('a) + k)"
proof -
  have b: "k < LENGTH('a)" "bit (bits ! j) k" "lo \<le> j * LENGTH('a) + k" "j * LENGTH('a) + k \<le> hi"
    using k by (auto simp: is_msb_def bit_active)
  have "\<not> arr_bit bits i" if i: "j * LENGTH('a) + k < i" "i \<le> hi" for i
  proof -
    have "lo \<le> i" using b i by simp
    have le: "i div LENGTH('a) \<le> hi div LENGTH('a)" using i(2) by (rule div_le_mono)
    then have len: "i div LENGTH('a) < length bits" using hi by simp
    have "j * LENGTH('a) + k < i div LENGTH('a) * LENGTH('a) + i mod LENGTH('a)" using i by simp
    then have "j < i div LENGTH('a) \<or> j = i div LENGTH('a) \<and> k < i mod LENGTH('a)"
      using lex_less [of k "LENGTH('a)" "i mod LENGTH('a)" j "i div LENGTH('a)"] b(1)
      by (simp del: mult_div_mod_eq div_mult_mod_eq)
    then show ?thesis
      using arr_bit_active [OF len \<open>lo \<le> i\<close> i(2)] none le k by (auto simp: is_msb_def)
  qed
  moreover have "j < length bits" using hi j by simp
  ultimately show ?thesis using b arr_bit_split [of j bits k] by (simp add: last_in_def)
qed

lemma none_active:
  fixes bits :: "'a::len word list"
  assumes hi: "hi div LENGTH('a) < length bits"
    and none: "\<forall>i. lo div LENGTH('a) \<le> i \<and> i \<le> hi div LENGTH('a) \<longrightarrow> active bits lo hi i = 0"
  shows "none_in (arr_bit bits) lo hi"
  unfolding none_in_def
proof (intro allI impI)
  fix i assume i: "lo \<le> i \<and> i \<le> hi"
  then have "i div LENGTH('a) < length bits" using hi by (meson div_le_mono le_less_trans)
  with i none show "\<not> arr_bit bits i" by (simp add: arr_bit_active [of i bits lo hi] div_le_mono)
qed

context word_ops
begin

lemma offset_int: "(ucast (BitOffset ops w) :: int32) = of_nat (unat w div LENGTH('a))"
  by (simp only: ucast_int offset)

lemma small_arg: "p < LENGTH('a) \<Longrightarrow> p < 2 ^ 31" "p < LENGTH('a) \<Longrightarrow> unat (of_nat p :: 'a word) = p"
proof -
  assume p: "p < LENGTH('a)"
  show "p < 2 ^ 31" by (rule less_trans [OF p]) (use width(2) in simp)
  have "p < 2 ^ LENGTH('a)" using p by (rule less_trans) (rule less_exp)
  then show "unat (of_nat p :: 'a word) = p" by (simp add: unsigned_of_nat take_bit_nat_eq_self)
qed

lemma pos_arg: "unat (scast (ucast (BitPos ops w) :: int32) :: 'a word) = unat w mod LENGTH('a)"
proof -
  have p: "unat w mod LENGTH('a) < LENGTH('a)" using width(1) by simp
  show ?thesis unfolding ucast_int pos scast_small [OF small_arg(1) [OF p]] by (rule small_arg(2) [OF p])
qed

end

section \<open>The macros compute with the words of the range\<close>

text \<open>The bounds of a range whose words can be subscripted, spelled out.\<close>

lemma range_okD:
  fixes bits :: "'a::len word list"
  assumes "range_ok bits s e"
  shows "unat s \<le> unat e" "s \<le> e" "unat e div LENGTH('a) < length bits" "unat s div LENGTH('a) \<le> unat e div LENGTH('a)"
    "length bits < 2 ^ 31" "unat e div LENGTH('a) + 1 < 2 ^ 31" "unat e < 2 ^ (LENGTH('a) - 1)"
proof -
  show "unat s \<le> unat e" "s \<le> e" using assms by (simp_all add: range_ok_def word_le_nat_alt)
  then show "unat s div LENGTH('a) \<le> unat e div LENGTH('a)" by (intro div_le_mono)
  show e: "unat e div LENGTH('a) < length bits"
    using assms by (simp add: range_ok_def less_mult_imp_div_less mult.commute)
  show "length bits < 2 ^ 31" using assms by (simp add: range_ok_def)
  show "unat e div LENGTH('a) + 1 < 2 ^ 31" using assms e unfolding range_ok_def by linarith
  show "unat e < 2 ^ (LENGTH('a) - 1)" using assms by (simp add: range_ok_def)
qed

lemma mask_active:
  fixes bits :: "'a::len word list"
  assumes "\<And>b. b < LENGTH('a) \<Longrightarrow> bit m b \<longleftrightarrow> lo \<le> j * LENGTH('a) + b \<and> j * LENGTH('a) + b \<le> hi"
  shows "bits ! j AND m = active bits lo hi j"
  using assms by (intro bit_word_eqI) (auto simp: bit_and_iff bit_active)

lemma inner_active:
  fixes bits :: "'a::len word list"
  assumes "lo div LENGTH('a) < j" "j < hi div LENGTH('a)"
  shows "bits ! j = active bits lo hi j"
proof -
  have "bits ! j AND - 1 = active bits lo hi j"
    using assms by (intro mask_active) (simp add: range_le)
  then show ?thesis by simp
qed

context word_ops
begin

lemma masked_one_range:
  assumes r: "range_ok bits s e" and q: "unat s div LENGTH('a) = unat e div LENGTH('a)"
  shows "masked_at bits (ucast (BitOffset ops s))
      (OneRange ops (scast (ucast (BitPos ops s) :: int32)) (scast (ucast (BitPos ops e) :: int32)))
    = Inr (active bits (unat s) (unat e) (unat s div LENGTH('a)))"
proof -
  note d = range_okD [OF r]
  let ?ps = "scast (ucast (BitPos ops s) :: int32) :: 'a word" and ?pe = "scast (ucast (BitPos ops e) :: int32) :: 'a word"
  have "unat s mod LENGTH('a) \<le> unat e mod LENGTH('a)"
    using d(1) q by (metis add_le_cancel_left div_mult_mod_eq)
  then have "?ps \<le> ?pe" "unat ?pe < LENGTH('a)" by (simp_all add: word_le_nat_alt pos_arg)
  from one_range [OF this] obtain m where m: "OneRange ops ?ps ?pe = Inr m"
    "\<And>i. bit m i \<longleftrightarrow> unat s mod LENGTH('a) \<le> i \<and> i \<le> unat e mod LENGTH('a)" by (auto simp: pos_arg)
  have "bits ! (unat s div LENGTH('a)) AND m = active bits (unat s) (unat e) (unat s div LENGTH('a))"
    using q by (intro mask_active) (simp add: range_le m(2))
  then show ?thesis using d by (simp add: masked_at_def offset_int word_at_nat m(1) del: of_nat_unat)
qed

lemma masked_interval_up:
  assumes len: "unat s div LENGTH('a) < length bits" "length bits < 2 ^ 31"
    and hi: "unat s div LENGTH('a) < hi div LENGTH('a)"
  shows "masked_at bits (ucast (BitOffset ops s)) (IntervalUp ops (scast (ucast (BitPos ops s) :: int32)))
    = Inr (active bits (unat s) hi (unat s div LENGTH('a)))"
proof -
  obtain m where m: "IntervalUp ops (scast (ucast (BitPos ops s) :: int32)) = Inr m"
    "\<And>i. bit m i \<longleftrightarrow> unat s mod LENGTH('a) \<le> i \<and> i < LENGTH('a)"
    using interval_up [of "scast (ucast (BitPos ops s) :: int32)"] by (auto simp: pos_arg)
  have "bits ! (unat s div LENGTH('a)) AND m = active bits (unat s) hi (unat s div LENGTH('a))"
    using hi by (intro mask_active) (simp add: range_le m(2))
  then show ?thesis using len by (simp add: masked_at_def offset_int word_at_nat m(1) del: of_nat_unat)
qed

lemma masked_interval_down:
  assumes len: "unat e div LENGTH('a) < length bits" "length bits < 2 ^ 31"
    and lo: "lo div LENGTH('a) < unat e div LENGTH('a) \<or> lo = 0"
  shows "masked_at bits (ucast (BitOffset ops e)) (IntervalDown ops (scast (ucast (BitPos ops e) :: int32)))
    = Inr (active bits lo (unat e) (unat e div LENGTH('a)))"
proof -
  obtain m where m: "IntervalDown ops (scast (ucast (BitPos ops e) :: int32)) = Inr m"
    "\<And>i. bit m i \<longleftrightarrow> i \<le> unat e mod LENGTH('a)"
    using interval_down [of "scast (ucast (BitPos ops e) :: int32)"] by (auto simp: pos_arg)
  have "bits ! (unat e div LENGTH('a)) AND m = active bits lo (unat e) (unat e div LENGTH('a))"
    using lo by (intro mask_active) (auto simp: range_le m(2))
  then show ?thesis using len by (simp add: masked_at_def offset_int word_at_nat m(1) del: of_nat_unat)
qed

text \<open>The position of a bit of the word \<open>j\<close>.\<close>

lemma base_position:
  assumes "j * LENGTH('a) + k < 2 ^ (LENGTH('a) - 1)" "j < 2 ^ 31" "k < LENGTH('a)"
  shows "BitShift ops (scast (of_nat j :: int32)) + scast (of_nat k :: int32) = of_nat (j * LENGTH('a) + k)"
proof -
  have "(2 :: nat) ^ (LENGTH('a) - 1) < 2 ^ LENGTH('a)" by simp
  then have lt: "j * LENGTH('a) + k < 2 ^ LENGTH('a)" using assms(1) by linarith
  have "j * 1 \<le> j * LENGTH('a)" using width(1) by (intro mult_le_mono2) simp
  with lt have "j < 2 ^ LENGTH('a)" by linarith
  then have j: "unat (of_nat j :: 'a word) = j" by (simp add: unsigned_of_nat take_bit_nat_eq_self)
  with lt have u: "unat (BitShift ops (of_nat j)) = j * LENGTH('a)" by (subst shift) simp_all
  have "BitShift ops (of_nat j) = of_nat (j * LENGTH('a))" unfolding u [symmetric] by simp
  then show ?thesis
    unfolding scast_small [OF assms(2)] scast_small [OF small_arg(1) [OF assms(3)]] by simp
qed

lemma lsb_at_nat:
  assumes "is_lsb w k" "j * LENGTH('a) + k < 2 ^ (LENGTH('a) - 1)" "j < 2 ^ 31"
  shows "lsb_at ops (of_nat j) w = Inr (of_nat (j * LENGTH('a) + k))"
  using base_position [OF assms(2,3)] is_lsb_less [OF assms(1)] by (simp add: lsb_at_def lsb [OF assms(1)])

lemma msb_at_nat:
  assumes "is_msb w k" "j * LENGTH('a) + k < 2 ^ (LENGTH('a) - 1)" "j < 2 ^ 31"
  shows "msb_at ops (of_nat j) w = Inr (of_nat (j * LENGTH('a) + k))"
  using base_position [OF assms(2,3)] is_msb_less [OF assms(1)] by (simp add: msb_at_def msb [OF assms(1)])

lemma is_bit_set_range:
  assumes "unat p div LENGTH('a) < length bits"
  shows "IsBitSet ops bits p = Inr (arr_bit bits (unat p))"
  using arr_bit_split [OF assms, of "unat p mod LENGTH('a)"] assms by (simp add: is_bit_set vec_at_def)

end

text \<open>What the searches return: the position of the bit, or -1 when the range has none.\<close>

definition is_range_lsb :: "'a::len word list \<Rightarrow> 'a word \<Rightarrow> 'a word \<Rightarrow> 'a word \<Rightarrow> bool" where
  "is_range_lsb bits s e r \<longleftrightarrow>
     (if none_in (arr_bit bits) (unat s) (unat e) then sint r = - 1
      else \<exists>k. first_in (arr_bit bits) (unat s) (unat e) k \<and> sint r = int k)"

definition is_range_msb :: "'a::len word list \<Rightarrow> 'a word \<Rightarrow> 'a word \<Rightarrow> 'a word \<Rightarrow> bool" where
  "is_range_msb bits s e r \<longleftrightarrow>
     (if none_in (arr_bit bits) (unat s) (unat e) then sint r = - 1
      else \<exists>k. last_in (arr_bit bits) (unat s) (unat e) k \<and> sint r = int k)"

lemma first_in_not_none: "first_in P lo hi k \<Longrightarrow> \<not> none_in P lo hi"
  by (auto simp: first_in_def none_in_def)

lemma last_in_not_none: "last_in P lo hi k \<Longrightarrow> \<not> none_in P lo hi"
  by (auto simp: last_in_def none_in_def)

lemma sint_position: "k < 2 ^ (LENGTH('a) - 1) \<Longrightarrow> sint (of_nat k :: 'a::len word) = int k"
proof -
  assume "k < 2 ^ (LENGTH('a) - 1)"
  then have "int k < 2 ^ (LENGTH('a) - 1)" by (metis of_nat_less_iff of_nat_numeral of_nat_power)
  moreover have "- (2 ^ (LENGTH('a) - 1)) \<le> int k" by (rule order_trans [of _ 0]) simp_all
  ultimately show ?thesis by (simp add: signed_of_nat signed_take_bit_int_eq_self)
qed

lemma is_range_lsbI: "first_in (arr_bit bits) (unat s) (unat e) k \<Longrightarrow> range_ok bits s e
    \<Longrightarrow> is_range_lsb bits s e (of_nat k)"
  using range_okD(7) [of bits s e] sint_position [of k] first_in_not_none
  unfolding is_range_lsb_def first_in_def by (metis le_less_trans)

lemma is_range_msbI: "last_in (arr_bit bits) (unat s) (unat e) k \<Longrightarrow> range_ok bits s e
    \<Longrightarrow> is_range_msb bits s e (of_nat k)"
  using range_okD(7) [of bits s e] sint_position [of k] last_in_not_none
  unfolding is_range_msb_def last_in_def by (metis le_less_trans)

lemma is_range_none: "none_in (arr_bit bits) (unat s) (unat e) \<Longrightarrow> is_range_lsb bits s e (- 1)"
  "none_in (arr_bit bits) (unat s) (unat e) \<Longrightarrow> is_range_msb bits s e (- 1)"
  by (simp_all add: is_range_lsb_def is_range_msb_def)

lemma int_range_up:
  "b < 2 ^ 31 \<Longrightarrow> a < b \<Longrightarrow> int_range (of_nat a + 1) (of_nat b) = map of_nat [Suc a..<b]"
  using int_range_nat [of "Suc a" b] by (simp add: add.commute)

context word_ops
begin

lemma lsb_at_active:
  assumes r: "range_ok bits s e" and j: "j \<le> unat e div LENGTH('a)"
    and nz: "active bits (unat s) (unat e) j \<noteq> 0"
    and none: "\<forall>i. unat s div LENGTH('a) \<le> i \<and> i < j \<longrightarrow> active bits (unat s) (unat e) i = 0"
  shows "\<exists>p. lsb_at ops (of_nat j) (active bits (unat s) (unat e) j) = Inr p \<and> is_range_lsb bits s e p"
proof -
  note d = range_okD [OF r]
  obtain k where k: "is_lsb (active bits (unat s) (unat e) j) k" using ex_is_lsb [OF nz] ..
  note f = first_active [OF d(3) j k none]
  have "j * LENGTH('a) + k < 2 ^ (LENGTH('a) - 1)" "j < 2 ^ 31"
    using f d(6,7) j by (simp_all add: first_in_def)
  with lsb_at_nat [OF k] is_range_lsbI [OF f r] show ?thesis by blast
qed

lemma msb_at_active:
  assumes r: "range_ok bits s e" and j: "j \<le> unat e div LENGTH('a)"
    and nz: "active bits (unat s) (unat e) j \<noteq> 0"
    and none: "\<forall>i. j < i \<and> i \<le> unat e div LENGTH('a) \<longrightarrow> active bits (unat s) (unat e) i = 0"
  shows "\<exists>p. msb_at ops (of_nat j) (active bits (unat s) (unat e) j) = Inr p \<and> is_range_msb bits s e p"
proof -
  note d = range_okD [OF r]
  obtain k where k: "is_msb (active bits (unat s) (unat e) j) k" using ex_is_msb [OF nz] ..
  note f = last_active [OF d(3) j k none]
  have "j * LENGTH('a) + k < 2 ^ (LENGTH('a) - 1)" "j < 2 ^ 31"
    using f d(6,7) j by (simp_all add: last_in_def)
  with msb_at_nat [OF k] is_range_msbI [OF f r] show ?thesis by blast
qed

lemma inner_words:
  assumes r: "range_ok bits s e" and "unat s div LENGTH('a) < unat e div LENGTH('a)"
  shows "int_range (ucast (BitOffset ops s) + 1) (ucast (BitOffset ops e))
      = map of_nat [Suc (unat s div LENGTH('a))..<unat e div LENGTH('a)]"
  using assms(2) range_okD(6) [OF r] unfolding offset_int by (intro int_range_up) simp_all

lemma first_inner_word:
  fixes bits :: "'a word list"
  assumes r: "range_ok bits s e"
  defines "js \<equiv> [Suc (unat s div LENGTH('a))..<unat e div LENGTH('a)]"
  defines "P \<equiv> \<lambda>j. active bits (unat s) (unat e) j \<noteq> 0"
  defines "F \<equiv> \<lambda>j. (of_nat j :: int32, active bits (unat s) (unat e) j)"
  shows "first_word bits (map of_nat js) = Inr (map_option F (List.find P js))"
    and "first_word bits (rev (map of_nat js)) = Inr (map_option F (List.find P (rev js)))"
proof -
  note d = range_okD [OF r]
  have act: "bits ! j = active bits (unat s) (unat e) j" if "j \<in> set js" for j
    using that by (intro inner_active) (auto simp: js_def)
  have find: "map_option (\<lambda>j. (of_nat j, bits ! j)) (List.find (\<lambda>j. bits ! j \<noteq> 0) ks) = map_option F (List.find P ks)"
    if "set ks \<subseteq> set js" for ks
    using that by (induction ks) (auto simp: P_def F_def act)
  have "\<forall>j \<in> set js. j < length bits" using d(3) by (auto simp: js_def)
  then show "first_word bits (map of_nat js) = Inr (map_option F (List.find P js))"
    and "first_word bits (rev (map of_nat js)) = Inr (map_option F (List.find P (rev js)))"
    using d(5) by (simp_all add: first_word_nat find rev_map)
qed

end

lemma find_in_set: "List.find P xs = Some j \<Longrightarrow> j \<in> set xs"
  by (auto simp: find_Some_iff)

lemma find_append:
  "List.find P (xs @ ys) = (case List.find P xs of None \<Rightarrow> List.find P ys | Some x \<Rightarrow> Some x)"
  by (induction xs) auto

lemma upt_ends: "a < b \<Longrightarrow> [a..<Suc b] = a # [Suc a..<b] @ [b]"
  by (simp add: upt_conv_Cons)

text \<open>The words of a range from its first to its last, searched up or down.\<close>

definition word_numbers :: "'a::len word list \<Rightarrow> 'a word \<Rightarrow> 'a word \<Rightarrow> nat list" where
  "word_numbers bits s e = [unat s div LENGTH('a)..<Suc (unat e div LENGTH('a))]"

definition lsb_search :: "'a::len width_ops \<Rightarrow> 'a word list \<Rightarrow> 'a word \<Rightarrow> 'a word \<Rightarrow> nat option \<Rightarrow> 'a word result" where
  "lsb_search ops bits s e found = (case found of None \<Rightarrow> Inr (- 1)
     | Some j \<Rightarrow> lsb_at ops (of_nat j) (active bits (unat s) (unat e) j))"

definition msb_search :: "'a::len width_ops \<Rightarrow> 'a word list \<Rightarrow> 'a word \<Rightarrow> 'a word \<Rightarrow> nat option \<Rightarrow> 'a word result" where
  "msb_search ops bits s e found = (case found of None \<Rightarrow> Inr (- 1)
     | Some j \<Rightarrow> msb_at ops (of_nat j) (active bits (unat s) (unat e) j))"

context word_ops
begin

lemma lsb_is_search:
  assumes r: "range_ok bits s e" and unset: "\<not> arr_bit bits (unat s)"
  shows "LeastSignificantBitPosition ops bits s e = lsb_search ops bits s e
      (List.find (\<lambda>j. active bits (unat s) (unat e) j \<noteq> 0) (word_numbers bits s e))"
proof (cases "unat s div LENGTH('a) = unat e div LENGTH('a)")
  case True
  then show ?thesis
    using unset range_okD [OF r] masked_one_range [OF r True]
    by (simp add: LeastSignificantBitPosition_def is_bit_set_range offset_int lsb_search_def
        word_numbers_def del: of_nat_unat)
next
  case False
  note d = range_okD [OF r]
  from False d(4) have q: "unat s div LENGTH('a) < unat e div LENGTH('a)" by simp
  have "unat s div LENGTH('a) < 2 ^ 31" "unat e div LENGTH('a) < 2 ^ 31" using d(4,6) by simp_all
  then have "(of_nat (unat s div LENGTH('a)) :: int32) \<noteq> of_nat (unat e div LENGTH('a))"
    using False sint_small_nat by (metis of_nat_eq_iff)
  moreover have "word_numbers bits s e = unat s div LENGTH('a)
      # [Suc (unat s div LENGTH('a))..<unat e div LENGTH('a)] @ [unat e div LENGTH('a)]"
    unfolding word_numbers_def by (rule upt_ends [OF q])
  ultimately show ?thesis
    using unset d(2-5) inner_words [OF r q] masked_interval_up [OF _ d(5) q]
      masked_interval_down [OF d(3,5) disjI1 [OF q]] first_inner_word(1) [OF r]
    by (simp add: LeastSignificantBitPosition_def is_bit_set_range lsb_search_def Let_def
        find_append offset_int del: of_nat_unat split: option.splits)
qed

lemma msb_is_search:
  assumes r: "range_ok bits s e" and unset: "\<not> arr_bit bits (unat e)"
  shows "MostSignificantBitPosition ops bits s e = msb_search ops bits s e
      (List.find (\<lambda>j. active bits (unat s) (unat e) j \<noteq> 0) (rev (word_numbers bits s e)))"
proof (cases "unat s div LENGTH('a) = unat e div LENGTH('a)")
  case True
  then show ?thesis
    using unset range_okD [OF r] masked_one_range [OF r True]
    by (simp add: MostSignificantBitPosition_def is_bit_set_range offset_int msb_search_def
        word_numbers_def del: of_nat_unat)
next
  case False
  note d = range_okD [OF r]
  from False d(4) have q: "unat s div LENGTH('a) < unat e div LENGTH('a)" by simp
  have "unat s div LENGTH('a) < 2 ^ 31" "unat e div LENGTH('a) < 2 ^ 31" using d(4,6) by simp_all
  then have "(of_nat (unat s div LENGTH('a)) :: int32) \<noteq> of_nat (unat e div LENGTH('a))"
    using False sint_small_nat by (metis of_nat_eq_iff)
  moreover have "rev (word_numbers bits s e) = unat e div LENGTH('a)
      # rev [Suc (unat s div LENGTH('a))..<unat e div LENGTH('a)] @ [unat s div LENGTH('a)]"
    unfolding word_numbers_def upt_ends [OF q] by simp
  ultimately show ?thesis
    using unset d(2-5) inner_words [OF r q] masked_interval_up [OF _ d(5) q]
      masked_interval_down [OF d(3,5) disjI1 [OF q]] first_inner_word(2) [OF r]
    by (simp add: MostSignificantBitPosition_def is_bit_set_range msb_search_def Let_def
        find_append offset_int del: of_nat_unat split: option.splits)
qed

lemma none_found:
  assumes r: "range_ok bits s e" and "\<forall>j \<in> set (word_numbers bits s e). active bits (unat s) (unat e) j = 0"
  shows "none_in (arr_bit bits) (unat s) (unat e)"
  using assms(2) range_okD(3) [OF r] by (intro none_active) (auto simp: word_numbers_def less_Suc_eq_le)

lemma lsb_range_ok:
  assumes r: "range_ok bits s e"
  shows "\<exists>p. LeastSignificantBitPosition ops bits s e = Inr p \<and> is_range_lsb bits s e p"
proof (cases "arr_bit bits (unat s)")
  case True
  note d = range_okD [OF r]
  from True d(1) have "first_in (arr_bit bits) (unat s) (unat e) (unat s)" by (auto simp: first_in_def)
  from is_range_lsbI [OF this r] True d show ?thesis
    by (simp add: LeastSignificantBitPosition_def is_bit_set_range)
next
  case False
  show ?thesis
  proof (cases "List.find (\<lambda>j. active bits (unat s) (unat e) j \<noteq> 0) (word_numbers bits s e)")
    case None
    then have "none_in (arr_bit bits) (unat s) (unat e)"
      by (intro none_found [OF r]) (auto simp: find_None_iff)
    with None show ?thesis by (simp add: lsb_is_search [OF r False] lsb_search_def is_range_none)
  next
    case (Some j)
    then show ?thesis
      using find_upt_Some [OF Some [unfolded word_numbers_def]] lsb_at_active [OF r, of j]
      by (simp add: lsb_is_search [OF r False] lsb_search_def less_Suc_eq_le)
  qed
qed

lemma msb_range_ok:
  assumes r: "range_ok bits s e"
  shows "\<exists>p. MostSignificantBitPosition ops bits s e = Inr p \<and> is_range_msb bits s e p"
proof (cases "arr_bit bits (unat e)")
  case True
  note d = range_okD [OF r]
  from True d(1) have "last_in (arr_bit bits) (unat s) (unat e) (unat e)" by (auto simp: last_in_def)
  from is_range_msbI [OF this r] True d show ?thesis
    by (simp add: MostSignificantBitPosition_def is_bit_set_range)
next
  case False
  show ?thesis
  proof (cases "List.find (\<lambda>j. active bits (unat s) (unat e) j \<noteq> 0) (rev (word_numbers bits s e))")
    case None
    then have "none_in (arr_bit bits) (unat s) (unat e)"
      by (intro none_found [OF r]) (auto simp: find_None_iff)
    with None show ?thesis by (simp add: msb_is_search [OF r False] msb_search_def is_range_none)
  next
    case (Some j)
    then show ?thesis
      using find_rev_upt_Some [OF Some [unfolded word_numbers_def]] msb_at_active [OF r, of j]
      by (simp add: msb_is_search [OF r False] msb_search_def less_Suc_eq_le)
  qed
qed

text \<open>
  With the last position set, the words need not be cut off after it: the search ends there anyway.
\<close>

lemma lsb_at_capped:
  assumes e: "arr_bit bits (unat e)" and lo: "lo \<le> unat e" and hi: "unat e \<le> hi"
  defines "j \<equiv> unat e div LENGTH('a)"
  shows "active bits lo hi j \<noteq> 0" "active bits lo (unat e) j \<noteq> 0"
    "lsb_at ops (of_nat j) (active bits lo hi j) = lsb_at ops (of_nat j) (active bits lo (unat e) j)"
proof -
  define b where "b = unat e mod LENGTH('a)"
  have jb: "j * LENGTH('a) + b = unat e" by (simp add: j_def b_def)
  have b: "b < LENGTH('a)" "bit (bits ! j) b" using e by (simp_all add: b_def j_def arr_bit_def)
  have set: "bit (active bits lo (unat e) j) b" "bit (active bits lo hi j) b"
    using b lo hi jb by (simp_all add: bit_active)
  then show "active bits lo hi j \<noteq> 0" "active bits lo (unat e) j \<noteq> 0" by auto
  then obtain k where k: "is_lsb (active bits lo hi j) k" using ex_is_lsb by blast
  with set(2) have "k \<le> b" unfolding is_lsb_def by (meson linorder_not_le)
  with jb have below: "j * LENGTH('a) + i \<le> unat e" if "i \<le> k" for i using that by linarith
  have "is_lsb (active bits lo (unat e) j) k"
    using k below hi by (auto simp: is_lsb_def bit_active)
  with k show "lsb_at ops (of_nat j) (active bits lo hi j) = lsb_at ops (of_nat j) (active bits lo (unat e) j)"
    by (simp add: lsb_at_def lsb)
qed

lemma msb_at_capped:
  assumes s: "arr_bit bits (unat s)" and lo: "lo \<le> unat s" and hi: "unat s \<le> hi"
  defines "j \<equiv> unat s div LENGTH('a)"
  shows "active bits lo hi j \<noteq> 0" "active bits (unat s) hi j \<noteq> 0"
    "msb_at ops (of_nat j) (active bits lo hi j) = msb_at ops (of_nat j) (active bits (unat s) hi j)"
proof -
  define b where "b = unat s mod LENGTH('a)"
  have jb: "j * LENGTH('a) + b = unat s" by (simp add: j_def b_def)
  have b: "b < LENGTH('a)" "bit (bits ! j) b" using s by (simp_all add: b_def j_def arr_bit_def)
  have set: "bit (active bits (unat s) hi j) b" "bit (active bits lo hi j) b"
    using b lo hi jb by (simp_all add: bit_active)
  then show "active bits lo hi j \<noteq> 0" "active bits (unat s) hi j \<noteq> 0" by auto
  then obtain k where k: "is_msb (active bits lo hi j) k" using ex_is_msb by blast
  with set(2) have "b \<le> k" unfolding is_msb_def by (meson linorder_not_le)
  with jb have above: "unat s \<le> j * LENGTH('a) + i" if "k \<le> i" for i using that by linarith
  have "is_msb (active bits (unat s) hi j) k"
    using k above lo by (auto simp: is_msb_def bit_active)
  with k show "msb_at ops (of_nat j) (active bits lo hi j) = msb_at ops (of_nat j) (active bits (unat s) hi j)"
    by (simp add: msb_at_def msb)
qed

lemma unsafe_lsb_is_search:
  assumes r: "range_ok bits s e" and unset: "\<not> arr_bit bits (unat s)" and last: "arr_bit bits (unat e)"
  defines "hi \<equiv> Suc (unat e div LENGTH('a)) * LENGTH('a)"
  shows "UnsafeLeastSignificantBitPosition ops bits s e =
    (case List.find (\<lambda>j. active bits (unat s) hi j \<noteq> 0) (word_numbers bits s e) of
       None \<Rightarrow> Inr (- 1)
     | Some j \<Rightarrow> lsb_at ops (of_nat j) (active bits (unat s) hi j))"
proof -
  let ?q = "unat s div LENGTH('a)" and ?q' = "unat e div LENGTH('a)"
  let ?B = "active bits (unat s) hi"
  note d = range_okD [OF r]
  have hi: "hi div LENGTH('a) = Suc ?q'" by (simp add: hi_def)
  have raw: "bits ! j = ?B j" if "j \<in> set [Suc ?q..<Suc ?q']" for j
    using that hi by (intro inner_active) auto
  have find: "first_word bits (map of_nat [Suc ?q..<Suc ?q'])
      = Inr (map_option (\<lambda>j. (of_nat j, ?B j)) (List.find (\<lambda>j. ?B j \<noteq> 0) [Suc ?q..<Suc ?q']))"
  proof -
    have "first_word bits (map of_nat [Suc ?q..<Suc ?q'])
        = Inr (map_option (\<lambda>j. (of_nat j, bits ! j)) (List.find (\<lambda>j. bits ! j \<noteq> 0) [Suc ?q..<Suc ?q']))"
      using d(3,5) by (intro first_word_nat) auto
    also have "List.find (\<lambda>j. bits ! j \<noteq> 0) [Suc ?q..<Suc ?q'] = List.find (\<lambda>j. ?B j \<noteq> 0) [Suc ?q..<Suc ?q']"
      using raw by (intro find_cong) auto
    also have "map_option (\<lambda>j. (of_nat j :: int32, bits ! j)) \<dots> = map_option (\<lambda>j. (of_nat j, ?B j)) \<dots>"
      using raw by (intro option.map_cong refl) (auto simp: find_Some_iff simp del: upt_Suc)
    finally show ?thesis .
  qed
  have range: "int_range (of_nat ?q + 1) (of_nat ?q' + 1) = map of_nat [Suc ?q..<Suc ?q']"
    using int_range_up [of "Suc ?q'" ?q] d(4,6) by (simp add: add.commute)
  have up: "masked_at bits (of_nat ?q) (IntervalUp ops (scast (ucast (BitPos ops s) :: int32))) = Inr (?B ?q)"
    using masked_interval_up [of s bits hi] d(3-5) hi by (simp add: offset_int del: of_nat_unat)
  have wn: "word_numbers bits s e = ?q # [Suc ?q..<Suc ?q']"
    unfolding word_numbers_def using d(4) by (simp add: upt_conv_Cons del: upt_Suc)
  show ?thesis
    using unset last d(2-5) range up find
    by (simp add: UnsafeLeastSignificantBitPosition_def is_bit_set_range Let_def offset_int wn
        del: of_nat_unat upt_Suc split: option.splits)
qed

lemma unsafe_msb_is_search:
  assumes r: "range_ok bits s e" and unset: "\<not> arr_bit bits (unat e)" and last: "arr_bit bits (unat s)"
  shows "UnsafeMostSignificantBitPosition ops bits s e =
    (case List.find (\<lambda>j. active bits 0 (unat e) j \<noteq> 0) (rev (word_numbers bits s e)) of
       None \<Rightarrow> Inr (- 1)
     | Some j \<Rightarrow> msb_at ops (of_nat j) (active bits 0 (unat e) j))"
proof -
  let ?q = "unat s div LENGTH('a)" and ?q' = "unat e div LENGTH('a)"
  let ?B = "active bits 0 (unat e)"
  note d = range_okD [OF r]
  have raw: "bits ! j = ?B j" if "j < ?q'" for j
    using that mask_active [of "- 1" 0 j "unat e" bits] by (simp add: range_le)
  have find: "first_word bits (map of_nat (rev [?q..<?q']))
      = Inr (map_option (\<lambda>j. (of_nat j, ?B j)) (List.find (\<lambda>j. ?B j \<noteq> 0) (rev [?q..<?q'])))"
  proof -
    have "first_word bits (map of_nat (rev [?q..<?q']))
        = Inr (map_option (\<lambda>j. (of_nat j, bits ! j)) (List.find (\<lambda>j. bits ! j \<noteq> 0) (rev [?q..<?q'])))"
      using d(3,5) by (intro first_word_nat) auto
    also have "List.find (\<lambda>j. bits ! j \<noteq> 0) (rev [?q..<?q']) = List.find (\<lambda>j. ?B j \<noteq> 0) (rev [?q..<?q'])"
      using raw by (intro find_cong) auto
    also have "map_option (\<lambda>j. (of_nat j :: int32, bits ! j)) \<dots> = map_option (\<lambda>j. (of_nat j, ?B j)) \<dots>"
      using raw by (intro option.map_cong refl) (auto dest: find_rev_upt_Some)
    finally show ?thesis .
  qed
  have range: "int_range (of_nat ?q) (of_nat ?q') = map of_nat [?q..<?q']"
    using d(4,6) by (intro int_range_nat) simp_all
  have down: "masked_at bits (of_nat ?q') (IntervalDown ops (scast (ucast (BitPos ops e) :: int32))) = Inr (?B ?q')"
    using masked_interval_down [of e bits 0] d(3-5) by (simp add: offset_int del: of_nat_unat)
  have wn: "rev (word_numbers bits s e) = ?q' # rev [?q..<?q']"
    unfolding word_numbers_def using d(4) by simp
  show ?thesis
    using unset last d(2-5) range down find
    by (simp add: UnsafeMostSignificantBitPosition_def is_bit_set_range Let_def offset_int wn rev_map
        del: of_nat_unat split: option.splits)
qed

lemma unsafe_lsb_eq:
  assumes r: "range_ok bits s e" and last: "arr_bit bits (unat e)"
  shows "UnsafeLeastSignificantBitPosition ops bits s e = LeastSignificantBitPosition ops bits s e"
proof (cases "arr_bit bits (unat s)")
  case True
  then show ?thesis
    using range_okD [OF r] last
    by (simp add: UnsafeLeastSignificantBitPosition_def LeastSignificantBitPosition_def is_bit_set_range)
next
  case False
  define hi where "hi = Suc (unat e div LENGTH('a)) * LENGTH('a)"
  let ?A = "active bits (unat s) (unat e)" and ?B = "active bits (unat s) hi"
  have le: "unat e \<le> hi"
    using mod_less_divisor [of "LENGTH('a)" "unat e"] div_mult_mod_eq [of "unat e" "LENGTH('a)"] width(1)
    unfolding hi_def mult_Suc by linarith
  have same: "(?B j \<noteq> 0) = (?A j \<noteq> 0) \<and> lsb_at ops (of_nat j) (?B j) = lsb_at ops (of_nat j) (?A j)"
    if "j \<in> set (word_numbers bits s e)" for j
    using that active_inner_hi [OF _ le, of j bits "unat s"] lsb_at_capped [OF last range_okD(1) [OF r] le]
    by (cases "j = unat e div LENGTH('a)") (auto simp: word_numbers_def)
  have "List.find (\<lambda>j. ?B j \<noteq> 0) (word_numbers bits s e) = List.find (\<lambda>j. ?A j \<noteq> 0) (word_numbers bits s e)"
    using same by (intro find_cong) auto
  then show ?thesis
    using same find_in_set [of _ "word_numbers bits s e"] unfolding unsafe_lsb_is_search [OF r False last, folded hi_def]
      lsb_is_search [OF r False] lsb_search_def
    by (auto split: option.splits)
qed

lemma unsafe_msb_eq:
  assumes r: "range_ok bits s e" and last: "arr_bit bits (unat s)"
  shows "UnsafeMostSignificantBitPosition ops bits s e = MostSignificantBitPosition ops bits s e"
proof (cases "arr_bit bits (unat e)")
  case True
  then show ?thesis
    using range_okD [OF r] last
    by (simp add: UnsafeMostSignificantBitPosition_def MostSignificantBitPosition_def is_bit_set_range)
next
  case False
  let ?A = "active bits (unat s) (unat e)" and ?B = "active bits 0 (unat e)"
  have same: "(?B j \<noteq> 0) = (?A j \<noteq> 0) \<and> msb_at ops (of_nat j) (?B j) = msb_at ops (of_nat j) (?A j)"
    if "j \<in> set (word_numbers bits s e)" for j
    using that active_inner_lo [of "unat s" j 0 bits "unat e"] msb_at_capped [OF last _ range_okD(1) [OF r], of 0]
    by (cases "j = unat s div LENGTH('a)") (auto simp: word_numbers_def)
  have "List.find (\<lambda>j. ?B j \<noteq> 0) (rev (word_numbers bits s e)) = List.find (\<lambda>j. ?A j \<noteq> 0) (rev (word_numbers bits s e))"
    using same by (intro find_cong) auto
  then show ?thesis
    using same find_in_set [of _ "rev (word_numbers bits s e)"] unfolding unsafe_msb_is_search [OF r False last] msb_is_search [OF r False] msb_search_def
    by (auto split: option.splits)
qed

lemma none_in_words:
  assumes r: "range_ok bits s e"
  shows "none_in (arr_bit bits) (unat s) (unat e)
    \<longleftrightarrow> (\<forall>j \<in> set (word_numbers bits s e). active bits (unat s) (unat e) j = 0)"
proof
  assume none: "none_in (arr_bit bits) (unat s) (unat e)"
  show "\<forall>j \<in> set (word_numbers bits s e). active bits (unat s) (unat e) j = 0"
  proof (rule ballI, rule ccontr)
    fix j assume "j \<in> set (word_numbers bits s e)" "active bits (unat s) (unat e) j \<noteq> 0"
    then obtain b where j: "j < length bits" and "bit (active bits (unat s) (unat e) j) b"
      using range_okD(3) [OF r] by (auto simp: word_neq_0_bit word_numbers_def)
    then show False using none arr_bit_split [OF j, of b] by (auto simp: bit_active none_in_def)
  qed
qed (rule none_found [OF r])

lemma anyR_words:
  "\<forall>j \<in> set js. j < length bits \<Longrightarrow> length bits < 2 ^ 31 \<Longrightarrow>
   anyR (\<lambda>i. andThen (word_at bits i) (\<lambda>v. Inr (v \<noteq> 0))) (map of_nat js) = Inr (\<exists>j \<in> set js. bits ! j \<noteq> 0)"
  by (induction js) (auto simp: word_at_nat)

lemma is_empty_range_ok:
  assumes r: "range_ok bits s e"
  shows "IsEmptyRange ops bits s e = Inr (none_in (arr_bit bits) (unat s) (unat e))"
proof (cases "unat s div LENGTH('a) = unat e div LENGTH('a)")
  case True
  then show ?thesis
    using masked_one_range [OF r True]
    by (simp add: IsEmptyRange_def Let_def offset_int none_in_words [OF r] word_numbers_def del: of_nat_unat)
next
  case False
  note d = range_okD [OF r]
  from False d(4) have q: "unat s div LENGTH('a) < unat e div LENGTH('a)" by simp
  let ?js = "[Suc (unat s div LENGTH('a))..<unat e div LENGTH('a)]"
  have "unat s div LENGTH('a) < 2 ^ 31" "unat e div LENGTH('a) < 2 ^ 31" using d(4,6) by simp_all
  then have "(of_nat (unat s div LENGTH('a)) :: int32) \<noteq> of_nat (unat e div LENGTH('a))"
    using False sint_small_nat by (metis of_nat_eq_iff)
  moreover have "word_numbers bits s e = unat s div LENGTH('a) # ?js @ [unat e div LENGTH('a)]"
    unfolding word_numbers_def by (rule upt_ends [OF q])
  moreover have "anyR (\<lambda>i. andThen (word_at bits i) (\<lambda>v. Inr (v \<noteq> 0))) (map of_nat ?js)
      = Inr (\<exists>j \<in> set ?js. active bits (unat s) (unat e) j \<noteq> 0)"
  proof (subst anyR_words)
    have "bits ! j = active bits (unat s) (unat e) j" if "j \<in> set ?js" for j
      using that by (intro inner_active) auto
    then show "Inr (\<exists>j \<in> set ?js. bits ! j \<noteq> 0) = Inr (\<exists>j \<in> set ?js. active bits (unat s) (unat e) j \<noteq> 0)"
      by (intro arg_cong [where f = Inr] bex_cong) auto
  qed (use d(3,5) in auto)
  ultimately show ?thesis
    using d(4) inner_words [OF r q] masked_interval_up [OF _ d(5) q] masked_interval_down [OF d(3,5) disjI1 [OF q]] d(3)
    by (simp add: IsEmptyRange_def Let_def offset_int none_in_words [OF r] del: of_nat_unat)
qed

end

section \<open>Counting the bits of a range\<close>

definition range_count :: "'a::len word list \<Rightarrow> nat \<Rightarrow> nat \<Rightarrow> nat" where
  "range_count bits lo hi = card {i. lo \<le> i \<and> i \<le> hi \<and> arr_bit bits i}"

lemma range_count_empty: "hi < lo \<Longrightarrow> range_count bits lo hi = 0"
  by (auto simp: range_count_def intro!: card_eq_0_iff [THEN iffD2])

lemma range_count_first:
  "lo \<le> hi \<Longrightarrow> range_count bits lo hi = of_bool (arr_bit bits lo) + range_count bits (Suc lo) hi"
proof -
  assume "lo \<le> hi"
  then have "{i. lo \<le> i \<and> i \<le> hi \<and> arr_bit bits i}
      = (if arr_bit bits lo then {lo} else {}) \<union> {i. Suc lo \<le> i \<and> i \<le> hi \<and> arr_bit bits i}"
    by (auto simp: le_less)
  moreover have "finite {i. Suc lo \<le> i \<and> i \<le> hi \<and> arr_bit bits i}" by simp
  ultimately show ?thesis by (auto simp: range_count_def)
qed

lemma range_count_le: "range_count bits lo hi \<le> Suc hi"
proof -
  have "range_count bits lo hi \<le> card {..hi}"
    unfolding range_count_def by (rule card_mono) auto
  then show ?thesis by simp
qed

lemma bit_count_active_outside:
  fixes bits :: "'a::len word list"
  assumes "j < lo div LENGTH('a) \<or> hi div LENGTH('a) < j"
  shows "bit_count (active bits lo hi j) = 0"
  using assms by (auto simp: bit_count_def bit_active range_le)

lemma range_count_words:
  fixes bits :: "'a::len word list"
  assumes "hi div LENGTH('a) < length bits" and "lo div LENGTH('a) \<le> hi div LENGTH('a)"
  shows "range_count bits lo hi = (\<Sum>j\<leftarrow>[lo div LENGTH('a)..<Suc (hi div LENGTH('a))]. bit_count (active bits lo hi j))"
proof -
  let ?L = "LENGTH('a)" and ?f = "\<lambda>i. of_bool (lo \<le> i \<and> i \<le> hi \<and> arr_bit bits i) :: nat"
  have word: "sum ?f {j * ?L..<j * ?L + ?L} = bit_count (active bits lo hi j)" if "j < length bits" for j
  proof -
    have "sum ?f {j * ?L..<j * ?L + ?L} = (\<Sum>b\<in>{0..<?L}. ?f (j * ?L + b))"
      using sum.shift_bounds_nat_ivl [of ?f 0 "j * ?L" ?L] by (simp add: add.commute)
    also have "\<dots> = (\<Sum>b\<in>{0..<?L}. of_bool (bit (active bits lo hi j) b))"
      using that by (intro sum.cong) (auto simp: bit_active arr_bit_split)
    also have "\<dots> = card {b \<in> {0..<?L}. bit (active bits lo hi j) b}"
      by (simp add: of_bool_def sum.If_cases Int_def)
    also have "{b \<in> {0..<?L}. bit (active bits lo hi j) b} = {b. b < ?L \<and> bit (active bits lo hi j) b}" by auto
    finally show ?thesis by (simp add: bit_count_def)
  qed
  have "range_count bits lo hi = card {i \<in> {..<length bits * ?L}. lo \<le> i \<and> i \<le> hi \<and> arr_bit bits i}"
    unfolding range_count_def by (rule arg_cong [where f = card]) (auto simp: arr_bit_def mult.commute)
  also have "\<dots> = sum ?f {..<length bits * ?L}"
    by (simp add: of_bool_def sum.If_cases Int_def)
  also have "\<dots> = (\<Sum>j<length bits. bit_count (active bits lo hi j))"
    unfolding sum.nat_group [symmetric] by (intro sum.cong refl word) simp
  also have "\<dots> = (\<Sum>j\<in>{lo div ?L..<Suc (hi div ?L)}. bit_count (active bits lo hi j))"
    using assms by (intro sum.mono_neutral_right) (auto intro!: bit_count_active_outside)
  also have "\<dots> = (\<Sum>j\<leftarrow>[lo div ?L..<Suc (hi div ?L)]. bit_count (active bits lo hi j))"
    by (simp add: sum.distinct_set_conv_list [symmetric] del: upt_Suc)
  finally show ?thesis .
qed

context word_ops
begin

lemma count_word: "BitCount ops w = of_nat (bit_count w)"
  unfolding count [symmetric] by simp

lemma count_words:
  "\<forall>j \<in> set js. j < length bits \<Longrightarrow> length bits < 2 ^ 31 \<Longrightarrow>
   foldR (\<lambda>i c. andThen (word_at bits i) (\<lambda>v. Inr (c + BitCount ops v))) (map of_nat js) c
     = Inr (c + of_nat (\<Sum>j\<leftarrow>js. bit_count (bits ! j)))"
  by (induction js arbitrary: c) (auto simp: word_at_nat count_word algebra_simps)

lemma count_loop_ok:
  assumes "unat e div LENGTH('a) < length bits" and "unat e + 1 < 2 ^ LENGTH('a)"
    and "unat e + 1 - unat i < n"
  shows "count_loop ops bits n i e c = Some (Inr (c + of_nat (range_count bits (unat i) (unat e))))"
  using assms
proof (induction n arbitrary: i c)
  case (Suc n)
  show ?case
  proof (cases "i \<le> e")
    case True
    then have le: "unat i \<le> unat e" by (simp add: word_le_nat_alt)
    then have i: "unat i div LENGTH('a) < length bits" using Suc.prems(1) by (meson div_le_mono le_less_trans)
    have "unat (i + 1) = Suc (unat i)" using le Suc.prems(2) by (simp add: unat_word_ariths(1))
    with Suc.IH [of "i + 1" "c + of_bool (arr_bit bits (unat i))"] Suc.prems le True show ?thesis
      by (simp add: is_bit_set_range [OF i] range_count_first [OF le] algebra_simps)
  next
    case False
    then show ?thesis by (simp add: range_count_empty word_le_nat_alt)
  qed
qed simp

lemma long_range: "s \<le> e \<Longrightarrow> 8 < e - s \<longleftrightarrow> unat s + 8 < unat (e :: 'a word)"
proof -
  assume "s \<le> e"
  have "(8 :: nat) < 2 ^ 8" by simp
  also have "(2 :: nat) ^ 8 \<le> 2 ^ LENGTH('a)" using width(1) by (intro power_increasing) simp_all
  finally have "unat (of_nat 8 :: 'a word) = 8"
    by (simp only: unsigned_of_nat take_bit_nat_eq_self of_nat_id id_apply)
  with \<open>s \<le> e\<close> show ?thesis by (auto simp: word_less_nat_alt word_le_nat_alt unat_sub)
qed

lemma long_count_ok:
  assumes r: "range_ok bits s e" and long: "8 < e - s"
  shows "BitCountRange ops bits s e = Some (Inr (of_nat (range_count bits (unat s) (unat e))))"
proof (cases "unat s div LENGTH('a) = unat e div LENGTH('a)")
  case True
  then show ?thesis
    using masked_one_range [OF r True] range_count_words [of "unat e" bits "unat s"] range_okD [OF r] long
    by (simp add: BitCountRange_def Let_def offset_int count_word del: of_nat_unat)
next
  case False
  note d = range_okD [OF r]
  from False d(4) have q: "unat s div LENGTH('a) < unat e div LENGTH('a)" by simp
  let ?js = "[Suc (unat s div LENGTH('a))..<unat e div LENGTH('a)]" and ?A = "active bits (unat s) (unat e)"
  have "unat s div LENGTH('a) < 2 ^ 31" "unat e div LENGTH('a) < 2 ^ 31" using d(4,6) by simp_all
  then have ne: "(of_nat (unat e div LENGTH('a)) :: int32) \<noteq> of_nat (unat s div LENGTH('a))"
    using False sint_small_nat by (metis of_nat_eq_iff)
  have inner: "(\<Sum>j\<leftarrow>?js. bit_count (bits ! j)) = (\<Sum>j\<leftarrow>?js. bit_count (?A j))"
    by (intro arg_cong [where f = sum_list] map_cong refl)
      (simp add: inner_active [of "unat s" _ "unat e" bits])
  have total: "range_count bits (unat s) (unat e) = bit_count (?A (unat s div LENGTH('a)))
      + (\<Sum>j\<leftarrow>?js. bit_count (bits ! j)) + bit_count (?A (unat e div LENGTH('a)))"
    unfolding range_count_words [OF d(3,4)] upt_ends [OF q] inner by simp
  have "\<forall>j \<in> set ?js. j < length bits" using d(3) by auto
  then show ?thesis
    using ne long d(3-5) inner_words [OF r q] masked_interval_up [OF _ d(5) q] masked_interval_down [OF d(3,5) disjI1 [OF q]]
      count_words [of ?js bits]
    by (simp add: BitCountRange_def Let_def offset_int count_word total del: of_nat_unat)
qed

lemma bit_count_range_ok:
  assumes r: "range_ok bits s e"
  shows "\<exists>c. BitCountRange ops bits s e = Some (Inr c) \<and> unat c = range_count bits (unat s) (unat e)"
proof -
  note d = range_okD [OF r]
  have "(2 :: nat) ^ (LENGTH('a) - 1) < 2 ^ LENGTH('a)" using width(1) by simp
  then have lt: "unat e + 1 < 2 ^ LENGTH('a)" using d(7) by linarith
  have "BitCountRange ops bits s e = Some (Inr (of_nat (range_count bits (unat s) (unat e))))"
  proof (cases "8 < e - s")
    case False
    then have "unat e \<le> unat s + 8" using long_range [OF d(2)] by simp
    with count_loop_ok [OF d(3) lt, of s 10 0] False show ?thesis by (simp add: BitCountRange_def)
  qed (rule long_count_ok [OF r])
  moreover have "range_count bits (unat s) (unat e) < 2 ^ LENGTH('a)"
    using range_count_le [of bits "unat s" "unat e"] lt by linarith
  ultimately show ?thesis by (auto simp: unsigned_of_nat take_bit_nat_eq_self)
qed

end

section \<open>The functions of both word sizes\<close>

definition BitCountRange64 :: "int64 list \<Rightarrow> int64 \<Rightarrow> int64 \<Rightarrow> int64 result option" where
  "BitCountRange64 = BitCountRange ops64"

definition BitCountRange32 :: "int32 list \<Rightarrow> int32 \<Rightarrow> int32 \<Rightarrow> int32 result option" where
  "BitCountRange32 = BitCountRange ops32"

definition IsEmptyRange64 :: "int64 list \<Rightarrow> int64 \<Rightarrow> int64 \<Rightarrow> bool result" where
  "IsEmptyRange64 = IsEmptyRange ops64"

definition IsEmptyRange32 :: "int32 list \<Rightarrow> int32 \<Rightarrow> int32 \<Rightarrow> bool result" where
  "IsEmptyRange32 = IsEmptyRange ops32"

definition range_lsb64 :: "int64 list \<Rightarrow> int64 \<Rightarrow> int64 \<Rightarrow> int64 result" where
  "range_lsb64 = LeastSignificantBitPosition ops64"

definition range_lsb32 :: "int32 list \<Rightarrow> int32 \<Rightarrow> int32 \<Rightarrow> int32 result" where
  "range_lsb32 = LeastSignificantBitPosition ops32"

definition range_msb64 :: "int64 list \<Rightarrow> int64 \<Rightarrow> int64 \<Rightarrow> int64 result" where
  "range_msb64 = MostSignificantBitPosition ops64"

definition range_msb32 :: "int32 list \<Rightarrow> int32 \<Rightarrow> int32 \<Rightarrow> int32 result" where
  "range_msb32 = MostSignificantBitPosition ops32"

definition UnsafeLeastSignificantBitPosition64 :: "int64 list \<Rightarrow> int64 \<Rightarrow> int64 \<Rightarrow> int64 result" where
  "UnsafeLeastSignificantBitPosition64 = UnsafeLeastSignificantBitPosition ops64"

definition UnsafeLeastSignificantBitPosition32 :: "int32 list \<Rightarrow> int32 \<Rightarrow> int32 \<Rightarrow> int32 result" where
  "UnsafeLeastSignificantBitPosition32 = UnsafeLeastSignificantBitPosition ops32"

definition UnsafeMostSignificantBitPosition64 :: "int64 list \<Rightarrow> int64 \<Rightarrow> int64 \<Rightarrow> int64 result" where
  "UnsafeMostSignificantBitPosition64 = UnsafeMostSignificantBitPosition ops64"

definition UnsafeMostSignificantBitPosition32 :: "int32 list \<Rightarrow> int32 \<Rightarrow> int32 \<Rightarrow> int32 result" where
  "UnsafeMostSignificantBitPosition32 = UnsafeMostSignificantBitPosition ops32"

text \<open>
  C36. For a range of positions inside an array, in both word sizes: the search functions return the
  first and the last position of the range whose bit is set, or -1 when the range has none; the unsafe
  variants return the same when their precondition holds.
\<close>

theorem range_searches:
  assumes "range_ok bits s e" and "range_ok bits' s' e'"
  shows "(\<exists>p. range_lsb64 bits s e = Inr p \<and> is_range_lsb bits s e p)
    \<and> (\<exists>p. range_lsb32 bits' s' e' = Inr p \<and> is_range_lsb bits' s' e' p)
    \<and> (\<exists>p. range_msb64 bits s e = Inr p \<and> is_range_msb bits s e p)
    \<and> (\<exists>p. range_msb32 bits' s' e' = Inr p \<and> is_range_msb bits' s' e' p)
    \<and> (arr_bit bits (unat e) \<longrightarrow> UnsafeLeastSignificantBitPosition64 bits s e = range_lsb64 bits s e)
    \<and> (arr_bit bits' (unat e') \<longrightarrow> UnsafeLeastSignificantBitPosition32 bits' s' e' = range_lsb32 bits' s' e')
    \<and> (arr_bit bits (unat s) \<longrightarrow> UnsafeMostSignificantBitPosition64 bits s e = range_msb64 bits s e)
    \<and> (arr_bit bits' (unat s') \<longrightarrow> UnsafeMostSignificantBitPosition32 bits' s' e' = range_msb32 bits' s' e')"
  using assms
  by (simp_all add: range_lsb64_def range_lsb32_def range_msb64_def range_msb32_def
      UnsafeLeastSignificantBitPosition64_def UnsafeLeastSignificantBitPosition32_def
      UnsafeMostSignificantBitPosition64_def UnsafeMostSignificantBitPosition32_def
      w64.lsb_range_ok w32.lsb_range_ok w64.msb_range_ok w32.msb_range_ok
      w64.unsafe_lsb_eq w32.unsafe_lsb_eq w64.unsafe_msb_eq w32.unsafe_msb_eq)

lemma range_searches_witness:
  "range_lsb64 [0x10, 0, 0x100] 5 130 = Inr (- 1) \<and> range_lsb64 [0x10, 0, 0x100] 5 140 = Inr 136
   \<and> is_range_lsb [0x10, 0, 0x100 :: int64] 5 140 136 \<and> is_range_msb [0x10, 0x80000000 :: int32] 0 60 4"
proof -
  have ok: "range_ok [0x10, 0, 0x100 :: int64] 5 130" "range_ok [0x10, 0, 0x100 :: int64] 5 140"
    "range_ok [0x10, 0x80000000 :: int32] 0 60"
    by (simp_all add: range_ok_def)
  have lsb: "range_lsb64 [0x10, 0, 0x100] 5 130 = Inr (- 1)" "range_lsb64 [0x10, 0, 0x100] 5 140 = Inr 136"
    "range_msb32 [0x10, 0x80000000] 0 60 = Inr 4"
    by code_simp+
  then show ?thesis
    using range_searches [OF ok(2,3)] by simp
qed

text \<open>
  For a range of positions inside an array, in both word sizes: the function that counts the bits
  ends and returns their number, for long and for short ranges, and the emptiness test tells whether
  there is none.
\<close>

theorem range_counts:
  assumes "range_ok bits s e" and "range_ok bits' s' e'"
  shows "(\<exists>c. BitCountRange64 bits s e = Some (Inr c) \<and> unat c = range_count bits (unat s) (unat e))
    \<and> (\<exists>c. BitCountRange32 bits' s' e' = Some (Inr c) \<and> unat c = range_count bits' (unat s') (unat e'))
    \<and> (IsEmptyRange64 bits s e = Inr (none_in (arr_bit bits) (unat s) (unat e)))
    \<and> (IsEmptyRange32 bits' s' e' = Inr (none_in (arr_bit bits') (unat s') (unat e')))"
  using assms
  by (simp_all add: BitCountRange64_def BitCountRange32_def IsEmptyRange64_def IsEmptyRange32_def
      w64.bit_count_range_ok w32.bit_count_range_ok w64.is_empty_range_ok w32.is_empty_range_ok)

lemma range_counts_witness:
  "BitCountRange64 [0xFF, 0, 0x101] 4 140 = Some (Inr 6) \<and> range_count [0xFF, 0, 0x101 :: int64] 4 140 = 6
   \<and> IsEmptyRange64 [0xFF, 0, 0x101] 4 140 = Inr False"
proof -
  have ok: "range_ok [0xFF, 0, 0x101 :: int64] 4 140" "range_ok [1, 0 :: int32] 1 60"
    by (simp_all add: range_ok_def)
  have "BitCountRange64 [0xFF, 0, 0x101] 4 140 = Some (Inr 6)" "IsEmptyRange64 [0xFF, 0, 0x101] 4 140 = Inr False"
    by code_simp+
  then show ?thesis using range_counts [OF ok] by simp
qed

end
