(* ===== verification/Bitset_Iteration.thy ===== *)
theory Bitset_Iteration
  imports Bitset Bit_Ranges
begin

text \<open>
  The rest of the class \<open>Bitset64\<close> of \<open>include/cosy/Bitset.h\<close>: copying, the combination of bits of
  two other sets, the printed form and the iterator over the positions that are set. The iterator keeps
  the part of the current word that it has not visited; \<open>iterator_at\<close> relates it to the list of the
  positions that are left.
\<close>

unbundle bit_operations_syntax

section \<open>Copying and combining\<close>

definition Bitset64_Value :: "int64 \<Rightarrow> int64 result" where
  "Bitset64_Value input = check (0 \<le>s input) (Inr input)"

definition Bitset64_CopyBucket :: "bitset \<Rightarrow> bitset \<Rightarrow> int64 \<Rightarrow> bitset result" where
  "Bitset64_CopyBucket b other i =
     andThen (Bitset64_Value i) (\<lambda>i. andThen (bucket_at other i) (\<lambda>w. bucket_put b i w))"

definition Bitset64_SetContentFromBitset :: "bitset \<Rightarrow> bitset \<Rightarrow> bitset result" where
  "Bitset64_SetContentFromBitset b other =
     (let min_size = min (length (bs_data b)) (length (bs_data other)) in
      if min_size = 0 then Inr b
      else
        let last_common_bucket = bs_data b ! (min_size - 1);
            d = take min_size (bs_data other) @ drop min_size (bs_data b)
        in if length (bs_data other) \<le> length (bs_data b) then
             andThen (Bitset64_Value (bs_size other - 1)) (\<lambda>last.
               let bitmask = push_bit (unat (BitPos64 last)) kAllBitsButLsb64
               in Inr (b\<lparr>bs_data := d[min_size - 1 :=
                      (d ! (min_size - 1) AND NOT bitmask) OR (bitmask AND last_common_bucket)]\<rparr>))
           else Inr (b\<lparr>bs_data := d\<rparr>))"

definition Bitset64_SetContentFromBitsetOfSameSize :: "bitset \<Rightarrow> bitset \<Rightarrow> bitset result" where
  "Bitset64_SetContentFromBitsetOfSameSize b other =
     check (bs_size b = bs_size other)
       (if length (bs_data b) \<le> length (bs_data other)
        then Inr (b\<lparr>bs_data := take (length (bs_data b)) (bs_data other)\<rparr>)
        else Inl Bad_index)"

definition Bitset64_SetBitFromOtherBitSets ::
    "bitset \<Rightarrow> int64 \<Rightarrow> bitset \<Rightarrow> int64 \<Rightarrow> bitset \<Rightarrow> int64 \<Rightarrow> bitset result" where
  "Bitset64_SetBitFromOtherBitSets b i other1 use1 other2 use2 =
     check (length (bs_data b) = length (bs_data other1))
     (check (length (bs_data b) = length (bs_data other2))
     (check (use1 = 0 \<or> use1 = 1)
     (check (use2 = 0 \<or> use2 = 1)
     (andThen (Bitset64_Value i) (\<lambda>i.
      let bucket = ucast (BitOffset64 i) :: int32;
          pos = unat (ucast (BitPos64 i) :: int32)
      in andThen (word_at (bs_data b) bucket) (\<lambda>w.
         andThen (word_at (bs_data other1) bucket) (\<lambda>w1.
         andThen (word_at (bs_data other2) bucket) (\<lambda>w2.
         Inr (b\<lparr>bs_data := (bs_data b)[unat bucket :=
           w XOR ((push_bit pos 1 AND w) XOR (push_bit pos use1 AND w1) XOR (push_bit pos use2 AND w2))]\<rparr>)))))))))"

definition Bitset64_DebugString :: "bitset \<Rightarrow> string result" where
  "Bitset64_DebugString b =
     foldR (\<lambda>i out. andThen (Bitset64_IsSet b i) (\<lambda>v. Inr (out @ (if v then ''1'' else ''0''))))
       (map of_nat [0..<nat (sint (bs_size b))]) []"

section \<open>The iterator\<close>

record iterator =
  it_index :: int32
  it_base_index :: int32
  it_current :: int64

definition Iterator_Ok :: "iterator \<Rightarrow> bool" where
  "Iterator_Ok it \<longleftrightarrow> it_index it \<noteq> - 1"

definition Iterator_Index :: "iterator \<Rightarrow> int64 result" where
  "Iterator_Index it = check (Iterator_Ok it) (Inr (scast (it_index it)))"

definition Iterator_take :: "iterator \<Rightarrow> iterator result" where
  "Iterator_take it =
     andThen (LeastSignificantBitPosition64 (it_current it)) (\<lambda>p.
       Inr (it\<lparr>it_index := it_base_index it + p, it_current := it_current it AND (it_current it - 1)\<rparr>))"

definition Iterator_Next :: "int64 list \<Rightarrow> iterator \<Rightarrow> iterator result" where
  "Iterator_Next d it =
     check (Iterator_Ok it)
       (if it_current it = 0 then
          andThen (first_word d (int_range (ucast (BitOffset64 (scast (it_base_index it))) + 1) (of_nat (length d))))
            (\<lambda>found. case found of
               None \<Rightarrow> Inr (it\<lparr>it_index := - 1\<rparr>)
             | Some (bucket, w) \<Rightarrow>
                 Iterator_take (it\<lparr>it_current := w, it_base_index := ucast (BitShift64 (scast bucket))\<rparr>))
        else Iterator_take it)"

definition Iterator_first :: "int64 list \<Rightarrow> iterator result" where
  "Iterator_first d =
     (let it = \<lparr>it_index = 0, it_base_index = 0, it_current = 0\<rparr> in
      if d = [] then Inr (it\<lparr>it_index := - 1\<rparr>)
      else Iterator_Next d (it\<lparr>it_current := d ! 0\<rparr>))"

definition Iterator_new :: "int64 list \<Rightarrow> bool \<Rightarrow> iterator result" where
  "Iterator_new d at_end =
     (let it = \<lparr>it_index = 0, it_base_index = 0, it_current = 0\<rparr> in
      if at_end \<or> d = [] then Inr (it\<lparr>it_index := - 1\<rparr>)
      else Iterator_Next d (it\<lparr>it_current := d ! 0\<rparr>))"

definition Iterator_differs :: "iterator \<Rightarrow> iterator \<Rightarrow> bool" where
  "Iterator_differs it it' \<longleftrightarrow> it_index it \<noteq> it_index it'"

definition Iterator_deref :: "iterator \<Rightarrow> int64" where
  "Iterator_deref it = scast (it_index it)"

definition Bitset64_begin :: "bitset \<Rightarrow> iterator result" where
  "Bitset64_begin b = Iterator_first (bs_data b)"

definition Bitset64_end :: "bitset \<Rightarrow> iterator result" where
  "Bitset64_end b = Iterator_new (bs_data b) True"

text \<open>The loop \<open>for (i : bitset)\<close>, with the number of rounds allowed; \<open>None\<close> when it has not ended.\<close>

fun range_for :: "nat \<Rightarrow> int64 list \<Rightarrow> iterator \<Rightarrow> iterator \<Rightarrow> int64 list result option" where
  "range_for 0 d it last_it = None"
| "range_for (Suc n) d it last_it =
     (if Iterator_differs it last_it then
        (case Iterator_Next d it of
           Inl e \<Rightarrow> Some (Inl e)
         | Inr it' \<Rightarrow> map_option (map_sum id (\<lambda>ps. Iterator_deref it # ps)) (range_for n d it' last_it))
      else Some (Inr []))"

definition positions_of :: "nat \<Rightarrow> bitset \<Rightarrow> int64 list result option" where
  "positions_of n b =
     (case (Bitset64_begin b, Bitset64_end b) of
        (Inr start, Inr stop) \<Rightarrow> range_for n (bs_data b) start stop
      | (Inl e, _) \<Rightarrow> Some (Inl e)
      | (_, Inl e) \<Rightarrow> Some (Inl e))"

section \<open>The iterator visits the positions in order\<close>

lemma find_first_in: "first_in P lo hi k \<Longrightarrow> List.find P [lo..<Suc hi] = Some k"
proof -
  assume k: "first_in P lo hi k"
  then have "List.find P [lo..<Suc hi] \<noteq> None" by (auto simp: first_in_def find_None_iff)
  then obtain j where j: "List.find P [lo..<Suc hi] = Some j" by blast
  have "j = k"
    using find_upt_Some [OF j] k unfolding first_in_def by (metis less_Suc_eq_le linorder_neqE_nat)
  with j show ?thesis by simp
qed

lemma find_none_in: "none_in P lo hi \<Longrightarrow> List.find P [lo..<Suc hi] = None"
  by (auto simp: none_in_def find_None_iff)

lemma clear_lowest:
  assumes "is_lsb (w :: 'a::len word) k"
  shows "bit (w AND (w - 1)) b \<longleftrightarrow> bit w b \<and> b \<noteq> k"
proof -
  have "w AND - w = push_bit k 1" using isolate_lsb [OF assms] by (simp add: not_eq_complement)
  then have "bit (w AND - w) b \<longleftrightarrow> b = k"
    using is_lsb_less [OF assms] by (auto simp: bit_exp_iff)
  moreover have "w - 1 = NOT (- w)" by (simp add: not_eq_complement)
  ultimately show ?thesis
    using bit_imp_le_length [of w b] by (auto simp: bit_and_iff bit_not_iff)
qed

text \<open>The iterator at a position, or at the end.\<close>

definition small_data :: "int64 list \<Rightarrow> bool" where
  "small_data d \<longleftrightarrow> d \<noteq> [] \<and> 64 * length d < 2 ^ 31"

definition last_pos :: "int64 list \<Rightarrow> nat" where
  "last_pos d = 64 * length d - 1"

fun iterator_at :: "int64 list \<Rightarrow> iterator \<Rightarrow> nat option \<Rightarrow> bool" where
  "iterator_at d it None \<longleftrightarrow> it_index it = - 1"
| "iterator_at d it (Some k) \<longleftrightarrow> k \<le> last_pos d \<and> it_index it = of_nat k
     \<and> it_base_index it = of_nat (64 * (k div 64)) \<and> it_current it = active d (Suc k) (last_pos d) (k div 64)"

definition next_position :: "int64 list \<Rightarrow> nat \<Rightarrow> nat option" where
  "next_position d lo = List.find (arr_bit d) [lo..<Suc (last_pos d)]"

lemma small_dataD:
  assumes "small_data d"
  shows "Suc (last_pos d) = 64 * length d" "last_pos d < 2 ^ 31" "length d < 2 ^ 31"
    "last_pos d div 64 = length d - 1" "last_pos d mod 64 = 63" "length d > 0"
proof -
  have l: "length d > 0" "64 * length d < 2 ^ 31" using assms by (auto simp: small_data_def)
  show "Suc (last_pos d) = 64 * length d" using l by (simp add: last_pos_def)
  show "last_pos d < 2 ^ 31" "length d < 2 ^ 31" using l by (simp_all add: last_pos_def)
  have e: "last_pos d = 64 * (length d - 1) + 63" using l(1) unfolding last_pos_def by linarith
  show "last_pos d div 64 = length d - 1" "last_pos d mod 64 = 63" unfolding e by simp_all
  show "length d > 0" by (rule l)
qed

lemma Iterator_take_ok:
  assumes d: "small_data d" and j: "j < length d" and base: "it_base_index it = of_nat (64 * j)"
    and cur: "it_current it = active d lo (last_pos d) j" "it_current it \<noteq> 0"
    and none: "\<forall>i. lo div 64 \<le> i \<and> i < j \<longrightarrow> active d lo (last_pos d) i = 0"
  shows "\<exists>it'. Iterator_take it = Inr it' \<and> iterator_at d it' (next_position d lo)"
proof -
  note s = small_dataD [OF d]
  obtain k where k: "is_lsb (it_current it) k" using ex_is_lsb [OF cur(2)] ..
  then have less: "k < 64" using is_lsb_less by fastforce
  have f: "first_in (arr_bit d) lo (last_pos d) (j * 64 + k)"
    using first_active [of "last_pos d" d j lo k] k j none s(4,6) by (simp add: cur)
  have split: "(j * 64 + k) div 64 = j" "(j * 64 + k) mod 64 = k" using less by simp_all
  have rest: "it_current it AND (it_current it - 1) = active d (Suc (j * 64 + k)) (last_pos d) j"
  proof (rule bit_word_eqI)
    fix b assume b: "b < LENGTH(64)"
    have "lo \<le> j * 64 + k" using f by (simp add: first_in_def)
    moreover have "bit (it_current it) b \<Longrightarrow> k \<le> b" using k unfolding is_lsb_def by (meson linorder_not_le)
    ultimately show "bit (it_current it AND (it_current it - 1)) b
        = bit (active d (Suc (j * 64 + k)) (last_pos d) j) b"
      unfolding clear_lowest [OF k] by (auto simp: cur(1) bit_active)
  qed
  have take: "Iterator_take it = Inr (it\<lparr>it_index := of_nat (64 * j) + of_nat k,
      it_current := it_current it AND (it_current it - 1)\<rparr>)"
    using cur(2) by (simp add: Iterator_take_def LeastSignificantBitPosition64_def lsb_fast_ok(1) [OF k] base)
  have "iterator_at d (it\<lparr>it_index := of_nat (64 * j) + of_nat k,
      it_current := it_current it AND (it_current it - 1)\<rparr>) (next_position d lo)"
    using f split base unfolding next_position_def find_first_in [OF f] rest
    by (simp add: first_in_def mult.commute)
  with take show ?thesis by blast
qed

lemma whole_word:
  fixes d :: "int64 list"
  assumes "j < length d" and "lo \<le> 64 * j"
  shows "d ! j = active d lo (last_pos d) j"
proof -
  have "d ! j AND - 1 = active d lo (last_pos d) j"
  proof (rule mask_active)
    fix b assume b: "b < LENGTH(64)"
    have "j * 64 + b \<le> last_pos d" using b assms(1) by (simp add: last_pos_def)
    with b assms(2) show "bit (- 1 :: int64) b = (lo \<le> j * LENGTH(64) + b \<and> j * LENGTH(64) + b \<le> last_pos d)"
      by simp
  qed
  then show ?thesis by simp
qed

lemma base_bucket:
  assumes "64 * j < 2 ^ 31"
  shows "(ucast (BitOffset64 (scast (of_nat (64 * j) :: int32))) :: int32) = of_nat j"
proof -
  have "unat (BitOffset64 (scast (of_nat (64 * j) :: int32))) = j"
    using assms scast_small [of "64 * j", where 'a = 64] by (simp add: unsigned_of_nat take_bit_nat_eq_self del: of_nat_mult)
  then show ?thesis by (simp only: ucast_int)
qed

lemma bucket_base:
  assumes "64 * j < 2 ^ 31"
  shows "(ucast (BitShift64 (scast (of_nat j :: int32))) :: int32) = of_nat (64 * j)"
proof -
  have "j < 2 ^ 31" using assms by simp
  from scast_small [OF this, where 'a = 64]
  have "unat (BitShift64 (scast (of_nat j :: int32))) = 64 * j"
    using assms w64.shift [of "of_nat j"] by (simp add: ops64_def unsigned_of_nat take_bit_nat_eq_self)
  then show ?thesis by (simp only: ucast_int)
qed

lemma next_bucket:
  assumes d: "small_data d" and j: "j < length d"
  shows "first_word d (int_range (of_nat j + 1) (of_nat (length d)))
    = Inr (map_option (\<lambda>i. (of_nat i, d ! i)) (List.find (\<lambda>i. d ! i \<noteq> 0) [Suc j..<length d]))"
proof -
  have "int_range (of_nat j + 1) (of_nat (length d)) = map of_nat [Suc j..<length d]"
    using small_dataD(3) [OF d] j by (intro int_range_up) simp_all
  then show ?thesis using small_dataD(3) [OF d] by (simp add: first_word_nat)
qed

text \<open>One step from any word \<open>j\<close> of which the positions from \<open>lo\<close> on are left.\<close>

lemma Iterator_Next_from:
  assumes d: "small_data d" and j: "j < length d" and ok: "Iterator_Ok it"
    and base: "it_base_index it = of_nat (64 * j)" and cur: "it_current it = active d lo (last_pos d) j"
    and lo: "64 * j \<le> lo" "lo \<le> 64 * Suc j"
  shows "\<exists>it'. Iterator_Next d it = Inr it' \<and> iterator_at d it' (next_position d lo)"
proof (cases "it_current it = 0")
  case False
  have "j \<le> lo div 64" using lo(1) by (simp add: less_eq_div_iff_mult_less_eq mult.commute)
  then have "\<forall>i. lo div 64 \<le> i \<and> i < j \<longrightarrow> active d lo (last_pos d) i = 0" by auto
  from Iterator_take_ok [OF d j base cur False this] show ?thesis
    using ok False by (simp add: Iterator_Next_def)
next
  case True
  note s = small_dataD [OF d]
  have lodiv: "j \<le> lo div 64" using lo(1) by (simp add: less_eq_div_iff_mult_less_eq mult.commute)
  have "64 * j < 2 ^ 31" using j s(1,2) by linarith
  then have step: "Iterator_Next d it
      = (case List.find (\<lambda>i. d ! i \<noteq> 0) [Suc j..<length d] of None \<Rightarrow> Inr (it\<lparr>it_index := - 1\<rparr>)
         | Some i \<Rightarrow> Iterator_take (it\<lparr>it_current := d ! i, it_base_index := ucast (BitShift64 (scast (of_nat i :: int32)))\<rparr>))"
    using ok True next_bucket [OF d j]
    by (simp add: Iterator_Next_def base base_bucket del: of_nat_mult split: option.splits)
  have word: "d ! i = active d lo (last_pos d) i" if "j < i" "i < length d" for i
    using that lo(2) by (intro whole_word) simp_all
  show ?thesis
  proof (cases "List.find (\<lambda>i. d ! i \<noteq> 0) [Suc j..<length d]")
    case None
    then have zero: "\<forall>i. Suc j \<le> i \<and> i < length d \<longrightarrow> d ! i = 0" by (auto simp: find_None_iff)
    have "active d lo (last_pos d) i = 0" if "lo div 64 \<le> i" "i \<le> last_pos d div 64" for i
      using that lodiv zero word [of i] cur True s(4,6) by (cases "i = j") auto
    then have "none_in (arr_bit d) lo (last_pos d)"
      using s(4,6) by (intro none_active) auto
    then show ?thesis by (simp add: step None next_position_def find_none_in del: upt_Suc)
  next
    case (Some i)
    note i = find_upt_Some [OF Some]
    have "active d lo (last_pos d) i' = 0" if "lo div 64 \<le> i'" "i' < i" for i'
      using that lodiv word [of i'] i cur True by (cases "i' = j") auto
    moreover have "64 * i < 2 ^ 31" using i s(1,2) by linarith
    ultimately show ?thesis
      using i word [of i] Iterator_take_ok [OF d, of i
        "it\<lparr>it_current := d ! i, it_base_index := ucast (BitShift64 (scast (of_nat i :: int32)))\<rparr>" lo]
      by (simp add: step Some bucket_base del: of_nat_mult)
  qed
qed

lemma Iterator_Ok_at: "small_data d \<Longrightarrow> iterator_at d it (Some k) \<Longrightarrow> Iterator_Ok it"
  using small_dataD(2) [of d] sint_small_nat [of k]
  by (auto simp: Iterator_Ok_def)

lemma Iterator_Next_ok:
  assumes d: "small_data d" and at: "iterator_at d it (Some k)"
  shows "\<exists>it'. Iterator_Next d it = Inr it' \<and> iterator_at d it' (next_position d (Suc k))"
proof -
  have "k div 64 < length d" using at small_dataD(1) [OF d] by (simp add: less_mult_imp_div_less mult.commute)
  moreover have "64 * (k div 64) \<le> Suc k" "Suc k \<le> 64 * Suc (k div 64)" by arith+
  ultimately show ?thesis
    using at Iterator_Ok_at [OF d at] by (intro Iterator_Next_from [OF d]) auto
qed

lemma Iterator_first_ok:
  assumes d: "64 * length d < 2 ^ 31"
  shows "\<exists>it. Iterator_first d = Inr it \<and> iterator_at d it (if d = [] then None else next_position d 0)"
proof (cases "d = []")
  case False
  then have s: "small_data d" using d by (simp add: small_data_def)
  have "d ! 0 = active d 0 (last_pos d) 0" using False by (intro whole_word) simp_all
  then show ?thesis
    using False Iterator_Next_from [OF s, of 0 "\<lparr>it_index = 0, it_base_index = 0, it_current = d ! 0\<rparr>" 0]
    by (simp add: Iterator_first_def Let_def Iterator_Ok_def)
qed (simp add: Iterator_first_def)

text \<open>The loop visits all positions.\<close>

lemma filter_find:
  "filter P [lo..<m] = (case List.find P [lo..<m] of None \<Rightarrow> [] | Some k \<Rightarrow> k # filter P [Suc k..<m])"
proof (cases "List.find P [lo..<m]")
  case None
  then have "filter P [lo..<m] = []" by (auto simp: find_None_iff filter_empty_conv)
  with None show ?thesis by simp
next
  case (Some k)
  note k = find_upt_Some [OF Some]
  then have "[lo..<m] = [lo..<k] @ k # [Suc k..<m]"
    by (metis less_imp_le_nat upt_add_eq_append upt_conv_Cons le_add_diff_inverse)
  moreover have "filter P [lo..<k] = []" using k by (auto simp: filter_empty_conv)
  ultimately show ?thesis using Some k by simp
qed

definition positions_from :: "int64 list \<Rightarrow> nat \<Rightarrow> nat list" where
  "positions_from d lo = filter (arr_bit d) [lo..<64 * length d]"

lemma positions_from_next:
  "small_data d \<Longrightarrow> positions_from d lo
    = (case next_position d lo of None \<Rightarrow> [] | Some k \<Rightarrow> k # positions_from d (Suc k))"
  unfolding positions_from_def next_position_def small_dataD(1) by (rule filter_find)

lemma range_for_ok:
  assumes d: "small_data d" and "iterator_at d it pos" and "it_index stop = - 1"
    and "length (case pos of None \<Rightarrow> [] | Some k \<Rightarrow> k # positions_from d (Suc k)) < n"
  shows "range_for n d it stop
    = Some (Inr (map of_nat (case pos of None \<Rightarrow> [] | Some k \<Rightarrow> k # positions_from d (Suc k))))"
  using assms(2-)
proof (induction n arbitrary: it pos)
  case (Suc n)
  show ?case
  proof (cases pos)
    case None
    with Suc.prems show ?thesis by (simp add: Iterator_differs_def)
  next
    case (Some k)
    with Suc.prems have at: "iterator_at d it (Some k)" by simp
    then have differs: "Iterator_differs it stop"
      using Iterator_Ok_at [OF d at] Suc.prems(2) by (simp add: Iterator_differs_def Iterator_Ok_def)
    obtain it' where it': "Iterator_Next d it = Inr it'" "iterator_at d it' (next_position d (Suc k))"
      using Iterator_Next_ok [OF d at] by blast
    have "k < 2 ^ 31" using at small_dataD(2) [OF d] by simp
    then have "Iterator_deref it = of_nat k"
      using at by (simp add: Iterator_deref_def scast_small del: of_nat_unat)
    moreover have "range_for n d it' stop = Some (Inr (map of_nat (positions_from d (Suc k))))"
      using Suc.IH [OF it'(2) Suc.prems(2)] Suc.prems(3) Some
      by (simp add: positions_from_next [OF d, of "Suc k"])
    ultimately show ?thesis using Some differs it'(1) by simp
  qed
qed simp

lemma arr_bit_bits_of: "arr_bit (bs_data b) i \<longleftrightarrow> i \<in> bits_of b"
  by (simp add: arr_bit_def bits_of_def)

text \<open>
  C38. A loop over a bit set ends after at most one round per bit and visits exactly the positions that
  are set, in increasing order.
\<close>

theorem iteration_visits_all:
  assumes "64 * length (bs_data b) < 2 ^ 31" and "card (bits_of b) < n"
  shows "\<exists>ks. positions_of n b = Some (Inr (map of_nat ks)) \<and> sorted_wrt (<) ks \<and> set ks = bits_of b"
proof -
  let ?d = "bs_data b"
  define ks where "ks = positions_from ?d 0"
  have sorted: "sorted_wrt (<) ks" unfolding ks_def positions_from_def by (rule sorted_wrt_filter) simp
  have set: "set ks = bits_of b"
    by (auto simp: ks_def positions_from_def arr_bit_bits_of) (simp add: bits_of_def)
  have "distinct ks" by (simp add: ks_def positions_from_def)
  then have len: "length ks < n" using assms(2) distinct_card [of ks] by (simp add: set)
  obtain it where it: "Bitset64_begin b = Inr it"
      "iterator_at ?d it (if ?d = [] then None else next_position ?d 0)"
    using Iterator_first_ok [OF assms(1)] unfolding Bitset64_begin_def by blast
  obtain stop where stop: "Bitset64_end b = Inr stop" "it_index stop = - 1"
    by (simp add: Bitset64_end_def Iterator_new_def)
  have "positions_of n b = Some (Inr (map of_nat ks))"
  proof (cases "?d = []")
    case True
    then show ?thesis
      using it stop len by (cases n) (auto simp: positions_of_def ks_def positions_from_def Iterator_differs_def)
  next
    case False
    then have s: "small_data ?d" using assms(1) by (simp add: small_data_def)
    have e: "(case next_position ?d 0 of None \<Rightarrow> [] | Some k \<Rightarrow> k # positions_from ?d (Suc k)) = ks"
      unfolding ks_def by (rule positions_from_next [OF s, symmetric])
    show ?thesis
      using range_for_ok [OF s _ stop(2), of it "next_position ?d 0" n] it stop(1) len False
      by (simp add: positions_of_def e)
  qed
  with sorted set show ?thesis by blast
qed

lemma iteration_visits_all_witness:
  "\<exists>ks. map of_nat ks = [0, 2, 128, 191 :: int64]
    \<and> set ks = bits_of \<lparr>bs_size = 200, bs_data = [5, 0, 0x8000000000000001]\<rparr>"
proof -
  let ?b = "\<lparr>bs_size = 200, bs_data = [5, 0, 0x8000000000000001]\<rparr>"
  have "card (bits_of ?b) \<le> card {..<192 :: nat}" by (rule card_mono) (auto simp: bits_of_def)
  then have "card (bits_of ?b) < 200" by simp
  moreover have "64 * length (bs_data ?b) < 2 ^ 31" by simp
  ultimately obtain ks where ks: "positions_of 200 ?b = Some (Inr (map of_nat ks))" "set ks = bits_of ?b"
    using iteration_visits_all [of ?b 200] by blast
  have "positions_of 200 ?b = Some (Inr [0, 2, 128, 191])" by code_simp
  then have "map of_nat ks = [0, 2, 128, 191 :: int64]" unfolding ks(1) by (simp only: option.inject sum.inject)
  with ks(2) show ?thesis by (intro exI [of _ ks] conjI)
qed

section \<open>Copying and combining keep the contents\<close>

lemma in_bits_of: "n \<in> bits_of b \<longleftrightarrow> n div 64 < length (bs_data b) \<and> bit (bs_data b ! (n div 64)) (n mod 64)"
  by (auto simp: bits_of_def div_less_iff_less_mult mult.commute)

lemma bit_ButLsb: "bit (push_bit k kAllBitsButLsb64) c \<longleftrightarrow> k < c \<and> c < 64"
proof -
  have e: "kAllBitsButLsb64 = kAllBits64 - 1" by (simp add: kAllBitsButLsb64_def kAllBits64_def)
  show ?thesis unfolding e by (simp only: bit_push_bit_iff bit_all possible_bit_word) auto
qed

lemma bit_splice:
  fixes v w :: int64 and p :: nat
  assumes "x < 64"
  defines "m \<equiv> push_bit p kAllBitsButLsb64"
  shows "bit ((v AND NOT m) OR (m AND w)) x \<longleftrightarrow> (if x \<le> p then bit v x else bit w x)"
proof -
  have "bit m x \<longleftrightarrow> p < x" unfolding m_def bit_ButLsb using assms(1) by blast
  moreover have "possible_bit TYPE(int64) x" using assms(1) by simp
  ultimately show ?thesis by (simp only: bit_or_iff bit_and_iff bit_not_iff) auto
qed

lemma wf_last_bucket:
  assumes "wf_bitset b" and "bs_data b \<noteq> []"
  shows "0 < unat (bs_size b)" "unat (bs_size b - 1) = unat (bs_size b) - 1"
    "length (bs_data b) - 1 = (unat (bs_size b) - 1) div 64" "Bitset64_Value (bs_size b - 1) = Inr (bs_size b - 1)"
proof -
  have len: "length (bs_data b) = (unat (bs_size b) + 63) div 64" "unat (bs_size b) < 2 ^ 63"
    using assms(1) by (simp_all add: wf_bitset_def)
  show pos: "0 < unat (bs_size b)" using assms(2) len(1) by (cases "unat (bs_size b)") auto
  then show pred: "unat (bs_size b - 1) = unat (bs_size b) - 1" by (simp add: unat_minus_one unat_gt_0)
  have "unat (bs_size b) + 63 = unat (bs_size b) - 1 + 1 * 64" using pos by simp
  then show "length (bs_data b) - 1 = (unat (bs_size b) - 1) div 64" unfolding len(1) by simp
  have "unat (bs_size b - 1) < 2 ^ 63" using len(2) by (simp add: pred)
  then show "Bitset64_Value (bs_size b - 1) = Inr (bs_size b - 1)"
    by (simp add: Bitset64_Value_def nonneg_size(1))
qed

lemma CopyBucket_ok:
  assumes "wf_bitset b" "wf_bitset c" "valid_pos b i" "valid_pos c i"
  shows "\<exists>b'. Bitset64_CopyBucket b c i = Inr b' \<and> wf_bitset b' \<and> bs_size b' = bs_size b
    \<and> (\<forall>n. n \<in> bits_of b' \<longleftrightarrow> n \<in> (if n div 64 = unat i div 64 then bits_of c else bits_of b))"
proof -
  have "unat i < 2 ^ 63" using assms(1,3) by (simp add: wf_bitset_def valid_pos_def)
  then have v: "Bitset64_Value i = Inr i" by (simp add: Bitset64_Value_def nonneg_size(1))
  note k = valid_pos_bucket [OF assms(1,3)] valid_pos_bucket [OF assms(2,4)]
  let ?b = "b\<lparr>bs_data := (bs_data b)[unat i div 64 := bs_data c ! (unat i div 64)]\<rparr>"
  have "Bitset64_CopyBucket b c i = Inr ?b"
    using k by (simp add: Bitset64_CopyBucket_def v bucket_at_def bucket_put_def vec_at_def vec_put_def)
  moreover have "wf_bitset ?b" using assms(1) by (simp add: wf_bitset_def)
  ultimately show ?thesis using k by (auto simp: in_bits_of nth_list_update)
qed

lemma SetContentFromBitset_ok:
  assumes wf: "wf_bitset b" "wf_bitset c"
  shows "\<exists>b'. Bitset64_SetContentFromBitset b c = Inr b' \<and> wf_bitset b' \<and> bs_size b' = bs_size b
    \<and> bits_of b' = (if length (bs_data c) \<le> length (bs_data b)
        then {n. if n < unat (bs_size c) then n \<in> bits_of c else n \<in> bits_of b}
        else bits_of c \<inter> {..<64 * length (bs_data b)})"
proof (cases "min (length (bs_data b)) (length (bs_data c)) = 0")
  case True
  have "bits_of b = {}" if "bs_data b = []" using that by (auto simp: in_bits_of)
  moreover have "unat (bs_size c) = 0" if "bs_data c = []" using that wf(2) by (auto simp: wf_bitset_def)
  ultimately show ?thesis using True wf by (auto simp: Bitset64_SetContentFromBitset_def min_def split: if_splits)
next
  case False
  then have ne: "bs_data b \<noteq> []" "bs_data c \<noteq> []" by auto
  note c = wf_last_bucket [OF wf(2) ne(2)]
  show ?thesis
  proof (cases "length (bs_data c) \<le> length (bs_data b)")
    case True
    let ?m = "length (bs_data c)" and ?p = "(unat (bs_size c) - 1) mod 64"
    let ?d = "bs_data c @ drop ?m (bs_data b)"
    let ?w = "(?d ! (?m - 1) AND NOT (push_bit ?p kAllBitsButLsb64)) OR
        (push_bit ?p kAllBitsButLsb64 AND bs_data b ! (?m - 1))"
    let ?b = "b\<lparr>bs_data := ?d[?m - 1 := ?w]\<rparr>"
    have run: "Bitset64_SetContentFromBitset b c = Inr ?b"
      using True ne by (simp add: Bitset64_SetContentFromBitset_def Let_def min_absorb2 c(2,4))
    have "wf_bitset ?b" using wf(1) True by (simp add: wf_bitset_def)
    have "n \<in> bits_of ?b \<longleftrightarrow> (if n < unat (bs_size c) then n \<in> bits_of c else n \<in> bits_of b)" for n
    proof (cases "n div 64" "?m - 1" rule: linorder_cases)
      case less
      then have "n div 64 < (unat (bs_size c) - 1) div 64" by (simp only: c(3))
      then have "n < unat (bs_size c)" using div_le_mono [of "unat (bs_size c) - 1" n 64] c(1) by linarith
      moreover have "n div 64 < ?m" using less by simp
      ultimately show ?thesis using less True by (simp add: in_bits_of nth_append)
    next
      case equal
      have "n < unat (bs_size c) \<longleftrightarrow> n mod 64 \<le> ?p"
        using equal c(1,3) div_mult_mod_eq [of n 64] div_mult_mod_eq [of "unat (bs_size c) - 1" 64] by linarith
      moreover have m: "?m - 1 < ?m" "?m - 1 < length (bs_data b)"
        using True ne(2) by (simp_all add: less_le_trans [of _ ?m])
      have old: "?d ! (?m - 1) = bs_data c ! (?m - 1)" using m by (simp add: nth_append)
      have "bit ?w (n mod 64) \<longleftrightarrow>
          (if n mod 64 \<le> ?p then bit (bs_data c ! (?m - 1)) (n mod 64) else bit (bs_data b ! (?m - 1)) (n mod 64))"
        unfolding old by (rule bit_splice) simp
      moreover have "bs_data ?b ! (?m - 1) = ?w" "length (bs_data ?b) = length (bs_data b)"
        using True m by simp_all
      ultimately show ?thesis
        unfolding in_bits_of equal using m by (simp only: if_True if_False split: if_split) blast
    next
      case greater
      then have "(unat (bs_size c) - 1) div 64 < n div 64" by (simp only: c(3))
      then have "\<not> n < unat (bs_size c)" using div_le_mono [of n "unat (bs_size c) - 1" 64] by linarith
      with greater True ne(2) show ?thesis by (auto simp: in_bits_of nth_append)
    qed
    then have bits: "bits_of ?b = {n. if n < unat (bs_size c) then n \<in> bits_of c else n \<in> bits_of b}" by blast
    show ?thesis
      by (intro exI [of _ ?b] conjI run \<open>wf_bitset ?b\<close>) (simp_all only: bits True if_True bitset.select_convs bitset.update_convs, simp)
  next
    case less: False
    let ?b = "b\<lparr>bs_data := take (length (bs_data b)) (bs_data c)\<rparr>"
    have "Bitset64_SetContentFromBitset b c = Inr ?b"
      using less ne by (simp add: Bitset64_SetContentFromBitset_def Let_def min_absorb1)
    moreover have "wf_bitset ?b" using wf(1) less by (simp add: wf_bitset_def)
    moreover have "bits_of ?b = bits_of c \<inter> {..<64 * length (bs_data b)}"
      using less by (auto simp: in_bits_of div_less_iff_less_mult mult.commute)
    ultimately show ?thesis using less by auto
  qed
qed

lemma SetContentFromBitsetOfSameSize_ok:
  assumes "wf_bitset b" "wf_bitset c" "bs_size b = bs_size c"
  shows "Bitset64_SetContentFromBitsetOfSameSize b c = Inr c"
proof -
  have "length (bs_data b) = length (bs_data c)" using assms by (simp add: wf_bitset_def)
  with assms(3) show ?thesis by (simp add: Bitset64_SetContentFromBitsetOfSameSize_def)
qed

lemma bit_use: "u = 0 \<or> u = 1 \<Longrightarrow> bit (push_bit p (u :: int64)) c \<longleftrightarrow> u = 1 \<and> c = p \<and> c < 64"
  by (auto simp: bit_exp_iff)

lemma SetBitFromOtherBitSets_ok:
  assumes wf: "wf_bitset b" "wf_bitset c" "wf_bitset c'" and v: "valid_pos b i"
    and len: "length (bs_data b) = length (bs_data c)" "length (bs_data b) = length (bs_data c')"
    and use: "u = 0 \<or> u = 1" "u' = 0 \<or> u' = 1" and small: "length (bs_data b) < 2 ^ 31"
  shows "\<exists>b'. Bitset64_SetBitFromOtherBitSets b i c u c' u' = Inr b' \<and> wf_bitset b' \<and> bs_size b' = bs_size b
    \<and> (\<forall>n. n \<in> bits_of b' \<longleftrightarrow>
        (if n = unat i then (n \<in> bits_of c \<and> u = 1) \<noteq> (n \<in> bits_of c' \<and> u' = 1) else n \<in> bits_of b))"
proof -
  have "unat i < 2 ^ 63" using wf(1) v by (simp add: wf_bitset_def valid_pos_def)
  then have val: "Bitset64_Value i = Inr i" by (simp add: Bitset64_Value_def nonneg_size(1))
  note k = valid_pos_bucket [OF wf(1) v]
  let ?k = "unat i div 64" and ?p = "unat i mod 64"
  let ?w = "bs_data b ! ?k XOR ((push_bit ?p 1 AND bs_data b ! ?k) XOR (push_bit ?p u AND bs_data c ! ?k)
      XOR (push_bit ?p u' AND bs_data c' ! ?k))"
  let ?b = "b\<lparr>bs_data := (bs_data b)[?k := ?w]\<rparr>"
  have bucket: "(ucast (BitOffset64 i) :: int32) = of_nat ?k" by (simp only: ucast_int unat_BitOffset64)
  have at: "word_at d (ucast (BitOffset64 i) :: int32) = Inr (d ! ?k)" if "length d = length (bs_data b)" for d :: "int64 list"
    unfolding bucket using k small that by (intro word_at_nat) simp_all
  have "unat (ucast (BitOffset64 i) :: int32) = ?k"
    unfolding bucket using k small by (simp add: unsigned_of_nat take_bit_nat_eq_self)
  then have run: "Bitset64_SetBitFromOtherBitSets b i c u c' u' = Inr ?b"
    using len use by (simp add: Bitset64_SetBitFromOtherBitSets_def Let_def val at)
  have "n \<in> bits_of ?b \<longleftrightarrow>
      (if n = unat i then (n \<in> bits_of c \<and> u = 1) \<noteq> (n \<in> bits_of c' \<and> u' = 1) else n \<in> bits_of b)" for n
  proof (cases "n div 64 = ?k")
    case True
    then have "n = unat i \<longleftrightarrow> n mod 64 = ?p" by (metis div_mult_mod_eq)
    with True k len show ?thesis
      by (auto simp: in_bits_of bit_xor_iff bit_and_iff bit_use use bit_exp_iff)
  next
    case False
    then show ?thesis by (auto simp: in_bits_of)
  qed
  moreover have "wf_bitset ?b" using wf(1) by (simp add: wf_bitset_def)
  ultimately show ?thesis using run by auto
qed

lemma DebugString_ok:
  assumes wf: "wf_bitset b"
  shows "Bitset64_DebugString b = Inr (map (\<lambda>i. if i \<in> bits_of b then CHR ''1'' else CHR ''0'') [0..<unat (bs_size b)])"
proof -
  have size: "unat (bs_size b) < 2 ^ 63" using wf by (simp add: wf_bitset_def)
  have "foldR (\<lambda>i out. andThen (Bitset64_IsSet b i) (\<lambda>v. Inr (out @ (if v then ''1'' else ''0''))))
      (map of_nat is) out = Inr (out @ map (\<lambda>i. if i \<in> bits_of b then CHR ''1'' else CHR ''0'') is)"
    if "\<forall>i \<in> set is. i < unat (bs_size b)" for "is" out
    using that
  proof (induction "is" arbitrary: out)
    case (Cons i "is")
    then have u: "unat (of_nat i :: int64) = i" using size by (simp add: unsigned_of_nat take_bit_nat_eq_self)
    then have "valid_pos b (of_nat i)" using Cons.prems by (simp add: valid_pos_def)
    from Bitset64_IsSet_content [OF wf this] Cons u show ?case by simp
  qed simp
  then show ?thesis using size by (simp add: Bitset64_DebugString_def sint_small)
qed

text \<open>
  Copying from another set takes the bits below its size from it and keeps the others; combining the
  bits of two sets at a position writes the exclusive or of the ones in use there and keeps the rest;
  the printed form shows exactly the content.
\<close>

theorem bitset_copies:
  assumes "wf_bitset b" "wf_bitset c" "wf_bitset c'"
  shows "\<exists>b'. Bitset64_SetContentFromBitset b c = Inr b' \<and> wf_bitset b' \<and> bs_size b' = bs_size b
      \<and> bits_of b' = (if length (bs_data c) \<le> length (bs_data b)
          then {n. if n < unat (bs_size c) then n \<in> bits_of c else n \<in> bits_of b}
          else bits_of c \<inter> {..<64 * length (bs_data b)})"
    and "bs_size b = bs_size c \<longrightarrow> Bitset64_SetContentFromBitsetOfSameSize b c = Inr c"
    and "valid_pos b i \<and> length (bs_data b) = length (bs_data c) \<and> length (bs_data b) = length (bs_data c')
      \<and> u \<in> {0, 1} \<and> u' \<in> {0, 1} \<and> length (bs_data b) < 2 ^ 31 \<longrightarrow>
      (\<exists>b'. Bitset64_SetBitFromOtherBitSets b i c u c' u' = Inr b' \<and> wf_bitset b' \<and> bs_size b' = bs_size b
        \<and> (\<forall>n. n \<in> bits_of b' \<longleftrightarrow>
            (if n = unat i then (n \<in> bits_of c \<and> u = 1) \<noteq> (n \<in> bits_of c' \<and> u' = 1) else n \<in> bits_of b)))"
    and "Bitset64_DebugString b
      = Inr (map (\<lambda>i. if i \<in> bits_of b then CHR ''1'' else CHR ''0'') [0..<unat (bs_size b)])"
proof -
  show "\<exists>b'. Bitset64_SetContentFromBitset b c = Inr b' \<and> wf_bitset b' \<and> bs_size b' = bs_size b
      \<and> bits_of b' = (if length (bs_data c) \<le> length (bs_data b)
          then {n. if n < unat (bs_size c) then n \<in> bits_of c else n \<in> bits_of b}
          else bits_of c \<inter> {..<64 * length (bs_data b)})"
    by (rule SetContentFromBitset_ok [OF assms(1,2)])
  show "bs_size b = bs_size c \<longrightarrow> Bitset64_SetContentFromBitsetOfSameSize b c = Inr c"
    using SetContentFromBitsetOfSameSize_ok [OF assms(1,2)] by blast
  show "valid_pos b i \<and> length (bs_data b) = length (bs_data c) \<and> length (bs_data b) = length (bs_data c')
      \<and> u \<in> {0, 1} \<and> u' \<in> {0, 1} \<and> length (bs_data b) < 2 ^ 31 \<longrightarrow>
      (\<exists>b'. Bitset64_SetBitFromOtherBitSets b i c u c' u' = Inr b' \<and> wf_bitset b' \<and> bs_size b' = bs_size b
        \<and> (\<forall>n. n \<in> bits_of b' \<longleftrightarrow>
            (if n = unat i then (n \<in> bits_of c \<and> u = 1) \<noteq> (n \<in> bits_of c' \<and> u' = 1) else n \<in> bits_of b)))"
    using SetBitFromOtherBitSets_ok [OF assms] by auto
  show "Bitset64_DebugString b
      = Inr (map (\<lambda>i. if i \<in> bits_of b then CHR ''1'' else CHR ''0'') [0..<unat (bs_size b)])"
    by (rule DebugString_ok [OF assms(1)])
qed

lemma bitset_copies_witness:
  "Bitset64_DebugString \<lparr>bs_size = 4, bs_data = [5]\<rparr> = Inr ''1010''
   \<and> bits_of \<lparr>bs_size = 4, bs_data = [5]\<rparr> \<inter> {..<4} = {0, 2}
   \<and> Bitset64_SetContentFromBitset \<lparr>bs_size = 4, bs_data = [8]\<rparr> \<lparr>bs_size = 3, bs_data = [5]\<rparr>
       = Inr \<lparr>bs_size = 4, bs_data = [13]\<rparr>"
proof -
  have "Bitset64_DebugString \<lparr>bs_size = 4, bs_data = [5]\<rparr> = Inr ''1010''"
    "Bitset64_SetContentFromBitset \<lparr>bs_size = 4, bs_data = [8]\<rparr> \<lparr>bs_size = 3, bs_data = [5]\<rparr>
       = Inr \<lparr>bs_size = 4, bs_data = [13]\<rparr>"
    by code_simp+
  moreover have wf: "wf_bitset \<lparr>bs_size = 4, bs_data = [5]\<rparr>" by (simp add: wf_bitset_def)
  ultimately show ?thesis
    using bitset_copies(4) [OF wf wf wf] by (auto simp: upt_rec numeral_eq_Suc lessThan_Suc split: if_splits)
qed

end
