(* ===== verification/Bit_Queues.thy ===== *)
theory Bit_Queues
  imports Bitset_Iteration
begin

text \<open>
  The class \<open>BitQueue64\<close> of \<open>include/cosy/Bitset.h\<close>, a set of positions with its largest element at
  hand. The abstract specification is a finite set: \<open>Set\<close> inserts, \<open>Top\<close> is the maximum and \<open>ClearTop\<close>
  removes it. The locale \<open>max_queue\<close> states that contract and is interpreted on the class.
\<close>

unbundle bit_operations_syntax

section \<open>Operations\<close>

record bit_queue =
  bq_size :: int32
  bq_top :: int32
  bq_data :: "int64 list"

definition BitQueue64_empty :: bit_queue where
  "BitQueue64_empty = \<lparr>bq_size = 0, bq_top = - 1, bq_data = []\<rparr>"

definition BitQueue64_new :: "int32 \<Rightarrow> bit_queue" where
  "BitQueue64_new sz = \<lparr>bq_size = sz, bq_top = - 1, bq_data = replicate (unat (BitLength64 (scast sz))) 0\<rparr>"

definition BitQueue64_IncreaseSize :: "bit_queue \<Rightarrow> int32 \<Rightarrow> bit_queue result" where
  "BitQueue64_IncreaseSize q sz =
     check (bq_size q \<le>s sz)
       (Inr (q\<lparr>bq_size := sz, bq_data := vec_resize (bq_data q) (unat (BitLength64 (scast sz))) 0\<rparr>))"

definition BitQueue64_ClearAndResize :: "bit_queue \<Rightarrow> int32 \<Rightarrow> bit_queue" where
  "BitQueue64_ClearAndResize q sz =
     q\<lparr>bq_top := - 1, bq_size := sz, bq_data := replicate (unat (BitLength64 (scast sz))) 0\<rparr>"

definition BitQueue64_Set :: "bit_queue \<Rightarrow> int32 \<Rightarrow> bit_queue result" where
  "BitQueue64_Set q i =
     check (0 \<le>s i) (check (i <s bq_size q)
       (andThen (SetBit64 (bq_data q) (scast i)) (\<lambda>d.
          Inr (q\<lparr>bq_top := (if bq_top q <s i then i else bq_top q), bq_data := d\<rparr>))))"

definition BitQueue64_Top :: "bit_queue \<Rightarrow> int32" where
  "BitQueue64_Top q = bq_top q"

text \<open>The loop \<open>while (!bucket)\<close> of \<open>ClearTop\<close> goes down to the bucket 0.\<close>

definition BitQueue64_ClearTop :: "bit_queue \<Rightarrow> bit_queue result" where
  "BitQueue64_ClearTop q =
     check (bq_top q \<noteq> - 1)
       (let bucket_index = ucast (BitOffset64 (scast (bq_top q))) :: int32 in
        andThen (ClearBit64 (bq_data q) (scast (bq_top q))) (\<lambda>d.
        andThen (word_at d bucket_index) (\<lambda>bucket.
        if bucket \<noteq> 0 then
          Inr (q\<lparr>bq_data := d,
            bq_top := ucast (BitShift64 (scast bucket_index)) + MostSignificantBitPosition64 bucket\<rparr>)
        else andThen (first_word d (rev (int_range 0 bucket_index))) (\<lambda>found.
          case found of
            None \<Rightarrow> Inr (q\<lparr>bq_data := d, bq_top := - 1\<rparr>)
          | Some (i, w) \<Rightarrow> Inr (q\<lparr>bq_data := d,
              bq_top := ucast (BitShift64 (scast i)) + MostSignificantBitPosition64 w\<rparr>)))))"

section \<open>Sets with a maximum\<close>

locale max_queue =
  fixes inv :: "'q \<Rightarrow> bool" and content :: "'q \<Rightarrow> nat set" and room :: "'q \<Rightarrow> nat"
    and put :: "'q \<Rightarrow> nat \<Rightarrow> 'q result" and top :: "'q \<Rightarrow> nat option" and clear_top :: "'q \<Rightarrow> 'q result"
  assumes content_room: "inv q \<Longrightarrow> content q \<subseteq> {..<room q}"
    and put: "inv q \<Longrightarrow> i < room q \<Longrightarrow> \<exists>q'. put q i = Inr q' \<and> inv q' \<and> room q' = room q
        \<and> content q' = insert i (content q)"
    and top: "inv q \<Longrightarrow> top q = (if content q = {} then None else Some (Max (content q)))"
    and clear_top: "inv q \<Longrightarrow> content q \<noteq> {} \<Longrightarrow> \<exists>q'. clear_top q = Inr q' \<and> inv q' \<and> room q' = room q
        \<and> content q' = content q - {Max (content q)}"
begin

lemma finite_content: "inv q \<Longrightarrow> finite (content q)"
  using content_room finite_subset by blast

text \<open>Clearing the top until nothing is left yields the content in decreasing order.\<close>

fun drain :: "nat \<Rightarrow> 'q \<Rightarrow> nat list result" where
  "drain 0 q = Inr []"
| "drain (Suc n) q = (case top q of None \<Rightarrow> Inr []
     | Some k \<Rightarrow> andThen (clear_top q) (\<lambda>q'. andThen (drain n q') (\<lambda>ks. Inr (k # ks))))"

lemma drain_ok:
  "inv q \<Longrightarrow> card (content q) \<le> n \<Longrightarrow> drain n q = Inr (rev (sorted_list_of_set (content q)))"
proof (induction n arbitrary: q)
  case 0
  then show ?case using finite_content by simp
next
  case (Suc n)
  note fin = finite_content [OF Suc.prems(1)]
  show ?case
  proof (cases "content q = {}")
    case False
    obtain q' where q': "clear_top q = Inr q'" "inv q'" "content q' = content q - {Max (content q)}"
      using clear_top [OF Suc.prems(1) False] by blast
    have card: "card (content q') \<le> n" using Suc.prems(2) fin False by (simp add: q'(3))
    have "sorted_list_of_set (content q) = sorted_list_of_set (content q') @ [Max (content q)]"
    proof -
      have "content q = insert (Max (content q)) (content q')" using Max_in [OF fin False] by (auto simp: q'(3))
      moreover have "\<forall>x \<in> content q'. x < Max (content q)"
        using fin by (auto simp: q'(3) less_le)
      moreover have "finite (content q')" using fin by (simp add: q'(3))
      ultimately show ?thesis
        using fin by (intro sorted_distinct_set_unique) (auto simp: sorted_append less_imp_le)
    qed
    then show ?thesis using Suc.IH [OF q'(2) card] False by (simp add: top [OF Suc.prems(1)] q'(1))
  qed (simp add: top [OF Suc.prems(1)])
qed

end

section \<open>The class is an instance\<close>

definition queue_content :: "bit_queue \<Rightarrow> nat set" where
  "queue_content q = {n. arr_bit (bq_data q) n}"

definition queue_room :: "bit_queue \<Rightarrow> nat" where
  "queue_room q = unat (bq_size q)"

definition queue_inv :: "bit_queue \<Rightarrow> bool" where
  "queue_inv q \<longleftrightarrow> queue_room q < 2 ^ 31 \<and> length (bq_data q) = (queue_room q + 63) div 64
     \<and> queue_content q \<subseteq> {..<queue_room q}
     \<and> bq_top q = (if queue_content q = {} then - 1 else of_nat (Max (queue_content q)))"

definition queue_put :: "bit_queue \<Rightarrow> nat \<Rightarrow> bit_queue result" where
  "queue_put q i = BitQueue64_Set q (of_nat i)"

definition queue_top :: "bit_queue \<Rightarrow> nat option" where
  "queue_top q = (if BitQueue64_Top q = - 1 then None else Some (unat (BitQueue64_Top q)))"

lemma queue_finite: "queue_inv q \<Longrightarrow> finite (queue_content q)"
  unfolding queue_inv_def using finite_subset by blast

lemma arr_bit_64: "arr_bit (d :: int64 list) n \<longleftrightarrow> n div 64 < length d \<and> bit (d ! (n div 64)) (n mod 64)"
  by (auto simp: arr_bit_def div_less_iff_less_mult mult.commute)

lemma same_word_bit: "(m :: nat) div 64 = n div 64 \<Longrightarrow> m mod 64 = n mod 64 \<longleftrightarrow> m = n"
  by (metis div_mult_mod_eq)

lemma SetBit64_ok:
  assumes "unat pos div 64 < length d"
  shows "\<exists>d'. SetBit64 d pos = Inr d' \<and> length d' = length d \<and> (\<forall>n. arr_bit d' n \<longleftrightarrow> n = unat pos \<or> arr_bit d n)"
proof -
  let ?k = "unat pos div 64"
  let ?d = "d[?k := d ! ?k OR OneBit64 (ucast (BitPos64 pos))]"
  have "arr_bit ?d n \<longleftrightarrow> n = unat pos \<or> arr_bit d n" for n
    using assms same_word_bit [of n "unat pos"] by (auto simp: arr_bit_64 nth_list_update bit_or_iff)
  then show ?thesis using assms by (simp add: SetBit64_def vec_at_def vec_put_def)
qed

lemma ClearBit64_ok:
  assumes "unat pos div 64 < length d"
  shows "\<exists>d'. ClearBit64 d pos = Inr d' \<and> length d' = length d \<and> (\<forall>n. arr_bit d' n \<longleftrightarrow> n \<noteq> unat pos \<and> arr_bit d n)"
proof -
  let ?k = "unat pos div 64"
  let ?d = "d[?k := d ! ?k AND NOT (OneBit64 (ucast (BitPos64 pos)))]"
  have "arr_bit ?d n \<longleftrightarrow> n \<noteq> unat pos \<and> arr_bit d n" for n
    using assms same_word_bit [of n "unat pos"]
    by (auto simp: arr_bit_64 nth_list_update bit_and_iff bit_not_iff)
  then show ?thesis using assms by (simp add: ClearBit64_def vec_at_def vec_put_def)
qed

lemma unat_int_arg: "i < 2 ^ 31 \<Longrightarrow> unat (scast (of_nat i :: int32) :: int64) = i"
  by (simp add: scast_small unsigned_of_nat take_bit_nat_eq_self)

lemma of_nat_not_minus1: "i < 2 ^ 31 \<Longrightarrow> (of_nat i :: int32) \<noteq> - 1"
  using sint_small_nat [of i] by auto

lemma queue_top_small:
  assumes "queue_inv q" "queue_content q \<noteq> {}"
  shows "Max (queue_content q) < 2 ^ 31" "Max (queue_content q) \<in> queue_content q"
    "Max (queue_content q) div 64 < length (bq_data q)"
proof -
  show max: "Max (queue_content q) \<in> queue_content q" by (rule Max_in [OF queue_finite [OF assms(1)] assms(2)])
  then show "Max (queue_content q) < 2 ^ 31" using assms(1) by (force simp: queue_inv_def)
  show "Max (queue_content q) div 64 < length (bq_data q)"
    using max by (simp add: queue_content_def arr_bit_64)
qed

lemma queue_top_ok:
  assumes inv: "queue_inv q"
  shows "queue_top q = (if queue_content q = {} then None else Some (Max (queue_content q)))"
proof (cases "queue_content q = {}")
  case True
  then show ?thesis using inv by (simp add: queue_top_def BitQueue64_Top_def queue_inv_def)
next
  case False
  note m = queue_top_small [OF inv False]
  have "bq_top q = of_nat (Max (queue_content q))" using inv False by (simp add: queue_inv_def)
  moreover have "unat (of_nat (Max (queue_content q)) :: int32) = Max (queue_content q)"
    using m(1) by (simp add: unsigned_of_nat take_bit_nat_eq_self)
  ultimately show ?thesis
    using False of_nat_not_minus1 [OF m(1)] by (simp add: queue_top_def BitQueue64_Top_def)
qed

lemma queue_put_ok:
  assumes inv: "queue_inv q" and i: "i < queue_room q"
  shows "\<exists>q'. queue_put q i = Inr q' \<and> queue_inv q' \<and> queue_room q' = queue_room q
    \<and> queue_content q' = insert i (queue_content q)"
proof -
  have room: "queue_room q < 2 ^ 31" "length (bq_data q) = (queue_room q + 63) div 64"
    and top: "bq_top q = (if queue_content q = {} then - 1 else of_nat (Max (queue_content q)))"
    using inv by (auto simp: queue_inv_def)
  have i31: "i < 2 ^ 31" using i room by simp
  have "i div 64 < length (bq_data q)" using i unfolding room(2) by arith
  then obtain d where d: "SetBit64 (bq_data q) (scast (of_nat i :: int32)) = Inr d"
      "length d = length (bq_data q)" "\<And>n. arr_bit d n \<longleftrightarrow> n = i \<or> arr_bit (bq_data q) n"
    using SetBit64_ok [of "scast (of_nat i :: int32)" "bq_data q"] unat_int_arg [OF i31] by auto
  let ?q = "q\<lparr>bq_top := (if bq_top q <s of_nat i then of_nat i else bq_top q), bq_data := d\<rparr>"
  have content: "queue_content ?q = insert i (queue_content q)"
    using d(3) by (auto simp: queue_content_def)
  have "sint (bq_size q) = int (queue_room q)"
    using sint_small_nat [OF room(1)] by (simp add: queue_room_def)
  then have run: "queue_put q i = Inr ?q"
    using sint_small_nat [OF i31] i
    by (simp add: queue_put_def BitQueue64_Set_def word_sle_eq word_sless_alt d(1))
  have "bq_top ?q = of_nat (Max (insert i (queue_content q)))"
  proof (cases "queue_content q = {}")
    case True
    then show ?thesis using sint_small_nat [OF i31] by (simp add: top word_sless_alt)
  next
    case False
    note max = queue_top_small [OF inv False]
    have "bq_top q <s of_nat i \<longleftrightarrow> Max (queue_content q) < i"
      using sint_small_nat [OF i31] sint_small_nat [OF max(1)] False by (simp add: top word_sless_alt)
    moreover have "Max (insert i (queue_content q)) = max i (Max (queue_content q))"
      using False queue_finite [OF inv] by simp
    ultimately show ?thesis using False by (simp only: top if_False bit_queue.simps max_def) simp
  qed
  then have "queue_inv ?q"
    using inv i unfolding queue_inv_def content by (simp add: queue_room_def d(2))
  with run content show ?thesis by (auto simp: queue_room_def)
qed

lemma queue_bucket:
  assumes "m < 2 ^ 31"
  shows "(ucast (BitOffset64 (scast (of_nat m :: int32))) :: int32) = of_nat (m div 64)"
  using unat_int_arg [OF assms] by (simp only: ucast_int unat_BitOffset64)

lemma last_in_Max: "last_in P 0 hi k \<Longrightarrow> {n. P n} \<subseteq> {..hi} \<Longrightarrow> k = Max {n. P n}"
  by (intro Max_eqI [symmetric]) (auto simp: last_in_def intro: finite_subset, metis atMost_iff linorder_not_le mem_Collect_eq subsetD)

lemma whole_last:
  "d \<noteq> [] \<Longrightarrow> last_pos d div 64 = length d - 1" "arr_bit d n \<Longrightarrow> n \<le> last_pos d"
proof -
  assume "d \<noteq> []"
  then have "last_pos d = 63 + 64 * (length d - 1)" by (cases d) (simp_all add: last_pos_def)
  then show "last_pos d div 64 = length d - 1" by simp
qed (auto simp: arr_bit_def last_pos_def)

text \<open>The highest bit of the highest word that is not zero is the maximum.\<close>

lemma highest_word:
  fixes d :: "int64 list"
  assumes j: "j < length d" "d ! j \<noteq> 0" and above: "\<forall>i. j < i \<and> i < length d \<longrightarrow> d ! i = 0"
    and small: "length d \<le> 2 ^ 25"
  shows "ucast (BitShift64 (scast (of_nat j :: int32))) + MostSignificantBitPosition64 (d ! j)
      = (of_nat (Max {n. arr_bit d n}) :: int32)"
proof -
  have ne: "d \<noteq> []" using j(1) by auto
  have word: "d ! i = active d 0 (last_pos d) i" if "i < length d" for i
    using that by (intro whole_word) simp_all
  obtain k where k: "is_msb (d ! j) k" using ex_is_msb [OF j(2)] ..
  have "last_in (arr_bit d) 0 (last_pos d) (j * LENGTH(64) + k)"
  proof (rule last_active)
    show "\<forall>i. j < i \<and> i \<le> last_pos d div LENGTH(64) \<longrightarrow> active d 0 (last_pos d) i = 0"
    proof (intro allI impI)
      fix i assume i: "j < i \<and> i \<le> last_pos d div LENGTH(64)"
      then have "i < length d" using ne by (cases d) (simp_all add: whole_last(1))
      then show "active d 0 (last_pos d) i = 0" using above i word by auto
    qed
  qed (use ne k j word [of j] in \<open>auto simp: whole_last(1)\<close>)
  then have "last_in (arr_bit d) 0 (last_pos d) (j * 64 + k)" by simp
  then have max: "j * 64 + k = Max {n. arr_bit d n}" by (rule last_in_Max) (auto dest: whole_last(2))
  have "64 * j < 2 ^ 31" using j(1) small by simp
  moreover have "MostSignificantBitPosition64 (d ! j) = of_nat k"
    by (simp add: MostSignificantBitPosition64_def msb_fast_ok(1) [OF k])
  ultimately show ?thesis unfolding max [symmetric] by (simp only: bucket_base) simp
qed

lemma queue_clear_ok:
  assumes inv: "queue_inv q" and ne: "queue_content q \<noteq> {}"
  shows "\<exists>q'. BitQueue64_ClearTop q = Inr q' \<and> queue_inv q' \<and> queue_room q' = queue_room q
    \<and> queue_content q' = queue_content q - {Max (queue_content q)}"
proof -
  define m where "m = Max (queue_content q)"
  note top = queue_top_small [OF inv ne, folded m_def]
  have room: "queue_room q < 2 ^ 31" "length (bq_data q) = (queue_room q + 63) div 64"
    and bqtop: "bq_top q = of_nat m" using inv ne by (auto simp: queue_inv_def m_def)
  have small: "length (bq_data q) \<le> 2 ^ 25" using room by simp
  obtain d where d: "ClearBit64 (bq_data q) (scast (of_nat m :: int32)) = Inr d" "length d = length (bq_data q)"
      "\<And>n. arr_bit d n \<longleftrightarrow> n \<noteq> m \<and> arr_bit (bq_data q) n"
    using ClearBit64_ok [of "scast (of_nat m :: int32)" "bq_data q"] top(3) unat_int_arg [OF top(1)] by auto
  have content: "{n. arr_bit d n} = queue_content q - {m}" using d(3) by (auto simp: queue_content_def)
  let ?j = "m div 64"
  have above: "d ! i = 0" if "?j < i" "i < length d" for i
  proof (rule ccontr)
    assume "d ! i \<noteq> 0"
    then obtain b where "b < 64" "bit (d ! i) b" by (auto simp: word_neq_0_bit)
    then have "arr_bit d (i * 64 + b)" using that arr_bit_split [of i d b] by simp
    then have "i * 64 + b \<in> queue_content q" using content by auto
    then have "i * 64 + b \<le> m" unfolding m_def by (rule Max_ge [OF queue_finite [OF inv]])
    with that(1) show False by simp
  qed
  define t where "t = (if queue_content q - {m} = {} then - 1 else of_nat (Max (queue_content q - {m})) :: int32)"
  have word_j: "word_at d (of_nat ?j) = Inr (d ! ?j)"
    using top(3) small d(2) by (intro word_at_nat) simp_all
  have "BitQueue64_ClearTop q = Inr (q\<lparr>bq_data := d, bq_top := t\<rparr>)"
  proof (cases "d ! ?j = 0")
    case False
    then have "queue_content q - {m} \<noteq> {}"
      using top(3) d(2) content arr_bit_split [of ?j d] by (auto simp: word_neq_0_bit)
    then have "ucast (BitShift64 (scast (of_nat ?j :: int32))) + MostSignificantBitPosition64 (d ! ?j) = t"
      using highest_word [of ?j d] above False top(3) d(2) small unfolding t_def content by simp
    then show ?thesis
      using False of_nat_not_minus1 [OF top(1)]
      by (simp add: BitQueue64_ClearTop_def bqtop queue_bucket [OF top(1)] d(1) word_j)
  next
    case True
    have range: "int_range 0 (of_nat ?j) = map of_nat [0..<?j]"
      using int_range_nat [of 0 ?j] top(1) by simp
    have run: "BitQueue64_ClearTop q = (case List.find (\<lambda>i. d ! i \<noteq> 0) (rev [0..<?j]) of
        None \<Rightarrow> Inr (q\<lparr>bq_data := d, bq_top := - 1\<rparr>)
      | Some i \<Rightarrow> Inr (q\<lparr>bq_data := d, bq_top := ucast (BitShift64 (scast (of_nat i :: int32))) + MostSignificantBitPosition64 (d ! i)\<rparr>))"
      using True of_nat_not_minus1 [OF top(1)] first_word_nat [of "rev [0..<?j]" d] top(3) d(2) small
      by (simp add: BitQueue64_ClearTop_def bqtop queue_bucket [OF top(1)] d(1) word_j range rev_map split: option.splits)
    show ?thesis
    proof (cases "List.find (\<lambda>i. d ! i \<noteq> 0) (rev [0..<?j])")
      case None
      then have "d ! i = 0" if "i < length d" for i
        using above [of i] True that by (cases i ?j rule: linorder_cases) (auto simp: find_None_iff)
      then have "queue_content q - {m} = {}" unfolding content [symmetric] by (auto simp: arr_bit_64)
      then show ?thesis by (simp add: run None t_def)
    next
      case (Some i)
      note i = find_rev_upt_Some [OF Some]
      have "d ! i' = 0" if "i < i'" "i' < length d" for i'
        using above [of i'] True that i by (cases i' ?j rule: linorder_cases) auto
      moreover have "i < length d" using i top(3) d(2) by simp
      ultimately have "ucast (BitShift64 (scast (of_nat i :: int32))) + MostSignificantBitPosition64 (d ! i)
          = (of_nat (Max (queue_content q - {m})) :: int32)" "queue_content q - {m} \<noteq> {}"
        using highest_word [of i d] i d(2) small arr_bit_split [of i d] unfolding content [symmetric]
        by (auto simp: word_neq_0_bit)
      then show ?thesis by (simp add: run Some t_def)
    qed
  qed
  moreover have "queue_inv (q\<lparr>bq_data := d, bq_top := t\<rparr>)"
    using inv d(2) content unfolding queue_inv_def t_def by (auto simp: queue_room_def queue_content_def)
  ultimately show ?thesis using content unfolding m_def by (auto simp: queue_room_def queue_content_def)
qed

interpretation bq: max_queue queue_inv queue_content queue_room queue_put queue_top BitQueue64_ClearTop
proof unfold_locales
  show "queue_content q \<subseteq> {..<queue_room q}" if "queue_inv q" for q
    using that by (simp add: queue_inv_def)
qed (use queue_put_ok queue_top_ok queue_clear_ok in \<open>blast+\<close>)

section \<open>Creating and resizing\<close>

lemma length_for_size:
  assumes "0 \<le>s sz"
  shows "unat (BitLength64 (scast (sz :: int32))) = (unat sz + 63) div 64" "unat sz < 2 ^ 31"
proof -
  show lt: "unat sz < 2 ^ 31" using assms by (simp add: word_sle_eq sint_nonneg_iff)
  have "unat (scast sz :: int64) = unat sz" using unat_int_arg [OF lt] by simp
  then show "unat (BitLength64 (scast sz)) = (unat sz + 63) div 64"
    using lt by (simp add: unat_BitLength64)
qed

lemma queue_new_ok:
  assumes "0 \<le>s sz"
  shows "queue_inv (BitQueue64_new sz)" "queue_content (BitQueue64_new sz) = {}" "queue_room (BitQueue64_new sz) = unat sz"
  using length_for_size [OF assms]
  by (auto simp: queue_inv_def queue_content_def queue_room_def BitQueue64_new_def arr_bit_64)

lemma queue_clear_resize_ok:
  assumes "0 \<le>s sz"
  shows "BitQueue64_ClearAndResize q sz = BitQueue64_new sz"
  by (simp add: BitQueue64_ClearAndResize_def BitQueue64_new_def)

lemma queue_increase_ok:
  assumes inv: "queue_inv q" and sz: "bq_size q \<le>s sz"
  shows "\<exists>q'. BitQueue64_IncreaseSize q sz = Inr q' \<and> queue_inv q' \<and> queue_room q' = unat sz
    \<and> queue_content q' = queue_content q"
proof -
  have room: "queue_room q < 2 ^ 31" "length (bq_data q) = (queue_room q + 63) div 64" using inv by (auto simp: queue_inv_def)
  have "sint (bq_size q) = int (queue_room q)" using sint_small_nat [OF room(1)] by (simp add: queue_room_def)
  with sz have le: "int (queue_room q) \<le> sint sz" by (simp add: word_sle_eq)
  then have "0 \<le> sint sz" by linarith
  then have pos: "0 \<le>s sz" "sint sz = int (unat sz)"
    by (simp_all add: word_sle_eq) (simp_all add: sint_nonneg_iff sint_small)
  note len = length_for_size [OF pos(1)]
  let ?q = "q\<lparr>bq_size := sz, bq_data := vec_resize (bq_data q) ((unat sz + 63) div 64) 0\<rparr>"
  have more: "queue_room q \<le> unat sz" using le unfolding pos(2) by (simp only: of_nat_le_iff)
  then have "(queue_room q + 63) div 64 \<le> (unat sz + 63) div 64" by (intro div_le_mono) simp
  then have "arr_bit (bq_data ?q) n = arr_bit (bq_data q) n" for n
    using room(2) \<open>(queue_room q + 63) div 64 \<le> (unat sz + 63) div 64\<close>
    by (auto simp: arr_bit_64 nth_vec_resize split: if_splits)
  then have content: "queue_content ?q = queue_content q" by (simp add: queue_content_def)
  have "queue_inv ?q"
    using inv more len(2) \<open>(queue_room q + 63) div 64 \<le> (unat sz + 63) div 64\<close> room(2)
    unfolding queue_inv_def content by (auto simp: queue_room_def vec_resize_def)
  then show ?thesis using sz content by (simp add: BitQueue64_IncreaseSize_def len(1) queue_room_def)
qed

text \<open>
  C39. A bit queue behaves as a set of positions with its maximum: creating gives the empty set, \<open>Set\<close>
  inserts, growing keeps the content, \<open>Top\<close> is the maximum or -1, \<open>ClearTop\<close> removes it; clearing the
  top until the queue is empty yields the positions in decreasing order.
\<close>

theorem bit_queue_refines_set:
  assumes inv: "queue_inv q"
  shows "(0 \<le>s sz \<longrightarrow> queue_inv (BitQueue64_new sz) \<and> queue_content (BitQueue64_new sz) = {})
    \<and> (i < queue_room q \<longrightarrow> (\<exists>q'. BitQueue64_Set q (of_nat i) = Inr q' \<and> queue_inv q'
      \<and> queue_room q' = queue_room q \<and> queue_content q' = insert i (queue_content q)))
    \<and> (bq_size q \<le>s sz \<longrightarrow> (\<exists>q'. BitQueue64_IncreaseSize q sz = Inr q' \<and> queue_inv q'
      \<and> queue_room q' = unat sz \<and> queue_content q' = queue_content q))
    \<and> (BitQueue64_Top q = (if queue_content q = {} then - 1 else of_nat (Max (queue_content q))))
    \<and> (queue_content q \<noteq> {} \<longrightarrow> (\<exists>q'. BitQueue64_ClearTop q = Inr q' \<and> queue_inv q'
      \<and> queue_room q' = queue_room q \<and> queue_content q' = queue_content q - {Max (queue_content q)}))
    \<and> (bq.drain (card (queue_content q)) q = Inr (rev (sorted_list_of_set (queue_content q))))"
proof (intro conjI)
  show "BitQueue64_Top q = (if queue_content q = {} then - 1 else of_nat (Max (queue_content q)))"
    using inv by (simp add: BitQueue64_Top_def queue_inv_def)
  show "bq.drain (card (queue_content q)) q = Inr (rev (sorted_list_of_set (queue_content q)))"
    by (rule bq.drain_ok [OF inv order_refl])
qed (use queue_new_ok queue_put_ok [OF inv] queue_increase_ok [OF inv] queue_clear_ok [OF inv]
  in \<open>auto simp: queue_put_def\<close>)

lemma bit_queue_refines_set_witness:
  "\<exists>q. BitQueue64_Set (BitQueue64_new 200) 130 = Inr q \<and> queue_content q = {130} \<and> BitQueue64_Top q = 130"
proof -
  have new: "queue_inv (BitQueue64_new 200)" "queue_content (BitQueue64_new 200) = {}"
    "queue_room (BitQueue64_new 200) = 200"
    using queue_new_ok [of 200] by (simp_all add: word_sle_eq)
  obtain q where "BitQueue64_Set (BitQueue64_new 200) (of_nat 130) = Inr q" "queue_inv q" "queue_content q = {130}"
    using bit_queue_refines_set [OF new(1), of 0 130] new(2,3) by auto
  then show ?thesis using bit_queue_refines_set [of q 0 0] by auto
qed

end
