(* ===== verification/Sparse_Bitsets.thy ===== *)
theory Sparse_Bitsets
  imports Bitset
begin

text \<open>
  The class \<open>SparseBitset\<close> of \<open>include/cosy/Bitset.h\<close>: a bit set with the list of the positions that were
  set at least once, so that it can be cleared without visiting every bucket. The invariant says that
  the list covers the content; every operation keeps it, except \<open>Resize\<close> to a smaller size when the last
  bucket has bits beyond it, for which an example shows what goes wrong.
\<close>

section \<open>Operations\<close>

record sparse_bitset =
  sp_bitset :: bitset
  sp_to_clear :: "int64 list"

definition SparseBitset_empty :: sparse_bitset where
  "SparseBitset_empty = \<lparr>sp_bitset = Bitset64_empty, sp_to_clear = []\<rparr>"

definition SparseBitset_new :: "int64 \<Rightarrow> sparse_bitset" where
  "SparseBitset_new sz = \<lparr>sp_bitset = Bitset64_new sz, sp_to_clear = []\<rparr>"

definition SparseBitset_size :: "sparse_bitset \<Rightarrow> int64" where
  "SparseBitset_size s = bs_size (sp_bitset s)"

definition SparseBitset_SparseClearAll :: "sparse_bitset \<Rightarrow> sparse_bitset result" where
  "SparseBitset_SparseClearAll s =
     andThen (foldR (\<lambda>i b. Bitset64_ClearBucket b i) (sp_to_clear s) (sp_bitset s))
       (\<lambda>b. Inr (s\<lparr>sp_bitset := b, sp_to_clear := []\<rparr>))"

definition SparseBitset_ClearAll :: "sparse_bitset \<Rightarrow> sparse_bitset" where
  "SparseBitset_ClearAll s = s\<lparr>sp_bitset := Bitset64_ClearAll (sp_bitset s), sp_to_clear := []\<rparr>"

text \<open>The product of the threshold 300 and the number of entries is compared as an unsigned value.\<close>

definition SparseBitset_ClearAndResize :: "sparse_bitset \<Rightarrow> int64 \<Rightarrow> sparse_bitset result" where
  "SparseBitset_ClearAndResize s sz =
     (if of_nat (length (sp_to_clear s)) * 300 < sz then
        andThen (SparseBitset_SparseClearAll s) (\<lambda>s.
        andThen (Bitset64_Resize (sp_bitset s) sz) (\<lambda>b. Inr (s\<lparr>sp_bitset := b\<rparr>)))
      else
        andThen (Bitset64_ClearAndResize (sp_bitset s) sz) (\<lambda>b.
          Inr (s\<lparr>sp_bitset := b, sp_to_clear := []\<rparr>)))"

definition SparseBitset_Resize :: "sparse_bitset \<Rightarrow> int64 \<Rightarrow> sparse_bitset result" where
  "SparseBitset_Resize s sz =
     (let s = (if sz <s bs_size (sp_bitset s)
               then s\<lparr>sp_to_clear := filter (\<lambda>i. i <s sz) (sp_to_clear s)\<rparr> else s)
      in andThen (Bitset64_Resize (sp_bitset s) sz) (\<lambda>b. Inr (s\<lparr>sp_bitset := b\<rparr>)))"

definition SparseBitset_get :: "sparse_bitset \<Rightarrow> int64 \<Rightarrow> bool result" where
  "SparseBitset_get s i = Bitset64_IsSet (sp_bitset s) i"

definition SparseBitset_Set :: "sparse_bitset \<Rightarrow> int64 \<Rightarrow> sparse_bitset result" where
  "SparseBitset_Set s i =
     andThen (Bitset64_IsSet (sp_bitset s) i) (\<lambda>v.
       if \<not> v then
         andThen (Bitset64_Set (sp_bitset s) i) (\<lambda>b.
           Inr (s\<lparr>sp_bitset := b, sp_to_clear := sp_to_clear s @ [i]\<rparr>))
       else Inr s)"

definition SparseBitset_Clear :: "sparse_bitset \<Rightarrow> int64 \<Rightarrow> sparse_bitset result" where
  "SparseBitset_Clear s i =
     andThen (Bitset64_Clear (sp_bitset s) i) (\<lambda>b. Inr (s\<lparr>sp_bitset := b\<rparr>))"

definition NumberOfSetCallsWithDifferentArguments :: "sparse_bitset \<Rightarrow> int32" where
  "NumberOfSetCallsWithDifferentArguments s = of_nat (length (sp_to_clear s))"

definition PositionsSetAtLeastOnce :: "sparse_bitset \<Rightarrow> int64 list" where
  "PositionsSetAtLeastOnce s = sp_to_clear s"

text \<open>The checks are made in debug mode, as the other debug checks of the model.\<close>

definition NotifyAllClear :: "sparse_bitset \<Rightarrow> sparse_bitset result" where
  "NotifyAllClear s =
     andThen (foldR (\<lambda>i u. andThen (Bitset64_IsSet (sp_bitset s) i) (\<lambda>v. check (\<not> v) (Inr u)))
                (sp_to_clear s) ())
       (\<lambda>u. Inr (s\<lparr>sp_to_clear := []\<rparr>))"

section \<open>The list covers the content\<close>

definition sparse_inv :: "sparse_bitset \<Rightarrow> bool" where
  "sparse_inv s \<longleftrightarrow> wf_bitset (sp_bitset s) \<and> (\<forall>i \<in> set (sp_to_clear s). valid_pos (sp_bitset s) i)
     \<and> bits_of (sp_bitset s) \<subseteq> unat ` set (sp_to_clear s)"

lemma sparse_inv_new:
  assumes "unat sz < 2 ^ 63"
  shows "sparse_inv (SparseBitset_new sz)" "bits_of (sp_bitset (SparseBitset_new sz)) = {}"
proof -
  have "Bitset64_new sz = \<lparr>bs_size = sz, bs_data = replicate ((unat sz + 63) div 64) 0\<rparr>"
    using assms nonneg_size(2) [OF assms] by (simp add: Bitset64_new_def unat_BitLength64 Let_def)
  then show "sparse_inv (SparseBitset_new sz)" "bits_of (sp_bitset (SparseBitset_new sz)) = {}"
    using assms by (auto simp: sparse_inv_def SparseBitset_new_def wf_bitset_def bits_of_def
        less_mult_imp_div_less mult.commute)
qed

lemma Bitset64_ClearBucket_ok:
  assumes "wf_bitset b" "valid_pos b i"
  shows "\<exists>b'. Bitset64_ClearBucket b i = Inr b' \<and> wf_bitset b' \<and> bs_size b' = bs_size b
    \<and> bits_of b' = {n \<in> bits_of b. n div 64 \<noteq> unat i div 64}"
proof -
  note k = valid_pos_bucket [OF assms]
  let ?b = "b\<lparr>bs_data := (bs_data b)[unat i div 64 := 0]\<rparr>"
  have "Bitset64_ClearBucket b i = Inr ?b"
    using assms k by (simp add: Bitset64_ClearBucket_def bucket_simps)
  moreover have "bits_of ?b = {n \<in> bits_of b. n div 64 \<noteq> unat i div 64}"
    using k by (auto simp: bits_of_put split: if_splits)
  ultimately show ?thesis using assms by (auto intro: wf_bitset_put)
qed

lemma clear_buckets_ok:
  "wf_bitset b \<Longrightarrow> \<forall>i \<in> set is. valid_pos b i \<Longrightarrow>
   \<exists>b'. foldR (\<lambda>i b. Bitset64_ClearBucket b i) is b = Inr b' \<and> wf_bitset b' \<and> bs_size b' = bs_size b
     \<and> bits_of b' = {n \<in> bits_of b. \<forall>i \<in> set is. n div 64 \<noteq> unat i div 64}"
proof (induction "is" arbitrary: b)
  case (Cons i "is")
  then obtain b1 where b1: "Bitset64_ClearBucket b i = Inr b1" "wf_bitset b1" "bs_size b1 = bs_size b"
      "bits_of b1 = {n \<in> bits_of b. n div 64 \<noteq> unat i div 64}"
    using Bitset64_ClearBucket_ok [of b i] by auto
  then have "\<forall>i \<in> set is. valid_pos b1 i" using Cons.prems by (simp add: valid_pos_def)
  from Cons.IH [OF b1(2) this] b1 show ?case by auto
qed auto

lemma SparseClearAll_ok:
  assumes "sparse_inv s"
  shows "\<exists>s'. SparseBitset_SparseClearAll s = Inr s' \<and> wf_bitset (sp_bitset s') \<and> sp_to_clear s' = []
    \<and> bs_size (sp_bitset s') = bs_size (sp_bitset s) \<and> bits_of (sp_bitset s') = {}"
proof -
  obtain b where b: "foldR (\<lambda>i b. Bitset64_ClearBucket b i) (sp_to_clear s) (sp_bitset s) = Inr b"
      "wf_bitset b" "bs_size b = bs_size (sp_bitset s)"
      "bits_of b = {n \<in> bits_of (sp_bitset s). \<forall>i \<in> set (sp_to_clear s). n div 64 \<noteq> unat i div 64}"
    using clear_buckets_ok [of "sp_bitset s" "sp_to_clear s"] assms by (auto simp: sparse_inv_def)
  then have "bits_of b = {}" using assms by (auto simp: sparse_inv_def)
  with b show ?thesis by (simp add: SparseBitset_SparseClearAll_def)
qed

lemma sparse_Set_ok:
  assumes inv: "sparse_inv s" and v: "valid_pos (sp_bitset s) i"
  shows "\<exists>s'. SparseBitset_Set s i = Inr s' \<and> sparse_inv s' \<and> bs_size (sp_bitset s') = bs_size (sp_bitset s)
    \<and> bits_of (sp_bitset s') = insert (unat i) (bits_of (sp_bitset s))
    \<and> sp_to_clear s' = (if unat i \<in> bits_of (sp_bitset s) then sp_to_clear s else sp_to_clear s @ [i])"
proof -
  have wf: "wf_bitset (sp_bitset s)" using inv by (simp add: sparse_inv_def)
  obtain b where b: "Bitset64_Set (sp_bitset s) i = Inr b" "wf_bitset b" "bs_size b = bs_size (sp_bitset s)"
      "bits_of b = insert (unat i) (bits_of (sp_bitset s))"
    using Bitset64_Set_ok [OF wf v] by blast
  show ?thesis
  proof (cases "unat i \<in> bits_of (sp_bitset s)")
    case True
    then show ?thesis using inv by (auto simp: SparseBitset_Set_def Bitset64_IsSet_content [OF wf v])
  next
    case False
    have "sparse_inv (s\<lparr>sp_bitset := b, sp_to_clear := sp_to_clear s @ [i]\<rparr>)"
      using inv b v by (auto simp: sparse_inv_def valid_pos_def)
    with False b show ?thesis by (simp add: SparseBitset_Set_def Bitset64_IsSet_content [OF wf v])
  qed
qed

lemma sparse_Clear_ok:
  assumes inv: "sparse_inv s" and v: "valid_pos (sp_bitset s) i"
  shows "\<exists>s'. SparseBitset_Clear s i = Inr s' \<and> sparse_inv s' \<and> bs_size (sp_bitset s') = bs_size (sp_bitset s)
    \<and> bits_of (sp_bitset s') = bits_of (sp_bitset s) - {unat i} \<and> sp_to_clear s' = sp_to_clear s"
proof -
  have "wf_bitset (sp_bitset s)" using inv by (simp add: sparse_inv_def)
  from Bitset64_Clear_ok [OF this v] inv show ?thesis
    by (auto simp: SparseBitset_Clear_def sparse_inv_def valid_pos_def)
qed

lemma sparse_ClearAndResize_ok:
  assumes inv: "sparse_inv s" and sz: "unat sz < 2 ^ 63"
  shows "\<exists>s'. SparseBitset_ClearAndResize s sz = Inr s' \<and> sparse_inv s' \<and> bs_size (sp_bitset s') = sz
    \<and> bits_of (sp_bitset s') = {} \<and> sp_to_clear s' = []"
proof (cases "of_nat (length (sp_to_clear s)) * 300 < sz")
  case True
  obtain s1 where s1: "SparseBitset_SparseClearAll s = Inr s1" "sp_to_clear s1 = []" "bits_of (sp_bitset s1) = {}"
    using SparseClearAll_ok [OF inv] by blast
  obtain b where b: "Bitset64_Resize (sp_bitset s1) sz = Inr b" "wf_bitset b" "bs_size b = sz" "bits_of b = {}"
    using Bitset64_Resize_ok [OF sz, of "sp_bitset s1"] s1(3) by auto
  show ?thesis using True s1 b by (simp add: SparseBitset_ClearAndResize_def sparse_inv_def)
next
  case False
  then show ?thesis
    using Bitset64_ClearAndResize_ok [OF sz, of "sp_bitset s"]
    by (auto simp: SparseBitset_ClearAndResize_def sparse_inv_def)
qed

lemma sparse_Resize_grow:
  assumes inv: "sparse_inv s" and sz: "unat sz < 2 ^ 63" and grow: "unat (bs_size (sp_bitset s)) \<le> unat sz"
  shows "\<exists>s'. SparseBitset_Resize s sz = Inr s' \<and> sparse_inv s' \<and> bs_size (sp_bitset s') = sz
    \<and> bits_of (sp_bitset s') = bits_of (sp_bitset s) \<and> sp_to_clear s' = sp_to_clear s"
proof -
  have clean: "clean_bitset (sp_bitset s)"
    using inv by (auto simp: sparse_inv_def clean_bitset_def valid_pos_def)
  obtain b where b: "Bitset64_Resize (sp_bitset s) sz = Inr b" "wf_bitset b" "bs_size b = sz"
      "bits_of b = bits_of (sp_bitset s)"
    using Bitset64_Resize_grow [OF sz clean grow] by blast
  have "unat (bs_size (sp_bitset s)) < 2 ^ 63" using sz grow by simp
  then have e: "sint sz = int (unat sz)" "sint (bs_size (sp_bitset s)) = int (unat (bs_size (sp_bitset s)))"
    using sz by (simp_all add: sint_small)
  have "\<not> sz <s bs_size (sp_bitset s)"
    unfolding word_sless_alt e of_nat_less_iff using grow by simp
  moreover have "sparse_inv (s\<lparr>sp_bitset := b\<rparr>)"
    using inv b grow by (auto simp: sparse_inv_def valid_pos_def)
  ultimately show ?thesis using b by (simp add: SparseBitset_Resize_def)
qed

text \<open>
  \<open>Resize\<close> in both directions. The bits that survive are those of the buckets that survive, and the
  list loses the positions that are cut off; so the list covers the content afterwards exactly when
  the last bucket has no bit beyond the new size.
\<close>

lemma sparse_Resize_ok:
  assumes inv: "sparse_inv s" and sz: "unat sz < 2 ^ 63"
  shows "\<exists>s'. SparseBitset_Resize s sz = Inr s' \<and> bs_size (sp_bitset s') = sz
    \<and> sp_to_clear s' = filter (\<lambda>i. unat i < unat sz) (sp_to_clear s)
    \<and> bits_of (sp_bitset s') = bits_of (sp_bitset s) \<inter> {..<64 * ((unat sz + 63) div 64)}
    \<and> (sparse_inv s' \<longleftrightarrow> bits_of (sp_bitset s) \<inter> {unat sz..<64 * ((unat sz + 63) div 64)} = {})"
proof -
  let ?top = "64 * ((unat sz + 63) div 64)"
  have top: "unat sz \<le> ?top" by arith
  obtain b where b: "Bitset64_Resize (sp_bitset s) sz = Inr b" "wf_bitset b" "bs_size b = sz"
      "bits_of b = bits_of (sp_bitset s) \<inter> {..<?top}"
    using Bitset64_Resize_ok [OF sz] by blast
  have size: "unat (bs_size (sp_bitset s)) < 2 ^ 63" using inv by (simp add: sparse_inv_def wf_bitset_def)
  have pos: "unat i < unat (bs_size (sp_bitset s))" if "i \<in> set (sp_to_clear s)" for i
    using that inv by (auto simp: sparse_inv_def valid_pos_def)
  have e: "sint w = int (unat w)" if "unat w < 2 ^ 63" for w :: int64
    using that by (simp add: sint_small)
  have cut: "i <s sz \<longleftrightarrow> unat i < unat sz" if "i \<in> set (sp_to_clear s)" for i
    unfolding word_sless_alt e [OF less_trans [OF pos [OF that] size]] e [OF sz] of_nat_less_iff by (rule refl)
  have shrinks: "sz <s bs_size (sp_bitset s) \<longleftrightarrow> unat sz < unat (bs_size (sp_bitset s))"
    unfolding word_sless_alt e [OF size] e [OF sz] of_nat_less_iff by (rule refl)
  define s' where "s' = s\<lparr>sp_bitset := b, sp_to_clear := filter (\<lambda>i. unat i < unat sz) (sp_to_clear s)\<rparr>"
  have "filter (\<lambda>i. i <s sz) (sp_to_clear s) = filter (\<lambda>i. unat i < unat sz) (sp_to_clear s)"
    by (rule filter_cong) (simp_all add: cut)
  moreover have "filter (\<lambda>i. unat i < unat sz) (sp_to_clear s) = sp_to_clear s"
    if "\<not> unat sz < unat (bs_size (sp_bitset s))"
    using that pos by (fastforce simp: filter_id_conv)
  ultimately have "SparseBitset_Resize s sz = Inr s'"
    using b(1) by (simp add: SparseBitset_Resize_def Let_def shrinks s'_def)
  moreover have "valid_pos b i \<longleftrightarrow> unat i < unat sz" if "i \<in> set (sp_to_clear s)" for i
    using cut [OF that] pos [OF that] size b(3) by (simp add: valid_pos_def)
  then have "sparse_inv s' \<longleftrightarrow> bits_of b \<subseteq> unat ` {i \<in> set (sp_to_clear s). unat i < unat sz}"
    using b(2) by (auto simp: sparse_inv_def s'_def)
  moreover have "bits_of b \<subseteq> unat ` {i \<in> set (sp_to_clear s). unat i < unat sz}
      \<longleftrightarrow> bits_of (sp_bitset s) \<inter> {unat sz..<?top} = {}"
    using inv top unfolding b(4) sparse_inv_def by (auto simp: not_less) fastforce+
  ultimately show ?thesis using b(3,4) by (intro exI [of _ s']) (simp add: s'_def)
qed

text \<open>
  C40. A sparse bit set starts empty with the size asked for. Reading, setting, clearing and the three
  ways to clear everything do to its content what they do to a set, keep the list of positions a
  cover of the content, and leave the size alone, except \<open>ClearAndResize\<close>, which gives it the new
  size. \<open>Resize\<close> gives the new size, keeps the bits of the buckets that remain and cuts the list at
  the new size: growing changes nothing else, and after shrinking the list still covers the content
  exactly when the last bucket had no bit beyond the new size.
\<close>

theorem sparse_bitset_operations:
  assumes inv: "sparse_inv s" and sz: "unat sz < 2 ^ 63"
  shows "(sparse_inv (SparseBitset_new sz) \<and> SparseBitset_size (SparseBitset_new sz) = sz
      \<and> bits_of (sp_bitset (SparseBitset_new sz)) = {})
    \<and> (valid_pos (sp_bitset s) i \<longrightarrow>
        SparseBitset_get s i = Inr (unat i \<in> bits_of (sp_bitset s))
      \<and> (\<exists>s'. SparseBitset_Set s i = Inr s' \<and> sparse_inv s' \<and> SparseBitset_size s' = SparseBitset_size s
          \<and> bits_of (sp_bitset s') = insert (unat i) (bits_of (sp_bitset s))
          \<and> PositionsSetAtLeastOnce s' =
              (if unat i \<in> bits_of (sp_bitset s) then PositionsSetAtLeastOnce s else PositionsSetAtLeastOnce s @ [i]))
      \<and> (\<exists>s'. SparseBitset_Clear s i = Inr s' \<and> sparse_inv s' \<and> SparseBitset_size s' = SparseBitset_size s
          \<and> bits_of (sp_bitset s') = bits_of (sp_bitset s) - {unat i}
          \<and> PositionsSetAtLeastOnce s' = PositionsSetAtLeastOnce s))
    \<and> (\<exists>s'. SparseBitset_SparseClearAll s = Inr s' \<and> sparse_inv s' \<and> SparseBitset_size s' = SparseBitset_size s
        \<and> bits_of (sp_bitset s') = {} \<and> PositionsSetAtLeastOnce s' = [])
    \<and> (sparse_inv (SparseBitset_ClearAll s) \<and> SparseBitset_size (SparseBitset_ClearAll s) = SparseBitset_size s
        \<and> bits_of (sp_bitset (SparseBitset_ClearAll s)) = {} \<and> PositionsSetAtLeastOnce (SparseBitset_ClearAll s) = [])
    \<and> (\<exists>s'. SparseBitset_ClearAndResize s sz = Inr s' \<and> sparse_inv s' \<and> SparseBitset_size s' = sz
        \<and> bits_of (sp_bitset s') = {} \<and> PositionsSetAtLeastOnce s' = [])
    \<and> (\<exists>s'. SparseBitset_Resize s sz = Inr s' \<and> SparseBitset_size s' = sz
        \<and> PositionsSetAtLeastOnce s' = filter (\<lambda>i. unat i < unat sz) (PositionsSetAtLeastOnce s)
        \<and> bits_of (sp_bitset s') = bits_of (sp_bitset s) \<inter> {..<64 * ((unat sz + 63) div 64)}
        \<and> (unat (SparseBitset_size s) \<le> unat sz \<longrightarrow> sparse_inv s' \<and> bits_of (sp_bitset s') = bits_of (sp_bitset s)
             \<and> PositionsSetAtLeastOnce s' = PositionsSetAtLeastOnce s)
        \<and> (sparse_inv s' \<longleftrightarrow> bits_of (sp_bitset s) \<inter> {unat sz..<64 * ((unat sz + 63) div 64)} = {}))"
proof (intro conjI impI)
  note names = SparseBitset_size_def PositionsSetAtLeastOnce_def
  show "sparse_inv (SparseBitset_new sz)" "bits_of (sp_bitset (SparseBitset_new sz)) = {}"
    by (rule sparse_inv_new [OF sz])+
  show "SparseBitset_size (SparseBitset_new sz) = sz"
    using nonneg_size [OF sz] by (simp add: names SparseBitset_new_def Bitset64_new_def Let_def)
  have wf: "wf_bitset (sp_bitset s)" using inv by (simp add: sparse_inv_def)
  show "SparseBitset_get s i = Inr (unat i \<in> bits_of (sp_bitset s))" if "valid_pos (sp_bitset s) i"
    using Bitset64_IsSet_content [OF wf that] by (simp add: SparseBitset_get_def)
  show "\<exists>s'. SparseBitset_Set s i = Inr s' \<and> sparse_inv s' \<and> SparseBitset_size s' = SparseBitset_size s
      \<and> bits_of (sp_bitset s') = insert (unat i) (bits_of (sp_bitset s))
      \<and> PositionsSetAtLeastOnce s' =
          (if unat i \<in> bits_of (sp_bitset s) then PositionsSetAtLeastOnce s else PositionsSetAtLeastOnce s @ [i])"
    if "valid_pos (sp_bitset s) i"
    unfolding names by (rule sparse_Set_ok [OF inv that])
  show "\<exists>s'. SparseBitset_Clear s i = Inr s' \<and> sparse_inv s' \<and> SparseBitset_size s' = SparseBitset_size s
      \<and> bits_of (sp_bitset s') = bits_of (sp_bitset s) - {unat i}
      \<and> PositionsSetAtLeastOnce s' = PositionsSetAtLeastOnce s" if "valid_pos (sp_bitset s) i"
    using sparse_Clear_ok [OF inv that] by (simp add: names)
  show "\<exists>s'. SparseBitset_SparseClearAll s = Inr s' \<and> sparse_inv s' \<and> SparseBitset_size s' = SparseBitset_size s
      \<and> bits_of (sp_bitset s') = {} \<and> PositionsSetAtLeastOnce s' = []"
    using SparseClearAll_ok [OF inv] by (auto simp: sparse_inv_def names)
  have "wf_bitset (Bitset64_ClearAll (sp_bitset s))" using wf by (simp add: wf_bitset_def Bitset64_ClearAll_def)
  then show "sparse_inv (SparseBitset_ClearAll s)" by (simp add: sparse_inv_def SparseBitset_ClearAll_def)
  show "SparseBitset_size (SparseBitset_ClearAll s) = SparseBitset_size s"
    "bits_of (sp_bitset (SparseBitset_ClearAll s)) = {}" "PositionsSetAtLeastOnce (SparseBitset_ClearAll s) = []"
    by (simp_all add: names SparseBitset_ClearAll_def Bitset64_ClearAll_def [of "sp_bitset s"])
      (simp add: bits_of_ClearAll [unfolded Bitset64_ClearAll_def])
  show "\<exists>s'. SparseBitset_ClearAndResize s sz = Inr s' \<and> sparse_inv s' \<and> SparseBitset_size s' = sz
      \<and> bits_of (sp_bitset s') = {} \<and> PositionsSetAtLeastOnce s' = []"
    using sparse_ClearAndResize_ok [OF inv sz] by (simp add: names)
  show "\<exists>s'. SparseBitset_Resize s sz = Inr s' \<and> SparseBitset_size s' = sz
        \<and> PositionsSetAtLeastOnce s' = filter (\<lambda>i. unat i < unat sz) (PositionsSetAtLeastOnce s)
        \<and> bits_of (sp_bitset s') = bits_of (sp_bitset s) \<inter> {..<64 * ((unat sz + 63) div 64)}
        \<and> (unat (SparseBitset_size s) \<le> unat sz \<longrightarrow> sparse_inv s' \<and> bits_of (sp_bitset s') = bits_of (sp_bitset s)
             \<and> PositionsSetAtLeastOnce s' = PositionsSetAtLeastOnce s)
        \<and> (sparse_inv s' \<longleftrightarrow> bits_of (sp_bitset s) \<inter> {unat sz..<64 * ((unat sz + 63) div 64)} = {})"
    using sparse_Resize_ok [OF inv sz] sparse_Resize_grow [OF inv sz] by (auto simp: names)
qed

lemma sparse_bitset_operations_witness:
  "\<exists>s s'. SparseBitset_Set (SparseBitset_new 100) 70 = Inr s \<and> sparse_inv s \<and> bits_of (sp_bitset s) = {70}
    \<and> SparseBitset_Resize s 65 = Inr s' \<and> SparseBitset_size s' = 65 \<and> bits_of (sp_bitset s') = {70} \<and> \<not> sparse_inv s'"
proof -
  have new: "sparse_inv (SparseBitset_new 100)" "bits_of (sp_bitset (SparseBitset_new 100)) = {}"
    by (rule sparse_inv_new, simp)+
  have "valid_pos (sp_bitset (SparseBitset_new 100)) 70"
    by (simp add: valid_pos_def SparseBitset_new_def Bitset64_new_def word_sless_alt)
  then obtain s where s: "SparseBitset_Set (SparseBitset_new 100) 70 = Inr s" "sparse_inv s"
      "bits_of (sp_bitset s) = {70}"
    using sparse_bitset_operations [OF new(1), of 0 70] new(2) by auto
  have sz: "unat (65 :: int64) < 2 ^ 63" by simp
  obtain s' where "SparseBitset_Resize s 65 = Inr s'" "SparseBitset_size s' = 65"
      "bits_of (sp_bitset s') = {70} \<inter> {..<128}" "sparse_inv s' \<longleftrightarrow> {70::nat} \<inter> {65..<128} = {}"
    using sparse_bitset_operations [OF s(2) sz, of 0] unfolding s(3) by (elim conjE exE) (rule that, simp_all)
  with s show ?thesis by auto
qed

text \<open>
  Shrinking a sparse bit set drops the positions that are cut off from its list but not their bits
  in the last bucket: after growing again the set contains a position that is not in its list, and
  \<open>SparseClearAll\<close> does not remove it.
\<close>

theorem sparse_resize_keeps_stale_bit:
  "andThen (SparseBitset_Set (SparseBitset_new 2) 1) (\<lambda>s.
   andThen (SparseBitset_Resize s 1) (\<lambda>s.
   andThen (SparseBitset_Resize s 2) (\<lambda>s.
   andThen (SparseBitset_SparseClearAll s) (\<lambda>s'.
   andThen (SparseBitset_get s' 1) (\<lambda>v. Inr (PositionsSetAtLeastOnce s, v)))))) = Inr ([], True)"
  by code_simp

end
