(* ===== verification/Solver_Containers.thy ===== *)
theory Solver_Containers
  imports Cosy_Prelude
begin

text \<open>
  The generic containers of the example solver: the searching and copying functions of
  \<open>examples/solvers/minisat/mtl/Alg.h\<close> and the ring buffer of \<open>mtl/Queue.h\<close>. A \<open>vec\<close> is the list of its
  elements. The locale \<open>fifo\<close> states what a queue promises and is interpreted on the ring buffer.
\<close>

section \<open>Searching, removing and copying\<close>

text \<open>The loop that advances \<open>j\<close> until the element is found or the vector ends.\<close>

definition position_of :: "'a list \<Rightarrow> 'a \<Rightarrow> nat" where
  "position_of ts t = length (takeWhile (\<lambda>x. x \<noteq> t) ts)"

text \<open>The loop that moves the elements after \<open>j\<close> down by one.\<close>

definition shift_down :: "'a list \<Rightarrow> nat \<Rightarrow> nat \<Rightarrow> 'a list" where
  "shift_down ts j n = foldl (\<lambda>ts k. ts[k := ts ! (k + 1)]) ts [j..<n - 1]"

definition alg_remove :: "'a list \<Rightarrow> 'a \<Rightarrow> 'a list result" where
  "alg_remove ts t =
     (let j = position_of ts t in
      check (j < length ts) (Inr (butlast (shift_down ts j (length ts)))))"

definition alg_find :: "'a list \<Rightarrow> 'a \<Rightarrow> bool" where
  "alg_find ts t \<longleftrightarrow> position_of ts t < length ts"

definition alg_copy :: "'a list \<Rightarrow> 'a list \<Rightarrow> bool \<Rightarrow> 'a list" where
  "alg_copy source target keep =
     foldl (\<lambda>target x. target @ [x]) (if keep then target else []) source"

definition alg_append :: "'a list \<Rightarrow> 'a list \<Rightarrow> 'a list" where
  "alg_append source target = alg_copy source target True"

lemma position_of_less: "position_of ts t < length ts \<longleftrightarrow> t \<in> set ts"
  by (induction ts) (auto simp: position_of_def)

lemma position_of_split:
  "t \<in> set ts \<Longrightarrow> ts = take (position_of ts t) ts @ t # drop (Suc (position_of ts t)) ts
    \<and> t \<notin> set (take (position_of ts t) ts)"
  by (induction ts) (auto simp: position_of_def)

lemma shift_down_nth:
  assumes "j \<le> m" "m < length ts"
  defines "r \<equiv> foldl (\<lambda>ts k. ts[k := ts ! (k + 1)]) ts [j..<m]"
  shows "length r = length ts \<and> (\<forall>k < length ts. r ! k = (if j \<le> k \<and> k < m then ts ! Suc k else ts ! k))"
  using assms(1,2) unfolding r_def
proof (induction m)
  case (Suc m)
  show ?case
  proof (cases "j = Suc m")
    case False
    with Suc show ?thesis by (auto simp: nth_list_update less_Suc_eq)
  qed auto
qed auto

lemma shift_down_ok:
  assumes "j < n" "n \<le> length ts"
  shows "take (n - 1) (shift_down ts j n) = take j ts @ take (n - Suc j) (drop (Suc j) ts)"
    and "length (shift_down ts j n) = length ts" and "drop (n - 1) (shift_down ts j n) = drop (n - 1) ts"
proof -
  have r: "length (shift_down ts j n) = length ts"
    "\<And>k. k < length ts \<Longrightarrow> shift_down ts j n ! k = (if j \<le> k \<and> k < n - 1 then ts ! Suc k else ts ! k)"
    using shift_down_nth [of j "n - 1" ts] assms by (auto simp: shift_down_def)
  show "length (shift_down ts j n) = length ts" by (rule r(1))
  show "take (n - 1) (shift_down ts j n) = take j ts @ take (n - Suc j) (drop (Suc j) ts)"
  proof (rule nth_equalityI)
    show len: "length (take (n - 1) (shift_down ts j n)) = length (take j ts @ take (n - Suc j) (drop (Suc j) ts))"
      using assms by (simp add: r)
    fix i assume "i < length (take (n - 1) (shift_down ts j n))"
    then have "i < n - 1" by simp
    then show "take (n - 1) (shift_down ts j n) ! i = (take j ts @ take (n - Suc j) (drop (Suc j) ts)) ! i"
      using assms by (auto simp: r nth_append)
  qed
  show "drop (n - 1) (shift_down ts j n) = drop (n - 1) ts"
    using assms by (intro nth_equalityI) (auto simp: r)
qed

lemma alg_remove_ok:
  "alg_remove ts t = (if t \<in> set ts then Inr (remove1 t ts) else Inl Check_failed)"
proof (cases "t \<in> set ts")
  case True
  let ?j = "position_of ts t"
  have j: "?j < length ts" using True by (simp add: position_of_less)
  have "butlast (shift_down ts ?j (length ts)) = take ?j ts @ drop (Suc ?j) ts"
    using shift_down_ok(1,2) [OF j order_refl] by (simp add: butlast_conv_take)
  also have "\<dots> = remove1 t ts"
    using position_of_split [OF True] by (metis remove1.simps(2) remove1_append)
  finally show ?thesis using True j by (simp add: alg_remove_def Let_def)
next
  case False
  then have "\<not> position_of ts t < length ts" by (simp add: position_of_less)
  with False show ?thesis by (simp add: alg_remove_def check_def)
qed

lemma alg_find_ok: "alg_find ts t \<longleftrightarrow> t \<in> set ts"
  by (simp add: alg_find_def position_of_less)

lemma alg_copy_ok: "alg_copy source target keep = (if keep then target else []) @ source"
proof -
  have "foldl (\<lambda>target x. target @ [x]) ys xs = ys @ xs" for ys xs :: "'a list"
    by (induction xs arbitrary: ys) simp_all
  then show ?thesis by (simp add: alg_copy_def)
qed

section \<open>The ring buffer\<close>

record 'a ring_queue =
  rq_buf :: "'a list"
  rq_first :: nat
  rq_end :: nat

text \<open>\<open>d\<close> is the value of an element that was never written.\<close>

definition Queue_new :: "'a \<Rightarrow> 'a ring_queue" where
  "Queue_new d = \<lparr>rq_buf = [d], rq_first = 0, rq_end = 0\<rparr>"

definition Queue_clear :: "'a \<Rightarrow> 'a ring_queue \<Rightarrow> 'a ring_queue" where
  "Queue_clear d q = q\<lparr>rq_buf := [d], rq_first := 0, rq_end := 0\<rparr>"

definition Queue_size :: "'a ring_queue \<Rightarrow> nat" where
  "Queue_size q =
     (if rq_first q \<le> rq_end q then rq_end q - rq_first q
      else rq_end q + length (rq_buf q) - rq_first q)"

definition Queue_get :: "'a ring_queue \<Rightarrow> nat \<Rightarrow> 'a result" where
  "Queue_get q i =
     check (i < Queue_size q) (vec_at (rq_buf q) ((rq_first q + i) mod length (rq_buf q)))"

definition Queue_peek :: "'a ring_queue \<Rightarrow> 'a result" where
  "Queue_peek q = check (rq_first q \<noteq> rq_end q) (vec_at (rq_buf q) (rq_first q))"

definition Queue_pop :: "'a ring_queue \<Rightarrow> 'a ring_queue result" where
  "Queue_pop q =
     check (rq_first q \<noteq> rq_end q)
       (let first = rq_first q + 1
        in Inr (q\<lparr>rq_first := (if first = length (rq_buf q) then 0 else first)\<rparr>))"

definition Queue_insert :: "'a \<Rightarrow> 'a ring_queue \<Rightarrow> 'a \<Rightarrow> 'a ring_queue result" where
  "Queue_insert d q elem =
     andThen (vec_put (rq_buf q) (rq_end q) elem) (\<lambda>buf.
       let last = rq_end q + 1;
           last = (if last = length buf then 0 else last)
       in if rq_first q = last then
            let tmp = replicate ((length buf * 3 + 1) div 2) d;
                written = foldl (\<lambda>(tmp, i) j. (tmp[i := buf ! j], i + 1)) (tmp, 0)
                            ([rq_first q..<length buf] @ [0..<last])
            in Inr \<lparr>rq_buf = fst written, rq_first = 0, rq_end = length buf\<rparr>
          else Inr (q\<lparr>rq_buf := buf, rq_end := last\<rparr>))"

section \<open>First in, first out\<close>

locale fifo =
  fixes inv :: "'q \<Rightarrow> bool" and content :: "'q \<Rightarrow> 'a list"
    and enq :: "'q \<Rightarrow> 'a \<Rightarrow> 'q result" and deq :: "'q \<Rightarrow> 'q result" and front :: "'q \<Rightarrow> 'a result"
  assumes enq: "inv q \<Longrightarrow> \<exists>q'. enq q x = Inr q' \<and> inv q' \<and> content q' = content q @ [x]"
    and deq: "inv q \<Longrightarrow> content q \<noteq> [] \<Longrightarrow> \<exists>q'. deq q = Inr q' \<and> inv q' \<and> content q' = tl (content q)"
    and front: "inv q \<Longrightarrow> content q \<noteq> [] \<Longrightarrow> front q = Inr (hd (content q))"
begin

text \<open>Taking out as many elements as are in the queue yields them in the order they came.\<close>

fun take_all :: "nat \<Rightarrow> 'q \<Rightarrow> 'a list result" where
  "take_all 0 q = Inr []"
| "take_all (Suc n) q = andThen (front q) (\<lambda>x. andThen (deq q) (\<lambda>q'.
     andThen (take_all n q') (\<lambda>xs. Inr (x # xs))))"

lemma take_all_ok: "inv q \<Longrightarrow> take_all (length (content q)) q = Inr (content q)"
proof (induction "length (content q)" arbitrary: q)
  case (Suc n)
  then have ne: "content q \<noteq> []" by auto
  obtain q' where q': "deq q = Inr q'" "inv q'" "content q' = tl (content q)"
    using deq [OF Suc.prems ne] by blast
  have n: "n = length (content q')" using Suc.hyps(2) by (simp add: q'(3))
  have "take_all n q' = Inr (content q')" using Suc.hyps(1) [OF n q'(2)] by (simp only: n)
  then show ?case
    unfolding Suc.hyps(2) [symmetric] using ne by (simp add: front [OF Suc.prems ne] q')
qed simp

lemma enq_all:
  "inv q \<Longrightarrow> \<exists>q'. foldR (\<lambda>x q. enq q x) xs q = Inr q' \<and> inv q' \<and> content q' = content q @ xs"
proof (induction xs arbitrary: q)
  case (Cons x xs)
  obtain q1 where "enq q x = Inr q1" "inv q1" "content q1 = content q @ [x]" using enq [OF Cons.prems] by blast
  with Cons.IH [of q1] show ?case by auto
qed simp

end

definition ring_ok :: "'a ring_queue \<Rightarrow> bool" where
  "ring_ok q \<longleftrightarrow> rq_first q < length (rq_buf q) \<and> rq_end q < length (rq_buf q)"

definition ring_list :: "'a ring_queue \<Rightarrow> 'a list" where
  "ring_list q =
     (if rq_first q \<le> rq_end q then drop (rq_first q) (take (rq_end q) (rq_buf q))
      else drop (rq_first q) (rq_buf q) @ take (rq_end q) (rq_buf q))"

lemma ring_new_ok: "ring_ok (Queue_new d)" "ring_list (Queue_new d) = []"
  "ring_ok (Queue_clear d q)" "ring_list (Queue_clear d q) = []"
  by (simp_all add: ring_ok_def ring_list_def Queue_new_def Queue_clear_def)

lemma ring_size_ok: "ring_ok q \<Longrightarrow> Queue_size q = length (ring_list q)"
  by (auto simp: ring_ok_def ring_list_def Queue_size_def)

lemma ring_list_nth:
  assumes q: "ring_ok q" and i: "i < length (ring_list q)"
  shows "ring_list q ! i = rq_buf q ! ((rq_first q + i) mod length (rq_buf q))"
proof (cases "rq_first q \<le> rq_end q")
  case True
  then show ?thesis using q i by (auto simp: ring_ok_def ring_list_def)
next
  case False
  show ?thesis
  proof (cases "rq_first q + i < length (rq_buf q)")
    case True
    with False q show ?thesis by (auto simp: ring_list_def nth_append)
  next
    case wrap: False
    have "(rq_first q + i) mod length (rq_buf q) = rq_first q + i - length (rq_buf q)"
      using wrap q i False by (subst mod_if) (auto simp: ring_ok_def ring_list_def)
    with wrap False q i show ?thesis by (auto simp: ring_ok_def ring_list_def nth_append add.commute)
  qed
qed

lemma ring_get_ok:
  assumes "ring_ok q" and "i < length (ring_list q)"
  shows "Queue_get q i = Inr (ring_list q ! i)"
proof -
  have "0 < length (rq_buf q)" using assms(1) by (cases "rq_buf q") (simp_all add: ring_ok_def)
  then have "(rq_first q + i) mod length (rq_buf q) < length (rq_buf q)" by (rule mod_less_divisor)
  then show ?thesis
    using assms ring_list_nth [OF assms] ring_size_ok [OF assms(1)] by (simp add: Queue_get_def vec_at_def)
qed

lemma ring_empty_iff: "ring_ok q \<Longrightarrow> ring_list q = [] \<longleftrightarrow> rq_first q = rq_end q"
  by (auto simp: ring_ok_def ring_list_def)

lemma ring_peek_ok:
  assumes q: "ring_ok q" and ne: "ring_list q \<noteq> []"
  shows "Queue_peek q = Inr (hd (ring_list q))"
proof -
  have "hd (ring_list q) = ring_list q ! 0" using ne by (rule hd_conv_nth)
  also have "\<dots> = rq_buf q ! rq_first q"
    using ring_list_nth [OF q, of 0] ne q by (simp add: ring_ok_def)
  finally show ?thesis
    using q ne ring_empty_iff [OF q] by (simp add: Queue_peek_def vec_at_def ring_ok_def)
qed

lemma tl_drop_Suc: "tl (drop a xs) = drop (Suc a) xs"
  by (simp add: drop_Suc tl_drop)

lemma ring_pop_ok:
  assumes q: "ring_ok q" and ne: "ring_list q \<noteq> []"
  shows "\<exists>q'. Queue_pop q = Inr q' \<and> ring_ok q' \<and> ring_list q' = tl (ring_list q)"
proof -
  have d: "rq_first q \<noteq> rq_end q" using ring_empty_iff [OF q] ne by simp
  let ?f = "if rq_first q + 1 = length (rq_buf q) then 0 else rq_first q + 1"
  have "ring_list (q\<lparr>rq_first := ?f\<rparr>) = tl (ring_list q)"
    using q d by (auto simp: ring_ok_def ring_list_def tl_drop_Suc)
  moreover have "ring_ok (q\<lparr>rq_first := ?f\<rparr>)" using q by (auto simp: ring_ok_def)
  moreover have "Queue_pop q = Inr (q\<lparr>rq_first := ?f\<rparr>)" using d by (simp add: Queue_pop_def Let_def)
  ultimately show ?thesis by blast
qed

lemma write_loop:
  "i + length js \<le> length tmp \<Longrightarrow>
   foldl (\<lambda>(tmp, i) j. (tmp[i := buf ! j], i + 1)) (tmp, i) js
     = (take i tmp @ map ((!) buf) js @ drop (i + length js) tmp, i + length js)"
proof (induction js arbitrary: tmp i)
  case (Cons j js)
  have "take (Suc i) (tmp[i := buf ! j]) = take i tmp @ [buf ! j]"
    using Cons.prems by (simp add: take_Suc_conv_app_nth take_update_cancel)
  with Cons.IH [of "Suc i" "tmp[i := buf ! j]"] Cons.prems show ?case by simp
qed simp

lemma ring_insert_ok:
  assumes q: "ring_ok q"
  shows "\<exists>q'. Queue_insert d q x = Inr q' \<and> ring_ok q' \<and> ring_list q' = ring_list q @ [x]"
proof -
  let ?n = "length (rq_buf q)" and ?f = "rq_first q" and ?e = "rq_end q"
  have f: "?f < ?n" and e: "?e < ?n" using q by (auto simp: ring_ok_def)
  define buf where "buf = (rq_buf q)[?e := x]"
  define e' where "e' = (if Suc ?e = ?n then 0 else Suc ?e)"
  have len: "length buf = ?n" by (simp add: buf_def)
  have written: "take (Suc ?e) buf = take ?e (rq_buf q) @ [x]" "drop (Suc ?e) buf = drop (Suc ?e) (rq_buf q)"
    using e by (simp_all add: buf_def take_Suc_conv_app_nth)
  have full: "ring_list q @ [x] = drop ?f buf @ take ?f buf" if "?f = e'"
  proof (cases "Suc ?e = ?n")
    case True
    then have "take (Suc ?e) buf = buf" by (simp add: len)
    then show ?thesis using True that written(1) by (simp add: ring_list_def e'_def)
  next
    case False
    then show ?thesis using that written by (simp add: ring_list_def e'_def)
  qed
  show ?thesis
  proof (cases "?f = e'")
    case True
    let ?tmp = "replicate ((?n * 3 + 1) div 2) d"
    have room: "?n < length ?tmp" using f by simp
    have "map ((!) buf) ([?f..<?n] @ [0..<e']) = drop ?f buf @ take ?f buf"
      using f True len by (simp add: nth_image list_eq_iff_nth_eq nth_append)
    then have "Queue_insert d q x
        = Inr \<lparr>rq_buf = (drop ?f buf @ take ?f buf) @ drop ?n ?tmp, rq_first = 0, rq_end = ?n\<rparr>"
      using e True write_loop [of 0 "[?f..<?n] @ [0..<e']" ?tmp buf] room f len
      by (simp add: Queue_insert_def vec_put_def Let_def buf_def e'_def)
    with full True room f len show ?thesis by (simp add: ring_ok_def ring_list_def)
  next
    case False
    have "Queue_insert d q x = Inr (q\<lparr>rq_buf := buf, rq_end := e'\<rparr>)"
      using e False by (simp add: Queue_insert_def vec_put_def Let_def buf_def e'_def)
    moreover have "ring_list (q\<lparr>rq_buf := buf, rq_end := e'\<rparr>) = ring_list q @ [x]"
    proof (cases "Suc ?e = ?n")
      case True
      then have "buf = take ?e (rq_buf q) @ [x]" using written(1) len by simp
      with True False f e show ?thesis by (simp add: ring_list_def e'_def)
    next
      case no_wrap: False
      show ?thesis
      proof (cases "?f \<le> ?e")
        case True
        then show ?thesis using no_wrap False written f e by (simp add: ring_list_def e'_def)
      next
        case gap: False
        have "drop ?f buf = drop ?f (rq_buf q)" using gap by (simp add: buf_def)
        with gap no_wrap False written show ?thesis by (simp add: ring_list_def e'_def)
      qed
    qed
    moreover have "ring_ok (q\<lparr>rq_buf := buf, rq_end := e'\<rparr>)"
      using f e by (auto simp: ring_ok_def len e'_def)
    ultimately show ?thesis by blast
  qed
qed

interpretation ring: fifo ring_ok ring_list "Queue_insert d" Queue_pop Queue_peek for d
  by unfold_locales (rule ring_insert_ok, assumption, rule ring_pop_ok, assumption, assumption,
      rule ring_peek_ok, assumption, assumption)

text \<open>
  The ring buffer is a queue: inserting appends to its content, growing the buffer when it is full,
  an index reads the content, and taking out yields the elements in the order they were inserted.
\<close>

theorem ring_queue_is_fifo:
  assumes "ring_ok q"
  shows "\<exists>q'. foldR (\<lambda>x q. Queue_insert d q x) xs q = Inr q' \<and> ring_ok q'
    \<and> Queue_size q' = Queue_size q + length xs
    \<and> (\<forall>i < Queue_size q'. Queue_get q' i = Inr ((ring_list q @ xs) ! i))
    \<and> ring.take_all (Queue_size q') q' = Inr (ring_list q @ xs)"
proof -
  obtain q' where q': "foldR (\<lambda>x q. Queue_insert d q x) xs q = Inr q'" "ring_ok q'" "ring_list q' = ring_list q @ xs"
    using ring.enq_all [OF assms] by blast
  then show ?thesis
    using ring.take_all_ok [OF q'(2)] ring_get_ok [OF q'(2)] assms by (simp add: ring_size_ok)
qed

lemma ring_queue_is_fifo_witness:
  "\<exists>q. foldR (\<lambda>x q. Queue_insert 0 q x) [3, 1, 2 :: nat] (Queue_new 0) = Inr q
     \<and> ring.take_all (Queue_size q) q = Inr [3, 1, 2]"
proof -
  obtain q where q: "foldR (\<lambda>x q. Queue_insert 0 q x) [3, 1, 2 :: nat] (Queue_new 0) = Inr q"
    "ring.take_all (Queue_size q) q = Inr (ring_list (Queue_new 0) @ [3, 1, 2])"
    using ring_queue_is_fifo [OF ring_new_ok(1), of 0 "[3, 1, 2 :: nat]" 0] by blast
  then show ?thesis unfolding ring_new_ok(2) by (intro exI [of _ q] conjI) simp_all
qed

section \<open>Comparators\<close>

text \<open>What the heap and the sorting functions need of the comparator they are given.\<close>

definition weak_order :: "('a \<Rightarrow> 'a \<Rightarrow> bool) \<Rightarrow> bool" where
  "weak_order lt \<longleftrightarrow> (\<forall>x. \<not> lt x x) \<and> (\<forall>x y z. lt x y \<longrightarrow> lt y z \<longrightarrow> lt x z)
     \<and> (\<forall>x y z. \<not> lt x y \<longrightarrow> \<not> lt y z \<longrightarrow> \<not> lt x z)"

lemma weak_orderD:
  assumes "weak_order lt"
  shows "lt x y \<Longrightarrow> \<not> lt y x" "\<not> lt x y \<Longrightarrow> \<not> lt y z \<Longrightarrow> \<not> lt x z" "lt x y \<Longrightarrow> \<not> lt z y \<Longrightarrow> \<not> lt z x"
  using assms unfolding weak_order_def by blast+

lemma weak_order_key: "weak_order (\<lambda>x y. key x < (key y :: 'k :: linorder))"
  by (auto simp: weak_order_def)

end
