(* ===== verification/Solver_Heaps.thy ===== *)
theory Solver_Heaps
  imports Solver_Containers "HOL-Library.Multiset"
begin

text \<open>
  The binary heap of \<open>examples/solvers/minisat/mtl/Heap.h\<close>, in which the solver keeps the variables it may decide,
  ordered by activity. The elements are natural numbers; \<open>indices\<close> holds the position of each in the heap, or \<open>-1\<close>.
  The comparator is the parameter \<open>lt\<close>, a strict weak order. Both percolating loops move a hole; the lemmas speak
  of the heap in which the moved element is written into the hole.
\<close>

section \<open>The heap and its operations\<close>

record solver_heap =
  hp_heap :: "nat list"
  hp_indices :: "int list"

definition heap_left :: "nat \<Rightarrow> nat" where
  "heap_left i = i * 2 + 1"

definition heap_right :: "nat \<Rightarrow> nat" where
  "heap_right i = (i + 1) * 2"

text \<open>The parent of position 0 is \<open>-1\<close> in the code, which never uses it as a position.\<close>

definition heap_parent :: "nat \<Rightarrow> nat" where
  "heap_parent i = (i - 1) div 2"

text \<open>Writing an element to a position, with its entry in the table of positions.\<close>

definition heap_put :: "solver_heap \<Rightarrow> nat \<Rightarrow> nat \<Rightarrow> solver_heap result" where
  "heap_put h i x =
     andThen (vec_put (hp_heap h) i x) (\<lambda>xs.
     andThen (vec_put (hp_indices h) x (int i)) (\<lambda>js. Inr \<lparr>hp_heap = xs, hp_indices = js\<rparr>))"

function percolate_up_loop :: "(nat \<Rightarrow> nat \<Rightarrow> bool) \<Rightarrow> nat \<Rightarrow> solver_heap \<Rightarrow> nat \<Rightarrow> (solver_heap \<times> nat) result" where
  "percolate_up_loop lt x h i =
     (if i = 0 then Inr (h, i)
      else if length (hp_heap h) \<le> heap_parent i then Inl Bad_index
      else if lt x (hp_heap h ! heap_parent i) then
        (case heap_put h i (hp_heap h ! heap_parent i) of
           Inl e \<Rightarrow> Inl e
         | Inr h' \<Rightarrow> percolate_up_loop lt x h' (heap_parent i))
      else Inr (h, i))"
  by pat_completeness auto
termination
  by (relation "measure (\<lambda>(lt, x, h, i). i)") (auto simp: heap_parent_def)

definition percolateUp :: "(nat \<Rightarrow> nat \<Rightarrow> bool) \<Rightarrow> nat \<Rightarrow> solver_heap \<Rightarrow> solver_heap result" where
  "percolateUp lt i h = andThen (vec_at (hp_heap h) i) (\<lambda>x.
     andThen (percolate_up_loop lt x h i) (\<lambda>(h, i). heap_put h i x))"

definition smaller_child :: "(nat \<Rightarrow> nat \<Rightarrow> bool) \<Rightarrow> nat list \<Rightarrow> nat \<Rightarrow> nat" where
  "smaller_child lt xs i =
     (if heap_right i < length xs \<and> lt (xs ! heap_right i) (xs ! heap_left i) then heap_right i else heap_left i)"

function percolate_down_loop :: "(nat \<Rightarrow> nat \<Rightarrow> bool) \<Rightarrow> nat \<Rightarrow> solver_heap \<Rightarrow> nat \<Rightarrow> (solver_heap \<times> nat) result" where
  "percolate_down_loop lt x h i =
     (if heap_left i < length (hp_heap h) then
        if \<not> lt (hp_heap h ! smaller_child lt (hp_heap h) i) x then Inr (h, i)
        else (case heap_put h i (hp_heap h ! smaller_child lt (hp_heap h) i) of
           Inl e \<Rightarrow> Inl e
         | Inr h' \<Rightarrow> percolate_down_loop lt x h' (smaller_child lt (hp_heap h) i))
      else Inr (h, i))"
  by pat_completeness auto
termination
  by (relation "measure (\<lambda>(lt, x, h, i). length (hp_heap h) - i)")
    (auto simp: heap_left_def heap_right_def smaller_child_def heap_put_def run_simps)

declare percolate_up_loop.simps [simp del] percolate_down_loop.simps [simp del]

definition percolateDown :: "(nat \<Rightarrow> nat \<Rightarrow> bool) \<Rightarrow> nat \<Rightarrow> solver_heap \<Rightarrow> solver_heap result" where
  "percolateDown lt i h = andThen (vec_at (hp_heap h) i) (\<lambda>x.
     andThen (percolate_down_loop lt x h i) (\<lambda>(h, i). heap_put h i x))"

definition Heap_new :: solver_heap where
  "Heap_new = \<lparr>hp_heap = [], hp_indices = []\<rparr>"

definition Heap_size :: "solver_heap \<Rightarrow> nat" where
  "Heap_size h = length (hp_heap h)"

definition Heap_empty :: "solver_heap \<Rightarrow> bool" where
  "Heap_empty h \<longleftrightarrow> length (hp_heap h) = 0"

definition Heap_inHeap :: "solver_heap \<Rightarrow> nat \<Rightarrow> bool" where
  "Heap_inHeap h n \<longleftrightarrow> n < length (hp_indices h) \<and> 0 \<le> hp_indices h ! n"

definition Heap_get :: "solver_heap \<Rightarrow> nat \<Rightarrow> nat result" where
  "Heap_get h i = check (i < length (hp_heap h)) (Inr (hp_heap h ! i))"

definition Heap_decrease :: "(nat \<Rightarrow> nat \<Rightarrow> bool) \<Rightarrow> nat \<Rightarrow> solver_heap \<Rightarrow> solver_heap result" where
  "Heap_decrease lt n h = check (Heap_inHeap h n) (percolateUp lt (nat (hp_indices h ! n)) h)"

definition Heap_increase :: "(nat \<Rightarrow> nat \<Rightarrow> bool) \<Rightarrow> nat \<Rightarrow> solver_heap \<Rightarrow> solver_heap result" where
  "Heap_increase lt n h = check (Heap_inHeap h n) (percolateDown lt (nat (hp_indices h ! n)) h)"

definition Heap_insert :: "(nat \<Rightarrow> nat \<Rightarrow> bool) \<Rightarrow> nat \<Rightarrow> solver_heap \<Rightarrow> solver_heap result" where
  "Heap_insert lt n h =
     (let h = h\<lparr>hp_indices := hp_indices h @ replicate (n + 1 - length (hp_indices h)) (- 1)\<rparr> in
      check (\<not> Heap_inHeap h n)
        (andThen (vec_put (hp_indices h) n (int (length (hp_heap h)))) (\<lambda>js.
         percolateUp lt (length (hp_heap h)) \<lparr>hp_heap = hp_heap h @ [n], hp_indices = js\<rparr>)))"

definition Heap_update :: "(nat \<Rightarrow> nat \<Rightarrow> bool) \<Rightarrow> nat \<Rightarrow> solver_heap \<Rightarrow> solver_heap result" where
  "Heap_update lt n h =
     (if \<not> Heap_inHeap h n then Heap_insert lt n h
      else andThen (percolateUp lt (nat (hp_indices h ! n)) h) (\<lambda>h.
           percolateDown lt (nat (hp_indices h ! n)) h))"

definition Heap_removeMin :: "(nat \<Rightarrow> nat \<Rightarrow> bool) \<Rightarrow> solver_heap \<Rightarrow> (nat \<times> solver_heap) result" where
  "Heap_removeMin lt h =
     andThen (vec_at (hp_heap h) 0) (\<lambda>x.
     andThen (heap_put h 0 (last (hp_heap h))) (\<lambda>h.
     andThen (vec_put (hp_indices h) x (- 1)) (\<lambda>js.
     let h = \<lparr>hp_heap = butlast (hp_heap h), hp_indices = js\<rparr> in
     andThen (if 1 < length (hp_heap h) then percolateDown lt 0 h else Inr h) (\<lambda>h. Inr (x, h)))))"

definition Heap_clear :: "solver_heap \<Rightarrow> solver_heap result" where
  "Heap_clear h = andThen (foldR (\<lambda>x js. vec_put js x (- 1)) (hp_heap h) (hp_indices h)) (\<lambda>js.
     Inr \<lparr>hp_heap = [], hp_indices = js\<rparr>)"

definition Heap_build :: "(nat \<Rightarrow> nat \<Rightarrow> bool) \<Rightarrow> nat list \<Rightarrow> solver_heap \<Rightarrow> solver_heap result" where
  "Heap_build lt ns h =
     andThen (foldR (\<lambda>x js. vec_put js x (- 1)) (hp_heap h) (hp_indices h)) (\<lambda>js.
     andThen (foldR (\<lambda>i (xs, js). andThen (vec_put js (ns ! i) (int i)) (\<lambda>js. Inr (xs @ [ns ! i], js)))
                [0..<length ns] ([], js)) (\<lambda>(xs, js).
     foldR (percolateDown lt) (rev [0..<length xs div 2]) \<lparr>hp_heap = xs, hp_indices = js\<rparr>))"

section \<open>The two tables agree\<close>

definition heap_wf :: "solver_heap \<Rightarrow> bool" where
  "heap_wf h \<longleftrightarrow>
     (\<forall>i < length (hp_heap h). hp_heap h ! i < length (hp_indices h) \<and> hp_indices h ! (hp_heap h ! i) = int i)
     \<and> (\<forall>n < length (hp_indices h). 0 \<le> hp_indices h ! n \<longrightarrow>
          nat (hp_indices h ! n) < length (hp_heap h) \<and> hp_heap h ! nat (hp_indices h ! n) = n)"

lemma heap_wf_entry:
  "heap_wf h \<Longrightarrow> i < length (hp_heap h) \<Longrightarrow>
   hp_heap h ! i < length (hp_indices h) \<and> hp_indices h ! (hp_heap h ! i) = int i"
  by (simp add: heap_wf_def)

lemma heap_wf_distinct: "heap_wf h \<Longrightarrow> distinct (hp_heap h)"
  by (metis distinct_conv_nth heap_wf_def of_nat_eq_iff)

lemma inHeap_ok:
  assumes "heap_wf h"
  shows "Heap_inHeap h n \<longleftrightarrow> n \<in> set (hp_heap h)"
proof
  assume "Heap_inHeap h n"
  then show "n \<in> set (hp_heap h)" using assms by (metis Heap_inHeap_def heap_wf_def nth_mem)
next
  assume "n \<in> set (hp_heap h)"
  then obtain i where "i < length (hp_heap h)" "hp_heap h ! i = n" by (auto simp: in_set_conv_nth)
  then show "Heap_inHeap h n" using assms by (auto simp: Heap_inHeap_def heap_wf_def)
qed

text \<open>The heap with the moved element written into the hole.\<close>

definition filled :: "nat \<Rightarrow> solver_heap \<Rightarrow> nat \<Rightarrow> solver_heap" where
  "filled x h i = \<lparr>hp_heap = (hp_heap h)[i := x], hp_indices = (hp_indices h)[x := int i]\<rparr>"

definition heap_swap :: "solver_heap \<Rightarrow> nat \<Rightarrow> nat \<Rightarrow> solver_heap" where
  "heap_swap h i j = \<lparr>hp_heap = (hp_heap h)[i := hp_heap h ! j, j := hp_heap h ! i],
     hp_indices = (hp_indices h)[hp_heap h ! j := int i, hp_heap h ! i := int j]\<rparr>"

lemma heap_wf_swap:
  assumes wf: "heap_wf h" and ij: "i < length (hp_heap h)" "j < length (hp_heap h)" "i \<noteq> j"
  shows "heap_wf (heap_swap h i j)" "mset (hp_heap (heap_swap h i j)) = mset (hp_heap h)"
    "length (hp_heap (heap_swap h i j)) = length (hp_heap h)"
    "length (hp_indices (heap_swap h i j)) = length (hp_indices h)"
proof -
  let ?xs = "hp_heap h" and ?js = "hp_indices h"
  have idx: "?xs ! k < length ?js" "?js ! (?xs ! k) = int k" if "k < length ?xs" for k
    using wf that by (auto simp: heap_wf_def)
  have entry: "nat (?js ! n) < length ?xs" "?xs ! nat (?js ! n) = n" if "n < length ?js" "0 \<le> ?js ! n" for n
    using wf that by (auto simp: heap_wf_def)
  have inj: "?xs ! k = ?xs ! l \<longleftrightarrow> k = l" if "k < length ?xs" "l < length ?xs" for k l
    using heap_wf_distinct [OF wf] that by (simp add: nth_eq_iff_index_eq)
  show "heap_wf (heap_swap h i j)"
    unfolding heap_wf_def
  proof (intro conjI allI impI)
    fix k assume "k < length (hp_heap (heap_swap h i j))"
    then have k: "k < length ?xs" by (simp add: heap_swap_def)
    show "hp_heap (heap_swap h i j) ! k < length (hp_indices (heap_swap h i j))"
      using idx ij k by (simp add: heap_swap_def nth_list_update)
    show "hp_indices (heap_swap h i j) ! (hp_heap (heap_swap h i j) ! k) = int k"
      using idx ij k inj by (auto simp: heap_swap_def nth_list_update)
  next
    fix n assume n: "n < length (hp_indices (heap_swap h i j))" "0 \<le> hp_indices (heap_swap h i j) ! n"
    then have n': "n < length ?js" by (simp add: heap_swap_def)
    have "nat (hp_indices (heap_swap h i j) ! n) < length (hp_heap (heap_swap h i j))
      \<and> hp_heap (heap_swap h i j) ! nat (hp_indices (heap_swap h i j) ! n) = n"
    proof (cases "n = ?xs ! i \<or> n = ?xs ! j")
      case True
      then show ?thesis using idx ij inj by (auto simp: heap_swap_def nth_list_update)
    next
      case False
      with n n' have "0 \<le> ?js ! n" by (simp add: heap_swap_def nth_list_update)
      then have e: "nat (?js ! n) < length ?xs" "?xs ! nat (?js ! n) = n" using entry n' by blast+
      then have "nat (?js ! n) \<noteq> i" "nat (?js ! n) \<noteq> j" using False e(2) by metis+
      with False e show ?thesis by (simp add: heap_swap_def)
    qed
    then show "nat (hp_indices (heap_swap h i j) ! n) < length (hp_heap (heap_swap h i j))"
      "hp_heap (heap_swap h i j) ! nat (hp_indices (heap_swap h i j) ! n) = n" by simp_all
  qed
  show "mset (hp_heap (heap_swap h i j)) = mset ?xs"
    using ij by (simp add: heap_swap_def mset_swap)
qed (simp_all add: heap_swap_def)

text \<open>One step of a percolating loop is a swap of the filled heap.\<close>

lemma heap_put_step:
  assumes wf: "heap_wf (filled x h i)" and i: "i < length (hp_heap h)" and j: "j < length (hp_heap h)" "i \<noteq> j"
  shows "\<exists>h'. heap_put h i (hp_heap h ! j) = Inr h' \<and> length (hp_heap h') = length (hp_heap h)
    \<and> filled x h' j = heap_swap (filled x h i) i j"
proof -
  have "hp_heap h ! j < length (hp_indices h)"
    using heap_wf_entry [OF wf, of j] j by (simp add: filled_def)
  moreover have "hp_heap h ! j \<noteq> x"
    using heap_wf_distinct [OF wf] i j nth_eq_iff_index_eq [of "(hp_heap h)[i := x]" i j]
    by (simp add: filled_def)
  ultimately show ?thesis
    using i j by (auto simp: heap_put_def filled_def heap_swap_def list_update_swap)
qed

lemma heap_put_filled:
  assumes "heap_wf (filled x h i)" "i < length (hp_heap h)"
  shows "heap_put h i x = Inr (filled x h i)"
  using heap_wf_entry [OF assms(1), of i] assms(2) by (simp add: heap_put_def filled_def)

lemma filled_same:
  assumes "heap_wf h" "i < length (hp_heap h)"
  shows "filled (hp_heap h ! i) h i = h"
proof -
  have "hp_indices h ! (hp_heap h ! i) = int i" using assms by (simp add: heap_wf_def)
  then have "(hp_indices h)[hp_heap h ! i := int i] = hp_indices h" by (metis list_update_id)
  then show ?thesis by (simp add: filled_def)
qed

section \<open>The order\<close>

text \<open>
  The parents from position \<open>m\<close> on are not greater than their children, except that the pairs of
  position \<open>i\<close> may be out of order; the children of \<open>i\<close> are in order with the parent of \<open>i\<close>.
\<close>

definition ordered_except :: "(nat \<Rightarrow> nat \<Rightarrow> bool) \<Rightarrow> nat \<Rightarrow> nat list \<Rightarrow> nat \<Rightarrow> bool" where
  "ordered_except lt m xs i \<longleftrightarrow>
     (\<forall>k < length xs. 0 < k \<longrightarrow> k \<noteq> i \<longrightarrow> m \<le> heap_parent k \<longrightarrow> heap_parent k \<noteq> i \<longrightarrow>
        \<not> lt (xs ! k) (xs ! heap_parent k))
     \<and> (\<forall>k < length xs. 0 < k \<longrightarrow> heap_parent k = i \<longrightarrow> 0 < i \<longrightarrow> m \<le> heap_parent i \<longrightarrow>
        \<not> lt (xs ! k) (xs ! heap_parent i))"

definition above_ok :: "(nat \<Rightarrow> nat \<Rightarrow> bool) \<Rightarrow> nat \<Rightarrow> nat list \<Rightarrow> nat \<Rightarrow> bool" where
  "above_ok lt m xs i \<longleftrightarrow> (0 < i \<longrightarrow> m \<le> heap_parent i \<longrightarrow> \<not> lt (xs ! i) (xs ! heap_parent i))"

definition below_ok :: "(nat \<Rightarrow> nat \<Rightarrow> bool) \<Rightarrow> nat list \<Rightarrow> nat \<Rightarrow> bool" where
  "below_ok lt xs i \<longleftrightarrow> (\<forall>k < length xs. 0 < k \<longrightarrow> heap_parent k = i \<longrightarrow> \<not> lt (xs ! k) (xs ! i))"

definition heap_ordered :: "(nat \<Rightarrow> nat \<Rightarrow> bool) \<Rightarrow> nat \<Rightarrow> nat list \<Rightarrow> bool" where
  "heap_ordered lt m xs \<longleftrightarrow>
     (\<forall>k < length xs. 0 < k \<longrightarrow> m \<le> heap_parent k \<longrightarrow> \<not> lt (xs ! k) (xs ! heap_parent k))"

lemma heap_parent_less: "0 < k \<Longrightarrow> heap_parent k < k"
  by (simp add: heap_parent_def)

lemma heap_ordered_iff:
  assumes "i < length xs" "weak_order lt" "m \<le> i"
  shows "heap_ordered lt m xs \<longleftrightarrow> ordered_except lt m xs i \<and> above_ok lt m xs i \<and> below_ok lt xs i"
proof
  assume h: "heap_ordered lt m xs"
  have "\<not> lt (xs ! k) (xs ! heap_parent i)"
    if "k < length xs" "0 < k" "heap_parent k = i" "0 < i" "m \<le> heap_parent i" for k
  proof -
    have "\<not> lt (xs ! k) (xs ! i)" "\<not> lt (xs ! i) (xs ! heap_parent i)"
      using h that assms by (auto simp: heap_ordered_def)
    then show ?thesis by (rule weak_orderD(2) [OF assms(2)])
  qed
  then show "ordered_except lt m xs i \<and> above_ok lt m xs i \<and> below_ok lt xs i"
    using h assms by (auto simp: heap_ordered_def ordered_except_def above_ok_def below_ok_def)
next
  assume a: "ordered_except lt m xs i \<and> above_ok lt m xs i \<and> below_ok lt xs i"
  have "\<not> lt (xs ! k) (xs ! heap_parent k)" if "k < length xs" "0 < k" "m \<le> heap_parent k" for k
  proof (cases "k = i")
    case True
    then show ?thesis using a that by (simp add: above_ok_def)
  next
    case False
    then show ?thesis
      using a that by (cases "heap_parent k = i") (simp_all add: below_ok_def ordered_except_def)
  qed
  then show "heap_ordered lt m xs" by (simp add: heap_ordered_def)
qed

end
