(* ===== verification/Heap_Percolation.thy ===== *)
theory Heap_Percolation
  imports Solver_Heaps
begin

text \<open>
  The percolating loops of the heap. A step of either loop swaps an element with its parent or with its smaller
  child; the lemmas follow the one position at which the order may be broken, and give for \<open>percolateUp\<close> and
  \<open>percolateDown\<close> the conditions under which they restore it.
\<close>

section \<open>Swapping\<close>

text \<open>Swapping an element with its greater parent moves the exception up and repairs the pairs below it.\<close>

lemma swap_up:
  fixes xs :: "nat list"
  defines "ys i \<equiv> xs[i := xs ! heap_parent i, heap_parent i := xs ! i]"
  assumes lt: "weak_order lt" and i: "0 < i" "i < length xs"
    and less: "lt (xs ! i) (xs ! heap_parent i)" and ord: "ordered_except lt 0 xs i"
  shows "ordered_except lt 0 (ys i) (heap_parent i)" "below_ok lt (ys i) (heap_parent i)"
proof -
  let ?p = "heap_parent i" and ?ys = "ys i"
  have p: "?p < i" using i by (simp add: heap_parent_less)
  have ys: "?ys ! k = (if k = i then xs ! ?p else if k = ?p then xs ! i else xs ! k)" if "k < length xs" for k
    using that p i by (simp add: ys_def nth_list_update)
  have len: "length ?ys = length xs" by (simp add: ys_def)
  have pk: "heap_parent k < length xs" if "k < length xs" for k
    using that by (simp add: heap_parent_def)
  have o1: "\<not> lt (xs ! k) (xs ! heap_parent k)" if "k < length xs" "0 < k" "k \<noteq> i" "heap_parent k \<noteq> i" for k
    using ord that by (simp add: ordered_except_def)
  have o2: "\<not> lt (xs ! k) (xs ! ?p)" if "k < length xs" "0 < k" "heap_parent k = i" for k
    using ord that i by (simp add: ordered_except_def)
  have "\<not> lt (?ys ! k) (?ys ! heap_parent k)"
    if k: "k < length xs" "0 < k" "k \<noteq> ?p" "heap_parent k \<noteq> ?p" for k
  proof (cases "heap_parent k = i")
    case True
    then have "k \<noteq> i" using heap_parent_less [OF k(2)] by simp
    then show ?thesis using True o2 [OF k(1,2)] k p i by (simp add: ys)
  next
    case False
    then have "k \<noteq> i" using k by auto
    then show ?thesis using False o1 [OF k(1,2)] k pk [OF k(1)] by (simp add: ys)
  qed
  moreover have "\<not> lt (?ys ! k) (?ys ! heap_parent ?p)" if k: "k < length xs" "0 < k" "heap_parent k = ?p" "0 < ?p" for k
  proof -
    have pp: "heap_parent ?p < ?p" using k(4) by (rule heap_parent_less)
    have top: "\<not> lt (xs ! ?p) (xs ! heap_parent ?p)" using o1 [of ?p] p pp k i by simp
    show ?thesis
    proof (cases "k = i")
      case True
      then show ?thesis using top pp p i by (simp add: ys)
    next
      case False
      have "k \<noteq> ?p" using heap_parent_less [OF k(2)] k(3) by simp
      moreover have "\<not> lt (xs ! k) (xs ! ?p)" using o1 [OF k(1,2) False] k(3) p by simp
      then have "\<not> lt (xs ! k) (xs ! heap_parent ?p)" using top by (rule weak_orderD(2) [OF lt])
      ultimately show ?thesis using False k pp p i by (simp add: ys)
    qed
  qed
  ultimately show "ordered_except lt 0 ?ys ?p" by (simp add: ordered_except_def len)
  have "\<not> lt (?ys ! k) (?ys ! ?p)" if k: "k < length xs" "0 < k" "heap_parent k = ?p" for k
  proof (cases "k = i")
    case True
    then show ?thesis using weak_orderD(1) [OF lt less] p i by (simp add: ys)
  next
    case False
    have "k \<noteq> ?p" using heap_parent_less [OF k(2)] k(3) by simp
    moreover have "\<not> lt (xs ! k) (xs ! ?p)" using o1 [OF k(1,2) False] k(3) p by simp
    then have "\<not> lt (xs ! k) (xs ! i)" by (rule weak_orderD(3) [OF lt less])
    ultimately show ?thesis using False k p i by (simp add: ys)
  qed
  then show "below_ok lt ?ys ?p" by (simp add: below_ok_def len)
qed

text \<open>Swapping an element with its smaller child moves the exception down and repairs the pair above it.\<close>

lemma smaller_child_ok:
  assumes "heap_left i < length xs" "weak_order lt"
  shows "smaller_child lt xs i < length xs" "heap_parent (smaller_child lt xs i) = i" "i < smaller_child lt xs i"
    "\<And>k. k < length xs \<Longrightarrow> 0 < k \<Longrightarrow> heap_parent k = i \<Longrightarrow> \<not> lt (xs ! k) (xs ! smaller_child lt xs i)"
proof -
  show "smaller_child lt xs i < length xs" "heap_parent (smaller_child lt xs i) = i" "i < smaller_child lt xs i"
    using assms(1) by (auto simp: smaller_child_def heap_parent_def heap_left_def heap_right_def)
  fix k assume k: "k < length xs" "0 < k" "heap_parent k = i"
  then have "k = heap_left i \<or> k = heap_right i" by (auto simp: heap_parent_def heap_left_def heap_right_def)
  moreover have "\<not> lt x x" for x using assms(2) by (simp add: weak_order_def)
  ultimately show "\<not> lt (xs ! k) (xs ! smaller_child lt xs i)"
    using k(1) weak_orderD(1) [OF assms(2)] by (auto simp: smaller_child_def)
qed

lemma swap_down:
  fixes xs :: "nat list"
  defines "ys i c \<equiv> xs[i := xs ! c, c := xs ! i]"
  assumes lt: "weak_order lt" and m: "m \<le> i" and l: "heap_left i < length xs" and c: "c = smaller_child lt xs i"
    and less: "lt (xs ! c) (xs ! i)" and ord: "ordered_except lt m xs i"
  shows "ordered_except lt m (ys i c) c" "above_ok lt m (ys i c) c"
proof -
  let ?ys = "ys i c"
  note ch = smaller_child_ok [OF l lt, folded c]
  have i: "i < length xs" using ch by simp
  have ys: "?ys ! k = (if k = c then xs ! i else if k = i then xs ! c else xs ! k)" if "k < length xs" for k
    using that ch i by (simp add: ys_def nth_list_update)
  have len: "length ?ys = length xs" by (simp add: ys_def)
  have pk: "heap_parent k < length xs" if "k < length xs" for k using that by (simp add: heap_parent_def)
  have o1: "\<not> lt (xs ! k) (xs ! heap_parent k)"
    if "k < length xs" "0 < k" "k \<noteq> i" "m \<le> heap_parent k" "heap_parent k \<noteq> i" for k
    using ord that by (simp add: ordered_except_def)
  have o2: "\<not> lt (xs ! k) (xs ! heap_parent i)"
    if "k < length xs" "0 < k" "heap_parent k = i" "0 < i" "m \<le> heap_parent i" for k
    using ord that by (simp add: ordered_except_def)
  have "\<not> lt (?ys ! k) (?ys ! heap_parent k)"
    if k: "k < length xs" "0 < k" "k \<noteq> c" "m \<le> heap_parent k" "heap_parent k \<noteq> c" for k
  proof (cases "k = i")
    case True
    then have "\<not> lt (xs ! c) (xs ! heap_parent i)" using o2 [of c] ch k i by simp
    then show ?thesis using True k pk [OF k(1)] heap_parent_less [OF k(2)] ch by (simp add: ys)
  next
    case False
    show ?thesis
    proof (cases "heap_parent k = i")
      case True
      then show ?thesis using False k ch(4) [OF k(1,2)] pk [OF k(1)] i by (simp add: ys)
    next
      case no_child: False
      then show ?thesis using False o1 [OF k(1,2) False k(4)] k pk [OF k(1)] by (simp add: ys)
    qed
  qed
  moreover have "\<not> lt (?ys ! k) (?ys ! heap_parent c)" if k: "k < length xs" "0 < k" "heap_parent k = c" for k
  proof -
    have ne: "k \<noteq> i" "k \<noteq> c" using heap_parent_less [OF k(2)] k(3) ch(3) by auto
    then have "\<not> lt (xs ! k) (xs ! c)" using o1 [OF k(1,2)] k(3) m ch(3) by simp
    then show ?thesis using ne k ch i by (simp add: ys)
  qed
  ultimately show "ordered_except lt m ?ys c" by (simp add: ordered_except_def len)
  show "above_ok lt m ?ys c" using weak_orderD(1) [OF lt less] ch i by (simp add: above_ok_def ys)
qed

section \<open>The percolating loops\<close>

lemma filled_simps [simp]:
  "hp_heap (filled x h i) = (hp_heap h)[i := x]" "length (hp_indices (filled x h i)) = length (hp_indices h)"
  by (simp_all add: filled_def)

lemma percolate_up_loop_ok:
  assumes "weak_order lt" "i < length (hp_heap h)" "heap_wf (filled x h i)"
    and "ordered_except lt 0 (hp_heap (filled x h i)) i"
  shows "\<exists>h' j. percolate_up_loop lt x h i = Inr (h', j) \<and> j < length (hp_heap h') \<and> heap_wf (filled x h' j)
    \<and> mset (hp_heap (filled x h' j)) = mset (hp_heap (filled x h i)) \<and> length (hp_indices h') = length (hp_indices h)
    \<and> ordered_except lt 0 (hp_heap (filled x h' j)) j \<and> above_ok lt 0 (hp_heap (filled x h' j)) j
    \<and> (below_ok lt (hp_heap (filled x h i)) i \<longrightarrow> below_ok lt (hp_heap (filled x h' j)) j)"
  using assms
proof (induction lt x h i rule: percolate_up_loop.induct)
  case (1 lt x h i)
  let ?p = "heap_parent i"
  show ?case
  proof (cases "i \<noteq> 0 \<and> lt x (hp_heap h ! ?p)")
    case False
    have "percolate_up_loop lt x h i = Inr (h, i)"
      using False 1(3) by (subst percolate_up_loop.simps) (auto simp: heap_parent_def)
    moreover have "above_ok lt 0 (hp_heap (filled x h i)) i"
      using False 1(3) heap_parent_less [of i] by (auto simp: above_ok_def)
    ultimately show ?thesis using 1 by auto
  next
    case True
    then have p: "?p < i" "?p < length (hp_heap h)" using heap_parent_less [of i] 1(3) by auto
    obtain h' where h': "heap_put h i (hp_heap h ! ?p) = Inr h'" "length (hp_heap h') = length (hp_heap h)"
      "filled x h' ?p = heap_swap (filled x h i) i ?p"
      using heap_put_step [OF 1(4,3) p(2)] p(1) by auto
    let ?f = "filled x h i"
    have len: "i < length (hp_heap ?f)" "?p < length (hp_heap ?f)" using 1(3) p by simp_all
    note sw = heap_wf_swap [OF 1(4) len]
    have wf': "heap_wf (filled x h' ?p)" "mset (hp_heap (filled x h' ?p)) = mset (hp_heap ?f)"
      "length (hp_indices h') = length (hp_indices h)"
      using sw p(1) h'(3) filled_simps(2) [of x h' ?p] by simp_all
    have "lt (hp_heap ?f ! i) (hp_heap ?f ! ?p)" using True 1(3) p by simp
    then have ord': "ordered_except lt 0 (hp_heap (filled x h' ?p)) ?p" "below_ok lt (hp_heap (filled x h' ?p)) ?p"
      using swap_up [OF 1(2) _ len(1) _ 1(5)] True h'(3) by (simp_all add: heap_swap_def)
    have "percolate_up_loop lt x h i = percolate_up_loop lt x h' ?p"
      using True p h'(1) by (subst percolate_up_loop.simps) simp
    moreover have "?p < length (hp_heap h')" using p h'(2) by simp
    moreover have "i \<noteq> 0" "\<not> length (hp_heap h) \<le> ?p" "lt x (hp_heap h ! ?p)" using True p by simp_all
    ultimately show ?thesis using 1(1) [OF _ _ _ h'(1) 1(2) _ wf'(1) ord'(1)] wf' ord'(2) by auto
  qed
qed

lemma percolate_down_loop_ok:
  assumes "weak_order lt" "m \<le> i" "i < length (hp_heap h)" "heap_wf (filled x h i)"
    and "ordered_except lt m (hp_heap (filled x h i)) i" "above_ok lt m (hp_heap (filled x h i)) i"
  shows "\<exists>h' j. percolate_down_loop lt x h i = Inr (h', j) \<and> j < length (hp_heap h') \<and> heap_wf (filled x h' j)
    \<and> mset (hp_heap (filled x h' j)) = mset (hp_heap (filled x h i)) \<and> length (hp_indices h') = length (hp_indices h)
    \<and> heap_ordered lt m (hp_heap (filled x h' j))"
  using assms
proof (induction lt x h i rule: percolate_down_loop.induct)
  case (1 lt x h i)
  let ?f = "filled x h i" and ?c = "smaller_child lt (hp_heap h) i"
  show ?case
  proof (cases "heap_left i < length (hp_heap h)")
    case False
    have "below_ok lt (hp_heap ?f) i"
      using False by (auto simp: below_ok_def heap_parent_def heap_left_def)
    then have "heap_ordered lt m (hp_heap ?f)"
      using 1 by (simp add: heap_ordered_iff [of i])
    moreover have "percolate_down_loop lt x h i = Inr (h, i)"
      using False by (subst percolate_down_loop.simps) simp
    ultimately show ?thesis using 1 by auto
  next
    case l: True
    note ch = smaller_child_ok [OF l 1(2)]
    have same: "smaller_child lt (hp_heap ?f) i = ?c"
      by (simp add: smaller_child_def heap_left_def heap_right_def)
    have l': "heap_left i < length (hp_heap ?f)" using l by simp
    note ch' = smaller_child_ok [OF l' 1(2), unfolded same]
    show ?thesis
    proof (cases "lt (hp_heap h ! ?c) x")
      case False
      then have "below_ok lt (hp_heap ?f) i"
        using ch'(4) weak_orderD(2) [OF 1(2)] ch 1(4) unfolding below_ok_def
        by (metis filled_simps(1) less_irrefl nth_list_update_eq nth_list_update_neq)
      then have "heap_ordered lt m (hp_heap ?f)" using 1 by (simp add: heap_ordered_iff [of i])
      moreover have "percolate_down_loop lt x h i = Inr (h, i)"
        using False l by (subst percolate_down_loop.simps) simp
      ultimately show ?thesis using 1 by auto
    next
      case True
      obtain h' where h': "heap_put h i (hp_heap h ! ?c) = Inr h'" "length (hp_heap h') = length (hp_heap h)"
        "filled x h' ?c = heap_swap ?f i ?c"
        using heap_put_step [OF 1(5,4) ch(1)] ch(3) by auto
      have len: "i < length (hp_heap ?f)" "?c < length (hp_heap ?f)" using 1(4) ch by simp_all
      note sw = heap_wf_swap [OF 1(5) len]
      have wf': "heap_wf (filled x h' ?c)" "mset (hp_heap (filled x h' ?c)) = mset (hp_heap ?f)"
        "length (hp_indices h') = length (hp_indices h)"
        using sw ch(3) h'(3) filled_simps(2) [of x h' ?c] by simp_all
      have "lt (hp_heap ?f ! ?c) (hp_heap ?f ! i)" using True 1(4) ch by simp
      then have ord': "ordered_except lt m (hp_heap (filled x h' ?c)) ?c" "above_ok lt m (hp_heap (filled x h' ?c)) ?c"
        using swap_down [OF 1(2,3) l' same [symmetric] _ 1(6)] h'(3) by (simp_all add: heap_swap_def)
      have "percolate_down_loop lt x h i = percolate_down_loop lt x h' ?c"
        using True l h'(1) by (subst percolate_down_loop.simps) simp
      moreover have "?c < length (hp_heap h')" "m \<le> ?c" using ch h'(2) 1(3) by simp_all
      ultimately show ?thesis
        using 1(1) [OF l _ h'(1) 1(2) _ _ wf'(1) ord'] True wf' by auto
    qed
  qed
qed

lemma percolateUp_ok:
  assumes lt: "weak_order lt" and wf: "heap_wf h" and i: "i < length (hp_heap h)"
    and ord: "ordered_except lt 0 (hp_heap h) i"
  shows "\<exists>h' j. percolateUp lt i h = Inr h' \<and> heap_wf h' \<and> j < length (hp_heap h') \<and> hp_heap h' ! j = hp_heap h ! i
    \<and> mset (hp_heap h') = mset (hp_heap h) \<and> length (hp_indices h') = length (hp_indices h)
    \<and> ordered_except lt 0 (hp_heap h') j \<and> above_ok lt 0 (hp_heap h') j
    \<and> (below_ok lt (hp_heap h) i \<longrightarrow> below_ok lt (hp_heap h') j)"
proof -
  let ?x = "hp_heap h ! i"
  have same: "filled ?x h i = h" using wf i by (rule filled_same)
  obtain h' j where h': "percolate_up_loop lt ?x h i = Inr (h', j)" "j < length (hp_heap h')" "heap_wf (filled ?x h' j)"
    "mset (hp_heap (filled ?x h' j)) = mset (hp_heap h)" "length (hp_indices h') = length (hp_indices h)"
    "ordered_except lt 0 (hp_heap (filled ?x h' j)) j" "above_ok lt 0 (hp_heap (filled ?x h' j)) j"
    "below_ok lt (hp_heap h) i \<longrightarrow> below_ok lt (hp_heap (filled ?x h' j)) j"
    using percolate_up_loop_ok [of lt i h ?x] assms unfolding same by blast
  have "percolateUp lt i h = Inr (filled ?x h' j)"
    using i h'(1) heap_put_filled [OF h'(3,2)] by (simp add: percolateUp_def)
  moreover have "hp_heap (filled ?x h' j) ! j = ?x" using h'(2) by simp
  moreover have "j < length (hp_heap (filled ?x h' j))" using h'(2) by simp
  moreover have "length (hp_indices (filled ?x h' j)) = length (hp_indices h)" using h'(5) by simp
  ultimately show ?thesis using h'(3,4,6-8) by blast
qed

lemma percolateDown_ok:
  assumes lt: "weak_order lt" and wf: "heap_wf h" and i: "i < length (hp_heap h)" "m \<le> i"
    and ord: "ordered_except lt m (hp_heap h) i" "above_ok lt m (hp_heap h) i"
  shows "\<exists>h'. percolateDown lt i h = Inr h' \<and> heap_wf h'
    \<and> mset (hp_heap h') = mset (hp_heap h) \<and> length (hp_indices h') = length (hp_indices h)
    \<and> heap_ordered lt m (hp_heap h')"
proof -
  let ?x = "hp_heap h ! i"
  have same: "filled ?x h i = h" using wf i(1) by (rule filled_same)
  obtain h' j where h': "percolate_down_loop lt ?x h i = Inr (h', j)" "j < length (hp_heap h')" "heap_wf (filled ?x h' j)"
    "mset (hp_heap (filled ?x h' j)) = mset (hp_heap h)" "length (hp_indices h') = length (hp_indices h)"
    "heap_ordered lt m (hp_heap (filled ?x h' j))"
    using percolate_down_loop_ok [of lt m i h ?x] assms unfolding same by blast
  have "percolateDown lt i h = Inr (filled ?x h' j)"
    using i h'(1) heap_put_filled [OF h'(3,2)] by (simp add: percolateDown_def)
  moreover have "length (hp_indices (filled ?x h' j)) = length (hp_indices h)" using h'(5) by simp
  ultimately show ?thesis using h'(3,4,6) by blast
qed

end
