(* ===== verification/Heap_Properties.thy ===== *)
theory Heap_Properties
  imports Heap_Percolation
begin

text \<open>
  What the operations of the heap promise. Inserting and taking out the minimum keep both tables and the
  order, building from a list gives an ordered heap, and \<open>update\<close> restores the order after the key of one element
  has changed in any way. The locale \<open>priority_queue\<close> states the interface that the solver uses.
\<close>

section \<open>Inserting\<close>

definition heap_ok :: "(nat \<Rightarrow> nat \<Rightarrow> bool) \<Rightarrow> solver_heap \<Rightarrow> bool" where
  "heap_ok lt h \<longleftrightarrow> weak_order lt \<and> heap_wf h \<and> heap_ordered lt 0 (hp_heap h)"

lemma heap_new_ok: "weak_order lt \<Longrightarrow> heap_ok lt Heap_new"
  by (simp add: heap_ok_def heap_wf_def Heap_new_def heap_ordered_def)

lemma heap_min:
  assumes "heap_ok lt h" "k < length (hp_heap h)"
  shows "\<not> lt (hp_heap h ! k) (hp_heap h ! 0)"
  using assms(2)
proof (induction k rule: less_induct)
  case (less k)
  show ?case
  proof (cases "k = 0")
    case True
    then show ?thesis using assms(1) by (simp add: heap_ok_def weak_order_def)
  next
    case False
    then have p: "heap_parent k < k" by (simp add: heap_parent_less)
    have "\<not> lt (hp_heap h ! k) (hp_heap h ! heap_parent k)"
      using assms(1) less.prems False by (simp add: heap_ok_def heap_ordered_def)
    moreover have "\<not> lt (hp_heap h ! heap_parent k) (hp_heap h ! 0)" using less p by simp
    ultimately show ?thesis using assms(1) by (metis heap_ok_def weak_orderD(2))
  qed
qed

lemma heap_wf_pushed:
  assumes wf: "heap_wf h" and n: "n < length (hp_indices h)" "n \<notin> set (hp_heap h)"
  shows "heap_wf \<lparr>hp_heap = hp_heap h @ [n], hp_indices = (hp_indices h)[n := int (length (hp_heap h))]\<rparr>"
proof -
  have "hp_heap h ! k \<noteq> n" if "k < length (hp_heap h)" for k using n(2) that by auto
  then show ?thesis
    using wf n by (auto simp: heap_wf_def nth_append nth_list_update less_Suc_eq)
qed

lemma heap_insert_ok:
  assumes h: "heap_ok lt h" and n: "n \<notin> set (hp_heap h)"
  shows "\<exists>h'. Heap_insert lt n h = Inr h' \<and> heap_ok lt h' \<and> mset (hp_heap h') = add_mset n (mset (hp_heap h))"
proof -
  let ?g = "h\<lparr>hp_indices := hp_indices h @ replicate (n + 1 - length (hp_indices h)) (- 1)\<rparr>"
  let ?p = "\<lparr>hp_heap = hp_heap ?g @ [n], hp_indices = (hp_indices ?g)[n := int (length (hp_heap ?g))]\<rparr>"
  let ?i = "length (hp_heap h)"
  have lt: "weak_order lt" using h by (simp add: heap_ok_def)
  have wf: "heap_wf ?g" using h by (auto simp: heap_ok_def heap_wf_def nth_append)
  have len: "n < length (hp_indices ?g)" by simp
  have wf': "heap_wf ?p" using heap_wf_pushed [OF wf len] n by simp
  have par: "heap_parent k < ?i" if "k \<le> ?i" "0 < k" for k using heap_parent_less [OF that(2)] that by simp
  have par': "heap_parent k \<noteq> ?i" if "k < Suc ?i" "0 < k" for k using par [of k] that by auto
  have "ordered_except lt 0 (hp_heap ?p) ?i"
    using h par par' by (auto simp: ordered_except_def heap_ok_def heap_ordered_def nth_append)
  moreover have "below_ok lt (hp_heap ?p) ?i"
    using par' by (auto simp: below_ok_def)
  ultimately obtain h' j where h': "percolateUp lt ?i ?p = Inr h'" "heap_wf h'" "j < length (hp_heap h')"
    "mset (hp_heap h') = mset (hp_heap ?p)" "ordered_except lt 0 (hp_heap h') j" "above_ok lt 0 (hp_heap h') j"
    "below_ok lt (hp_heap h') j"
    using percolateUp_ok [OF lt wf', of ?i] by auto
  have "\<not> Heap_inHeap ?g n" using inHeap_ok [OF wf] n by simp
  then have "Heap_insert lt n h = Inr h'" using h'(1) len by (simp add: Heap_insert_def Let_def)
  moreover have "heap_ok lt h'"
    using h'(2,3,5-7) lt by (simp add: heap_ok_def heap_ordered_iff [of j])
  ultimately show ?thesis using h'(4) by auto
qed

section \<open>Taking out the minimum\<close>

text \<open>Taking out the minimum swaps it with the last element and drops it there.\<close>

lemma heap_wf_pop_last:
  assumes wf: "heap_wf h" and ne: "hp_heap h \<noteq> []"
  shows "heap_wf \<lparr>hp_heap = butlast (hp_heap h), hp_indices = (hp_indices h)[last (hp_heap h) := - 1]\<rparr>"
proof -
  let ?xs = "hp_heap h" and ?js = "hp_indices h"
  let ?n = "length ?xs - 1"
  have last: "last ?xs = ?xs ! ?n" using ne by (rule last_conv_nth)
  have n: "?n < length ?xs" using ne by simp
  have ne': "?xs ! k \<noteq> ?xs ! ?n" if "k < ?n" for k
    using heap_wf_distinct [OF wf] that n by (simp add: nth_eq_iff_index_eq)
  have entry: "nat (?js ! m) < ?n \<and> ?xs ! nat (?js ! m) = m" if "m < length ?js" "0 \<le> ?js ! m" "m \<noteq> ?xs ! ?n" for m
  proof -
    have "nat (?js ! m) < length ?xs" "?xs ! nat (?js ! m) = m" using wf that by (auto simp: heap_wf_def)
    moreover from this have "nat (?js ! m) \<noteq> ?n" using that(3) by metis
    ultimately show ?thesis by simp
  qed
  show ?thesis
    unfolding heap_wf_def
  proof (intro conjI allI impI, goal_cases)
    case (1 k)
    then show ?case using heap_wf_entry [OF wf, of k] by (simp add: nth_butlast)
  next
    case (2 k)
    then show ?case using heap_wf_entry [OF wf, of k] ne' [of k] by (simp add: nth_butlast last)
  next
    case (3 m)
    then have "m \<noteq> ?xs ! ?n" by (auto simp: last)
    then show ?case using 3 entry [of m] by (simp add: last)
  next
    case (4 m)
    then have "m \<noteq> ?xs ! ?n" by (auto simp: last)
    then show ?case using 4 entry [of m] by (simp add: last nth_butlast)
  qed
qed

lemma heap_wf_popped:
  assumes wf: "heap_wf h" and ne: "hp_heap h \<noteq> []"
  shows "heap_wf \<lparr>hp_heap = butlast ((hp_heap h)[0 := last (hp_heap h)]),
      hp_indices = (hp_indices h)[last (hp_heap h) := 0, hp_heap h ! 0 := - 1]\<rparr>"
    and "mset (butlast ((hp_heap h)[0 := last (hp_heap h)])) = mset (hp_heap h) - {#hp_heap h ! 0#}"
proof -
  let ?n = "length (hp_heap h) - 1"
  have last: "last (hp_heap h) = hp_heap h ! ?n" using ne by (rule last_conv_nth)
  define g where "g = (if ?n = 0 then h else heap_swap h 0 ?n)"
  have "?n < length (hp_heap h)" "0 < length (hp_heap h)" using ne by simp_all
  then have g: "heap_wf g" "mset (hp_heap g) = mset (hp_heap h)" "length (hp_heap g) = length (hp_heap h)"
    using wf heap_wf_swap [OF wf, of 0 ?n] by (simp_all add: g_def)
  have gne: "hp_heap g \<noteq> []" using g(3) ne by auto
  have heap: "butlast (hp_heap g) = butlast ((hp_heap h)[0 := last (hp_heap h)])"
    and lastg: "last (hp_heap g) = hp_heap h ! 0"
    and idx: "(hp_indices g)[last (hp_heap g) := - 1] = (hp_indices h)[last (hp_heap h) := 0, hp_heap h ! 0 := - 1]"
  proof -
    show "last (hp_heap g) = hp_heap h ! 0"
      unfolding last_conv_nth [OF gne] g(3) using ne by (simp add: g_def heap_swap_def)
    then show "(hp_indices g)[last (hp_heap g) := - 1] = (hp_indices h)[last (hp_heap h) := 0, hp_heap h ! 0 := - 1]"
      by (simp add: g_def heap_swap_def last)
    show "butlast (hp_heap g) = butlast ((hp_heap h)[0 := last (hp_heap h)])"
      by (simp add: g_def heap_swap_def last butlast_list_update)
  qed
  show "heap_wf \<lparr>hp_heap = butlast ((hp_heap h)[0 := last (hp_heap h)]),
      hp_indices = (hp_indices h)[last (hp_heap h) := 0, hp_heap h ! 0 := - 1]\<rparr>"
    using heap_wf_pop_last [OF g(1) gne] unfolding heap idx .
  have "mset (hp_heap g) = mset (butlast (hp_heap g) @ [last (hp_heap g)])" using gne by simp
  then have "mset (hp_heap g) = add_mset (hp_heap h ! 0) (mset (butlast (hp_heap g)))" by (simp add: lastg)
  then show "mset (butlast ((hp_heap h)[0 := last (hp_heap h)])) = mset (hp_heap h) - {#hp_heap h ! 0#}"
    by (simp add: heap g(2) [symmetric])
qed

lemma heap_removeMin_ok:
  assumes h: "heap_ok lt h" and ne: "hp_heap h \<noteq> []"
  shows "\<exists>h'. Heap_removeMin lt h = Inr (hp_heap h ! 0, h') \<and> heap_ok lt h'
    \<and> mset (hp_heap h') = mset (hp_heap h) - {#hp_heap h ! 0#}"
proof -
  let ?xs = "hp_heap h"
  let ?p = "\<lparr>hp_heap = butlast (?xs[0 := last ?xs]), hp_indices = (hp_indices h)[last ?xs := 0, ?xs ! 0 := - 1]\<rparr>"
  have lt: "weak_order lt" and wf: "heap_wf h" using h by (simp_all add: heap_ok_def)
  note p = heap_wf_popped [OF wf ne]
  have "last ?xs \<in> set ?xs" "?xs ! 0 \<in> set ?xs" using ne by simp_all
  then have "last ?xs < length (hp_indices h)" "?xs ! 0 < length (hp_indices h)"
    using heap_wf_entry [OF wf] by (metis in_set_conv_nth)+
  then have run: "Heap_removeMin lt h = andThen (if 1 < length (hp_heap ?p) then percolateDown lt 0 ?p else Inr ?p)
      (\<lambda>h'. Inr (?xs ! 0, h'))"
    using ne by (simp add: Heap_removeMin_def heap_put_def Let_def)
  have nth: "hp_heap ?p ! k = ?xs ! k" if "0 < k" "k < length ?xs - 1" for k
    using that by (simp add: nth_butlast)
  have "\<not> lt (hp_heap ?p ! k) (hp_heap ?p ! heap_parent k)"
    if k: "k < length (hp_heap ?p)" "0 < k" "heap_parent k \<noteq> 0" for k
    using h k nth [of k] nth [of "heap_parent k"] heap_parent_less [OF k(2)]
    by (simp add: heap_ok_def heap_ordered_def)
  then have ord: "ordered_except lt 0 (hp_heap ?p) 0" by (simp add: ordered_except_def)
  show ?thesis
  proof (cases "1 < length (hp_heap ?p)")
    case True
    then have "0 < length (hp_heap ?p)" by linarith
    moreover have "above_ok lt 0 (hp_heap ?p) 0" by (simp add: above_ok_def)
    ultimately obtain h' where h': "percolateDown lt 0 ?p = Inr h'" "heap_wf h'"
      "mset (hp_heap h') = mset (hp_heap ?p)" "heap_ordered lt 0 (hp_heap h')"
      using percolateDown_ok [OF lt p(1) _ order_refl ord] by blast
    have "Heap_removeMin lt h = Inr (?xs ! 0, h')" using run True h'(1) by simp
    then show ?thesis using h'(2-4) p(2) lt by (simp add: heap_ok_def)
  next
    case False
    have "heap_ok lt ?p" using False p(1) lt by (auto simp: heap_ok_def heap_ordered_def)
    moreover have "Heap_removeMin lt h = Inr (?xs ! 0, ?p)" using run False by simp
    ultimately show ?thesis using p(2) by (metis solver_heap.select_convs(1))
  qed
qed

section \<open>Building and clearing\<close>

lemma clear_loop:
  "\<forall>x \<in> set xs. x < length js \<Longrightarrow> foldR (\<lambda>x js. vec_put js x (- 1)) xs js
     = Inr (map (\<lambda>n. if n \<in> set xs then - 1 else js ! n) [0..<length js] :: int list)"
proof (induction xs arbitrary: js)
  case (Cons x xs)
  then have "foldR (\<lambda>x js. vec_put js x (- 1)) xs (js[x := - 1])
     = Inr (map (\<lambda>n. if n \<in> set xs then - 1 else js[x := - 1] ! n) [0..<length js])" by simp
  moreover have "map (\<lambda>n. if n \<in> set xs then - 1 else js[x := - 1] ! n) [0..<length js]
    = map (\<lambda>n. if n \<in> set (x # xs) then - 1 else js ! n) [0..<length js]"
    by (intro map_cong) (auto simp: nth_list_update)
  ultimately show ?case using Cons.prems by simp
qed (simp add: map_nth)

lemma heap_clear_loop:
  assumes "heap_wf h"
  shows "\<exists>js. foldR (\<lambda>x js. vec_put js x (- 1)) (hp_heap h) (hp_indices h) = Inr js
    \<and> length js = length (hp_indices h) \<and> (\<forall>n < length js. js ! n < 0)"
proof -
  have "\<forall>x \<in> set (hp_heap h). x < length (hp_indices h)"
    using heap_wf_entry [OF assms] by (metis in_set_conv_nth)
  moreover have "hp_indices h ! n < 0" if "n < length (hp_indices h)" "n \<notin> set (hp_heap h)" for n
    using inHeap_ok [OF assms, of n] that by (simp add: Heap_inHeap_def)
  ultimately show ?thesis by (simp add: clear_loop)
qed

lemma heap_clear_ok:
  "heap_wf h \<Longrightarrow> \<exists>h'. Heap_clear h = Inr h' \<and> heap_wf h' \<and> hp_heap h' = []
     \<and> length (hp_indices h') = length (hp_indices h)"
  using heap_clear_loop [of h] by (fastforce simp: Heap_clear_def heap_wf_def)

lemma fill_loop:
  assumes "\<forall>n < length js. js ! n < 0" "distinct ns" "\<forall>n \<in> set ns. n < length js" "m \<le> length ns"
  shows "\<exists>js'. foldR (\<lambda>i (xs, js). andThen (vec_put js (ns ! i) (int i)) (\<lambda>js. Inr (xs @ [ns ! i], js))) [0..<m] ([], js)
      = Inr (take m ns, js') \<and> heap_wf \<lparr>hp_heap = take m ns, hp_indices = js'\<rparr> \<and> length js' = length js"
  using assms(4)
proof (induction m)
  case 0
  then show ?case using assms(1) by (fastforce simp: heap_wf_def)
next
  case (Suc m)
  then obtain js' where js': "foldR (\<lambda>i (xs, js). andThen (vec_put js (ns ! i) (int i)) (\<lambda>js. Inr (xs @ [ns ! i], js)))
      [0..<m] ([], js) = Inr (take m ns, js')" "heap_wf \<lparr>hp_heap = take m ns, hp_indices = js'\<rparr>" "length js' = length js"
    by auto
  have m: "m < length ns" using Suc.prems by simp
  then have n: "ns ! m < length js'" using assms(3) js'(3) by simp
  have "ns ! m \<notin> set (take m ns)"
    using assms(2) m by (auto simp: in_set_conv_nth nth_eq_iff_index_eq)
  then have "heap_wf \<lparr>hp_heap = take m ns @ [ns ! m], hp_indices = js'[ns ! m := int m]\<rparr>"
    using heap_wf_pushed [OF js'(2), of "ns ! m"] n m by simp
  moreover have "take (Suc m) ns = take m ns @ [ns ! m]" using m by (rule take_Suc_conv_app_nth)
  ultimately show ?case using js' n by (simp add: foldR_append)
qed

lemma down_loop:
  assumes lt: "weak_order lt"
  shows "heap_wf h \<Longrightarrow> heap_ordered lt m (hp_heap h) \<Longrightarrow> m \<le> length (hp_heap h) \<Longrightarrow>
    \<exists>h'. foldR (percolateDown lt) (rev [0..<m]) h = Inr h' \<and> heap_wf h' \<and> heap_ordered lt 0 (hp_heap h')
      \<and> mset (hp_heap h') = mset (hp_heap h)"
proof (induction m arbitrary: h)
  case (Suc m)
  have "ordered_except lt m (hp_heap h) m"
    using Suc.prems(2) heap_parent_less [of m] by (auto simp: ordered_except_def heap_ordered_def)
  moreover have "above_ok lt m (hp_heap h) m" using heap_parent_less [of m] by (auto simp: above_ok_def)
  ultimately obtain h1 where h1: "percolateDown lt m h = Inr h1" "heap_wf h1" "heap_ordered lt m (hp_heap h1)"
    "mset (hp_heap h1) = mset (hp_heap h)"
    using percolateDown_ok [OF lt Suc.prems(1), of m m] Suc.prems(3) by auto
  have "m \<le> length (hp_heap h1)" using h1(4) Suc.prems(3) by (metis Suc_leD size_mset)
  with Suc.IH [OF h1(2,3)] h1 show ?case by auto
qed simp

lemma heap_build_ok:
  assumes lt: "weak_order lt" and wf: "heap_wf h" and ns: "distinct ns" "\<forall>n \<in> set ns. n < length (hp_indices h)"
  shows "\<exists>h'. Heap_build lt ns h = Inr h' \<and> heap_ok lt h' \<and> mset (hp_heap h') = mset ns"
proof -
  obtain js where js: "foldR (\<lambda>x js. vec_put js x (- 1)) (hp_heap h) (hp_indices h) = Inr js"
    "length js = length (hp_indices h)" "\<forall>n < length js. js ! n < 0"
    using heap_clear_loop [OF wf] by blast
  obtain js' where js': "foldR (\<lambda>i (xs, js). andThen (vec_put js (ns ! i) (int i)) (\<lambda>js. Inr (xs @ [ns ! i], js)))
      [0..<length ns] ([], js) = Inr (ns, js')" "heap_wf \<lparr>hp_heap = ns, hp_indices = js'\<rparr>"
    using fill_loop [OF js(3) ns(1), of "length ns"] ns(2) js(2) by auto
  have "heap_ordered lt (length ns div 2) ns" by (auto simp: heap_ordered_def heap_parent_def)
  then obtain h' where h': "foldR (percolateDown lt) (rev [0..<length ns div 2]) \<lparr>hp_heap = ns, hp_indices = js'\<rparr> = Inr h'"
    "heap_wf h'" "heap_ordered lt 0 (hp_heap h')" "mset (hp_heap h') = mset ns"
    using down_loop [OF lt js'(2), of "length ns div 2"] by auto
  then show ?thesis using js(1) js'(1) lt by (simp add: Heap_build_def heap_ok_def)
qed

section \<open>Changing a key\<close>

lemma changed_key:
  assumes h: "heap_ok lt h" and i: "i < length (hp_heap h)"
    and same: "\<forall>x y. x \<noteq> hp_heap h ! i \<longrightarrow> y \<noteq> hp_heap h ! i \<longrightarrow> lt' x y = lt x y"
  shows "ordered_except lt' 0 (hp_heap h) i"
proof -
  let ?xs = "hp_heap h"
  have ne: "?xs ! k \<noteq> ?xs ! i" if "k < length ?xs" "k \<noteq> i" for k
    using heap_wf_distinct [of h] h that i by (simp add: heap_ok_def nth_eq_iff_index_eq)
  have p: "heap_parent k < length ?xs" if "k < length ?xs" for k using that by (simp add: heap_parent_def)
  have ord: "ordered_except lt 0 ?xs i" using h i heap_ordered_iff [of i "hp_heap h" lt 0] by (simp add: heap_ok_def)
  show ?thesis
    unfolding ordered_except_def
  proof (intro conjI allI impI, goal_cases)
    case (1 k)
    then show ?case using ord ne p same by (simp add: ordered_except_def)
  next
    case (2 k)
    then have "k \<noteq> i" "heap_parent i \<noteq> i" using heap_parent_less [of k] heap_parent_less [of i] by auto
    then show ?case using 2 ord ne [of k] ne [of "heap_parent i"] p [OF i] same by (simp add: ordered_except_def)
  qed
qed

lemma heap_update_ok:
  assumes h: "heap_ok lt h" and n: "n \<in> set (hp_heap h)" and lt': "weak_order lt'"
    and same: "\<forall>x y. x \<noteq> n \<longrightarrow> y \<noteq> n \<longrightarrow> lt' x y = lt x y"
  shows "\<exists>h'. Heap_update lt' n h = Inr h' \<and> heap_ok lt' h' \<and> mset (hp_heap h') = mset (hp_heap h)"
proof -
  have wf: "heap_wf h" using h by (simp add: heap_ok_def)
  obtain i where i: "i < length (hp_heap h)" "hp_heap h ! i = n" using n by (auto simp: in_set_conv_nth)
  have pos: "hp_indices h ! n = int i" using heap_wf_entry [OF wf i(1)] i(2) by simp
  have "ordered_except lt' 0 (hp_heap h) i" using changed_key [OF h i(1)] same i(2) by simp
  then obtain h1 j where h1: "percolateUp lt' i h = Inr h1" "heap_wf h1" "j < length (hp_heap h1)" "hp_heap h1 ! j = n"
    "mset (hp_heap h1) = mset (hp_heap h)" "ordered_except lt' 0 (hp_heap h1) j" "above_ok lt' 0 (hp_heap h1) j"
    using percolateUp_ok [OF lt' wf i(1)] i(2) by auto
  have pos1: "hp_indices h1 ! n = int j" using heap_wf_entry [OF h1(2,3)] h1(4) by simp
  obtain h2 where "percolateDown lt' j h1 = Inr h2" "heap_wf h2" "mset (hp_heap h2) = mset (hp_heap h1)"
    "heap_ordered lt' 0 (hp_heap h2)"
    using percolateDown_ok [OF lt' h1(2,3) _ h1(6,7)] by auto
  then show ?thesis
    using inHeap_ok [OF wf, of n] n h1(1,5) pos pos1 lt' by (simp add: Heap_update_def heap_ok_def)
qed

section \<open>The heap as a priority queue\<close>

locale priority_queue =
  fixes inv :: "'q \<Rightarrow> bool" and elems :: "'q \<Rightarrow> 'a multiset" and less :: "'a \<Rightarrow> 'a \<Rightarrow> bool"
    and ins :: "'a \<Rightarrow> 'q \<Rightarrow> 'q result" and take_min :: "'q \<Rightarrow> ('a \<times> 'q) result"
  assumes ins: "inv q \<Longrightarrow> x \<notin># elems q \<Longrightarrow> \<exists>q'. ins x q = Inr q' \<and> inv q' \<and> elems q' = add_mset x (elems q)"
    and take_min: "inv q \<Longrightarrow> elems q \<noteq> {#} \<Longrightarrow> \<exists>x q'. take_min q = Inr (x, q') \<and> inv q' \<and> x \<in># elems q
      \<and> elems q' = elems q - {#x#} \<and> (\<forall>y. y \<in># elems q \<longrightarrow> \<not> less y x)"
begin

lemma ins_all:
  "inv q \<Longrightarrow> distinct xs \<Longrightarrow> \<forall>x \<in> set xs. x \<notin># elems q \<Longrightarrow>
   \<exists>q'. foldR ins xs q = Inr q' \<and> inv q' \<and> elems q' = elems q + mset xs"
proof (induction xs arbitrary: q)
  case (Cons x xs)
  obtain q1 where q1: "ins x q = Inr q1" "inv q1" "elems q1 = add_mset x (elems q)"
    using ins Cons.prems by (metis list.set_intros(1))
  then show ?case using Cons.IH [OF q1(2)] Cons.prems by auto
qed simp

text \<open>Taking out all elements.\<close>

fun drain :: "nat \<Rightarrow> 'q \<Rightarrow> 'a list result" where
  "drain 0 q = Inr []"
| "drain (Suc n) q = andThen (take_min q) (\<lambda>(x, q'). andThen (drain n q') (\<lambda>xs. Inr (x # xs)))"

lemma drain_sorted:
  "inv q \<Longrightarrow> \<exists>xs. drain (size (elems q)) q = Inr xs \<and> mset xs = elems q \<and> sorted_wrt (\<lambda>x y. \<not> less y x) xs"
proof (induction "size (elems q)" arbitrary: q)
  case (Suc n)
  then have "elems q \<noteq> {#}" by auto
  then obtain x q' where x: "take_min q = Inr (x, q')" "inv q'" "x \<in># elems q" "elems q' = elems q - {#x#}"
    "\<forall>y. y \<in># elems q \<longrightarrow> \<not> less y x"
    using take_min [OF Suc.prems] by blast
  then have "n = size (elems q')" using Suc.hyps(2) by (simp add: size_Diff_singleton)
  then obtain xs where xs: "drain n q' = Inr xs" "mset xs = elems q'" "sorted_wrt (\<lambda>x y. \<not> less y x) xs"
    using Suc.hyps(1) x(2) by blast
  have "\<not> less y x" if "y \<in> set xs" for y
    using that x(4,5) xs(2) by (metis in_diffD set_mset_mset)
  then have "sorted_wrt (\<lambda>x y. \<not> less y x) (x # xs)" using xs(3) by simp
  moreover have "mset (x # xs) = elems q" using x(3,4) xs(2) by simp
  moreover have "drain (size (elems q)) q = Inr (x # xs)"
    unfolding Suc.hyps(2) [symmetric] using x(1) xs(1) by simp
  ultimately show ?case by blast
qed simp

end

interpretation pq: priority_queue "heap_ok lt" "\<lambda>h. mset (hp_heap h)" lt "Heap_insert lt" "Heap_removeMin lt" for lt
proof
  fix h x assume "heap_ok lt h" "x \<notin># mset (hp_heap h)"
  then show "\<exists>h'. Heap_insert lt x h = Inr h' \<and> heap_ok lt h' \<and> mset (hp_heap h') = add_mset x (mset (hp_heap h))"
    by (intro heap_insert_ok) simp_all
next
  fix h assume h: "heap_ok lt h" "mset (hp_heap h) \<noteq> {#}"
  then obtain h' where "Heap_removeMin lt h = Inr (hp_heap h ! 0, h')" "heap_ok lt h'"
    "mset (hp_heap h') = mset (hp_heap h) - {#hp_heap h ! 0#}"
    using heap_removeMin_ok by fastforce
  moreover have "hp_heap h ! 0 \<in> set (hp_heap h)" using h(2) by simp
  moreover have "\<not> lt y (hp_heap h ! 0)" if "y \<in> set (hp_heap h)" for y
    using heap_min [OF h(1)] that by (metis in_set_conv_nth)
  ultimately show "\<exists>x h'. Heap_removeMin lt h = Inr (x, h') \<and> heap_ok lt h' \<and> x \<in># mset (hp_heap h)
      \<and> mset (hp_heap h') = mset (hp_heap h) - {#x#} \<and> (\<forall>y. y \<in># mset (hp_heap h) \<longrightarrow> \<not> lt y x)"
    by auto
qed

text \<open>
  C30. The heap is a priority queue for every strict weak order: inserting distinct elements that it does not hold,
  and building from a list that fits its table of positions, both succeed, and taking out as many elements as the heap
  then holds returns all of them in ascending order.
\<close>

theorem heap_sorts:
  assumes h: "heap_ok lt h" and ns: "distinct ns" "set ns \<inter> set (hp_heap h) = {}"
    and small: "\<forall>n \<in> set ns. n < length (hp_indices h)"
  shows "\<exists>h1 xs h2 ys. foldR (Heap_insert lt) ns h = Inr h1
    \<and> pq.drain lt (Heap_size h1) h1 = Inr xs \<and> mset xs = mset (hp_heap h) + mset ns
    \<and> sorted_wrt (\<lambda>x y. \<not> lt y x) xs
    \<and> Heap_build lt ns h = Inr h2
    \<and> pq.drain lt (Heap_size h2) h2 = Inr ys \<and> mset ys = mset ns \<and> sorted_wrt (\<lambda>x y. \<not> lt y x) ys"
proof -
  have "\<forall>x \<in> set ns. x \<notin># mset (hp_heap h)" using ns(2) by auto
  from pq.ins_all [OF h ns(1) this] obtain h1 where h1: "foldR (Heap_insert lt) ns h = Inr h1" "heap_ok lt h1"
    "mset (hp_heap h1) = mset (hp_heap h) + mset ns" by blast
  have "weak_order lt" "heap_wf h" using h by (simp_all add: heap_ok_def)
  from heap_build_ok [OF this ns(1) small] obtain h2 where h2: "Heap_build lt ns h = Inr h2" "heap_ok lt h2"
    "mset (hp_heap h2) = mset ns" by blast
  have size: "size (mset (hp_heap g)) = Heap_size g" for g by (simp add: Heap_size_def)
  show ?thesis
    using h1 h2 pq.drain_sorted [OF h1(2), unfolded size] pq.drain_sorted [OF h2(2), unfolded size] by metis
qed

definition sample_heap :: solver_heap where
  "sample_heap = \<lparr>hp_heap = [3], hp_indices = [- 1, - 1, - 1, 0]\<rparr>"

lemma sample_heap_ok: "weak_order lt \<Longrightarrow> heap_ok lt sample_heap"
  by (simp add: heap_ok_def heap_wf_def heap_ordered_def sample_heap_def less_Suc_eq)

lemma heap_sorts_witness:
  "\<exists>h xs. foldR (Heap_insert (<)) [2, 0, 1] sample_heap = Inr h \<and> pq.drain (<) (Heap_size h) h = Inr xs
     \<and> sorted xs \<and> mset xs = {#0, 1, 2, 3#}"
proof -
  have "weak_order ((<) :: nat \<Rightarrow> nat \<Rightarrow> bool)" using weak_order_key [of "\<lambda>n. n :: nat"] .
  from heap_sorts [OF sample_heap_ok [OF this], of "[2, 0, 1]"] obtain h1 xs
    where "foldR (Heap_insert (<)) [2, 0, 1] sample_heap = Inr h1" "pq.drain (<) (Heap_size h1) h1 = Inr xs"
      "mset xs = mset (hp_heap sample_heap) + mset [2, 0, 1]" "sorted_wrt (\<lambda>x y. \<not> y < x) xs"
    by (auto simp: sample_heap_def)
  then show ?thesis by (simp add: sample_heap_def not_less add_mset_commute)
qed

text \<open>
  When the key of one element of an ordered heap has changed in any way, \<open>update\<close> puts the heap in the new order
  and keeps its elements; an element that is not there is inserted.
\<close>

theorem heap_update_restores:
  assumes h: "heap_ok lt h" and lt': "weak_order lt'"
    and same: "\<forall>x y. x \<noteq> n \<longrightarrow> y \<noteq> n \<longrightarrow> lt' x y = lt x y"
  shows "\<exists>h'. Heap_update lt' n h = Inr h' \<and> heap_ok lt' h'
    \<and> mset (hp_heap h') = (if n \<in> set (hp_heap h) then mset (hp_heap h) else add_mset n (mset (hp_heap h)))"
proof (cases "n \<in> set (hp_heap h)")
  case True
  then show ?thesis using heap_update_ok [OF h True lt' same] by simp
next
  case False
  have wf: "heap_wf h" using h by (simp add: heap_ok_def)
  have "hp_heap h ! k \<noteq> n" "hp_heap h ! heap_parent k \<noteq> n" if "k < length (hp_heap h)" for k
  proof -
    have "heap_parent k < length (hp_heap h)" using that by (simp add: heap_parent_def)
    then show "hp_heap h ! k \<noteq> n" "hp_heap h ! heap_parent k \<noteq> n" using False that by auto
  qed
  then have "heap_ok lt' h" using h lt' same by (simp add: heap_ok_def heap_ordered_def)
  from heap_insert_ok [OF this False] False show ?thesis
    using inHeap_ok [OF wf, of n] by (simp add: Heap_update_def)
qed

text \<open>The key of the element 0 changes from 0 to 5.\<close>

definition sample_key :: "nat \<Rightarrow> nat" where
  "sample_key x = (if x = 0 then 5 else x)"

lemma heap_update_restores_witness:
  "\<exists>h. Heap_update (\<lambda>x y. sample_key x < sample_key y) 0 \<lparr>hp_heap = [0, 1, 2], hp_indices = [0, 1, 2]\<rparr> = Inr h
     \<and> mset (hp_heap h) = {#0, 1, 2#}"
proof -
  let ?h = "\<lparr>hp_heap = [0, 1, 2], hp_indices = [0, 1, 2]\<rparr>"
  have "heap_ok (\<lambda>x y. x < y) ?h"
    using weak_order_key [of "\<lambda>x :: nat. x"]
    by (auto simp: heap_ok_def heap_wf_def heap_ordered_def heap_parent_def less_Suc_eq)
  moreover have "\<forall>x y. x \<noteq> 0 \<longrightarrow> y \<noteq> 0 \<longrightarrow> (sample_key x < sample_key y) = (x < y)" by (simp add: sample_key_def)
  ultimately show ?thesis
    using heap_update_restores [OF _ weak_order_key [of sample_key], of "\<lambda>x y. x < y" ?h 0] by auto
qed

end
