(* ===== verification/Minisat_Clauses.thy ===== *)
theory Minisat_Clauses
  imports Minisat_Literals Solver_Containers
begin

text \<open>
  The clauses of the example solver, \<open>Clause\<close> of
  \<open>examples/solvers/minisat/core/SolverTypes.h\<close>. A clause is its header and the words that follow it: the
  literals and, when the header says so, one extra word with the activity or the abstraction. The
  properties say what subsumption finds and that strengthening removes a literal.
\<close>

unbundle bit_operations_syntax

section \<open>Clauses\<close>

record solver_clause =
  cl_mark :: "2 word"
  cl_learnt :: bool
  cl_has_extra :: bool
  cl_reloced :: bool
  cl_size :: "27 word"
  cl_data :: "int32 list"

abbreviation cl_length :: "solver_clause \<Rightarrow> nat" where
  "cl_length c \<equiv> unat (cl_size c)"

definition clause_get :: "solver_clause \<Rightarrow> nat \<Rightarrow> solver_lit result" where
  "clause_get c i = andThen (vec_at (cl_data c) i) (\<lambda>w. Inr (SLit w))"

definition clause_put :: "solver_clause \<Rightarrow> nat \<Rightarrow> solver_lit \<Rightarrow> solver_clause result" where
  "clause_put c i p = andThen (vec_put (cl_data c) i (sl_x p)) (\<lambda>d. Inr (c\<lparr>cl_data := d\<rparr>))"

definition var_bit :: "solver_lit \<Rightarrow> int32" where
  "var_bit p = push_bit (unat (var p AND 31)) 1"

definition calcAbstraction :: "solver_clause \<Rightarrow> solver_clause result" where
  "calcAbstraction c = check (cl_has_extra c)
     (andThen (foldR (\<lambda>i abstraction. andThen (clause_get c i) (\<lambda>p. Inr (abstraction OR var_bit p)))
                [0..<cl_length c] 0) (\<lambda>abstraction.
      andThen (vec_put (cl_data c) (cl_length c) abstraction) (\<lambda>d. Inr (c\<lparr>cl_data := d\<rparr>))))"

text \<open>The constructor, on the words that the allocator provides for it.\<close>

definition Clause_new :: "solver_lit list \<Rightarrow> bool \<Rightarrow> bool \<Rightarrow> solver_clause result" where
  "Clause_new ps use_extra learnt =
     (let c = \<lparr>cl_mark = 0, cl_learnt = learnt, cl_has_extra = use_extra, cl_reloced = False,
               cl_size = of_nat (length ps),
               cl_data = map sl_x ps @ (if use_extra then [0] else [])\<rparr>
      in if use_extra then
           if learnt then andThen (vec_put (cl_data c) (cl_length c) 0) (\<lambda>d. Inr (c\<lparr>cl_data := d\<rparr>))
           else calcAbstraction c
         else Inr c)"

definition clause_size :: "solver_clause \<Rightarrow> int32" where
  "clause_size c = ucast (cl_size c)"

definition clause_shrink :: "solver_clause \<Rightarrow> nat \<Rightarrow> solver_clause result" where
  "clause_shrink c i = check (i \<le> cl_length c)
     (andThen (if cl_has_extra c then
                 andThen (vec_at (cl_data c) (cl_length c)) (\<lambda>w.
                 andThen (vec_put (cl_data c) (cl_length c - i) w) (\<lambda>d. Inr (c\<lparr>cl_data := d\<rparr>)))
               else Inr c)
        (\<lambda>c. Inr (c\<lparr>cl_size := cl_size c - of_nat i\<rparr>)))"

definition clause_pop :: "solver_clause \<Rightarrow> solver_clause result" where
  "clause_pop c = clause_shrink c 1"

definition clause_learnt :: "solver_clause \<Rightarrow> bool" where
  "clause_learnt c = cl_learnt c"

definition clause_has_extra :: "solver_clause \<Rightarrow> bool" where
  "clause_has_extra c = cl_has_extra c"

definition clause_mark :: "solver_clause \<Rightarrow> int32" where
  "clause_mark c = ucast (cl_mark c)"

definition clause_set_mark :: "solver_clause \<Rightarrow> int32 \<Rightarrow> solver_clause" where
  "clause_set_mark c m = c\<lparr>cl_mark := ucast m\<rparr>"

definition clause_last :: "solver_clause \<Rightarrow> solver_lit result" where
  "clause_last c = (if cl_length c = 0 then Inl Bad_index else clause_get c (cl_length c - 1))"

definition clause_reloced :: "solver_clause \<Rightarrow> bool" where
  "clause_reloced c = cl_reloced c"

definition clause_relocation :: "solver_clause \<Rightarrow> int32 result" where
  "clause_relocation c = vec_at (cl_data c) 0"

definition clause_relocate :: "solver_clause \<Rightarrow> int32 \<Rightarrow> solver_clause result" where
  "clause_relocate c r = andThen (vec_put (cl_data c) 0 r) (\<lambda>d. Inr (c\<lparr>cl_reloced := True, cl_data := d\<rparr>))"

definition clause_activity :: "solver_clause \<Rightarrow> int32 result" where
  "clause_activity c = check (cl_has_extra c) (vec_at (cl_data c) (cl_length c))"

definition clause_abstraction :: "solver_clause \<Rightarrow> int32 result" where
  "clause_abstraction c = check (cl_has_extra c) (vec_at (cl_data c) (cl_length c))"

text \<open>The inner loop of \<open>subsumes\<close>: the new value of \<open>ret\<close>, or \<open>None\<close> when nothing matches.\<close>

fun subsumes_inner :: "solver_lit \<Rightarrow> solver_lit \<Rightarrow> solver_lit list \<Rightarrow> solver_lit option" where
  "subsumes_inner ret p [] = None"
| "subsumes_inner ret p (q # qs) =
     (if p = q then Some ret
      else if ret = lit_Undef \<and> p = lit_not q then Some p
      else subsumes_inner ret p qs)"

fun subsumes_outer :: "solver_lit \<Rightarrow> solver_lit list \<Rightarrow> solver_lit list \<Rightarrow> solver_lit" where
  "subsumes_outer ret [] qs = ret"
| "subsumes_outer ret (p # ps) qs =
     (case subsumes_inner ret p qs of None \<Rightarrow> lit_Error | Some ret' \<Rightarrow> subsumes_outer ret' ps qs)"

text \<open>The literals of a clause, read one by one.\<close>

definition clause_lits :: "solver_clause \<Rightarrow> solver_lit list result" where
  "clause_lits c = foldR (\<lambda>i ps. andThen (clause_get c i) (\<lambda>p. Inr (ps @ [p]))) [0..<cl_length c] []"

definition subsumes :: "solver_clause \<Rightarrow> solver_clause \<Rightarrow> solver_lit result" where
  "subsumes c other =
     check (\<not> cl_learnt c) (check (\<not> cl_learnt other)
     (check (cl_has_extra c) (check (cl_has_extra other)
     (andThen (vec_at (cl_data c) (cl_length c)) (\<lambda>abs1.
      andThen (vec_at (cl_data other) (cl_length other)) (\<lambda>abs2.
      if cl_size other < cl_size c \<or> abs1 AND NOT abs2 \<noteq> 0 then Inr lit_Error
      else andThen (clause_lits c) (\<lambda>ps. andThen (clause_lits other) (\<lambda>qs.
           Inr (subsumes_outer lit_Undef ps qs)))))))))"

text \<open>\<open>remove\<close> of \<open>Alg.h\<close> on a clause works on its literals and shrinks it by one.\<close>

definition clause_remove :: "solver_clause \<Rightarrow> solver_lit \<Rightarrow> solver_clause result" where
  "clause_remove c p = andThen (clause_lits c) (\<lambda>ps.
     let j = position_of ps p in
     check (j < length ps) (clause_pop (c\<lparr>cl_data := shift_down (cl_data c) j (cl_length c)\<rparr>)))"

definition clause_strengthen :: "solver_clause \<Rightarrow> solver_lit \<Rightarrow> solver_clause result" where
  "clause_strengthen c p = andThen (clause_remove c p) calcAbstraction"

section \<open>Well-formed clauses\<close>

definition lits_of :: "solver_clause \<Rightarrow> solver_lit list" where
  "lits_of c = map SLit (take (cl_length c) (cl_data c))"

definition wf_clause :: "solver_clause \<Rightarrow> bool" where
  "wf_clause c \<longleftrightarrow> cl_length c + of_bool (cl_has_extra c) \<le> length (cl_data c)"

definition abstraction_of :: "solver_lit list \<Rightarrow> int32" where
  "abstraction_of ps = foldl (\<lambda>a p. a OR var_bit p) 0 ps"

definition good_abstraction :: "solver_clause \<Rightarrow> bool" where
  "good_abstraction c \<longleftrightarrow> wf_clause c \<and> cl_has_extra c \<and> cl_data c ! cl_length c = abstraction_of (lits_of c)"

lemma length_lits_of: "wf_clause c \<Longrightarrow> length (lits_of c) = cl_length c"
  by (simp add: lits_of_def wf_clause_def)

lemma clause_get_ok: "wf_clause c \<Longrightarrow> i < cl_length c \<Longrightarrow> clause_get c i = Inr (lits_of c ! i)"
  by (simp add: clause_get_def vec_at_def lits_of_def wf_clause_def)

lemma clause_loop:
  assumes "wf_clause c"
  shows "foldR (\<lambda>i s. andThen (clause_get c i) (\<lambda>p. Inr (f s p))) [0..<cl_length c] s = Inr (foldl f s (lits_of c))"
proof -
  have "foldR (\<lambda>i s. andThen (clause_get c i) (\<lambda>p. Inr (f s p))) is s = Inr (foldl f s (map ((!) (lits_of c)) is))"
    if "\<forall>i \<in> set is. i < cl_length c" for "is" s
    using that by (induction "is" arbitrary: s) (simp_all add: clause_get_ok [OF assms])
  moreover have "map ((!) (lits_of c)) [0..<cl_length c] = lits_of c"
    using map_nth [of "lits_of c"] length_lits_of [OF assms] by simp
  ultimately show ?thesis by simp
qed

lemma clause_lits_ok: "wf_clause c \<Longrightarrow> clause_lits c = Inr (lits_of c)"
proof -
  assume "wf_clause c"
  moreover have "foldl (\<lambda>ps p. ps @ [p]) xs ys = xs @ ys" for xs ys :: "solver_lit list"
    by (induction ys arbitrary: xs) simp_all
  ultimately show ?thesis by (simp add: clause_lits_def clause_loop)
qed

lemma calcAbstraction_ok:
  assumes "wf_clause c" "cl_has_extra c"
  shows "\<exists>c'. calcAbstraction c = Inr c' \<and> good_abstraction c' \<and> lits_of c' = lits_of c
    \<and> cl_size c' = cl_size c \<and> cl_learnt c' = cl_learnt c \<and> cl_has_extra c'"
proof -
  let ?c = "c\<lparr>cl_data := (cl_data c)[cl_length c := abstraction_of (lits_of c)]\<rparr>"
  have "calcAbstraction c = Inr ?c"
    using assms clause_loop [OF assms(1), of "\<lambda>a p. a OR var_bit p" 0]
    by (simp add: calcAbstraction_def abstraction_of_def vec_put_def wf_clause_def)
  moreover have "lits_of ?c = lits_of c" by (simp add: lits_of_def)
  ultimately show ?thesis using assms by (simp add: good_abstraction_def wf_clause_def)
qed

lemma Clause_new_ok:
  assumes "length ps < 2 ^ 27"
  shows "\<exists>c. Clause_new ps use_extra learnt = Inr c \<and> wf_clause c \<and> lits_of c = ps
    \<and> cl_learnt c = learnt \<and> cl_has_extra c = use_extra \<and> (use_extra \<and> \<not> learnt \<longrightarrow> good_abstraction c)"
proof -
  have len: "unat (of_nat (length ps) :: 27 word) = length ps"
    using assms by (simp add: unsigned_of_nat take_bit_nat_eq_self)
  let ?c = "\<lparr>cl_mark = 0, cl_learnt = learnt, cl_has_extra = use_extra, cl_reloced = False,
      cl_size = of_nat (length ps), cl_data = map sl_x ps @ (if use_extra then [0] else [])\<rparr>"
  have wf: "wf_clause ?c" "lits_of ?c = ps" by (simp_all add: wf_clause_def lits_of_def len comp_def)
  show ?thesis
  proof (cases "use_extra \<and> \<not> learnt")
    case True
    then show ?thesis using calcAbstraction_ok [OF wf(1)] wf by (auto simp: Clause_new_def good_abstraction_def)
  next
    case False
    then show ?thesis using wf by (auto simp: Clause_new_def vec_put_def len list_update_append)
  qed
qed

section \<open>Subsumption\<close>

text \<open>The two special literals never occur in a clause, and a clause to reason about is not a tautology.\<close>

definition plain_lits :: "solver_lit list \<Rightarrow> bool" where
  "plain_lits ps \<longleftrightarrow> lit_Undef \<notin> set ps \<and> lit_Error \<notin> set ps"

definition tautology :: "solver_lit list \<Rightarrow> bool" where
  "tautology ps \<longleftrightarrow> (\<exists>p \<in> set ps. lit_not p \<in> set ps)"

lemma lit_not_eq_iff: "p = lit_not q \<longleftrightarrow> q = lit_not p"
  by (metis lit_not_not)

lemma subsumes_inner_eq:
  "\<not> (p \<in> set qs \<and> lit_not p \<in> set qs) \<Longrightarrow> subsumes_inner ret p qs =
     (if p \<in> set qs then Some ret
      else if ret = lit_Undef \<and> lit_not p \<in> set qs then Some p else None)"
  by (induction qs) (auto simp: lit_not_eq_iff [of p])

lemma subsumes_outer_found:
  assumes "\<not> tautology qs" "ret \<noteq> lit_Undef"
  shows "subsumes_outer ret ps qs = (if set ps \<subseteq> set qs then ret else lit_Error)"
  using assms(2)
proof (induction ps)
  case (Cons p ps)
  have "\<not> (p \<in> set qs \<and> lit_not p \<in> set qs)" using assms(1) by (auto simp: tautology_def)
  with Cons show ?case by (simp add: subsumes_inner_eq)
qed simp

text \<open>The literals of the first clause that the second lacks decide the result.\<close>

lemma subsumes_outer_eq:
  assumes "\<not> tautology qs" "lit_Undef \<notin> set ps"
  shows "subsumes_outer lit_Undef ps qs =
    (case filter (\<lambda>p. p \<notin> set qs) ps of [] \<Rightarrow> lit_Undef
      | p # rest \<Rightarrow> if rest = [] \<and> lit_not p \<in> set qs then p else lit_Error)"
  using assms(2)
proof (induction ps)
  case (Cons p ps)
  have nt: "\<not> (p \<in> set qs \<and> lit_not p \<in> set qs)" using assms(1) by (auto simp: tautology_def)
  have "filter (\<lambda>p. p \<notin> set qs) ps = [] \<longleftrightarrow> set ps \<subseteq> set qs" by (auto simp: filter_empty_conv)
  with Cons nt show ?case
    by (simp add: subsumes_inner_eq subsumes_outer_found [OF assms(1) not_sym])
qed simp

lemma bit_abstraction:
  "bit (abstraction_of ps) n \<longleftrightarrow> (\<exists>p \<in> set ps. bit (var_bit p) n)"
proof -
  have "bit (foldl (\<lambda>a p. a OR var_bit p) a ps) n \<longleftrightarrow> bit a n \<or> (\<exists>p \<in> set ps. bit (var_bit p) n)" for a
    by (induction ps arbitrary: a) (auto simp: bit_or_iff)
  then show ?thesis by (simp add: abstraction_of_def)
qed

lemma abstraction_covers:
  assumes "var ` set ps \<subseteq> var ` set qs"
  shows "abstraction_of ps AND NOT (abstraction_of qs) = 0"
proof (rule bit_word_eqI)
  fix n assume n: "n < LENGTH(32)"
  have "bit (abstraction_of qs) n" if b: "bit (abstraction_of ps) n"
  proof -
    obtain p where "p \<in> set ps" "bit (var_bit p) n" using b unfolding bit_abstraction by blast
    then have "var p \<in> var ` set qs" using assms by blast
    then obtain q where "q \<in> set qs" "var p = var q" by blast
    have "var_bit p = var_bit q" by (simp only: var_bit_def \<open>var p = var q\<close>)
    then have "bit (var_bit q) n" using \<open>bit (var_bit p) n\<close> by (simp only:)
    then show ?thesis using \<open>q \<in> set qs\<close> unfolding bit_abstraction by blast
  qed
  then show "bit (abstraction_of ps AND NOT (abstraction_of qs)) n = bit 0 n"
    using n by (auto simp: bit_and_iff bit_not_iff)
qed

text \<open>Neither the sizes nor the abstractions turn away a clause that can be used.\<close>

lemma subsumes_filters_pass:
  assumes p: "set ps - {p} \<subseteq> set qs" "p \<in> set ps \<Longrightarrow> p \<notin> set qs \<Longrightarrow> lit_not p \<in> set qs"
    and ps: "distinct ps" "\<not> tautology ps"
  shows "length ps \<le> length qs \<and> abstraction_of ps AND NOT (abstraction_of qs) = 0"
proof
  define f where "f q = (if q = p \<and> p \<notin> set qs then lit_not p else q)" for q
  have sub: "f ` set ps \<subseteq> set qs" using p by (auto simp: f_def)
  have "inj_on f (set ps)"
  proof (rule inj_onI)
    fix x y assume "x \<in> set ps" "y \<in> set ps" "f x = f y"
    then show "x = y" using ps(2) unfolding f_def tautology_def by (metis lit_not_not)
  qed
  then have "length ps = card (f ` set ps)" by (simp add: card_image distinct_card [OF ps(1)])
  also have "\<dots> \<le> card (set qs)" using sub by (intro card_mono) auto
  also have "\<dots> \<le> length qs" by (rule card_length)
  finally show "length ps \<le> length qs" .
  have "var (f q) = var q" for q by (simp add: f_def)
  then have "var ` set ps = var ` f ` set ps" by (simp add: image_image)
  then show "abstraction_of ps AND NOT (abstraction_of qs) = 0"
    using sub by (intro abstraction_covers) auto
qed

definition usable_clause :: "solver_clause \<Rightarrow> bool" where
  "usable_clause c \<longleftrightarrow> good_abstraction c \<and> \<not> cl_learnt c \<and> distinct (lits_of c)
     \<and> \<not> tautology (lits_of c) \<and> plain_lits (lits_of c)"

lemma subsumes_eq:
  assumes "usable_clause c" "usable_clause d"
  shows "subsumes c d = Inr (subsumes_outer lit_Undef (lits_of c) (lits_of d))"
proof -
  let ?C = "lits_of c" and ?D = "lits_of d"
  have wf: "wf_clause c" "wf_clause d" using assms by (simp_all add: usable_clause_def good_abstraction_def)
  have size: "cl_size d < cl_size c \<longleftrightarrow> length ?D < length ?C"
    by (simp only: length_lits_of [OF wf(1)] length_lits_of [OF wf(2)] word_less_nat_alt)
  have abs: "vec_at (cl_data c) (cl_length c) = Inr (abstraction_of ?C)"
    "vec_at (cl_data d) (cl_length d) = Inr (abstraction_of ?D)"
    using assms by (auto simp: usable_clause_def good_abstraction_def vec_at_def wf_clause_def)
  have eq: "subsumes c d = Inr (if length ?D < length ?C \<or> abstraction_of ?C AND NOT (abstraction_of ?D) \<noteq> 0
      then lit_Error else subsumes_outer lit_Undef ?C ?D)"
    using assms abs by (simp add: subsumes_def usable_clause_def good_abstraction_def clause_lits_ok size)
  have out: "subsumes_outer lit_Undef ?C ?D =
    (case filter (\<lambda>p. p \<notin> set ?D) ?C of [] \<Rightarrow> lit_Undef
      | p # rest \<Rightarrow> if rest = [] \<and> lit_not p \<in> set ?D then p else lit_Error)"
    using assms by (intro subsumes_outer_eq) (auto simp: usable_clause_def plain_lits_def)
  show ?thesis
  proof (cases "subsumes_outer lit_Undef ?C ?D = lit_Error")
    case False
    obtain p where p: "set ?C - {p} \<subseteq> set ?D" "p \<in> set ?C \<Longrightarrow> p \<notin> set ?D \<Longrightarrow> lit_not p \<in> set ?D"
    proof (cases "filter (\<lambda>p. p \<notin> set ?D) ?C")
      case Nil
      then show ?thesis using that [of lit_Undef] by (auto simp: filter_empty_conv)
    next
      case (Cons q rest)
      with out False have "rest = []" "lit_not q \<in> set ?D" by (auto split: if_splits)
      moreover have "set ?C - {q} \<subseteq> set ?D"
      proof
        fix x assume "x \<in> set ?C - {q}"
        moreover have "set (filter (\<lambda>p. p \<notin> set ?D) ?C) = {q}" using Cons \<open>rest = []\<close> by simp
        ultimately show "x \<in> set ?D" by auto
      qed
      ultimately show ?thesis using that by blast
    qed
    from subsumes_filters_pass [OF p] assms eq show ?thesis by (simp add: usable_clause_def)
  qed (simp add: eq)
qed


section \<open>Strengthening\<close>

lemma clause_remove_ok:
  assumes wf: "wf_clause d" and p: "p \<in> set (lits_of d)"
  shows "\<exists>d'. clause_remove d p = Inr d' \<and> wf_clause d' \<and> lits_of d' = remove1 p (lits_of d)
    \<and> cl_has_extra d' = cl_has_extra d \<and> cl_learnt d' = cl_learnt d"
proof -
  let ?n = "cl_length d" and ?j = "position_of (lits_of d) p" and ?ts = "cl_data d"
  have j: "?j < ?n" using p length_lits_of [OF wf] by (simp add: position_of_less [symmetric])
  have n: "?n \<le> length ?ts" using wf by (simp add: wf_clause_def)
  let ?ds = "shift_down ?ts ?j ?n"
  let ?es = "if cl_has_extra d then ?ds[?n - 1 := ?ds ! ?n] else ?ds"
  let ?d = "d\<lparr>cl_data := ?es, cl_size := cl_size d - 1\<rparr>"
  have "cl_size d \<noteq> 0" using j by auto
  then have size: "unat (cl_size d - 1) = ?n - 1" by (rule unat_minus_one)
  have "?n < length ?ts" if "cl_has_extra d" using wf that by (simp add: wf_clause_def)
  moreover have "?n - 1 < length ?ts" using j n by simp
  ultimately have "clause_remove d p = Inr ?d"
    using j wf length_lits_of [OF wf]
    by (simp add: clause_remove_def clause_lits_ok Let_def clause_pop_def clause_shrink_def
        shift_down_ok(2) [OF j n])
  moreover have "take (?n - 1) ?es = take (?n - 1) ?ds" by simp
  then have "take (?n - 1) ?es = take ?j ?ts @ take (?n - Suc ?j) (drop (Suc ?j) ?ts)"
    by (simp only: shift_down_ok(1) [OF j n])
  then have "lits_of ?d = map SLit (take ?j ?ts @ take (?n - Suc ?j) (drop (Suc ?j) ?ts))"
    by (simp add: lits_of_def [of ?d] size)
  then have "lits_of ?d = take ?j (lits_of d) @ drop (Suc ?j) (lits_of d)"
    using j by (simp add: lits_of_def take_map drop_map drop_take)
  then have "lits_of ?d = remove1 p (lits_of d)"
    using position_of_split [OF p] by (metis remove1.simps(2) remove1_append)
  moreover have "wf_clause ?d"
    using wf size j n shift_down_ok(2) [OF j n] by (auto simp: wf_clause_def)
  ultimately show ?thesis by (intro exI [of _ ?d]) simp
qed

lemma clause_remove_missing:
  "wf_clause d \<Longrightarrow> p \<notin> set (lits_of d) \<Longrightarrow> clause_remove d p = Inl Check_failed"
  using position_of_less [of "lits_of d" p] by (simp add: clause_remove_def clause_lits_ok Let_def)

lemma clause_strengthen_ok:
  assumes d: "usable_clause d" and p: "p \<in> set (lits_of d)"
  shows "\<exists>d'. clause_strengthen d p = Inr d' \<and> usable_clause d' \<and> lits_of d' = remove1 p (lits_of d)"
proof -
  have "wf_clause d" using d by (simp add: usable_clause_def good_abstraction_def)
  then obtain e where e: "clause_remove d p = Inr e" "wf_clause e" "lits_of e = remove1 p (lits_of d)"
    "cl_has_extra e = cl_has_extra d" "cl_learnt e = cl_learnt d"
    using clause_remove_ok p by blast
  then have "cl_has_extra e" using d by (simp add: usable_clause_def good_abstraction_def)
  then obtain d' where d': "calcAbstraction e = Inr d'" "good_abstraction d'" "lits_of d' = lits_of e"
    "cl_learnt d' = cl_learnt e"
    using calcAbstraction_ok [OF e(2)] by blast
  have sub: "set (remove1 p (lits_of d)) \<subseteq> set (lits_of d)" by (rule set_remove1_subset)
  then have "usable_clause d'"
    using d d' e by (auto simp: usable_clause_def tautology_def plain_lits_def)
  with e d' show ?thesis by (simp add: clause_strengthen_def)
qed

text \<open>A valuation of the literals, and the clauses it satisfies.\<close>

definition valuation :: "(solver_lit \<Rightarrow> bool) \<Rightarrow> bool" where
  "valuation v \<longleftrightarrow> (\<forall>q. v (lit_not q) = (\<not> v q))"

definition satisfies :: "(solver_lit \<Rightarrow> bool) \<Rightarrow> solver_lit list \<Rightarrow> bool" where
  "satisfies v ps \<longleftrightarrow> (\<exists>q \<in> set ps. v q)"

lemma distinct_singleton_iff: "distinct xs \<Longrightarrow> set xs = {p} \<longleftrightarrow> xs = [p]"
  by (cases xs rule: remdups_adj.cases) auto

lemma subsumes_cases:
  assumes "usable_clause c" "usable_clause d"
  obtains r where "subsumes c d = Inr r"
    "r = lit_Undef \<longleftrightarrow> set (lits_of c) \<subseteq> set (lits_of d)"
    "\<And>p. p \<noteq> lit_Undef \<Longrightarrow> p \<noteq> lit_Error \<Longrightarrow> r = p \<longleftrightarrow>
       p \<in> set (lits_of c) \<and> lit_not p \<in> set (lits_of d) \<and> set (lits_of c) - {p} \<subseteq> set (lits_of d)"
proof
  let ?C = "lits_of c" and ?D = "lits_of d"
  let ?new = "filter (\<lambda>p. p \<notin> set ?D) ?C"
  show "subsumes c d = Inr (subsumes_outer lit_Undef ?C ?D)" using assms by (rule subsumes_eq)
  have C: "distinct ?C" "lit_Undef \<notin> set ?C" and D: "\<not> tautology ?D"
    using assms by (auto simp: usable_clause_def plain_lits_def)
  have eq: "subsumes_outer lit_Undef ?C ?D = (case ?new of [] \<Rightarrow> lit_Undef
      | p # rest \<Rightarrow> if rest = [] \<and> lit_not p \<in> set ?D then p else lit_Error)"
    using subsumes_outer_eq [OF D C(2)] .
  have ne: "lit_Error \<noteq> lit_Undef" by (simp add: lit_Error_def lit_Undef_def)
  have "?new = [] \<longleftrightarrow> set ?C \<subseteq> set ?D" by (auto simp: filter_empty_conv)
  moreover have "q \<in> set ?C" if "?new = q # rest" for q rest
    using that by (metis filter_is_subset list.set_intros(1) subsetD)
  ultimately show "subsumes_outer lit_Undef ?C ?D = lit_Undef \<longleftrightarrow> set ?C \<subseteq> set ?D"
    using C(2) ne by (auto simp: eq split: list.splits)
  fix p assume p: "p \<noteq> lit_Undef" "p \<noteq> lit_Error"
  have "subsumes_outer lit_Undef ?C ?D = p \<longleftrightarrow> ?new = [p] \<and> lit_not p \<in> set ?D"
    using p by (auto simp: eq split: list.splits)
  also have "\<dots> \<longleftrightarrow> set ?new = {p} \<and> lit_not p \<in> set ?D"
    by (simp only: distinct_singleton_iff [OF distinct_filter [OF C(1)]])
  also have "\<dots> \<longleftrightarrow> p \<in> set ?C \<and> lit_not p \<in> set ?D \<and> set ?C - {p} \<subseteq> set ?D"
    using D by (auto simp: tautology_def)
  finally show "subsumes_outer lit_Undef ?C ?D = p \<longleftrightarrow>
      p \<in> set ?C \<and> lit_not p \<in> set ?D \<and> set ?C - {p} \<subseteq> set ?D" .
qed


text \<open>
  On clauses without repeated or complementary literals \<open>subsumes\<close> says that the first clause is a
  subset of the second, or returns the one literal that is missing in the second while its negation is
  there, so that the resolvent subsumes the second clause, or says that neither is the case. The size
  and abstraction filters never turn away a pair of clauses for which the answer is one of the first two.
\<close>

theorem subsumes_decides:
  assumes "usable_clause c" "usable_clause d"
  shows "\<exists>r. subsumes c d = Inr r
    \<and> (r = lit_Undef \<longleftrightarrow> set (lits_of c) \<subseteq> set (lits_of d))
    \<and> (\<forall>p. p \<noteq> lit_Undef \<and> p \<noteq> lit_Error \<longrightarrow>
        (r = p \<longleftrightarrow> p \<in> set (lits_of c) \<and> lit_not p \<in> set (lits_of d) \<and> set (lits_of c) - {p} \<subseteq> set (lits_of d)))"
  by (rule subsumes_cases [OF assms], intro exI conjI allI impI, assumption, assumption) (elim conjE)

text \<open>
  C31. When \<open>subsumes\<close> returns a literal, strengthening the second clause by its negation succeeds, keeps the
  clause usable and its abstraction up to date, and every assignment that satisfies both clauses satisfies the
  strengthened one. The literal itself, which the comment says can be deleted, is not in the second clause,
  and deleting it fails.
\<close>

theorem strengthening_sound:
  assumes c: "usable_clause c" and d: "usable_clause d"
    and r: "subsumes c d = Inr p" "p \<noteq> lit_Undef" "p \<noteq> lit_Error"
  shows "\<exists>d'. clause_strengthen d (lit_not p) = Inr d' \<and> usable_clause d'
    \<and> lits_of d' = remove1 (lit_not p) (lits_of d)
    \<and> (\<forall>v. valuation v \<and> satisfies v (lits_of c) \<and> satisfies v (lits_of d) \<longrightarrow> satisfies v (lits_of d'))
    \<and> clause_strengthen d p = Inl Check_failed"
proof -
  have p: "p \<in> set (lits_of c)" "lit_not p \<in> set (lits_of d)" "set (lits_of c) - {p} \<subseteq> set (lits_of d)"
    using subsumes_cases [OF c d] r by (metis sum.inject(2))+
  obtain d' where d': "clause_strengthen d (lit_not p) = Inr d'" "usable_clause d'"
    "lits_of d' = remove1 (lit_not p) (lits_of d)"
    using clause_strengthen_ok [OF d p(2)] by blast
  have distinct: "distinct (lits_of d)" and wf: "wf_clause d"
    using d by (simp_all add: usable_clause_def good_abstraction_def)
  have set': "set (lits_of d') = set (lits_of d) - {lit_not p}" using d'(3) distinct by simp
  have "satisfies v (lits_of d')"
    if v: "valuation v" "satisfies v (lits_of c)" "satisfies v (lits_of d)" for v
  proof (cases "v p")
    case True
    then have "\<not> v (lit_not p)" using v(1) by (simp add: valuation_def)
    with v(3) show ?thesis by (auto simp: satisfies_def set')
  next
    case False
    with v(2) obtain q where q: "q \<in> set (lits_of c)" "v q" by (auto simp: satisfies_def)
    then have "q \<noteq> lit_not p"
      using c p(1) by (auto simp: usable_clause_def tautology_def)
    then have "q \<in> set (lits_of d')" using q False p(3) by (auto simp: set')
    then show ?thesis using q by (auto simp: satisfies_def)
  qed
  moreover have "p \<notin> set (lits_of d)" using d p(2) by (auto simp: usable_clause_def tautology_def)
  then have "clause_strengthen d p = Inl Check_failed"
    by (simp add: clause_strengthen_def clause_remove_missing [OF wf])
  ultimately show ?thesis using d' by blast
qed

text \<open>Two clauses: \<open>x0 \<or> \<not> x1\<close> and \<open>x1 \<or> x0 \<or> x2\<close>.\<close>

definition clause_a :: solver_clause where
  "clause_a = \<lparr>cl_mark = 0, cl_learnt = False, cl_has_extra = True, cl_reloced = False, cl_size = 2,
     cl_data = [0, 3, 3]\<rparr>"

definition clause_b :: solver_clause where
  "clause_b = \<lparr>cl_mark = 0, cl_learnt = False, cl_has_extra = True, cl_reloced = False, cl_size = 3,
     cl_data = [2, 0, 4, 7]\<rparr>"

lemma usable_a: "usable_clause clause_a" and usable_b: "usable_clause clause_b"
  by (simp_all add: usable_clause_def good_abstraction_def wf_clause_def clause_a_def clause_b_def lits_of_def
      abstraction_of_def var_bit_def var_def tautology_def lit_not_def plain_lits_def lit_Undef_def lit_Error_def)

lemma subsumes_a_b: "subsumes clause_a clause_b = Inr (SLit 3)"
  by code_simp

lemma subsumes_decides_witness:
  "lit_not (SLit 3) \<in> set (lits_of clause_b) \<and> \<not> set (lits_of clause_a) \<subseteq> set (lits_of clause_b)"
proof -
  have "SLit 3 \<noteq> lit_Undef \<and> SLit 3 \<noteq> lit_Error" by (simp add: lit_Undef_def lit_Error_def)
  then show ?thesis using subsumes_decides [OF usable_a usable_b] subsumes_a_b by auto
qed

lemma strengthening_sound_witness:
  "\<exists>d. clause_strengthen clause_b (SLit 2) = Inr d \<and> lits_of d = [SLit 0, SLit 4]
    \<and> clause_strengthen clause_b (SLit 3) = Inl Check_failed"
proof -
  have "SLit 3 \<noteq> lit_Undef" "SLit 3 \<noteq> lit_Error" by (simp_all add: lit_Undef_def lit_Error_def)
  moreover have "lit_not (SLit 3) = SLit 2" by code_simp
  moreover have "remove1 (SLit 2) (lits_of clause_b) = [SLit 0, SLit 4]" by code_simp
  ultimately show ?thesis using strengthening_sound [OF usable_a usable_b subsumes_a_b] by auto
qed

end
