(* ===== verification/Occurrence_Lists.thy ===== *)
theory Occurrence_Lists
  imports Minisat_Clauses
begin

text \<open>
  The lists with lazy deletion of \<open>OccLists\<close> in \<open>examples/solvers/minisat/core/SolverTypes.h\<close>, which hold the
  watchers of a literal and the occurrences of a variable. An index is the integer that \<open>toInt\<close> gives for it; the
  function \<open>deleted\<close> is the functor of the class. A deleted element stays in its lists, which are marked dirty,
  until they are looked up or all cleaned; the property says that the callers never see it.
\<close>

section \<open>The lists and their operations\<close>

record 'a occ_lists =
  ol_occs :: "'a list list"
  ol_dirty :: "bool list"
  ol_dirties :: "nat list"

definition vec_growTo :: "'a list \<Rightarrow> nat \<Rightarrow> 'a \<Rightarrow> 'a list" where
  "vec_growTo xs n pad = (if n \<le> length xs then xs else xs @ replicate (n - length xs) pad)"

definition OccLists_new :: "'a occ_lists" where
  "OccLists_new = \<lparr>ol_occs = [], ol_dirty = [], ol_dirties = []\<rparr>"

definition OccLists_init :: "'a occ_lists \<Rightarrow> nat \<Rightarrow> 'a occ_lists" where
  "OccLists_init ol idx = ol\<lparr>ol_occs := vec_growTo (ol_occs ol) (idx + 1) [],
     ol_dirty := vec_growTo (ol_dirty ol) (idx + 1) False\<rparr>"

definition OccLists_get :: "'a occ_lists \<Rightarrow> nat \<Rightarrow> 'a list result" where
  "OccLists_get ol idx = vec_at (ol_occs ol) idx"

text \<open>The loop of \<open>clean\<close> with its two positions in the vector, and the shrinking after it.\<close>

definition compact_step :: "('a \<Rightarrow> bool) \<Rightarrow> 'a list \<times> nat \<Rightarrow> nat \<Rightarrow> 'a list \<times> nat" where
  "compact_step deleted = (\<lambda>(v, j) i. if deleted (v ! i) then (v, j) else (v[j := v ! i], j + 1))"

definition compact :: "('a \<Rightarrow> bool) \<Rightarrow> 'a list \<Rightarrow> 'a list" where
  "compact deleted v = (let (v', j) = foldl (compact_step deleted) (v, 0) [0..<length v]
     in take (length v' - (length v - j)) v')"

definition OccLists_clean :: "('a \<Rightarrow> bool) \<Rightarrow> nat \<Rightarrow> 'a occ_lists \<Rightarrow> 'a occ_lists result" where
  "OccLists_clean deleted idx ol =
     andThen (vec_at (ol_occs ol) idx) (\<lambda>v.
     andThen (vec_put (ol_occs ol) idx (compact deleted v)) (\<lambda>os.
     andThen (vec_put (ol_dirty ol) idx False) (\<lambda>ds.
       Inr (ol\<lparr>ol_occs := os, ol_dirty := ds\<rparr>))))"

definition clean_if_dirty :: "('a \<Rightarrow> bool) \<Rightarrow> nat \<Rightarrow> 'a occ_lists \<Rightarrow> 'a occ_lists result" where
  "clean_if_dirty deleted idx ol = andThen (vec_at (ol_dirty ol) idx) (\<lambda>b.
     if b then OccLists_clean deleted idx ol else Inr ol)"

definition OccLists_lookup :: "('a \<Rightarrow> bool) \<Rightarrow> 'a occ_lists \<Rightarrow> nat \<Rightarrow> ('a list \<times> 'a occ_lists) result" where
  "OccLists_lookup deleted ol idx =
     andThen (clean_if_dirty deleted idx ol) (\<lambda>ol'.
     andThen (vec_at (ol_occs ol') idx) (\<lambda>v. Inr (v, ol')))"

definition OccLists_smudge :: "nat \<Rightarrow> 'a occ_lists \<Rightarrow> 'a occ_lists result" where
  "OccLists_smudge idx ol =
     andThen (vec_at (ol_dirty ol) idx) (\<lambda>b.
     if \<not> b then andThen (vec_put (ol_dirty ol) idx True) (\<lambda>ds.
         Inr (ol\<lparr>ol_dirty := ds, ol_dirties := ol_dirties ol @ [idx]\<rparr>))
     else Inr ol)"

definition OccLists_cleanAll :: "('a \<Rightarrow> bool) \<Rightarrow> 'a occ_lists \<Rightarrow> 'a occ_lists result" where
  "OccLists_cleanAll deleted ol =
     andThen (foldR (clean_if_dirty deleted) (ol_dirties ol) ol) (\<lambda>ol.
     Inr (ol\<lparr>ol_dirties := []\<rparr>))"

definition OccLists_clear :: "'a occ_lists \<Rightarrow> 'a occ_lists" where
  "OccLists_clear ol = \<lparr>ol_occs = [], ol_dirty = [], ol_dirties = []\<rparr>"

section \<open>The invariant of lazy deletion\<close>

definition occ_wf :: "'a occ_lists \<Rightarrow> bool" where
  "occ_wf ol \<longleftrightarrow> length (ol_occs ol) = length (ol_dirty ol)
     \<and> (\<forall>i \<in> set (ol_dirties ol). i < length (ol_dirty ol))
     \<and> (\<forall>i < length (ol_dirty ol). ol_dirty ol ! i \<longrightarrow> i \<in> set (ol_dirties ol))"

definition clean_lists :: "('a \<Rightarrow> bool) \<Rightarrow> 'a occ_lists \<Rightarrow> bool" where
  "clean_lists deleted ol \<longleftrightarrow>
     (\<forall>i < length (ol_occs ol). \<not> ol_dirty ol ! i \<longrightarrow> (\<forall>x \<in> set (ol_occs ol ! i). \<not> deleted x))"

definition live :: "('a \<Rightarrow> bool) \<Rightarrow> 'a list \<Rightarrow> 'a list" where
  "live deleted = filter (\<lambda>x. \<not> deleted x)"

lemma occ_init_ok: "occ_wf ol \<Longrightarrow> clean_lists deleted ol \<Longrightarrow>
  occ_wf (OccLists_init ol i) \<and> clean_lists deleted (OccLists_init ol i) \<and> i < length (ol_occs (OccLists_init ol i))"
  by (auto simp: occ_wf_def clean_lists_def OccLists_init_def vec_growTo_def nth_append)

lemma compact_loop:
  assumes "n \<le> length v"
  shows "\<exists>v' j. foldl (compact_step deleted) (v, 0) [0..<n] = (v', j)
    \<and> j = length (live deleted (take n v)) \<and> take j v' = live deleted (take n v)
    \<and> drop n v' = drop n v \<and> length v' = length v \<and> j \<le> n"
  using assms
proof (induction n)
  case (Suc n)
  then obtain v' j where IH: "foldl (compact_step deleted) (v, 0) [0..<n] = (v', j)"
    "j = length (live deleted (take n v))" "take j v' = live deleted (take n v)"
    "drop n v' = drop n v" "length v' = length v" "j \<le> n" by auto
  have n: "n < length v" using Suc.prems by simp
  have same: "v' ! n = v ! n" using IH(4,5) n by (metis hd_drop_conv_nth)
  have d: "drop (Suc n) v' = drop (Suc n) v" using IH(4) by (metis drop_Suc tl_drop)
  have step: "live deleted (take (Suc n) v)
      = live deleted (take n v) @ (if deleted (v ! n) then [] else [v ! n])"
    using n by (simp add: take_Suc_conv_app_nth live_def)
  show ?case
  proof (cases "deleted (v ! n)")
    case True
    with IH same step d show ?thesis by (simp add: compact_step_def)
  next
    case False
    have "take (Suc j) (v'[j := v ! n]) = take j v' @ [v ! n]"
      using IH(5,6) n by (simp add: take_Suc_conv_app_nth take_update_cancel)
    with False IH same step d show ?thesis by (simp add: compact_step_def)
  qed
qed (simp add: live_def)

lemma compact_ok: "compact deleted v = live deleted v"
  using compact_loop [of "length v" v deleted] by (auto simp: compact_def)

lemma occ_clean_ok:
  assumes "occ_wf ol" "i < length (ol_occs ol)"
  shows "OccLists_clean deleted i ol = Inr (ol\<lparr>ol_occs := (ol_occs ol)[i := live deleted (ol_occs ol ! i)],
    ol_dirty := (ol_dirty ol)[i := False]\<rparr>)"
  using assms by (simp add: OccLists_clean_def compact_ok occ_wf_def)

lemma occ_wf_cleaned:
  "occ_wf ol \<Longrightarrow> i < length (ol_dirty ol) \<Longrightarrow>
   occ_wf (ol\<lparr>ol_occs := (ol_occs ol)[i := v], ol_dirty := (ol_dirty ol)[i := False]\<rparr>)"
  by (auto simp: occ_wf_def nth_list_update)

lemma live_unchanged: "\<forall>x \<in> set xs. \<not> deleted x \<Longrightarrow> live deleted xs = xs"
  by (simp add: live_def filter_id_conv)

lemma live_live [simp]: "live deleted (live deleted xs) = live deleted xs"
  by (simp add: live_def)

text \<open>Smudging every list of an element before it is deleted keeps the invariant.\<close>

lemma occ_smudge_ok:
  assumes "occ_wf ol" "i < length (ol_occs ol)"
  shows "\<exists>ol'. OccLists_smudge i ol = Inr ol' \<and> occ_wf ol' \<and> ol_occs ol' = ol_occs ol
    \<and> ol_dirty ol' = (ol_dirty ol)[i := True]"
  using assms list_update_id [of "ol_dirty ol" i]
  by (cases "ol_dirty ol ! i") (auto simp: OccLists_smudge_def occ_wf_def nth_list_update)

lemma occ_smudge_all:
  "occ_wf ol \<Longrightarrow> \<forall>i \<in> set is. i < length (ol_occs ol) \<Longrightarrow>
   \<exists>ol'. foldR OccLists_smudge is ol = Inr ol' \<and> occ_wf ol' \<and> ol_occs ol' = ol_occs ol
     \<and> (\<forall>k < length (ol_occs ol). ol_dirty ol' ! k = (ol_dirty ol ! k \<or> k \<in> set is))"
proof (induction "is" arbitrary: ol)
  case (Cons i "is")
  obtain ol1 where ol1: "OccLists_smudge i ol = Inr ol1" "occ_wf ol1" "ol_occs ol1 = ol_occs ol"
    "ol_dirty ol1 = (ol_dirty ol)[i := True]"
    using occ_smudge_ok Cons.prems by (metis list.set_intros(1))
  then obtain ol' where ol': "foldR OccLists_smudge is ol1 = Inr ol'" "occ_wf ol'" "ol_occs ol' = ol_occs ol"
    "\<forall>k < length (ol_occs ol). ol_dirty ol' ! k = ((ol_dirty ol)[i := True] ! k \<or> k \<in> set is)"
    using Cons.IH [of ol1] Cons.prems(2) by auto
  have "length (ol_dirty ol) = length (ol_occs ol)" using Cons.prems(1) by (simp add: occ_wf_def)
  then have "ol_dirty ol' ! k = (ol_dirty ol ! k \<or> k \<in> set (i # is))" if "k < length (ol_occs ol)" for k
    using ol'(4) that Cons.prems(2) by (cases "k = i") (simp_all add: nth_list_update)
  with ol' ol1(1) show ?case by simp
qed simp

lemma clean_if_dirty_ok:
  assumes wf: "occ_wf ol" and i: "i < length (ol_occs ol)"
  shows "\<exists>ol'. clean_if_dirty deleted i ol = Inr ol' \<and> occ_wf ol' \<and> length (ol_occs ol') = length (ol_occs ol)
    \<and> (\<forall>k < length (ol_occs ol). ol_dirty ol' ! k = (ol_dirty ol ! k \<and> k \<noteq> i)
         \<and> ol_occs ol' ! k = (if ol_dirty ol ! k \<and> k = i then live deleted (ol_occs ol ! k) else ol_occs ol ! k))"
proof (cases "ol_dirty ol ! i")
  case True
  have "i < length (ol_dirty ol)" using wf i by (simp add: occ_wf_def)
  with True show ?thesis
    using occ_clean_ok [OF wf i, of deleted] occ_wf_cleaned [OF wf, of i "live deleted (ol_occs ol ! i)"] i
    by (simp add: clean_if_dirty_def nth_list_update)
next
  case False
  then show ?thesis using wf i by (auto simp: clean_if_dirty_def occ_wf_def)
qed

lemma occ_lookup_ok:
  assumes wf: "occ_wf ol" and cl: "clean_lists deleted ol" and i: "i < length (ol_occs ol)"
  shows "\<exists>ol'. OccLists_lookup deleted ol i = Inr (live deleted (ol_occs ol ! i), ol')
    \<and> occ_wf ol' \<and> clean_lists deleted ol'"
proof -
  obtain ol1 where ol1: "clean_if_dirty deleted i ol = Inr ol1" "occ_wf ol1" "length (ol_occs ol1) = length (ol_occs ol)"
    "\<forall>k < length (ol_occs ol). ol_dirty ol1 ! k = (ol_dirty ol ! k \<and> k \<noteq> i)
         \<and> ol_occs ol1 ! k = (if ol_dirty ol ! k \<and> k = i then live deleted (ol_occs ol ! k) else ol_occs ol ! k)"
    using clean_if_dirty_ok [OF wf i, of deleted] by auto
  have "live deleted (ol_occs ol ! i) = ol_occs ol ! i" if "\<not> ol_dirty ol ! i"
    using cl i that by (intro live_unchanged) (simp add: clean_lists_def)
  then have "ol_occs ol1 ! i = live deleted (ol_occs ol ! i)" using ol1(4) i by simp
  moreover have "clean_lists deleted ol1"
    using cl ol1(3,4) by (auto simp: clean_lists_def live_def split: if_splits)
  ultimately show ?thesis using ol1(1,2,3) i by (simp add: OccLists_lookup_def)
qed

lemma occ_clean_loop:
  assumes "occ_wf ol" "\<forall>i \<in> set is. i < length (ol_occs ol)"
  shows "\<exists>ol'. foldR (clean_if_dirty deleted) is ol = Inr ol' \<and> occ_wf ol'
     \<and> length (ol_occs ol') = length (ol_occs ol)
     \<and> (\<forall>k < length (ol_occs ol). ol_dirty ol' ! k = (ol_dirty ol ! k \<and> k \<notin> set is)
         \<and> ol_occs ol' ! k = (if ol_dirty ol ! k \<and> k \<in> set is then live deleted (ol_occs ol ! k) else ol_occs ol ! k))"
  using assms
proof (induction "is" arbitrary: ol)
  case (Cons i "is")
  obtain ol1 where ol1: "clean_if_dirty deleted i ol = Inr ol1" "occ_wf ol1" "length (ol_occs ol1) = length (ol_occs ol)"
    "\<forall>k < length (ol_occs ol). ol_dirty ol1 ! k = (ol_dirty ol ! k \<and> k \<noteq> i)
         \<and> ol_occs ol1 ! k = (if ol_dirty ol ! k \<and> k = i then live deleted (ol_occs ol ! k) else ol_occs ol ! k)"
    using clean_if_dirty_ok [OF Cons.prems(1), of i deleted] Cons.prems(2) by auto
  obtain ol' where ol': "foldR (clean_if_dirty deleted) is ol1 = Inr ol'" "occ_wf ol'"
    "length (ol_occs ol') = length (ol_occs ol)"
    "\<forall>k < length (ol_occs ol). ol_dirty ol' ! k = (ol_dirty ol1 ! k \<and> k \<notin> set is)
         \<and> ol_occs ol' ! k = (if ol_dirty ol1 ! k \<and> k \<in> set is then live deleted (ol_occs ol1 ! k) else ol_occs ol1 ! k)"
    using Cons.IH [OF ol1(2)] Cons.prems(2) ol1(3) by auto
  have "ol_dirty ol' ! k = (ol_dirty ol ! k \<and> k \<notin> set (i # is)) \<and> ol_occs ol' ! k =
      (if ol_dirty ol ! k \<and> k \<in> set (i # is) then live deleted (ol_occs ol ! k) else ol_occs ol ! k)"
    if "k < length (ol_occs ol)" for k
    using ol'(4) ol1(4) that by (cases "k = i") simp_all
  with ol' ol1(1) show ?case by simp
qed simp

lemma occ_cleanAll_ok:
  assumes wf: "occ_wf ol" and cl: "clean_lists deleted ol"
  shows "\<exists>ol'. OccLists_cleanAll deleted ol = Inr ol' \<and> occ_wf ol' \<and> clean_lists deleted ol'
    \<and> ol_occs ol' = map (live deleted) (ol_occs ol) \<and> ol_dirties ol' = [] \<and> True \<notin> set (ol_dirty ol')"
proof -
  have ids: "\<forall>i \<in> set (ol_dirties ol). i < length (ol_occs ol)" using wf by (simp add: occ_wf_def)
  obtain ol' where ol': "foldR (clean_if_dirty deleted) (ol_dirties ol) ol = Inr ol'"
    "occ_wf ol'" "length (ol_occs ol') = length (ol_occs ol)"
    "\<forall>k < length (ol_occs ol). ol_dirty ol' ! k = (ol_dirty ol ! k \<and> k \<notin> set (ol_dirties ol))
         \<and> ol_occs ol' ! k = (if ol_dirty ol ! k \<and> k \<in> set (ol_dirties ol) then live deleted (ol_occs ol ! k) else ol_occs ol ! k)"
    using occ_clean_loop [OF wf ids] by blast
  let ?n = "length (ol_occs ol)"
  have dirty: "ol_dirty ol ! k \<Longrightarrow> k \<in> set (ol_dirties ol)" if "k < ?n" for k
    using wf that by (simp add: occ_wf_def)
  have clean: "\<not> ol_dirty ol' ! k" "ol_occs ol' ! k = live deleted (ol_occs ol ! k)" if "k < ?n" for k
    using ol'(4) dirty that cl live_unchanged [of "ol_occs ol ! k" deleted] by (auto simp: clean_lists_def)
  have "ol_occs ol' = map (live deleted) (ol_occs ol)"
    by (rule nth_equalityI) (simp_all add: ol'(3) clean)
  moreover have "True \<notin> set (ol_dirty ol')"
    using clean(1) ol'(2,3) by (auto simp: in_set_conv_nth occ_wf_def)
  moreover have "occ_wf (ol'\<lparr>ol_dirties := []\<rparr>)"
    using ol'(2,3) clean(1) by (simp add: occ_wf_def)
  moreover have "clean_lists deleted (ol'\<lparr>ol_dirties := []\<rparr>)"
    using clean(2) ol'(3) by (simp add: clean_lists_def live_def)
  ultimately show ?thesis using ol'(1) by (simp add: OccLists_cleanAll_def)
qed

text \<open>
  C32. An element is deleted lazily: once the lists that hold it are smudged, every lookup returns the list without the
  deleted elements and keeps the invariant, and cleaning all lists filters all of them at once and leaves none
  marked.
\<close>

theorem lazy_deletion:
  assumes wf: "occ_wf ol" and cl: "clean_lists deleted ol"
    and ids: "\<forall>i \<in> set is. i < length (ol_occs ol)"
    and occ: "\<forall>i < length (ol_occs ol). x \<in> set (ol_occs ol ! i) \<longrightarrow> i \<in> set is"
  shows "\<exists>ol1 ol2. foldR OccLists_smudge is ol = Inr ol1
    \<and> (\<forall>i < length (ol_occs ol). \<exists>ol3.
         OccLists_lookup (\<lambda>y. deleted y \<or> y = x) ol1 i
           = Inr (live (\<lambda>y. deleted y \<or> y = x) (ol_occs ol ! i), ol3)
         \<and> occ_wf ol3 \<and> clean_lists (\<lambda>y. deleted y \<or> y = x) ol3)
    \<and> OccLists_cleanAll (\<lambda>y. deleted y \<or> y = x) ol1 = Inr ol2
    \<and> ol_occs ol2 = map (live (\<lambda>y. deleted y \<or> y = x)) (ol_occs ol)
    \<and> ol_dirties ol2 = [] \<and> True \<notin> set (ol_dirty ol2) \<and> occ_wf ol2"
proof -
  let ?del = "\<lambda>y. deleted y \<or> y = x"
  obtain ol1 where ol1: "foldR OccLists_smudge is ol = Inr ol1" "occ_wf ol1" "ol_occs ol1 = ol_occs ol"
    "\<forall>k < length (ol_occs ol). ol_dirty ol1 ! k = (ol_dirty ol ! k \<or> k \<in> set is)"
    using occ_smudge_all [OF wf ids] by blast
  have "clean_lists ?del ol1" using cl occ ol1(3,4) by (auto simp: clean_lists_def)
  then show ?thesis
    using occ_lookup_ok [OF ol1(2), of ?del] occ_cleanAll_ok [OF ol1(2), of ?del] ol1(1,3) by fastforce
qed

lemma lazy_deletion_witness:
  "\<exists>ol1 ol2. foldR OccLists_smudge [0, 2] \<lparr>ol_occs = [[1, 2], [1], [2, 3 :: nat]], ol_dirty = [False, False, False], ol_dirties = []\<rparr>
      = Inr ol1 \<and> OccLists_cleanAll (\<lambda>y. False \<or> y = 2) ol1 = Inr ol2 \<and> ol_occs ol2 = [[1], [1], [3]]"
proof -
  let ?ol = "\<lparr>ol_occs = [[1, 2], [1], [2, 3 :: nat]], ol_dirty = [False, False, False], ol_dirties = []\<rparr>"
  have "occ_wf ?ol" "clean_lists (\<lambda>y. False) ?ol" by (simp_all add: occ_wf_def clean_lists_def less_Suc_eq)
  moreover have "\<forall>i < length (ol_occs ?ol). 2 \<in> set (ol_occs ?ol ! i) \<longrightarrow> i \<in> set [0, 2]"
    by (simp add: less_Suc_eq nth_Cons')
  ultimately show ?thesis
    using lazy_deletion [of ?ol "\<lambda>y. False" "[0, 2]" 2] by (auto simp: live_def)
qed

end
