(* ===== verification/Solver_Trails.thy ===== *)
theory Solver_Trails
  imports Sessions Heap_Properties Occurrence_Lists
begin

text \<open>
  The part of \<open>Solver\<close> in \<open>examples/solvers/glucose-3.0/core/Solver.cc\<close> and \<open>Solver.h\<close> that keeps the trail, and
  where it calls the controller: a literal is notified when \<open>propagate\<close> takes it from the queue, and cancelled by
  \<open>cancelUntil\<close> with everything above a decision level. Activities are the elements of a linear order. The watch
  lists are only initialised here; propagation itself is not modelled.
\<close>

section \<open>State\<close>

record var_data =
  vd_reason :: int32
  vd_level :: nat

record watcher =
  wt_cref :: int32
  wt_blocker :: solver_lit

record 'd solver =
  sv_assigns :: "lbool list"
  sv_polarity :: "bool list"
  sv_decision :: "bool list"
  sv_vardata :: "var_data list"
  sv_activity :: "'d list"
  sv_seen :: "bool list"
  sv_permDiff :: "int32 list"
  sv_trail :: "solver_lit list"
  sv_trail_lim :: "nat list"
  sv_qhead :: nat
  sv_order_heap :: solver_heap
  sv_watches :: "watcher occ_lists"
  sv_watchesBin :: "watcher occ_lists"
  sv_dec_vars :: int64
  sv_phase_saving :: nat
  sv_symmetry :: "controller option"

definition CRef_Undef :: int32 where
  "CRef_Undef = - 1"

definition VarOrderLt :: "'d :: linorder list \<Rightarrow> nat \<Rightarrow> nat \<Rightarrow> bool" where
  "VarOrderLt activity x y \<longleftrightarrow> activity ! y < activity ! x"

definition nVars :: "'d solver \<Rightarrow> nat" where
  "nVars s = length (sv_vardata s)"

definition value_var :: "'d solver \<Rightarrow> nat \<Rightarrow> lbool result" where
  "value_var s x = vec_at (sv_assigns s) x"

definition value_lit :: "'d solver \<Rightarrow> solver_lit \<Rightarrow> lbool result" where
  "value_lit s p = andThen (vec_at (sv_assigns s) (unat (var p))) (\<lambda>a. Inr (lbool_xor a (sign p)))"

definition decisionLevel :: "'d solver \<Rightarrow> nat" where
  "decisionLevel s = length (sv_trail_lim s)"

definition newDecisionLevel :: "'d solver \<Rightarrow> 'd solver" where
  "newDecisionLevel s = s\<lparr>sv_trail_lim := sv_trail_lim s @ [length (sv_trail s)]\<rparr>"

definition solver_reason :: "'d solver \<Rightarrow> nat \<Rightarrow> int32 result" where
  "solver_reason s x = andThen (vec_at (sv_vardata s) x) (\<lambda>d. Inr (vd_reason d))"

definition solver_level :: "'d solver \<Rightarrow> nat \<Rightarrow> nat result" where
  "solver_level s x = andThen (vec_at (sv_vardata s) x) (\<lambda>d. Inr (vd_level d))"

definition nAssigns :: "'d solver \<Rightarrow> nat" where
  "nAssigns s = length (sv_trail s)"

definition nFreeVars :: "'d solver \<Rightarrow> int32" where
  "nFreeVars s = ucast (sv_dec_vars s)
     - of_nat (if length (sv_trail_lim s) = 0 then length (sv_trail s) else sv_trail_lim s ! 0)"

section \<open>Variables\<close>

definition insertVarOrder :: "nat \<Rightarrow> 'd :: linorder solver \<Rightarrow> 'd solver result" where
  "insertVarOrder x s =
     (if Heap_inHeap (sv_order_heap s) x then Inr s
      else andThen (vec_at (sv_decision s) x) (\<lambda>d.
           if d then andThen (Heap_insert (VarOrderLt (sv_activity s)) x (sv_order_heap s)) (\<lambda>h.
             Inr (s\<lparr>sv_order_heap := h\<rparr>))
           else Inr s))"

definition setPolarity :: "'d solver \<Rightarrow> nat \<Rightarrow> bool \<Rightarrow> 'd solver result" where
  "setPolarity s v b = andThen (vec_put (sv_polarity s) v b) (\<lambda>ps. Inr (s\<lparr>sv_polarity := ps\<rparr>))"

definition setDecisionVar :: "nat \<Rightarrow> bool \<Rightarrow> 'd :: linorder solver \<Rightarrow> 'd solver result" where
  "setDecisionVar v b s =
     andThen (vec_at (sv_decision s) v) (\<lambda>d.
     andThen (vec_put (sv_decision s) v b) (\<lambda>ds.
     insertVarOrder v (s\<lparr>sv_decision := ds,
       sv_dec_vars := (if b \<and> \<not> d then sv_dec_vars s + 1 else if \<not> b \<and> d then sv_dec_vars s - 1
                       else sv_dec_vars s)\<rparr>)))"

text \<open>The initial activity is 0 or a small random number: it is an argument.\<close>

definition newVar :: "'d :: linorder \<Rightarrow> bool \<Rightarrow> bool \<Rightarrow> 'd solver \<Rightarrow> (nat \<times> 'd solver) result" where
  "newVar act0 polarity dvar s =
     (let v = nVars s;
          pos = unat (lit_toInt (mkLit (of_nat v) False)); neg = unat (lit_toInt (mkLit (of_nat v) True)) in
      andThen (setDecisionVar v dvar
        (s\<lparr>sv_watches := OccLists_init (OccLists_init (sv_watches s) pos) neg,
           sv_watchesBin := OccLists_init (OccLists_init (sv_watchesBin s) pos) neg,
           sv_assigns := sv_assigns s @ [l_Undef],
           sv_vardata := sv_vardata s @ [\<lparr>vd_reason = CRef_Undef, vd_level = 0\<rparr>],
           sv_activity := sv_activity s @ [act0],
           sv_seen := sv_seen s @ [False],
           sv_permDiff := sv_permDiff s @ [0],
           sv_polarity := sv_polarity s @ [polarity],
           sv_decision := sv_decision s @ [False]\<rparr>)) (\<lambda>s. Inr (v, s)))"

section \<open>The trail\<close>

definition uncheckedEnqueue :: "solver_lit \<Rightarrow> int32 \<Rightarrow> 'd solver \<Rightarrow> 'd solver result" where
  "uncheckedEnqueue p from_clause s =
     andThen (value_lit s p) (\<lambda>v. check (lbool_eq v l_Undef)
     (andThen (vec_put (sv_assigns s) (unat (var p)) (lbool_of (\<not> sign p))) (\<lambda>as.
      andThen (vec_put (sv_vardata s) (unat (var p)) \<lparr>vd_reason = from_clause, vd_level = decisionLevel s\<rparr>) (\<lambda>vd.
        Inr (s\<lparr>sv_assigns := as, sv_vardata := vd, sv_trail := sv_trail s @ [p]\<rparr>)))))"

definition enqueue :: "solver_lit \<Rightarrow> int32 \<Rightarrow> 'd solver \<Rightarrow> (bool \<times> 'd solver) result" where
  "enqueue p from_clause s =
     andThen (value_lit s p) (\<lambda>v.
       if \<not> lbool_eq v l_Undef then Inr (\<not> lbool_eq v l_False, s)
       else andThen (uncheckedEnqueue p from_clause s) (\<lambda>s. Inr (True, s)))"

text \<open>One iteration of the loop of \<open>cancelUntil\<close>.\<close>

definition cancel_step :: "(nat list \<Rightarrow> nat list) \<Rightarrow> nat \<Rightarrow> 'd :: linorder solver \<Rightarrow> 'd solver result" where
  "cancel_step ord c s =
     andThen (vec_at (sv_trail s) c) (\<lambda>p. let x = unat (var p) in
     andThen (vec_put (sv_assigns s) x l_Undef) (\<lambda>as.
     andThen (case sv_symmetry s of None \<Rightarrow> Inr None
        | Some y \<Rightarrow> andThen (controller_updateCancel GlucoseLiteralAdapter ord p y) (\<lambda>y'. Inr (Some y'))) (\<lambda>sy.
     andThen (if 1 < sv_phase_saving s \<or> sv_phase_saving s = 1 \<and> last (sv_trail_lim s) < c
        then vec_put (sv_polarity s) x (sign p) else Inr (sv_polarity s)) (\<lambda>ps.
     insertVarOrder x (s\<lparr>sv_assigns := as, sv_symmetry := sy, sv_polarity := ps\<rparr>)))))"

definition cancelUntil :: "(nat list \<Rightarrow> nat list) \<Rightarrow> nat \<Rightarrow> 'd :: linorder solver \<Rightarrow> 'd solver result" where
  "cancelUntil ord level s =
     (if level < decisionLevel s then
        let lim = sv_trail_lim s ! level in
        andThen (foldR (cancel_step ord) (rev [lim..<length (sv_trail s)]) s) (\<lambda>s.
          Inr (s\<lparr>sv_qhead := lim, sv_trail := take lim (sv_trail s), sv_trail_lim := take level (sv_trail_lim s)\<rparr>))
      else Inr s)"

text \<open>The head of the loop of \<open>propagate\<close>: the next literal of the queue is taken and notified.\<close>

definition propagate_next :: "(nat list \<Rightarrow> nat list) \<Rightarrow> 'd solver \<Rightarrow> (solver_lit \<times> 'd solver) result" where
  "propagate_next ord s =
     andThen (vec_at (sv_trail s) (sv_qhead s)) (\<lambda>p.
     andThen (case sv_symmetry s of None \<Rightarrow> Inr None
        | Some y \<Rightarrow> andThen (controller_updateNotify GlucoseLiteralAdapter ord p y) (\<lambda>y'. Inr (Some y'))) (\<lambda>sy.
       Inr (p, s\<lparr>sv_qhead := sv_qhead s + 1, sv_symmetry := sy\<rparr>)))"

text \<open>The part of \<open>learntSymmetryClause\<close> that fetches the literals of the clause.\<close>

definition symmetry_clause_for ::
    "ClauseType \<Rightarrow> solver_lit \<Rightarrow> 'd solver \<Rightarrow> (solver_lit list option \<times> 'd solver) result" where
  "symmetry_clause_for t p s = (case sv_symmetry s of None \<Rightarrow> Inr (None, s)
     | Some y \<Rightarrow> andThen (hasClauseToInject_for GlucoseLiteralAdapter t p y) (\<lambda>b.
         if b then andThen (clauseToInject_for GlucoseLiteralAdapter t p y) (\<lambda>(vsbp, y').
           Inr (Some vsbp, s\<lparr>sv_symmetry := Some y'\<rparr>))
         else Inr (None, s)))"

section \<open>Choosing the next decision\<close>

lemma percolate_down_loop_length:
  "percolate_down_loop lt x h i = Inr (h', j) \<Longrightarrow> length (hp_heap h') = length (hp_heap h)"
proof (induction lt x h i rule: percolate_down_loop.induct)
  case (1 lt x h i)
  then show ?case
    by (subst (asm) percolate_down_loop.simps)
      (auto simp: heap_put_def run_simps split: if_splits sum.splits)
qed

lemma percolateDown_length: "percolateDown lt i h = Inr h' \<Longrightarrow> length (hp_heap h') = length (hp_heap h)"
  by (auto simp: percolateDown_def heap_put_def run_simps dest: percolate_down_loop_length)

lemma removeMin_smaller: "Heap_removeMin lt h = Inr (x, h') \<Longrightarrow> length (hp_heap h') < length (hp_heap h)"
  by (auto simp: Heap_removeMin_def heap_put_def Let_def run_simps split: if_splits dest!: percolateDown_length)

text \<open>The loop condition: \<open>next\<close> is undefined, already assigned, or not a decision variable.\<close>

definition needs_other :: "'d solver \<Rightarrow> nat option \<Rightarrow> bool result" where
  "needs_other s v = (case v of None \<Rightarrow> Inr True
     | Some x \<Rightarrow> andThen (value_var s x) (\<lambda>a. if \<not> lbool_eq a l_Undef then Inr True
         else andThen (vec_at (sv_decision s) x) (\<lambda>d. Inr (\<not> d))))"

function pick_loop :: "'d :: linorder solver \<Rightarrow> nat option \<Rightarrow> (nat option \<times> 'd solver) result" where
  "pick_loop s v = (case needs_other s v of Inl e \<Rightarrow> Inl e
     | Inr b \<Rightarrow> if \<not> b then Inr (v, s)
         else if Heap_empty (sv_order_heap s) then Inr (None, s)
         else (case Heap_removeMin (VarOrderLt (sv_activity s)) (sv_order_heap s) of Inl e \<Rightarrow> Inl e
           | Inr r \<Rightarrow> pick_loop (s\<lparr>sv_order_heap := snd r\<rparr>) (Some (fst r))))"
  by pat_completeness auto
termination
  by (relation "measure (\<lambda>(s, v). length (hp_heap (sv_order_heap s)))") (auto intro: removeMin_smaller)

declare pick_loop.simps [simp del]

text \<open>
  \<open>random_next\<close> is the variable of a random decision, if one is made; \<open>random_sign\<close> is the sign
  when polarities are random.
\<close>

definition pickBranchLit ::
    "nat option \<Rightarrow> bool option \<Rightarrow> 'd :: linorder solver \<Rightarrow> (solver_lit \<times> 'd solver) result" where
  "pickBranchLit random_next random_sign s =
     andThen (pick_loop s random_next) (\<lambda>(v, s). case v of None \<Rightarrow> Inr (lit_Undef, s)
       | Some x \<Rightarrow> andThen (case random_sign of Some b \<Rightarrow> Inr b | None \<Rightarrow> vec_at (sv_polarity s) x) (\<lambda>b.
           Inr (mkLit (of_nat x) b, s)))"

end
