(* ===== verification/Solver_Trail_Properties.thy ===== *)
theory Solver_Trail_Properties
  imports Solver_Trails Session_Properties
begin

text \<open>
  What the trail of the solver keeps true. The invariant ties the values, the order heap and the controller to the
  trail: the controller follows the prefix of the trail that has been notified. Cancelling a decision level keeps the
  invariant when the controller has been told of the whole trail, and fails otherwise; a decision is an
  unassigned decision variable of greatest activity.
\<close>

section \<open>The invariant\<close>

text \<open>The literal of the library with the same variable and sign.\<close>

definition lib :: "solver_lit \<Rightarrow> literal" where
  "lib p = Lit (sl_x p)"

lemma lib_simps: "variable (lib p) = var p" "isPositive (lib p) \<longleftrightarrow> \<not> sign p"
  by (simp_all add: lib_def var_as_variable sign_as_isPositive)

lemma glucose_lib:
  assumes "small_var (var p)"
  shows "convertFrom GlucoseLiteralAdapter (lib p) = p"
proof -
  have "Glucose_convertFrom (lib p) = mkLit (var p) (sign p)"
    by (simp add: Glucose_convertFrom_def isNegative_def lib_simps)
  then show ?thesis using assms by (simp add: GlucoseLiteralAdapter_def)
qed

definition values_match :: "nat \<Rightarrow> literal list \<Rightarrow> lbool list \<Rightarrow> bool" where
  "values_match n tr as \<longleftrightarrow> length as = n
     \<and> (\<forall>x < n. as ! x = (case trail_val tr (of_nat x) of None \<Rightarrow> l_Undef | Some b \<Rightarrow> lbool_of b))"

definition heap_covers :: "nat \<Rightarrow> literal list \<Rightarrow> 'd :: linorder solver \<Rightarrow> bool" where
  "heap_covers n tr s \<longleftrightarrow> heap_ok (VarOrderLt (sv_activity s)) (sv_order_heap s)
     \<and> (\<forall>x \<in> set (hp_heap (sv_order_heap s)). x < n)
     \<and> (\<forall>x < n. sv_decision s ! x \<longrightarrow> trail_val tr (of_nat x) = None \<longrightarrow> x \<in> set (hp_heap (sv_order_heap s)))"

text \<open>The first \<open>m\<close> literals of the trail are assigned, and the controller has been told of the first \<open>k\<close>.\<close>

definition solver_inv :: "nat \<Rightarrow> order \<Rightarrow> nat \<Rightarrow> nat \<Rightarrow> 'd :: linorder solver \<Rightarrow> bool" where
  "solver_inv n o' m k s \<longleftrightarrow> n < 2 ^ 30 \<and> k \<le> m \<and> m \<le> length (sv_trail s)
     \<and> trail_ok n (map lib (sv_trail s))
     \<and> values_match n (map lib (take m (sv_trail s))) (sv_assigns s)
     \<and> length (sv_polarity s) = n \<and> length (sv_decision s) = n \<and> length (sv_vardata s) = n
     \<and> heap_covers n (map lib (take m (sv_trail s))) s
     \<and> sorted (sv_trail_lim s) \<and> (\<forall>l \<in> set (sv_trail_lim s). l \<le> length (sv_trail s))
     \<and> (case sv_symmetry s of None \<Rightarrow> True | Some c \<Rightarrow> controller_inv n o' (map lib (take k (sv_trail s))) c)"

lemma weak_order_VarOrderLt: "weak_order (VarOrderLt activity)"
  by (auto simp: weak_order_def VarOrderLt_def)

lemma of_nat_unat_var: "unat (x :: int32) < n \<Longrightarrow> of_nat (unat x) = x"
  by simp

lemma unat_small: "n < 2 ^ 30 \<Longrightarrow> x < n \<Longrightarrow> unat (of_nat x :: int32) = x"
  by (simp add: unsigned_of_nat take_bit_nat_eq_self)

section \<open>Inserting a variable in the order heap\<close>

lemma insertVarOrder_ok:
  assumes h: "heap_ok (VarOrderLt (sv_activity s)) (sv_order_heap s)" and x: "x < length (sv_decision s)"
  shows "\<exists>h. insertVarOrder x s = Inr (s\<lparr>sv_order_heap := h\<rparr>) \<and> heap_ok (VarOrderLt (sv_activity s)) h
    \<and> set (hp_heap h) = set (hp_heap (sv_order_heap s)) \<union> (if sv_decision s ! x then {x} else {})"
proof -
  have wf: "heap_wf (sv_order_heap s)" using h by (simp add: heap_ok_def)
  show ?thesis
  proof (cases "x \<in> set (hp_heap (sv_order_heap s)) \<or> \<not> sv_decision s ! x")
    case True
    then have "insertVarOrder x s = Inr s" using inHeap_ok [OF wf, of x] x by (auto simp: insertVarOrder_def)
    then show ?thesis using h True by (intro exI [of _ "sv_order_heap s"]) auto
  next
    case False
    then obtain h' where "Heap_insert (VarOrderLt (sv_activity s)) x (sv_order_heap s) = Inr h'"
      "heap_ok (VarOrderLt (sv_activity s)) h'" "mset (hp_heap h') = add_mset x (mset (hp_heap (sv_order_heap s)))"
      using heap_insert_ok [OF h, of x] by blast
    moreover from this have "set (hp_heap h') = insert x (set (hp_heap (sv_order_heap s)))"
      by (metis set_mset_add_mset_insert set_mset_mset)
    ultimately show ?thesis using False inHeap_ok [OF wf, of x] x by (auto simp: insertVarOrder_def)
  qed
qed

section \<open>Cancelling\<close>

text \<open>The controller refuses to cancel a literal that it was not told of.\<close>

lemma controller_cancel_unknown:
  assumes c: "controller_inv n o' tr c" and l: "lit_in n l" "variable l \<notin> variable ` set tr" and ad: "good_adapter ad"
  shows "controller_updateCancel ad ord (convertFrom ad l) c = Inl Check_failed"
proof -
  note c' = controller_invD [OF c]
  have "convertTo ad (convertFrom ad l) = Inr l" by (rule good_adapterD [OF ad c'(8) l(1)])
  moreover have "unassignLiteral (c_assignment c) l = Inl Check_failed"
    using unassignLiteral_unassigned [OF c'(3) l(1)] c'(4) l(2) by (simp add: trail_val_None_iff)
  ultimately show ?thesis by (simp add: controller_updateCancel_def)
qed

lemma values_match_undo:
  assumes "values_match n (tr @ [l]) as" "trail_ok n (tr @ [l])" "n < 2 ^ 30"
  shows "values_match n tr (as[unat (variable l) := l_Undef])"
  unfolding values_match_def
proof (intro conjI allI impI)
  show "length (as[unat (variable l) := l_Undef]) = n" using assms(1) by (simp add: values_match_def)
  fix x assume x: "x < n"
  have l: "unat (variable l) < n" "trail_val tr (variable l) = None"
    using assms(2) by (simp_all add: trail_ok_snoc lit_in_def)
  show "as[unat (variable l) := l_Undef] ! x = (case trail_val tr (of_nat x) of None \<Rightarrow> l_Undef | Some b \<Rightarrow> lbool_of b)"
  proof (cases "x = unat (variable l)")
    case True
    then show ?thesis using l x assms(1) by (simp add: values_match_def)
  next
    case False
    then have "of_nat x \<noteq> variable l" using unat_small [OF assms(3) x] by auto
    then show ?thesis using False x assms(1) by (simp add: values_match_def)
  qed
qed

lemma trail_at:
  assumes "solver_inv n o' (Suc c) k s"
  shows "c < length (sv_trail s)" "take (Suc c) (sv_trail s) = take c (sv_trail s) @ [sv_trail s ! c]"
    "trail_ok n (map lib (take c (sv_trail s)) @ [lib (sv_trail s ! c)])" "unat (var (sv_trail s ! c)) < n"
proof -
  let ?tr = "sv_trail s"
  show c: "c < length ?tr" using assms by (simp add: solver_inv_def)
  then show t: "take (Suc c) ?tr = take c ?tr @ [?tr ! c]" by (rule take_Suc_conv_app_nth)
  have "map lib ?tr = map lib (take (Suc c) ?tr) @ map lib (drop (Suc c) ?tr)"
    by (simp add: map_append [symmetric] del: map_append)
  then have "trail_ok n (map lib (take (Suc c) ?tr))"
    using assms trail_ok_prefix unfolding solver_inv_def by metis
  then show ok: "trail_ok n (map lib (take c ?tr) @ [lib (?tr ! c)])" by (simp add: t)
  then show "unat (var (?tr ! c)) < n" by (simp add: trail_ok_snoc lit_in_def lib_simps)
qed

lemma cancel_symmetry_ok:
  assumes s: "solver_inv n o' (Suc c) k s" and ord: "iterates ord" and k: "sv_symmetry s = None \<or> k = Suc c"
  shows "\<exists>sy. (case sv_symmetry s of None \<Rightarrow> Inr None
      | Some y \<Rightarrow> andThen (controller_updateCancel GlucoseLiteralAdapter ord (sv_trail s ! c) y) (\<lambda>y'. Inr (Some y'))) = Inr sy
    \<and> (case sy of None \<Rightarrow> sv_symmetry s = None
       | Some y' \<Rightarrow> map_option c_group (sv_symmetry s) = Some (c_group y')
           \<and> controller_inv n o' (map lib (take c (sv_trail s))) y')"
proof (cases "sv_symmetry s")
  case (Some y)
  note at = trail_at [OF s]
  have "controller_inv n o' (map lib (take c (sv_trail s)) @ [lib (sv_trail s ! c)]) y"
    using s k Some at(2) by (simp add: solver_inv_def)
  from controller_updateCancel_ok [OF good_adapters(3) ord this] obtain y' where y':
    "controller_updateCancel GlucoseLiteralAdapter ord (convertFrom GlucoseLiteralAdapter (lib (sv_trail s ! c))) y = Inr y'"
    "controller_inv n o' (map lib (take c (sv_trail s))) y'" "c_group y' = c_group y" by blast
  have "small_var (var (sv_trail s ! c))" using at(4) s by (simp add: small_var_def solver_inv_def)
  then show ?thesis using y' Some by (simp add: glucose_lib)
qed simp

lemma cancel_step_ok:
  assumes s: "solver_inv n o' (Suc c) k s" and ord: "iterates ord" and k: "sv_symmetry s = None \<or> k = Suc c"
  shows "\<exists>s'. cancel_step ord c s = Inr s' \<and> solver_inv n o' c (min k c) s'
    \<and> sv_trail s' = sv_trail s \<and> sv_trail_lim s' = sv_trail_lim s
    \<and> map_option c_group (sv_symmetry s') = map_option c_group (sv_symmetry s)"
proof -
  let ?p = "sv_trail s ! c" and ?tr = "map lib (take c (sv_trail s))"
  let ?x = "unat (var ?p)"
  note at = trail_at [OF s]
  have n: "n < 2 ^ 30" "length (sv_assigns s) = n" "length (sv_polarity s) = n" "length (sv_decision s) = n"
    using s by (simp_all add: solver_inv_def values_match_def)
  obtain sy where sy: "(case sv_symmetry s of None \<Rightarrow> Inr None
      | Some y \<Rightarrow> andThen (controller_updateCancel GlucoseLiteralAdapter ord ?p y) (\<lambda>y'. Inr (Some y'))) = Inr sy"
    "case sy of None \<Rightarrow> sv_symmetry s = None
      | Some y' \<Rightarrow> map_option c_group (sv_symmetry s) = Some (c_group y') \<and> controller_inv n o' ?tr y'"
    using cancel_symmetry_ok [OF s ord k] by blast
  let ?as = "(sv_assigns s)[?x := l_Undef]"
  let ?ps = "if 1 < sv_phase_saving s \<or> sv_phase_saving s = 1 \<and> last (sv_trail_lim s) < c
    then (sv_polarity s)[?x := sign ?p] else sv_polarity s"
  let ?s = "s\<lparr>sv_assigns := ?as, sv_symmetry := sy, sv_polarity := ?ps\<rparr>"
  have "heap_covers n (map lib (take (Suc c) (sv_trail s))) s" using s by (simp add: solver_inv_def)
  then have cov: "heap_ok (VarOrderLt (sv_activity ?s)) (sv_order_heap ?s)" "\<forall>x \<in> set (hp_heap (sv_order_heap s)). x < n"
    "\<forall>x < n. sv_decision s ! x \<longrightarrow> trail_val (?tr @ [lib ?p]) (of_nat x) = None \<longrightarrow> x \<in> set (hp_heap (sv_order_heap s))"
    by (simp_all add: heap_covers_def at(2))
  have "?x < length (sv_decision ?s)" using at(4) n(4) by simp
  from insertVarOrder_ok [OF cov(1) this] obtain h where h: "insertVarOrder ?x ?s = Inr (?s\<lparr>sv_order_heap := h\<rparr>)"
    "heap_ok (VarOrderLt (sv_activity s)) h"
    "set (hp_heap h) = set (hp_heap (sv_order_heap s)) \<union> (if sv_decision s ! ?x then {?x} else {})" by auto
  let ?t = "?s\<lparr>sv_order_heap := h\<rparr>"
  have ps: "(if 1 < sv_phase_saving s \<or> sv_phase_saving s = 1 \<and> last (sv_trail_lim s) < c
      then vec_put (sv_polarity s) ?x (sign ?p) else Inr (sv_polarity s)) = Inr ?ps"
    using at(4) n(3) by simp
  have as: "vec_put (sv_assigns s) ?x l_Undef = Inr ?as" using at(4) n(2) by simp
  have run: "cancel_step ord c s = Inr ?t"
    unfolding cancel_step_def vec_at_Inr [OF at(1)] andThen.simps Let_def as sy(1) ps by (rule h(1))
  have covers: "heap_covers n ?tr ?t"
    unfolding heap_covers_def
  proof (intro conjI allI impI ballI)
    show "heap_ok (VarOrderLt (sv_activity ?t)) (sv_order_heap ?t)" using h(2) by simp
    show "x < n" if "x \<in> set (hp_heap (sv_order_heap ?t))" for x
      using that h(3) cov(2) at(4) by (auto split: if_splits)
    show "x \<in> set (hp_heap (sv_order_heap ?t))"
      if "x < n" "sv_decision ?t ! x" "trail_val ?tr (of_nat x) = None" for x
    proof (cases "x = ?x")
      case False
      then have "of_nat x \<noteq> var ?p" using unat_small [OF n(1) that(1)] by auto
      then show ?thesis using that cov(3) h(3) by (simp add: lib_simps)
    qed (use that h(3) in simp)
  qed
  have "values_match n ?tr ?as"
    using values_match_undo [OF _ at(3) n(1)] s by (simp add: solver_inv_def at(2) lib_simps)
  moreover have "case sy of None \<Rightarrow> True | Some y \<Rightarrow> controller_inv n o' (map lib (take (min k c) (sv_trail s))) y"
    using sy(2) k by (auto split: option.splits)
  ultimately have "solver_inv n o' c (min k c) ?t"
    using s covers at(1) by (cases sy) (simp_all add: solver_inv_def)
  then show ?thesis using run sy(2) by (auto split: option.splits)
qed


lemma cancel_step_group:
  assumes s: "solver_inv n o' (Suc c) (Suc c) s" and ord: "iterates ord"
    and y: "\<exists>y. sv_symmetry s = Some y \<and> c_group y = g"
  shows "\<exists>s'. cancel_step ord c s = Inr s' \<and> solver_inv n o' c (min (Suc c) c) s'
    \<and> sv_trail s' = sv_trail s \<and> sv_trail_lim s' = sv_trail_lim s \<and> map_option c_group (sv_symmetry s') = Some g"
proof -
  have "map_option c_group (sv_symmetry s) = Some g" using y by auto
  with cancel_step_ok [OF s ord] show ?thesis by auto
qed

lemma cancel_loop_ok:
  assumes "solver_inv n o' m k s" "iterates ord" "sv_symmetry s = None \<or> k = m" "lim \<le> m"
  shows "\<exists>s'. foldR (cancel_step ord) (rev [lim..<m]) s = Inr s' \<and> solver_inv n o' lim (min k lim) s'
    \<and> sv_trail s' = sv_trail s \<and> sv_trail_lim s' = sv_trail_lim s \<and> (sv_symmetry s' = None \<longleftrightarrow> sv_symmetry s = None)"
  using assms
proof (induction m arbitrary: s k)
  case (Suc m)
  show ?case
  proof (cases "lim = Suc m")
    case True
    moreover have "k \<le> Suc m" using Suc.prems(1) by (simp add: solver_inv_def)
    ultimately show ?thesis using Suc.prems(1) by (simp add: min_absorb1)
  next
    case False
    then have lim: "lim \<le> m" using Suc.prems(4) by linarith
    obtain s1 where s1: "cancel_step ord m s = Inr s1" "solver_inv n o' m (min k m) s1"
      "sv_trail s1 = sv_trail s" "sv_trail_lim s1 = sv_trail_lim s"
      "map_option c_group (sv_symmetry s1) = map_option c_group (sv_symmetry s)"
      using cancel_step_ok [OF Suc.prems(1-3)] by (elim exE conjE)
    then have "sv_symmetry s1 = None \<longleftrightarrow> sv_symmetry s = None" by (metis option.map_disc_iff)
    note s1 = s1(1-4) this
    have "min k m = m" if "k = Suc m" using that by simp
    then have "sv_symmetry s1 = None \<or> min k m = m" using Suc.prems(3) s1(5) by blast
    from Suc.IH [OF s1(2) Suc.prems(2) this lim] obtain s2 where "foldR (cancel_step ord) (rev [lim..<m]) s1 = Inr s2"
      "solver_inv n o' lim (min (min k m) lim) s2" "sv_trail s2 = sv_trail s1" "sv_trail_lim s2 = sv_trail_lim s1"
      "sv_symmetry s2 = None \<longleftrightarrow> sv_symmetry s1 = None" by (elim exE conjE)
    moreover have "min (min k m) lim = min k lim" using lim by simp
    ultimately show ?thesis using s1 lim by simp
  qed
next
  case 0
  then have "k = 0" by (simp add: solver_inv_def)
  with 0 show ?case by simp
qed

lemma cancel_step_unnotified:
  assumes s: "solver_inv n o' (Suc c) k s" and k: "k \<le> c" and y: "sv_symmetry s = Some y"
  shows "cancel_step ord c s = Inl Check_failed"
proof -
  let ?p = "sv_trail s ! c" and ?tr = "map lib (take k (sv_trail s))"
  note at = trail_at [OF s]
  have n: "n < 2 ^ 30" "length (sv_assigns s) = n" using s by (simp_all add: solver_inv_def values_match_def)
  have c: "controller_inv n o' ?tr y" using s y by (simp add: solver_inv_def)
  have ok: "lit_in n (lib ?p)" "variable (lib ?p) \<notin> variable ` set (map lib (take c (sv_trail s)))"
    using at(3) unfolding trail_ok_snoc trail_val_None_iff by blast+
  have "set (take k (sv_trail s)) \<subseteq> set (take c (sv_trail s))" using k by (rule set_take_subset_set_take)
  then have "variable (lib ?p) \<notin> variable ` set ?tr" using ok(2) by auto
  from controller_cancel_unknown [OF c ok(1) this good_adapters(3)]
  have "controller_updateCancel GlucoseLiteralAdapter ord (convertFrom GlucoseLiteralAdapter (lib ?p)) y = Inl Check_failed" .
  moreover have "small_var (var ?p)" using at(4) n(1) by (simp add: small_var_def)
  ultimately have "controller_updateCancel GlucoseLiteralAdapter ord ?p y = Inl Check_failed" by (simp add: glucose_lib)
  then show ?thesis using at(1,4) n(2) y by (simp add: cancel_step_def Let_def)
qed

text \<open>Cutting the trail behind the assigned literals.\<close>

lemma solver_inv_cut:
  assumes s: "solver_inv n o' lim k s" and levels: "\<forall>l \<in> set levels. l \<le> lim" "sorted levels"
  shows "solver_inv n o' lim k (s\<lparr>sv_qhead := q, sv_trail := take lim (sv_trail s), sv_trail_lim := levels\<rparr>)"
proof -
  let ?tr = "sv_trail s"
  have "trail_ok n (map lib ?tr)" and l: "k \<le> lim" "lim \<le> length ?tr" using s by (simp_all add: solver_inv_def)
  moreover have "map lib ?tr = map lib (take lim ?tr) @ map lib (drop lim ?tr)"
    by (simp add: map_append [symmetric] del: map_append)
  ultimately have "trail_ok n (map lib (take lim ?tr))" using trail_ok_prefix by metis
  with s l levels show ?thesis
    by (cases "sv_symmetry s") (simp_all add: solver_inv_def heap_covers_def)
qed

text \<open>
  C6. Going back to a decision level succeeds exactly when nothing is taken from the trail, no controller is attached, or
  the controller has been told of the whole trail. It then restores the trail at that level, keeps
  the values, the order heap and the controller in step with it, and empties the queue; otherwise the
  controller's check fails on the first literal it was never told of.
\<close>

theorem cancelUntil_needs_notified:
  assumes s: "solver_inv n o' (length (sv_trail s)) k s" and ord: "iterates ord"
    and level: "level < decisionLevel s"
  defines "lim \<equiv> sv_trail_lim s ! level"
  shows "if lim = length (sv_trail s) \<or> sv_symmetry s = None \<or> k = length (sv_trail s)
    then \<exists>s'. cancelUntil ord level s = Inr s' \<and> solver_inv n o' lim (min k lim) s'
      \<and> sv_trail s' = take lim (sv_trail s) \<and> sv_trail_lim s' = take level (sv_trail_lim s) \<and> sv_qhead s' = lim
    else cancelUntil ord level s = Inl Check_failed"
proof -
  let ?m = "length (sv_trail s)"
  have lim: "lim \<le> ?m" using s level by (auto simp: lim_def solver_inv_def decisionLevel_def)
  have k: "k \<le> ?m" using s by (simp add: solver_inv_def)
  have run: "cancelUntil ord level s = andThen (foldR (cancel_step ord) (rev [lim..<?m]) s) (\<lambda>s.
      Inr (s\<lparr>sv_qhead := lim, sv_trail := take lim (sv_trail s), sv_trail_lim := take level (sv_trail_lim s)\<rparr>))"
    using level by (simp add: cancelUntil_def lim_def Let_def)
  show ?thesis
  proof (cases "lim = ?m \<or> sv_symmetry s = None \<or> k = ?m")
    case True
    have "\<exists>s'. foldR (cancel_step ord) (rev [lim..<?m]) s = Inr s' \<and> solver_inv n o' lim (min k lim) s'
      \<and> sv_trail s' = sv_trail s \<and> sv_trail_lim s' = sv_trail_lim s"
    proof (cases "lim = ?m")
      case True
      then show ?thesis using s k by (simp add: min_absorb1)
    next
      case False
      with True show ?thesis using cancel_loop_ok [OF s ord _ lim] by blast
    qed
    then obtain s' where s': "foldR (cancel_step ord) (rev [lim..<?m]) s = Inr s'" "solver_inv n o' lim (min k lim) s'"
      "sv_trail s' = sv_trail s" "sv_trail_lim s' = sv_trail_lim s" by blast
    have lims: "l \<le> lim" if l: "l \<in> set (take level (sv_trail_lim s))" for l
    proof -
      obtain i where "i < length (take level (sv_trail_lim s))" "take level (sv_trail_lim s) ! i = l"
        using l by (metis in_set_conv_nth)
      then have i: "i < level" "l = sv_trail_lim s ! i" by simp_all
      have "sorted (sv_trail_lim s)" "level < length (sv_trail_lim s)"
        using s level by (simp_all add: solver_inv_def decisionLevel_def)
      then show ?thesis
        unfolding i(2) lim_def using i(1) by (intro sorted_nth_mono) simp_all
    qed
    let ?t = "s'\<lparr>sv_qhead := lim, sv_trail := take lim (sv_trail s), sv_trail_lim := take level (sv_trail_lim s)\<rparr>"
    have "sorted (sv_trail_lim s)" using s by (simp add: solver_inv_def)
    then have "sorted (take level (sv_trail_lim s))" by (rule sorted_wrt_take)
    then have "solver_inv n o' lim (min k lim) ?t"
      using solver_inv_cut [OF s'(2), of "take level (sv_trail_lim s)" lim] lims by (simp add: s'(3))
    moreover have "cancelUntil ord level s = Inr ?t" unfolding run s'(1) by (simp add: s'(3,4))
    ultimately show ?thesis using True by simp
  next
    case False
    then have "lim < ?m" "k \<le> ?m - 1" "Suc (?m - 1) = ?m" using lim k by auto
    moreover from this have "rev [lim..<?m] = (?m - 1) # rev [lim..<?m - 1]"
      using upt_Suc [of lim "?m - 1"] by simp
    moreover obtain y where "sv_symmetry s = Some y" using False by auto
    ultimately have "foldR (cancel_step ord) (rev [lim..<?m]) s = Inl Check_failed"
      using cancel_step_unnotified [of n o' "?m - 1" k s y ord] s by simp
    then show ?thesis using False by (simp add: run)
  qed
qed

section \<open>Assigning and notifying\<close>

lemma undefined_value: "lbool_eq (lbool_xor l_Undef b) l_Undef"
proof -
  have "lbool_eq (lbool_xor l_Undef True) l_Undef" "lbool_eq (lbool_xor l_Undef False) l_Undef" by code_simp+
  then show ?thesis by (cases b) simp_all
qed

lemma values_match_push:
  assumes "values_match n tr as" "unat (variable l) < n" "n < 2 ^ 30"
  shows "values_match n (tr @ [l]) (as[unat (variable l) := lbool_of (isPositive l)])"
  unfolding values_match_def
proof (intro conjI allI impI)
  show "length (as[unat (variable l) := lbool_of (isPositive l)]) = n" using assms(1) by (simp add: values_match_def)
  fix x assume x: "x < n"
  show "as[unat (variable l) := lbool_of (isPositive l)] ! x
    = (case trail_val (tr @ [l]) (of_nat x) of None \<Rightarrow> l_Undef | Some b \<Rightarrow> lbool_of b)"
  proof (cases "x = unat (variable l)")
    case True
    then show ?thesis using x assms(1) by (simp add: values_match_def)
  next
    case False
    then have "of_nat x \<noteq> variable l" using unat_small [OF assms(3) x] by auto
    then show ?thesis using False x assms(1) by (simp add: values_match_def)
  qed
qed

lemma enqueue_ok:
  assumes s: "solver_inv n o' (length (sv_trail s)) k s" and p: "trail_ok n (map lib (sv_trail s) @ [lib p])"
  shows "\<exists>s'. uncheckedEnqueue p r s = Inr s' \<and> solver_inv n o' (length (sv_trail s')) k s'
    \<and> sv_trail s' = sv_trail s @ [p] \<and> sv_trail_lim s' = sv_trail_lim s \<and> sv_symmetry s' = sv_symmetry s
    \<and> sv_qhead s' = sv_qhead s"
proof -
  let ?tr = "map lib (sv_trail s)" and ?x = "unat (var p)"
  have n: "n < 2 ^ 30" "length (sv_assigns s) = n" "length (sv_vardata s) = n" and match: "values_match n ?tr (sv_assigns s)"
    using s by (simp_all add: solver_inv_def values_match_def)
  have x: "?x < n" "trail_val ?tr (var p) = None"
    using p by (simp_all add: trail_ok_snoc lit_in_def lib_simps)
  have "sv_assigns s ! ?x = l_Undef" using match x by (simp add: values_match_def)
  then have undef: "\<exists>v. value_lit s p = Inr v \<and> lbool_eq v l_Undef"
    using x(1) n(2) undefined_value by (simp add: value_lit_def)
  let ?as = "(sv_assigns s)[?x := lbool_of (\<not> sign p)]"
  let ?vd = "(sv_vardata s)[?x := \<lparr>vd_reason = r, vd_level = decisionLevel s\<rparr>]"
  let ?s = "s\<lparr>sv_assigns := ?as, sv_vardata := ?vd, sv_trail := sv_trail s @ [p]\<rparr>"
  have run: "uncheckedEnqueue p r s = Inr ?s" using undef x(1) n by (auto simp: uncheckedEnqueue_def)
  have "values_match n (?tr @ [lib p]) ?as"
    using values_match_push [OF match, of "lib p"] x(1) n(1) by (simp add: lib_simps)
  moreover have "heap_covers n (?tr @ [lib p]) ?s"
    using s by (auto simp: solver_inv_def heap_covers_def)
  ultimately have "solver_inv n o' (length (sv_trail ?s)) k ?s"
    using s p n by (cases "sv_symmetry s") (auto simp: solver_inv_def)
  with run show ?thesis by auto
qed

lemma propagate_next_ok:
  assumes s: "solver_inv n o' (length (sv_trail s)) k s" and k: "k = sv_qhead s" "k < length (sv_trail s)"
    and ord: "iterates ord"
    and units: "\<forall>c. sv_symmetry s = Some c \<longrightarrow> negated (lib (sv_trail s ! k)) \<notin> unit_lits (c_group c) o'"
  shows "\<exists>s'. propagate_next ord s = Inr (sv_trail s ! k, s') \<and> solver_inv n o' (length (sv_trail s')) (Suc k) s'
    \<and> sv_trail s' = sv_trail s \<and> sv_trail_lim s' = sv_trail_lim s \<and> sv_qhead s' = Suc k
    \<and> map_option c_group (sv_symmetry s') = map_option c_group (sv_symmetry s)"
proof (cases "sv_symmetry s")
  case None
  then show ?thesis using s k by (simp add: propagate_next_def solver_inv_def heap_covers_def)
next
  case (Some c)
  let ?p = "sv_trail s ! k"
  have t: "take (Suc k) (sv_trail s) = take k (sv_trail s) @ [?p]" using k(2) by (rule take_Suc_conv_app_nth)
  have "map lib (sv_trail s) = map lib (take (Suc k) (sv_trail s)) @ map lib (drop (Suc k) (sv_trail s))"
    by (simp add: map_append [symmetric] del: map_append)
  then have ok: "trail_ok n (map lib (take k (sv_trail s)) @ [lib ?p])"
    using s trail_ok_prefix unfolding solver_inv_def t by (metis list.simps(8,9) map_append)
  then have "small_var (var ?p)"
    using s by (simp add: trail_ok_snoc lit_in_def lib_simps small_var_def solver_inv_def)
  moreover have "controller_inv n o' (map lib (take k (sv_trail s))) c" using s Some by (simp add: solver_inv_def)
  from controller_updateNotify_ok [OF good_adapters(3) ord this ok] units Some obtain c'
    where "controller_updateNotify GlucoseLiteralAdapter ord (convertFrom GlucoseLiteralAdapter (lib ?p)) c = Inr c'"
      "controller_inv n o' (map lib (take (Suc k) (sv_trail s))) c'" "c_group c' = c_group c" by (auto simp: t)
  ultimately show ?thesis
    using s k Some by (auto simp: propagate_next_def glucose_lib solver_inv_def heap_covers_def)
qed

section \<open>Decisions in step with the controller\<close>

text \<open>A decision opens a level, assigns the literal and notifies it; taking it back cancels its level.\<close>

definition decide :: "literal \<Rightarrow> 'd solver \<Rightarrow> 'd solver result" where
  "decide l s = andThen (uncheckedEnqueue (convertFrom GlucoseLiteralAdapter l) CRef_Undef (newDecisionLevel s)) (\<lambda>s.
     andThen (propagate_next id s) (\<lambda>(p, s). Inr s))"

definition take_back :: "literal \<Rightarrow> 'd :: linorder solver \<Rightarrow> 'd solver result" where
  "take_back l s = cancelUntil id (decisionLevel s - 1) s"

definition in_step :: "nat \<Rightarrow> order \<Rightarrow> group \<Rightarrow> literal list \<Rightarrow> 'd :: linorder solver \<Rightarrow> bool" where
  "in_step n o' g tr s \<longleftrightarrow> solver_inv n o' (length (sv_trail s)) (length (sv_trail s)) s
     \<and> map lib (sv_trail s) = tr \<and> sv_qhead s = length tr \<and> sv_trail_lim s = [0..<length tr]
     \<and> (\<exists>c. sv_symmetry s = Some c \<and> c_group c = g)"

lemma lib_convertFrom: "small_var (variable l) \<Longrightarrow> lib (convertFrom GlucoseLiteralAdapter l) = l"
  using Minisat_convertFrom_lit by (simp add: lib_def GlucoseLiteralAdapter_def Glucose_same)

lemma decide_ok:
  assumes s: "in_step n o' g tr s" and l: "trail_ok n (tr @ [l])" "negated l \<notin> unit_lits g o'"
  shows "\<exists>s'. decide l s = Inr s' \<and> in_step n o' g (tr @ [l]) s'"
proof -
  let ?p = "convertFrom GlucoseLiteralAdapter l" and ?s = "newDecisionLevel s"
  have tr: "length (sv_trail s) = length tr" "map lib (sv_trail s) = tr" and n: "n < 2 ^ 30"
    using s by (auto simp: in_step_def solver_inv_def)
  have p: "lib ?p = l" using l(1) n by (intro lib_convertFrom) (simp add: trail_ok_snoc lit_in_def small_var_def)
  have "solver_inv n o' (length (sv_trail s)) (length (sv_trail s)) ?s"
    using s by (cases "sv_symmetry s") (auto simp: in_step_def solver_inv_def newDecisionLevel_def heap_covers_def sorted_append)
  then have inv: "solver_inv n o' (length (sv_trail ?s)) (length tr) ?s" by (simp add: newDecisionLevel_def tr)
  have "trail_ok n (map lib (sv_trail ?s) @ [lib ?p])" using l(1) p tr by (simp add: newDecisionLevel_def)
  note enq_ok = enqueue_ok [OF inv this, of CRef_Undef]
  have "sv_trail ?s = sv_trail s" "sv_trail_lim ?s = [0..<Suc (length tr)]" "sv_symmetry ?s = sv_symmetry s"
    "sv_qhead ?s = length tr"
    using s tr(1) by (simp_all add: newDecisionLevel_def in_step_def)
  note enq_ok [unfolded this]
  then obtain s1 where s1: "uncheckedEnqueue ?p CRef_Undef ?s = Inr s1"
    "solver_inv n o' (length (sv_trail s1)) (length tr) s1" "sv_trail s1 = sv_trail s @ [?p]"
    "sv_trail_lim s1 = [0..<Suc (length tr)]" "sv_symmetry s1 = sv_symmetry s" "sv_qhead s1 = length tr"
    by (elim exE conjE)
  have at: "length tr < length (sv_trail s1)" "sv_trail s1 ! length tr = ?p" using s1(3) tr(1) by (simp_all add: nth_append)
  have "\<forall>c. sv_symmetry s1 = Some c \<longrightarrow> negated (lib (sv_trail s1 ! length tr)) \<notin> unit_lits (c_group c) o'"
    using s s1(5) l(2) p at(2) by (auto simp: in_step_def)
  note next_ok = propagate_next_ok [OF s1(2) s1(6) [symmetric] at(1) iterates_id(1) this, unfolded at(2)]
  then obtain s2 where s2: "propagate_next id s1 = Inr (?p, s2)" "solver_inv n o' (length (sv_trail s2)) (Suc (length tr)) s2"
      "sv_trail s2 = sv_trail s1" "sv_trail_lim s2 = sv_trail_lim s1" "sv_qhead s2 = Suc (length tr)"
      "map_option c_group (sv_symmetry s2) = map_option c_group (sv_symmetry s1)"
    by (elim exE conjE)
  have "\<exists>c. sv_symmetry s2 = Some c \<and> c_group c = g"
    using s2(6) s s1(5) by (cases "sv_symmetry s2") (auto simp: in_step_def)
  moreover have "length (sv_trail s2) = Suc (length tr)" using s2(3) s1(3) tr by simp
  ultimately have "in_step n o' g (tr @ [l]) s2"
    using s2 s1(3,4) tr p by (simp add: in_step_def)
  then show ?thesis using s1(1) s2(1) by (simp add: decide_def)
qed

lemma take_back_ok:
  assumes s: "in_step n o' g (tr @ [l]) s"
  shows "\<exists>s'. take_back l s = Inr s' \<and> in_step n o' g tr s'"
proof -
  let ?m = "length tr"
  have inv: "solver_inv n o' (length (sv_trail s)) (length (sv_trail s)) s" and lims: "sv_trail_lim s = [0..<Suc ?m]"
    and tr: "map lib (sv_trail s) = tr @ [l]" and y: "\<exists>c. sv_symmetry s = Some c \<and> c_group c = g"
    using s by (auto simp: in_step_def)
  have len: "length (sv_trail s) = Suc ?m" using tr by (metis length_append_singleton length_map)
  have inv': "solver_inv n o' (Suc ?m) (Suc ?m) s" using inv len by simp
  obtain s1 where s1: "cancel_step id ?m s = Inr s1" "solver_inv n o' ?m (min (Suc ?m) ?m) s1"
      "sv_trail s1 = sv_trail s" "sv_trail_lim s1 = sv_trail_lim s" "map_option c_group (sv_symmetry s1) = Some g"
    using cancel_step_group [OF inv' iterates_id(1)] y by blast
  let ?t = "s1\<lparr>sv_qhead := ?m, sv_trail := take ?m (sv_trail s1), sv_trail_lim := [0..<?m]\<rparr>"
  have "solver_inv n o' ?m ?m ?t" using solver_inv_cut [OF s1(2), of "[0..<?m]" ?m] by simp
  moreover have "map lib (take ?m (sv_trail s1)) = tr" using tr s1(3) by (simp add: take_map [symmetric])
  moreover have "take_back l s = Inr ?t"
    using s1(1,3,4) lims len by (simp add: take_back_def cancelUntil_def decisionLevel_def Let_def nth_append)
  ultimately show ?thesis using s1(3,5) len by (auto simp: in_step_def)
qed

interpretation solver_follower: trail_follower n "\<lambda>l. negated l \<notin> unit_lits g o'" "in_step n o' g" decide take_back
  for n o' g
  by unfold_locales (rule decide_ok, assumption+, rule take_back_ok, assumption)

text \<open>
  C7. The solver and its controller stay in step: every sequence of decisions that are notified and taken back, as long as
  each is an unassigned variable in range and respects the units, succeeds on both sides, and the trail of the solver,
  its values, its order heap and the controller then describe the same assignment.
\<close>

theorem solver_controller_in_step:
  assumes "in_step n o' g tr s" "moved_trail n (\<lambda>l. negated l \<notin> unit_lits g o') ms tr = Some tr'"
  shows "\<exists>s'. run_moves decide take_back ms tr s = Inr s' \<and> map lib (sv_trail s') = tr'
    \<and> values_match n tr' (sv_assigns s') \<and> heap_covers n tr' s'
    \<and> (\<exists>c. sv_symmetry s' = Some c \<and> c_group c = g \<and> controller_inv n o' tr' c)"
proof -
  obtain s' where s': "run_moves decide take_back ms tr s = Inr s'" "in_step n o' g tr' s'"
    using solver_follower.moves_succeed [OF assms] by blast
  then have "map lib (sv_trail s') = tr'" "solver_inv n o' (length (sv_trail s')) (length (sv_trail s')) s'"
    "\<exists>c. sv_symmetry s' = Some c \<and> c_group c = g" by (simp_all add: in_step_def)
  with s'(1) show ?thesis by (auto simp: solver_inv_def)
qed

section \<open>Decisions\<close>

text \<open>A variable that can be decided.\<close>

definition free_var :: "'d solver \<Rightarrow> nat \<Rightarrow> bool" where
  "free_var s x \<longleftrightarrow> lbool_eq (sv_assigns s ! x) l_Undef \<and> sv_decision s ! x"

lemma free_var_heap [simp]: "free_var (s\<lparr>sv_order_heap := h\<rparr>) = free_var s"
  by (simp add: free_var_def fun_eq_iff)

lemma needs_other_ok:
  assumes "length (sv_assigns s) = n" "length (sv_decision s) = n" "\<forall>x. v = Some x \<longrightarrow> x < n"
  shows "needs_other s v = Inr (case v of None \<Rightarrow> True | Some x \<Rightarrow> \<not> free_var s x)"
  using assms by (auto simp: needs_other_def value_var_def free_var_def split: option.splits)

lemma pick_loop_ok:
  assumes "heap_ok (VarOrderLt (sv_activity s)) (sv_order_heap s)" "\<forall>x \<in> set (hp_heap (sv_order_heap s)). x < n"
    and "length (sv_assigns s) = n" "length (sv_decision s) = n" "\<forall>x. v = Some x \<longrightarrow> x < n"
  shows "\<exists>r h. pick_loop s v = Inr (r, s\<lparr>sv_order_heap := h\<rparr>) \<and> heap_ok (VarOrderLt (sv_activity s)) h
    \<and> set (hp_heap h) \<subseteq> set (hp_heap (sv_order_heap s))
    \<and> (\<forall>x \<in> set (hp_heap (sv_order_heap s)). free_var s x \<longrightarrow> r = Some x \<or> x \<in> set (hp_heap h))
    \<and> (r = None \<longrightarrow> hp_heap h = [])
    \<and> (\<forall>x. r = Some x \<longrightarrow> x < n \<and> free_var s x \<and> (v = Some x \<or> x \<in> set (hp_heap (sv_order_heap s))
           \<and> (\<forall>y \<in> set (hp_heap (sv_order_heap s)). free_var s y \<longrightarrow> sv_activity s ! y \<le> sv_activity s ! x)))"
  using assms
proof (induction s v rule: pick_loop.induct)
  case (1 s v)
  let ?h = "sv_order_heap s" and ?lt = "VarOrderLt (sv_activity s)"
  have other: "needs_other s v = Inr (case v of None \<Rightarrow> True | Some x \<Rightarrow> \<not> free_var s x)"
    using 1 by (intro needs_other_ok)
  show ?case
  proof (cases "\<exists>x. v = Some x \<and> free_var s x")
    case True
    then have "pick_loop s v = Inr (v, s)" by (subst pick_loop.simps) (auto simp: other)
    then show ?thesis using True 1 by (intro exI [of _ v] exI [of _ ?h]) auto
  next
    case False
    then have b: "needs_other s v = Inr True" using other by (auto split: option.splits)
    show ?thesis
    proof (cases "hp_heap ?h = []")
      case True
      then have "pick_loop s v = Inr (None, s)" by (subst pick_loop.simps) (auto simp: b Heap_empty_def)
      then show ?thesis using True 1 by (intro exI [of _ None] exI [of _ ?h]) auto
    next
      case ne: False
      let ?x = "hp_heap ?h ! 0"
      obtain h' where h': "Heap_removeMin ?lt ?h = Inr (?x, h')" "heap_ok ?lt h'" "mset (hp_heap h') = mset (hp_heap ?h) - {#?x#}"
        using heap_removeMin_ok [OF 1(2) ne] by blast
      have x: "?x \<in> set (hp_heap ?h)" using ne by simp
      have set': "set (hp_heap ?h) = insert ?x (set (hp_heap h'))"
        using h'(3) x by (metis insert_DiffM set_mset_add_mset_insert set_mset_mset)
      have min: "sv_activity s ! y \<le> sv_activity s ! ?x" if "y \<in> set (hp_heap ?h)" for y
        using heap_min [OF 1(2)] that by (metis VarOrderLt_def in_set_conv_nth not_less)
      let ?s = "s\<lparr>sv_order_heap := h'\<rparr>"
      have step: "pick_loop s v = pick_loop ?s (Some ?x)"
        using ne by (subst pick_loop.simps) (simp add: b Heap_empty_def h'(1))
      have "\<not> Heap_empty ?h" using ne by (simp add: Heap_empty_def)
      note IH = 1(1) [OF b _ this h'(1), unfolded fst_conv snd_conv]
      have "\<forall>x \<in> set (hp_heap (sv_order_heap ?s)). x < n" "\<forall>x. Some ?x = Some x \<longrightarrow> x < n"
        using 1(3) set' x by auto
      with IH 1(4,5) h'(2) obtain r h where r: "pick_loop ?s (Some ?x) = Inr (r, ?s\<lparr>sv_order_heap := h\<rparr>)"
        "heap_ok ?lt h" "set (hp_heap h) \<subseteq> set (hp_heap h')"
        "\<forall>x \<in> set (hp_heap h'). free_var s x \<longrightarrow> r = Some x \<or> x \<in> set (hp_heap h)"
        "r = None \<longrightarrow> hp_heap h = []"
        "\<forall>x. r = Some x \<longrightarrow> x < n \<and> free_var s x \<and> (Some ?x = Some x \<or> x \<in> set (hp_heap h')
           \<and> (\<forall>y \<in> set (hp_heap h'). free_var s y \<longrightarrow> sv_activity s ! y \<le> sv_activity s ! x))"
        by auto
      have "r = Some ?x" if "free_var s ?x"
      proof -
        have "pick_loop ?s (Some ?x) = Inr (Some ?x, ?s)"
          using that 1(3-5) x by (subst pick_loop.simps) (simp add: needs_other_ok [of _ n])
        then show ?thesis using r(1) by simp
      qed
      with r set' min step x show ?thesis
        by (intro exI [of _ r] exI [of _ h]) (auto split: option.splits)
    qed
  qed
qed

lemma free_var_iff:
  assumes "solver_inv n o' m k s" "x < n"
  shows "free_var s x \<longleftrightarrow> sv_decision s ! x \<and> trail_val (map lib (take m (sv_trail s))) (of_nat x) = None"
proof -
  have "\<not> lbool_eq (lbool_of True) l_Undef" "\<not> lbool_eq (lbool_of False) l_Undef" "lbool_eq l_Undef l_Undef" by code_simp+
  then have "lbool_eq (case v of None \<Rightarrow> l_Undef | Some b \<Rightarrow> lbool_of b) l_Undef \<longleftrightarrow> v = None" for v
    by (cases v; cases "the v") simp_all
  then show ?thesis using assms by (auto simp: free_var_def solver_inv_def values_match_def)
qed

text \<open>
  C29. A decision that is not random is an unassigned decision variable whose activity is greatest among all of
  them, and its variable has left the order heap; there is none exactly when every decision variable is assigned. The heap
  still holds every other variable that can be decided.
\<close>

theorem decision_is_most_active:
  assumes s: "solver_inv n o' (length (sv_trail s)) k s"
  shows "\<exists>p s'. pickBranchLit None b s = Inr (p, s') \<and> sv_trail s' = sv_trail s
    \<and> (if \<exists>x < n. free_var s x
       then small_var (var p) \<and> unat (var p) < n \<and> free_var s (unat (var p))
         \<and> (\<forall>y < n. free_var s y \<longrightarrow> sv_activity s ! y \<le> sv_activity s ! unat (var p))
       else p = lit_Undef)
    \<and> heap_ok (VarOrderLt (sv_activity s)) (sv_order_heap s')
    \<and> (\<forall>y < n. free_var s y \<longrightarrow> y = unat (var p) \<or> y \<in> set (hp_heap (sv_order_heap s')))"
proof -
  let ?h = "sv_order_heap s"
  have n: "n < 2 ^ 30" "length (sv_assigns s) = n" "length (sv_decision s) = n" "length (sv_polarity s) = n"
    and cov: "heap_covers n (map lib (sv_trail s)) s"
    using s by (simp_all add: solver_inv_def values_match_def)
  have h: "heap_ok (VarOrderLt (sv_activity s)) ?h" "\<forall>x \<in> set (hp_heap ?h). x < n"
    using cov by (simp_all add: heap_covers_def)
  have all: "y \<in> set (hp_heap ?h)" if "y < n" "free_var s y" for y
    using that cov free_var_iff [OF s that(1)] by (simp add: heap_covers_def)
  have "\<forall>x. None = Some x \<longrightarrow> x < n" by simp
  from pick_loop_ok [OF h n(2,3) this] obtain r h' where r: "pick_loop s None = Inr (r, s\<lparr>sv_order_heap := h'\<rparr>)"
    "heap_ok (VarOrderLt (sv_activity s)) h'"
    "\<forall>x \<in> set (hp_heap ?h). free_var s x \<longrightarrow> r = Some x \<or> x \<in> set (hp_heap h')" "r = None \<longrightarrow> hp_heap h' = []"
    "\<forall>x. r = Some x \<longrightarrow> x < n \<and> free_var s x \<and> (None = Some x \<or> x \<in> set (hp_heap ?h)
       \<and> (\<forall>y \<in> set (hp_heap ?h). free_var s y \<longrightarrow> sv_activity s ! y \<le> sv_activity s ! x))"
    by (elim exE conjE)
  show ?thesis
  proof (cases r)
    case None
    then have "\<not> (\<exists>x < n. free_var s x)" using r(3,4) all by auto
    moreover have "pickBranchLit None b s = Inr (lit_Undef, s\<lparr>sv_order_heap := h'\<rparr>)"
      using r(1) None by (simp add: pickBranchLit_def)
    ultimately show ?thesis using r(2) by auto
  next
    case (Some x)
    then have x: "x < n" "free_var s x" "\<forall>y < n. free_var s y \<longrightarrow> sv_activity s ! y \<le> sv_activity s ! x"
      using r(5) all by auto
    obtain c where c: "(case b of Some b \<Rightarrow> Inr b | None \<Rightarrow> vec_at (sv_polarity s) x) = Inr c"
      using x(1) n(4) by (cases b) auto
    have run: "pickBranchLit None b s = Inr (mkLit (of_nat x) c, s\<lparr>sv_order_heap := h'\<rparr>)"
      using r(1) Some c by (cases b) (simp_all add: pickBranchLit_def)
    have v: "unat (of_nat x :: int32) = x" using unat_small [OF n(1) x(1)] .
    then have "small_var (of_nat x)" using x(1) n(1) by (simp add: small_var_def)
    then have "small_var (var (mkLit (of_nat x) c)) \<and> unat (var (mkLit (of_nat x) c)) = x" using v by simp
    with run x r(2,3) Some all show ?thesis by auto
  qed
qed

section \<open>Two states\<close>

text \<open>
  A solver whose trail holds \<open>\<not> x0\<close> and \<open>x1\<close> above the level 0, with a controller of the swap of both variables.
\<close>

definition sample_solver :: "controller option \<Rightarrow> nat solver" where
  "sample_solver sy = \<lparr>sv_assigns = [l_False, l_True], sv_polarity = [False, False], sv_decision = [True, True],
     sv_vardata = [\<lparr>vd_reason = - 1, vd_level = 1\<rparr>, \<lparr>vd_reason = 0, vd_level = 1\<rparr>], sv_activity = [0, 0],
     sv_seen = [False, False], sv_permDiff = [0, 0], sv_trail = [SLit 1, SLit 2], sv_trail_lim = [0], sv_qhead = 1,
     sv_order_heap = Heap_new, sv_watches = OccLists_new, sv_watchesBin = OccLists_new, sv_dec_vars = 2,
     sv_phase_saving = 2, sv_symmetry = sy\<rparr>"

definition empty_solver :: "nat solver" where
  "empty_solver = (sample_solver (Some swap_controller))\<lparr>sv_assigns := [l_Undef, l_Undef], sv_trail := [], sv_trail_lim := [],
     sv_qhead := 0, sv_activity := [3, 5], sv_order_heap := \<lparr>hp_heap = [1, 0], hp_indices = [1, 0]\<rparr>\<rparr>"

lemma sample_values: "values_match 2 [Lit 1, Lit 2] [l_False, l_True]"
proof -
  have "trail_val ([Lit 1] @ [Lit 2]) = Map.empty(0 \<mapsto> False, 1 \<mapsto> True)"
    unfolding trail_val_snoc using trail_val_snoc [of "[]" "Lit 1"] by (simp add: small_literals)
  then have "trail_val [Lit 1, Lit 2] = Map.empty(0 \<mapsto> False, 1 \<mapsto> True)" by simp
  then show ?thesis by (simp add: values_match_def less_2_cases_iff lbool_of_def l_False_def l_True_def less_Suc_eq numeral_2_eq_2)
qed

lemma sample_solver_inv:
  assumes "k \<le> 2" "\<And>c. sy = Some c \<Longrightarrow> controller_inv 2 small_order (take k [Lit 1, Lit 2]) c"
  shows "solver_inv 2 small_order 2 k (sample_solver sy)"
proof -
  have ok: "trail_ok 2 ([Lit 1] @ [Lit 2])" using swap_session(2) by (simp add: controller_inv_def)
  have "trail_val ([Lit 1] @ [Lit 2]) (of_nat x) \<noteq> None" if "x < 2" for x
    using that sample_values by (auto simp: trail_val_None_iff small_literals less_Suc_eq numeral_2_eq_2)
  then show ?thesis
    using assms ok sample_values heap_new_ok [OF weak_order_VarOrderLt, of "[0, 0 :: nat]"]
    by (cases sy) (auto simp: solver_inv_def sample_solver_def heap_covers_def lib_def Heap_new_def take_map [symmetric])
qed


lemma cancelUntil_needs_notified_witness:
  "cancelUntil id 0 (sample_solver (Some swap_controller)) = Inl Check_failed
   \<and> (\<exists>s. cancelUntil id 0 (sample_solver (Some swap_conflict)) = Inr s \<and> sv_trail s = [])"
proof -
  have len: "length (sv_trail (sample_solver sy)) = 2" "sv_trail_lim (sample_solver sy) = [0]"
    "sv_symmetry (sample_solver sy) = sy" for sy
    by (simp_all add: sample_solver_def)
  have level: "0 < decisionLevel (sample_solver sy)" for sy by (simp add: decisionLevel_def len)
  have i0: "solver_inv 2 small_order (length (sv_trail (sample_solver (Some swap_controller)))) 0 (sample_solver (Some swap_controller))"
    unfolding len using swap_controller_ok(1) by (intro sample_solver_inv) auto
  have i2: "solver_inv 2 small_order (length (sv_trail (sample_solver (Some swap_conflict)))) 2 (sample_solver (Some swap_conflict))"
    unfolding len using swap_session(2) by (intro sample_solver_inv) auto
  show ?thesis
    using cancelUntil_needs_notified [OF i0 iterates_id(1) level] cancelUntil_needs_notified [OF i2 iterates_id(1) level]
    by (auto simp: len)
qed

lemma empty_solver_in_step: "in_step 2 small_order swap_group [] empty_solver"
proof -
  have "heap_ok (VarOrderLt [3, 5 :: nat]) \<lparr>hp_heap = [1, 0], hp_indices = [1, 0]\<rparr>"
    using weak_order_VarOrderLt
    by (auto simp: heap_ok_def heap_wf_def heap_ordered_def heap_parent_def VarOrderLt_def less_Suc_eq numeral_2_eq_2)
  then have "heap_covers 2 [] empty_solver"
    by (auto simp: heap_covers_def empty_solver_def sample_solver_def less_Suc_eq numeral_2_eq_2)
  moreover have "values_match 2 [] (sv_assigns empty_solver)"
    by (simp add: values_match_def empty_solver_def less_Suc_eq numeral_2_eq_2)
  ultimately show ?thesis
    using swap_controller_ok(1,2)
    by (simp add: in_step_def solver_inv_def trail_ok_def empty_solver_def sample_solver_def)
qed

lemma solver_controller_in_step_witness:
  "\<exists>s. run_moves decide take_back [Push (Lit 1), Push (Lit 2), Pop] [] empty_solver = Inr s \<and> map lib (sv_trail s) = [Lit 1]"
proof -
  have t: "trail_ok 2 [Lit 1]" "trail_ok 2 ([Lit 1] @ [Lit 2])"
    using flip_trail_ok swap_trail_ok by (simp_all add: swap_trail_def)
  then have "moved_trail 2 (\<lambda>l. negated l \<notin> unit_lits swap_group small_order) [Push (Lit 1), Push (Lit 2), Pop] [] = Some [Lit 1]"
    by (simp add: swap_units)
  from solver_controller_in_step [OF empty_solver_in_step this] show ?thesis by (elim exE conjE) (intro exI conjI)
qed

lemma decision_is_most_active_witness:
  "\<exists>p s. pickBranchLit None None empty_solver = Inr (p, s) \<and> free_var empty_solver (unat (var p))
     \<and> (5 :: nat) \<le> sv_activity empty_solver ! unat (var p)"
proof -
  have "solver_inv 2 small_order (length (sv_trail empty_solver)) (length (sv_trail empty_solver)) empty_solver"
    using empty_solver_in_step unfolding in_step_def by (elim conjE)
  from decision_is_most_active [OF this, of None] obtain p s where p: "pickBranchLit None None empty_solver = Inr (p, s)"
    "if \<exists>x < 2. free_var empty_solver x
       then small_var (var p) \<and> unat (var p) < 2 \<and> free_var empty_solver (unat (var p))
         \<and> (\<forall>y < 2. free_var empty_solver y \<longrightarrow> sv_activity empty_solver ! y \<le> sv_activity empty_solver ! unat (var p))
       else p = lit_Undef" by blast
  have "free_var empty_solver 1" by code_simp
  moreover have "sv_activity empty_solver ! 1 = 5" by (simp add: empty_solver_def)
  moreover have "(1 :: nat) < 2" by simp
  ultimately have "free_var empty_solver (unat (var p)) \<and> 5 \<le> sv_activity empty_solver ! unat (var p)"
    using p(2) by metis
  with p(1) show ?thesis by blast
qed

end
