(* ===== verification/Solver_Sorting.thy ===== *)
theory Solver_Sorting
  imports Solver_Containers "HOL-Library.Multiset"
begin

text \<open>
  The sorting functions of \<open>examples/solvers/glucose-3.0/mtl/Sort.h\<close>: selection sort for short arrays and a
  quicksort that partitions in place by two scans towards each other. The scans have no bound of their own; the property
  says that they stop inside the array, that the recursion ends and that the result is sorted, for every strict weak
  order.
\<close>

section \<open>The functions\<close>

definition swap_at :: "'a list \<Rightarrow> nat \<Rightarrow> nat \<Rightarrow> 'a list" where
  "swap_at xs i j = xs[i := xs ! j, j := xs ! i]"

definition best_from :: "('a \<Rightarrow> 'a \<Rightarrow> bool) \<Rightarrow> 'a list \<Rightarrow> nat \<Rightarrow> nat" where
  "best_from lt xs i = foldl (\<lambda>best_i j. if lt (xs ! j) (xs ! best_i) then j else best_i) i [i + 1..<length xs]"

definition selectionSort :: "('a \<Rightarrow> 'a \<Rightarrow> bool) \<Rightarrow> 'a list \<Rightarrow> 'a list" where
  "selectionSort lt xs = foldl (\<lambda>xs i. swap_at xs i (best_from lt xs i)) xs [0..<length xs - 1]"

text \<open>The two inner loops; the position is the next one to be looked at, for the second loop plus one.\<close>

function scan_up :: "('a \<Rightarrow> 'a \<Rightarrow> bool) \<Rightarrow> 'a \<Rightarrow> 'a list \<Rightarrow> nat \<Rightarrow> nat result" where
  "scan_up lt pivot xs i =
     (if length xs \<le> i then Inl Bad_index
      else if lt (xs ! i) pivot then scan_up lt pivot xs (Suc i) else Inr i)"
  by pat_completeness auto
termination
  by (relation "measure (\<lambda>(lt, pivot, xs, i). length xs - i)") auto

fun scan_down :: "('a \<Rightarrow> 'a \<Rightarrow> bool) \<Rightarrow> 'a \<Rightarrow> 'a list \<Rightarrow> nat \<Rightarrow> nat result" where
  "scan_down lt pivot xs 0 = Inl Bad_index"
| "scan_down lt pivot xs (Suc j) =
     (if length xs \<le> j then Inl Bad_index
      else if lt pivot (xs ! j) then scan_down lt pivot xs j else Inr j)"

declare scan_up.simps [simp del]

lemma scan_up_Inr:
  "scan_up lt pivot xs lo = Inr i \<Longrightarrow> lo \<le> i \<and> i < length xs \<and> \<not> lt (xs ! i) pivot \<and> (\<forall>k. lo \<le> k \<and> k < i \<longrightarrow> lt (xs ! k) pivot)"
proof (induction lt pivot xs lo rule: scan_up.induct)
  case (1 lt pivot xs lo)
  show ?case
  proof (cases "lo < length xs \<and> lt (xs ! lo) pivot")
    case True
    then have "scan_up lt pivot xs (Suc lo) = Inr i" using 1(2) by (subst (asm) scan_up.simps) simp
    with 1(1) True have "Suc lo \<le> i \<and> i < length xs \<and> \<not> lt (xs ! i) pivot
      \<and> (\<forall>k. Suc lo \<le> k \<and> k < i \<longrightarrow> lt (xs ! k) pivot)" by simp
    then show ?thesis using True by (metis Suc_leD Suc_leI le_neq_implies_less)
  next
    case False
    then show ?thesis using 1(2) by (subst (asm) scan_up.simps) (auto split: if_splits)
  qed
qed

lemma scan_down_Inr:
  "scan_down lt pivot xs hi = Inr j \<Longrightarrow> j < hi \<and> j < length xs \<and> \<not> lt pivot (xs ! j) \<and> (\<forall>k. j < k \<and> k < hi \<longrightarrow> lt pivot (xs ! k))"
  by (induction hi) (auto split: if_splits simp: less_Suc_eq)

lemma scan_up_stops:
  assumes "lo \<le> m" "m < length xs" "\<not> lt (xs ! m) pivot"
  shows "\<exists>i. scan_up lt pivot xs lo = Inr i \<and> i \<le> m"
  using assms(1)
proof (induction rule: inc_induct)
  case base
  then show ?case using assms by (subst scan_up.simps) simp
next
  case (step n)
  then show ?case using assms by (subst scan_up.simps) auto
qed

lemma scan_down_stops:
  "m < hi \<Longrightarrow> hi \<le> length xs \<Longrightarrow> \<not> lt pivot (xs ! m) \<Longrightarrow> \<exists>j. scan_down lt pivot xs hi = Inr j \<and> m \<le> j"
  by (induction hi) (auto simp: less_Suc_eq)

function partition_loop :: "('a \<Rightarrow> 'a \<Rightarrow> bool) \<Rightarrow> 'a \<Rightarrow> 'a list \<Rightarrow> nat \<Rightarrow> nat \<Rightarrow> (nat \<times> 'a list) result" where
  "partition_loop lt pivot xs lo hi = (case scan_up lt pivot xs lo of Inl e \<Rightarrow> Inl e
     | Inr i \<Rightarrow> (case scan_down lt pivot xs hi of Inl e \<Rightarrow> Inl e
       | Inr j \<Rightarrow> if j \<le> i then Inr (i, xs)
                 else partition_loop lt pivot (swap_at xs i j) (Suc i) j))"
  by pat_completeness auto
termination
  by (relation "measure (\<lambda>(lt, pivot, xs, lo, hi). hi - lo)") (auto dest!: scan_up_Inr scan_down_Inr)

declare partition_loop.simps [simp del]

partial_function (option) vec_sort :: "('a \<Rightarrow> 'a \<Rightarrow> bool) \<Rightarrow> 'a list \<Rightarrow> 'a list result option" where
  "vec_sort lt xs =
     (if length xs \<le> 15 then Some (Inr (selectionSort lt xs))
      else bindP (Some (partition_loop lt (xs ! (length xs div 2)) xs 0 (length xs))) (\<lambda>r.
           bindP (vec_sort lt (take (fst r) (snd r))) (\<lambda>ys.
           bindP (vec_sort lt (drop (fst r) (snd r))) (\<lambda>zs. Some (Inr (ys @ zs))))))"

section \<open>Selection sort\<close>

lemma mset_swap_at: "i < length xs \<Longrightarrow> j < length xs \<Longrightarrow> mset (swap_at xs i j) = mset xs"
  by (simp add: swap_at_def mset_swap)

lemma length_swap_at [simp]: "length (swap_at xs i j) = length xs"
  by (simp add: swap_at_def)

lemma swap_at_nth:
  "i < length xs \<Longrightarrow> j < length xs \<Longrightarrow> k < length xs \<Longrightarrow>
   swap_at xs i j ! k = (if k = i then xs ! j else if k = j then xs ! i else xs ! k)"
  by (auto simp: swap_at_def nth_list_update)

lemma best_from_ok:
  assumes "weak_order lt" "i < length xs"
  shows "i \<le> best_from lt xs i \<and> best_from lt xs i < length xs
    \<and> (\<forall>k. i \<le> k \<and> k < length xs \<longrightarrow> \<not> lt (xs ! k) (xs ! best_from lt xs i))"
proof -
  let ?f = "\<lambda>best_i j. if lt (xs ! j) (xs ! best_i) then j else best_i"
  have "i \<le> foldl ?f i [i + 1..<m] \<and> foldl ?f i [i + 1..<m] < m
      \<and> (\<forall>k. i \<le> k \<and> k < m \<longrightarrow> \<not> lt (xs ! k) (xs ! foldl ?f i [i + 1..<m]))" if "i < m" for m
    using that
  proof (induction m)
    case (Suc m)
    show ?case
    proof (cases "i = m")
      case True
      have "\<not> lt (xs ! m) (xs ! m)" using assms(1) by (simp add: weak_order_def)
      moreover have "\<forall>k. m \<le> k \<and> k < Suc m \<longrightarrow> k = m" by auto
      ultimately have "\<forall>k. m \<le> k \<and> k < Suc m \<longrightarrow> \<not> lt (xs ! k) (xs ! m)" by metis
      then show ?thesis using True by simp
    next
      case False
      let ?b = "foldl ?f i [i + 1..<m]"
      have b: "i \<le> ?b" "?b < m" "\<forall>k. i \<le> k \<and> k < m \<longrightarrow> \<not> lt (xs ! k) (xs ! ?b)"
        using Suc False by auto
      have step: "foldl ?f i [i + 1..<Suc m] = ?f ?b m" using Suc.prems False by simp
      have "\<not> lt (xs ! k) (xs ! m)" if "lt (xs ! m) (xs ! ?b)" "i \<le> k" "k < m" for k
        using that b(3) weak_orderD(3) [OF assms(1)] by blast
      moreover have "\<not> lt (xs ! m) (xs ! m)" using assms(1) by (simp add: weak_order_def)
      ultimately show ?thesis
        unfolding step using b Suc.prems False by (auto simp: less_Suc_eq)
    qed
  qed simp
  from this [OF assms(2)] show ?thesis by (simp add: best_from_def)
qed

lemma selectionSort_ok:
  assumes lt: "weak_order lt"
  shows "mset (selectionSort lt xs) = mset xs \<and> sorted_wrt (\<lambda>x y. \<not> lt y x) (selectionSort lt xs)"
proof -
  let ?step = "\<lambda>xs i. swap_at xs i (best_from lt xs i)"
  define ys where "ys m = foldl ?step xs [0..<m]" for m
  have "mset (ys m) = mset xs \<and> (\<forall>i j. i < m \<and> i < j \<and> j < length xs \<longrightarrow> \<not> lt (ys m ! j) (ys m ! i))"
    if "m \<le> length xs - 1" for m
    using that
  proof (induction m)
    case 0
    then show ?case by (simp add: ys_def)
  next
    case (Suc m)
    then have IH: "mset (ys m) = mset xs" "\<forall>i j. i < m \<and> i < j \<and> j < length xs \<longrightarrow> \<not> lt (ys m ! j) (ys m ! i)"
      and m: "m < length xs" by auto
    have len: "length (ys m) = length xs" using IH(1) by (metis size_mset)
    let ?b = "best_from lt (ys m) m"
    have b: "m \<le> ?b" "?b < length xs" "\<forall>k. m \<le> k \<and> k < length xs \<longrightarrow> \<not> lt (ys m ! k) (ys m ! ?b)"
      using best_from_ok [OF lt, of m "ys m"] m len by auto
    have step: "ys (Suc m) = swap_at (ys m) m ?b" by (simp add: ys_def)
    have nth: "ys (Suc m) ! k = (if k = m then ys m ! ?b else if k = ?b then ys m ! m else ys m ! k)" if "k < length xs" for k
      unfolding step using swap_at_nth [of m "ys m" ?b k] m b(2) len that by simp
    have "\<not> lt (ys (Suc m) ! j) (ys (Suc m) ! i)" if "i < Suc m" "i < j" "j < length xs" for i j
    proof (cases "i = m")
      case True
      then show ?thesis using nth that b m by auto
    next
      case False
      then have "ys (Suc m) ! i = ys m ! i" using that b(1) nth by simp
      moreover have "\<exists>k. i < k \<and> k < length xs \<and> ys (Suc m) ! j = ys m ! k"
        using nth [OF that(3)] that b(1,2) m False by (metis less_Suc_eq less_le_trans)
      ultimately show ?thesis using IH(2) that(1) False by auto
    qed
    moreover have "mset (ys (Suc m)) = mset xs"
      unfolding step using mset_swap_at [of m "ys m" ?b] m b(2) len IH(1) by simp
    ultimately show ?case by blast
  qed
  from this [of "length xs - 1"] have s: "mset (selectionSort lt xs) = mset xs"
    "\<forall>i j. i < length xs - 1 \<and> i < j \<and> j < length xs \<longrightarrow> \<not> lt (selectionSort lt xs ! j) (selectionSort lt xs ! i)"
    by (simp_all add: ys_def selectionSort_def)
  moreover have "length (selectionSort lt xs) = length xs" using s(1) by (metis size_mset)
  ultimately show ?thesis by (auto simp: sorted_wrt_iff_nth_less)
qed

section \<open>The partition\<close>

text \<open>Below \<open>lo\<close> nothing is greater than the pivot, from \<open>hi\<close> on nothing is smaller, and each scan has a place to stop.\<close>

definition parted :: "('a \<Rightarrow> 'a \<Rightarrow> bool) \<Rightarrow> 'a \<Rightarrow> 'a list \<Rightarrow> nat \<Rightarrow> nat \<Rightarrow> bool" where
  "parted lt pivot xs lo hi \<longleftrightarrow> lo \<le> hi \<and> hi \<le> length xs
     \<and> (\<forall>k < lo. \<not> lt pivot (xs ! k)) \<and> (\<forall>k. hi \<le> k \<and> k < length xs \<longrightarrow> \<not> lt (xs ! k) pivot)
     \<and> (\<exists>k. lo \<le> k \<and> k < length xs \<and> \<not> lt (xs ! k) pivot)
     \<and> (\<exists>k < hi. (lo = 0 \<longrightarrow> 0 < k) \<and> \<not> lt pivot (xs ! k))"

lemma partition_loop_ok:
  assumes lt: "weak_order lt"
  shows "parted lt pivot xs lo hi \<Longrightarrow> \<exists>i ys. partition_loop lt pivot xs lo hi = Inr (i, ys) \<and> mset ys = mset xs
    \<and> 0 < i \<and> i < length xs \<and> (\<forall>k < i. \<not> lt pivot (ys ! k)) \<and> (\<forall>k. i \<le> k \<and> k < length ys \<longrightarrow> \<not> lt (ys ! k) pivot)"
proof (induction "hi - lo" arbitrary: xs lo hi rule: less_induct)
  case less
  note p = less.prems [unfolded parted_def]
  obtain i where i: "scan_up lt pivot xs lo = Inr i" using scan_up_stops p by metis
  note up = scan_up_Inr [OF i]
  obtain m where m: "m < hi" "lo = 0 \<longrightarrow> 0 < m" "\<not> lt pivot (xs ! m)" using p by blast
  then obtain j where j: "scan_down lt pivot xs hi = Inr j" "m \<le> j" using scan_down_stops p by metis
  note down = scan_down_Inr [OF j(1)]
  have low: "\<not> lt pivot (xs ! k)" if "k < i" for k
    using that up p weak_orderD(1) [OF lt] by (metis not_less)
  have high: "\<not> lt (xs ! k) pivot" if "j < k" "k < length xs" for k
    using that down p weak_orderD(1) [OF lt] by (metis not_less)
  show ?case
  proof (cases "j \<le> i")
    case True
    then have "partition_loop lt pivot xs lo hi = Inr (i, xs)" using i j(1) by (subst partition_loop.simps) simp
    moreover have "0 < i" using True j(2) m(2) up by (metis gr_zeroI le_zero_eq)
    moreover have "\<not> lt (xs ! k) pivot" if "i \<le> k" "k < length xs" for k
      using that high up True by (cases "k = i") auto
    ultimately show ?thesis using low up by blast
  next
    case False
    let ?ys = "swap_at xs i j"
    have ij: "i < j" "j < length xs" using False down by auto
    have nth: "?ys ! k = (if k = i then xs ! j else if k = j then xs ! i else xs ! k)" if "k < length xs" for k
      using swap_at_nth [of i xs j k] ij that by simp
    have "parted lt pivot ?ys (Suc i) j"
      unfolding parted_def
    proof (intro conjI allI impI)
      show "\<not> lt pivot (?ys ! k)" if "k < Suc i" for k
        using that nth [of k] low [of k] down ij by auto
      show "\<not> lt (?ys ! k) pivot" if "j \<le> k \<and> k < length ?ys" for k
        using that nth [of k] high [of k] up ij by auto
      show "\<exists>k. Suc i \<le> k \<and> k < length ?ys \<and> \<not> lt (?ys ! k) pivot"
        using ij nth [of j] up by (intro exI [of _ j]) simp
      show "\<exists>k < j. (Suc i = 0 \<longrightarrow> 0 < k) \<and> \<not> lt pivot (?ys ! k)"
        using ij nth [of i] down by (intro exI [of _ i]) simp
    qed (use ij in auto)
    moreover have "j - Suc i < hi - lo" using ij up down by linarith
    ultimately obtain i' zs where "partition_loop lt pivot ?ys (Suc i) j = Inr (i', zs)" "mset zs = mset ?ys"
      "0 < i'" "i' < length ?ys" "\<forall>k < i'. \<not> lt pivot (zs ! k)" "\<forall>k. i' \<le> k \<and> k < length zs \<longrightarrow> \<not> lt (zs ! k) pivot"
      using less.hyps by meson
    moreover have "partition_loop lt pivot xs lo hi = partition_loop lt pivot ?ys (Suc i) j"
      using i j(1) False by (subst partition_loop.simps) simp
    ultimately show ?thesis using mset_swap_at [of i xs j] ij by auto
  qed
qed

lemma parted_start:
  assumes "weak_order lt" "1 < length xs"
  shows "parted lt (xs ! (length xs div 2)) xs 0 (length xs)"
proof -
  have "length xs div 2 < length xs" "0 < length xs div 2" "\<not> lt (xs ! (length xs div 2)) (xs ! (length xs div 2))"
    using assms by (simp_all add: weak_order_def)
  then show ?thesis unfolding parted_def by auto
qed

text \<open>
  C33. \<open>sort\<close> ends for every strict weak order and every array, stays inside it, and returns its elements in
  ascending order.
\<close>

theorem vec_sort_sorts:
  assumes lt: "weak_order lt"
  shows "\<exists>ys. vec_sort lt xs = Some (Inr ys) \<and> mset ys = mset xs \<and> sorted_wrt (\<lambda>x y. \<not> lt y x) ys"
proof (induction "length xs" arbitrary: xs rule: less_induct)
  case less
  show ?case
  proof (cases "length xs \<le> 15")
    case True
    then show ?thesis using selectionSort_ok [OF lt, of xs] by (subst vec_sort.simps) simp
  next
    case False
    let ?p = "xs ! (length xs div 2)"
    have "1 < length xs" using False by simp
    from partition_loop_ok [OF lt parted_start [OF lt this]] obtain i zs
      where part: "partition_loop lt ?p xs 0 (length xs) = Inr (i, zs)" "mset zs = mset xs" "0 < i" "i < length xs"
        "\<forall>k < i. \<not> lt ?p (zs ! k)" "\<forall>k. i \<le> k \<and> k < length zs \<longrightarrow> \<not> lt (zs ! k) ?p" by blast
    have len: "length zs = length xs" using part(2) by (metis size_mset)
    obtain ls where ls: "vec_sort lt (take i zs) = Some (Inr ls)" "mset ls = mset (take i zs)"
        "sorted_wrt (\<lambda>x y. \<not> lt y x) ls"
      using less [of "take i zs"] part(4) len by auto
    obtain rs where rs: "vec_sort lt (drop i zs) = Some (Inr rs)" "mset rs = mset (drop i zs)"
        "sorted_wrt (\<lambda>x y. \<not> lt y x) rs"
      using less [of "drop i zs"] part(3,4) len by (metis diff_less gr_implies_not0 length_drop neq0_conv)
    have "set ls = set (take i zs)" "set rs = set (drop i zs)" using ls(2) rs(2) by (metis set_mset_mset)+
    then have "\<not> lt ?p x" "\<not> lt y ?p" if "x \<in> set ls" "y \<in> set rs" for x y
      using that part(4-6) len by (auto simp: in_set_conv_nth)
    then have "sorted_wrt (\<lambda>x y. \<not> lt y x) (ls @ rs)"
      using ls(3) rs(3) weak_orderD(2) [OF lt] unfolding sorted_wrt_append by blast
    moreover have "mset (ls @ rs) = mset xs"
      using ls(2) rs(2) part(2) by (metis append_take_drop_id mset_append)
    moreover have "vec_sort lt xs = Some (Inr (ls @ rs))"
      using False part(1) ls(1) rs(1) by (subst vec_sort.simps) simp
    ultimately show ?thesis by blast
  qed
qed

lemma vec_sort_sorts_witness:
  "\<exists>ys. vec_sort (<) (rev [0..<20]) = Some (Inr ys) \<and> sorted ys \<and> mset ys = mset [0..<20]"
proof -
  have "weak_order ((<) :: nat \<Rightarrow> nat \<Rightarrow> bool)" using weak_order_key [of "\<lambda>n. n :: nat"] .
  from vec_sort_sorts [OF this, of "rev [0..<20]"] show ?thesis by (auto simp: not_less)
qed

end
