(* ===== verification/Bounded_Queues.thy ===== *)
theory Bounded_Queues
  imports Cosy_Prelude
begin

text \<open>
  The class \<open>bqueue\<close> of \<open>examples/solvers/glucose-3.0/core/BoundedQueue.h\<close>, instantiated with \<open>unsigned int\<close> as the
  solver does: a ring buffer of the latest values with their sum, from which the solver decides when to restart. The
  averages in floating point are not modelled.
\<close>

section \<open>The queue and its operations\<close>

record bqueue =
  bq_elems :: "int32 list"
  bq_first :: nat
  bq_last :: nat
  bq_sumofqueue :: int64
  bq_maxsize :: nat
  bq_queuesize :: nat

definition bq_new :: bqueue where
  "bq_new = \<lparr>bq_elems = [], bq_first = 0, bq_last = 0, bq_sumofqueue = 0, bq_maxsize = 0, bq_queuesize = 0\<rparr>"

definition bq_growTo :: "nat \<Rightarrow> bqueue \<Rightarrow> bqueue result" where
  "bq_growTo n q = andThen (foldR (\<lambda>i es. vec_put es i 0) [0..<n]
       (bq_elems q @ replicate (n - length (bq_elems q)) 0)) (\<lambda>es.
     Inr (q\<lparr>bq_elems := es, bq_first := 0, bq_maxsize := n, bq_queuesize := 0, bq_last := 0\<rparr>))"

definition bq_initSize :: "nat \<Rightarrow> bqueue \<Rightarrow> bqueue result" where
  "bq_initSize n q = bq_growTo n q"

definition bq_advance :: "bqueue \<Rightarrow> nat \<Rightarrow> nat" where
  "bq_advance q i = (if i + 1 = bq_maxsize q then 0 else i + 1)"

definition bq_push :: "int32 \<Rightarrow> bqueue \<Rightarrow> bqueue result" where
  "bq_push x q =
     andThen (if bq_queuesize q = bq_maxsize q then
                check (bq_last q = bq_first q) (andThen (vec_at (bq_elems q) (bq_last q)) (\<lambda>e.
                  Inr (q\<lparr>bq_sumofqueue := bq_sumofqueue q - ucast e, bq_last := bq_advance q (bq_last q)\<rparr>)))
              else Inr (q\<lparr>bq_queuesize := bq_queuesize q + 1\<rparr>)) (\<lambda>q.
     andThen (vec_put (bq_elems q) (bq_first q) x) (\<lambda>es.
       let q = q\<lparr>bq_sumofqueue := bq_sumofqueue q + ucast x, bq_elems := es, bq_first := bq_first q + 1\<rparr> in
       Inr (if bq_first q = bq_maxsize q then q\<lparr>bq_first := 0, bq_last := 0\<rparr> else q)))"

definition bq_peek :: "bqueue \<Rightarrow> int32 result" where
  "bq_peek q = check (0 < bq_queuesize q) (vec_at (bq_elems q) (bq_last q))"

definition bq_pop :: "bqueue \<Rightarrow> bqueue result" where
  "bq_pop q = andThen (vec_at (bq_elems q) (bq_last q)) (\<lambda>e.
     Inr (q\<lparr>bq_sumofqueue := bq_sumofqueue q - ucast e, bq_queuesize := bq_queuesize q - 1,
            bq_last := bq_advance q (bq_last q)\<rparr>))"

definition bq_getsum :: "bqueue \<Rightarrow> int64" where
  "bq_getsum q = bq_sumofqueue q"

text \<open>The average of an empty queue divides by zero, which is \<open>Out_of_range\<close> here.\<close>

definition bq_getavg :: "bqueue \<Rightarrow> int32 result" where
  "bq_getavg q = (if bq_queuesize q = 0 then Inl Out_of_range
     else Inr (ucast (bq_sumofqueue q div of_nat (bq_queuesize q))))"

definition bq_isvalid :: "bqueue \<Rightarrow> bool" where
  "bq_isvalid q \<longleftrightarrow> bq_queuesize q = bq_maxsize q"

definition bq_fastclear :: "bqueue \<Rightarrow> bqueue" where
  "bq_fastclear q = q\<lparr>bq_first := 0, bq_last := 0, bq_queuesize := 0, bq_sumofqueue := 0\<rparr>"

definition bq_size :: "bqueue \<Rightarrow> nat" where
  "bq_size q = bq_queuesize q"

definition bq_clear :: "bqueue \<Rightarrow> bqueue" where
  "bq_clear q = q\<lparr>bq_elems := [], bq_first := 0, bq_maxsize := 0, bq_queuesize := 0, bq_sumofqueue := 0\<rparr>"

section \<open>The content\<close>

text \<open>The latest \<open>n\<close> values of a sequence.\<close>

definition latest :: "nat \<Rightarrow> 'a list \<Rightarrow> 'a list" where
  "latest n xs = drop (length xs - n) xs"

definition total :: "int32 list \<Rightarrow> nat" where
  "total xs = sum_list (map unat xs)"

definition bq_holds :: "bqueue \<Rightarrow> int32 list \<Rightarrow> bool" where
  "bq_holds q xs \<longleftrightarrow> 0 < bq_maxsize q \<and> bq_maxsize q \<le> length (bq_elems q) \<and> bq_queuesize q = length xs
     \<and> bq_sumofqueue q = of_nat (total xs) \<and> bq_first q < bq_maxsize q
     \<and> (if length xs < bq_maxsize q then bq_last q = 0 \<and> bq_first q = length xs \<and> take (length xs) (bq_elems q) = xs
        else bq_last q = bq_first q
          \<and> xs = drop (bq_first q) (take (bq_maxsize q) (bq_elems q)) @ take (bq_first q) (bq_elems q))"

lemma latest_snoc:
  assumes "0 < n" "length xs \<le> n"
  shows "latest n (xs @ [x]) = (if length xs < n then xs else tl (latest n xs)) @ [x]"
  using assms by (auto simp: latest_def tl_drop drop_Suc)

lemma latest_latest: "latest n (latest n xs @ [x]) = latest n (xs @ [x])"
  by (cases "length xs \<le> n") (simp_all add: latest_def Suc_diff_le)

lemma length_latest: "length (latest n xs) = min n (length xs)"
  by (simp add: latest_def)

lemma holds_sum: "bq_holds q xs \<Longrightarrow> bq_sumofqueue q = of_nat (total xs)"
  by (simp add: bq_holds_def)

lemma holds_length: "bq_holds q xs \<Longrightarrow> length xs \<le> bq_maxsize q"
  by (auto simp: bq_holds_def split: if_splits)

lemma ucast_total: "(ucast (x :: int32) :: int64) = of_nat (unat x)"
  by simp

lemma push_room:
  assumes q: "bq_holds q xs" and room: "length xs < bq_maxsize q"
  shows "\<exists>q'. bq_push x q = Inr q' \<and> bq_holds q' (xs @ [x]) \<and> bq_maxsize q' = bq_maxsize q"
proof -
  have q': "bq_maxsize q \<le> length (bq_elems q)" "bq_queuesize q = length xs" "bq_last q = 0" "bq_first q = length xs"
    "take (length xs) (bq_elems q) = xs" "bq_sumofqueue q = of_nat (total xs)"
    using q room by (simp_all add: bq_holds_def)
  have "take (Suc (length xs)) ((bq_elems q)[length xs := x]) = xs @ [x]"
    using q'(1,5) room by (simp add: take_Suc_conv_app_nth)
  then show ?thesis
    using q' room by (auto simp: bq_push_def bq_holds_def total_def Let_def)
qed

lemma push_full:
  assumes q: "bq_holds q xs" and full: "length xs = bq_maxsize q"
  shows "\<exists>q'. bq_push x q = Inr q' \<and> bq_holds q' (tl xs @ [x]) \<and> bq_maxsize q' = bq_maxsize q"
proof -
  let ?f = "bq_first q" and ?n = "bq_maxsize q" and ?es = "bq_elems q"
  have q': "0 < ?n" "?n \<le> length ?es" "bq_queuesize q = ?n" "bq_last q = ?f" "?f < ?n"
    "xs = drop ?f (take ?n ?es) @ take ?f ?es" "bq_sumofqueue q = of_nat (total xs)"
    using q full by (simp_all add: bq_holds_def)
  have d: "drop ?f (take ?n ?es) = ?es ! ?f # drop (Suc ?f) (take ?n ?es)"
    using q'(2,5) by (simp add: Cons_nth_drop_Suc [symmetric])
  have tl: "tl xs = drop (Suc ?f) (take ?n ?es) @ take ?f ?es" by (subst q'(6)) (simp add: d)
  have hd: "xs = ?es ! ?f # tl xs" by (subst q'(6)) (simp add: d tl)
  have sum: "bq_sumofqueue q - ucast (?es ! ?f) + ucast x = of_nat (total (tl xs @ [x]))"
    by (subst q'(7), subst hd) (simp add: total_def)
  let ?xs = "?es[?f := x]"
  have upd: "drop (Suc ?f) (take ?n ?xs) = drop (Suc ?f) (take ?n ?es)"
    "take (Suc ?f) ?xs = take ?f ?es @ [x]"
    using q'(2,5) by (simp_all add: drop_take take_Suc_conv_app_nth)
  show ?thesis
  proof (cases "Suc ?f = ?n")
    case True
    then have "tl xs @ [x] = take ?n ?xs" using upd(2) tl by simp
    then show ?thesis
      using q' True sum full by (auto simp: bq_push_def bq_holds_def bq_advance_def Let_def)
  next
    case False
    then have "tl xs @ [x] = drop (Suc ?f) (take ?n ?xs) @ take (Suc ?f) ?xs" using upd tl by simp
    moreover have "length (tl xs @ [x]) = ?n" using full q'(1) by simp
    ultimately show ?thesis
      using q' False sum by (auto simp: bq_push_def bq_holds_def bq_advance_def Let_def)
  qed
qed

lemma push_ok:
  assumes q: "bq_holds q (latest (bq_maxsize q) xs)"
  shows "\<exists>q'. bq_push x q = Inr q' \<and> bq_holds q' (latest (bq_maxsize q) (xs @ [x])) \<and> bq_maxsize q' = bq_maxsize q"
proof -
  let ?n = "bq_maxsize q"
  let ?ys = "latest ?n xs"
  have n: "0 < ?n" using q by (simp add: bq_holds_def)
  have len: "length ?ys \<le> ?n" using q by (rule holds_length)
  have full: "latest ?n ?ys = ?ys" using len by (simp add: latest_def)
  have "latest ?n (xs @ [x]) = (if length ?ys < ?n then ?ys else tl ?ys) @ [x]"
    using latest_snoc [OF n len, of x] latest_latest [of ?n xs x] full by simp
  then show ?thesis using push_room [OF q] push_full [OF q] len by (cases "length ?ys < ?n") auto
qed

lemma pushes_ok:
  "bq_holds q (latest (bq_maxsize q) xs) \<Longrightarrow>
   \<exists>q'. foldR bq_push ys q = Inr q' \<and> bq_holds q' (latest (bq_maxsize q) (xs @ ys)) \<and> bq_maxsize q' = bq_maxsize q"
proof (induction ys arbitrary: q xs)
  case (Cons y ys)
  obtain q1 where q1: "bq_push y q = Inr q1" "bq_holds q1 (latest (bq_maxsize q) (xs @ [y]))" "bq_maxsize q1 = bq_maxsize q"
    using push_ok [OF Cons.prems] by blast
  then have "bq_holds q1 (latest (bq_maxsize q1) (xs @ [y]))" by simp
  from Cons.IH [OF this] q1 show ?case by auto
qed auto

lemma fill_zero: "n \<le> length es \<Longrightarrow> \<exists>es'. foldR (\<lambda>i es. vec_put es i (0 :: int32)) [0..<n] es = Inr es' \<and> length es' = length es"
  by (induction n) (auto simp: foldR_append)

lemma initSize_ok:
  assumes "0 < n" "bq_sumofqueue q = 0"
  shows "\<exists>q'. bq_initSize n q = Inr q' \<and> bq_holds q' [] \<and> bq_maxsize q' = n"
proof -
  let ?es = "bq_elems q @ replicate (n - length (bq_elems q)) 0"
  have "n \<le> length ?es" by simp
  from fill_zero [OF this] obtain es where "foldR (\<lambda>i es. vec_put es i 0) [0..<n] ?es = Inr es" "length es = length ?es" by blast
  then show ?thesis using assms by (auto simp: bq_initSize_def bq_growTo_def bq_holds_def total_def)
qed

lemma total_le: "total xs \<le> length xs * (2 ^ 32 - 1)"
proof (induction xs)
  case (Cons x xs)
  have "unat x \<le> 2 ^ 32 - 1" using unsigned_less [of x, where 'a = nat] by simp
  with Cons show ?case by (simp add: total_def)
qed (simp add: total_def)

lemma getavg_ok:
  assumes q: "bq_holds q xs" and xs: "xs \<noteq> []" "length xs < 2 ^ 31"
  shows "\<exists>a. bq_getavg q = Inr a \<and> unat a = total xs div length xs"
proof -
  have t: "total xs \<le> length xs * (2 ^ 32 - 1)" by (rule total_le)
  have "length xs * (2 ^ 32 - 1) < 2 ^ 31 * 2 ^ 32" using xs(2) by (intro mult_strict_mono) auto
  then have small: "total xs < 2 ^ 64" using t by simp
  have sum: "unat (bq_sumofqueue q) = total xs"
    using holds_sum [OF q] small by (simp add: unsigned_of_nat take_bit_nat_eq_self)
  have len: "unat (of_nat (length xs) :: int64) = length xs"
    using xs(2) by (simp add: unsigned_of_nat take_bit_nat_eq_self)
  have "total xs div length xs \<le> 2 ^ 32 - 1"
    using div_le_mono [OF t, of "length xs"] xs(1) by simp
  then have "total xs div length xs < 2 ^ 32" by simp
  then have "unat (ucast (bq_sumofqueue q div of_nat (length xs)) :: int32) = total xs div length xs"
    by (simp add: unsigned_ucast_eq unat_div sum len take_bit_nat_eq_self)
  moreover have "bq_queuesize q = length xs" using q by (simp add: bq_holds_def)
  ultimately show ?thesis using xs(1) by (simp add: bq_getavg_def)
qed

text \<open>
  C34. A bounded queue of size \<open>n\<close> is a moving average: after any sequence of values has been pushed, it is valid
  exactly when at least \<open>n\<close> values were pushed, and the average is that of the latest \<open>n\<close> values, or of all
  of them while there are fewer; neither the sum nor the quotient overflows. The queue is filled up to
  \<open>maxsize = n\<close> elements; the comment of the code that their number must be below \<open>maxsize\<close> is wrong.
\<close>

theorem moving_average:
  assumes n: "0 < n" "n < 2 ^ 31" and q: "bq_sumofqueue q = 0"
  shows "\<exists>q0 q'. bq_initSize n q = Inr q0 \<and> foldR bq_push xs q0 = Inr q'
    \<and> bq_size q' = min n (length xs) \<and> (bq_isvalid q' \<longleftrightarrow> n \<le> length xs)
    \<and> unat (bq_getsum q') = total (latest n xs)
    \<and> (case bq_getavg q' of Inl e \<Rightarrow> xs = []
       | Inr a \<Rightarrow> xs \<noteq> [] \<and> unat a = total (latest n xs) div min n (length xs))"
proof -
  obtain q0 where q0: "bq_initSize n q = Inr q0" "bq_holds q0 []" "bq_maxsize q0 = n"
    using initSize_ok [OF n(1) q] by blast
  then have "bq_holds q0 (latest (bq_maxsize q0) [])" by (simp add: latest_def)
  from pushes_ok [OF this, of xs] q0(3) obtain q' where q': "foldR bq_push xs q0 = Inr q'"
    "bq_holds q' (latest n xs)" "bq_maxsize q' = n" by auto
  have size: "bq_queuesize q' = min n (length xs)" using q'(2) by (simp add: bq_holds_def length_latest)
  have len: "length (latest n xs) < 2 ^ 31" using n(2) by (simp add: length_latest)
  have "total (latest n xs) \<le> 2 ^ 31 * 2 ^ 32"
    using total_le [of "latest n xs"] len by (meson le_trans less_imp_le mult_le_mono diff_le_self)
  then have sum: "unat (bq_sumofqueue q') = total (latest n xs)"
    using holds_sum [OF q'(2)] by (simp add: unsigned_of_nat take_bit_nat_eq_self)
  have "case bq_getavg q' of Inl e \<Rightarrow> xs = []
       | Inr a \<Rightarrow> xs \<noteq> [] \<and> unat a = total (latest n xs) div min n (length xs)"
  proof (cases "xs = []")
    case True
    then show ?thesis using size by (simp add: bq_getavg_def)
  next
    case False
    then have "0 < min n (length xs)" using n(1) by simp
    then have "latest n xs \<noteq> []" by (metis length_latest length_greater_0_conv)
    from getavg_ok [OF q'(2) this len] False show ?thesis by (auto simp: length_latest)
  qed
  then show ?thesis using q0(1) q'(1,3) size sum by (auto simp: bq_size_def bq_isvalid_def bq_getsum_def)
qed

lemma moving_average_witness:
  "\<exists>q0 q a. bq_initSize 2 bq_new = Inr q0 \<and> foldR bq_push [5, 2, 8] q0 = Inr q \<and> bq_getavg q = Inr a \<and> unat a = 5"
proof -
  have q: "bq_sumofqueue bq_new = 0" by (simp add: bq_new_def)
  have "(0 :: nat) < 2" "(2 :: nat) < 2 ^ 31" by simp_all
  from moving_average [OF this q, of "[5, 2, 8]"] obtain q0 q
    where q: "bq_initSize 2 bq_new = Inr q0" "foldR bq_push [5, 2, 8] q0 = Inr q"
      "case bq_getavg q of Inl e \<Rightarrow> [5, 2, 8 :: int32] = []
       | Inr a \<Rightarrow> [5, 2, 8 :: int32] \<noteq> [] \<and> unat a = total (latest 2 [5, 2, 8]) div min 2 (length [5, 2, 8 :: int32])"
    by (elim exE conjE)
  then obtain a where "bq_getavg q = Inr a" by (cases "bq_getavg q") simp_all
  with q show ?thesis by (simp add: latest_def total_def numeral_2_eq_2 [symmetric])
qed

text \<open>
  The solver never takes a value out. If it did, the queue would lose its place: when \<open>push\<close> wraps round
  it also resets the position of the oldest value.
\<close>

lemma pop_then_push_loses_order:
  "andThen (bq_initSize 2 bq_new) (\<lambda>q. andThen (bq_push 1 q) (\<lambda>q. andThen (bq_pop q) (\<lambda>q. andThen (bq_push 2 q) bq_peek)))
     = Inr 1"
  by code_simp

end
