(* ===== verification/Solver_Clause_Stores.thy ===== *)
theory Solver_Clause_Stores
  imports Minisat_Clauses
begin

text \<open>
  The clauses of the solver \<open>glucose-3.0\<close> and their allocator: \<open>Clause\<close> and \<open>ClauseAllocator\<close> of
  \<open>examples/solvers/glucose-3.0/core/SolverTypes.h\<close> and \<open>RegionAllocator\<close> of \<open>mtl/Alloc.h\<close>. The region is a map from
  the positions at which clauses begin to the clauses; its size, capacity and waste are the counters of the code. An
  activity is kept as the word that holds it; the number of literals without selectors is \<open>None\<close> until it is set, as the
  constructor leaves it uninitialised. The lemmas show that an allocation never touches another clause and that
  the loop that enlarges the region ends.
\<close>

section \<open>Clauses\<close>

record gclause =
  gc_mark :: "2 word"
  gc_learnt :: bool
  gc_has_extra :: bool
  gc_reloced :: bool
  gc_lbd :: "26 word"
  gc_canbedel :: bool
  gc_size :: int32
  gc_szWithoutSelectors :: "int32 option"
  gc_data :: "int32 list"

abbreviation gc_length :: "gclause \<Rightarrow> nat" where
  "gc_length c \<equiv> unat (gc_size c)"

definition gclause_get :: "gclause \<Rightarrow> nat \<Rightarrow> solver_lit result" where
  "gclause_get c i = andThen (vec_at (gc_data c) i) (\<lambda>w. Inr (SLit w))"

definition gclause_put :: "gclause \<Rightarrow> nat \<Rightarrow> solver_lit \<Rightarrow> gclause result" where
  "gclause_put c i p = andThen (vec_put (gc_data c) i (sl_x p)) (\<lambda>d. Inr (c\<lparr>gc_data := d\<rparr>))"

definition gclause_calcAbstraction :: "gclause \<Rightarrow> gclause result" where
  "gclause_calcAbstraction c = check (gc_has_extra c)
     (andThen (foldR (\<lambda>i abstraction. andThen (gclause_get c i) (\<lambda>p. Inr (abstraction OR var_bit p)))
                [0..<gc_length c] 0) (\<lambda>abstraction.
      andThen (vec_put (gc_data c) (gc_length c) abstraction) (\<lambda>d. Inr (c\<lparr>gc_data := d\<rparr>))))"

definition gclause_new :: "solver_lit list \<Rightarrow> bool \<Rightarrow> bool \<Rightarrow> gclause result" where
  "gclause_new ps use_extra learnt =
     (let c = \<lparr>gc_mark = 0, gc_learnt = learnt, gc_has_extra = use_extra, gc_reloced = False, gc_lbd = 0,
               gc_canbedel = True, gc_size = of_nat (length ps), gc_szWithoutSelectors = None,
               gc_data = map sl_x ps @ (if use_extra then [0] else [])\<rparr>
      in if use_extra then
           if learnt then andThen (vec_put (gc_data c) (gc_length c) 0) (\<lambda>d. Inr (c\<lparr>gc_data := d\<rparr>))
           else gclause_calcAbstraction c
         else Inr c)"

definition gclause_shrink :: "gclause \<Rightarrow> nat \<Rightarrow> gclause result" where
  "gclause_shrink c i = check (i \<le> gc_length c)
     (andThen (if gc_has_extra c then
                 andThen (vec_at (gc_data c) (gc_length c)) (\<lambda>w.
                 andThen (vec_put (gc_data c) (gc_length c - i) w) (\<lambda>d. Inr (c\<lparr>gc_data := d\<rparr>)))
               else Inr c)
        (\<lambda>c. Inr (c\<lparr>gc_size := gc_size c - of_nat i\<rparr>)))"

definition gclause_set_mark :: "gclause \<Rightarrow> int32 \<Rightarrow> gclause" where
  "gclause_set_mark c m = c\<lparr>gc_mark := ucast m\<rparr>"

definition gclause_mark :: "gclause \<Rightarrow> int32" where
  "gclause_mark c = ucast (gc_mark c)"

definition gclause_relocation :: "gclause \<Rightarrow> int32 result" where
  "gclause_relocation c = vec_at (gc_data c) 0"

definition gclause_relocate :: "gclause \<Rightarrow> int32 \<Rightarrow> gclause result" where
  "gclause_relocate c r = andThen (vec_put (gc_data c) 0 r) (\<lambda>d. Inr (c\<lparr>gc_reloced := True, gc_data := d\<rparr>))"

definition gclause_activity :: "gclause \<Rightarrow> int32 result" where
  "gclause_activity c = check (gc_has_extra c) (vec_at (gc_data c) (gc_length c))"

definition gclause_set_activity :: "gclause \<Rightarrow> int32 \<Rightarrow> gclause result" where
  "gclause_set_activity c a = check (gc_has_extra c)
     (andThen (vec_put (gc_data c) (gc_length c) a) (\<lambda>d. Inr (c\<lparr>gc_data := d\<rparr>)))"

definition gclause_setLBD :: "gclause \<Rightarrow> int32 \<Rightarrow> gclause" where
  "gclause_setLBD c i = c\<lparr>gc_lbd := ucast i\<rparr>"

definition gclause_lbd :: "gclause \<Rightarrow> int32" where
  "gclause_lbd c = ucast (gc_lbd c)"

definition gclause_setCanBeDel :: "gclause \<Rightarrow> bool \<Rightarrow> gclause" where
  "gclause_setCanBeDel c b = c\<lparr>gc_canbedel := b\<rparr>"

definition gclause_setSizeWithoutSelectors :: "gclause \<Rightarrow> int32 \<Rightarrow> gclause" where
  "gclause_setSizeWithoutSelectors c n = c\<lparr>gc_szWithoutSelectors := Some n\<rparr>"

section \<open>The allocator\<close>

record clause_store =
  ca_clauses :: "int32 \<rightharpoonup> gclause"
  ca_sz :: int32
  ca_cap :: int32
  ca_wasted :: int32
  ca_extra_clause_field :: bool

definition cap_delta :: "int32 \<Rightarrow> int32" where
  "cap_delta cap = (drop_bit 1 cap + drop_bit 3 cap + 2) AND NOT 1"

partial_function (option) capacity_loop :: "int32 \<Rightarrow> int32 \<Rightarrow> int32 \<Rightarrow> int32 result option" where
  "capacity_loop prev_cap min_cap cap =
     (if min_cap \<le> cap then Some (Inr cap)
      else if cap + cap_delta cap \<le> prev_cap then Some (Inl Out_of_memory)
      else capacity_loop prev_cap min_cap (cap + cap_delta cap))"

definition region_capacity :: "int32 \<Rightarrow> clause_store \<Rightarrow> clause_store result option" where
  "region_capacity min_cap ca =
     (if min_cap \<le> ca_cap ca then Some (Inr ca)
      else bindP (capacity_loop (ca_cap ca) min_cap (ca_cap ca)) (\<lambda>cap. Some (Inr (ca\<lparr>ca_cap := cap\<rparr>))))"

definition region_alloc :: "int32 \<Rightarrow> clause_store \<Rightarrow> (int32 \<times> clause_store) result option" where
  "region_alloc n ca =
     (if \<not> 0 <s n then Some (Inl Check_failed)
      else bindP (region_capacity (ca_sz ca + n) ca) (\<lambda>ca'.
           Some (if ca_sz ca' + n < ca_sz ca' then Inl Out_of_memory
                 else Inr (ca_sz ca', ca'\<lparr>ca_sz := ca_sz ca' + n\<rparr>))))"

definition region_free :: "int32 \<Rightarrow> clause_store \<Rightarrow> clause_store" where
  "region_free n ca = ca\<lparr>ca_wasted := ca_wasted ca + n\<rparr>"

text \<open>The header of a clause takes three words. Moving a region to another gives both, the emptied one first.\<close>

definition clauseWord32Size :: "int32 \<Rightarrow> bool \<Rightarrow> int32" where
  "clauseWord32Size n has_extra = 3 + n + (if has_extra then 1 else 0)"

definition ca_new :: "int32 \<Rightarrow> clause_store result option" where
  "ca_new start_cap = region_capacity start_cap
     \<lparr>ca_clauses = Map.empty, ca_sz = 0, ca_cap = 0, ca_wasted = 0, ca_extra_clause_field = False\<rparr>"

definition ca_moveTo :: "clause_store \<Rightarrow> clause_store \<times> clause_store" where
  "ca_moveTo ca = (ca\<lparr>ca_clauses := Map.empty, ca_sz := 0, ca_cap := 0, ca_wasted := 0\<rparr>, ca)"

definition ca_at :: "clause_store \<Rightarrow> int32 \<Rightarrow> gclause result" where
  "ca_at ca r = check (r < ca_sz ca) (case ca_clauses ca r of None \<Rightarrow> Inl Bad_index | Some c \<Rightarrow> Inr c)"

definition ca_put :: "clause_store \<Rightarrow> int32 \<Rightarrow> gclause \<Rightarrow> clause_store" where
  "ca_put ca r c = ca\<lparr>ca_clauses := (ca_clauses ca)(r \<mapsto> c)\<rparr>"

definition ca_alloc :: "solver_lit list \<Rightarrow> bool \<Rightarrow> clause_store \<Rightarrow> (int32 \<times> clause_store) result option" where
  "ca_alloc ps learnt ca =
     (let use_extra = learnt \<or> ca_extra_clause_field ca in
      bindP (region_alloc (clauseWord32Size (of_nat (length ps)) use_extra) ca) (\<lambda>r.
      bindP (Some (gclause_new ps use_extra learnt)) (\<lambda>c.
        Some (Inr (fst r, ca_put (snd r) (fst r) c)))))"

definition ca_free :: "int32 \<Rightarrow> clause_store \<Rightarrow> clause_store result" where
  "ca_free cid ca = andThen (ca_at ca cid) (\<lambda>c. Inr (region_free (clauseWord32Size (gc_size c) (gc_has_extra c)) ca))"

text \<open>The literals of a clause, read one by one, as the constructor copies them.\<close>

definition gclause_lits :: "gclause \<Rightarrow> solver_lit list result" where
  "gclause_lits c = foldR (\<lambda>i ps. andThen (gclause_get c i) (\<lambda>p. Inr (ps @ [p]))) [0..<gc_length c] []"

text \<open>The part of \<open>reloc\<close> that copies the other fields of the clause to its copy.\<close>

definition copy_fields :: "gclause \<Rightarrow> gclause \<Rightarrow> gclause result" where
  "copy_fields c d =
     (if gc_learnt d then
        andThen (gclause_activity c) (\<lambda>a. andThen (gclause_set_activity d a) (\<lambda>d.
          Inr (gclause_setCanBeDel ((gclause_setLBD d (gclause_lbd c))
                 \<lparr>gc_szWithoutSelectors := gc_szWithoutSelectors c\<rparr>) (gc_canbedel c))))
      else if gc_has_extra d then gclause_calcAbstraction d else Inr d)"

definition ca_reloc :: "int32 \<Rightarrow> clause_store \<Rightarrow> clause_store \<Rightarrow> (int32 \<times> clause_store \<times> clause_store) result option" where
  "ca_reloc cr ca to =
     bindP (Some (ca_at ca cr)) (\<lambda>c.
     if gc_reloced c then bindP (Some (gclause_relocation c)) (\<lambda>r. Some (Inr (r, ca, to)))
     else bindP (Some (gclause_lits c)) (\<lambda>ps.
          bindP (ca_alloc ps (gc_learnt c) to) (\<lambda>r.
          bindP (Some (gclause_relocate c (fst r))) (\<lambda>moved.
          bindP (Some (andThen (ca_at (snd r) (fst r)) (\<lambda>d. copy_fields moved (gclause_set_mark d (gclause_mark moved))))) (\<lambda>d.
            Some (Inr (fst r, ca_put ca cr moved, ca_put (snd r) (fst r) d)))))))"

section \<open>Well-formed clauses\<close>

definition gc_lits :: "gclause \<Rightarrow> solver_lit list" where
  "gc_lits c = map SLit (take (gc_length c) (gc_data c))"

definition wf_gclause :: "gclause \<Rightarrow> bool" where
  "wf_gclause c \<longleftrightarrow> gc_length c + of_bool (gc_has_extra c) \<le> length (gc_data c)"

lemma length_gc_lits [simp]: "wf_gclause c \<Longrightarrow> length (gc_lits c) = gc_length c"
  by (simp add: gc_lits_def wf_gclause_def)

lemma gclause_get_ok: "wf_gclause c \<Longrightarrow> i < gc_length c \<Longrightarrow> gclause_get c i = Inr (gc_lits c ! i)"
  by (simp add: gclause_get_def vec_at_def gc_lits_def wf_gclause_def)

lemma gclause_put_ok:
  assumes "wf_gclause c" "i < gc_length c"
  shows "\<exists>c'. gclause_put c i p = Inr c' \<and> wf_gclause c' \<and> gc_lits c' = (gc_lits c)[i := p]
    \<and> gc_size c' = gc_size c \<and> length (gc_data c') = length (gc_data c) \<and> gc_mark c' = gc_mark c \<and> gc_learnt c' = gc_learnt c"
proof -
  have "gclause_put c i p = Inr (c\<lparr>gc_data := (gc_data c)[i := sl_x p]\<rparr>)"
    using assms by (simp add: gclause_put_def wf_gclause_def)
  moreover have "gc_lits (c\<lparr>gc_data := (gc_data c)[i := sl_x p]\<rparr>) = (gc_lits c)[i := p]"
    by (simp add: gc_lits_def take_update_swap map_update)
  ultimately show ?thesis using assms by (simp add: wf_gclause_def)
qed

lemma gclause_calcAbstraction_ok:
  assumes "wf_gclause c" "gc_has_extra c"
  shows "\<exists>w. gclause_calcAbstraction c = Inr (c\<lparr>gc_data := (gc_data c)[gc_length c := w]\<rparr>)"
proof -
  have "\<exists>w. foldR (\<lambda>i a. andThen (gclause_get c i) (\<lambda>p. Inr (a OR var_bit p))) is a = Inr w"
    if "\<forall>i \<in> set is. i < gc_length c" for "is" a
    using that by (induction "is" arbitrary: a) (auto simp: gclause_get_ok [OF assms(1)])
  from this [of "[0..<gc_length c]" 0] assms show ?thesis
    by (auto simp: gclause_calcAbstraction_def wf_gclause_def)
qed

lemma gclause_new_ok:
  assumes "length ps < 2 ^ 32"
  shows "\<exists>c. gclause_new ps use_extra learnt = Inr c \<and> wf_gclause c \<and> gc_lits c = ps \<and> gc_learnt c = learnt
    \<and> gc_has_extra c = use_extra \<and> gc_mark c = 0 \<and> length (gc_data c) = length ps + of_bool use_extra \<and> gc_length c = length ps"
proof -
  let ?c = "\<lparr>gc_mark = 0, gc_learnt = learnt, gc_has_extra = use_extra, gc_reloced = False, gc_lbd = 0,
      gc_canbedel = True, gc_size = of_nat (length ps), gc_szWithoutSelectors = None,
      gc_data = map sl_x ps @ (if use_extra then [0] else [])\<rparr>"
  have len: "unat (of_nat (length ps) :: int32) = length ps"
    using assms by (simp add: unsigned_of_nat take_bit_nat_eq_self)
  have wf: "wf_gclause ?c" "gc_lits ?c = ps" by (simp_all add: wf_gclause_def gc_lits_def len comp_def)
  show ?thesis
  proof (cases "use_extra \<and> \<not> learnt")
    case True
    then obtain w where "gclause_new ps use_extra learnt = Inr (?c\<lparr>gc_data := (gc_data ?c)[gc_length ?c := w]\<rparr>)"
      using gclause_calcAbstraction_ok [OF wf(1)] by (auto simp: gclause_new_def)
    then show ?thesis using True wf by (simp add: wf_gclause_def gc_lits_def len comp_def)
  next
    case False
    then show ?thesis using wf by (auto simp: gclause_new_def len list_update_append)
  qed
qed

section \<open>Allocation\<close>

lemma and_not_one: "x AND NOT 1 = x - x mod (2 :: 'a::len word)"
proof -
  have "(x AND NOT 1) + (x AND 1) = (x AND NOT 1) OR (x AND 1)"
    by (rule disjunctive_add) (auto simp: bit_simps)
  also have "\<dots> = x" by (simp add: bit.conj_disj_distrib [symmetric])
  finally show ?thesis by (simp add: and_one_eq algebra_simps)
qed
lemma unat_cap_delta:
  "unat (cap_delta c) = (unat c div 2 + unat c div 8 + 2) - (unat c div 2 + unat c div 8 + 2) mod 2"
proof -
  let ?x = "drop_bit 1 c + drop_bit 3 c + 2"
  have c: "unat c < 2 ^ 32" using unsigned_less [of c, where 'a = nat] by simp
  have "unat (drop_bit 1 c) = unat c div 2" "unat (drop_bit 3 c) = unat c div 8"
    by (simp_all add: drop_bit_eq_div unat_div)
  then have x: "unat ?x = unat c div 2 + unat c div 8 + 2"
    using c by (simp add: unat_word_ariths)
  have m: "unat (?x mod 2) = unat ?x mod 2" by (simp add: unat_mod)
  have "?x mod 2 \<le> ?x" unfolding word_le_nat_alt m by simp
  then show ?thesis unfolding cap_delta_def and_not_one by (simp only: unat_sub m x)
qed

text \<open>Below \<open>2 ^ 31\<close> words the capacity grows without overflow.\<close>

lemma capacity_loop_ok:
  assumes "unat min_cap \<le> 2 ^ 31"
  shows "prev \<le> cap \<Longrightarrow> \<exists>cap'. capacity_loop prev min_cap cap = Some (Inr cap') \<and> min_cap \<le> cap'"
proof (induction "unat min_cap - unat cap" arbitrary: cap rule: less_induct)
  case less
  show ?case
  proof (cases "min_cap \<le> cap")
    case True
    then show ?thesis by (subst capacity_loop.simps) simp
  next
    case False
    let ?c = "unat cap" and ?cap = "cap + cap_delta cap"
    have c: "?c < unat min_cap" using False by (simp add: word_le_nat_alt)
    have d: "1 \<le> unat (cap_delta cap)" "unat (cap_delta cap) \<le> ?c div 2 + ?c div 8 + 2"
      unfolding unat_cap_delta by linarith+
    have next': "unat ?cap = ?c + unat (cap_delta cap)"
      using d(2) c assms by (simp add: unat_word_ariths)
    then have up: "cap < ?cap" using d(1) by (simp add: word_less_nat_alt)
    then have "\<not> ?cap \<le> prev" "prev \<le> ?cap" using less.prems by auto
    moreover have "unat min_cap - unat ?cap < unat min_cap - ?c" using next' d(1) c by linarith
    ultimately show ?thesis using less.hyps False by (subst capacity_loop.simps) simp
  qed
qed

definition store_ok :: "clause_store \<Rightarrow> bool" where
  "store_ok ca \<longleftrightarrow> ca_sz ca \<le> ca_cap ca
     \<and> (\<forall>r c. ca_clauses ca r = Some c \<longrightarrow> wf_gclause c \<and> unat r + 3 + length (gc_data c) \<le> unat (ca_sz ca))
     \<and> (\<forall>r r' c c'. ca_clauses ca r = Some c \<longrightarrow> ca_clauses ca r' = Some c' \<longrightarrow> r < r' \<longrightarrow>
          unat r + 3 + length (gc_data c) \<le> unat r')"

lemma ca_at_ok: "store_ok ca \<Longrightarrow> ca_clauses ca r = Some c \<Longrightarrow> ca_at ca r = Inr c"
  by (fastforce simp: ca_at_def store_ok_def word_less_nat_alt)

lemma store_ok_wf: "store_ok ca \<Longrightarrow> ca_clauses ca r = Some c \<Longrightarrow> wf_gclause c"
  by (simp add: store_ok_def)

lemma store_ok_put:
  assumes "store_ok ca" "ca_clauses ca r = Some c" "wf_gclause c'" "length (gc_data c') = length (gc_data c)"
  shows "store_ok (ca_put ca r c')"
  using assms unfolding store_ok_def ca_put_def by (simp split: if_splits)

lemma region_capacity_ok:
  assumes "unat n \<le> 2 ^ 31"
  shows "\<exists>cap. region_capacity n ca = Some (Inr (ca\<lparr>ca_cap := cap\<rparr>)) \<and> n \<le> cap \<and> ca_cap ca \<le> cap"
proof (cases "n \<le> ca_cap ca")
  case True
  then show ?thesis by (intro exI [of _ "ca_cap ca"]) (simp add: region_capacity_def)
next
  case False
  obtain cap where "capacity_loop (ca_cap ca) n (ca_cap ca) = Some (Inr cap)" "n \<le> cap"
    using capacity_loop_ok [OF assms order_refl] by blast
  then show ?thesis using False by (intro exI [of _ cap]) (simp add: region_capacity_def)
qed

lemma region_alloc_ok:
  assumes n: "0 < unat n" "unat (ca_sz ca) + unat n \<le> 2 ^ 31 - 1"
  shows "\<exists>cap. region_alloc n ca = Some (Inr (ca_sz ca, ca\<lparr>ca_cap := cap, ca_sz := ca_sz ca + n\<rparr>))
    \<and> ca_sz ca + n \<le> cap \<and> unat (ca_sz ca + n) = unat (ca_sz ca) + unat n"
proof -
  have sum: "unat (ca_sz ca + n) = unat (ca_sz ca) + unat n"
    using n by (simp add: unat_word_ariths)
  then have "unat (ca_sz ca + n) \<le> 2 ^ 31" using n(2) by simp
  from region_capacity_ok [OF this, of ca] obtain cap
    where cap: "region_capacity (ca_sz ca + n) ca = Some (Inr (ca\<lparr>ca_cap := cap\<rparr>))" "ca_sz ca + n \<le> cap" by blast
  have "0 <s n"
  proof -
    have "unat n < 2 ^ 31" using n(2) by simp
    then have s: "sint n = int (unat n)" by (intro sint_small) simp
    show ?thesis unfolding word_sless_alt s using n(1) by (simp del: int_nat_eq of_nat_unat)
  qed
  moreover have "\<not> ca_sz ca + n < ca_sz ca" by (simp add: word_less_nat_alt sum)
  ultimately show ?thesis using cap sum by (intro exI [of _ cap]) (simp add: region_alloc_def)
qed

lemma unat_clause_words:
  assumes "k + 4 < 2 ^ 31"
  shows "unat (clauseWord32Size (of_nat k) b) = 3 + k + of_bool b"
proof -
  have "unat (of_nat k :: int32) = k" using assms by (simp add: unsigned_of_nat take_bit_nat_eq_self)
  then show ?thesis using assms by (cases b) (simp_all add: clauseWord32Size_def unat_word_ariths)
qed

text \<open>A new clause lies behind all the others and leaves them as they are.\<close>

lemma ca_alloc_ok:
  assumes ca: "store_ok ca" and room: "unat (ca_sz ca) + 4 + length ps < 2 ^ 31"
  shows "\<exists>ca' c. ca_alloc ps learnt ca = Some (Inr (ca_sz ca, ca')) \<and> store_ok ca'
    \<and> ca_clauses ca (ca_sz ca) = None \<and> ca_clauses ca' = (ca_clauses ca)(ca_sz ca \<mapsto> c)
    \<and> gc_lits c = ps \<and> gc_mark c = 0 \<and> gc_learnt c = learnt
    \<and> ca_extra_clause_field ca' = ca_extra_clause_field ca
    \<and> unat (ca_sz ca') = unat (ca_sz ca) + 3 + length (gc_data c)"
proof -
  let ?b = "learnt \<or> ca_extra_clause_field ca"
  let ?n = "clauseWord32Size (of_nat (length ps)) ?b"
  have n: "unat ?n = 3 + length ps + of_bool ?b" using room by (intro unat_clause_words) simp
  have "of_bool ?b \<le> (1 :: nat)" by simp
  then have "0 < unat ?n" "unat (ca_sz ca) + unat ?n \<le> 2 ^ 31 - 1" using room n by linarith+
  from region_alloc_ok [OF this] obtain cap
    where r: "region_alloc ?n ca = Some (Inr (ca_sz ca, ca\<lparr>ca_cap := cap, ca_sz := ca_sz ca + ?n\<rparr>))"
      "ca_sz ca + ?n \<le> cap" "unat (ca_sz ca + ?n) = unat (ca_sz ca) + unat ?n" by blast
  have "length ps < 2 ^ 32" using room by simp
  from gclause_new_ok [OF this] obtain c where c: "gclause_new ps ?b learnt = Inr c" "wf_gclause c" "gc_lits c = ps"
    "gc_learnt c = learnt" "gc_mark c = 0" "length (gc_data c) = length ps + of_bool ?b" by blast
  have old: "unat r < unat (ca_sz ca)" if "ca_clauses ca r = Some d" for r d
    using ca that unfolding store_ok_def by fastforce
  have fresh: "ca_clauses ca (ca_sz ca) = None"
    using old [of "ca_sz ca"] by (cases "ca_clauses ca (ca_sz ca)") auto
  let ?ca = "ca_put (ca\<lparr>ca_cap := cap, ca_sz := ca_sz ca + ?n\<rparr>) (ca_sz ca) c"
  have "store_ok ?ca"
    unfolding store_ok_def
  proof (intro conjI allI impI, goal_cases)
    case 1
    then show ?case using r(2) by (simp add: ca_put_def)
  next
    case (2 r' d)
    then show ?case using c(2) ca by (auto simp: ca_put_def store_ok_def split: if_splits)
  next
    case (3 r' d)
    have "unat r' + 3 + length (gc_data d) \<le> unat (ca_sz ca) + unat ?n"
    proof (cases "r' = ca_sz ca")
      case True
      then show ?thesis using 3 c(6) n by (simp add: ca_put_def)
    next
      case False
      then show ?thesis using 3 ca by (fastforce simp: ca_put_def store_ok_def)
    qed
    then show ?case using r(3) by (simp add: ca_put_def)
  next
    case (4 r1 r2 d1 d2)
    have "r1 \<noteq> ca_sz ca"
    proof
      assume "r1 = ca_sz ca"
      then have "unat (ca_sz ca) < unat r2" "ca_clauses ca r2 = Some d2"
        using 4 by (auto simp: ca_put_def word_less_nat_alt split: if_splits)
      then show False using old by fastforce
    qed
    then have d1: "ca_clauses ca r1 = Some d1" using 4 by (simp add: ca_put_def)
    show ?case
    proof (cases "r2 = ca_sz ca")
      case True
      then show ?thesis using d1 ca by (auto simp: store_ok_def)
    next
      case False
      then have "ca_clauses ca r2 = Some d2" using 4 by (simp add: ca_put_def)
      then show ?thesis using d1 4 ca unfolding store_ok_def by blast
    qed
  qed
  moreover have "ca_alloc ps learnt ca = Some (Inr (ca_sz ca, ?ca))"
    using r(1) c(1) by (simp add: ca_alloc_def Let_def)
  ultimately show ?thesis using c r(3) n fresh by (auto simp: ca_put_def)
qed

end
