(* ===== verification/Spec2Isabelle.thy ===== *)
theory Spec2Isabelle
  imports Engine_Properties Unsound_Example CNF_Readers Order_Properties Finder_Properties Saucy_Readers Session_Properties Bit_Queues Sparse_Bitsets Solver_Trail_Properties Solver_Sorting Bounded_Queues Solver_Clause_Stores
begin

text \<open>
  A library that finds the symmetries of a propositional formula and breaks them while a solver searches.

  \<^bold>\<open>The program.\<close> The library reads a formula (\<open>CNFReader\<close>, \<open>CNFModel\<close>), turns it into a coloured graph
  (\<open>CNFGraph\<close>) and lets an external tool find automorphisms of the graph; its callbacks turn each of them into a
  permutation of the literals (\<open>SymmetryFinder\<close> and its two subclasses), or the generators are read from a file
  (\<open>SaucyReader\<close>). The \<open>Group\<close> keeps the generators and the lists of generators that move a variable. When the engine
  is enabled, \<open>OrderFactory\<close> chooses an order of the variables (\<open>Order\<close>, \<open>Orbits\<close>, \<open>DisjointSets\<close>), and \<open>CosyManager\<close>
  makes one \<open>CosyStatus\<close> per generator. A solver then tells the \<open>SymmetryController\<close> of every literal it assigns and
  takes back; the controller keeps the \<open>Assignment\<close>, the manager passes the literal to the statuses of the generators
  that move it, and a status that becomes a reducer puts a symmetry breaking clause (ESBP) into the
  \<open>ClauseInjector\<close>, where the solver fetches it. The repository has two solvers that do so.

  \<^bold>\<open>Theories and code.\<close> Names of files are relative to \<open>src/\<close>; each theory begins with the classes it models. Every
  method of a class is one definition with the method's name; a record holds the members of a class with a prefix.

  \<^item> \<open>Cosy_Prelude\<close>: the result type \<open>error + 'a\<close> with \<open>andThen\<close>, \<open>check\<close> (the debug checks and assertions), \<open>vec_at\<close>
    and \<open>vec_put\<close> (accesses that fail outside the vector), \<open>foldR\<close> (loops that may fail), the machine integers, and
    the collection \<open>run_simps\<close> that evaluates results.
  \<^item> \<open>Bits\<close>, \<open>Bit_Counts\<close>, \<open>Word_Scans\<close>, \<open>Bit_Ranges\<close>: the word functions and range macros of \<open>include/cosy/Bitset.h\<close>
    and \<open>src/Bitset.cc\<close>, in both word sizes; \<open>Bitset\<close>, \<open>Bitset_Iteration\<close>, \<open>Bit_Queues\<close>, \<open>Sparse_Bitsets\<close>: the classes
    of \<open>Bitset.h\<close>.
  \<^item> \<open>Literals\<close>, \<open>Assignments\<close>, \<open>Permutations\<close>, \<open>Symmetry_Groups\<close>, \<open>Clause_Injection\<close>: the classes \<open>Literal\<close>,
    \<open>Assignment\<close>, \<open>Permutation\<close>, \<open>Group\<close> and \<open>ClauseInjector\<close>.
  \<^item> \<open>Orders\<close>, \<open>Disjoint_Sets\<close>, \<open>Orbit_Partitions\<close>, \<open>Order_Factories\<close>: the orders of \<open>include/cosy/Order.h\<close>, and what
    they are computed from.
  \<^item> \<open>Lex_Leaders\<close>: the abstract specification of symmetry breaking, independent of the code. \<open>Statuses\<close>,
    \<open>Breaking_Clauses\<close>, \<open>Managers\<close>: \<open>CosyStatus\<close>, the meaning of the clauses it generates, and \<open>CosyManager\<close>.
  \<^item> \<open>Stream_Buffers\<close>, \<open>CNF_Models\<close>, \<open>CNF_Readers\<close>, \<open>Saucy_Readers\<close>: the input and its parsers.
  \<^item> \<open>CNF_Graphs\<close>, \<open>Symmetry_Finders\<close>: the graph, the input of the tools and their callbacks.
  \<^item> \<open>Literal_Adapters\<close>, \<open>Controllers\<close>, \<open>Controller_Startup\<close>, \<open>Sessions\<close>: the controller, its constructors, and the
    sessions of calls that a solver may make.
  \<^item> \<open>Minisat_Literals\<close>, \<open>Minisat_Clauses\<close>, \<open>Occurrence_Lists\<close>, \<open>Solver_Containers\<close>, \<open>Solver_Heaps\<close>,
    \<open>Heap_Percolation\<close>, \<open>Solver_Sorting\<close>, \<open>Bounded_Queues\<close>: the data structures of the solvers in
    \<open>examples/solvers/\<close>; \<open>Solver_Clause_Stores\<close>: the clauses of \<open>glucose-3.0\<close> and the allocator that holds them;
    \<open>Solver_Trails\<close>: the trail of that solver and its calls of the controller.
  \<^item> \<open>Small_Example\<close>, \<open>Unsound_Example\<close>: the concrete problems of the witnesses. The theories named \<open>..._Properties\<close>
    hold the properties that need several components.

  \<^bold>\<open>What the lemmas show.\<close> Each class has an invariant (\<open>wf_...\<close> or \<open>..._ok\<close>) that its constructor establishes and every
  operation preserves, and lemmas named \<open>..._ok\<close> that give the result of an operation on every branch. Above them:

  \<^item> \<^emph>\<open>Soundness.\<close> A clause of an involutive generator only excludes models for which a smaller model exists
    (\<open>involution_esbp_sound\<close>), and all the clauses of a whole session may be added at once (\<open>session_keeps_satisfiability\<close>).
    For generators that are not involutions this fails (\<open>esbps_can_lose_all_models\<close>).
  \<^item> \<^emph>\<open>The protocol.\<close> Every call that a solver may make in a reachable state succeeds, no reducer goes unreported
    and a conflict clause is delivered (\<open>Session_Properties\<close>). \<open>trail_follower\<close> is the interface between a trail and what
    follows it; the assignment, the controller, and the solver with its controller are its interpretations.
  \<^item> \<^emph>\<open>The way in.\<close> From the text of a problem to a sound controller: the parser, the graph, the callbacks, the group.
  \<^item> \<^emph>\<open>The solver.\<close> The trail, the values, the order heap and the controller stay in step; going back fails
    exactly when the controller was not told of a literal that is taken back (\<open>cancelUntil_needs_notified\<close>).
  \<^item> \<^emph>\<open>Data structures.\<close> Union-find, orbits, bit sets and bit scans, heaps, queues, sorting, clauses and occurrence
    lists against sets, partitions, multisets and lists; an allocation never touches another clause.

  \<^bold>\<open>Bounds and loops.\<close> Machine integers are words of their width. A variable is below \<open>2 ^ 30\<close> where a literal of it is
  formed, as \<open>2 * v + 1\<close> must fit an \<open>int\<close>; larger ones are not representable in the code either. Loops are recursive
  functions with a measure where there is one: the percolating loops (the position), the loop of decisions
  (the size of the heap), the counting loops (the length of the range; ten rounds cover a word of 64 bits). The
  range-based loop over a bit set takes fuel; \<open>iteration_visits_all\<close> shows how much is enough. The parsing loops, the
  walks along a cycle, \<open>Find\<close>, the loop of \<open>BreakIDOrder\<close>, the sort and the loop that enlarges the clause region are
  \<open>partial_function (option)\<close>: not ending is the value \<open>None\<close>, and the termination lemmas show that they return \<open>Some\<close>
  (the last one for regions below \<open>2 ^ 31\<close> words). Sizes and positions inside the vectors of the containers (the tables
  of a permutation, union-find, the heap, the bounded queue) are natural numbers; they agree with the code's \<open>int\<close>
  as long as a container has fewer than \<open>2 ^ 30\<close> elements, as every table with one entry per variable has. The
  floating-point average of the bounded queue is left out.

  \<^bold>\<open>Parameters.\<close> What is not in the repository is an argument: what \<open>gzread\<close> returns, the hash of a clause, the iteration
  orders of unordered maps and sets (assumed to be permutations of the content), the automorphisms that bliss or saucy
  report, the comparison of the activities (any linear order), a random decision or polarity.

  \<^bold>\<open>Not modelled.\<close> Printing, logging, timing and statistics (\<open>Printer.h\<close>, \<open>Logging.h\<close>, \<open>Timer.h\<close>, \<open>Stats.h\<close>), as they
  have no effect on the results; the wrappers of integer types (\<open>IntType.h\<close>, \<open>IntegralTypes.h\<close>), which are the word types
  here; of the solvers, the propagation over the watch lists, conflict analysis, the reduction of the clause database,
  restarts, preprocessing, options and main programs, which are copies of MiniSat and Glucose and only reach the
  library through the calls that \<open>Solver_Trails\<close> models.
\<close>

end
